(* ===== verification/Prelude.thy ===== *)
theory Prelude
  imports Main "HOL-Library.Word" "HOL-Library.While_Combinator"
begin

text \<open>
  Shared vocabulary of the development: the containers the HotSpot sources use
  (\<open>GrowableArray\<close> as a list, \<open>VectorSet\<close> as a set of indices), the types
  of machine integers, the collections of simplification rules the components
  fill, and the generic lemmas about lists, closures and loops that the
  component proofs apply.
\<close>

unbundle bit_operations_syntax

type_synonym u1 = "8 word"
type_synonym jshort = "16 word"
type_synonym juint = "32 word"
type_synonym jint = "32 word"
type_synonym intptr = "64 word"

datatype BasicType = T_BOOLEAN | T_CHAR | T_FLOAT | T_DOUBLE | T_BYTE | T_SHORT | T_INT | T_LONG | T_OBJECT | T_ARRAY
  | T_VOID | T_ADDRESS | T_NARROWOOP | T_METADATA | T_NARROWKLASS | T_CONFLICT | T_ILLEGAL

named_theorems cg_simps "selector/update equations of the connection graph operations"
named_theorems cg_frame "what the connection graph operations leave unchanged"

section \<open>GrowableArray\<close>

text \<open>
  A \<open>GrowableArray\<close> is a list. \<open>append_if_missing\<close> returns whether the
  element was new, as the C++ member function of that name does.
\<close>

definition append_if_missing :: "'a \<Rightarrow> 'a list \<Rightarrow> 'a list \<times> bool" where
  "append_if_missing x xs = (if x \<in> set xs then (xs, False) else (xs @ [x], True))"

lemma append_if_missing_old [simp]: "x \<in> set xs \<Longrightarrow> append_if_missing x xs = (xs, False)"
  by (simp add: append_if_missing_def)

lemma append_if_missing_new [simp]: "x \<notin> set xs \<Longrightarrow> append_if_missing x xs = (xs @ [x], True)"
  by (simp add: append_if_missing_def)

lemma set_append_if_missing [simp]: "set (fst (append_if_missing x xs)) = insert x (set xs)"
  by (auto simp: append_if_missing_def)

lemma distinct_append_if_missing [simp]:
  "distinct (fst (append_if_missing x xs)) \<longleftrightarrow> distinct xs"
  by (simp add: append_if_missing_def)

lemma snd_append_if_missing [simp]: "snd (append_if_missing x xs) \<longleftrightarrow> x \<notin> set xs"
  by (simp add: append_if_missing_def)

section \<open>Loops over lists\<close>

text \<open>A fold whose every step relates the state before it to the state after it.\<close>

lemma fold_rel:
  assumes refl: "\<And>s. R s s" and trans: "\<And>a b c. R a b \<Longrightarrow> R b c \<Longrightarrow> R a c"
    and step: "\<And>x s. x \<in> set xs \<Longrightarrow> R s (f x s)"
  shows "R s (fold f xs s)"
  using step
proof (induction xs arbitrary: s)
  case (Cons x xs)
  then have "R s (f x s)" "R (f x s) (fold f xs (f x s))" by simp_all
  then show ?case by (simp add: trans)
qed (simp add: refl)

text \<open>An invariant of a fold.\<close>

lemma fold_inv:
  assumes "P s" and "\<And>x s. x \<in> set xs \<Longrightarrow> P s \<Longrightarrow> P (f x s)"
  shows "P (fold f xs s)"
  using assms by (induction xs arbitrary: s) simp_all

end
