(* ===== verification/Ideal_Graph.thy ===== *)
theory Ideal_Graph
  imports Prelude
begin

text \<open>
  The ideal graph as the analyses see it. The class \<open>Node\<close> and its subclasses,
  the type lattice and the iterative GVN live outside the sources verified here, so
  every query the code makes of them is a field of a record that is an argument
  of the definitions: an ideal node is its index \<open>_idx\<close>, a query is a function of
  it. The one hypothesis the proofs use is stated at the end: the nodes below
  \<open>unique\<close> are closed under the out edges.
\<close>

type_synonym node = nat

text \<open>The opcodes the modelled code compares with; all others are \<open>Op_other\<close>.\<close>

datatype (plugins only: code) opcode = Op_LoadP | Op_LoadN | Op_LoadPLocked | Op_LoadKlass | Op_LoadNKlass
  | Op_StoreP | Op_StoreN | Op_StoreNKlass | Op_StorePConditional
  | Op_CompareAndExchangeP | Op_CompareAndExchangeN | Op_GetAndSetP | Op_GetAndSetN
  | Op_WeakCompareAndSwapP | Op_WeakCompareAndSwapN | Op_CompareAndSwapP | Op_CompareAndSwapN
  | Op_ConP | Op_ConN | Op_ConNKlass | Op_CmpP | Op_CmpN
  | Op_AddP | Op_CastX2P | Op_CastPP | Op_CheckCastPP | Op_EncodeP | Op_DecodeN | Op_EncodePKlass
  | Op_DecodeNKlass | Op_CMoveP | Op_CreateEx | Op_Parm | Op_PartialSubtypeCheck | Op_Phi | Op_Proj
  | Op_Rethrow | Op_Return | Op_AryEq | Op_HasNegatives | Op_StrComp | Op_StrEquals | Op_StrIndexOf
  | Op_StrIndexOfChar | Op_StrInflatedCopy | Op_StrCompressedCopy | Op_EncodeISOArray | Op_ThreadLocal
  | Op_ArrayCopy | Op_CallLeafNoFP | Op_CallLeaf | Op_CallStaticJava | Op_CallDynamicJava
  | Op_MemBarRelease | Op_other nat

text \<open>The inputs of an \<open>AllocateNode\<close> the code reads by name (\<open>callnode.hpp\<close>).\<close>

datatype AllocInput = AllocSize | KlassNode | InitialTest | ALength

record ideal =
  unique :: nat                                   \<comment> \<open>\<open>Compile::unique()\<close>\<close>
  OffsetBot :: int                                \<comment> \<open>\<open>Type::OffsetBot\<close>, an unknown offset\<close>
  outs :: "node \<Rightarrow> node list"                     \<comment> \<open>\<open>raw_out(0..outcnt()-1)\<close>\<close>
  input :: "node \<Rightarrow> nat \<Rightarrow> node option"            \<comment> \<open>\<open>in(i)\<close>, \<open>None\<close> for \<open>NULL\<close>\<close>
  Opcode :: "node \<Rightarrow> opcode"
  is_Allocate :: "node \<Rightarrow> bool"
  is_AllocateArray :: "node \<Rightarrow> bool"
  is_CallStaticJava :: "node \<Rightarrow> bool"
  is_Phi :: "node \<Rightarrow> bool"
  is_Loop :: "node \<Rightarrow> bool"
  is_Load :: "node \<Rightarrow> bool"
  is_EncodeP :: "node \<Rightarrow> bool"
  is_CheckCastPP :: "node \<Rightarrow> bool"
  is_LoadStore :: "node \<Rightarrow> bool"
  is_Mem :: "node \<Rightarrow> bool"
  is_mismatched_access :: "node \<Rightarrow> bool"
  is_Con :: "node \<Rightarrow> bool"
  is_top :: "node \<Rightarrow> bool"
  is_null_ptr_type :: "node \<Rightarrow> bool"              \<comment> \<open>\<open>type() == TypePtr::NULL_PTR\<close>\<close>
  ptr_type :: "node \<Rightarrow> nat"                       \<comment> \<open>\<open>get_ptr_type()->make_ptr()\<close>, hash-consed\<close>
  is_rawptr_type :: "node \<Rightarrow> bool"                \<comment> \<open>\<open>bottom_type()->isa_rawptr()\<close>\<close>
  is_obj_array_klass :: "node \<Rightarrow> bool"            \<comment> \<open>of the klass pointer type of a node\<close>
  alloc_in :: "node \<Rightarrow> AllocInput \<Rightarrow> node"
  result_cast :: "node \<Rightarrow> node option"
  initialization :: "node \<Rightarrow> node option"         \<comment> \<open>the \<open>Initialize\<close> node of an allocation\<close>
  find_intptr_t_con :: "node \<Rightarrow> int \<Rightarrow> int"       \<comment> \<open>constant value of a node or the default\<close>
  find_int_con :: "node \<Rightarrow> int \<Rightarrow> int"
  captured_oop_store :: "node \<Rightarrow> int \<Rightarrow> bool"
    \<comment> \<open>an \<open>Initialize\<close> node captured a store of an oop at the offset for this allocation\<close>

definition closed_outs :: "ideal \<Rightarrow> bool" where
  "closed_outs I \<longleftrightarrow> (\<forall>n < unique I. \<forall>m \<in> set (outs I n). m < unique I)"

lemma closed_outsD: "closed_outs I \<Longrightarrow> n < unique I \<Longrightarrow> m \<in> set (outs I n) \<Longrightarrow> m < unique I"
  by (auto simp: closed_outs_def)

text \<open>An empty graph, for building concrete instances.\<close>

definition ideal0 :: ideal where
  "ideal0 = \<lparr>unique = 0, OffsetBot = -2000000001, outs = (\<lambda>_. []), input = (\<lambda>_ _. None), Opcode = (\<lambda>_. Op_other 0),
    is_Allocate = (\<lambda>_. False), is_AllocateArray = (\<lambda>_. False), is_CallStaticJava = (\<lambda>_. False),
    is_Phi = (\<lambda>_. False), is_Loop = (\<lambda>_. False), is_Load = (\<lambda>_. False),
    is_EncodeP = (\<lambda>_. False), is_CheckCastPP = (\<lambda>_. False), is_LoadStore = (\<lambda>_. False),
    is_Mem = (\<lambda>_. False), is_mismatched_access = (\<lambda>_. False), is_Con = (\<lambda>_. False),
    is_top = (\<lambda>_. False), is_null_ptr_type = (\<lambda>_. False), ptr_type = (\<lambda>_. 0),
    is_rawptr_type = (\<lambda>_. False), is_obj_array_klass = (\<lambda>_. False),
    alloc_in = (\<lambda>_ _. 0), result_cast = (\<lambda>_. None), initialization = (\<lambda>_. None),
    find_intptr_t_con = (\<lambda>_ d. d), find_int_con = (\<lambda>_ d. d),
    captured_oop_store = (\<lambda>_ _. False)\<rparr>"

end
