(* ===== verification/Points_To.thy ===== *)
theory Points_To
  imports Ideal_Graph
begin

text \<open>
  The nodes of the connection graph and the graph itself (\<open>escape.hpp\<close>). A
  \<open>PointsToNode*\<close> is the node's \<open>_pidx\<close>; the nodes are cells of a heap
  (\<open>cg_heap\<close>), so that two pointers to one node see each other's updates. The
  subclass \<open>FieldNode\<close> adds its members to the same record.
\<close>

section \<open>PointsToNode\<close>

datatype NodeType = UnknownType | JavaObject | LocalVar | Field | Arraycopy

datatype EscapeState = UnknownEscape | NoEscape | ArgEscape | GlobalEscape

fun es_ord :: "EscapeState \<Rightarrow> nat" where
  "es_ord UnknownEscape = 0"
| "es_ord NoEscape = 1"
| "es_ord ArgEscape = 2"
| "es_ord GlobalEscape = 3"

lemma es_ord_inject [simp]: "es_ord a = es_ord b \<longleftrightarrow> a = b"
  by (cases a; cases b) auto

lemma es_ord_le3: "es_ord a \<le> 3"
  by (cases a) auto

instantiation EscapeState :: linorder
begin

definition less_eq_EscapeState :: "EscapeState \<Rightarrow> EscapeState \<Rightarrow> bool" where
  "less_eq_EscapeState a b \<longleftrightarrow> es_ord a \<le> es_ord b"

definition less_EscapeState :: "EscapeState \<Rightarrow> EscapeState \<Rightarrow> bool" where
  "less_EscapeState a b \<longleftrightarrow> es_ord a < es_ord b"

instance
  by standard (auto simp: less_eq_EscapeState_def less_EscapeState_def)

end

lemmas es_less_defs = less_eq_EscapeState_def less_EscapeState_def

type_synonym pt = nat

text \<open>
  An entry of \<open>_uses\<close>: the C++ code marks a base use by setting the low bit of the
  pointer (\<open>add_base_use\<close>, \<open>is_base_use\<close>, \<open>get_use_node\<close>).
\<close>

datatype pt_use = Use (get_use_node: pt) | BaseUse (get_use_node: pt)

fun is_base_use :: "pt_use \<Rightarrow> bool" where
  "is_base_use (Use _) = False"
| "is_base_use (BaseUse _) = True"

record PointsToNode =
  pt_edges :: "pt list"
  pt_uses :: "pt_use list"
  pt_type :: NodeType
  pt_flags :: u1
  pt_escape :: EscapeState
  pt_fields_escape :: EscapeState
  pt_node :: node
  pt_bases :: "pt list"
  pt_offset :: int
  pt_is_oop :: bool
  pt_has_unknown_base :: bool

definition ScalarReplaceable :: u1 where "ScalarReplaceable = 1"
definition PointsToUnknown :: u1 where "PointsToUnknown = 2"
definition ArraycopySrc :: u1 where "ArraycopySrc = 4"
definition ArraycopyDst :: u1 where "ArraycopyDst = 8"

lemmas flag_defs = ScalarReplaceable_def PointsToUnknown_def ArraycopySrc_def ArraycopyDst_def

definition has_unknown_ptr :: "PointsToNode \<Rightarrow> bool" where
  "has_unknown_ptr n \<longleftrightarrow> pt_flags n AND PointsToUnknown \<noteq> 0"

definition set_has_unknown_ptr :: "PointsToNode \<Rightarrow> PointsToNode" where
  "set_has_unknown_ptr n = n\<lparr>pt_flags := pt_flags n OR PointsToUnknown\<rparr>"

definition arraycopy_src :: "PointsToNode \<Rightarrow> bool" where
  "arraycopy_src n \<longleftrightarrow> pt_flags n AND ArraycopySrc \<noteq> 0"

definition set_arraycopy_src :: "PointsToNode \<Rightarrow> PointsToNode" where
  "set_arraycopy_src n = n\<lparr>pt_flags := pt_flags n OR ArraycopySrc\<rparr>"

definition arraycopy_dst :: "PointsToNode \<Rightarrow> bool" where
  "arraycopy_dst n \<longleftrightarrow> pt_flags n AND ArraycopyDst \<noteq> 0"

definition set_arraycopy_dst :: "PointsToNode \<Rightarrow> PointsToNode" where
  "set_arraycopy_dst n = n\<lparr>pt_flags := pt_flags n OR ArraycopyDst\<rparr>"

definition scalar_replaceable :: "PointsToNode \<Rightarrow> bool" where
  "scalar_replaceable n \<longleftrightarrow> pt_flags n AND ScalarReplaceable \<noteq> 0"

definition set_scalar_replaceable :: "bool \<Rightarrow> PointsToNode \<Rightarrow> PointsToNode" where
  "set_scalar_replaceable v n =
     (if v then n\<lparr>pt_flags := pt_flags n OR ScalarReplaceable\<rparr>
      else n\<lparr>pt_flags := pt_flags n AND NOT ScalarReplaceable\<rparr>)"

text \<open>The four flags are independent bits of the byte.\<close>

lemma u1_and_pow: "x AND (push_bit k 1 :: u1) \<noteq> 0 \<longleftrightarrow> bit x k \<and> k < 8"
proof -
  have "x AND push_bit k 1 \<noteq> 0 \<longleftrightarrow> (\<exists>n. bit (x AND push_bit k (1::u1)) n)"
    by (metis bit_eq_iff bit_0_eq bot_apply bot_bool_def)
  also have "\<dots> \<longleftrightarrow> bit x k \<and> k < 8"
    by (auto simp: bit_simps dest: bit_imp_le_length)
  finally show ?thesis .
qed

lemma flag_bits:
  "ScalarReplaceable = push_bit 0 1" "PointsToUnknown = push_bit 1 1"
  "ArraycopySrc = push_bit 2 1" "ArraycopyDst = push_bit 3 1"
  by (simp_all add: flag_defs push_bit_eq_mult)

lemma flag_tests:
  "has_unknown_ptr n \<longleftrightarrow> bit (pt_flags n) 1" "arraycopy_src n \<longleftrightarrow> bit (pt_flags n) 2"
  "arraycopy_dst n \<longleftrightarrow> bit (pt_flags n) 3" "scalar_replaceable n \<longleftrightarrow> bit (pt_flags n) 0"
  by (simp_all only: has_unknown_ptr_def arraycopy_src_def arraycopy_dst_def
        scalar_replaceable_def flag_bits u1_and_pow) simp_all


lemma bit_or_flag:
  "bit (x OR (push_bit k 1 :: u1)) j \<longleftrightarrow> bit x j \<or> (j = k \<and> k < 8)"
  by (auto simp: bit_simps)

lemma bit_and_not_flag:
  "k < 8 \<Longrightarrow> j < 8 \<Longrightarrow> bit (x AND NOT (push_bit k 1 :: u1)) j \<longleftrightarrow> bit x j \<and> j \<noteq> k"
  by (auto simp: bit_simps)

lemma flag_updates:
  "pt_flags (set_has_unknown_ptr n) = pt_flags n OR push_bit 1 1"
  "pt_flags (set_arraycopy_src n) = pt_flags n OR push_bit 2 1"
  "pt_flags (set_arraycopy_dst n) = pt_flags n OR push_bit 3 1"
  "pt_flags (set_scalar_replaceable True n) = pt_flags n OR push_bit 0 1"
  "pt_flags (set_scalar_replaceable False n) = pt_flags n AND NOT (push_bit 0 1)"
  by (simp_all add: set_has_unknown_ptr_def set_arraycopy_src_def set_arraycopy_dst_def
        set_scalar_replaceable_def flag_defs)

lemma flags_set_has_unknown_ptr [simp]:
  "has_unknown_ptr (set_has_unknown_ptr n)"
  "arraycopy_src (set_has_unknown_ptr n) = arraycopy_src n"
  "arraycopy_dst (set_has_unknown_ptr n) = arraycopy_dst n"
  "scalar_replaceable (set_has_unknown_ptr n) = scalar_replaceable n"
  by (simp_all only: flag_tests flag_updates bit_or_flag) simp_all

lemma flags_set_arraycopy_src [simp]:
  "has_unknown_ptr (set_arraycopy_src n) = has_unknown_ptr n"
  "arraycopy_src (set_arraycopy_src n)"
  "arraycopy_dst (set_arraycopy_src n) = arraycopy_dst n"
  "scalar_replaceable (set_arraycopy_src n) = scalar_replaceable n"
  by (simp_all only: flag_tests flag_updates bit_or_flag) simp_all

lemma flags_set_arraycopy_dst [simp]:
  "has_unknown_ptr (set_arraycopy_dst n) = has_unknown_ptr n"
  "arraycopy_src (set_arraycopy_dst n) = arraycopy_src n"
  "arraycopy_dst (set_arraycopy_dst n)"
  "scalar_replaceable (set_arraycopy_dst n) = scalar_replaceable n"
  by (simp_all only: flag_tests flag_updates bit_or_flag) simp_all

lemma flags_set_scalar_replaceable [simp]:
  "has_unknown_ptr (set_scalar_replaceable v n) = has_unknown_ptr n"
  "arraycopy_src (set_scalar_replaceable v n) = arraycopy_src n"
  "arraycopy_dst (set_scalar_replaceable v n) = arraycopy_dst n"
  "scalar_replaceable (set_scalar_replaceable v n) = v"
  by (cases v; simp_all only: flag_tests flag_updates bit_or_flag; simp add: bit_simps)+

text \<open>The flag setters change the flag byte only.\<close>

lemma set_flags_frame [simp]:
  "pt_edges (set_has_unknown_ptr n) = pt_edges n" "pt_uses (set_has_unknown_ptr n) = pt_uses n"
  "pt_type (set_has_unknown_ptr n) = pt_type n" "pt_escape (set_has_unknown_ptr n) = pt_escape n"
  "pt_fields_escape (set_has_unknown_ptr n) = pt_fields_escape n"
  "pt_node (set_has_unknown_ptr n) = pt_node n" "pt_bases (set_has_unknown_ptr n) = pt_bases n"
  "pt_offset (set_has_unknown_ptr n) = pt_offset n" "pt_is_oop (set_has_unknown_ptr n) = pt_is_oop n"
  "pt_has_unknown_base (set_has_unknown_ptr n) = pt_has_unknown_base n"
  by (simp_all add: set_has_unknown_ptr_def)

lemma set_arraycopy_src_frame [simp]:
  "pt_edges (set_arraycopy_src n) = pt_edges n" "pt_uses (set_arraycopy_src n) = pt_uses n"
  "pt_type (set_arraycopy_src n) = pt_type n" "pt_escape (set_arraycopy_src n) = pt_escape n"
  "pt_fields_escape (set_arraycopy_src n) = pt_fields_escape n"
  "pt_node (set_arraycopy_src n) = pt_node n" "pt_bases (set_arraycopy_src n) = pt_bases n"
  "pt_offset (set_arraycopy_src n) = pt_offset n" "pt_is_oop (set_arraycopy_src n) = pt_is_oop n"
  "pt_has_unknown_base (set_arraycopy_src n) = pt_has_unknown_base n"
  by (simp_all add: set_arraycopy_src_def)

lemma set_arraycopy_dst_frame [simp]:
  "pt_edges (set_arraycopy_dst n) = pt_edges n" "pt_uses (set_arraycopy_dst n) = pt_uses n"
  "pt_type (set_arraycopy_dst n) = pt_type n" "pt_escape (set_arraycopy_dst n) = pt_escape n"
  "pt_fields_escape (set_arraycopy_dst n) = pt_fields_escape n"
  "pt_node (set_arraycopy_dst n) = pt_node n" "pt_bases (set_arraycopy_dst n) = pt_bases n"
  "pt_offset (set_arraycopy_dst n) = pt_offset n" "pt_is_oop (set_arraycopy_dst n) = pt_is_oop n"
  "pt_has_unknown_base (set_arraycopy_dst n) = pt_has_unknown_base n"
  by (simp_all add: set_arraycopy_dst_def)

lemma set_scalar_replaceable_frame [simp]:
  "pt_edges (set_scalar_replaceable v n) = pt_edges n" "pt_uses (set_scalar_replaceable v n) = pt_uses n"
  "pt_type (set_scalar_replaceable v n) = pt_type n" "pt_escape (set_scalar_replaceable v n) = pt_escape n"
  "pt_fields_escape (set_scalar_replaceable v n) = pt_fields_escape n"
  "pt_node (set_scalar_replaceable v n) = pt_node n" "pt_bases (set_scalar_replaceable v n) = pt_bases n"
  "pt_offset (set_scalar_replaceable v n) = pt_offset n" "pt_is_oop (set_scalar_replaceable v n) = pt_is_oop n"
  "pt_has_unknown_base (set_scalar_replaceable v n) = pt_has_unknown_base n"
  by (simp_all add: set_scalar_replaceable_def)

lemma flags_field_update [simp]:
  "has_unknown_ptr (n\<lparr>pt_edges := e\<rparr>) = has_unknown_ptr n"
  "has_unknown_ptr (n\<lparr>pt_uses := u\<rparr>) = has_unknown_ptr n"
  "has_unknown_ptr (n\<lparr>pt_bases := e\<rparr>) = has_unknown_ptr n"
  "has_unknown_ptr (n\<lparr>pt_has_unknown_base := b\<rparr>) = has_unknown_ptr n"
  "has_unknown_ptr (n\<lparr>pt_escape := s\<rparr>) = has_unknown_ptr n"
  "has_unknown_ptr (n\<lparr>pt_fields_escape := s\<rparr>) = has_unknown_ptr n"
  "scalar_replaceable (n\<lparr>pt_edges := e\<rparr>) = scalar_replaceable n"
  "scalar_replaceable (n\<lparr>pt_uses := u\<rparr>) = scalar_replaceable n"
  "scalar_replaceable (n\<lparr>pt_bases := e\<rparr>) = scalar_replaceable n"
  "scalar_replaceable (n\<lparr>pt_has_unknown_base := b\<rparr>) = scalar_replaceable n"
  "scalar_replaceable (n\<lparr>pt_escape := s\<rparr>) = scalar_replaceable n"
  "scalar_replaceable (n\<lparr>pt_fields_escape := s\<rparr>) = scalar_replaceable n"
  "arraycopy_dst (n\<lparr>pt_edges := e\<rparr>) = arraycopy_dst n"
  "arraycopy_dst (n\<lparr>pt_uses := u\<rparr>) = arraycopy_dst n"
  "arraycopy_dst (n\<lparr>pt_escape := s\<rparr>) = arraycopy_dst n"
  "arraycopy_dst (n\<lparr>pt_fields_escape := s\<rparr>) = arraycopy_dst n"
  "arraycopy_dst (n\<lparr>pt_bases := e\<rparr>) = arraycopy_dst n"
  "arraycopy_dst (n\<lparr>pt_has_unknown_base := b\<rparr>) = arraycopy_dst n"
  "arraycopy_src (n\<lparr>pt_edges := e\<rparr>) = arraycopy_src n"
  "arraycopy_src (n\<lparr>pt_uses := u\<rparr>) = arraycopy_src n"
  "arraycopy_src (n\<lparr>pt_bases := e\<rparr>) = arraycopy_src n"
  by (simp_all add: has_unknown_ptr_def scalar_replaceable_def arraycopy_dst_def arraycopy_src_def)

section \<open>ConnectionGraph\<close>

text \<open>
  The graph: \<open>_nodes\<close> maps the index of an ideal node to its points-to node,
  \<open>cg_nodes_size\<close> is its length (fixed to \<open>C->unique()\<close> by the constructor). The
  members that belong to the splitting of types are not part of this record.
\<close>

record ConnectionGraph =
  cg_nodes :: "node \<Rightarrow> pt option"
  cg_nodes_size :: nat
  cg_heap :: "pt \<Rightarrow> PointsToNode"
  cg_worklist :: "pt_use list"
  cg_in_worklist :: "nat set"
  cg_next_pidx :: nat
  cg_collecting :: bool
  cg_verify :: bool
  cg_has_locks :: bool
  null_obj :: pt
  phantom_obj :: pt

abbreviation edges :: "ConnectionGraph \<Rightarrow> pt \<Rightarrow> pt list" where
  "edges G p \<equiv> pt_edges (cg_heap G p)"
abbreviation uses :: "ConnectionGraph \<Rightarrow> pt \<Rightarrow> pt_use list" where
  "uses G p \<equiv> pt_uses (cg_heap G p)"
abbreviation bases :: "ConnectionGraph \<Rightarrow> pt \<Rightarrow> pt list" where
  "bases G p \<equiv> pt_bases (cg_heap G p)"
abbreviation escape :: "ConnectionGraph \<Rightarrow> pt \<Rightarrow> EscapeState" where
  "escape G p \<equiv> pt_escape (cg_heap G p)"
abbreviation fields_escape :: "ConnectionGraph \<Rightarrow> pt \<Rightarrow> EscapeState" where
  "fields_escape G p \<equiv> pt_fields_escape (cg_heap G p)"
abbreviation is_JavaObject :: "ConnectionGraph \<Rightarrow> pt \<Rightarrow> bool" where
  "is_JavaObject G p \<equiv> pt_type (cg_heap G p) = JavaObject"
abbreviation is_LocalVar :: "ConnectionGraph \<Rightarrow> pt \<Rightarrow> bool" where
  "is_LocalVar G p \<equiv> pt_type (cg_heap G p) = LocalVar"
abbreviation is_Field :: "ConnectionGraph \<Rightarrow> pt \<Rightarrow> bool" where
  "is_Field G p \<equiv> pt_type (cg_heap G p) = Field"
abbreviation is_Arraycopy :: "ConnectionGraph \<Rightarrow> pt \<Rightarrow> bool" where
  "is_Arraycopy G p \<equiv> pt_type (cg_heap G p) = Arraycopy"
abbreviation ideal_node :: "ConnectionGraph \<Rightarrow> pt \<Rightarrow> node" where
  "ideal_node G p \<equiv> pt_node (cg_heap G p)"

definition upd_pt :: "pt \<Rightarrow> (PointsToNode \<Rightarrow> PointsToNode) \<Rightarrow> ConnectionGraph \<Rightarrow> ConnectionGraph" where
  "upd_pt p f G = G\<lparr>cg_heap := (cg_heap G)(p := f (cg_heap G p))\<rparr>"

lemma upd_pt_simps [simp]:
  "cg_heap (upd_pt p f G) = (cg_heap G)(p := f (cg_heap G p))"
  "cg_nodes (upd_pt p f G) = cg_nodes G" "cg_nodes_size (upd_pt p f G) = cg_nodes_size G"
  "cg_worklist (upd_pt p f G) = cg_worklist G" "cg_in_worklist (upd_pt p f G) = cg_in_worklist G"
  "cg_next_pidx (upd_pt p f G) = cg_next_pidx G" "null_obj (upd_pt p f G) = null_obj G"
  "phantom_obj (upd_pt p f G) = phantom_obj G" "cg_collecting (upd_pt p f G) = cg_collecting G"
  "cg_verify (upd_pt p f G) = cg_verify G" "cg_has_locks (upd_pt p f G) = cg_has_locks G"
  by (simp_all add: upd_pt_def)

end
