(* ===== verification/Conn_Graph.thy ===== *)
theory Conn_Graph
  imports Points_To
begin

text \<open>
  Construction of the connection graph (\<open>escape.hpp\<close>, \<open>escape.cpp\<close>): the
  constructor, the functions that register ideal nodes, the two functions that
  add edges, and the well-formedness invariant of the graph that each of them keeps.
\<close>

section \<open>Creating nodes\<close>

definition new_PointsToNode :: "node \<Rightarrow> EscapeState \<Rightarrow> NodeType \<Rightarrow> PointsToNode" where
  "new_PointsToNode n es t =
     \<lparr>pt_edges = [], pt_uses = [], pt_type = t, pt_flags = ScalarReplaceable,
      pt_escape = es, pt_fields_escape = es, pt_node = n,
      pt_bases = [], pt_offset = 0, pt_is_oop = False, pt_has_unknown_base = False\<rparr>"

definition new_LocalVarNode :: "node \<Rightarrow> EscapeState \<Rightarrow> PointsToNode" where
  "new_LocalVarNode n es = new_PointsToNode n es LocalVar"

definition new_JavaObjectNode :: "node \<Rightarrow> EscapeState \<Rightarrow> PointsToNode" where
  "new_JavaObjectNode n es =
     (let p = new_PointsToNode n es JavaObject
      in if es > NoEscape then set_scalar_replaceable False p else p)"

definition new_FieldNode :: "node \<Rightarrow> EscapeState \<Rightarrow> int \<Rightarrow> bool \<Rightarrow> PointsToNode" where
  "new_FieldNode n es offs is_oop =
     (new_PointsToNode n es Field)
       \<lparr>pt_offset := offs, pt_is_oop := is_oop, pt_has_unknown_base := False\<rparr>"

definition new_ArraycopyNode :: "node \<Rightarrow> EscapeState \<Rightarrow> PointsToNode" where
  "new_ArraycopyNode n es = new_PointsToNode n es Arraycopy"

text \<open>
  Allocation of a node in the arena: it takes the next \<open>_pidx\<close>, and
  \<open>_nodes.at_put\<close> registers it.
\<close>

definition register_pt :: "node \<Rightarrow> PointsToNode \<Rightarrow> ConnectionGraph \<Rightarrow> ConnectionGraph" where
  "register_pt n p G =
     G\<lparr>cg_heap := (cg_heap G)(cg_next_pidx G := p),
       cg_nodes := (cg_nodes G)(n := Some (cg_next_pidx G)),
       cg_next_pidx := Suc (cg_next_pidx G)\<rparr>"

definition ptnode_adr :: "ConnectionGraph \<Rightarrow> node \<Rightarrow> pt option" where
  "ptnode_adr G idx = cg_nodes G idx"

definition map_ideal_node :: "node \<Rightarrow> pt \<Rightarrow> ConnectionGraph \<Rightarrow> ConnectionGraph" where
  "map_ideal_node n p G = G\<lparr>cg_nodes := (cg_nodes G)(n := Some p)\<rparr>"

definition add_local_var :: "node \<Rightarrow> EscapeState \<Rightarrow> ConnectionGraph \<Rightarrow> ConnectionGraph" where
  "add_local_var n es G =
     (case cg_nodes G n of Some _ \<Rightarrow> G | None \<Rightarrow> register_pt n (new_LocalVarNode n es) G)"

definition add_java_object :: "node \<Rightarrow> EscapeState \<Rightarrow> ConnectionGraph \<Rightarrow> ConnectionGraph" where
  "add_java_object n es G =
     (case cg_nodes G n of Some _ \<Rightarrow> G | None \<Rightarrow> register_pt n (new_JavaObjectNode n es) G)"

text \<open>
  \<open>add_field\<close> asks \<open>is_oop_field(n, offset, &unsafe)\<close>, which reads the type lattice;
  its two results are the arguments \<open>is_oop\<close> and \<open>unsafe\<close>.
\<close>

definition add_field ::
  "node \<Rightarrow> EscapeState \<Rightarrow> int \<Rightarrow> bool \<Rightarrow> bool \<Rightarrow> ConnectionGraph \<Rightarrow> ConnectionGraph" where
  "add_field n es offset is_oop unsafe G =
     (case cg_nodes G n of
        Some _ \<Rightarrow> G
      | None \<Rightarrow>
          let es' = (if unsafe then GlobalEscape else es)
          in register_pt n (new_FieldNode n es' offset is_oop) G)"

section \<open>Edges\<close>

definition pt_add_edge :: "pt \<Rightarrow> pt \<Rightarrow> ConnectionGraph \<Rightarrow> ConnectionGraph \<times> bool" where
  "pt_add_edge from to G =
     (let (es, is_new) = append_if_missing to (edges G from)
      in (upd_pt from (\<lambda>n. n\<lparr>pt_edges := es\<rparr>) G, is_new))"

definition pt_add_use :: "pt \<Rightarrow> pt_use \<Rightarrow> ConnectionGraph \<Rightarrow> ConnectionGraph \<times> bool" where
  "pt_add_use p u G =
     (let (us, is_new) = append_if_missing u (uses G p)
      in (upd_pt p (\<lambda>n. n\<lparr>pt_uses := us\<rparr>) G, is_new))"

definition pt_add_base :: "pt \<Rightarrow> pt \<Rightarrow> ConnectionGraph \<Rightarrow> ConnectionGraph \<times> bool" where
  "pt_add_base f b G =
     (let (bs, is_new) = append_if_missing b (bases G f)
      in (upd_pt f (\<lambda>n. n\<lparr>pt_bases := bs\<rparr>) G, is_new))"

definition add_edge :: "pt \<Rightarrow> pt \<Rightarrow> ConnectionGraph \<Rightarrow> ConnectionGraph \<times> bool" where
  "add_edge from to G =
     (if to = phantom_obj G \<and> has_unknown_ptr (cg_heap G from) then (G, False)
      else
        let G1 = (if to = phantom_obj G then upd_pt from set_has_unknown_ptr G else G);
            (G2, is_new) = pt_add_edge from to G1
        in if is_new then pt_add_use to (Use from) G2 else (G2, is_new))"

definition add_base :: "pt \<Rightarrow> pt \<Rightarrow> ConnectionGraph \<Rightarrow> ConnectionGraph \<times> bool" where
  "add_base from to G =
     (if to = phantom_obj G \<and> pt_has_unknown_base (cg_heap G from) then (G, False)
      else
        let G1 = (if to = phantom_obj G
                  then upd_pt from (\<lambda>n. n\<lparr>pt_has_unknown_base := True\<rparr>) G else G);
            (G2, is_new) = pt_add_base from to G1
        in if is_new then
             if to = null_obj G then (G2, is_new)
             else if is_JavaObject G2 to then pt_add_edge to from G2
             else pt_add_use to (BaseUse from) G2
           else (G2, is_new))"

definition add_arraycopy ::
  "node \<Rightarrow> EscapeState \<Rightarrow> pt \<Rightarrow> pt \<Rightarrow> ConnectionGraph \<Rightarrow> ConnectionGraph" where
  "add_arraycopy n es src dst G =
     (case cg_nodes G n of
        Some _ \<Rightarrow> G
      | None \<Rightarrow>
          let ptadr = cg_next_pidx G;
              G1 = register_pt n (new_ArraycopyNode n es) G;
              G2 = fst (add_edge ptadr src G1);
              G3 = upd_pt src set_arraycopy_src G2;
              G4 = fst (add_edge dst ptadr G3)
          in upd_pt dst set_arraycopy_dst G4)"

text \<open>
  \<open>add_local_var_and_edge\<close>: on the first iteration (\<open>first\<close> stands for
  \<open>delayed_worklist != NULL\<close>) a node whose target is not registered yet is pushed on the
  delayed worklist; afterwards the target must be registered.
\<close>

definition add_local_var_and_edge ::
  "node \<Rightarrow> EscapeState \<Rightarrow> node \<Rightarrow> bool \<Rightarrow> node list \<Rightarrow> ConnectionGraph \<Rightarrow>
     (ConnectionGraph \<times> node list) option" where
  "add_local_var_and_edge n es to first delayed G =
     (let ptn = ptnode_adr G to;
          G1 = (if first then add_local_var n es G else G)
      in if first \<and> ptn = None then Some (G1, if n \<in> set delayed then delayed else delayed @ [n])
         else case (ptnode_adr G1 n, ptn) of
                (Some p, Some q) \<Rightarrow> Some (fst (add_edge p q G1), delayed)
              | _ \<Rightarrow> None)"

definition pt_none :: PointsToNode where
  "pt_none = new_PointsToNode 0 UnknownEscape UnknownType"

text \<open>The constructor; \<open>top_node\<close> (\<open>C->top()\<close>), \<open>oop_null\<close> and \<open>noop_null\<close> are ideal nodes.\<close>

definition new_ConnectionGraph ::
  "nat \<Rightarrow> node \<Rightarrow> node \<Rightarrow> node \<Rightarrow> bool \<Rightarrow> ConnectionGraph" where
  "new_ConnectionGraph unq top_node oop_null noop_null UseCompressedOops =
     (let G0 = \<lparr>cg_nodes = (\<lambda>_. None), cg_nodes_size = unq, cg_heap = (\<lambda>_. pt_none),
                cg_worklist = [], cg_in_worklist = {}, cg_next_pidx = 0, cg_collecting = True,
                cg_verify = False, cg_has_locks = False, null_obj = 0, phantom_obj = 0\<rparr>;
          G1 = add_java_object top_node GlobalEscape G0;
          G2 = G1\<lparr>phantom_obj := the (ptnode_adr G1 top_node)\<rparr>;
          G3 = add_java_object oop_null NoEscape G2;
          G4 = G3\<lparr>null_obj := the (ptnode_adr G3 oop_null)\<rparr>
      in if UseCompressedOops then map_ideal_node noop_null (null_obj G4) G4 else G4)"

section \<open>The invariant of the graph\<close>

text \<open>
  Edges and uses mirror each other; a Java object's edge to a field mirrors the
  field's base; the marked uses mirror the bases that are not Java objects; the
  two \<open>unknown\<close> marks say whether the phantom object is among the edges or bases.
\<close>

definition wf_specials :: "ConnectionGraph \<Rightarrow> bool" where
  "wf_specials G \<longleftrightarrow>
     phantom_obj G < cg_next_pidx G \<and> null_obj G < cg_next_pidx G \<and> phantom_obj G \<noteq> null_obj G \<and>
     is_JavaObject G (phantom_obj G) \<and> is_JavaObject G (null_obj G) \<and> edges G (null_obj G) = []"

definition wf_range :: "ConnectionGraph \<Rightarrow> bool" where
  "wf_range G \<longleftrightarrow>
     (\<forall>p q. q \<in> set (edges G p) \<longrightarrow> p < cg_next_pidx G \<and> q < cg_next_pidx G) \<and>
     (\<forall>p q. q \<in> set (bases G p) \<longrightarrow> p < cg_next_pidx G \<and> q < cg_next_pidx G \<and> is_Field G p) \<and>
     (\<forall>n p. cg_nodes G n = Some p \<longrightarrow> p < cg_next_pidx G) \<and>
     (\<forall>p \<ge> cg_next_pidx G. cg_heap G p = pt_none) \<and>
     (\<forall>p q. q \<in> set (edges G p) \<longrightarrow> is_Field G p \<longrightarrow> pt_is_oop (cg_heap G p))"

definition wf_distinct :: "ConnectionGraph \<Rightarrow> bool" where
  "wf_distinct G \<longleftrightarrow> (\<forall>p. distinct (edges G p) \<and> distinct (uses G p) \<and> distinct (bases G p))"

definition wf_uses :: "ConnectionGraph \<Rightarrow> bool" where
  "wf_uses G \<longleftrightarrow> (\<forall>p q. Use p \<in> set (uses G q) \<longleftrightarrow>
     q \<in> set (edges G p) \<and> \<not> (is_JavaObject G p \<and> is_Field G q))"

definition wf_base_uses :: "ConnectionGraph \<Rightarrow> bool" where
  "wf_base_uses G \<longleftrightarrow> (\<forall>f q. BaseUse f \<in> set (uses G q) \<longleftrightarrow>
     q \<in> set (bases G f) \<and> \<not> is_JavaObject G q)"

definition wf_fields :: "ConnectionGraph \<Rightarrow> bool" where
  "wf_fields G \<longleftrightarrow> (\<forall>p f. is_JavaObject G p \<and> is_Field G f \<longrightarrow>
     (f \<in> set (edges G p) \<longleftrightarrow> p \<in> set (bases G f) \<and> p \<noteq> null_obj G))"

definition wf_unknown :: "ConnectionGraph \<Rightarrow> bool" where
  "wf_unknown G \<longleftrightarrow>
     (\<forall>p. has_unknown_ptr (cg_heap G p) \<longleftrightarrow> phantom_obj G \<in> set (edges G p)) \<and>
     (\<forall>p. pt_has_unknown_base (cg_heap G p) \<longleftrightarrow> phantom_obj G \<in> set (bases G p))"

definition cg_wf :: "ConnectionGraph \<Rightarrow> bool" where
  "cg_wf G \<longleftrightarrow> wf_specials G \<and> wf_range G \<and> wf_distinct G \<and> wf_uses G \<and>
     wf_base_uses G \<and> wf_fields G \<and> wf_unknown G"

lemmas wf_defs = wf_specials_def wf_range_def wf_distinct_def wf_uses_def wf_base_uses_def
  wf_fields_def wf_unknown_def

lemma cg_wfI:
  assumes "wf_specials G" "wf_range G" "wf_distinct G" "wf_uses G" "wf_base_uses G"
    "wf_fields G" "wf_unknown G"
  shows "cg_wf G"
  using assms by (simp add: cg_wf_def)

lemma cg_wf_specials: "cg_wf G \<Longrightarrow> wf_specials G" by (simp add: cg_wf_def)
lemma cg_wf_range: "cg_wf G \<Longrightarrow> wf_range G" by (simp add: cg_wf_def)
lemma cg_wf_distinct: "cg_wf G \<Longrightarrow> wf_distinct G" by (simp add: cg_wf_def)
lemma cg_wf_uses: "cg_wf G \<Longrightarrow> wf_uses G" by (simp add: cg_wf_def)
lemma cg_wf_base_uses: "cg_wf G \<Longrightarrow> wf_base_uses G" by (simp add: cg_wf_def)
lemma cg_wf_fields: "cg_wf G \<Longrightarrow> wf_fields G" by (simp add: cg_wf_def)
lemma cg_wf_unknown: "cg_wf G \<Longrightarrow> wf_unknown G" by (simp add: cg_wf_def)

lemmas cg_wf_dests = cg_wf_specials cg_wf_range cg_wf_distinct cg_wf_uses cg_wf_base_uses
  cg_wf_fields cg_wf_unknown

text \<open>When \<open>add_edge\<close> may be called (the asserts and the callers guarantee it).\<close>

definition edge_ok :: "pt \<Rightarrow> pt \<Rightarrow> ConnectionGraph \<Rightarrow> bool" where
  "edge_ok from to G \<longleftrightarrow> from < cg_next_pidx G \<and> to < cg_next_pidx G \<and> from \<noteq> null_obj G \<and>
     \<not> (is_JavaObject G from \<and> is_Field G to) \<and> (is_Field G from \<longrightarrow> pt_is_oop (cg_heap G from))"

lemma add_edge_old:
  assumes wf: "cg_wf G" and old: "to \<in> set (edges G from)"
  shows "add_edge from to G = (G, False)"
proof (cases "to = phantom_obj G")
  case True
  with old cg_wf_unknown [OF wf] have "has_unknown_ptr (cg_heap G from)"
    by (simp add: wf_unknown_def)
  with True show ?thesis by (simp add: add_edge_def)
next
  case False
  have "upd_pt from (\<lambda>n. n\<lparr>pt_edges := edges G from\<rparr>) G = G"
    by (simp add: upd_pt_def fun_upd_idem)
  with False old show ?thesis by (simp add: add_edge_def pt_add_edge_def)
qed

definition edge_node :: "pt \<Rightarrow> ConnectionGraph \<Rightarrow> PointsToNode \<Rightarrow> PointsToNode" where
  "edge_node to G n = (if to = phantom_obj G then set_has_unknown_ptr n else n)\<lparr>pt_edges := pt_edges n @ [to]\<rparr>"

lemma edge_node_simps [simp]:
  "pt_edges (edge_node to G n) = pt_edges n @ [to]" "pt_uses (edge_node to G n) = pt_uses n"
  "pt_type (edge_node to G n) = pt_type n" "pt_bases (edge_node to G n) = pt_bases n"
  "pt_is_oop (edge_node to G n) = pt_is_oop n" "pt_offset (edge_node to G n) = pt_offset n"
  "pt_node (edge_node to G n) = pt_node n" "pt_escape (edge_node to G n) = pt_escape n"
  "pt_fields_escape (edge_node to G n) = pt_fields_escape n"
  "pt_has_unknown_base (edge_node to G n) = pt_has_unknown_base n"
  "has_unknown_ptr (edge_node to G n) \<longleftrightarrow> to = phantom_obj G \<or> has_unknown_ptr n"
  "scalar_replaceable (edge_node to G n) = scalar_replaceable n"
  "arraycopy_dst (edge_node to G n) = arraycopy_dst n"
  by (simp_all add: edge_node_def)

lemma add_edge_new:
  assumes wf: "cg_wf G" and new: "to \<notin> set (edges G from)"
    and nf: "\<not> (is_JavaObject G from \<and> is_Field G to)"
  shows "add_edge from to G =
    (upd_pt to (\<lambda>n. n\<lparr>pt_uses := pt_uses n @ [Use from]\<rparr>) (upd_pt from (edge_node to G) G), True)"
proof -
  from new cg_wf_unknown [OF wf] have *: "\<not> (to = phantom_obj G \<and> has_unknown_ptr (cg_heap G from))"
    by (auto simp: wf_unknown_def)
  from new nf cg_wf_uses [OF wf] have u: "Use from \<notin> set (uses G to)"
    by (auto simp: wf_uses_def)
  let ?G1 = "if to = phantom_obj G then upd_pt from set_has_unknown_ptr G else G"
  have "pt_add_edge from to ?G1 = (upd_pt from (edge_node to G) G, True)"
    using new by (cases "to = phantom_obj G") (auto simp: pt_add_edge_def upd_pt_def edge_node_def)
  moreover have "pt_add_use to (Use from) (upd_pt from (edge_node to G) G) =
    (upd_pt to (\<lambda>n. n\<lparr>pt_uses := pt_uses n @ [Use from]\<rparr>) (upd_pt from (edge_node to G) G), True)"
    using u by (auto simp: pt_add_use_def upd_pt_def)
  ultimately show ?thesis using * by (simp add: add_edge_def Let_def)
qed

lemma add_edge_wf:
  assumes wf: "cg_wf G" and ok: "edge_ok from to G"
  shows "cg_wf (fst (add_edge from to G))"
proof (cases "to \<in> set (edges G from)")
  case True
  with wf show ?thesis by (simp add: add_edge_old)
next
  case new: False
  from ok have nf: "\<not> (is_JavaObject G from \<and> is_Field G to)" by (auto simp: edge_ok_def)
  let ?G = "upd_pt to (\<lambda>n. n\<lparr>pt_uses := pt_uses n @ [Use from]\<rparr>) (upd_pt from (edge_node to G) G)"
  note d = cg_wf_dests [OF wf]
  have "cg_wf ?G"
  proof (rule cg_wfI)
    show "wf_specials ?G" using d(1) ok by (auto simp: wf_specials_def edge_ok_def)
    show "wf_range ?G" using d(2) ok by (auto simp: wf_range_def edge_ok_def)
    show "wf_distinct ?G" using d(3,4) new nf by (auto simp: wf_distinct_def wf_uses_def)
    show "wf_uses ?G" using d(4) nf by (auto simp: wf_uses_def)
    show "wf_base_uses ?G" using d(5) by (auto simp: wf_base_uses_def)
    show "wf_fields ?G" using d(6) nf by (auto simp: wf_fields_def)
    show "wf_unknown ?G" using d(7) by (auto simp: wf_unknown_def)
  qed
  with wf new nf show ?thesis by (simp add: add_edge_new)
qed

definition base_ok :: "pt \<Rightarrow> pt \<Rightarrow> ConnectionGraph \<Rightarrow> bool" where
  "base_ok from to G \<longleftrightarrow> from < cg_next_pidx G \<and> to < cg_next_pidx G \<and> is_Field G from \<and>
     \<not> is_Arraycopy G to"

definition base_node :: "pt \<Rightarrow> ConnectionGraph \<Rightarrow> PointsToNode \<Rightarrow> PointsToNode" where
  "base_node to G n = (if to = phantom_obj G then n\<lparr>pt_has_unknown_base := True\<rparr> else n)
     \<lparr>pt_bases := pt_bases n @ [to]\<rparr>"

lemma base_node_simps [simp]:
  "pt_bases (base_node to G n) = pt_bases n @ [to]" "pt_uses (base_node to G n) = pt_uses n"
  "pt_type (base_node to G n) = pt_type n" "pt_edges (base_node to G n) = pt_edges n"
  "pt_is_oop (base_node to G n) = pt_is_oop n" "pt_offset (base_node to G n) = pt_offset n"
  "pt_node (base_node to G n) = pt_node n" "pt_escape (base_node to G n) = pt_escape n"
  "pt_fields_escape (base_node to G n) = pt_fields_escape n"
  "pt_has_unknown_base (base_node to G n) \<longleftrightarrow> to = phantom_obj G \<or> pt_has_unknown_base n"
  "has_unknown_ptr (base_node to G n) = has_unknown_ptr n"
  "scalar_replaceable (base_node to G n) = scalar_replaceable n"
  "arraycopy_dst (base_node to G n) = arraycopy_dst n"
  by (simp_all add: base_node_def)

lemma add_base_old:
  assumes wf: "cg_wf G" and old: "to \<in> set (bases G from)"
  shows "add_base from to G = (G, False)"
proof (cases "to = phantom_obj G")
  case True
  with old cg_wf_unknown [OF wf] have "pt_has_unknown_base (cg_heap G from)"
    by (simp add: wf_unknown_def)
  with True show ?thesis by (simp add: add_base_def)
next
  case False
  have "upd_pt from (\<lambda>n. n\<lparr>pt_bases := bases G from\<rparr>) G = G"
    by (simp add: upd_pt_def fun_upd_idem)
  with False old show ?thesis by (simp add: add_base_def pt_add_base_def)
qed

definition base_back :: "pt \<Rightarrow> pt \<Rightarrow> ConnectionGraph \<Rightarrow> PointsToNode \<Rightarrow> PointsToNode" where
  "base_back from to G n =
     (if to = null_obj G then n
      else if is_JavaObject G to then n\<lparr>pt_edges := pt_edges n @ [from]\<rparr>
      else n\<lparr>pt_uses := pt_uses n @ [BaseUse from]\<rparr>)"

lemma base_back_simps [simp]:
  "pt_bases (base_back from to G n) = pt_bases n" "pt_type (base_back from to G n) = pt_type n"
  "pt_edges (base_back from to G n) =
     (if to \<noteq> null_obj G \<and> is_JavaObject G to then pt_edges n @ [from] else pt_edges n)"
  "pt_uses (base_back from to G n) =
     (if to \<noteq> null_obj G \<and> \<not> is_JavaObject G to then pt_uses n @ [BaseUse from] else pt_uses n)"
  "pt_is_oop (base_back from to G n) = pt_is_oop n" "pt_offset (base_back from to G n) = pt_offset n"
  "pt_node (base_back from to G n) = pt_node n" "pt_escape (base_back from to G n) = pt_escape n"
  "pt_fields_escape (base_back from to G n) = pt_fields_escape n"
  "pt_has_unknown_base (base_back from to G n) = pt_has_unknown_base n"
  "has_unknown_ptr (base_back from to G n) = has_unknown_ptr n"
  "scalar_replaceable (base_back from to G n) = scalar_replaceable n"
  "arraycopy_dst (base_back from to G n) = arraycopy_dst n"
  by (simp_all add: base_back_def)

lemma add_base_new:
  assumes wf: "cg_wf G" and ok: "base_ok from to G" and new: "to \<notin> set (bases G from)"
  shows "add_base from to G = (upd_pt to (base_back from to G) (upd_pt from (base_node to G) G), True)"
proof -
  note d = cg_wf_dests [OF wf]
  from new d(7) have *: "\<not> (to = phantom_obj G \<and> pt_has_unknown_base (cg_heap G from))"
    by (auto simp: wf_unknown_def)
  let ?G1 = "if to = phantom_obj G then upd_pt from (\<lambda>n. n\<lparr>pt_has_unknown_base := True\<rparr>) G else G"
  let ?G2 = "upd_pt from (base_node to G) G"
  have 1: "pt_add_base from to ?G1 = (?G2, True)"
    using new by (cases "to = phantom_obj G") (auto simp: pt_add_base_def upd_pt_def base_node_def)
  have 2: "pt_add_edge to from ?G2 = (upd_pt to (base_back from to G) ?G2, True)"
    if "is_JavaObject G to" "to \<noteq> null_obj G"
  proof -
    from that ok new d(6) have "from \<notin> set (edges G to)" by (auto simp: wf_fields_def base_ok_def)
    with that ok show ?thesis
      by (auto simp: pt_add_edge_def upd_pt_def base_back_def base_ok_def)
  qed
  have 3: "pt_add_use to (BaseUse from) ?G2 = (upd_pt to (base_back from to G) ?G2, True)"
    if "\<not> is_JavaObject G to" "to \<noteq> null_obj G"
  proof -
    from that new d(5) have "BaseUse from \<notin> set (uses G to)" by (auto simp: wf_base_uses_def)
    with that show ?thesis by (auto simp: pt_add_use_def upd_pt_def base_back_def)
  qed
  have 4: "upd_pt to (base_back from to G) ?G2 = ?G2" if "to = null_obj G"
    using that by (simp add: upd_pt_def base_back_def fun_upd_idem)
  have 5: "is_JavaObject ?G2 to = is_JavaObject G to" by simp
  show ?thesis using * 1 2 3 4 5 by (auto simp: add_base_def Let_def split del: if_split split: if_splits)
qed

lemma add_base_wf:
  assumes wf: "cg_wf G" and ok: "base_ok from to G"
  shows "cg_wf (fst (add_base from to G))"
proof (cases "to \<in> set (bases G from)")
  case True
  with wf show ?thesis by (simp add: add_base_old)
next
  case new: False
  let ?G = "upd_pt to (base_back from to G) (upd_pt from (base_node to G) G)"
  let ?J = "to \<noteq> null_obj G \<and> is_JavaObject G to"
  let ?L = "to \<noteq> null_obj G \<and> \<not> is_JavaObject G to"
  note d = cg_wf_dests [OF wf]
  have E: "edges ?G p = (if p = to \<and> ?J then edges G p @ [from] else edges G p)" for p by simp
  have U: "uses ?G p = (if p = to \<and> ?L then uses G p @ [BaseUse from] else uses G p)" for p by simp
  have B: "bases ?G p = (if p = from then bases G p @ [to] else bases G p)" for p by simp
  have T: "pt_type (cg_heap ?G p) = pt_type (cg_heap G p)" "pt_is_oop (cg_heap ?G p) = pt_is_oop (cg_heap G p)"
    "has_unknown_ptr (cg_heap ?G p) = has_unknown_ptr (cg_heap G p)"
    "pt_has_unknown_base (cg_heap ?G p) \<longleftrightarrow> p = from \<and> to = phantom_obj G \<or> pt_has_unknown_base (cg_heap G p)"
    for p by auto
  have H: "p \<ge> cg_next_pidx G \<Longrightarrow> cg_heap ?G p = cg_heap G p" for p
    using ok by (simp add: base_ok_def)
  have C: "cg_next_pidx ?G = cg_next_pidx G" "null_obj ?G = null_obj G" "phantom_obj ?G = phantom_obj G"
    "cg_nodes ?G = cg_nodes G" by simp_all
  note EU = E U B T C
  from ok have b: "from < cg_next_pidx G" "to < cg_next_pidx G" "is_Field G from" by (auto simp: base_ok_def)
  from d(1) have nj: "is_JavaObject G (null_obj G)" "is_JavaObject G (phantom_obj G)" by (auto simp: wf_specials_def)
  have "cg_wf ?G"
  proof (rule cg_wfI)
    show "wf_specials ?G" using d(1) unfolding wf_specials_def EU by auto
    show "wf_range ?G" using d(2) b H unfolding wf_range_def EU by auto
    show "wf_distinct ?G" using d(3,5,6) new b
      unfolding wf_distinct_def wf_base_uses_def wf_fields_def EU by auto
    show "wf_uses ?G" using d(4) b unfolding wf_uses_def EU by auto
    show "wf_base_uses ?G" using d(5) nj unfolding wf_base_uses_def EU by auto
    show "wf_fields ?G" using d(6) b unfolding wf_fields_def EU by auto
    show "wf_unknown ?G" using d(7) b nj unfolding wf_unknown_def EU by auto
  qed
  with wf ok new show ?thesis by (simp add: add_base_new)
qed

lemma register_pt_wf:
  assumes wf: "cg_wf G" and fresh: "pt_edges p = []" "pt_uses p = []" "pt_bases p = []"
    and nu: "\<not> has_unknown_ptr p" "\<not> pt_has_unknown_base p"
  shows "cg_wf (register_pt n p G)"
proof (rule cg_wfI)
  let ?G = "register_pt n p G"
  note d = cg_wf_dests [OF wf]
  note r = register_pt_def
  have nr: "cg_next_pidx G \<notin> set (edges G q)" "cg_next_pidx G \<notin> set (bases G q)" for q
    using d(2) by (auto simp: wf_range_def)
  have clean: "cg_heap G (cg_next_pidx G) = pt_none" using d(2) by (simp add: wf_range_def)
  have nu': "uses G (cg_next_pidx G) = []" "edges G (cg_next_pidx G) = []"
    by (simp_all add: clean pt_none_def new_PointsToNode_def)
  have nuse: "Use (cg_next_pidx G) \<notin> set (uses G q)" "BaseUse (cg_next_pidx G) \<notin> set (uses G q)" for q
    using d(4,5) nu' nr by (auto simp: wf_uses_def wf_base_uses_def clean pt_none_def new_PointsToNode_def)
  show "wf_specials ?G" using d(1) by (auto simp: wf_specials_def r)
  show "wf_range ?G" using d(2) fresh nr
    by (auto simp: wf_range_def r less_Suc_eq dest: order.strict_implies_not_eq)
  show "wf_distinct ?G" using d(3) fresh by (auto simp: wf_distinct_def r)
  show "wf_uses ?G" using d(4) fresh nr nuse by (auto simp: wf_uses_def r)
  show "wf_base_uses ?G" using d(5) fresh nr nuse by (auto simp: wf_base_uses_def r)
  show "wf_fields ?G" using d(1,6) fresh nr by (auto simp: wf_fields_def r)
  show "wf_unknown ?G" using d(1,7) fresh nu by (auto simp: wf_unknown_def r)
qed

text \<open>
  Updates of one node that leave the structure of the graph alone: the flag setters
  and the escape states. Each of them is an instance of this interface.
\<close>

locale structure_preserving =
  fixes f :: "PointsToNode \<Rightarrow> PointsToNode"
  assumes edges [simp]: "pt_edges (f n) = pt_edges n"
    and uses [simp]: "pt_uses (f n) = pt_uses n"
    and bases [simp]: "pt_bases (f n) = pt_bases n"
    and type [simp]: "pt_type (f n) = pt_type n"
    and is_oop [simp]: "pt_is_oop (f n) = pt_is_oop n"
    and unknown_ptr [simp]: "has_unknown_ptr (f n) = has_unknown_ptr n"
    and unknown_base [simp]: "pt_has_unknown_base (f n) = pt_has_unknown_base n"
begin

lemma heap_upd:
  "pt_edges (cg_heap (upd_pt p f G) q) = pt_edges (cg_heap G q)"
  "pt_uses (cg_heap (upd_pt p f G) q) = pt_uses (cg_heap G q)"
  "pt_bases (cg_heap (upd_pt p f G) q) = pt_bases (cg_heap G q)"
  "pt_type (cg_heap (upd_pt p f G) q) = pt_type (cg_heap G q)"
  "pt_is_oop (cg_heap (upd_pt p f G) q) = pt_is_oop (cg_heap G q)"
  "has_unknown_ptr (cg_heap (upd_pt p f G) q) = has_unknown_ptr (cg_heap G q)"
  "pt_has_unknown_base (cg_heap (upd_pt p f G) q) = pt_has_unknown_base (cg_heap G q)"
  by simp_all

lemma upd_wf: "cg_wf G \<Longrightarrow> p < cg_next_pidx G \<Longrightarrow> cg_wf (upd_pt p f G)"
proof (rule cg_wfI)
  let ?G = "upd_pt p f G"
  assume wf: "cg_wf G" and p: "p < cg_next_pidx G"
  note d = cg_wf_dests [OF wf]
  have C: "cg_next_pidx ?G = cg_next_pidx G" "null_obj ?G = null_obj G" "phantom_obj ?G = phantom_obj G"
    "cg_nodes ?G = cg_nodes G" by simp_all
  have H: "q \<ge> cg_next_pidx G \<Longrightarrow> cg_heap ?G q = cg_heap G q" for q using p by simp
  show "wf_specials ?G" using d(1) unfolding wf_specials_def heap_upd C .
  show "wf_range ?G" using d(2) H unfolding wf_range_def heap_upd C by auto
  show "wf_distinct ?G" using d(3) unfolding wf_distinct_def heap_upd C .
  show "wf_uses ?G" using d(4) unfolding wf_uses_def heap_upd C .
  show "wf_base_uses ?G" using d(5) unfolding wf_base_uses_def heap_upd C .
  show "wf_fields ?G" using d(6) unfolding wf_fields_def heap_upd C .
  show "wf_unknown ?G" using d(7) unfolding wf_unknown_def heap_upd C .
qed

end

interpretation src: structure_preserving set_arraycopy_src
  by unfold_locales simp_all

interpretation dst: structure_preserving set_arraycopy_dst
  by unfold_locales simp_all

interpretation scr: structure_preserving "set_scalar_replaceable v" for v
  by unfold_locales simp_all

interpretation esc: structure_preserving "\<lambda>n. n\<lparr>pt_escape := s\<rparr>" for s
  by unfold_locales simp_all

interpretation fesc: structure_preserving "\<lambda>n. n\<lparr>pt_fields_escape := s\<rparr>" for s
  by unfold_locales simp_all

section \<open>Setting escape states\<close>

definition set_fields_escape_state :: "pt \<Rightarrow> EscapeState \<Rightarrow> ConnectionGraph \<Rightarrow> ConnectionGraph" where
  "set_fields_escape_state p esc G =
     (if p \<noteq> null_obj G then
        if fields_escape G p < esc then upd_pt p (\<lambda>n. n\<lparr>pt_fields_escape := esc\<rparr>) G else G
      else G)"

definition set_escape_state :: "pt \<Rightarrow> EscapeState \<Rightarrow> ConnectionGraph \<Rightarrow> ConnectionGraph" where
  "set_escape_state p esc G =
     (if p \<noteq> null_obj G then
        let G1 = (if escape G p < esc then upd_pt p (\<lambda>n. n\<lparr>pt_escape := esc\<rparr>) G else G)
        in if fields_escape G1 p < esc then upd_pt p (\<lambda>n. n\<lparr>pt_fields_escape := esc\<rparr>) G1 else G1
      else G)"

lemma set_fields_escape_state_wf:
  "cg_wf G \<Longrightarrow> p < cg_next_pidx G \<Longrightarrow> cg_wf (set_fields_escape_state p esc G)"
  by (simp add: set_fields_escape_state_def fesc.upd_wf)

lemma set_escape_state_wf:
  "cg_wf G \<Longrightarrow> p < cg_next_pidx G \<Longrightarrow> cg_wf (set_escape_state p esc G)"
  by (simp add: set_escape_state_def Let_def fesc.upd_wf esc.upd_wf)

lemma new_nodes_fresh:
  "pt_edges (new_PointsToNode n es t) = []" "pt_uses (new_PointsToNode n es t) = []"
  "pt_bases (new_PointsToNode n es t) = []" "\<not> has_unknown_ptr (new_PointsToNode n es t)"
  "\<not> pt_has_unknown_base (new_PointsToNode n es t)" "pt_type (new_PointsToNode n es t) = t"
  by (simp_all add: new_PointsToNode_def has_unknown_ptr_def flag_defs)

lemma add_java_object_wf: "cg_wf G \<Longrightarrow> cg_wf (add_java_object n es G)"
  by (auto simp: add_java_object_def new_JavaObjectNode_def Let_def new_nodes_fresh
      intro!: register_pt_wf split: option.split)

lemma add_local_var_wf: "cg_wf G \<Longrightarrow> cg_wf (add_local_var n es G)"
  by (auto simp: add_local_var_def new_LocalVarNode_def new_nodes_fresh
      intro!: register_pt_wf split: option.split)

lemma add_field_wf: "cg_wf G \<Longrightarrow> cg_wf (add_field n es offs oop unsafe G)"
  by (auto simp: add_field_def new_FieldNode_def new_nodes_fresh Let_def has_unknown_ptr_def
      new_PointsToNode_def flag_defs intro!: register_pt_wf split: option.split)

lemma fst_pt_add [simp]:
  "fst (pt_add_edge a b G) = upd_pt a (\<lambda>n. n\<lparr>pt_edges := fst (append_if_missing b (edges G a))\<rparr>) G"
  "fst (pt_add_use a u G) = upd_pt a (\<lambda>n. n\<lparr>pt_uses := fst (append_if_missing u (uses G a))\<rparr>) G"
  "fst (pt_add_base a b G) = upd_pt a (\<lambda>n. n\<lparr>pt_bases := fst (append_if_missing b (bases G a))\<rparr>) G"
  by (simp_all add: pt_add_edge_def pt_add_use_def pt_add_base_def split_beta)

lemma add_edge_frame [cg_frame]:
  "cg_next_pidx (fst (add_edge p q G)) = cg_next_pidx G" "null_obj (fst (add_edge p q G)) = null_obj G"
  "phantom_obj (fst (add_edge p q G)) = phantom_obj G" "cg_nodes (fst (add_edge p q G)) = cg_nodes G"
  "pt_type (cg_heap (fst (add_edge p q G)) r) = pt_type (cg_heap G r)"
  "pt_is_oop (cg_heap (fst (add_edge p q G)) r) = pt_is_oop (cg_heap G r)"
  "escape (fst (add_edge p q G)) r = escape G r"
  "fields_escape (fst (add_edge p q G)) r = fields_escape G r"
  "bases (fst (add_edge p q G)) r = bases G r"
  "pt_offset (cg_heap (fst (add_edge p q G)) r) = pt_offset (cg_heap G r)"
  "pt_node (cg_heap (fst (add_edge p q G)) r) = pt_node (cg_heap G r)"
  by (simp_all add: add_edge_def Let_def split_beta)

lemma add_arraycopy_wf:
  assumes wf: "cg_wf G" and b: "src < cg_next_pidx G" "dst < cg_next_pidx G"
    and nf: "\<not> is_Field G src" "\<not> is_Field G dst" and nn: "src \<noteq> null_obj G" "dst \<noteq> null_obj G"
  shows "cg_wf (add_arraycopy n es src dst G)"
proof (cases "cg_nodes G n")
  case None
  let ?a = "cg_next_pidx G"
  let ?G1 = "register_pt n (new_ArraycopyNode n es) G"
  let ?G2 = "fst (add_edge ?a src ?G1)"
  let ?G3 = "upd_pt src set_arraycopy_src ?G2"
  let ?G4 = "fst (add_edge dst ?a ?G3)"
  from cg_wf_specials [OF wf] have nl: "null_obj G < ?a" by (simp add: wf_specials_def)
  have 1: "cg_wf ?G1"
    using wf by (auto simp: new_ArraycopyNode_def new_nodes_fresh intro!: register_pt_wf)
  have "edge_ok ?a src ?G1"
    using b nl by (auto simp: edge_ok_def register_pt_def new_ArraycopyNode_def new_nodes_fresh)
  with 1 have 2: "cg_wf ?G2" by (rule add_edge_wf)
  have n2: "cg_next_pidx ?G2 = Suc ?a" by (simp add: cg_frame register_pt_def)
  from b have 3: "cg_wf ?G3" by (intro src.upd_wf [OF 2]) (simp add: n2)
  have "edge_ok dst ?a ?G3"
    using b nf nn unfolding edge_ok_def
    by (auto simp: cg_frame register_pt_def new_ArraycopyNode_def new_nodes_fresh)
  with 3 have 4: "cg_wf ?G4" by (rule add_edge_wf)
  have "cg_wf (upd_pt dst set_arraycopy_dst ?G4)"
    using b by (intro dst.upd_wf [OF 4]) (simp add: cg_frame register_pt_def)
  with None show ?thesis by (simp add: add_arraycopy_def Let_def)
qed (use wf in \<open>simp add: add_arraycopy_def\<close>)

section \<open>Properties\<close>

lemmas new_graph_defs = new_ConnectionGraph_def add_java_object_def add_local_var_def register_pt_def
  new_JavaObjectNode_def new_LocalVarNode_def new_PointsToNode_def ptnode_adr_def map_ideal_node_def
  Let_def flag_defs

lemma map_ideal_node_wf: "cg_wf G \<Longrightarrow> p < cg_next_pidx G \<Longrightarrow> cg_wf (map_ideal_node n p G)"
  by (simp add: cg_wf_def wf_defs map_ideal_node_def)

lemma new_graph_wf:
  assumes "top_node \<noteq> oop_null"
  shows "cg_wf (new_ConnectionGraph unq top_node oop_null noop_null coops)"
proof -
  have "cg_wf (new_ConnectionGraph unq top_node oop_null noop_null False)"
    using assms
    by (simp add: cg_wf_def wf_defs new_graph_defs pt_none_def has_unknown_ptr_def
        set_scalar_replaceable_def less_EscapeState_def)
  moreover have "new_ConnectionGraph unq top_node oop_null noop_null coops =
     (let G = new_ConnectionGraph unq top_node oop_null noop_null False
      in if coops then map_ideal_node noop_null (null_obj G) G else G)"
    by (simp add: new_ConnectionGraph_def Let_def)
  ultimately show ?thesis
    by (simp add: Let_def map_ideal_node_wf cg_wf_specials [unfolded wf_specials_def])
qed

text \<open>
  the constructor builds a well-formed graph with two distinct Java objects: the
  phantom object, which escapes globally and is not scalar replaceable, and the null
  object, which does not escape; with compressed oops the narrow null maps to it.
\<close>

theorem new_ConnectionGraph_correct:
  assumes "top_node \<noteq> oop_null" and "noop_null \<noteq> top_node"
  shows "let G = new_ConnectionGraph unq top_node oop_null noop_null coops in
    cg_wf G \<and> escape G (phantom_obj G) = GlobalEscape \<and>
    \<not> scalar_replaceable (cg_heap G (phantom_obj G)) \<and> escape G (null_obj G) = NoEscape \<and>
    ptnode_adr G top_node = Some (phantom_obj G) \<and> ptnode_adr G oop_null = Some (null_obj G) \<and>
    (coops \<longrightarrow> ptnode_adr G noop_null = Some (null_obj G))"
  unfolding Let_def
  by (intro conjI new_graph_wf [OF assms(1)])
    (use assms in \<open>simp_all add: new_graph_defs less_EscapeState_def scalar_replaceable_def
      set_scalar_replaceable_def\<close>)

theorem new_ConnectionGraph_correct_witness:
  "cg_wf (new_ConnectionGraph 8 0 1 2 True) \<and>
   escape (new_ConnectionGraph 8 0 1 2 True) (phantom_obj (new_ConnectionGraph 8 0 1 2 True)) = GlobalEscape"
  using new_ConnectionGraph_correct [of 0 1 2 8 True] by (simp add: Let_def)

text \<open>
  C23: \<open>add_edge\<close> keeps the graph well-formed, so that its asserts hold: the use it adds is
  new exactly when the edge is. It returns true iff the edge was missing; afterwards
  the edge and the mirrored use are there and no other edge list changed.
\<close>

theorem add_edge_correct:
  assumes "cg_wf G" and "edge_ok from to G"
  shows "cg_wf (fst (add_edge from to G)) \<and>
    (snd (add_edge from to G) \<longleftrightarrow> to \<notin> set (edges G from)) \<and>
    set (edges (fst (add_edge from to G)) from) = insert to (set (edges G from)) \<and>
    Use from \<in> set (uses (fst (add_edge from to G)) to) \<and>
    (\<forall>p. p \<noteq> from \<longrightarrow> edges (fst (add_edge from to G)) p = edges G p)"
proof (cases "to \<in> set (edges G from)")
  case True
  with assms cg_wf_uses [OF assms(1)] show ?thesis
    by (auto simp: add_edge_old wf_uses_def edge_ok_def)
next
  case False
  with assms add_edge_wf [OF assms] show ?thesis
    by (simp add: add_edge_new edge_ok_def)
qed

abbreviation "one_var_graph \<equiv> add_local_var 2 NoEscape (new_ConnectionGraph 8 0 1 1 False)"

theorem add_edge_correct_witness:
  "snd (add_edge 2 1 one_var_graph) \<and> Use 2 \<in> set (uses (fst (add_edge 2 1 one_var_graph)) 1)"
proof -
  have "cg_wf one_var_graph" by (intro add_local_var_wf new_graph_wf) simp
  moreover have "edge_ok 2 1 one_var_graph" by (simp add: edge_ok_def new_graph_defs)
  ultimately show ?thesis
    using add_edge_correct [of one_var_graph 2 1] by (simp add: new_graph_defs)
qed

text \<open>
  \<open>add_base\<close> keeps the graph well-formed and returns true iff the base was missing;
  afterwards a Java object base other than null points back to the field, and any
  other base (but null) carries the marked use.
\<close>

theorem add_base_correct:
  assumes "cg_wf G" and "base_ok from to G"
  shows "cg_wf (fst (add_base from to G)) \<and>
    (snd (add_base from to G) \<longleftrightarrow> to \<notin> set (bases G from)) \<and>
    set (bases (fst (add_base from to G)) from) = insert to (set (bases G from)) \<and>
    (to \<noteq> null_obj G \<longrightarrow> (if is_JavaObject G to
       then from \<in> set (edges (fst (add_base from to G)) to)
       else BaseUse from \<in> set (uses (fst (add_base from to G)) to)))"
proof (cases "to \<in> set (bases G from)")
  case True
  with assms cg_wf_dests [OF assms(1)] show ?thesis
    by (auto simp: add_base_old wf_base_uses_def wf_fields_def base_ok_def)
next
  case False
  with assms add_base_wf [OF assms] show ?thesis
    by (simp add: add_base_new)
qed

abbreviation "one_field_graph \<equiv> add_field 3 NoEscape 12 True False one_var_graph"

theorem add_base_correct_witness:
  "snd (add_base 3 2 one_field_graph) \<and> BaseUse 3 \<in> set (uses (fst (add_base 3 2 one_field_graph)) 2)"
proof -
  have "cg_wf one_field_graph" by (intro add_field_wf add_local_var_wf new_graph_wf) simp
  moreover have "base_ok 3 2 one_field_graph"
    by (simp add: base_ok_def new_graph_defs add_field_def new_FieldNode_def)
  ultimately show ?thesis
    using add_base_correct [of one_field_graph 3 2]
    by (simp add: new_graph_defs add_field_def new_FieldNode_def)
qed

end
