(* ===== verification/Stack_Alloc.thy ===== *)
theory Stack_Alloc
  imports Conn_Graph
begin

text \<open>
  The stack allocation analysis that the proposal adds to escape analysis
  (\<open>escape.cpp\<close>): whether an allocation is eligible, and the iteration that
  withdraws the mark from objects a heap object may point to. The results live in the
  \<open>AllocateNode\<close>s (\<open>callnode.hpp\<close>).
\<close>

section \<open>State\<close>

record AllocateNode =
  is_scalar_replaceable :: bool
  is_non_escaping :: bool
  is_stack_allocateable :: bool
  is_referenced_stack_allocation :: bool
  is_allocation_MemBar_redundant :: bool

type_synonym allocs = "node \<Rightarrow> AllocateNode"

definition new_AllocateNode :: AllocateNode where
  "new_AllocateNode = \<lparr>is_scalar_replaceable = False, is_non_escaping = False,
     is_stack_allocateable = False, is_referenced_stack_allocation = False,
     is_allocation_MemBar_redundant = False\<rparr>"

definition StackAllocSizeLimit :: int where
  "StackAllocSizeLimit = 256"

text \<open>The VM flags the analysis reads.\<close>

record ea_flags =
  UseCompressedOops :: bool
  EliminateAllocationArraySizeLimit :: int
  EliminateLocks :: bool
  EliminateNestedLocks :: bool
  do_stack_allocation :: bool

section \<open>Lifetime overlap\<close>

text \<open>
  The worklist is a stack: the head of the list is its top, so pushing the out
  edges in order puts them reversed on the list.
\<close>

partial_function (option) overlap_loop :: "ideal \<Rightarrow> node \<Rightarrow> node list \<Rightarrow> node set \<Rightarrow> bool option" where
  "overlap_loop I phi wl visited =
     (case wl of
        [] \<Rightarrow> Some False
      | n # wl' \<Rightarrow>
          if n \<in> visited then overlap_loop I phi wl' visited
          else if is_Phi I n \<and> phi = n then Some True
          else overlap_loop I phi (rev (outs I n) @ wl') (insert n visited))"

text \<open>
  \<open>for (uint i = 1; i < phi->outcnt(); i++)\<close>: the first out edge is not pushed.
\<close>

definition allocation_lifetime_overlap :: "ideal \<Rightarrow> node \<Rightarrow> bool option" where
  "allocation_lifetime_overlap I phi =
     (case input I phi 0 of
        None \<Rightarrow> None
      | Some child0 \<Rightarrow>
          if \<not> is_Loop I child0 then Some False
          else overlap_loop I phi (rev (drop 1 (outs I phi))) {})"

section \<open>Compressed oops\<close>

text \<open>One pass over the uses of a node; \<open>None\<close> is the early \<open>return true\<close>.\<close>

fun compressed_uses ::
  "ideal \<Rightarrow> node list \<Rightarrow> node list \<Rightarrow> node set \<Rightarrow> (node list \<times> node set) option" where
  "compressed_uses I [] wl visited = Some (wl, visited)"
| "compressed_uses I (u # us) wl visited =
     (if is_Phi I u then
        if u \<in> visited then compressed_uses I us wl visited
        else compressed_uses I us (u # wl) (insert u visited)
      else if is_EncodeP I u then None
      else compressed_uses I us wl visited)"

partial_function (option) compressed_loop :: "ideal \<Rightarrow> node list \<Rightarrow> node set \<Rightarrow> bool option" where
  "compressed_loop I wl visited =
     (case wl of
        [] \<Rightarrow> Some False
      | n # wl' \<Rightarrow>
          (case compressed_uses I (outs I n) wl' visited of
             None \<Rightarrow> Some True
           | Some (wl'', visited') \<Rightarrow> compressed_loop I wl'' visited'))"

definition oop_may_be_compressed :: "ideal \<Rightarrow> node \<Rightarrow> bool option" where
  "oop_may_be_compressed I alloc_result = compressed_loop I [alloc_result] {alloc_result}"

section \<open>Eligibility\<close>

fun uses_eligible :: "ideal \<Rightarrow> ea_flags \<Rightarrow> ConnectionGraph \<Rightarrow> pt \<Rightarrow> pt_use list \<Rightarrow> bool option" where
  "uses_eligible I fl G ptn [] = Some True"
| "uses_eligible I fl G ptn (u # us) =
     (let use = get_use_node u; alloc = ideal_node G ptn in
      if is_LocalVar G use then
        (let n = ideal_node G use in
         if is_Phi I n then
           (case allocation_lifetime_overlap I n of
              None \<Rightarrow> None
            | Some True \<Rightarrow> Some False
            | Some False \<Rightarrow> uses_eligible I fl G ptn us)
         else if is_Load I n \<and> Opcode I n = Op_LoadP then
           (case input I n 1 of
              Some in1 \<Rightarrow>
                if is_Phi I in1 then
                  (case allocation_lifetime_overlap I in1 of
                     None \<Rightarrow> None
                   | Some True \<Rightarrow> Some False
                   | Some False \<Rightarrow> uses_eligible I fl G ptn us)
                else uses_eligible I fl G ptn us
            | None \<Rightarrow> uses_eligible I fl G ptn us)
         else uses_eligible I fl G ptn us)
      else if is_Field G use then
        (if UseCompressedOops fl then Some False else uses_eligible I fl G ptn us)
      else if is_Arraycopy G use then
        (if arraycopy_dst (cg_heap G ptn) \<and> is_AllocateArray I alloc \<and>
            is_obj_array_klass I (alloc_in I alloc KlassNode)
         then Some False else uses_eligible I fl G ptn us)
      else uses_eligible I fl G ptn us)"

definition all_uses_eligible_for_stack_allocation ::
  "ideal \<Rightarrow> ea_flags \<Rightarrow> ConnectionGraph \<Rightarrow> pt \<Rightarrow> bool option" where
  "all_uses_eligible_for_stack_allocation I fl G ptn = uses_eligible I fl G ptn (uses G ptn)"

definition eligible_for_stack_allocation ::
  "ideal \<Rightarrow> ea_flags \<Rightarrow> ConnectionGraph \<Rightarrow> pt \<Rightarrow> bool option" where
  "eligible_for_stack_allocation I fl G ptn =
     (let alloc = ideal_node G ptn in
      case result_cast I alloc of
        None \<Rightarrow> Some False
      | Some res \<Rightarrow>
          if \<not> is_CheckCastPP I res then Some False
          else
            let size_of_object = find_intptr_t_con I (alloc_in I alloc AllocSize) (-1) in
            if size_of_object = -1 \<or> size_of_object > StackAllocSizeLimit then Some False
            else if is_AllocateArray I alloc \<and>
              (let len = find_int_con I (alloc_in I alloc ALength) (-1)
               in len < 0 \<or> len > EliminateAllocationArraySizeLimit fl) then Some False
            else if UseCompressedOops fl then
              (case oop_may_be_compressed I res of
                 None \<Rightarrow> None
               | Some True \<Rightarrow> Some False
               | Some False \<Rightarrow> all_uses_eligible_for_stack_allocation I fl G ptn)
            else all_uses_eligible_for_stack_allocation I fl G ptn)"

section \<open>Object chains\<close>

text \<open>
  One pass of \<open>verify_stack_allocated_object_chains\<close>. The Boolean says whether the C++
  function returned \<open>true\<close> (something changed) inside the loop; then the rest is skipped.
\<close>

definition withdraw :: "node \<Rightarrow> allocs \<Rightarrow> allocs" where
  "withdraw alloc A =
     A(alloc := (A alloc)\<lparr>is_stack_allocateable := False, is_referenced_stack_allocation := False\<rparr>)"

definition mark_referenced :: "node \<Rightarrow> allocs \<Rightarrow> allocs" where
  "mark_referenced alloc A = A(alloc := (A alloc)\<lparr>is_referenced_stack_allocation := True\<rparr>)"

fun chain_bases :: "ideal \<Rightarrow> ConnectionGraph \<Rightarrow> pt \<Rightarrow> pt list \<Rightarrow> allocs \<Rightarrow> allocs \<times> bool" where
  "chain_bases I G ptn [] A = (A, False)"
| "chain_bases I G ptn (b # bs) A =
     (let alloc = ideal_node G ptn in
      if is_JavaObject G b then
        if b = ptn then chain_bases I G ptn bs A
        else if \<not> is_Allocate I (ideal_node G b) then
          (if Opcode I (ideal_node G b) = Op_ConP \<and> is_null_ptr_type I (ideal_node G b)
           then chain_bases I G ptn bs A
           else (withdraw alloc A, True))
        else if \<not> is_stack_allocateable (A (ideal_node G b)) \<and> \<not> scalar_replaceable (cg_heap G b)
        then (withdraw alloc A, True)
        else chain_bases I G ptn bs (mark_referenced alloc A)
      else chain_bases I G ptn bs A)"

fun chain_uses :: "ideal \<Rightarrow> ConnectionGraph \<Rightarrow> pt \<Rightarrow> pt_use list \<Rightarrow> allocs \<Rightarrow> allocs \<times> bool" where
  "chain_uses I G ptn [] A = (A, False)"
| "chain_uses I G ptn (u # us) A =
     (let use = get_use_node u in
      if is_Field G use then
        (case chain_bases I G ptn (bases G use) A of
           (A', True) \<Rightarrow> (A', True)
         | (A', False) \<Rightarrow> chain_uses I G ptn us A')
      else chain_uses I G ptn us A)"

fun verify_stack_allocated_object_chains ::
  "ideal \<Rightarrow> ConnectionGraph \<Rightarrow> pt list \<Rightarrow> allocs \<Rightarrow> allocs \<times> bool" where
  "verify_stack_allocated_object_chains I G [] A = (A, False)"
| "verify_stack_allocated_object_chains I G (ptn # ptns) A =
     (if escape G ptn \<noteq> NoEscape \<or> \<not> is_Allocate I (ideal_node G ptn) \<or>
         \<not> is_stack_allocateable (A (ideal_node G ptn))
      then verify_stack_allocated_object_chains I G ptns A
      else case chain_uses I G ptn (uses G ptn) A of
             (A', True) \<Rightarrow> (A', True)
           | (A', False) \<Rightarrow> verify_stack_allocated_object_chains I G ptns A')"

text \<open>\<open>while (more_work) more_work = verify_stack_allocated_object_chains(...)\<close>\<close>

partial_function (option) chains_loop ::
  "ideal \<Rightarrow> ConnectionGraph \<Rightarrow> pt list \<Rightarrow> bool \<Rightarrow> allocs \<Rightarrow> allocs option" where
  "chains_loop I G non_escaped more_work A =
     (if more_work then
        (case verify_stack_allocated_object_chains I G non_escaped A of
           (A', changed) \<Rightarrow> chains_loop I G non_escaped changed A')
      else Some A)"

text \<open>Step 4 of \<open>compute_escape\<close>.\<close>

fun mark_eligible ::
  "ideal \<Rightarrow> ea_flags \<Rightarrow> ConnectionGraph \<Rightarrow> pt list \<Rightarrow> allocs \<Rightarrow> allocs option" where
  "mark_eligible I fl G [] A = Some A"
| "mark_eligible I fl G (ptn # ptns) A =
     (if escape G ptn = ArgEscape then mark_eligible I fl G ptns A
      else
        let n = ideal_node G ptn in
        if \<not> is_Allocate I n then mark_eligible I fl G ptns A
        else case eligible_for_stack_allocation I fl G ptn of
               None \<Rightarrow> None
             | Some b \<Rightarrow>
                 mark_eligible I fl G ptns (A(n := (A n)\<lparr>is_stack_allocateable := b\<rparr>)))"

definition stack_allocation_analysis ::
  "ideal \<Rightarrow> ea_flags \<Rightarrow> ConnectionGraph \<Rightarrow> pt list \<Rightarrow> allocs \<Rightarrow> allocs option" where
  "stack_allocation_analysis I fl G non_escaped A =
     (if do_stack_allocation fl \<and>
         (\<not> cg_has_locks G \<or> (EliminateLocks fl \<and> EliminateNestedLocks fl))
      then case (if length non_escaped > 0 then mark_eligible I fl G non_escaped A else Some A) of
             None \<Rightarrow> None
           | Some A1 \<Rightarrow> chains_loop I G non_escaped (length non_escaped > 0) A1
      else Some A)"

section \<open>The two graph searches\<close>

definition out_rel :: "ideal \<Rightarrow> (node \<times> node) set" where
  "out_rel I = {(m, n). n \<in> set (outs I m)}"

definition phi_rel :: "ideal \<Rightarrow> (node \<times> node) set" where
  "phi_rel I = {(m, n). n \<in> set (outs I m) \<and> is_Phi I n}"

text \<open>
  A path that starts in a set and ends outside it leaves the set over its frontier.
\<close>

lemma rtrancl_leaves:
  assumes "(v, t) \<in> R\<^sup>*" and "v \<in> S" and "t \<notin> S"
    and closed: "\<And>x y. x \<in> S \<Longrightarrow> (x, y) \<in> R \<Longrightarrow> y \<in> S \<union> F"
  shows "\<exists>m \<in> F - S. (m, t) \<in> R\<^sup>*"
  using assms(1,2)
proof (induction rule: converse_rtrancl_induct)
  case base
  with assms(3) show ?case by simp
next
  case (step y z)
  from closed [OF step.prems step.hyps(1)] have "z \<in> S \<or> z \<in> F - S" by blast
  then show ?case
  proof
    assume "z \<in> S" then show ?thesis by (rule step.IH)
  next
    assume "z \<in> F - S" with step.hyps(2) show ?thesis by blast
  qed
qed

lemma overlap_loop_correct:
  assumes "closed_outs I" and "is_Phi I phi"
    and "set wl \<subseteq> {..<unique I}" and "visited \<subseteq> {..<unique I}" and "phi \<notin> visited"
    and "\<And>x y. x \<in> visited \<Longrightarrow> (x, y) \<in> out_rel I \<Longrightarrow> y \<in> visited \<union> set wl"
  shows "overlap_loop I phi wl visited = Some (\<exists>m \<in> set wl. (m, phi) \<in> (out_rel I)\<^sup>*)"
  using assms(3-6)
proof (induction "(wl, visited)" arbitrary: wl visited
    rule: wf_induct_rule [OF wf_measures [of "[\<lambda>(wl, v). card ({..<unique I} - v), \<lambda>(wl, v). length wl]"]])
  case 1
  show ?case
  proof (cases wl)
    case Nil
    then show ?thesis by (simp add: overlap_loop.simps)
  next
    case (Cons n wl')
    show ?thesis
    proof (cases "n \<in> visited")
      case True
      have cl: "y \<in> visited \<union> set wl'" if "x \<in> visited" "(x, y) \<in> out_rel I" for x y
        using 1(5) [OF that] Cons True by auto
      have "overlap_loop I phi wl' visited = Some (\<exists>m \<in> set wl'. (m, phi) \<in> (out_rel I)\<^sup>*)"
        using 1(2-4) Cons by (intro 1(1) [OF _ _ _ _ cl]) auto
      moreover have "\<exists>m \<in> set wl'. (m, phi) \<in> (out_rel I)\<^sup>*" if "(n, phi) \<in> (out_rel I)\<^sup>*"
        using rtrancl_leaves [OF that True 1(4), of "set wl"] 1(5) Cons True by auto
      ultimately show ?thesis using Cons True by (subst overlap_loop.simps) auto
    next
      case False
      show ?thesis
      proof (cases "n = phi")
        case True
        with Cons False assms(2) show ?thesis by (subst overlap_loop.simps) auto
      next
        case ne: False
        from Cons 1(2) have n: "n < unique I" by simp
        have sub: "set (outs I n) \<subseteq> {..<unique I}" using closed_outsD [OF assms(1) n] by auto
        have less: "card ({..<unique I} - insert n visited) < card ({..<unique I} - visited)"
          using n False by (intro psubset_card_mono) auto
        have cl: "y \<in> insert n visited \<union> set (rev (outs I n) @ wl')"
          if "x \<in> insert n visited" "(x, y) \<in> out_rel I" for x y
          using 1(5) [of x y] that Cons by (auto simp: out_rel_def)
        have "overlap_loop I phi (rev (outs I n) @ wl') (insert n visited) =
          Some (\<exists>m \<in> set (rev (outs I n) @ wl'). (m, phi) \<in> (out_rel I)\<^sup>*)"
          using 1(2-4) Cons n sub ne less by (intro 1(1) [OF _ _ _ _ cl]) auto
        moreover have "(\<exists>m \<in> set (rev (outs I n) @ wl'). (m, phi) \<in> (out_rel I)\<^sup>*) \<longleftrightarrow>
          (\<exists>m \<in> set wl. (m, phi) \<in> (out_rel I)\<^sup>*)"
          using Cons ne by (auto simp: out_rel_def elim: converse_rtranclE intro: converse_rtrancl_into_rtrancl)
        ultimately show ?thesis using Cons False ne by (subst overlap_loop.simps) auto
      qed
    qed
  qed
qed

definition encoded_use :: "ideal \<Rightarrow> node \<Rightarrow> bool" where
  "encoded_use I n \<longleftrightarrow> (\<exists>u \<in> set (outs I n). \<not> is_Phi I u \<and> is_EncodeP I u)"

lemma compressed_uses_None:
  "compressed_uses I us wl vis = None \<longleftrightarrow> (\<exists>u \<in> set us. \<not> is_Phi I u \<and> is_EncodeP I u)"
  by (induction I us wl vis rule: compressed_uses.induct) auto

lemma compressed_uses_Some:
  assumes "compressed_uses I us wl vis = Some (wl', vis')"
  shows "vis' = vis \<union> {u \<in> set us. is_Phi I u} \<and> set wl' = set wl \<union> ({u \<in> set us. is_Phi I u} - vis) \<and>
    (vis' = vis \<longrightarrow> wl' = wl)"
  using assms
  by (induction I us wl vis arbitrary: wl' vis' rule: compressed_uses.induct) (auto split: if_splits)

lemma compressed_loop_correct:
  assumes cl: "closed_outs I"
    and "vis \<subseteq> {..<unique I}" and "set wl \<subseteq> vis"
    and "\<And>x y. x \<in> vis - set wl \<Longrightarrow> (x, y) \<in> phi_rel I \<Longrightarrow> y \<in> vis"
    and "\<And>x. x \<in> vis - set wl \<Longrightarrow> \<not> encoded_use I x"
  shows "compressed_loop I wl vis =
    Some (\<exists>m \<in> set wl. \<exists>n. (m, n) \<in> (phi_rel I)\<^sup>* \<and> encoded_use I n)"
  using assms(2-5)
proof (induction "(wl, vis)" arbitrary: wl vis
    rule: wf_induct_rule [OF wf_measures [of "[\<lambda>(wl, v). card ({..<unique I} - v), \<lambda>(wl, v). length wl]"]])
  case 1
  show ?case
  proof (cases wl)
    case Nil
    then show ?thesis by (simp add: compressed_loop.simps)
  next
    case (Cons n wl')
    show ?thesis
    proof (cases "compressed_uses I (outs I n) wl' vis")
      case None
      then have "encoded_use I n" by (simp add: compressed_uses_None encoded_use_def)
      with None Cons show ?thesis by (subst compressed_loop.simps) auto
    next
      case (Some r)
      obtain wl2 vis2 where r: "r = (wl2, vis2)" by force
      let ?P = "{u \<in> set (outs I n). is_Phi I u}"
      from Some r have eq: "vis2 = vis \<union> ?P" "set wl2 = set wl' \<union> (?P - vis)" "vis2 = vis \<longrightarrow> wl2 = wl'"
        using compressed_uses_Some by blast+
      have nb: "\<not> encoded_use I n"
        using Some compressed_uses_None [of I "outs I n" wl' vis] by (auto simp: encoded_use_def)
      from Cons 1(2,3) have n: "n < unique I" "n \<in> vis" by auto
      have sub: "vis2 \<subseteq> {..<unique I}" using 1(2) eq closed_outsD [OF cl n(1)] by auto
      have clos: "y \<in> vis2" if "x \<in> vis2 - set wl2" "(x, y) \<in> phi_rel I" for x y
        using 1(4) [of x y] that eq Cons by (auto simp: phi_rel_def)
      have fine: "\<not> encoded_use I x" if "x \<in> vis2 - set wl2" for x
        using 1(5) [of x] that eq Cons nb by auto
      have dec: "((wl2, vis2), (wl, vis)) \<in> measures [\<lambda>(wl, v). card ({..<unique I} - v), \<lambda>(wl, v). length wl]"
      proof (cases "vis2 = vis")
        case True with eq Cons show ?thesis by auto
      next
        case False
        have "card ({..<unique I} - vis2) < card ({..<unique I} - vis)"
          using False eq sub by (intro psubset_card_mono) auto
        then show ?thesis by auto
      qed
      have "compressed_loop I wl2 vis2 =
        Some (\<exists>m \<in> set wl2. \<exists>k. (m, k) \<in> (phi_rel I)\<^sup>* \<and> encoded_use I k)"
        using eq Cons 1(3) by (intro 1(1) [OF dec sub _ clos fine]) auto
      moreover have "\<exists>m \<in> set wl2. \<exists>k. (m, k) \<in> (phi_rel I)\<^sup>* \<and> encoded_use I k"
        if "(n, k) \<in> (phi_rel I)\<^sup>*" "encoded_use I k" for k
      proof (cases "n \<in> set wl2")
        case True with that show ?thesis by blast
      next
        case False
        with n eq have "n \<in> vis2 - set wl2" by auto
        from rtrancl_leaves [OF that(1) this, of "set wl2"] clos fine that(2) show ?thesis by blast
      qed
      moreover have "\<exists>m \<in> set wl. \<exists>k. (m, k) \<in> (phi_rel I)\<^sup>* \<and> encoded_use I k"
        if "m \<in> set wl2" "(m, k) \<in> (phi_rel I)\<^sup>*" "encoded_use I k" for m k
        using that eq Cons by (auto simp: phi_rel_def intro: converse_rtrancl_into_rtrancl)
      ultimately show ?thesis using Cons Some r eq by (subst compressed_loop.simps) auto
    qed
  qed
qed

section \<open>Object chains: the greatest safe marking\<close>

definition sa :: "allocs \<Rightarrow> node \<Rightarrow> bool" where
  "sa A n = is_stack_allocateable (A n)"

lemma sa_fold: "is_stack_allocateable (A n) = sa A n"
  by (simp add: sa_def)

lemma sa_updates [simp]:
  "sa (withdraw a A) = (sa A)(a := False)" "sa (mark_referenced a A) = sa A"
  by (auto simp: withdraw_def mark_referenced_def sa_def fun_eq_iff)

text \<open>
  What may hold a reference to a stack allocated object: the object itself, another
  allocation that is on the stack or scalar replaced, or the null constant.
\<close>

definition holder_ok :: "ideal \<Rightarrow> ConnectionGraph \<Rightarrow> (node \<Rightarrow> bool) \<Rightarrow> pt \<Rightarrow> pt \<Rightarrow> bool" where
  "holder_ok I G X ptn b \<longleftrightarrow> is_JavaObject G b \<longrightarrow> b = ptn \<or>
     (if is_Allocate I (ideal_node G b) then X (ideal_node G b) \<or> scalar_replaceable (cg_heap G b)
      else Opcode I (ideal_node G b) = Op_ConP \<and> is_null_ptr_type I (ideal_node G b))"

definition holders :: "ConnectionGraph \<Rightarrow> pt \<Rightarrow> pt set" where
  "holders G ptn = {b. \<exists>u \<in> set (uses G ptn). is_Field G (get_use_node u) \<and> b \<in> set (bases G (get_use_node u))}"

definition candidate :: "ideal \<Rightarrow> ConnectionGraph \<Rightarrow> (node \<Rightarrow> bool) \<Rightarrow> pt \<Rightarrow> bool" where
  "candidate I G X ptn \<longleftrightarrow> escape G ptn = NoEscape \<and> is_Allocate I (ideal_node G ptn) \<and> X (ideal_node G ptn)"

definition chains_safe :: "ideal \<Rightarrow> ConnectionGraph \<Rightarrow> pt set \<Rightarrow> (node \<Rightarrow> bool) \<Rightarrow> bool" where
  "chains_safe I G P X \<longleftrightarrow> (\<forall>ptn \<in> P. candidate I G X ptn \<longrightarrow> (\<forall>b \<in> holders G ptn. holder_ok I G X ptn b))"

lemma holder_ok_mono: "holder_ok I G X ptn b \<Longrightarrow> X \<le> Y \<Longrightarrow> holder_ok I G Y ptn b"
  by (auto simp: holder_ok_def le_fun_def)

text \<open>A Java object that is an allocation other than the object itself.\<close>

definition other_alloc :: "ideal \<Rightarrow> ConnectionGraph \<Rightarrow> pt \<Rightarrow> pt \<Rightarrow> bool" where
  "other_alloc I G ptn b \<longleftrightarrow> is_JavaObject G b \<and> b \<noteq> ptn \<and> is_Allocate I (ideal_node G b)"

abbreviation refd :: "allocs \<Rightarrow> node \<Rightarrow> bool" where
  "refd A n \<equiv> is_referenced_stack_allocation (A n)"

lemma refd_mark [simp]: "refd (mark_referenced a A) n \<longleftrightarrow> n = a \<or> refd A n"
  by (simp add: mark_referenced_def)

lemma case_pair_bool:
  "(case p of (a, True) \<Rightarrow> (a, True) | (a, False) \<Rightarrow> f a) = (if snd p then (fst p, True) else f (fst p))"
  by (auto split: prod.splits bool.splits)

lemma chain_bases_snd:
  "snd (chain_bases I G ptn bs A) \<longleftrightarrow> (\<exists>b \<in> set bs. \<not> holder_ok I G (sa A) ptn b)"
  by (induction bs arbitrary: A) (auto simp: Let_def holder_ok_def sa_fold)

lemma chain_bases_sa:
  "sa (fst (chain_bases I G ptn bs A)) =
     (if snd (chain_bases I G ptn bs A) then (sa A)(ideal_node G ptn := False) else sa A)"
  by (induction bs arbitrary: A) (simp_all add: Let_def)

lemma chain_bases_refd:
  "\<not> snd (chain_bases I G ptn bs A) \<Longrightarrow> refd (fst (chain_bases I G ptn bs A)) n \<longleftrightarrow>
     refd A n \<or> (n = ideal_node G ptn \<and> (\<exists>b \<in> set bs. other_alloc I G ptn b))"
  by (induction bs arbitrary: A) (auto simp: Let_def other_alloc_def split: if_splits)

definition use_holders :: "ConnectionGraph \<Rightarrow> pt_use list \<Rightarrow> pt set" where
  "use_holders G us = (\<Union>u \<in> {u \<in> set us. is_Field G (get_use_node u)}. set (bases G (get_use_node u)))"

lemma use_holders_simps [simp]:
  "use_holders G [] = {}"
  "use_holders G (u # us) =
     (if is_Field G (get_use_node u) then set (bases G (get_use_node u)) else {}) \<union> use_holders G us"
  by (auto simp: use_holders_def)

lemma holders_eq: "holders G ptn = use_holders G (uses G ptn)"
  by (auto simp: holders_def use_holders_def)

lemma chain_uses_snd:
  "snd (chain_uses I G ptn us A) \<longleftrightarrow> (\<exists>b \<in> use_holders G us. \<not> holder_ok I G (sa A) ptn b)"
proof (induction us arbitrary: A)
  case (Cons u us)
  show ?case
    by (simp add: Let_def case_pair_bool chain_bases_snd chain_bases_sa Cons bex_Un)
qed simp

lemma chain_uses_sa:
  "sa (fst (chain_uses I G ptn us A)) =
     (if snd (chain_uses I G ptn us A) then (sa A)(ideal_node G ptn := False) else sa A)"
proof (induction us arbitrary: A)
  case (Cons u us)
  show ?case by (auto simp: Let_def case_pair_bool chain_bases_sa Cons fun_eq_iff)
qed simp

lemma chain_uses_refd:
  "\<not> snd (chain_uses I G ptn us A) \<Longrightarrow> refd (fst (chain_uses I G ptn us A)) n \<longleftrightarrow>
     refd A n \<or> (n = ideal_node G ptn \<and> (\<exists>b \<in> use_holders G us. other_alloc I G ptn b))"
proof (induction us arbitrary: A)
  case (Cons u us)
  then show ?case by (auto simp: Let_def case_pair_bool chain_bases_refd split: if_splits)
qed simp

lemma verify_Cons:
  "verify_stack_allocated_object_chains I G (ptn # ptns) A =
     (if candidate I G (sa A) ptn then
        let p = chain_uses I G ptn (uses G ptn) A
        in if snd p then (fst p, True) else verify_stack_allocated_object_chains I G ptns (fst p)
      else verify_stack_allocated_object_chains I G ptns A)"
  by (simp add: candidate_def case_pair_bool Let_def sa_fold)

lemma verify_unchanged:
  assumes "\<not> snd (verify_stack_allocated_object_chains I G ptns A)"
  shows "sa (fst (verify_stack_allocated_object_chains I G ptns A)) = sa A \<and> chains_safe I G (set ptns) (sa A)"
  using assms
proof (induction ptns arbitrary: A)
  case (Cons ptn ptns)
  let ?A = "if candidate I G (sa A) ptn then fst (chain_uses I G ptn (uses G ptn) A) else A"
  have nr: "candidate I G (sa A) ptn \<Longrightarrow> \<not> snd (chain_uses I G ptn (uses G ptn) A)"
    and eq: "verify_stack_allocated_object_chains I G (ptn # ptns) A =
      verify_stack_allocated_object_chains I G ptns ?A"
    using Cons.prems
    by (auto simp: verify_Cons Let_def simp del: verify_stack_allocated_object_chains.simps split: if_splits)
  have sa: "sa ?A = sa A" using nr by (simp add: chain_uses_sa)
  have "candidate I G (sa A) ptn \<Longrightarrow> \<forall>b \<in> holders G ptn. holder_ok I G (sa A) ptn b"
    using nr by (simp add: chain_uses_snd holders_eq)
  with Cons.IH [of ?A] Cons.prems show ?case unfolding eq sa by (simp add: chains_safe_def)
qed (simp add: chains_safe_def)

lemma verify_changed:
  assumes "snd (verify_stack_allocated_object_chains I G ptns A)"
  shows "\<exists>ptn \<in> set ptns. candidate I G (sa A) ptn \<and>
    (\<exists>b \<in> holders G ptn. \<not> holder_ok I G (sa A) ptn b) \<and>
    sa (fst (verify_stack_allocated_object_chains I G ptns A)) = (sa A)(ideal_node G ptn := False)"
  using assms
proof (induction ptns arbitrary: A)
  case (Cons ptn ptns)
  show ?case
  proof (cases "candidate I G (sa A) ptn \<and> snd (chain_uses I G ptn (uses G ptn) A)")
    case True
    then show ?thesis
      by (auto simp: verify_Cons Let_def chain_uses_sa chain_uses_snd holders_eq
          simp del: verify_stack_allocated_object_chains.simps)
  next
    case False
    let ?A = "if candidate I G (sa A) ptn then fst (chain_uses I G ptn (uses G ptn) A) else A"
    have eq: "verify_stack_allocated_object_chains I G (ptn # ptns) A =
      verify_stack_allocated_object_chains I G ptns ?A"
      using False by (simp add: verify_Cons Let_def del: verify_stack_allocated_object_chains.simps)
    have sa: "sa ?A = sa A" using False by (simp add: chain_uses_sa)
    show ?thesis using Cons.IH [of ?A] Cons.prems unfolding eq sa by auto
  qed
qed simp

lemma verify_refd_mono:
  assumes "\<not> snd (verify_stack_allocated_object_chains I G ptns A)" and "refd A n"
  shows "refd (fst (verify_stack_allocated_object_chains I G ptns A)) n"
  using assms
proof (induction ptns arbitrary: A)
  case (Cons ptn ptns)
  then show ?case
    by (auto simp: verify_Cons Let_def chain_uses_refd
        simp del: verify_stack_allocated_object_chains.simps split: if_splits)
qed simp

lemma verify_refd:
  assumes "\<not> snd (verify_stack_allocated_object_chains I G ptns A)"
    and "ptn \<in> set ptns" and "candidate I G (sa A) ptn" and "b \<in> holders G ptn" and "other_alloc I G ptn b"
  shows "refd (fst (verify_stack_allocated_object_chains I G ptns A)) (ideal_node G ptn)"
  using assms
proof (induction ptns arbitrary: A)
  case (Cons p ptns)
  show ?case
  proof (cases "ptn = p")
    case True
    let ?A = "fst (chain_uses I G p (uses G p) A)"
    have nr: "\<not> snd (chain_uses I G p (uses G p) A)" "\<not> snd (verify_stack_allocated_object_chains I G ptns ?A)"
      using Cons.prems(1,3) True
      by (auto simp: verify_Cons Let_def simp del: verify_stack_allocated_object_chains.simps split: if_splits)
    have "refd ?A (ideal_node G ptn)"
      using chain_uses_refd [OF nr(1)] Cons.prems(4,5) True by (auto simp: holders_eq)
    with verify_refd_mono [OF nr(2)] Cons.prems(3) nr True show ?thesis
      by (simp add: verify_Cons Let_def del: verify_stack_allocated_object_chains.simps)
  next
    case False
    with Cons show ?thesis
      by (auto simp: verify_Cons Let_def chain_uses_sa
          simp del: verify_stack_allocated_object_chains.simps split: if_splits)
  qed
qed simp

text \<open>
  What the loop promises: the marks only shrink, the final marking is safe, every safe
  marking below the initial one survives, and a stack allocated object held by
  another allocation carries the \<open>_is_referenced_stack_allocation\<close> mark.
\<close>

definition chains_result :: "ideal \<Rightarrow> ConnectionGraph \<Rightarrow> pt list \<Rightarrow> allocs \<Rightarrow> allocs \<Rightarrow> bool" where
  "chains_result I G ptns A A' \<longleftrightarrow>
     sa A' \<le> sa A \<and> chains_safe I G (set ptns) (sa A') \<and>
     (\<forall>X. X \<le> sa A \<and> chains_safe I G (set ptns) X \<longrightarrow> X \<le> sa A') \<and>
     (\<forall>ptn \<in> set ptns. \<forall>b \<in> holders G ptn.
        candidate I G (sa A') ptn \<and> other_alloc I G ptn b \<longrightarrow> refd A' (ideal_node G ptn))"

lemma chains_result_unchanged:
  assumes "verify_stack_allocated_object_chains I G ptns A = (A1, False)"
  shows "chains_result I G ptns A A1"
proof -
  have "sa A1 = sa A" "chains_safe I G (set ptns) (sa A)"
    using verify_unchanged [of I G ptns A] assms by simp_all
  moreover have "refd A1 (ideal_node G ptn)" if "ptn \<in> set ptns" "b \<in> holders G ptn"
    "candidate I G (sa A) ptn" "other_alloc I G ptn b" for ptn b
    using verify_refd [of I G ptns A ptn b] assms that by simp
  ultimately show ?thesis by (simp add: chains_result_def)
qed

lemma chains_result_step:
  assumes p: "ptn \<in> set ptns" "candidate I G (sa A) ptn" "b \<in> holders G ptn" "\<not> holder_ok I G (sa A) ptn b"
    and sa1: "sa A1 = (sa A)(ideal_node G ptn := False)"
    and rest: "chains_result I G ptns A1 A'"
  shows "chains_result I G ptns A A'"
proof -
  have X: "X \<le> sa A1" if "X \<le> sa A" "chains_safe I G (set ptns) X" for X
  proof -
    from p(4) that(1) have "\<not> holder_ok I G X ptn b" by (blast dest: holder_ok_mono)
    with that(2) p(1-3) have "\<not> X (ideal_node G ptn)" by (auto simp: chains_safe_def candidate_def)
    with that(1) show ?thesis by (auto simp: sa1 le_fun_def)
  qed
  have "sa A1 \<le> sa A" by (auto simp: sa1 le_fun_def)
  with rest X show ?thesis unfolding chains_result_def by (meson order_trans)
qed

text \<open>Every round that changes something withdraws one more mark, so the loop ends.\<close>

lemma chains_loop_result:
  "\<exists>A'. chains_loop I G ptns True A = Some A' \<and> chains_result I G ptns A A'"
proof (induction "card {n \<in> ideal_node G ` set ptns. sa A n}" arbitrary: A rule: less_induct)
  case less
  obtain A1 r where v: "verify_stack_allocated_object_chains I G ptns A = (A1, r)" by force
  have step: "chains_loop I G ptns True A = chains_loop I G ptns r A1"
    using v by (subst chains_loop.simps) simp
  show ?case
  proof (cases r)
    case False
    then show ?thesis
      using v chains_result_unchanged step by (auto simp: chains_loop.simps [of _ _ _ False])
  next
    case True
    from verify_changed [of I G ptns A] v True obtain ptn b where
      p: "ptn \<in> set ptns" "candidate I G (sa A) ptn" "b \<in> holders G ptn" "\<not> holder_ok I G (sa A) ptn b"
      and sa1: "sa A1 = (sa A)(ideal_node G ptn := False)" by auto
    have "card {n \<in> ideal_node G ` set ptns. sa A1 n} < card {n \<in> ideal_node G ` set ptns. sa A n}"
      using p(1,2) by (intro psubset_card_mono) (auto simp: sa1 candidate_def)
    from less [OF this] obtain A' where "chains_loop I G ptns True A1 = Some A'" "chains_result I G ptns A1 A'"
      by blast
    with step True chains_result_step [OF p sa1] show ?thesis by auto
  qed
qed

section \<open>Eligibility as a specification\<close>

text \<open>What the analysis relies on of the ideal graph: its indices, and that a Phi has a region.\<close>

definition ideal_ok :: "ideal \<Rightarrow> bool" where
  "ideal_ok I \<longleftrightarrow> closed_outs I \<and> (\<forall>n < unique I. is_Phi I n \<longrightarrow> input I n 0 \<noteq> None) \<and>
     (\<forall>n < unique I. \<forall>k m. input I n k = Some m \<longrightarrow> m < unique I) \<and>
     (\<forall>n res. result_cast I n = Some res \<longrightarrow> res < unique I)"

definition overlaps :: "ideal \<Rightarrow> node \<Rightarrow> bool" where
  "overlaps I phi \<longleftrightarrow> (\<exists>r. input I phi 0 = Some r \<and> is_Loop I r) \<and>
     (\<exists>m \<in> set (tl (outs I phi)). (m, phi) \<in> (out_rel I)\<^sup>*)"

definition may_compress :: "ideal \<Rightarrow> node \<Rightarrow> bool" where
  "may_compress I res \<longleftrightarrow> (\<exists>n. (res, n) \<in> (phi_rel I)\<^sup>* \<and> encoded_use I n)"

definition use_ok :: "ideal \<Rightarrow> ea_flags \<Rightarrow> ConnectionGraph \<Rightarrow> pt \<Rightarrow> pt \<Rightarrow> bool" where
  "use_ok I fl G ptn p \<longleftrightarrow>
     (is_LocalVar G p \<longrightarrow>
        (if is_Phi I (ideal_node G p) then \<not> overlaps I (ideal_node G p)
         else is_Load I (ideal_node G p) \<and> Opcode I (ideal_node G p) = Op_LoadP \<longrightarrow>
           (\<forall>q. input I (ideal_node G p) 1 = Some q \<and> is_Phi I q \<longrightarrow> \<not> overlaps I q))) \<and>
     (is_Field G p \<longrightarrow> \<not> UseCompressedOops fl) \<and>
     (is_Arraycopy G p \<longrightarrow>
        \<not> (arraycopy_dst (cg_heap G ptn) \<and> is_AllocateArray I (ideal_node G ptn) \<and>
           is_obj_array_klass I (alloc_in I (ideal_node G ptn) KlassNode)))"

definition fits_stack :: "ideal \<Rightarrow> ea_flags \<Rightarrow> node \<Rightarrow> bool" where
  "fits_stack I fl alloc \<longleftrightarrow>
     (let size = find_intptr_t_con I (alloc_in I alloc AllocSize) (-1) in size \<noteq> -1 \<and> size \<le> StackAllocSizeLimit) \<and>
     (is_AllocateArray I alloc \<longrightarrow>
       (let len = find_int_con I (alloc_in I alloc ALength) (-1)
        in 0 \<le> len \<and> len \<le> EliminateAllocationArraySizeLimit fl))"

definition eligible :: "ideal \<Rightarrow> ea_flags \<Rightarrow> ConnectionGraph \<Rightarrow> pt \<Rightarrow> bool" where
  "eligible I fl G ptn \<longleftrightarrow>
     (\<exists>res. result_cast I (ideal_node G ptn) = Some res \<and> is_CheckCastPP I res \<and>
        fits_stack I fl (ideal_node G ptn) \<and> (UseCompressedOops fl \<longrightarrow> \<not> may_compress I res) \<and>
        (\<forall>u \<in> set (uses G ptn). use_ok I fl G ptn (get_use_node u)))"

lemma ideal_okD:
  assumes "ideal_ok I"
  shows "closed_outs I" and "n < unique I \<Longrightarrow> is_Phi I n \<Longrightarrow> \<exists>r. input I n 0 = Some r"
    and "n < unique I \<Longrightarrow> input I n k = Some m \<Longrightarrow> m < unique I"
    and "result_cast I n = Some m \<Longrightarrow> m < unique I"
  using assms unfolding ideal_ok_def by blast+

lemma lifetime_overlap_spec:
  assumes "ideal_ok I" and "n < unique I" and "is_Phi I n"
  shows "allocation_lifetime_overlap I n = Some (overlaps I n)"
proof -
  note ok = ideal_okD [OF assms(1)]
  obtain r where r: "input I n 0 = Some r" using ok(2) assms(2,3) by blast
  have "set (rev (drop 1 (outs I n))) \<subseteq> {..<unique I}"
    using closed_outsD [OF ok(1) assms(2)] by (auto dest: in_set_dropD)
  then have "overlap_loop I n (rev (drop 1 (outs I n))) {} =
      Some (\<exists>m \<in> set (rev (drop 1 (outs I n))). (m, n) \<in> (out_rel I)\<^sup>*)"
    by (rule overlap_loop_correct [OF ok(1) assms(3)]) simp_all
  with r show ?thesis
    by (simp add: allocation_lifetime_overlap_def overlaps_def drop_Suc)
qed

lemma may_be_compressed_spec:
  assumes "ideal_ok I" and "res < unique I"
  shows "oop_may_be_compressed I res = Some (may_compress I res)"
  using assms compressed_loop_correct [of I "{res}" "[res]"]
  by (simp add: oop_may_be_compressed_def may_compress_def ideal_ok_def)

lemma uses_eligible_spec:
  assumes ok: "ideal_ok I" and "\<forall>u \<in> set us. ideal_node G (get_use_node u) < unique I"
  shows "uses_eligible I fl G ptn us = Some (\<forall>u \<in> set us. use_ok I fl G ptn (get_use_node u))"
  using assms(2)
proof (induction us)
  case (Cons u us)
  let ?p = "get_use_node u"
  from Cons.prems have n: "ideal_node G ?p < unique I" by simp
  have IH: "uses_eligible I fl G ptn us = Some (\<forall>u \<in> set us. use_ok I fl G ptn (get_use_node u))"
    using Cons by simp
  note ov = lifetime_overlap_spec [OF ok n]
  have ov1: "allocation_lifetime_overlap I m = Some (overlaps I m)"
    if "input I (ideal_node G ?p) 1 = Some m" "is_Phi I m" for m
    using ideal_okD(3) [OF ok n that(1)] that(2) by (rule lifetime_overlap_spec [OF ok])
  show ?case
  proof (cases "pt_type (cg_heap G ?p)")
    case LocalVar
    show ?thesis
    proof (cases "input I (ideal_node G ?p) 1")
      case None
      with LocalVar ov show ?thesis by (simp add: Let_def use_ok_def IH split: bool.split)
    next
      case (Some q)
      with LocalVar ov ov1 [OF Some] show ?thesis by (simp add: Let_def use_ok_def IH split: bool.split)
    qed
  qed (simp_all add: Let_def use_ok_def IH)
qed simp

lemma eligible_spec:
  assumes ok: "ideal_ok I" and "\<forall>u \<in> set (uses G ptn). ideal_node G (get_use_node u) < unique I"
  shows "eligible_for_stack_allocation I fl G ptn = Some (eligible I fl G ptn)"
proof (cases "result_cast I (ideal_node G ptn)")
  case None
  then show ?thesis by (simp add: eligible_for_stack_allocation_def eligible_def)
next
  case (Some res)
  with ok have "res < unique I" by (auto simp: ideal_ok_def)
  with Some may_be_compressed_spec [OF ok this] uses_eligible_spec [OF assms] show ?thesis
    by (auto simp: eligible_for_stack_allocation_def eligible_def fits_stack_def Let_def
        all_uses_eligible_for_stack_allocation_def split: bool.splits)
qed

section \<open>The whole analysis\<close>

definition markable :: "ideal \<Rightarrow> ea_flags \<Rightarrow> ConnectionGraph \<Rightarrow> pt \<Rightarrow> bool" where
  "markable I fl G ptn \<longleftrightarrow> escape G ptn \<noteq> ArgEscape \<and> is_Allocate I (ideal_node G ptn) \<and> eligible I fl G ptn"

definition uses_in_range :: "ideal \<Rightarrow> ConnectionGraph \<Rightarrow> pt set \<Rightarrow> bool" where
  "uses_in_range I G P \<longleftrightarrow> (\<forall>ptn \<in> P. \<forall>u \<in> set (uses G ptn). ideal_node G (get_use_node u) < unique I)"

lemma mark_eligible_spec:
  assumes "ideal_ok I" and "uses_in_range I G (set ptns)" and "inj_on (ideal_node G) (set ptns)"
    and "\<And>ptn. ptn \<in> set ptns \<Longrightarrow> sa A (ideal_node G ptn) \<Longrightarrow> markable I fl G ptn"
  shows "\<exists>A1. mark_eligible I fl G ptns A = Some A1 \<and>
    (\<forall>ptn \<in> set ptns. sa A1 (ideal_node G ptn) = markable I fl G ptn) \<and>
    (\<forall>n. n \<notin> ideal_node G ` set ptns \<longrightarrow> sa A1 n = sa A n)"
  using assms(2-4)
proof (induction ptns arbitrary: A)
  case (Cons p ps)
  let ?n = "ideal_node G p"
  let ?A = "if escape G p = ArgEscape \<or> \<not> is_Allocate I ?n then A
            else A(?n := (A ?n)\<lparr>is_stack_allocateable := eligible I fl G p\<rparr>)"
  have el: "eligible_for_stack_allocation I fl G p = Some (eligible I fl G p)"
    using Cons.prems(1) by (intro eligible_spec [OF assms(1)]) (simp add: uses_in_range_def)
  have step: "mark_eligible I fl G (p # ps) A = mark_eligible I fl G ps ?A"
    using el by (simp add: Let_def)
  have at: "sa ?A ?n = markable I fl G p"
    using Cons.prems(3) [of p] by (auto simp: markable_def sa_def)
  have oth: "sa ?A m = sa A m" if "m \<noteq> ?n" for m using that by (simp add: sa_def)
  have same: "q = p" if "q \<in> set ps" "ideal_node G q = ?n" for q
    using inj_onD [OF Cons.prems(2), of q p] that by simp
  have pre: "markable I fl G q" if "q \<in> set ps" "sa ?A (ideal_node G q)" for q
  proof (cases "ideal_node G q = ?n")
    case True
    with same that at show ?thesis by metis
  next
    case False
    with oth that Cons.prems(3) [of q] show ?thesis by simp
  qed
  have "uses_in_range I G (set ps)" "inj_on (ideal_node G) (set ps)"
    using Cons.prems(1,2) by (auto simp: uses_in_range_def)
  from Cons.IH [OF this pre] obtain A1 where A1: "mark_eligible I fl G ps ?A = Some A1"
    "\<forall>q \<in> set ps. sa A1 (ideal_node G q) = markable I fl G q"
    "\<forall>n. n \<notin> ideal_node G ` set ps \<longrightarrow> sa A1 n = sa ?A n" by blast
  have "sa A1 ?n = markable I fl G p"
  proof (cases "p \<in> set ps")
    case True
    with A1(2) show ?thesis by simp
  next
    case False
    with same have "?n \<notin> ideal_node G ` set ps" by force
    with A1(3) at show ?thesis by simp
  qed
  moreover have "sa A1 m = sa A m" if "m \<notin> ideal_node G ` set (p # ps)" for m
    using A1(3) oth that by simp
  ultimately show ?case using A1(1,2) unfolding step by auto
qed simp

lemma stack_analysis_result:
  assumes "ideal_ok I" and "uses_in_range I G (set ptns)" and "inj_on (ideal_node G) (set ptns)"
    and "\<And>n. \<not> sa A n"
    and on: "do_stack_allocation fl" "cg_has_locks G \<Longrightarrow> EliminateLocks fl \<and> EliminateNestedLocks fl"
  shows "\<exists>A1 A'. stack_allocation_analysis I fl G ptns A = Some A' \<and>
    (\<forall>n. sa A1 n \<longleftrightarrow> (\<exists>ptn \<in> set ptns. n = ideal_node G ptn \<and> markable I fl G ptn)) \<and>
    chains_result I G ptns A1 A'"
proof -
  obtain A1 where
    A1: "mark_eligible I fl G ptns A = Some A1" "\<forall>ptn \<in> set ptns. sa A1 (ideal_node G ptn) = markable I fl G ptn"
    "\<forall>n. n \<notin> ideal_node G ` set ptns \<longrightarrow> sa A1 n = sa A n"
    using mark_eligible_spec [OF assms(1-3), of A fl] assms(4) by blast
  from chains_loop_result [of I G ptns A1] obtain A' where
    A': "chains_loop I G ptns True A1 = Some A'" "chains_result I G ptns A1 A'" by blast
  have marks: "\<forall>n. sa A1 n \<longleftrightarrow> (\<exists>ptn \<in> set ptns. n = ideal_node G ptn \<and> markable I fl G ptn)"
  proof
    fix n
    show "sa A1 n \<longleftrightarrow> (\<exists>ptn \<in> set ptns. n = ideal_node G ptn \<and> markable I fl G ptn)"
    proof (cases "n \<in> ideal_node G ` set ptns")
      case True
      then obtain p where p: "p \<in> set ptns" "n = ideal_node G p" by blast
      have "q = p" if "q \<in> set ptns" "n = ideal_node G q" for q
        using inj_onD [OF assms(3), of q p] that p by simp
      with p A1(2) show ?thesis by metis
    next
      case False
      then have "sa A1 n = sa A n" using A1(3) by simp
      with assms(4) [of n] False show ?thesis by blast
    qed
  qed
  show ?thesis
  proof (cases "ptns = []")
    case True
    with A1(1) on have "stack_allocation_analysis I fl G ptns A = Some A1"
      by (simp add: stack_allocation_analysis_def chains_loop.simps [of _ _ _ False])
    moreover have "chains_result I G ptns A1 A1"
      using True by (simp add: chains_result_def chains_safe_def)
    ultimately show ?thesis using marks by blast
  next
    case False
    with A1(1) A'(1) on have "stack_allocation_analysis I fl G ptns A = Some A'"
      by (simp add: stack_allocation_analysis_def)
    with marks A'(2) show ?thesis by blast
  qed
qed

section \<open>Properties\<close>

text \<open>
  C21: the lifetime check of an allocation that reaches a loop Phi terminates and answers
  exactly whether the Phi lies on a path of out edges that starts at one of its
  uses other than the first.
\<close>

theorem allocation_lifetime_overlap_correct:
  assumes "ideal_ok I" and "phi < unique I" and "is_Phi I phi" and "input I phi 0 = Some r"
  shows "allocation_lifetime_overlap I phi =
    Some (is_Loop I r \<and> (\<exists>m \<in> set (tl (outs I phi)). (m, phi) \<in> (out_rel I)\<^sup>*))"
  using lifetime_overlap_spec [OF assms(1-3)] assms(4) by (simp add: overlaps_def)

abbreviation loop_graph :: ideal where
  "loop_graph \<equiv> ideal0\<lparr>unique := 4, outs := (\<lambda>n. if n = 1 then [3, 2] else if n = 2 then [1] else []),
     input := (\<lambda>n k. if n = 1 \<and> k = 0 then Some 0 else None), is_Phi := (\<lambda>n. n = 1),
     is_Loop := (\<lambda>n. n = 0)\<rparr>"

theorem allocation_lifetime_overlap_correct_witness:
  "allocation_lifetime_overlap loop_graph 1 = Some True"
proof -
  have "ideal_ok loop_graph" by (simp add: ideal_ok_def closed_outs_def ideal0_def)
  moreover have "(2, 1) \<in> (out_rel loop_graph)\<^sup>*"
    by (rule r_into_rtrancl) (simp add: out_rel_def)
  ultimately show ?thesis
    using allocation_lifetime_overlap_correct [of loop_graph 1 0] by simp
qed

text \<open>
  Because the search starts at the second out edge, a loop Phi whose only use leads
  back to it is not detected: the value of one iteration reaches the next and the
  check answers \<open>false\<close>.
\<close>

theorem lifetime_overlap_misses_first_use:
  "\<exists>I phi r. ideal_ok I \<and> phi < unique I \<and> is_Phi I phi \<and> input I phi 0 = Some r \<and> is_Loop I r \<and>
     (phi, phi) \<in> (out_rel I)\<^sup>+ \<and> allocation_lifetime_overlap I phi = Some False"
proof -
  let ?I = "loop_graph\<lparr>outs := (\<lambda>n. if n = 1 then [2] else if n = 2 then [1] else [])\<rparr>"
  have ok: "ideal_ok ?I" by (simp add: ideal_ok_def closed_outs_def ideal0_def)
  have "(1, 2) \<in> out_rel ?I" "(2, 1) \<in> out_rel ?I" by (simp_all add: out_rel_def)
  then have "(1, 1) \<in> (out_rel ?I)\<^sup>+" by (meson trancl.simps)
  moreover have "allocation_lifetime_overlap ?I 1 = Some False"
    by (simp add: allocation_lifetime_overlap_def overlap_loop.simps)
  ultimately show ?thesis using ok by (intro exI [of _ ?I] exI [of _ 1] exI [of _ 0]) simp
qed

text \<open>
  C22: \<open>oop_may_be_compressed\<close> terminates and finds exactly the allocations whose result
  reaches, through Phis only, a node with an \<open>EncodeP\<close> use.
\<close>

theorem oop_may_be_compressed_correct:
  assumes "ideal_ok I" and "res < unique I"
  shows "oop_may_be_compressed I res =
    Some (\<exists>n. (res, n) \<in> (phi_rel I)\<^sup>* \<and> (\<exists>u \<in> set (outs I n). \<not> is_Phi I u \<and> is_EncodeP I u))"
  using may_be_compressed_spec [OF assms] by (simp add: may_compress_def encoded_use_def)

theorem oop_may_be_compressed_correct_witness:
  "oop_may_be_compressed (loop_graph\<lparr>is_EncodeP := (\<lambda>n. n = 3)\<rparr>) 2 = Some True"
proof -
  let ?I = "loop_graph\<lparr>is_EncodeP := (\<lambda>n. n = 3)\<rparr>"
  have "ideal_ok ?I" by (simp add: ideal_ok_def closed_outs_def ideal0_def)
  moreover have "(2, 1) \<in> (phi_rel ?I)\<^sup>*" by (rule r_into_rtrancl) (simp add: phi_rel_def)
  ultimately show ?thesis
    using oop_may_be_compressed_correct [of ?I 2] by auto
qed

text \<open>
  C20: \<open>eligible_for_stack_allocation\<close> always returns, and returns true exactly for the
  allocations with a \<open>CheckCastPP\<close> result, a constant size of at most 256 bytes, a
  constant array length within the limit, no compressed use and no ineligible use.
\<close>

theorem eligible_for_stack_allocation_correct:
  assumes "ideal_ok I" and "uses_in_range I G {ptn}"
  shows "eligible_for_stack_allocation I fl G ptn = Some (eligible I fl G ptn)"
  using assms by (intro eligible_spec) (auto simp: uses_in_range_def)

abbreviation alloc_graph :: ideal where
  "alloc_graph \<equiv> ideal0\<lparr>unique := 4, is_Allocate := (\<lambda>n. n = 2), is_CheckCastPP := (\<lambda>n. n = 3),
     result_cast := (\<lambda>n. if n = 2 then Some 3 else None), find_intptr_t_con := (\<lambda>_ _. 16)\<rparr>"

definition alloc_cg :: ConnectionGraph where
  "alloc_cg = fst (add_edge 3 2 (add_local_var 3 NoEscape (add_java_object 2 NoEscape
     (new_ConnectionGraph 4 0 1 1 False))))"

abbreviation sa_flags :: ea_flags where
  "sa_flags \<equiv> \<lparr>UseCompressedOops = False, EliminateAllocationArraySizeLimit = 64, EliminateLocks = True,
     EliminateNestedLocks = True, do_stack_allocation = True\<rparr>"

lemma alloc_cg_facts:
  "uses alloc_cg 2 = [Use 3]" "ideal_node alloc_cg 2 = 2" "ideal_node alloc_cg 3 = 3"
  "is_LocalVar alloc_cg 3" "escape alloc_cg 2 = NoEscape" "\<not> cg_has_locks alloc_cg"
  by (simp_all add: alloc_cg_def new_graph_defs add_edge_def pt_add_edge_def pt_add_use_def pt_none_def)

lemma alloc_graph_ok: "ideal_ok alloc_graph"
  by (simp add: ideal_ok_def closed_outs_def ideal0_def)

theorem eligible_for_stack_allocation_correct_witness:
  "eligible_for_stack_allocation alloc_graph sa_flags alloc_cg 2 = Some True"
proof -
  have "uses_in_range alloc_graph alloc_cg {2}" by (simp add: uses_in_range_def alloc_cg_facts)
  moreover have "eligible alloc_graph sa_flags alloc_cg 2"
    by (simp add: eligible_def fits_stack_def use_ok_def alloc_cg_facts StackAllocSizeLimit_def ideal0_def)
  ultimately show ?thesis
    using eligible_for_stack_allocation_correct [OF alloc_graph_ok, of alloc_cg 2 sa_flags] by simp
qed

text \<open>
  C19: the loop over \<open>verify_stack_allocated_object_chains\<close> terminates with the greatest safe
  marking: no object that keeps its mark is held by a heap object, every safe marking
  below the initial one is kept, and an object held by another allocation is marked
  as referenced.
\<close>

theorem object_chains_greatest_safe:
  "\<exists>A'. chains_loop I G non_escaped True A = Some A' \<and> chains_result I G non_escaped A A'"
  by (rule chains_loop_result)

text \<open>
  C1: the stack allocation analysis always returns, and every object it marks does not
  escape, is eligible, and is reachable only from itself, from objects that are on the
  stack or scalar replaced, or from null.
\<close>

theorem stack_allocation_analysis_safe:
  assumes "ideal_ok I" and "uses_in_range I G (set non_escaped)"
    and "inj_on (ideal_node G) (set non_escaped)" and "\<And>n. \<not> sa A n"
    and "\<And>ptn. ptn \<in> set non_escaped \<Longrightarrow> escape G ptn = NoEscape \<or> escape G ptn = ArgEscape"
  shows "\<exists>A'. stack_allocation_analysis I fl G non_escaped A = Some A' \<and>
    (\<forall>ptn \<in> set non_escaped. sa A' (ideal_node G ptn) \<longrightarrow>
       escape G ptn = NoEscape \<and> is_Allocate I (ideal_node G ptn) \<and> eligible I fl G ptn \<and>
       (\<forall>b \<in> holders G ptn. holder_ok I G (sa A') ptn b))"
proof (cases "do_stack_allocation fl \<and> (\<not> cg_has_locks G \<or> (EliminateLocks fl \<and> EliminateNestedLocks fl))")
  case False
  with assms(4) show ?thesis by (auto simp: stack_allocation_analysis_def)
next
  case True
  from stack_analysis_result [OF assms(1-4)] True obtain A1 A' where
    r: "stack_allocation_analysis I fl G non_escaped A = Some A'"
    and m: "\<And>n. sa A1 n \<longleftrightarrow> (\<exists>ptn \<in> set non_escaped. n = ideal_node G ptn \<and> markable I fl G ptn)"
    and c: "chains_result I G non_escaped A1 A'" by blast
  have "markable I fl G ptn" if "ptn \<in> set non_escaped" "sa A' (ideal_node G ptn)" for ptn
  proof -
    from c that(2) have "sa A1 (ideal_node G ptn)" by (auto simp: chains_result_def le_fun_def)
    with m that(1) inj_onD [OF assms(3)] show ?thesis by metis
  qed
  with assms(5) c show ?thesis
    unfolding r by (fastforce simp: markable_def chains_result_def chains_safe_def candidate_def)
qed

theorem stack_allocation_analysis_safe_witness:
  "\<exists>A'. stack_allocation_analysis alloc_graph sa_flags alloc_cg [2] (\<lambda>_. new_AllocateNode) = Some A' \<and>
     (sa A' 2 \<longrightarrow> eligible alloc_graph sa_flags alloc_cg 2)"
proof -
  have "uses_in_range alloc_graph alloc_cg (set [2])" by (simp add: uses_in_range_def alloc_cg_facts)
  then show ?thesis
    using stack_allocation_analysis_safe [OF alloc_graph_ok, of alloc_cg "[2]" "\<lambda>_. new_AllocateNode" sa_flags]
    by (auto simp: alloc_cg_facts sa_def new_AllocateNode_def)
qed

end
