(* ===== verification/Escape_Flow.thy ===== *)
theory Escape_Flow
  imports Conn_Graph
begin

text \<open>
  Completion of the connection graph (\<open>escape.cpp\<close>): propagation of references to a
  Java object through the graph (\<open>add_java_object_edges\<close> and its worklist), the
  fields with unknown or null initial values, the propagation of escape states, and
  the driver \<open>complete_connection_graph\<close>.
\<close>

section \<open>The worklist\<close>

definition worklist_key :: "pt_use \<Rightarrow> ConnectionGraph \<Rightarrow> nat" where
  "worklist_key u G = get_use_node u + (if is_base_use u then cg_next_pidx G else 0)"

definition add_to_worklist :: "pt_use \<Rightarrow> ConnectionGraph \<Rightarrow> ConnectionGraph" where
  "add_to_worklist u G =
     (if worklist_key u G \<in> cg_in_worklist G then G
      else G\<lparr>cg_in_worklist := insert (worklist_key u G) (cg_in_worklist G),
             cg_worklist := cg_worklist G @ [u]\<rparr>)"

definition add_uses_to_worklist :: "pt \<Rightarrow> ConnectionGraph \<Rightarrow> ConnectionGraph" where
  "add_uses_to_worklist p G = fold add_to_worklist (uses G p) G"

definition related_field :: "ideal \<Rightarrow> pt \<Rightarrow> pt \<Rightarrow> ConnectionGraph \<Rightarrow> bool" where
  "related_field I field f G \<longleftrightarrow>
     \<not> (f = field \<or> \<not> pt_is_oop (cg_heap G f)) \<and>
     (let offset = pt_offset (cg_heap G field); offs = pt_offset (cg_heap G f)
      in offs = offset \<or> offset = OffsetBot I \<or> offs = OffsetBot I)"

definition add_fields_to_worklist :: "ideal \<Rightarrow> pt \<Rightarrow> pt \<Rightarrow> ConnectionGraph \<Rightarrow> ConnectionGraph" where
  "add_fields_to_worklist I field base G =
     (if is_LocalVar G base then
        fold (\<lambda>u G. if is_base_use u \<and> related_field I field (get_use_node u) G
                    then add_to_worklist (Use (get_use_node u)) G else G) (uses G base) G
      else if base \<noteq> phantom_obj G \<and> base \<noteq> null_obj G then
        fold (\<lambda>f G. if \<not> is_Arraycopy G f \<and> related_field I field f G
                    then add_to_worklist (Use f) G else G) (edges G base) G
      else G)"

text \<open>
  The destinations of the arraycopies whose source the base is. A marked use is a field
  and not an arraycopy.
\<close>

definition arraycopy_dests :: "pt \<Rightarrow> ConnectionGraph \<Rightarrow> pt list" where
  "arraycopy_dests base G =
     concat (map (\<lambda>u. case u of
         Use arycp \<Rightarrow>
           if is_Arraycopy G arycp then
             filter (\<lambda>abase. arraycopy_dst (cg_heap G abase) \<and> abase \<noteq> base)
               (map get_use_node (uses G arycp))
           else []
       | BaseUse _ \<Rightarrow> []) (uses G base))"

definition add_field_uses_to_worklist :: "ideal \<Rightarrow> pt \<Rightarrow> ConnectionGraph \<Rightarrow> ConnectionGraph" where
  "add_field_uses_to_worklist I field G =
     fold (\<lambda>base G.
        let G1 = add_fields_to_worklist I field base G
        in if arraycopy_src (cg_heap G base)
           then fold (add_fields_to_worklist I field) (arraycopy_dests base G1) G1
           else G1)
       (bases G field) (add_uses_to_worklist field G)"

section \<open>References to a Java object\<close>

definition populate_worklist :: "ideal \<Rightarrow> pt \<Rightarrow> ConnectionGraph \<Rightarrow> ConnectionGraph" where
  "populate_worklist I jobj G =
     fold (\<lambda>u G.
        let use = get_use_node u in
        if is_Arraycopy G use then G
        else
          let G1 = add_uses_to_worklist use G
          in if is_Field G1 use \<and> pt_is_oop (cg_heap G1 use)
             then add_field_uses_to_worklist I use G1 else G1)
       (uses G jobj) G"

text \<open>The edges from the destination object of an arraycopy to the arraycopy node.\<close>

definition add_arraycopy_dst_edges :: "pt \<Rightarrow> pt \<Rightarrow> ConnectionGraph \<Rightarrow> ConnectionGraph \<times> nat" where
  "add_arraycopy_dst_edges use jobj G =
     fold (\<lambda>e (G, k).
        if is_Arraycopy G e then
          if jobj = null_obj G then (G, k)
          else
            let (G1, is_new) = add_edge jobj e G
            in if is_new then (upd_pt jobj set_arraycopy_dst G1, Suc k) else (G1, k)
        else (G, k))
       (edges G use) (G, 0)"

text \<open>One iteration of the loop over \<open>_worklist\<close>: the new graph and the number of new edges.\<close>

definition process_use :: "ideal \<Rightarrow> pt \<Rightarrow> pt_use \<Rightarrow> ConnectionGraph \<Rightarrow> ConnectionGraph \<times> nat" where
  "process_use I jobj u G =
     (let use = get_use_node u in
      if is_base_use u then
        let (G1, is_new) = add_base use jobj G in (G1, if is_new then 1 else 0)
      else if is_Arraycopy G use then
        if jobj = null_obj G then (G, 0)
        else
          let (G1, is_new) = add_edge use jobj G
          in if is_new then (upd_pt jobj set_arraycopy_src G1, 1) else (G1, 0)
      else
        let (G1, is_new) = add_edge use jobj G in
        if \<not> is_new then (G1, 0)
        else if is_LocalVar G1 use then
          let G2 = add_uses_to_worklist use G1 in
          if arraycopy_dst (cg_heap G2 use) then
            let (G3, k) = add_arraycopy_dst_edges use jobj G2 in (G3, Suc k)
          else (G2, 1)
        else (add_field_uses_to_worklist I use G1, 1))"

partial_function (option) worklist_loop ::
  "ideal \<Rightarrow> pt \<Rightarrow> nat \<Rightarrow> nat \<Rightarrow> ConnectionGraph \<Rightarrow> (ConnectionGraph \<times> nat) option" where
  "worklist_loop I jobj l new_edges G =
     (if l < length (cg_worklist G) then
        (case process_use I jobj (cg_worklist G ! l) G of
           (G1, k) \<Rightarrow> worklist_loop I jobj (Suc l) (new_edges + k) G1)
      else Some (G, new_edges))"

definition add_java_object_edges ::
  "ideal \<Rightarrow> pt \<Rightarrow> bool \<Rightarrow> ConnectionGraph \<Rightarrow> (ConnectionGraph \<times> nat) option" where
  "add_java_object_edges I jobj populate G =
     (let G1 = (if populate then populate_worklist I jobj G else G)
      in case worklist_loop I jobj 0 0 G1 of
           None \<Rightarrow> None
         | Some (G2, new_edges) \<Rightarrow> Some (G2\<lparr>cg_worklist := [], cg_in_worklist := {}\<rparr>, new_edges))"

section \<open>Initial values of fields\<close>

text \<open>\<open>add_edge(field, val)\<close> and, when the edge is new, \<open>add_field_uses_to_worklist(field)\<close>.\<close>

definition add_value_edge :: "ideal \<Rightarrow> pt \<Rightarrow> pt \<Rightarrow> ConnectionGraph \<Rightarrow> ConnectionGraph \<times> bool" where
  "add_value_edge I field val G =
     (let (G1, is_new) = add_edge field val G
      in if is_new then (add_field_uses_to_worklist I field G1, True) else (G1, False))"

definition find_field_value :: "ideal \<Rightarrow> pt \<Rightarrow> ConnectionGraph \<Rightarrow> ConnectionGraph \<times> nat" where
  "find_field_value I field G =
     (if \<exists>base \<in> set (bases G field). is_JavaObject G base \<and> is_Allocate I (ideal_node G base)
      then (G, 0)
      else let (G1, is_new) = add_value_edge I field (phantom_obj G) G
           in (G1, if is_new then 1 else 0))"

definition find_unknown_values :: "ideal \<Rightarrow> pt \<Rightarrow> ConnectionGraph \<Rightarrow> ConnectionGraph \<times> nat" where
  "find_unknown_values I pta G =
     (let alloc = ideal_node G pta in
      if is_Allocate I alloc \<and> \<not> arraycopy_dst (cg_heap G pta) then (G, 0)
      else fold (\<lambda>field (G, k).
             if is_Field G field \<and> pt_is_oop (cg_heap G field) then
               let (G1, is_new) = add_value_edge I field (phantom_obj G) G
               in (G1, if is_new then Suc k else k)
             else (G, k)) (edges G pta) (G, 0))"

fun null_fields ::
  "ideal \<Rightarrow> node \<Rightarrow> pt list \<Rightarrow> bool \<Rightarrow> int list \<Rightarrow> ConnectionGraph \<Rightarrow> nat \<Rightarrow> ConnectionGraph \<times> nat" where
  "null_fields I alloc [] visited_bottom offsets G k = (G, k)"
| "null_fields I alloc (field # fs) visited_bottom offsets G k =
     (if \<not> is_Field G field \<or> \<not> pt_is_oop (cg_heap G field) then
        null_fields I alloc fs visited_bottom offsets G k
      else
        let offset = pt_offset (cg_heap G field) in
        if offset = OffsetBot I then
          if \<not> visited_bottom then
            (case add_value_edge I field (null_obj G) G of
               (G1, True) \<Rightarrow> null_fields I alloc fs True offsets G1 (Suc k)
             | (G1, False) \<Rightarrow> null_fields I alloc fs visited_bottom offsets G1 k)
          else null_fields I alloc fs visited_bottom offsets G k
        else if is_rawptr_type I (ideal_node G field) then
          null_fields I alloc fs visited_bottom offsets G k
        else if offset \<in> set offsets then null_fields I alloc fs visited_bottom offsets G k
        else if captured_oop_store I alloc offset then
          null_fields I alloc fs visited_bottom (offsets @ [offset]) G k
        else
          (case add_value_edge I field (null_obj G) G of
             (G1, is_new) \<Rightarrow>
               null_fields I alloc fs visited_bottom (offsets @ [offset]) G1
                 (if is_new then Suc k else k)))"

text \<open>
  \<open>find_init_values(pta, init_val, phase)\<close> has two modes: \<open>init_val\<close> is the phantom
  object or the null object.
\<close>

definition find_init_values :: "ideal \<Rightarrow> pt \<Rightarrow> pt \<Rightarrow> ConnectionGraph \<Rightarrow> ConnectionGraph \<times> nat" where
  "find_init_values I pta init_val G =
     (if init_val = phantom_obj G then find_unknown_values I pta G
      else if \<not> is_Allocate I (ideal_node G pta) then (G, 0)
      else null_fields I (ideal_node G pta) (edges G pta) False [] G 0)"

section \<open>Escape states\<close>

text \<open>
  One edge of a node popped from the escape worklist; \<open>es\<close> and \<open>field_es\<close> are the states
  of the node before its edges are visited.
\<close>

definition escape_edge ::
  "pt \<Rightarrow> EscapeState \<Rightarrow> EscapeState \<Rightarrow> pt \<Rightarrow> ConnectionGraph \<times> pt list \<Rightarrow> ConnectionGraph \<times> pt list" where
  "escape_edge ptn es field_es e =
     (\<lambda>(G, wl).
      if is_Arraycopy G e then
        if fields_escape G e < field_es then (set_fields_escape_state e field_es G, e # wl) else (G, wl)
      else if es \<ge> field_es then
        if escape G e < es then (set_escape_state e es G, e # wl) else (G, wl)
      else
        let changed1 = fields_escape G e < field_es;
            G1 = (if changed1 then set_fields_escape_state e field_es G else G);
            field_case = (escape G1 e < field_es \<and> is_Field G1 e \<and> is_JavaObject G1 ptn \<and>
                          pt_is_oop (cg_heap G1 e));
            changed2 = (field_case \<or> escape G1 e < es);
            G2 = (if field_case then set_escape_state e field_es G1
                  else if escape G1 e < es then set_escape_state e es G1 else G1)
        in (G2, if changed1 \<or> changed2 then e # wl else wl))"

definition escape_node :: "ideal \<Rightarrow> pt \<Rightarrow> ConnectionGraph \<times> pt list \<Rightarrow> ConnectionGraph \<times> pt list" where
  "escape_node I ptn =
     (\<lambda>(G, wl).
      let es = escape G ptn; field_es = fields_escape G ptn;
          G1 = (if is_Field G ptn \<and> pt_is_oop (cg_heap G ptn) \<and> es \<ge> ArgEscape
                then fst (add_value_edge I ptn (phantom_obj G) G) else G)
      in fold (escape_edge ptn es field_es) (edges G1 ptn) (G1, wl))"

partial_function (option) escape_loop ::
  "ideal \<Rightarrow> ConnectionGraph \<Rightarrow> pt list \<Rightarrow> ConnectionGraph option" where
  "escape_loop I G wl =
     (case wl of
        [] \<Rightarrow> Some G
      | ptn # wl' \<Rightarrow> (case escape_node I ptn (G, wl') of (G1, wl1) \<Rightarrow> escape_loop I G1 wl1))"

text \<open>
  \<open>for (next = length-1; next >= 0; --next)\<close>: globally escaping objects are deleted, and the
  unknown values of the others found, from the end of the list to its start.
\<close>

fun remove_escaped :: "ideal \<Rightarrow> pt list \<Rightarrow> ConnectionGraph \<Rightarrow> ConnectionGraph \<times> pt list" where
  "remove_escaped I [] G = (G, [])"
| "remove_escaped I (ptn # ptns) G =
     (let (G1, rest) = remove_escaped I ptns G;
          kept = (if escape G1 ptn \<ge> GlobalEscape then rest else ptn # rest)
      in if escape G1 ptn = NoEscape
         then (fst (find_init_values I ptn (phantom_obj G1) G1), kept)
         else (G1, kept))"

definition find_non_escaped_objects ::
  "ideal \<Rightarrow> pt list \<Rightarrow> pt list \<Rightarrow> ConnectionGraph \<Rightarrow> (ConnectionGraph \<times> pt list \<times> bool) option" where
  "find_non_escaped_objects I ptnodes non_escaped G =
     (let wl = rev (filter (\<lambda>p. escape G p \<ge> ArgEscape \<or> fields_escape G p \<ge> ArgEscape) ptnodes)
      in case escape_loop I G wl of
           None \<Rightarrow> None
         | Some G1 \<Rightarrow>
             (case remove_escaped I non_escaped G1 of
                (G2, ne) \<Rightarrow> Some (G2, ne, length ne > 0)))"

section \<open>The worklist functions change the worklist only\<close>

definition strip :: "ConnectionGraph \<Rightarrow> ConnectionGraph" where
  "strip G = G\<lparr>cg_worklist := [], cg_in_worklist := {}\<rparr>"

lemma strip_eqD:
  assumes "strip G = strip G'"
  shows "cg_heap G = cg_heap G'" "cg_next_pidx G = cg_next_pidx G'" "null_obj G = null_obj G'"
    "phantom_obj G = phantom_obj G'" "cg_nodes G = cg_nodes G'"
proof -
  have "cg_heap (strip G) = cg_heap (strip G')" "cg_next_pidx (strip G) = cg_next_pidx (strip G')"
    "null_obj (strip G) = null_obj (strip G')" "phantom_obj (strip G) = phantom_obj (strip G')"
    "cg_nodes (strip G) = cg_nodes (strip G')" by (simp_all only: assms)
  then show "cg_heap G = cg_heap G'" "cg_next_pidx G = cg_next_pidx G'" "null_obj G = null_obj G'"
    "phantom_obj G = phantom_obj G'" "cg_nodes G = cg_nodes G'" by (simp_all add: strip_def)
qed

lemma fold_strip:
  assumes "\<And>x G. strip (f x G) = strip G"
  shows "strip (fold f xs G) = strip G"
  by (induction xs arbitrary: G) (simp_all add: assms)

lemma strip_add_to_worklist [simp]: "strip (add_to_worklist u G) = strip G"
  by (simp add: add_to_worklist_def strip_def)

lemma strip_add_uses_to_worklist [simp]: "strip (add_uses_to_worklist p G) = strip G"
  by (simp add: add_uses_to_worklist_def fold_strip)

lemma strip_add_fields_to_worklist [simp]: "strip (add_fields_to_worklist I f b G) = strip G"
  by (auto simp: add_fields_to_worklist_def intro!: fold_strip)

lemma strip_add_field_uses_to_worklist [simp]: "strip (add_field_uses_to_worklist I f G) = strip G"
proof -
  have "strip (fold (add_fields_to_worklist I f) bs G) = strip G" for bs G
    by (rule fold_strip) simp
  then show ?thesis
    by (simp add: add_field_uses_to_worklist_def fold_strip Let_def)
qed

lemma cg_wf_strip [simp]: "cg_wf (strip G) = cg_wf G"
  by (simp add: cg_wf_def wf_defs strip_def)

lemma cg_wf_strip_eq: "strip G = strip G' \<Longrightarrow> cg_wf G = cg_wf G'"
  by (metis cg_wf_strip)

text \<open>The heap and the other members that the worklist functions do not touch.\<close>

lemmas worklist_frame =
  strip_add_to_worklist [THEN strip_eqD(1)] strip_add_to_worklist [THEN strip_eqD(2)]
  strip_add_uses_to_worklist [THEN strip_eqD(1)] strip_add_uses_to_worklist [THEN strip_eqD(2)]
  strip_add_uses_to_worklist [THEN strip_eqD(3)] strip_add_uses_to_worklist [THEN strip_eqD(4)]
  strip_add_field_uses_to_worklist [THEN strip_eqD(1)] strip_add_field_uses_to_worklist [THEN strip_eqD(2)]
  strip_add_field_uses_to_worklist [THEN strip_eqD(3)] strip_add_field_uses_to_worklist [THEN strip_eqD(4)]
  strip_add_field_uses_to_worklist [THEN strip_eqD(5)]

declare worklist_frame [simp]

lemma add_value_edge_strip:
  "strip (fst (add_value_edge I f v G)) = strip (fst (add_edge f v G))"
  "snd (add_value_edge I f v G) = snd (add_edge f v G)"
  by (simp_all add: add_value_edge_def split_beta)

lemmas add_value_edge_frame = add_value_edge_strip(1) [THEN strip_eqD(1)] add_value_edge_strip(1) [THEN strip_eqD(2)]
  add_value_edge_strip(1) [THEN strip_eqD(3)] add_value_edge_strip(1) [THEN strip_eqD(4)]

section \<open>Raising escape states\<close>

definition node_le :: "PointsToNode \<Rightarrow> PointsToNode \<Rightarrow> bool" where
  "node_le n n' \<longleftrightarrow> n' = n\<lparr>pt_escape := pt_escape n', pt_fields_escape := pt_fields_escape n'\<rparr> \<and>
     pt_escape n \<le> pt_escape n' \<and> pt_fields_escape n \<le> pt_fields_escape n'"

lemma node_le_refl [simp]: "node_le n n"
  by (simp add: node_le_def)

lemma node_leD:
  assumes "node_le n n'"
  shows "pt_edges n' = pt_edges n" "pt_uses n' = pt_uses n" "pt_bases n' = pt_bases n"
    "pt_type n' = pt_type n" "pt_is_oop n' = pt_is_oop n" "pt_escape n \<le> pt_escape n'"
    "pt_fields_escape n \<le> pt_fields_escape n'" "has_unknown_ptr n' = has_unknown_ptr n"
    "pt_has_unknown_base n' = pt_has_unknown_base n" "pt_node n' = pt_node n" "pt_flags n' = pt_flags n"
    "pt_offset n' = pt_offset n"
proof -
  from assms have eq: "n' = n\<lparr>pt_escape := pt_escape n', pt_fields_escape := pt_fields_escape n'\<rparr>"
    and le: "pt_escape n \<le> pt_escape n'" "pt_fields_escape n \<le> pt_fields_escape n'"
    by (simp_all add: node_le_def)
  show "pt_escape n \<le> pt_escape n'" "pt_fields_escape n \<le> pt_fields_escape n'" by (fact le)+
  show "pt_edges n' = pt_edges n" "pt_uses n' = pt_uses n" "pt_bases n' = pt_bases n"
    "pt_type n' = pt_type n" "pt_is_oop n' = pt_is_oop n" "has_unknown_ptr n' = has_unknown_ptr n"
    "pt_has_unknown_base n' = pt_has_unknown_base n" "pt_node n' = pt_node n" "pt_flags n' = pt_flags n"
    "pt_offset n' = pt_offset n"
    by (subst eq, simp)+
qed

lemma node_le_trans: "node_le a b \<Longrightarrow> node_le b c \<Longrightarrow> node_le a c"
  by (cases a; cases b; cases c) (auto simp: node_le_def intro: order_trans)

definition raises :: "ConnectionGraph \<Rightarrow> ConnectionGraph \<Rightarrow> bool" where
  "raises G G' \<longleftrightarrow> G' = G\<lparr>cg_heap := cg_heap G'\<rparr> \<and> (\<forall>p. node_le (cg_heap G p) (cg_heap G' p))"

lemma raises_refl [simp]: "raises G G"
  by (simp add: raises_def)

lemma raises_trans: "raises G1 G2 \<Longrightarrow> raises G2 G3 \<Longrightarrow> raises G1 G3"
  by (cases G1; cases G2; cases G3) (auto simp: raises_def intro: node_le_trans)

lemma raises_frame:
  assumes "raises G G'"
  shows "cg_next_pidx G' = cg_next_pidx G" "null_obj G' = null_obj G" "phantom_obj G' = phantom_obj G"
    "cg_nodes G' = cg_nodes G"
proof -
  from assms have "G' = G\<lparr>cg_heap := cg_heap G'\<rparr>" by (simp add: raises_def)
  then show "cg_next_pidx G' = cg_next_pidx G" "null_obj G' = null_obj G" "phantom_obj G' = phantom_obj G"
    "cg_nodes G' = cg_nodes G" by (metis ConnectionGraph.select_convs ConnectionGraph.surjective
        ConnectionGraph.update_convs(3))+
qed

lemma raisesD:
  assumes "raises G G'"
  shows "edges G' p = edges G p" "uses G' p = uses G p" "bases G' p = bases G p"
    "pt_type (cg_heap G' p) = pt_type (cg_heap G p)" "pt_is_oop (cg_heap G' p) = pt_is_oop (cg_heap G p)"
    "escape G p \<le> escape G' p" "fields_escape G p \<le> fields_escape G' p"
    "has_unknown_ptr (cg_heap G' p) = has_unknown_ptr (cg_heap G p)"
    "pt_has_unknown_base (cg_heap G' p) = pt_has_unknown_base (cg_heap G p)"
    "ideal_node G' p = ideal_node G p"
  using assms by (simp_all add: raises_def node_leD)

lemma raises_wf:
  assumes r: "raises G G'" and wf: "cg_wf G" and same: "\<forall>p \<ge> cg_next_pidx G. cg_heap G' p = cg_heap G p"
  shows "cg_wf G'"
  using wf same
  by (simp add: cg_wf_def wf_specials_def wf_distinct_def wf_uses_def wf_base_uses_def wf_fields_def
      wf_unknown_def wf_range_def raisesD [OF r] raises_frame [OF r])

lemma upd_escape_raises:
  "escape G p \<le> s \<Longrightarrow> raises G (upd_pt p (\<lambda>n. n\<lparr>pt_escape := s\<rparr>) G)"
  "fields_escape G p \<le> s \<Longrightarrow> raises G (upd_pt p (\<lambda>n. n\<lparr>pt_fields_escape := s\<rparr>) G)"
  by (simp_all add: raises_def node_le_def upd_pt_def)

lemma set_escape_state_simps [simp]:
  "p \<noteq> null_obj G \<Longrightarrow> escape (set_escape_state p s G) p = max (escape G p) s"
  "p \<noteq> null_obj G \<Longrightarrow> fields_escape (set_escape_state p s G) p = max (fields_escape G p) s"
  "q \<noteq> p \<Longrightarrow> cg_heap (set_escape_state p s G) q = cg_heap G q"
  "set_escape_state (null_obj G) s G = G"
  by (auto simp: set_escape_state_def Let_def max_def)

lemma set_fields_escape_state_simps [simp]:
  "escape (set_fields_escape_state p s G) q = escape G q"
  "p \<noteq> null_obj G \<Longrightarrow> fields_escape (set_fields_escape_state p s G) p = max (fields_escape G p) s"
  "q \<noteq> p \<Longrightarrow> cg_heap (set_fields_escape_state p s G) q = cg_heap G q"
  "set_fields_escape_state (null_obj G) s G = G"
  by (auto simp: set_fields_escape_state_def max_def)

lemma set_fields_escape_state_raises: "raises G (set_fields_escape_state p s G)"
  by (simp add: set_fields_escape_state_def upd_escape_raises)

lemma set_escape_state_raises: "raises G (set_escape_state p s G)"
  unfolding set_escape_state_def Let_def
  by (simp, intro impI conjI raises_trans [OF upd_escape_raises(1) upd_escape_raises(2)] upd_escape_raises) auto

section \<open>One node of the escape worklist\<close>

text \<open>What an edge promises of its target once the node it leaves has been processed.\<close>

definition edge_closed :: "ConnectionGraph \<Rightarrow> pt \<Rightarrow> EscapeState \<Rightarrow> EscapeState \<Rightarrow> pt \<Rightarrow> bool" where
  "edge_closed G p es fes e \<longleftrightarrow> e = null_obj G \<or>
     (if is_Arraycopy G e then fes \<le> fields_escape G e
      else if fes \<le> es then es \<le> escape G e
      else fes \<le> fields_escape G e \<and> es \<le> escape G e \<and>
        (is_Field G e \<and> is_JavaObject G p \<and> pt_is_oop (cg_heap G e) \<longrightarrow> fes \<le> escape G e))"

lemma edge_closed_mono:
  assumes "edge_closed G p es fes e" and r: "raises G G'"
  shows "edge_closed G' p es fes e"
  using assms(1) raisesD(6,7) [OF r, of e]
  by (auto simp: edge_closed_def raisesD [OF r] raises_frame [OF r] split: if_splits intro: order_trans)

definition slack :: "ConnectionGraph \<Rightarrow> nat" where
  "slack G = (\<Sum>p \<in> {..<cg_next_pidx G} - {null_obj G}. (3 - es_ord (escape G p)) + (3 - es_ord (fields_escape G p)))"

lemma raises_ord:
  assumes "raises G G'"
  shows "es_ord (escape G p) \<le> es_ord (escape G' p)" "es_ord (fields_escape G p) \<le> es_ord (fields_escape G' p)"
  using raisesD(6,7) [OF assms, of p] by (simp_all add: less_eq_EscapeState_def)

lemma slack_mono: "raises G G' \<Longrightarrow> slack G' \<le> slack G"
  unfolding slack_def
  by (simp add: raises_frame, intro sum_mono add_mono diff_le_mono2 raises_ord) auto

lemma slack_less:
  assumes r: "raises G G'" and e: "e < cg_next_pidx G" "e \<noteq> null_obj G"
    and up: "escape G e < escape G' e \<or> fields_escape G e < fields_escape G' e"
  shows "slack G' < slack G"
proof -
  let ?f = "\<lambda>G p. (3 - es_ord (escape G p)) + (3 - es_ord (fields_escape G p))"
  have le: "?f G' p \<le> ?f G p" for p
    using raises_ord [OF r, of p] by (intro add_mono diff_le_mono2) auto
  have "?f G' e < ?f G e"
    using raises_ord [OF r, of e] up es_ord_le3 [of "escape G' e"] es_ord_le3 [of "fields_escape G' e"]
    by (auto simp: less_EscapeState_def)
  then have "(\<Sum>p \<in> {..<cg_next_pidx G} - {null_obj G}. ?f G' p) < (\<Sum>p \<in> {..<cg_next_pidx G} - {null_obj G}. ?f G p)"
    using e le by (intro sum_strict_mono_ex1) auto
  then show ?thesis by (simp add: slack_def raises_frame [OF r])
qed

definition edge_effect :: "pt \<Rightarrow> ConnectionGraph \<Rightarrow> pt list \<Rightarrow> ConnectionGraph \<Rightarrow> pt list \<Rightarrow> bool" where
  "edge_effect e G wl G' wl' \<longleftrightarrow> raises G G' \<and> (\<forall>q. q \<noteq> e \<longrightarrow> cg_heap G' q = cg_heap G q) \<and>
     (G' = G \<and> wl' = wl \<or> wl' = e # wl \<and> (if e = null_obj G then G' = G else slack G' < slack G))"

lemma edge_effect_null [simp]: "edge_effect (null_obj G) G wl G (null_obj G # wl)"
  by (simp add: edge_effect_def)

lemma set_escape_effect:
  assumes "e < cg_next_pidx G" and "escape G e < s"
  shows "edge_effect e G wl (set_escape_state e s G) (e # wl)"
  using assms slack_less [OF set_escape_state_raises [of G e s]]
  by (auto simp: edge_effect_def set_escape_state_raises)

lemma set_fields_effect:
  assumes "e < cg_next_pidx G" and "fields_escape G e < s"
  shows "edge_effect e G wl (set_fields_escape_state e s G) (e # wl)"
  using assms slack_less [OF set_fields_escape_state_raises [of G e s]]
  by (auto simp: edge_effect_def set_fields_escape_state_raises)

lemma edge_effect_seq:
  assumes "edge_effect e G wl G1 (e # wl)" and "raises G1 G2" and "\<forall>q. q \<noteq> e \<longrightarrow> cg_heap G2 q = cg_heap G1 q"
    and "e = null_obj G \<Longrightarrow> G2 = G1"
  shows "edge_effect e G wl G2 (e # wl)"
  using assms slack_mono [OF assms(2)] raises_trans [of G G1 G2]
  by (auto simp: edge_effect_def split: if_splits)

lemma field_branch_closed:
  assumes na: "\<not> is_Arraycopy G1 e" and lt: "\<not> fes \<le> es"
    and f1: "e \<noteq> null_obj G1 \<Longrightarrow> fes \<le> fields_escape G1 e"
    and G2: "G2 = (if fc then set_escape_state e fes G1
                   else if escape G1 e < es then set_escape_state e es G1 else G1)"
    and fc: "fc \<longleftrightarrow> escape G1 e < fes \<and> is_Field G1 e \<and> is_JavaObject G1 p \<and> pt_is_oop (cg_heap G1 e)"
  shows "edge_closed G2 p es fes e"
proof -
  have r: "raises G1 G2" by (simp add: G2 set_escape_state_raises)
  note d = raisesD [OF r] raises_frame [OF r]
  show ?thesis
  proof (cases "e = null_obj G1")
    case True
    then show ?thesis by (simp add: edge_closed_def d)
  next
    case False
    have "fes \<le> fields_escape G2 e" using f1 [OF False] d(7) [of e] by (rule order_trans)
    moreover have "es \<le> escape G2 e" using False lt by (auto simp: G2 le_max_iff_disj not_less)
    moreover have "fes \<le> escape G2 e" if "is_Field G1 e" "is_JavaObject G1 p" "pt_is_oop (cg_heap G1 e)"
    proof (cases "escape G1 e < fes")
      case True
      with that fc have fc by simp
      with False show ?thesis by (simp add: G2)
    next
      case False
      with d(6) [of e] show ?thesis by (simp add: not_less)
    qed
    ultimately show ?thesis using na lt by (simp add: edge_closed_def d)
  qed
qed

lemma escape_edge_effect:
  assumes "e < cg_next_pidx G" and "escape_edge p es fes e (G, wl) = (G', wl')"
  shows "edge_effect e G wl G' wl' \<and> edge_closed G' p es fes e"
proof (cases "is_Arraycopy G e \<or> fes \<le> es")
  case True
  have t: "pt_type (cg_heap (set_escape_state e s G) e) = pt_type (cg_heap G e)"
    "pt_type (cg_heap (set_fields_escape_state e s G) e) = pt_type (cg_heap G e)"
    "null_obj (set_escape_state e s G) = null_obj G" "null_obj (set_fields_escape_state e s G) = null_obj G" for s
    using raisesD [OF set_escape_state_raises] raisesD [OF set_fields_escape_state_raises]
      raises_frame [OF set_escape_state_raises] raises_frame [OF set_fields_escape_state_raises] by auto
  have refl: "edge_effect e G wl G wl" by (simp add: edge_effect_def)
  show ?thesis
    using assms True set_escape_effect set_fields_effect refl
    by (cases "e = null_obj G") (auto simp: escape_edge_def edge_closed_def t not_less split: if_splits)
next
  case False
  then have ns: "\<not> is_Arraycopy G e" "\<not> fes \<le> es" by auto
  let ?c1 = "fields_escape G e < fes"
  let ?G1 = "if ?c1 then set_fields_escape_state e fes G else G"
  let ?fc = "escape ?G1 e < fes \<and> is_Field ?G1 e \<and> is_JavaObject ?G1 p \<and> pt_is_oop (cg_heap ?G1 e)"
  let ?c2 = "?fc \<or> escape ?G1 e < es"
  let ?G2 = "if ?fc then set_escape_state e fes ?G1 else if escape ?G1 e < es then set_escape_state e es ?G1 else ?G1"
  have G': "G' = ?G2" "wl' = (if ?c1 \<or> ?c2 then e # wl else wl)"
    using assms(2) ns unfolding escape_edge_def Let_def by auto
  have r1: "raises G ?G1" by (simp add: set_fields_escape_state_raises)
  have r2: "raises ?G1 ?G2" by (simp add: set_escape_state_raises)
  note d = raisesD [OF r1] raises_frame [OF r1]
  note d2 = raisesD [OF r2] raises_frame [OF r2]
  have o2: "\<forall>q. q \<noteq> e \<longrightarrow> cg_heap ?G2 q = cg_heap ?G1 q" by simp
  have n2: "e = null_obj G \<Longrightarrow> ?G2 = ?G1" using d(12) set_escape_state_simps(4) [of ?G1] by simp
  have "edge_effect e G wl ?G2 wl'"
  proof (cases ?c1)
    case True
    then have "edge_effect e G wl ?G1 (e # wl)" using set_fields_effect [OF assms(1)] by simp
    from edge_effect_seq [OF this r2 o2 n2] True G'(2) show ?thesis by simp
  next
    case c1: False
    show ?thesis
    proof (cases ?c2)
      case True
      with c1 assms(1) G'(2) show ?thesis by (auto intro: set_escape_effect simp del: not_less)
    next
      case c2: False
      then have "\<not> ?fc" "\<not> escape ?G1 e < es" by blast+
      then have "?G2 = ?G1" by (simp only: if_False)
      also have "?G1 = G" by (simp only: c1 if_False)
      finally have "?G2 = G" .
      moreover have "wl' = wl" using G'(2) c1 c2 by (simp only: if_False simp_thms)
      ultimately show ?thesis by (simp only: edge_effect_def) simp
    qed
  qed
  moreover have "edge_closed ?G2 p es fes e"
    by (rule field_branch_closed [where fc = ?fc and ?G1.0 = ?G1]) (use ns d in \<open>auto simp: not_less\<close>)
  ultimately show ?thesis using G'(1) by simp
qed

text \<open>
  All edges of a node: the states only rise, what changed is on the worklist, every
  edge is closed, and either the slack shrank or only the null object was pushed.
\<close>

definition fold_effect :: "pt list \<Rightarrow> ConnectionGraph \<Rightarrow> pt list \<Rightarrow> ConnectionGraph \<Rightarrow> pt list \<Rightarrow> bool" where
  "fold_effect xs G wl G' wl' \<longleftrightarrow> raises G G' \<and> (\<forall>q. q \<notin> set xs \<longrightarrow> cg_heap G' q = cg_heap G q) \<and>
     (\<forall>q. cg_heap G' q \<noteq> cg_heap G q \<longrightarrow> q \<in> set wl') \<and> set wl \<subseteq> set wl' \<and> set wl' \<subseteq> set wl \<union> set xs \<and>
     (slack G' < slack G \<or> G' = G \<and> (\<exists>k \<le> count_list xs (null_obj G). wl' = replicate k (null_obj G) @ wl))"

lemma fold_effect_step:
  assumes e: "edge_effect e G wl G1 wl1" and f: "fold_effect xs G1 wl1 G' wl'"
  shows "fold_effect (e # xs) G wl G' wl'"
proof -
  from e f have r: "raises G G1" "raises G1 G'" by (auto simp: edge_effect_def fold_effect_def)
  have n: "null_obj G1 = null_obj G" using raises_frame [OF r(1)] by simp
  have ch: "q \<in> set wl'" if "cg_heap G' q \<noteq> cg_heap G q" for q
  proof (cases "cg_heap G' q = cg_heap G1 q")
    case True
    with that e f show ?thesis unfolding edge_effect_def fold_effect_def by (metis list.set_intros(1) subsetD)
  qed (use f in \<open>simp add: fold_effect_def\<close>)
  have "slack G' < slack G \<or> G' = G \<and> (\<exists>k \<le> count_list (e # xs) (null_obj G). wl' = replicate k (null_obj G) @ wl)"
  proof (cases "slack G' < slack G1 \<or> slack G1 < slack G")
    case True
    then show ?thesis using slack_mono [OF r(1)] slack_mono [OF r(2)] by auto
  next
    case False
    with f obtain k where k: "G' = G1" "k \<le> count_list xs (null_obj G)" "wl' = replicate k (null_obj G) @ wl1"
      by (auto simp: fold_effect_def n)
    from False e consider "G1 = G" "wl1 = wl" | "e = null_obj G" "G1 = G" "wl1 = e # wl"
      by (auto simp: edge_effect_def split: if_splits)
    then show ?thesis
    proof cases
      case 1
      with k show ?thesis by (intro disjI2 conjI exI [of _ k]) auto
    next
      case 2
      then have "wl' = replicate (Suc k) (null_obj G) @ wl" using k by (simp add: replicate_append_same)
      with 2 k show ?thesis by (intro disjI2 conjI exI [of _ "Suc k"]) auto
    qed
  qed
  moreover have "\<forall>q. q \<notin> set (e # xs) \<longrightarrow> cg_heap G' q = cg_heap G q"
    using e f by (simp add: edge_effect_def fold_effect_def)
  moreover have "set wl \<subseteq> set wl'" "set wl' \<subseteq> set wl \<union> set (e # xs)"
    using e f unfolding edge_effect_def fold_effect_def by fastforce+
  ultimately show ?thesis using ch raises_trans [OF r] unfolding fold_effect_def by blast
qed

lemma escape_fold:
  assumes "\<forall>e \<in> set xs. e < cg_next_pidx G" and "fold (escape_edge p es fes) xs (G, wl) = (G', wl')"
  shows "fold_effect xs G wl G' wl' \<and> (\<forall>e \<in> set xs. edge_closed G' p es fes e)"
  using assms
proof (induction xs arbitrary: G wl)
  case Nil
  then show ?case by (simp add: fold_effect_def)
next
  case (Cons e xs)
  obtain G1 wl1 where s: "escape_edge p es fes e (G, wl) = (G1, wl1)" by fastforce
  from escape_edge_effect [OF _ s] Cons.prems(1)
  have e: "edge_effect e G wl G1 wl1" "edge_closed G1 p es fes e" by auto
  then have "raises G G1" by (simp add: edge_effect_def)
  with Cons.IH [of G1 wl1] Cons.prems s
  have f: "fold_effect xs G1 wl1 G' wl'" "\<forall>e \<in> set xs. edge_closed G' p es fes e"
    by (simp_all add: raises_frame)
  then have "raises G1 G'" by (simp add: fold_effect_def)
  with e(2) f(2) fold_effect_step [OF e(1) f(1)] show ?case by (auto intro: edge_closed_mono)
qed

section \<open>Graphs only grow\<close>

text \<open>
  The contract of every step of the completion: nodes keep their identity, edges and
  bases are only added and escape states only rise.
\<close>

definition node_grows :: "PointsToNode \<Rightarrow> PointsToNode \<Rightarrow> bool" where
  "node_grows n n' \<longleftrightarrow> pt_type n' = pt_type n \<and> pt_is_oop n' = pt_is_oop n \<and> pt_node n' = pt_node n \<and>
     pt_offset n' = pt_offset n \<and> pt_escape n \<le> pt_escape n' \<and> pt_fields_escape n \<le> pt_fields_escape n' \<and>
     set (pt_edges n) \<subseteq> set (pt_edges n') \<and> set (pt_bases n) \<subseteq> set (pt_bases n')"

definition grows :: "ConnectionGraph \<Rightarrow> ConnectionGraph \<Rightarrow> bool" where
  "grows G G' \<longleftrightarrow> cg_next_pidx G' = cg_next_pidx G \<and> null_obj G' = null_obj G \<and>
     phantom_obj G' = phantom_obj G \<and> cg_nodes G' = cg_nodes G \<and> (\<forall>p. node_grows (cg_heap G p) (cg_heap G' p))"

lemma grows_refl [simp]: "grows G G"
  by (simp add: grows_def node_grows_def)

lemma node_grows_trans: "node_grows a b \<Longrightarrow> node_grows b c \<Longrightarrow> node_grows a c"
  unfolding node_grows_def by (intro conjI) (elim conjE, (simp | erule (1) order_trans)+)+

lemma grows_trans [trans]: "grows G1 G2 \<Longrightarrow> grows G2 G3 \<Longrightarrow> grows G1 G3"
  unfolding grows_def by (simp, blast intro: node_grows_trans)

lemma growsD:
  assumes "grows G G'"
  shows "cg_next_pidx G' = cg_next_pidx G" "null_obj G' = null_obj G" "phantom_obj G' = phantom_obj G"
    "pt_type (cg_heap G' p) = pt_type (cg_heap G p)" "pt_is_oop (cg_heap G' p) = pt_is_oop (cg_heap G p)"
    "ideal_node G' p = ideal_node G p" "escape G p \<le> escape G' p" "fields_escape G p \<le> fields_escape G' p"
    "set (edges G p) \<subseteq> set (edges G' p)" "set (bases G p) \<subseteq> set (bases G' p)"
  using assms by (simp_all add: grows_def node_grows_def)

lemma raises_grows: "raises G G' \<Longrightarrow> grows G G'"
  by (simp add: grows_def node_grows_def raises_frame raisesD) (simp add: raises_def node_leD)

lemma strip_grows: "strip G = strip G' \<Longrightarrow> grows G G'"
  using strip_eqD [of G G'] by (simp add: grows_def node_grows_def)

lemma add_edge_grows: "grows G (fst (add_edge p q G))"
  by (auto simp: grows_def node_grows_def cg_frame add_edge_def Let_def split_beta)

lemma add_value_edge_grows: "grows G (fst (add_value_edge I f v G))"
  by (rule grows_trans [OF add_edge_grows strip_grows]) (simp add: add_value_edge_strip)

lemma wf_node_range: "cg_wf G \<Longrightarrow> pt_type (cg_heap G p) \<noteq> UnknownType \<Longrightarrow> p < cg_next_pidx G"
  using cg_wf_range [of G] unfolding wf_range_def
  by (metis not_le pt_none_def new_nodes_fresh(6))

text \<open>A value is added to an oop field: only the edges of the field change.\<close>

lemma add_value_edge_correct:
  fixes I :: ideal
  assumes wf: "cg_wf G" and f: "is_Field G f" "pt_is_oop (cg_heap G f)" and v: "v < cg_next_pidx G"
  defines "G' \<equiv> fst (add_value_edge I f v G)"
  shows "cg_wf G'" "grows G G'" "set (edges G' f) = insert v (set (edges G f))"
    "\<And>p. p \<noteq> f \<Longrightarrow> edges G' p = edges G p" "\<And>p. escape G' p = escape G p"
    "\<And>p. fields_escape G' p = fields_escape G p" "\<And>p. bases G' p = bases G p"
proof -
  have "f < cg_next_pidx G" by (rule wf_node_range [OF wf]) (simp add: f(1))
  moreover have "f \<noteq> null_obj G" using cg_wf_specials [OF wf] f(1) by (auto simp: wf_specials_def)
  ultimately have ok: "edge_ok f v G" using f v by (simp add: edge_ok_def)
  show "cg_wf G'"
    unfolding G'_def cg_wf_strip_eq [OF add_value_edge_strip(1)] by (rule add_edge_wf [OF wf ok])
  show "grows G G'" unfolding G'_def by (rule add_value_edge_grows)
  note h = add_value_edge_frame(1) [of I f v G, folded G'_def]
  show "escape G' p = escape G p" "fields_escape G' p = fields_escape G p" "bases G' p = bases G p" for p
    by (simp_all add: h cg_frame)
  show "set (edges G' f) = insert v (set (edges G f))"
  proof (cases "v \<in> set (edges G f)")
    case True
    then show ?thesis by (auto simp: h add_edge_old [OF wf True])
  next
    case False
    then show ?thesis by (simp add: h add_edge_new [OF wf] f(1))
  qed
  show "edges G' p = edges G p" if "p \<noteq> f" for p
  proof (cases "v \<in> set (edges G f)")
    case True
    then show ?thesis by (simp add: h add_edge_old [OF wf])
  next
    case False
    with that show ?thesis by (simp add: h add_edge_new [OF wf] f(1))
  qed
qed

section \<open>Closure under escape\<close>

definition closed_node :: "ConnectionGraph \<Rightarrow> pt \<Rightarrow> bool" where
  "closed_node G p \<longleftrightarrow>
     (is_Field G p \<and> pt_is_oop (cg_heap G p) \<and> ArgEscape \<le> escape G p \<longrightarrow> phantom_obj G \<in> set (edges G p)) \<and>
     (\<forall>e \<in> set (edges G p). edge_closed G p (escape G p) (fields_escape G p) e)"

lemma closed_node_raises:
  assumes "closed_node G p" and r: "raises G G'" and "cg_heap G' p = cg_heap G p"
  shows "closed_node G' p"
  using assms(1,3) edge_closed_mono [OF _ r] by (simp add: closed_node_def raises_frame [OF r])

text \<open>
  Arraycopy nodes are created last and are not on the list of nodes the propagation starts
  from. An edge from such a node to a Java object need not be closed yet if the object is reached
  through a variable the arraycopy points to: closing the variable closes the edge.
\<close>

definition copy_done :: "ConnectionGraph \<Rightarrow> pt \<Rightarrow> bool" where
  "copy_done G p \<longleftrightarrow> is_Arraycopy G p \<and>
     (\<forall>e \<in> set (edges G p). edge_closed G p (escape G p) (fields_escape G p) e \<or>
        is_JavaObject G e \<and> (\<exists>u \<in> set (edges G p). is_LocalVar G u \<and> e \<in> set (edges G u)))"

definition node_done :: "ConnectionGraph \<Rightarrow> pt \<Rightarrow> bool" where
  "node_done G p \<longleftrightarrow> closed_node G p \<or> copy_done G p"

lemma node_done_raises:
  assumes "node_done G p" and r: "raises G G'" and "cg_heap G' p = cg_heap G p"
  shows "node_done G' p"
proof -
  have "copy_done G' p" if "copy_done G p"
    using that assms(3) edge_closed_mono [OF _ r] unfolding copy_done_def raisesD(1,4) [OF r] by metis
  then show ?thesis using assms(1) closed_node_raises [OF _ r assms(3)] by (auto simp: node_done_def)
qed

text \<open>The state of the fields is never below the state of the node.\<close>

definition esc_le :: "ConnectionGraph \<Rightarrow> bool" where
  "esc_le G \<longleftrightarrow> (\<forall>p. p \<noteq> null_obj G \<longrightarrow> escape G p \<le> fields_escape G p)"

lemma esc_le_set:
  "esc_le G \<Longrightarrow> esc_le (set_escape_state p s G)" "esc_le G \<Longrightarrow> esc_le (set_fields_escape_state p s G)"
  by (auto simp: esc_le_def set_escape_state_def set_fields_escape_state_def Let_def)

lemma esc_le_fold:
  assumes "esc_le G" and "fold (escape_edge p es fes) xs (G, wl) = (G', wl')"
  shows "esc_le G'"
proof -
  have "esc_le (fst (fold (escape_edge p es fes) xs (G, wl)))"
    by (rule fold_inv [where P = "\<lambda>s. esc_le (fst s)"])
      (use assms(1) esc_le_set in \<open>auto simp: escape_edge_def Let_def\<close>)
  then show ?thesis by (simp add: assms(2))
qed

definition phantom_escapes :: "ConnectionGraph \<Rightarrow> bool" where
  "phantom_escapes G \<longleftrightarrow> escape G (phantom_obj G) = GlobalEscape \<and> fields_escape G (phantom_obj G) = GlobalEscape"

lemma GlobalEscape_top [simp]: "s \<le> GlobalEscape" "(GlobalEscape \<le> s) = (s = GlobalEscape)"
  by (cases s; simp add: es_less_defs)+

lemma phantom_escapes_grows: "phantom_escapes G \<Longrightarrow> grows G G' \<Longrightarrow> phantom_escapes G'"
  using growsD(7,8) [of G G' "phantom_obj G"] by (simp add: phantom_escapes_def growsD)

lemma phantom_edge_closed: "cg_wf G \<Longrightarrow> phantom_escapes G \<Longrightarrow> edge_closed G p es fes (phantom_obj G)"
  by (auto simp: edge_closed_def phantom_escapes_def)

text \<open>Unknown values keep the closure: the phantom object escapes globally.\<close>

lemma closed_node_add_phantom:
  assumes wf: "cg_wf G" and f: "is_Field G f" "pt_is_oop (cg_heap G f)" and ph: "phantom_escapes G"
    and cl: "closed_node G p"
  shows "closed_node (fst (add_value_edge I f (phantom_obj G) G)) p"
proof -
  let ?G = "fst (add_value_edge I f (phantom_obj G) G)"
  have v: "phantom_obj G < cg_next_pidx G" using cg_wf_specials [OF wf] by (simp add: wf_specials_def)
  note a = add_value_edge_correct [OF wf f v, where I = I] growsD [OF add_value_edge_grows]
  have ec: "edge_closed ?G p (escape G p) (fields_escape G p) e"
    if "edge_closed G p (escape G p) (fields_escape G p) e" for e
    using that by (simp only: edge_closed_def a(5,6,9-13))
  have e: "set (edges ?G p) \<subseteq> insert (phantom_obj G) (set (edges G p))"
    by (cases "p = f") (use a(3,4) in auto)
  have "edge_closed ?G p (escape G p) (fields_escape G p) (phantom_obj G)"
    using phantom_edge_closed [OF a(1) phantom_escapes_grows [OF ph a(2)]] a(10) by simp
  with cl e ec a(16) [where p = p] show ?thesis
    unfolding closed_node_def a(5,6,9-13) by blast
qed

lemma node_done_add_phantom:
  assumes wf: "cg_wf G" and f: "is_Field G f" "pt_is_oop (cg_heap G f)" and ph: "phantom_escapes G"
    and cl: "node_done G p"
  shows "node_done (fst (add_value_edge I f (phantom_obj G) G)) p"
proof -
  let ?G = "fst (add_value_edge I f (phantom_obj G) G)"
  have v: "phantom_obj G < cg_next_pidx G" using cg_wf_specials [OF wf] by (simp add: wf_specials_def)
  note a = add_value_edge_correct [OF wf f v, where I = I] growsD [OF add_value_edge_grows]
  have ec: "edge_closed ?G p es fes e = edge_closed G p es fes e" for e es fes
    by (simp only: edge_closed_def a(5,6,9-13))
  have "copy_done ?G p" if c: "copy_done G p"
  proof -
    from c f(1) have "p \<noteq> f" by (auto simp: copy_done_def)
    then have p: "edges ?G p = edges G p" by (rule a(4))
    have "is_LocalVar G u \<Longrightarrow> edges ?G u = edges G u" for u using f(1) a(4) [of u] by force
    then show ?thesis using c unfolding copy_done_def ec a(5,6,11) p by metis
  qed
  then show ?thesis using cl closed_node_add_phantom [OF wf f ph] by (auto simp: node_done_def)
qed

section \<open>The escape loop\<close>

definition escape_inv :: "ConnectionGraph \<Rightarrow> pt list \<Rightarrow> bool" where
  "escape_inv G wl \<longleftrightarrow> cg_wf G \<and> phantom_escapes G \<and> esc_le G \<and> set wl \<subseteq> {..<cg_next_pidx G} \<and>
     (\<forall>p < cg_next_pidx G. p \<in> set wl \<or> node_done G p)"

definition weight :: "pt \<Rightarrow> pt list \<Rightarrow> nat" where
  "weight null wl = (\<Sum>p \<leftarrow> wl. if p = null then 1 else 2)"

lemma weight_simps [simp]:
  "weight n [] = 0" "weight n (p # wl) = (if p = n then 1 else 2) + weight n wl"
  "weight n (xs @ ys) = weight n xs + weight n ys" "weight n (replicate k n) = k"
  by (simp_all add: weight_def) (induction k, simp_all)

text \<open>Adding the unknown value to an escaping oop field, the first half of an iteration.\<close>

lemma unknown_value_step:
  assumes inv: "escape_inv G (p # wl)"
    and G1: "G1 = (if is_Field G p \<and> pt_is_oop (cg_heap G p) \<and> ArgEscape \<le> escape G p
                   then fst (add_value_edge I p (phantom_obj G) G) else G)"
  shows "escape_inv G1 (p # wl)" "grows G G1" "slack G1 = slack G" "escape G1 p = escape G p"
    "fields_escape G1 p = fields_escape G p"
    "is_Field G1 p \<and> pt_is_oop (cg_heap G1 p) \<and> ArgEscape \<le> escape G1 p \<Longrightarrow> phantom_obj G1 \<in> set (edges G1 p)"
proof -
  let ?c = "is_Field G p \<and> pt_is_oop (cg_heap G p) \<and> ArgEscape \<le> escape G p"
  show gr: "grows G G1" by (simp add: G1 add_value_edge_grows)
  have wf: "cg_wf G" and ph: "phantom_escapes G" using inv by (simp_all add: escape_inv_def)
  have v: "phantom_obj G < cg_next_pidx G" using cg_wf_specials [OF wf] by (simp add: wf_specials_def)
  have wf1: "cg_wf G1" using wf v by (auto simp: G1 add_value_edge_correct)
  have nd: "node_done G q \<Longrightarrow> node_done G1 q" for q
    using node_done_add_phantom [OF wf _ _ ph] by (simp add: G1)
  have same: "escape G1 q = escape G q" "fields_escape G1 q = fields_escape G q" for q
    using wf v by (auto simp: G1 add_value_edge_correct)
  from nd show "escape_inv G1 (p # wl)"
    using inv wf1 phantom_escapes_grows [OF ph gr] by (auto simp: escape_inv_def growsD [OF gr] esc_le_def same)
  from same show "slack G1 = slack G" "escape G1 p = escape G p" "fields_escape G1 p = fields_escape G p"
    by (simp_all add: slack_def growsD [OF gr])
  show "is_Field G1 p \<and> pt_is_oop (cg_heap G1 p) \<and> ArgEscape \<le> escape G1 p \<Longrightarrow> phantom_obj G1 \<in> set (edges G1 p)"
    using wf v by (auto simp: G1 add_value_edge_correct growsD [OF add_value_edge_grows] split: if_splits)
qed

lemma edges_in_range: "cg_wf G \<Longrightarrow> \<forall>e \<in> set (edges G p). e < cg_next_pidx G"
  using cg_wf_range [of G] unfolding wf_range_def by blast

lemma distinct_count_list: "distinct xs \<Longrightarrow> count_list xs x = (if x \<in> set xs then 1 else 0)"
  by (induction xs) auto

text \<open>The edges, the second half.\<close>

lemma escape_edges_step:
  assumes inv: "escape_inv G (p # wl)"
    and unk: "is_Field G p \<and> pt_is_oop (cg_heap G p) \<and> ArgEscape \<le> escape G p \<Longrightarrow> phantom_obj G \<in> set (edges G p)"
    and f: "fold (escape_edge p (escape G p) (fields_escape G p)) (edges G p) (G, wl) = (G', wl')"
  shows "escape_inv G' wl'" "grows G G'"
    "slack G' < slack G \<or> slack G' = slack G \<and> weight (null_obj G') wl' < weight (null_obj G) (p # wl)"
proof -
  have wf: "cg_wf G" and ph: "phantom_escapes G" and rg: "set (p # wl) \<subseteq> {..<cg_next_pidx G}"
    and cl: "\<forall>q < cg_next_pidx G. q \<in> set (p # wl) \<or> node_done G q" and el: "esc_le G"
    using inv by (simp_all add: escape_inv_def)
  note er = edges_in_range [OF wf, of p]
  from escape_fold [OF er f] have fe: "fold_effect (edges G p) G wl G' wl'"
    and ec: "\<forall>e \<in> set (edges G p). edge_closed G' p (escape G p) (fields_escape G p) e" by auto
  from fe have r: "raises G G'" and ch: "\<And>q. cg_heap G' q \<noteq> cg_heap G q \<Longrightarrow> q \<in> set wl'"
    and sub: "set wl \<subseteq> set wl'" "set wl' \<subseteq> set wl \<union> set (edges G p)"
    and same: "\<And>q. q \<notin> set (edges G p) \<Longrightarrow> cg_heap G' q = cg_heap G q"
    unfolding fold_effect_def by simp_all
  note fr = raises_frame [OF r]
  show gr: "grows G G'" by (rule raises_grows [OF r])
  have "cg_wf G'" using er same by (intro raises_wf [OF r wf]) (meson leD)
  moreover have "set wl' \<subseteq> {..<cg_next_pidx G'}" using sub(2) rg er fr by auto
  moreover have "q \<in> set wl' \<or> node_done G' q" if "q < cg_next_pidx G" for q
  proof (cases "cg_heap G' q = cg_heap G q")
    case True
    show ?thesis
    proof (cases "q = p")
      case True
      with \<open>cg_heap G' q = cg_heap G q\<close> ec unk have "node_done G' q"
        by (simp add: node_done_def closed_node_def fr)
      then show ?thesis by simp
    next
      case False
      with cl that sub(1) node_done_raises [OF _ r True] show ?thesis by auto
    qed
  qed (use ch in simp)
  ultimately show "escape_inv G' wl'" using phantom_escapes_grows [OF ph gr] esc_le_fold [OF el f] by (simp add: escape_inv_def fr)
  show "slack G' < slack G \<or> slack G' = slack G \<and> weight (null_obj G') wl' < weight (null_obj G) (p # wl)"
  proof (cases "slack G' < slack G")
    case False
    with fe obtain k where k: "G' = G" "k \<le> count_list (edges G p) (null_obj G)" "wl' = replicate k (null_obj G) @ wl"
      by (auto simp: fold_effect_def)
    have "distinct (edges G p)" using cg_wf_distinct [OF wf] by (simp add: wf_distinct_def)
    then have "k \<le> (if null_obj G \<in> set (edges G p) then 1 else 0)" using k(2) by (simp add: distinct_count_list)
    moreover have "p = null_obj G \<Longrightarrow> edges G p = []" using cg_wf_specials [OF wf] by (simp add: wf_specials_def)
    ultimately show ?thesis using k by (auto split: if_splits)
  qed simp
qed

lemma escape_node_step:
  assumes inv: "escape_inv G (p # wl)" and s: "escape_node I p (G, wl) = (G', wl')"
  shows "escape_inv G' wl' \<and> grows G G' \<and>
    (slack G' < slack G \<or> slack G' = slack G \<and> weight (null_obj G') wl' < weight (null_obj G) (p # wl))"
proof -
  obtain G1 where G1: "G1 = (if is_Field G p \<and> pt_is_oop (cg_heap G p) \<and> ArgEscape \<le> escape G p
                   then fst (add_value_edge I p (phantom_obj G) G) else G)" by blast
  note u = unknown_value_step [OF inv G1]
  from s have "fold (escape_edge p (escape G1 p) (fields_escape G1 p)) (edges G1 p) (G1, wl) = (G', wl')"
    unfolding u(4,5) by (simp add: escape_node_def Let_def G1)
  note e = escape_edges_step [OF u(1,6) this]
  show ?thesis using e(1,3) u(3) grows_trans [OF u(2) e(2)] growsD(2) [OF u(2)] by simp
qed

lemma escape_loop_correct:
  assumes "escape_inv G wl"
  shows "\<exists>G'. escape_loop I G wl = Some G' \<and> escape_inv G' [] \<and> grows G G'"
  using assms
proof (induction "(G, wl)" arbitrary: G wl rule: wf_induct_rule
    [OF wf_measures [of "[\<lambda>(G, wl). slack G, \<lambda>(G, wl). weight (null_obj G) wl]"]])
  case 1
  show ?case
  proof (cases wl)
    case Nil
    with 1(2) show ?thesis by (subst escape_loop.simps) simp
  next
    case (Cons p wl0)
    obtain G1 wl1 where s: "escape_node I p (G, wl0) = (G1, wl1)" by fastforce
    note st = escape_node_step [OF 1(2) [unfolded Cons] s]
    then have "\<exists>G'. escape_loop I G1 wl1 = Some G' \<and> escape_inv G' [] \<and> grows G1 G'"
      by (intro 1(1)) (auto simp: Cons)
    then obtain G' where "escape_loop I G1 wl1 = Some G'" "escape_inv G' []" "grows G1 G'" by blast
    with st s Cons show ?thesis by (subst escape_loop.simps) (auto intro: grows_trans)
  qed
qed

section \<open>Non-escaping objects\<close>

lemma escape_inv_add_phantom:
  assumes inv: "escape_inv G []" and f: "is_Field G f" "pt_is_oop (cg_heap G f)"
  shows "escape_inv (fst (add_value_edge I f (phantom_obj G) G)) []"
proof -
  let ?G = "fst (add_value_edge I f (phantom_obj G) G)"
  have wf: "cg_wf G" and ph: "phantom_escapes G" using inv by (simp_all add: escape_inv_def)
  have v: "phantom_obj G < cg_next_pidx G" using cg_wf_specials [OF wf] by (simp add: wf_specials_def)
  note gr = add_value_edge_grows [of G I f "phantom_obj G"]
  show ?thesis
    using inv node_done_add_phantom [OF wf f ph] phantom_escapes_grows [OF ph gr]
      add_value_edge_correct(1) [OF wf f v]
    by (auto simp: escape_inv_def growsD [OF gr] esc_le_def add_value_edge_correct(5,6) [OF wf f v])
qed

text \<open>What the search for unknown values of one object keeps.\<close>

definition adds_unknown :: "ConnectionGraph \<Rightarrow> ConnectionGraph \<Rightarrow> bool" where
  "adds_unknown G G' \<longleftrightarrow> grows G G' \<and> (\<forall>p. escape G' p = escape G p) \<and> (escape_inv G [] \<longrightarrow> escape_inv G' [])"

lemma adds_unknown_refl [simp]: "adds_unknown G G" by (simp add: adds_unknown_def)

lemma adds_unknown_trans: "adds_unknown G1 G2 \<Longrightarrow> adds_unknown G2 G3 \<Longrightarrow> adds_unknown G1 G3"
  by (auto simp: adds_unknown_def intro: grows_trans)

lemma adds_unknown_edge:
  assumes "is_Field G f" "pt_is_oop (cg_heap G f)"
  shows "adds_unknown G (fst (add_value_edge I f (phantom_obj G) G))"
  using assms by (simp add: adds_unknown_def add_value_edge_grows escape_inv_add_phantom
      add_value_edge_frame(1) cg_frame)

lemma find_unknown_values_adds: "adds_unknown G (fst (find_unknown_values I pta G))"
proof -
  let ?R = "\<lambda>s s'. adds_unknown (fst s) (fst s')"
  have "?R s (fold (\<lambda>field (G, k).
             if is_Field G field \<and> pt_is_oop (cg_heap G field) then
               let (G1, is_new) = add_value_edge I field (phantom_obj G) G
               in (G1, if is_new then Suc k else k)
             else (G, k)) fs s)" for fs and s :: "ConnectionGraph \<times> nat"
    by (rule fold_rel) (auto simp: split_beta Let_def adds_unknown_edge intro: adds_unknown_trans)
  from this [of "(G, 0)"] show ?thesis by (simp add: find_unknown_values_def Let_def)
qed

lemma remove_escaped_adds:
  assumes "remove_escaped I ps G = (G', ne)"
  shows "adds_unknown G G' \<and> ne = filter (\<lambda>p. escape G p \<noteq> GlobalEscape) ps"
  using assms
proof (induction ps arbitrary: G' ne)
  case (Cons p ps)
  obtain G1 rest where r: "remove_escaped I ps G = (G1, rest)" by fastforce
  from Cons.IH [OF r] have IH: "adds_unknown G G1" "rest = filter (\<lambda>p. escape G p \<noteq> GlobalEscape) ps" by auto
  then have "escape G1 p = escape G p" by (simp add: adds_unknown_def)
  with Cons.prems IH adds_unknown_trans [OF IH(1) find_unknown_values_adds [of G1 I p]] show ?case
    by (auto simp: r find_init_values_def Let_def split: if_splits)
qed simp

lemma initial_escape_inv:
  assumes wf: "cg_wf G" and ph: "phantom_escapes G" and el: "esc_le G" and rg: "set ptnodes \<subseteq> {..<cg_next_pidx G}"
    and cov: "\<forall>p < cg_next_pidx G. p \<in> set ptnodes \<or> copy_done G p"
    and low: "\<forall>p < cg_next_pidx G. NoEscape \<le> escape G p \<and> NoEscape \<le> fields_escape G p"
  shows "escape_inv G (rev (filter (\<lambda>p. ArgEscape \<le> escape G p \<or> ArgEscape \<le> fields_escape G p) ptnodes))"
proof -
  have "closed_node G p" if "p < cg_next_pidx G" "\<not> ArgEscape \<le> escape G p" "\<not> ArgEscape \<le> fields_escape G p" for p
  proof -
    have ne: "s = NoEscape" if "NoEscape \<le> s" "\<not> ArgEscape \<le> s" for s
      using that by (cases s) (simp_all add: es_less_defs)
    from that low ne have "escape G p = NoEscape" "fields_escape G p = NoEscape" by blast+
    with that low edges_in_range [OF wf, of p] show ?thesis
      by (auto simp: closed_node_def edge_closed_def)
  qed
  with assms show ?thesis by (auto simp: escape_inv_def node_done_def)
qed

text \<open>With an empty worklist the arraycopy nodes are closed as well.\<close>

lemma edge_closed_trans:
  assumes pu: "edge_closed G p es fes u" and u: "is_LocalVar G u" "u \<noteq> null_obj G"
    and ue: "edge_closed G u (escape G u) (fields_escape G u) e" and e: "is_JavaObject G e" and el: "esc_le G"
  shows "edge_closed G p es fes e"
proof (cases "e = null_obj G")
  case False
  with el have le: "escape G e \<le> fields_escape G e" by (simp add: esc_le_def)
  have 1: "escape G u \<le> escape G e" using ue False e by (auto simp: edge_closed_def split: if_splits)
  have 2: "fields_escape G u \<le> fields_escape G e"
    using ue False e le by (auto simp: edge_closed_def split: if_splits intro: order_trans)
  from pu u have "if fes \<le> es then es \<le> escape G u else fes \<le> fields_escape G u \<and> es \<le> escape G u"
    by (auto simp: edge_closed_def split: if_splits)
  with 1 2 e show ?thesis by (auto simp: edge_closed_def split: if_splits intro: order_trans)
qed (simp add: edge_closed_def)

lemma escape_inv_final:
  assumes inv: "escape_inv G []" and p: "p < cg_next_pidx G"
  shows "closed_node G p"
proof (cases "closed_node G p")
  case False
  from inv have wf: "cg_wf G" and el: "esc_le G" and nd: "\<And>q. q < cg_next_pidx G \<Longrightarrow> node_done G q"
    by (auto simp: escape_inv_def)
  from nd [OF p] False have cp: "copy_done G p" by (simp add: node_done_def)
  have "edge_closed G p (escape G p) (fields_escape G p) e" if e: "e \<in> set (edges G p)" for e
  proof (rule ccontr)
    assume n: "\<not> edge_closed G p (escape G p) (fields_escape G p) e"
    with cp e obtain u where u: "is_JavaObject G e" "u \<in> set (edges G p)" "is_LocalVar G u" "e \<in> set (edges G u)"
      unfolding copy_done_def by blast
    have "edge_closed G p (escape G p) (fields_escape G p) u" using cp u unfolding copy_done_def by force
    moreover have "closed_node G u"
      using nd [of u] edges_in_range [OF wf, of p] u(2,3) by (auto simp: node_done_def copy_done_def)
    then have "edge_closed G u (escape G u) (fields_escape G u) e" using u(4) by (simp add: closed_node_def)
    moreover have "u \<noteq> null_obj G" using u(3) cg_wf_specials [OF wf] by (auto simp: wf_specials_def)
    ultimately show False using edge_closed_trans [OF _ u(3) _ _ u(1) el] n by blast
  qed
  with cp show ?thesis by (simp add: closed_node_def copy_done_def)
qed

section \<open>Properties\<close>

text \<open>
  The declarative reading of the closure: what a node points to escapes at least as much
  as the node; the fields of an object escape at least as much as its \<open>fields_escape\<close> state
  says; and an oop field that escapes may hold an unknown value.
\<close>

definition escape_closed :: "ConnectionGraph \<Rightarrow> bool" where
  "escape_closed G \<longleftrightarrow> (\<forall>p < cg_next_pidx G.
     (is_Field G p \<and> pt_is_oop (cg_heap G p) \<and> ArgEscape \<le> escape G p \<longrightarrow> phantom_obj G \<in> set (edges G p)) \<and>
     (\<forall>e \<in> set (edges G p). e \<noteq> null_obj G \<longrightarrow>
        (\<not> is_Arraycopy G e \<longrightarrow> escape G p \<le> escape G e) \<and>
        (is_Arraycopy G e \<longrightarrow> fields_escape G p \<le> fields_escape G e) \<and>
        (is_JavaObject G p \<and> is_Field G e \<and> pt_is_oop (cg_heap G e) \<longrightarrow> fields_escape G p \<le> escape G e)))"

lemma escape_inv_closed:
  assumes "escape_inv G []"
  shows "escape_closed G"
  unfolding escape_closed_def
proof (intro allI impI conjI ballI)
  fix p e
  assume p: "p < cg_next_pidx G"
  with assms have cl: "closed_node G p" by (rule escape_inv_final)
  show "phantom_obj G \<in> set (edges G p)"
    if "is_Field G p \<and> pt_is_oop (cg_heap G p) \<and> ArgEscape \<le> escape G p"
    using cl that by (simp add: closed_node_def)
  assume "e \<in> set (edges G p)" "e \<noteq> null_obj G"
  with cl have ec: "if is_Arraycopy G e then fields_escape G p \<le> fields_escape G e
      else if fields_escape G p \<le> escape G p then escape G p \<le> escape G e
      else fields_escape G p \<le> fields_escape G e \<and> escape G p \<le> escape G e \<and>
        (is_Field G e \<and> is_JavaObject G p \<and> pt_is_oop (cg_heap G e) \<longrightarrow> fields_escape G p \<le> escape G e)"
    by (auto simp: closed_node_def edge_closed_def)
  show "escape G p \<le> escape G e" if "\<not> is_Arraycopy G e" using ec that by (simp split: if_splits)
  show "fields_escape G p \<le> fields_escape G e" if "is_Arraycopy G e" using ec that by simp
  show "fields_escape G p \<le> escape G e"
    if "is_JavaObject G p \<and> is_Field G e \<and> pt_is_oop (cg_heap G e)"
    using ec that by (cases "fields_escape G p \<le> escape G p") auto
qed

text \<open>
  C5: \<open>find_non_escaped_objects\<close> always returns. In the graph it leaves, escape states are
  closed under the edges, they only rose, and the list of non-escaping objects keeps
  exactly the objects that do not escape globally; it reports whether any is left.
\<close>

theorem find_non_escaped_objects_correct:
  assumes "cg_wf G" and "phantom_escapes G" and "esc_le G" and "set ptnodes \<subseteq> {..<cg_next_pidx G}"
    and "\<forall>p < cg_next_pidx G. p \<in> set ptnodes \<or> copy_done G p"
    and "\<forall>p < cg_next_pidx G. NoEscape \<le> escape G p \<and> NoEscape \<le> fields_escape G p"
  shows "\<exists>G' ne b. find_non_escaped_objects I ptnodes non_escaped G = Some (G', ne, b) \<and>
    cg_wf G' \<and> grows G G' \<and> escape_closed G' \<and>
    ne = filter (\<lambda>p. escape G' p \<noteq> GlobalEscape) non_escaped \<and> b = (ne \<noteq> [])"
proof -
  let ?wl = "rev (filter (\<lambda>p. ArgEscape \<le> escape G p \<or> ArgEscape \<le> fields_escape G p) ptnodes)"
  from escape_loop_correct [OF initial_escape_inv [OF assms]] obtain G1 where
    l: "escape_loop I G ?wl = Some G1" "escape_inv G1 []" "grows G G1" by blast
  obtain G2 ne where r: "remove_escaped I non_escaped G1 = (G2, ne)" by fastforce
  from remove_escaped_adds [OF r] have a: "adds_unknown G1 G2"
    "ne = filter (\<lambda>p. escape G1 p \<noteq> GlobalEscape) non_escaped" by auto
  then have inv: "escape_inv G2 []" and "grows G1 G2" and "\<forall>p. escape G2 p = escape G1 p"
    using l(2) by (simp_all add: adds_unknown_def)
  moreover have "find_non_escaped_objects I ptnodes non_escaped G = Some (G2, ne, ne \<noteq> [])"
    by (simp add: find_non_escaped_objects_def l r)
  ultimately show ?thesis
    using l(3) a(2) escape_inv_closed [OF inv] by (auto simp: escape_inv_def intro: grows_trans)
qed

text \<open>A variable that escapes globally and the object it points to.\<close>

definition esc_graph :: ConnectionGraph where
  "esc_graph = fst (add_edge 3 2 (add_local_var 3 GlobalEscape (add_java_object 2 NoEscape (new_ConnectionGraph 8 0 1 1 False))))"

lemma esc_graph_wf: "cg_wf esc_graph"
  unfolding esc_graph_def
  by (intro add_edge_wf add_local_var_wf add_java_object_wf new_graph_wf) (simp_all add: edge_ok_def new_graph_defs)

lemma esc_graph_heap:
  "cg_next_pidx esc_graph = 4" "phantom_obj esc_graph = 0" "null_obj esc_graph = 1"
  "escape esc_graph 0 = GlobalEscape" "fields_escape esc_graph 0 = GlobalEscape"
  "escape esc_graph (Suc 0) = NoEscape" "fields_escape esc_graph (Suc 0) = NoEscape"
  "escape esc_graph 2 = NoEscape" "fields_escape esc_graph 2 = NoEscape"
  "escape esc_graph 3 = GlobalEscape" "fields_escape esc_graph 3 = GlobalEscape"
  "edges esc_graph 3 = [2]" "pt_type (cg_heap esc_graph 2) = JavaObject"
  by (simp_all add: esc_graph_def new_graph_defs add_edge_def pt_add_edge_def pt_add_use_def es_less_defs
      set_scalar_replaceable_def)

lemma esc_graph_setup: "phantom_escapes esc_graph"
  "\<forall>p < cg_next_pidx esc_graph. NoEscape \<le> escape esc_graph p \<and> NoEscape \<le> fields_escape esc_graph p"
  "set [0, 1, 2, 3] = {..<cg_next_pidx esc_graph}"
  using esc_graph_heap(8-11) [unfolded numeral_2_eq_2 numeral_3_eq_3]
  by (auto simp: phantom_escapes_def esc_graph_heap es_less_defs less_Suc_eq numeral_eq_Suc)

lemma esc_graph_le: "esc_le esc_graph"
  by (auto simp: esc_le_def esc_graph_def new_graph_defs add_edge_def pt_add_edge_def pt_add_use_def es_less_defs
      set_scalar_replaceable_def pt_none_def)

theorem find_non_escaped_objects_correct_witness:
  "\<exists>G'. find_non_escaped_objects ideal0 [0, 1, 2, 3] [2] esc_graph = Some (G', [], False) \<and>
     escape G' 2 = GlobalEscape"
proof -
  from find_non_escaped_objects_correct [OF esc_graph_wf esc_graph_setup(1) esc_graph_le, of "[0, 1, 2, 3]" ideal0 "[2]"]
    esc_graph_setup(2) esc_graph_setup(3) obtain G' ne b where
    r: "find_non_escaped_objects ideal0 [0, 1, 2, 3] [2] esc_graph = Some (G', ne, b)"
    "grows esc_graph G'" "escape_closed G'" "ne = filter (\<lambda>p. escape G' p \<noteq> GlobalEscape) [2]" "b = (ne \<noteq> [])"
    by (auto simp del: set_simps)
  note g = growsD [OF r(2)]
  have "2 \<in> set (edges G' 3)" using g(9) [of 3] by (simp add: esc_graph_heap)
  moreover have "escape G' 3 = GlobalEscape" using g(7) [of 3] by (simp add: esc_graph_heap)
  moreover have "\<not> is_Arraycopy G' 2" "2 \<noteq> null_obj G'" "3 < cg_next_pidx G'" by (simp_all add: g esc_graph_heap)
  ultimately have "GlobalEscape \<le> escape G' 2"
    using r(3) unfolding escape_closed_def by metis
  then have "escape G' 2 = GlobalEscape" by simp
  with r show ?thesis by simp
qed
end
