(* ===== verification/Complete_Graph.thy ===== *)
theory Complete_Graph
  imports Escape_Flow
begin

text \<open>
  What the propagation of references achieves (\<open>add_java_object_edges\<close>,
  \<open>escape.cpp\<close>) and the driver \<open>complete_connection_graph\<close> that iterates it together
  with the propagation of escape states until nothing changes.
\<close>

section \<open>Completing the graph\<close>

text \<open>
  The elapsed timer is an argument: \<open>expired t\<close> is the answer of the \<open>t\<close>-th comparison
  with \<open>EscapeAnalysisTimeout\<close>. \<open>b_clock\<close> counts the comparisons.
\<close>

record build =
  b_graph :: ConnectionGraph
  b_non_escaped :: "pt list"
  b_new_edges :: nat
  b_iterations :: nat
  b_clock :: nat
  b_timeout :: bool

definition CG_BUILD_ITER_LIMIT :: nat where "CG_BUILD_ITER_LIMIT = 20"
definition SAMPLE_SIZE :: nat where "SAMPLE_SIZE = 4"

text \<open>The loop over \<open>java_objects_worklist\<close>; the timer is read at every fourth object.\<close>

fun object_pass :: "ideal \<Rightarrow> (nat \<Rightarrow> bool) \<Rightarrow> nat \<Rightarrow> pt list \<Rightarrow> build \<Rightarrow> build option" where
  "object_pass I expired i [] s = Some s"
| "object_pass I expired i (ptn # ptns) s =
     (case add_java_object_edges I ptn True (b_graph s) of
        None \<Rightarrow> None
      | Some (G1, n) \<Rightarrow>
          let s1 = s\<lparr>b_graph := G1, b_new_edges := b_new_edges s + n\<rparr> in
          if i mod SAMPLE_SIZE = 0 then
            if expired (b_clock s) then Some (s1\<lparr>b_clock := Suc (b_clock s), b_timeout := True\<rparr>)
            else object_pass I expired (Suc i) ptns (s1\<lparr>b_clock := Suc (b_clock s)\<rparr>)
          else object_pass I expired (Suc i) ptns s1)"

definition check_time :: "(nat \<Rightarrow> bool) \<Rightarrow> build \<Rightarrow> build" where
  "check_time expired s = s\<lparr>b_clock := Suc (b_clock s), b_timeout := expired (b_clock s)\<rparr>"

text \<open>
  The body of the inner loop. \<open>Inl\<close> is the early \<open>return false\<close>, with the graph and the
  list of non-escaping objects as they are then.
\<close>

definition build_pass ::
  "ideal \<Rightarrow> (nat \<Rightarrow> bool) \<Rightarrow> pt list \<Rightarrow> pt list \<Rightarrow> build \<Rightarrow> (build + build) option" where
  "build_pass I expired ptnodes jobjs s =
     (case add_java_object_edges I (phantom_obj (b_graph s)) False (b_graph s) of
        None \<Rightarrow> None
      | Some (G1, n) \<Rightarrow>
          (case object_pass I expired 0 jobjs (s\<lparr>b_graph := G1, b_new_edges := n\<rparr>) of
             None \<Rightarrow> None
           | Some s2 \<Rightarrow>
               if b_timeout s2 then Some (Inr s2)
               else if b_new_edges s2 > 0 then
                 (case find_non_escaped_objects I ptnodes (b_non_escaped s2) (b_graph s2) of
                    None \<Rightarrow> None
                  | Some (G3, ne, found) \<Rightarrow>
                      let s3 = s2\<lparr>b_graph := G3, b_non_escaped := ne\<rparr>
                      in if \<not> found then Some (Inl s3) else Some (Inr (check_time expired s3)))
               else Some (Inr (check_time expired s2))))"

text \<open>
  \<open>while ((new_edges > 0) && (iterations++ < CG_BUILD_ITER_LIMIT))\<close>: the counter also
  moves when the limit ends the loop.
\<close>

partial_function (option) build_while ::
  "ideal \<Rightarrow> (nat \<Rightarrow> bool) \<Rightarrow> pt list \<Rightarrow> pt list \<Rightarrow> build \<Rightarrow> (build + build) option" where
  "build_while I expired ptnodes jobjs s =
     (if b_new_edges s > 0 then
        if b_iterations s < CG_BUILD_ITER_LIMIT then
          (case build_pass I expired ptnodes jobjs (s\<lparr>b_iterations := Suc (b_iterations s)\<rparr>) of
             None \<Rightarrow> None
           | Some (Inl s') \<Rightarrow> Some (Inl s')
           | Some (Inr s') \<Rightarrow>
               if b_timeout s' then Some (Inr s') else build_while I expired ptnodes jobjs s')
        else Some (Inr (s\<lparr>b_iterations := Suc (b_iterations s)\<rparr>))
      else Some (Inr s))"

fun field_pass :: "ideal \<Rightarrow> pt list \<Rightarrow> build \<Rightarrow> build" where
  "field_pass I [] s = s"
| "field_pass I (f # oop_fields) s =
     (if length (edges (b_graph s) f) = 0 then
        let (G1, n) = find_field_value I f (b_graph s)
        in field_pass I oop_fields (s\<lparr>b_graph := G1, b_new_edges := b_new_edges s + n\<rparr>)
      else field_pass I oop_fields s)"

text \<open>The outer loop.\<close>

partial_function (option) build_do_while ::
  "ideal \<Rightarrow> (nat \<Rightarrow> bool) \<Rightarrow> pt list \<Rightarrow> pt list \<Rightarrow> pt list \<Rightarrow> build \<Rightarrow> (build + build) option" where
  "build_do_while I expired ptnodes jobjs oop_fields s =
     (case build_while I expired ptnodes jobjs s of
        None \<Rightarrow> None
      | Some (Inl s1) \<Rightarrow> Some (Inl s1)
      | Some (Inr s1) \<Rightarrow>
          if b_iterations s1 < CG_BUILD_ITER_LIMIT \<and> \<not> b_timeout s1 then
            let s2 = check_time expired (field_pass I oop_fields s1) in
            if b_timeout s2 then Some (Inr s2)
            else if b_new_edges s2 > 0 then build_do_while I expired ptnodes jobjs oop_fields s2
            else Some (Inr s2)
          else Some (Inr (s1\<lparr>b_new_edges := 0\<rparr>)))"

text \<open>
  The fields of non-escaping allocations that are initialised with null; the result
  collects the \<open>Initialize\<close> nodes on which \<open>set_does_not_escape\<close> is called.
\<close>

fun null_pass :: "ideal \<Rightarrow> pt list \<Rightarrow> ConnectionGraph \<Rightarrow> node list \<Rightarrow> (ConnectionGraph \<times> node list) option" where
  "null_pass I [] G inits = Some (G, inits)"
| "null_pass I (ptn # ptns) G inits =
     (case (if escape G ptn = NoEscape then
              (case find_init_values I ptn (null_obj G) G of
                 (G1, n) \<Rightarrow> if n > 0 then add_java_object_edges I (null_obj G1) False G1 else Some (G1, n))
            else Some (G, 0)) of
        None \<Rightarrow> None
      | Some (G2, _) \<Rightarrow>
          let n = ideal_node G2 ptn;
              inits' = (if is_Allocate I n then
                          (case initialization I n of Some ini \<Rightarrow> inits @ [ini] | None \<Rightarrow> inits)
                        else inits)
          in null_pass I ptns G2 inits')"

definition complete_connection_graph ::
  "ideal \<Rightarrow> (nat \<Rightarrow> bool) \<Rightarrow> pt list \<Rightarrow> pt list \<Rightarrow> pt list \<Rightarrow> pt list \<Rightarrow> ConnectionGraph \<Rightarrow>
     (ConnectionGraph \<times> pt list \<times> node list \<times> bool) option" where
  "complete_connection_graph I expired ptnodes non_escaped jobjs oop_fields G =
     (case find_non_escaped_objects I ptnodes non_escaped G of
        None \<Rightarrow> None
      | Some (G1, ne, found) \<Rightarrow>
          if \<not> found then Some (G1, ne, [], False)
          else
            (case build_do_while I expired ptnodes jobjs oop_fields
                \<lparr>b_graph = G1, b_non_escaped = ne, b_new_edges = 1, b_iterations = 0,
                  b_clock = 0, b_timeout = False\<rparr> of
               None \<Rightarrow> None
             | Some (Inl s) \<Rightarrow> Some (b_graph s, b_non_escaped s, [], False)
             | Some (Inr s) \<Rightarrow>
                 if b_iterations s \<ge> CG_BUILD_ITER_LIMIT \<or> b_timeout s
                 then Some (b_graph s, b_non_escaped s, [], False)
                 else
                   (case null_pass I (b_non_escaped s) (b_graph s) [] of
                      None \<Rightarrow> None
                    | Some (G2, inits) \<Rightarrow> Some (G2, b_non_escaped s, inits, True))))"

section \<open>The contents of the worklist\<close>

text \<open>
  The graph as the propagation needs it: Java objects point to fields and arraycopies
  only, only fields carry the oop mark, and the sources of an arraycopy are variables and Java
  objects other than null.
\<close>

definition typed_edges :: "ConnectionGraph \<Rightarrow> bool" where
  "typed_edges G \<longleftrightarrow>
     (\<forall>p q. is_JavaObject G p \<and> q \<in> set (edges G p) \<longrightarrow> is_Field G q \<or> is_Arraycopy G q) \<and>
     (\<forall>p. pt_is_oop (cg_heap G p) \<longrightarrow> is_Field G p) \<and>
     (\<forall>p. is_Arraycopy G p \<longrightarrow> null_obj G \<notin> set (edges G p)) \<and>
     (\<forall>p q. is_Arraycopy G p \<and> q \<in> set (edges G p) \<longrightarrow> is_LocalVar G q \<or> is_JavaObject G q)"

fun wl_entry :: "ConnectionGraph \<Rightarrow> pt_use \<Rightarrow> bool" where
  "wl_entry G (Use v) \<longleftrightarrow> v < cg_next_pidx G \<and> \<not> is_JavaObject G v \<and> (is_Field G v \<longrightarrow> pt_is_oop (cg_heap G v))"
| "wl_entry G (BaseUse f) \<longleftrightarrow> f < cg_next_pidx G \<and> is_Field G f"

definition wl_ok :: "ConnectionGraph \<Rightarrow> bool" where
  "wl_ok G \<longleftrightarrow> distinct (cg_worklist G) \<and> cg_in_worklist G = (\<lambda>u. worklist_key u G) ` set (cg_worklist G) \<and>
     (\<forall>u \<in> set (cg_worklist G). wl_entry G u)"

definition flow_ok :: "ConnectionGraph \<Rightarrow> bool" where
  "flow_ok G \<longleftrightarrow> cg_wf G \<and> typed_edges G \<and> wl_ok G"

lemma flow_okD: "flow_ok G \<Longrightarrow> cg_wf G" "flow_ok G \<Longrightarrow> typed_edges G" "flow_ok G \<Longrightarrow> wl_ok G"
  by (simp_all add: flow_ok_def)

lemma wl_entry_range: "wl_entry G u \<Longrightarrow> get_use_node u < cg_next_pidx G"
  by (cases u) auto

lemma worklist_key_inj:
  assumes "wl_entry G u" "wl_entry G v" "worklist_key u G = worklist_key v G"
  shows "u = v"
  using assms by (cases u; cases v) (auto simp: worklist_key_def)

lemma wl_length:
  assumes "wl_ok G"
  shows "length (cg_worklist G) \<le> 2 * cg_next_pidx G"
proof -
  have "set (cg_worklist G) \<subseteq> Use ` {..<cg_next_pidx G} \<union> BaseUse ` {..<cg_next_pidx G}" (is "_ \<subseteq> ?S")
  proof
    fix u assume "u \<in> set (cg_worklist G)"
    with assms have "wl_entry G u" by (simp add: wl_ok_def)
    then show "u \<in> ?S" by (cases u) auto
  qed
  then have "card (set (cg_worklist G)) \<le> card ?S" by (intro card_mono) auto
  also have "card ?S = cg_next_pidx G + cg_next_pidx G"
    by (subst card_Un_disjoint) (auto simp: card_image inj_on_def)
  finally show ?thesis using assms by (simp add: wl_ok_def distinct_card)
qed

text \<open>What pushing a list of entries does.\<close>

definition pushes :: "ConnectionGraph \<Rightarrow> pt_use set \<Rightarrow> ConnectionGraph \<Rightarrow> bool" where
  "pushes G S G' \<longleftrightarrow> strip G' = strip G \<and> wl_ok G' \<and> (\<exists>us. cg_worklist G' = cg_worklist G @ us) \<and>
     set (cg_worklist G') = set (cg_worklist G) \<union> S"

lemma pushesD:
  assumes "pushes G S G'"
  shows "strip G' = strip G" "wl_ok G'" "set (cg_worklist G') = set (cg_worklist G) \<union> S"
    "\<exists>us. cg_worklist G' = cg_worklist G @ us"
    "cg_heap G' = cg_heap G" "cg_next_pidx G' = cg_next_pidx G" "null_obj G' = null_obj G"
    "phantom_obj G' = phantom_obj G"
  using assms by (auto simp: pushes_def dest: strip_eqD)

lemma pushes_refl: "wl_ok G \<Longrightarrow> pushes G {} G"
  by (simp add: pushes_def)

lemma pushes_trans: "pushes G S G1 \<Longrightarrow> pushes G1 T G2 \<Longrightarrow> pushes G (S \<union> T) G2"
  by (auto simp: pushes_def)

lemma wl_entry_pushes: "pushes G S G' \<Longrightarrow> wl_entry G' u = wl_entry G u"
  by (cases u) (simp_all add: pushesD)

lemma add_to_worklist_pushes:
  assumes ok: "wl_ok G" and e: "wl_entry G u"
  shows "pushes G {u} (add_to_worklist u G)"
proof (cases "worklist_key u G \<in> cg_in_worklist G")
  case True
  with ok e have "u \<in> set (cg_worklist G)" by (auto simp: wl_ok_def dest: worklist_key_inj)
  with True ok show ?thesis by (auto simp: add_to_worklist_def pushes_def)
next
  case False
  let ?G = "add_to_worklist u G"
  from False ok have n: "u \<notin> set (cg_worklist G)" by (auto simp: wl_ok_def)
  have "wl_entry ?G v = wl_entry G v" for v by (cases v) (simp_all add: add_to_worklist_def)
  moreover have "worklist_key v ?G = worklist_key v G" for v by (simp add: worklist_key_def add_to_worklist_def)
  ultimately have "wl_ok ?G" using ok e n False by (auto simp: wl_ok_def add_to_worklist_def)
  with False show ?thesis by (simp add: pushes_def add_to_worklist_def strip_def)
qed

text \<open>A loop that pushes the entries \<open>g x\<close> for the elements that pass a test on the heap.\<close>

lemma push_fold:
  assumes ok: "wl_ok G"
    and step: "\<And>x H T. x \<in> set xs \<Longrightarrow> pushes G T H \<Longrightarrow> pushes H (S x) (f x H)"
  shows "pushes G (\<Union>x \<in> set xs. S x) (fold f xs G)"
proof -
  have "pushes G (T \<union> (\<Union>x \<in> set ys. S x)) (fold f ys H)" if "pushes G T H" "set ys \<subseteq> set xs" for ys T H
    using that
  proof (induction ys arbitrary: T H)
    case (Cons y ys)
    then have "pushes G (T \<union> S y) (f y H)" by (auto intro: pushes_trans step)
    from Cons.IH [OF this] Cons.prems(2) show ?case by (simp add: Un_assoc)
  qed simp
  from this [OF pushes_refl [OF ok]] show ?thesis by simp
qed

lemma add_uses_to_worklist_pushes:
  assumes "wl_ok G" and "\<forall>u \<in> set (uses G p). wl_entry G u"
  shows "pushes G (set (uses G p)) (add_uses_to_worklist p G)"
proof -
  have "pushes G (\<Union>u \<in> set (uses G p). {u}) (fold add_to_worklist (uses G p) G)"
    using assms by (intro push_fold) (auto intro!: add_to_worklist_pushes simp: pushesD wl_entry_pushes)
  then show ?thesis by (simp add: add_uses_to_worklist_def)
qed

section \<open>Related fields\<close>

text \<open>
  The fields that may be the same memory as \<open>field\<close>: fields of one base at an equal
  or unknown offset, also of the destinations of an arraycopy from that base.
\<close>

definition base_fields :: "ideal \<Rightarrow> ConnectionGraph \<Rightarrow> pt \<Rightarrow> pt \<Rightarrow> pt set" where
  "base_fields I G field base = {f. related_field I field f G \<and>
     (if is_LocalVar G base then BaseUse f \<in> set (uses G base)
      else base \<noteq> phantom_obj G \<and> base \<noteq> null_obj G \<and> f \<in> set (edges G base) \<and> \<not> is_Arraycopy G f)}"

definition field_targets :: "ideal \<Rightarrow> ConnectionGraph \<Rightarrow> pt \<Rightarrow> pt set" where
  "field_targets I G field = (\<Union>base \<in> set (bases G field).
     base_fields I G field base \<union>
     (if arraycopy_src (cg_heap G base) then \<Union>abase \<in> set (arraycopy_dests base G). base_fields I G field abase else {}))"

lemma heap_only:
  assumes "strip G = strip H"
  shows "related_field I field f G = related_field I field f H" "base_fields I G field base = base_fields I H field base"
    "arraycopy_dests base G = arraycopy_dests base H" "field_targets I G field = field_targets I H field"
  unfolding related_field_def base_fields_def arraycopy_dests_def field_targets_def strip_eqD [OF assms] by (rule refl)+

lemma is_base_use_iff: "is_base_use u \<longleftrightarrow> u = BaseUse (get_use_node u)"
  by (cases u) simp_all

lemma base_fields_entry:
  assumes fl: "cg_wf G" "typed_edges G" and f: "f \<in> base_fields I G field base"
  shows "wl_entry G (Use f)"
proof -
  from f have "pt_is_oop (cg_heap G f)" by (simp add: base_fields_def related_field_def)
  with fl(2) have "is_Field G f" "pt_is_oop (cg_heap G f)" by (simp_all add: typed_edges_def)
  with wf_node_range [OF fl(1), of f] show ?thesis by simp
qed

lemma guarded_push:
  assumes "wl_ok G" and "c \<Longrightarrow> wl_entry G u"
  shows "pushes G (if c then {u} else {}) (if c then add_to_worklist u G else G)"
  using assms by (simp add: add_to_worklist_pushes pushes_refl)

lemma add_fields_to_worklist_pushes:
  assumes ok: "wl_ok G" and fl: "cg_wf G" "typed_edges G"
  shows "pushes G (Use ` base_fields I G field base) (add_fields_to_worklist I field base G)"
proof -
  let ?c = "\<lambda>u. is_base_use u \<and> related_field I field (get_use_node u) G"
  let ?d = "\<lambda>f. \<not> is_Arraycopy G f \<and> related_field I field f G"
  have rel: "related_field I field f H = related_field I field f G" "is_Arraycopy H f = is_Arraycopy G f"
    "wl_ok H" if "pushes G T H" for f H T
    using pushesD [OF that] heap_only(1) [OF pushesD(1) [OF that]] by simp_all
  have e: "f \<in> base_fields I G field base \<Longrightarrow> pushes G T H \<Longrightarrow> wl_entry H (Use f)" for f T H
    using base_fields_entry [OF fl] wl_entry_pushes by blast
  show ?thesis
  proof (cases "is_LocalVar G base")
    case True
    have "pushes G (\<Union>u \<in> set (uses G base). if ?c u then {Use (get_use_node u)} else {})
      (fold (\<lambda>u G. if is_base_use u \<and> related_field I field (get_use_node u) G
                    then add_to_worklist (Use (get_use_node u)) G else G) (uses G base) G)"
    proof (rule push_fold [OF ok])
      fix u H T assume u: "u \<in> set (uses G base)" and p: "pushes G T H"
      have "?c u \<Longrightarrow> get_use_node u \<in> base_fields I G field base"
        by (cases u) (use u True in \<open>auto simp: base_fields_def\<close>)
      then have "?c u \<Longrightarrow> wl_entry H (Use (get_use_node u))" using e [OF _ p] by blast
      from guarded_push [OF rel(3) [OF p] this]
      show "pushes H (if ?c u then {Use (get_use_node u)} else {})
         (if is_base_use u \<and> related_field I field (get_use_node u) H
          then add_to_worklist (Use (get_use_node u)) H else H)"
        by (simp only: rel(1) [OF p])
    qed
    moreover have "(\<Union>u \<in> set (uses G base). if ?c u then {Use (get_use_node u)} else {}) =
        Use ` base_fields I G field base"
      using True by (auto simp: base_fields_def is_base_use_iff)
    ultimately show ?thesis using True by (simp add: add_fields_to_worklist_def)
  next
    case False
    show ?thesis
    proof (cases "base \<noteq> phantom_obj G \<and> base \<noteq> null_obj G")
      case True
      have "pushes G (\<Union>f \<in> set (edges G base). if ?d f then {Use f} else {})
        (fold (\<lambda>f G. if \<not> is_Arraycopy G f \<and> related_field I field f G
                    then add_to_worklist (Use f) G else G) (edges G base) G)"
      proof (rule push_fold [OF ok])
        fix f H T assume f: "f \<in> set (edges G base)" and p: "pushes G T H"
        have "?d f \<Longrightarrow> f \<in> base_fields I G field base"
          using f True False by (auto simp: base_fields_def)
        then have "?d f \<Longrightarrow> wl_entry H (Use f)" using e [OF _ p] by blast
        from guarded_push [OF rel(3) [OF p] this]
        show "pushes H (if ?d f then {Use f} else {})
           (if \<not> is_Arraycopy H f \<and> related_field I field f H then add_to_worklist (Use f) H else H)"
          by (simp only: rel(1,2) [OF p])
      qed
      moreover have "(\<Union>f \<in> set (edges G base). if ?d f then {Use f} else {}) = Use ` base_fields I G field base"
        using True False by (auto simp: base_fields_def)
      ultimately show ?thesis using True False by (simp add: add_fields_to_worklist_def)
    next
      case none: False
      then have "base_fields I G field base = {}" using False by (auto simp: base_fields_def)
      with none False show ?thesis by (auto simp: add_fields_to_worklist_def pushes_refl [OF ok])
    qed
  qed
qed

lemma add_field_uses_to_worklist_pushes:
  assumes ok: "wl_ok G" and fl: "cg_wf G" "typed_edges G" and us: "\<forall>u \<in> set (uses G field). wl_entry G u"
  shows "pushes G (set (uses G field) \<union> Use ` field_targets I G field) (add_field_uses_to_worklist I field G)"
proof -
  let ?G1 = "add_uses_to_worklist field G"
  note p1 = add_uses_to_worklist_pushes [OF ok us]
  have flH: "cg_wf H" "typed_edges H" "wl_ok H" "base_fields I H field b = base_fields I G field b"
    "arraycopy_dests b H = arraycopy_dests b G" "arraycopy_src (cg_heap H b) = arraycopy_src (cg_heap G b)"
    if "pushes G T H" for T H b
    using fl cg_wf_strip_eq [OF pushesD(1) [OF that]] heap_only [OF pushesD(1) [OF that]] pushesD [OF that]
    by (simp_all add: typed_edges_def)
  let ?S = "\<lambda>b. Use ` (base_fields I G field b \<union>
     (if arraycopy_src (cg_heap G b) then \<Union>a \<in> set (arraycopy_dests b G). base_fields I G field a else {}))"
  have one: "pushes H (Use ` base_fields I G field b) (add_fields_to_worklist I field b H)" if "pushes G T H" for T H b
    using add_fields_to_worklist_pushes [OF flH(3,1,2) [OF that], of I field b] by (simp only: flH(4) [OF that])
  have "pushes ?G1 (\<Union>b \<in> set (bases G field). ?S b) (fold (\<lambda>base G.
        let G1 = add_fields_to_worklist I field base G
        in if arraycopy_src (cg_heap G base)
           then fold (add_fields_to_worklist I field) (arraycopy_dests base G1) G1
           else G1) (bases G field) ?G1)"
  proof (rule push_fold [OF pushesD(2) [OF p1]])
    fix b H T assume "pushes ?G1 T H"
    then have pH: "pushes G (set (uses G field) \<union> T) H" using p1 pushes_trans by blast
    let ?H1 = "add_fields_to_worklist I field b H"
    note q = one [OF pH, of b]
    note p2 = pushes_trans [OF pH q]
    have "pushes ?H1 (\<Union>a \<in> set (arraycopy_dests b G). Use ` base_fields I G field a)
       (fold (add_fields_to_worklist I field) (arraycopy_dests b G) ?H1)"
      by (rule push_fold [OF pushesD(2) [OF p2]]) (use one pushes_trans [OF p2] in blast)
    from pushes_trans [OF q this] q show "pushes H (?S b) (let G1 = add_fields_to_worklist I field b H
        in if arraycopy_src (cg_heap H b) then fold (add_fields_to_worklist I field) (arraycopy_dests b G1) G1 else G1)"
      by (simp add: Let_def flH(5) [OF p2] flH(6) [OF pH] image_Un image_UN)
  qed
  from pushes_trans [OF p1 this] show ?thesis
    by (simp add: add_field_uses_to_worklist_def field_targets_def image_UN pushesD [OF p1])
qed

section \<open>One use\<close>

text \<open>The uses of a variable or a field are entries of the worklist.\<close>

lemma uses_entries:
  assumes wf: "cg_wf G" and ty: "typed_edges G" and p: "\<not> is_JavaObject G p" "\<not> is_Arraycopy G p"
  shows "\<forall>u \<in> set (uses G p). wl_entry G u"
proof
  fix u assume u: "u \<in> set (uses G p)"
  note d = cg_wf_dests [OF wf]
  show "wl_entry G u"
  proof (cases u)
    case (Use v)
    with u d(4) have v: "p \<in> set (edges G v)" "\<not> (is_JavaObject G v \<and> is_Field G p)" by (auto simp: wf_uses_def)
    with ty p have "\<not> is_JavaObject G v" unfolding typed_edges_def by blast
    with Use v d(2) show ?thesis by (auto simp: wf_range_def)
  next
    case (BaseUse f)
    with u d(5) have "p \<in> set (bases G f)" by (auto simp: wf_base_uses_def)
    with BaseUse d(2) show ?thesis by (auto simp: wf_range_def)
  qed
qed

text \<open>What the propagation of \<open>jobj\<close> to a use means.\<close>

fun reached :: "ConnectionGraph \<Rightarrow> pt \<Rightarrow> pt_use \<Rightarrow> bool" where
  "reached G jobj (Use v) \<longleftrightarrow> jobj \<in> set (edges G v) \<or> is_Arraycopy G v \<and> jobj = null_obj G"
| "reached G jobj (BaseUse f) \<longleftrightarrow> jobj \<in> set (bases G f)"

lemma reached_grows: "grows G G' \<Longrightarrow> reached G jobj u \<Longrightarrow> reached G' jobj u"
  by (cases u) (auto dest: growsD(9,10) simp: growsD)

lemma add_base_grows: "grows G (fst (add_base p q G))"
  by (auto simp: grows_def node_grows_def add_base_def Let_def split_beta)

lemma add_edge_worklist [simp]:
  "cg_worklist (fst (add_edge p q G)) = cg_worklist G" "cg_in_worklist (fst (add_edge p q G)) = cg_in_worklist G"
  by (simp_all add: add_edge_def Let_def split_beta)

lemma add_base_worklist [simp]:
  "cg_worklist (fst (add_base p q G)) = cg_worklist G" "cg_in_worklist (fst (add_base p q G)) = cg_in_worklist G"
  by (simp_all add: add_base_def Let_def split_beta)

lemma wl_ok_grows:
  assumes gr: "grows G G'" and "cg_worklist G' = cg_worklist G" "cg_in_worklist G' = cg_in_worklist G" and ok: "wl_ok G"
  shows "wl_ok G'"
proof -
  have "wl_entry G' u = wl_entry G u" "worklist_key u G' = worklist_key u G" for u
    by (cases u; simp add: growsD [OF gr] worklist_key_def)+
  with assms show ?thesis by (simp add: wl_ok_def)
qed

lemma add_edge_edges:
  assumes "cg_wf G" and "edge_ok from to G"
  shows "set (edges (fst (add_edge from to G)) from) = insert to (set (edges G from))"
    "p \<noteq> from \<Longrightarrow> edges (fst (add_edge from to G)) p = edges G p"
    "snd (add_edge from to G) \<longleftrightarrow> to \<notin> set (edges G from)"
  using assms by (cases "to \<in> set (edges G from)"; simp add: add_edge_old add_edge_new edge_ok_def insert_absorb)+

lemma add_edge_flow:
  assumes ok: "flow_ok G" and e: "edge_ok from to G" and t: "is_JavaObject G from \<longrightarrow> is_Arraycopy G to"
    and nn: "is_Arraycopy G from \<longrightarrow> to \<noteq> null_obj G \<and> (is_LocalVar G to \<or> is_JavaObject G to)"
  shows "flow_ok (fst (add_edge from to G))"
proof -
  let ?G = "fst (add_edge from to G)"
  note wf = flow_okD(1) [OF ok]
  have "typed_edges ?G"
    unfolding typed_edges_def cg_frame
  proof (intro conjI allI impI)
    fix p q assume "is_JavaObject G p \<and> q \<in> set (edges ?G p)"
    then show "is_Field G q \<or> is_Arraycopy G q"
      using add_edge_edges [OF wf e] t flow_okD(2) [OF ok] unfolding typed_edges_def by (cases "p = from") auto
  next
    fix p assume "is_Arraycopy G p"
    then show "null_obj G \<notin> set (edges ?G p)"
      using add_edge_edges [OF wf e] nn flow_okD(2) [OF ok] unfolding typed_edges_def by (cases "p = from") auto
  next
    fix p q assume "is_Arraycopy G p \<and> q \<in> set (edges ?G p)"
    then show "is_LocalVar G q \<or> is_JavaObject G q"
      using add_edge_edges [OF wf e] nn flow_okD(2) [OF ok] unfolding typed_edges_def by (cases "p = from") auto
  qed (use flow_okD(2) [OF ok] in \<open>simp add: typed_edges_def\<close>)
  moreover have "wl_ok ?G" by (rule wl_ok_grows [OF add_edge_grows _ _ flow_okD(3) [OF ok]]) simp_all
  ultimately show ?thesis by (simp add: flow_ok_def add_edge_wf [OF wf e])
qed

lemma add_base_flow:
  assumes ok: "flow_ok G" and b: "base_ok from to G"
  shows "flow_ok (fst (add_base from to G))"
proof -
  let ?G = "fst (add_base from to G)"
  note wf = flow_okD(1) [OF ok]
  have "typed_edges ?G"
  proof (cases "to \<in> set (bases G from)")
    case False
    have "edges ?G p = (if p = to \<and> is_JavaObject G to \<and> to \<noteq> null_obj G then edges G p @ [from] else edges G p)" for p
      using b by (auto simp: add_base_new [OF wf b False] base_back_def base_node_def base_ok_def)
    then show ?thesis
      using flow_okD(2) [OF ok] b unfolding typed_edges_def growsD [OF add_base_grows] base_ok_def by auto
  qed (use ok in \<open>simp add: add_base_old [OF wf] flow_ok_def\<close>)
  moreover have "wl_ok ?G" by (rule wl_ok_grows [OF add_base_grows _ _ flow_okD(3) [OF ok]]) simp_all
  ultimately show ?thesis by (simp add: flow_ok_def add_base_wf [OF wf b])
qed

lemma flow_ok_upd:
  assumes ok: "flow_ok G" and p: "p < cg_next_pidx G" and f: "structure_preserving f"
  shows "flow_ok (upd_pt p f G)"
proof -
  note sp = structure_preserving.heap_upd [OF f, of p G]
  have ty: "typed_edges (upd_pt p f G)" using flow_okD(2) [OF ok] unfolding typed_edges_def sp upd_pt_simps(7) .
  have "wl_entry (upd_pt p f G) u = wl_entry G u" for u by (cases u) (simp_all only: wl_entry.simps sp upd_pt_simps(6))
  moreover have "worklist_key u (upd_pt p f G) = worklist_key u G" for u by (simp add: worklist_key_def)
  ultimately have "wl_ok (upd_pt p f G)" using flow_okD(3) [OF ok] by (simp add: wl_ok_def)
  with ty show ?thesis using structure_preserving.upd_wf [OF f flow_okD(1) [OF ok] p] by (simp add: flow_ok_def)
qed

text \<open>The contract of every step: the graph stays in order, grows, and only appends to the worklist.\<close>

definition flows :: "ConnectionGraph \<Rightarrow> ConnectionGraph \<Rightarrow> bool" where
  "flows G G' \<longleftrightarrow> flow_ok G' \<and> grows G G' \<and> (\<exists>us. cg_worklist G' = cg_worklist G @ us)"

lemma flows_refl: "flow_ok G \<Longrightarrow> flows G G"
  by (simp add: flows_def)

lemma flows_trans: "flows G G1 \<Longrightarrow> flows G1 G2 \<Longrightarrow> flows G G2"
  by (auto simp: flows_def intro: grows_trans)

lemma flowsD: "flows G G' \<Longrightarrow> flow_ok G'" "flows G G' \<Longrightarrow> grows G G'"
  by (simp_all add: flows_def)

lemma flows_pushes: "flow_ok G \<Longrightarrow> pushes G S G' \<Longrightarrow> flows G G'"
  using pushesD [of G S G'] cg_wf_strip_eq [of G' G] strip_grows [of G G']
  by (simp add: flows_def flow_ok_def typed_edges_def)

lemma flows_add_edge:
  "flow_ok G \<Longrightarrow> edge_ok from to G \<Longrightarrow> is_JavaObject G from \<longrightarrow> is_Arraycopy G to \<Longrightarrow>
     is_Arraycopy G from \<longrightarrow> to \<noteq> null_obj G \<and> (is_LocalVar G to \<or> is_JavaObject G to) \<Longrightarrow> flows G (fst (add_edge from to G))"
  by (simp add: flows_def add_edge_flow add_edge_grows)

lemma flows_add_base: "flow_ok G \<Longrightarrow> base_ok from to G \<Longrightarrow> flows G (fst (add_base from to G))"
  by (simp add: flows_def add_base_flow add_base_grows)

lemma flows_set_arraycopy:
  assumes "flow_ok G" and "p < cg_next_pidx G"
  shows "flows G (upd_pt p set_arraycopy_src G)" "flows G (upd_pt p set_arraycopy_dst G)"
  using assms flow_ok_upd [OF assms src.structure_preserving_axioms] flow_ok_upd [OF assms dst.structure_preserving_axioms]
  by (simp_all add: flows_def grows_def node_grows_def)

lemma add_arraycopy_dst_edges_flows:
  assumes ok: "flow_ok G" and j: "is_JavaObject G jobj" "jobj < cg_next_pidx G"
  shows "flows G (fst (add_arraycopy_dst_edges use jobj G))"
proof -
  let ?f = "\<lambda>e (G, k).
        if is_Arraycopy G e then
          if jobj = null_obj G then (G, k)
          else
            let (G1, is_new) = add_edge jobj e G
            in if is_new then (upd_pt jobj set_arraycopy_dst G1, Suc k) else (G1, k)
        else (G, k)"
  have "flows G (fst (fold ?f (edges G use) (G, 0::nat)))"
  proof (rule fold_inv [where P = "\<lambda>s. flows G (fst s)"])
    fix e and s :: "ConnectionGraph \<times> nat" assume e: "e \<in> set (edges G use)" and s: "flows G (fst s)"
    obtain H k where sH: "s = (H, k)" by (cases s)
    from s have H: "flow_ok H" "grows G H" "flows G H" by (simp_all add: sH flows_def)
    have jH: "is_JavaObject H jobj" "jobj < cg_next_pidx H" using j by (simp_all add: growsD [OF H(2)])
    have er: "e < cg_next_pidx H" using e edges_in_range [OF flow_okD(1) [OF ok]] by (simp add: growsD [OF H(2)])
    show "flows G (fst (?f e s))"
    proof (cases "is_Arraycopy H e \<and> jobj \<noteq> null_obj H")
      case True
      obtain H1 b where a: "add_edge jobj e H = (H1, b)" by fastforce
      have f1: "flows H H1" using flows_add_edge [OF H(1), of jobj e] True jH er a by (simp add: edge_ok_def)
      moreover have "flows H1 (upd_pt jobj set_arraycopy_dst H1)"
        using jH by (intro flows_set_arraycopy flowsD(1) [OF f1]) (simp add: growsD [OF flowsD(2) [OF f1]])
      ultimately show ?thesis using True H(3) by (auto simp: sH a intro: flows_trans)
    qed (use H(3) sH in auto)
  qed (simp add: flows_refl [OF ok])
  then show ?thesis by (simp add: add_arraycopy_dst_edges_def)
qed

text \<open>A value edge to a variable or field, with the uses of the target pushed.\<close>

lemma process_value_use:
  assumes ok: "flow_ok G" and v: "wl_entry G (Use v)" "\<not> is_Arraycopy G v"
    and j: "is_JavaObject G jobj" "jobj < cg_next_pidx G" and r: "process_use I jobj (Use v) G = (G', k)"
  shows "flows G G' \<and> reached G' jobj (Use v) \<and> (k = 0 \<longrightarrow> G' = G)"
proof -
  note wf = flow_okD(1) [OF ok]
  obtain G1 b where a: "add_edge v jobj G = (G1, b)" by fastforce
  have "v \<noteq> null_obj G" using v(1) cg_wf_specials [OF wf] by (auto simp: wf_specials_def)
  with v j have e: "edge_ok v jobj G" by (auto simp: edge_ok_def)
  have f1: "flows G G1" using flows_add_edge [OF ok e] v a by simp
  note g1 = growsD [OF flowsD(2) [OF f1]] and ok1 = flowsD(1) [OF f1]
  have re: "reached G1 jobj (Use v)" using add_edge_edges(1) [OF wf e] a by simp
  show ?thesis
  proof (cases b)
    case False
    with a add_edge_edges(3) [OF wf e] add_edge_old [OF wf, of jobj v] have "G1 = G" by simp
    with False r re v f1 show ?thesis by (simp add: process_use_def a)
  next
    case True
    have us: "\<forall>u \<in> set (uses G1 v). wl_entry G1 u"
      using v by (intro uses_entries flow_okD [OF ok1]) (simp_all add: g1)
    note pu = add_uses_to_worklist_pushes [OF flow_okD(3) [OF ok1] us]
    note pf = add_field_uses_to_worklist_pushes [OF flow_okD(3,1,2) [OF ok1] us, of I]
    note fu = flows_pushes [OF ok1 pu] and ff = flows_pushes [OF ok1 pf]
    have "flows (add_uses_to_worklist v G1) (fst (add_arraycopy_dst_edges v jobj (add_uses_to_worklist v G1)))"
      using j by (intro add_arraycopy_dst_edges_flows flowsD(1) [OF fu]) (simp_all add: g1 pushesD [OF pu])
    then have "flows G1 G'" "k \<noteq> 0"
      using r True v fu ff by (auto simp: process_use_def a Let_def split_beta intro: flows_trans split: if_splits)
    with f1 re show ?thesis by (auto intro: flows_trans reached_grows [OF flowsD(2)] simp del: reached.simps)
  qed
qed

lemma process_use_correct:
  assumes ok: "flow_ok G" and u: "wl_entry G u" and j: "is_JavaObject G jobj" "jobj < cg_next_pidx G"
    and r: "process_use I jobj u G = (G', k)"
  shows "flows G G' \<and> reached G' jobj u \<and> (k = 0 \<longrightarrow> G' = G)"
proof (cases u)
  case (BaseUse f)
  note wf = flow_okD(1) [OF ok]
  have b: "base_ok f jobj G" using u j BaseUse by (simp add: base_ok_def)
  have "reached (fst (add_base f jobj G)) jobj u"
    by (cases "jobj \<in> set (bases G f)") (simp_all add: BaseUse add_base_old [OF wf] add_base_new [OF wf b])
  moreover have "\<not> snd (add_base f jobj G) \<Longrightarrow> fst (add_base f jobj G) = G"
    by (cases "jobj \<in> set (bases G f)") (simp_all add: add_base_old [OF wf] add_base_new [OF wf b])
  moreover have "G' = fst (add_base f jobj G)" "k = (if snd (add_base f jobj G) then 1 else 0)"
    using r BaseUse by (simp_all add: process_use_def split_beta Let_def)
  ultimately show ?thesis using flows_add_base [OF ok b] by simp
next
  case (Use v)
  show ?thesis
  proof (cases "is_Arraycopy G v")
    case True
    note wf = flow_okD(1) [OF ok]
    show ?thesis
    proof (cases "jobj = null_obj G")
      case null: True
      with r True Use flows_refl [OF ok] show ?thesis by (auto simp: process_use_def)
    next
      case False
      obtain G1 b where a: "add_edge v jobj G = (G1, b)" by fastforce
      have "v \<noteq> null_obj G" using True cg_wf_specials [OF wf] by (auto simp: wf_specials_def)
      with u Use j True have e: "edge_ok v jobj G" by (auto simp: edge_ok_def)
      note ae = add_edge_edges(1,3) [OF wf e, unfolded a, simplified]
      have f1: "flows G G1" using flows_add_edge [OF ok e] True False j(1) a by simp
      have "G1 = G" if "\<not> b" using add_edge_old [OF wf, of jobj v] ae(2) a that by simp
      moreover have "flows G1 (upd_pt jobj set_arraycopy_src G1)"
        using j by (intro flows_set_arraycopy flowsD(1) [OF f1]) (simp add: growsD [OF flowsD(2) [OF f1]])
      moreover have "G' = (if b then upd_pt jobj set_arraycopy_src G1 else G1)" "k = (if b then 1 else 0)"
        using r Use True False by (simp_all add: process_use_def a split: if_splits)
      ultimately show ?thesis using Use f1 ae(1) flows_trans [OF f1] by auto
    qed
  next
    case False
    with process_value_use [OF ok _ False j] u r Use show ?thesis by simp
  qed
qed

section \<open>Arraycopy nodes\<close>

text \<open>
  While references are propagated, escape states stay, and an arraycopy only gets an edge to an
  object that a variable it points to has.
\<close>

definition copy_ext :: "ConnectionGraph \<Rightarrow> ConnectionGraph \<Rightarrow> bool" where
  "copy_ext G G' \<longleftrightarrow> (\<forall>p. escape G' p = escape G p \<and> fields_escape G' p = fields_escape G p) \<and>
     (\<forall>p. is_Arraycopy G p \<longrightarrow> (\<forall>e \<in> set (edges G' p). e \<in> set (edges G p) \<or>
        is_JavaObject G e \<and> (\<exists>u \<in> set (edges G' p). is_LocalVar G u \<and> e \<in> set (edges G' u))))"

lemma copy_extI:
  assumes "\<And>p. escape G' p = escape G p" "\<And>p. fields_escape G' p = fields_escape G p"
    and "\<And>p. is_Arraycopy G p \<Longrightarrow> edges G' p = edges G p"
  shows "copy_ext G G'"
  using assms by (simp add: copy_ext_def)

lemma copy_ext_refl [simp]: "copy_ext G G"
  by (rule copy_extI) simp_all

lemma copy_ext_strip: "strip G' = strip G \<Longrightarrow> copy_ext G G'"
  by (drule strip_eqD(1)) (simp add: copy_extI)

lemma copy_ext_trans:
  assumes a: "copy_ext G G1" and b: "copy_ext G1 G2" and g1: "grows G G1" and g2: "grows G1 G2"
  shows "copy_ext G G2"
proof -
  note t1 = growsD(4) [OF g1]
  have "e \<in> set (edges G p) \<or> is_JavaObject G e \<and> (\<exists>u \<in> set (edges G2 p). is_LocalVar G u \<and> e \<in> set (edges G2 u))"
    if p: "is_Arraycopy G p" and e: "e \<in> set (edges G2 p)" for p e
  proof (cases "e \<in> set (edges G1 p)")
    case True
    with a p consider "e \<in> set (edges G p)"
      | u where "is_JavaObject G e" "u \<in> set (edges G1 p)" "is_LocalVar G u" "e \<in> set (edges G1 u)"
      unfolding copy_ext_def by blast
    then show ?thesis using growsD(9) [OF g2] by cases blast+
  next
    case False
    with b p e show ?thesis unfolding copy_ext_def t1 by blast
  qed
  with a b show ?thesis by (simp add: copy_ext_def)
qed

definition copies_done :: "ConnectionGraph \<Rightarrow> bool" where
  "copies_done G \<longleftrightarrow> (\<forall>p < cg_next_pidx G. is_Arraycopy G p \<longrightarrow> copy_done G p)"

lemma copies_done_ext:
  assumes cd: "copies_done G" and e: "copy_ext G G'" and gr: "grows G G'"
  shows "copies_done G'"
  unfolding copies_done_def
proof (intro allI impI)
  fix p assume p: "p < cg_next_pidx G'" "is_Arraycopy G' p"
  with cd have c: "copy_done G p" by (simp add: copies_done_def growsD [OF gr])
  have ec: "edge_closed G' p es fes x = edge_closed G p es fes x" for es fes x
    using e by (simp only: edge_closed_def growsD [OF gr] copy_ext_def)
  have esc: "escape G' p = escape G p" "fields_escape G' p = fields_escape G p" using e by (simp_all add: copy_ext_def)
  have "edge_closed G p (escape G p) (fields_escape G p) x \<or>
      is_JavaObject G x \<and> (\<exists>u \<in> set (edges G' p). is_LocalVar G u \<and> x \<in> set (edges G' u))"
    if x: "x \<in> set (edges G' p)" for x
  proof (cases "x \<in> set (edges G p)")
    case True
    with c show ?thesis using growsD(9) [OF gr] unfolding copy_done_def by blast
  next
    case False
    with e x p show ?thesis unfolding copy_ext_def growsD(4) [OF gr] by blast
  qed
  with p show "copy_done G' p" unfolding copy_done_def ec esc growsD(4) [OF gr] by blast
qed

text \<open>The arraycopies on the worklist copy from a variable that holds \<open>jobj\<close>.\<close>

definition wl_src :: "ConnectionGraph \<Rightarrow> pt \<Rightarrow> bool" where
  "wl_src G jobj \<longleftrightarrow> (\<forall>a. Use a \<in> set (cg_worklist G) \<and> is_Arraycopy G a \<longrightarrow>
     (\<exists>u \<in> set (edges G a). is_LocalVar G u \<and> jobj \<in> set (edges G u)))"

definition wl_noac :: "ConnectionGraph \<Rightarrow> bool" where
  "wl_noac G \<longleftrightarrow> (\<forall>a. Use a \<in> set (cg_worklist G) \<longrightarrow> \<not> is_Arraycopy G a)"

lemma wl_src_noac: "wl_noac G \<Longrightarrow> wl_src G jobj"
  by (auto simp: wl_src_def wl_noac_def)

lemma wl_src_grows:
  assumes "wl_src G jobj" and gr: "grows G G'" and "cg_worklist G' = cg_worklist G"
  shows "wl_src G' jobj"
  using assms(1,3) growsD(9) [OF gr] unfolding wl_src_def growsD(4) [OF gr] by (metis subsetD)

lemma wl_src_pushes:
  assumes "wl_src G jobj" and p: "pushes G S G'"
    and S: "\<And>a. Use a \<in> S \<Longrightarrow> is_Arraycopy G a \<Longrightarrow> \<exists>u \<in> set (edges G a). is_LocalVar G u \<and> jobj \<in> set (edges G u)"
  shows "wl_src G' jobj"
  using assms(1) S unfolding wl_src_def pushesD(3,5) [OF p] by blast

text \<open>The entries that a variable or field holding \<open>jobj\<close> gives rise to.\<close>

lemma field_targets_no_copy: "typed_edges G \<Longrightarrow> a \<in> field_targets I G f \<Longrightarrow> \<not> is_Arraycopy G a"
  by (auto simp: field_targets_def base_fields_def related_field_def typed_edges_def split: if_splits)

lemma use_source:
  assumes wf: "cg_wf G" and ty: "typed_edges G" and p: "\<not> is_JavaObject G p"
    and a: "Use a \<in> set (uses G p)" "is_Arraycopy G a"
  shows "is_LocalVar G p \<and> p \<in> set (edges G a)"
  using cg_wf_uses [OF wf] ty p a unfolding wf_uses_def typed_edges_def by blast

lemma obligation_source:
  assumes wf: "cg_wf G" and ty: "typed_edges G" and p: "\<not> is_JavaObject G p" "jobj \<in> set (edges G p)"
    and a: "Use a \<in> set (uses G p) \<union> Use ` field_targets I G p" "is_Arraycopy G a"
  shows "\<exists>u \<in> set (edges G a). is_LocalVar G u \<and> jobj \<in> set (edges G u)"
  using a use_source [OF wf ty p(1)] field_targets_no_copy [OF ty] p(2) by blast

text \<open>Only the first two kinds of uses add edges to arraycopies.\<close>

lemma add_edge_copy_ext:
  assumes wf: "cg_wf G" and e: "edge_ok from to G"
    and c: "is_Arraycopy G from \<Longrightarrow> is_JavaObject G to \<and> (\<exists>u \<in> set (edges G from). is_LocalVar G u \<and> to \<in> set (edges G u))"
  shows "copy_ext G (fst (add_edge from to G))"
proof -
  let ?G = "fst (add_edge from to G)"
  note ae = add_edge_edges [OF wf e] and gr = growsD(9) [OF add_edge_grows]
  have "x \<in> set (edges G p) \<or> is_JavaObject G x \<and> (\<exists>u \<in> set (edges ?G p). is_LocalVar G u \<and> x \<in> set (edges ?G u))"
    if p: "is_Arraycopy G p" and x: "x \<in> set (edges ?G p)" for p x
  proof (cases "p = from")
    case True
    with p c have "is_JavaObject G to \<and> (\<exists>u \<in> set (edges ?G p). is_LocalVar G u \<and> to \<in> set (edges ?G u))"
      using gr by blast
    with x True ae(1) show ?thesis by auto
  qed (use x ae(2) in simp)
  then show ?thesis by (simp add: copy_ext_def cg_frame)
qed

lemma add_base_copy_ext:
  assumes wf: "cg_wf G" and b: "base_ok from to G"
  shows "copy_ext G (fst (add_base from to G))"
proof (cases "to \<in> set (bases G from)")
  case True
  then show ?thesis by (simp add: add_base_old [OF wf])
next
  case False
  have "edges (fst (add_base from to G)) p = edges G p" if "is_Arraycopy G p" for p
    using that b by (auto simp: add_base_new [OF wf b False] base_ok_def)
  then show ?thesis by (intro copy_extI) (simp_all add: add_base_new [OF wf b False])
qed

lemma add_edge_other: "p \<noteq> from \<Longrightarrow> edges (fst (add_edge from to G)) p = edges G p"
  by (simp add: add_edge_def Let_def split_beta)

lemma add_arraycopy_dst_edges_copy_ext:
  assumes ok: "flow_ok G" and j: "is_JavaObject G jobj" "jobj < cg_next_pidx G"
  shows "copy_ext G (fst (add_arraycopy_dst_edges use jobj G)) \<and>
    cg_worklist (fst (add_arraycopy_dst_edges use jobj G)) = cg_worklist G"
proof -
  let ?f = "\<lambda>e (G, k).
        if is_Arraycopy G e then
          if jobj = null_obj G then (G, k)
          else
            let (G1, is_new) = add_edge jobj e G
            in if is_new then (upd_pt jobj set_arraycopy_dst G1, Suc k) else (G1, k)
        else (G, k)"
  let ?P = "\<lambda>H. grows G H \<and> (\<forall>p. escape H p = escape G p \<and> fields_escape H p = fields_escape G p) \<and>
     (\<forall>p. p \<noteq> jobj \<longrightarrow> edges H p = edges G p) \<and> cg_worklist H = cg_worklist G"
  have "?P (fst (fold ?f (edges G use) (G, 0::nat)))"
  proof (rule fold_inv [where P = "\<lambda>s. ?P (fst s)"])
    fix e and s :: "ConnectionGraph \<times> nat" assume s: "?P (fst s)"
    obtain H k where sH: "s = (H, k)" by (cases s)
    obtain H1 b where a: "add_edge jobj e H = (H1, b)" by fastforce
    have g1: "grows H H1" using add_edge_grows [of H jobj e] a by simp
    have h1: "escape H1 p = escape H p" "fields_escape H1 p = fields_escape H p" "cg_worklist H1 = cg_worklist H" for p
      using cg_frame(7,8) add_edge_worklist(1) [of jobj e H] a by (metis fst_conv)+
    have e1: "p \<noteq> jobj \<Longrightarrow> edges H1 p = edges H p" for p
      using add_edge_other [of p jobj e H] a by simp
    have "grows H1 (upd_pt jobj set_arraycopy_dst H1)" by (simp add: grows_def node_grows_def)
    with s g1 h1 e1 show "?P (fst (?f e s))" by (auto simp: sH a intro: grows_trans)
  qed simp
  then obtain H where H: "H = fst (add_arraycopy_dst_edges use jobj G)" "?P H"
    unfolding add_arraycopy_dst_edges_def by blast
  have "copy_ext G H"
  proof (rule copy_extI)
    fix p assume "is_Arraycopy G p"
    with j(1) have "p \<noteq> jobj" by auto
    with H(2) show "edges H p = edges G p" by blast
  qed (use H(2) in blast)+
  with H show ?thesis by blast
qed

section \<open>The worklist loop\<close>

text \<open>
  Every entry is pushed once, so the worklist has at most two entries for each node: the
  loop ends. If it adds no edge, the graph is unchanged and every use is reached.
\<close>

lemma process_value_copy:
  assumes ok: "flow_ok G" and v: "wl_entry G (Use v)" "\<not> is_Arraycopy G v"
    and j: "is_JavaObject G jobj" "jobj < cg_next_pidx G" and r: "process_use I jobj (Use v) G = (G', k)"
  shows "copy_ext G G' \<and> (wl_src G jobj \<longrightarrow> wl_src G' jobj)"
proof -
  note wf = flow_okD(1) [OF ok]
  obtain G1 b where a: "add_edge v jobj G = (G1, b)" by fastforce
  have "v \<noteq> null_obj G" using v(1) cg_wf_specials [OF wf] by (auto simp: wf_specials_def)
  with v j have e: "edge_ok v jobj G" by (auto simp: edge_ok_def)
  have f1: "flows G G1" using flows_add_edge [OF ok e] v a by simp
  note g1 = flowsD(2) [OF f1] and ok1 = flowsD(1) [OF f1]
  note wf1 = flow_okD(1) [OF ok1] and ty1 = flow_okD(2) [OF ok1]
  have c1: "copy_ext G G1" using add_edge_copy_ext [OF wf e] v(2) a by simp
  have w1: "wl_src G jobj \<longrightarrow> wl_src G1 jobj" using wl_src_grows [OF _ g1] add_edge_worklist(1) [of v jobj G] a by simp
  have vp: "\<not> is_JavaObject G1 v" "\<not> is_Arraycopy G1 v" "jobj \<in> set (edges G1 v)"
    using v add_edge_edges(1) [OF wf e] a by (simp_all add: growsD [OF g1])
  note us = uses_entries [OF wf1 ty1 vp(1,2)]
  note pu = add_uses_to_worklist_pushes [OF flow_okD(3) [OF ok1] us]
  note pf = add_field_uses_to_worklist_pushes [OF flow_okD(3,1,2) [OF ok1] us, of I]
  let ?U = "add_uses_to_worklist v G1" and ?F = "add_field_uses_to_worklist I v G1"
  have wu: "wl_src G1 jobj \<longrightarrow> wl_src ?U jobj" "wl_src G1 jobj \<longrightarrow> wl_src ?F jobj"
    using wl_src_pushes [OF _ pu] wl_src_pushes [OF _ pf] obligation_source [OF wf1 ty1 vp(1,3), of _ I] by blast+
  have cu: "copy_ext G ?U" "copy_ext G ?F" "grows G ?U"
    using copy_ext_trans [OF c1 copy_ext_strip g1 strip_grows] pushesD(1) [OF pu] pushesD(1) [OF pf]
      grows_trans [OF g1 strip_grows] by metis+
  have "flow_ok ?U" using flows_pushes [OF ok1 pu] by (rule flowsD)
  note d = add_arraycopy_dst_edges_copy_ext [OF this, of jobj v] add_arraycopy_dst_edges_flows [OF this, of jobj v]
  let ?D = "fst (add_arraycopy_dst_edges v jobj ?U)"
  have jU: "is_JavaObject ?U jobj" "jobj < cg_next_pidx ?U" using j growsD(1,4) [OF cu(3)] by simp_all
  then have "copy_ext G ?D" "wl_src ?U jobj \<longrightarrow> wl_src ?D jobj"
    using copy_ext_trans [OF cu(1) _ cu(3)] d wl_src_grows [of ?U jobj ?D] by (auto dest: flowsD(2))
  moreover have "G' \<in> {G1, ?U, ?D, ?F}"
    using r v by (auto simp: process_use_def a Let_def split_beta split: if_splits)
  ultimately show ?thesis using c1 w1 wu cu by auto
qed

lemma process_use_copy:
  assumes ok: "flow_ok G" and u: "wl_entry G u" and j: "is_JavaObject G jobj" "jobj < cg_next_pidx G"
    and r: "process_use I jobj u G = (G', k)"
    and src: "\<forall>a. u = Use a \<and> is_Arraycopy G a \<longrightarrow> (\<exists>v \<in> set (edges G a). is_LocalVar G v \<and> jobj \<in> set (edges G v))"
  shows "copy_ext G G' \<and> (wl_src G jobj \<longrightarrow> wl_src G' jobj)"
proof -
  note wf = flow_okD(1) [OF ok]
  show ?thesis
  proof (cases u)
    case (BaseUse f)
    have b: "base_ok f jobj G" using u j BaseUse by (simp add: base_ok_def)
    have "G' = fst (add_base f jobj G)" using r BaseUse by (simp add: process_use_def split_beta Let_def)
    then show ?thesis
      using add_base_copy_ext [OF wf b] wl_src_grows [OF _ add_base_grows, of G jobj f jobj] by simp
  next
    case (Use v)
    obtain G1 b where a: "add_edge v jobj G = (G1, b)" by fastforce
    have "v \<noteq> null_obj G" using u Use cg_wf_specials [OF wf] by (auto simp: wf_specials_def)
    with u Use j have e: "edge_ok v jobj G" by (auto simp: edge_ok_def)
    have c1: "copy_ext G G1" using add_edge_copy_ext [OF wf e] src j(1) Use a by simp
    have g1: "grows G G1" using add_edge_grows [of G v jobj] a by simp
    have w1: "wl_src G jobj \<longrightarrow> wl_src G1 jobj" using wl_src_grows [OF _ g1] add_edge_worklist(1) [of v jobj G] a by simp
    show ?thesis
    proof (cases "is_Arraycopy G v")
      case True
      have "copy_ext G1 (upd_pt jobj set_arraycopy_src G1)" "grows G1 (upd_pt jobj set_arraycopy_src G1)"
        by (auto intro!: copy_extI simp: grows_def node_grows_def)
      moreover from this have "wl_src G1 jobj \<longrightarrow> wl_src (upd_pt jobj set_arraycopy_src G1) jobj" using wl_src_grows by fastforce
      moreover have "G' = G \<or> G' = G1 \<or> G' = upd_pt jobj set_arraycopy_src G1"
        using r Use True by (auto simp: process_use_def a split: if_splits)
      ultimately show ?thesis using c1 w1 copy_ext_trans [OF c1 _ g1] by auto
    next
      case False
      with Use u process_value_copy [OF ok _ False j r [unfolded Use]] show ?thesis by simp
    qed
  qed
qed

lemma worklist_loop_correct:
  assumes "flow_ok G" and "is_JavaObject G jobj" "jobj < cg_next_pidx G"
  shows "\<exists>G' n. worklist_loop I jobj l k G = Some (G', k + n) \<and> flows G G' \<and> (wl_src G jobj \<longrightarrow> copy_ext G G') \<and>
    (n = 0 \<longrightarrow> G' = G \<and> (\<forall>i \<ge> l. i < length (cg_worklist G) \<longrightarrow> reached G jobj (cg_worklist G ! i)))"
  using assms
proof (induction "2 * cg_next_pidx G - l" arbitrary: l k G rule: less_induct)
  case less
  note ok = less.prems(1)
  show ?case
  proof (cases "l < length (cg_worklist G)")
    case False
    then have "worklist_loop I jobj l k G = Some (G, k)" by (subst worklist_loop.simps) simp
    with False flows_refl [OF ok] show ?thesis by (intro exI [of _ G] exI [of _ 0]) simp
  next
    case True
    let ?u = "cg_worklist G ! l"
    obtain G1 k1 where r: "process_use I jobj ?u G = (G1, k1)" by fastforce
    have "wl_entry G ?u" using flow_okD(3) [OF ok] True by (simp add: wl_ok_def)
    note pc = process_use_copy [OF ok this less.prems(2,3) r]
    from process_use_correct [OF ok \<open>wl_entry G ?u\<close> less.prems(2,3) r]
    have f: "flows G G1" "reached G1 jobj ?u" "k1 = 0 \<longrightarrow> G1 = G" by auto
    note g = growsD [OF flowsD(2) [OF f(1)]]
    have "2 * cg_next_pidx G1 - Suc l < 2 * cg_next_pidx G - l"
      using True wl_length [OF flow_okD(3) [OF ok]] g by simp
    from less.hyps [OF this flowsD(1) [OF f(1)], of "k + k1"] less.prems(2,3) obtain G' n where
      IH: "worklist_loop I jobj (Suc l) (k + k1) G1 = Some (G', k + k1 + n)" "flows G1 G'" "wl_src G1 jobj \<longrightarrow> copy_ext G1 G'"
      "n = 0 \<longrightarrow> G' = G1 \<and> (\<forall>i \<ge> Suc l. i < length (cg_worklist G1) \<longrightarrow> reached G1 jobj (cg_worklist G1 ! i))"
      by (auto simp: g)
    have "worklist_loop I jobj l k G = Some (G', k + (k1 + n))"
      using True r IH(1) by (subst worklist_loop.simps) (simp add: add.assoc)
    moreover have "reached G jobj (cg_worklist G ! i)"
      if "k1 + n = 0" "i \<ge> l" "i < length (cg_worklist G)" for i
      using that IH(4) f by (cases "i = l") (auto simp: Suc_le_eq)
    moreover have "copy_ext G G'" if s: "wl_src G jobj"
    proof -
      from True have "?u \<in> set (cg_worklist G)" by simp
      with s have "\<forall>a. ?u = Use a \<and> is_Arraycopy G a \<longrightarrow> (\<exists>v \<in> set (edges G a). is_LocalVar G v \<and> jobj \<in> set (edges G v))"
        unfolding wl_src_def by metis
      with pc s have "copy_ext G G1" "wl_src G1 jobj" by blast+
      with IH(3) show ?thesis using copy_ext_trans [OF _ _ flowsD(2) [OF f(1)] flowsD(2) [OF IH(2)]] by blast
    qed
    ultimately show ?thesis
      using IH(4) f(3) flows_trans [OF f(1) IH(2)] by (intro exI [of _ G'] exI [of _ "k1 + n"]) auto
  qed
qed

text \<open>
  The set of references is closed for an object when every use of a node that points to it,
  and every field related to a field that holds it, points to it too.
\<close>

definition obligations :: "ideal \<Rightarrow> ConnectionGraph \<Rightarrow> pt \<Rightarrow> pt_use set" where
  "obligations I G p = set (uses G p) \<union>
     (if is_Field G p \<and> pt_is_oop (cg_heap G p) then Use ` field_targets I G p else {})"

definition refs_closed :: "ideal \<Rightarrow> ConnectionGraph \<Rightarrow> pt \<Rightarrow> bool" where
  "refs_closed I G jobj \<longleftrightarrow> (\<forall>p. jobj \<in> set (edges G p) \<and> \<not> is_Arraycopy G p \<longrightarrow>
     (\<forall>u \<in> obligations I G p. reached G jobj u))"

lemma jobj_uses:
  assumes ok: "cg_wf G" "typed_edges G" and j: "is_JavaObject G jobj"
  shows "u \<in> set (uses G jobj) \<longleftrightarrow> (\<exists>p. u = Use p \<and> jobj \<in> set (edges G p))"
    "jobj \<in> set (edges G p) \<Longrightarrow> \<not> is_JavaObject G p"
proof -
  note d = cg_wf_dests [OF ok(1)]
  show "u \<in> set (uses G jobj) \<longleftrightarrow> (\<exists>p. u = Use p \<and> jobj \<in> set (edges G p))"
    using d(4,5) j by (cases u) (auto simp: wf_uses_def wf_base_uses_def)
  show "\<not> is_JavaObject G p" if "jobj \<in> set (edges G p)"
    using ok(2) j that unfolding typed_edges_def by fastforce
qed

lemma populate_worklist_pushes:
  assumes ok: "flow_ok G" and j: "is_JavaObject G jobj"
  shows "pushes G (\<Union>p \<in> {p. jobj \<in> set (edges G p) \<and> \<not> is_Arraycopy G p}. obligations I G p)
     (populate_worklist I jobj G)"
proof -
  note wf = flow_okD(1) [OF ok] and ty = flow_okD(2) [OF ok]
  let ?S = "\<lambda>u. if is_Arraycopy G (get_use_node u) then {} else obligations I G (get_use_node u)"
  have "pushes G (\<Union>u \<in> set (uses G jobj). ?S u) (populate_worklist I jobj G)"
    unfolding populate_worklist_def
  proof (rule push_fold [OF flow_okD(3) [OF ok]])
    fix u H T assume u: "u \<in> set (uses G jobj)" and H: "pushes G T H"
    let ?p = "get_use_node u"
    have p: "\<not> is_JavaObject G ?p" using u jobj_uses [OF wf ty j] by auto
    have okH: "flow_ok H" using flows_pushes [OF ok H] by (rule flowsD)
    note h = pushesD [OF H] heap_only(4) [OF pushesD(1) [OF H]]
    show "pushes H (?S u) (let use = get_use_node u in
        if is_Arraycopy H use then H
        else
          let G1 = add_uses_to_worklist use H
          in if is_Field G1 use \<and> pt_is_oop (cg_heap G1 use)
             then add_field_uses_to_worklist I use G1 else G1)"
    proof (cases "is_Arraycopy G ?p")
      case True
      then show ?thesis by (simp add: h pushes_refl)
    next
      case False
      have us: "\<forall>w \<in> set (uses H ?p). wl_entry H w"
        using p False by (intro uses_entries flow_okD [OF okH]) (simp_all add: h)
      note p1 = add_uses_to_worklist_pushes [OF flow_okD(3) [OF okH] us]
      let ?G1 = "add_uses_to_worklist ?p H"
      have ok1: "flow_ok ?G1" using flows_pushes [OF okH p1] by (rule flowsD)
      have "\<forall>w \<in> set (uses ?G1 ?p). wl_entry ?G1 w" using us by (simp add: wl_entry_pushes [OF p1])
      note p2 = add_field_uses_to_worklist_pushes [OF flow_okD(3,1,2) [OF ok1] this, of I]
      from pushes_trans [OF p1 p2] p1 False show ?thesis
        by (simp add: h(5-9) obligations_def heap_only(4) [OF pushesD(1) [OF p1]] Un_assoc Let_def)
    qed
  qed
  moreover have "set (uses G jobj) = Use ` {p. jobj \<in> set (edges G p)}"
    using jobj_uses(1) [OF wf ty j] by (auto simp: image_iff)
  then have "(\<Union>u \<in> set (uses G jobj). ?S u) =
     (\<Union>p \<in> {p. jobj \<in> set (edges G p) \<and> \<not> is_Arraycopy G p}. obligations I G p)"
    by (auto split: if_splits)
  ultimately show ?thesis by simp
qed

definition jobj_ok :: "ConnectionGraph \<Rightarrow> pt \<Rightarrow> bool" where
  "jobj_ok G j \<longleftrightarrow> is_JavaObject G j \<and> j < cg_next_pidx G"

lemma add_java_object_edges_result:
  assumes ok: "flow_ok G" and j: "jobj_ok G jobj"
  shows "\<exists>G' n. add_java_object_edges I jobj populate G = Some (G', n) \<and> flow_ok G' \<and> grows G G' \<and>
    cg_worklist G' = [] \<and> (wl_noac G \<longrightarrow> copy_ext G G') \<and>
    (n = 0 \<longrightarrow> strip G' = strip G \<and> (populate \<longrightarrow> refs_closed I G' jobj))"
proof -
  let ?G1 = "if populate then populate_worklist I jobj G else G"
  have j': "is_JavaObject G jobj" "jobj < cg_next_pidx G" using j by (simp_all add: jobj_ok_def)
  have p: "populate \<Longrightarrow> pushes G (\<Union>p \<in> {p. jobj \<in> set (edges G p) \<and> \<not> is_Arraycopy G p}. obligations I G p) ?G1"
    using populate_worklist_pushes [OF ok j'(1), of I] by simp
  have s1: "strip ?G1 = strip G" using pushesD(1) [OF p] by simp
  have f1: "flows G ?G1" using flows_pushes [OF ok p] flows_refl [OF ok] by simp
  note g1 = growsD [OF flowsD(2) [OF f1]]
  have "is_JavaObject ?G1 jobj" "jobj < cg_next_pidx ?G1" using j' by (simp_all only: g1)
  from worklist_loop_correct [OF flowsD(1) [OF f1] this, of I 0 0] obtain G2 n where
    l: "worklist_loop I jobj 0 0 ?G1 = Some (G2, n)" "flows ?G1 G2" "wl_src ?G1 jobj \<longrightarrow> copy_ext ?G1 G2"
    "n = 0 \<longrightarrow> G2 = ?G1 \<and> (\<forall>i < length (cg_worklist ?G1). reached ?G1 jobj (cg_worklist ?G1 ! i))"
    by auto
  then have l3: "n = 0 \<Longrightarrow> G2 = ?G1 \<and> (\<forall>u \<in> set (cg_worklist ?G1). reached ?G1 jobj u)"
    unfolding all_set_conv_all_nth by blast
  let ?G = "strip G2"
  have h: "cg_heap ?G = cg_heap G2" "cg_next_pidx ?G = cg_next_pidx G2" "null_obj ?G = null_obj G2" "phantom_obj ?G = phantom_obj G2"
    by (simp_all add: strip_def)
  have ok2: "flow_ok ?G"
    using flowsD(1) [OF l(2)] by (auto simp: flow_ok_def typed_edges_def h wl_ok_def) (simp_all add: strip_def)
  have "strip G2 = strip (strip G2)" by (simp add: strip_def)
  then have gr: "grows G ?G"
    using grows_trans [OF flowsD(2) [OF flows_trans [OF f1 l(2)]]] strip_grows by blast
  have "refs_closed I ?G jobj" if n: "n = 0" and pop: populate
  proof -
    have sG: "strip ?G = strip G" using l3 [OF n] s1 by (simp add: strip_def)
    have re: "reached ?G jobj u = reached ?G1 jobj u" for u
      using strip_eqD [OF sG] strip_eqD [OF s1] by (cases u) simp_all
    have "obligations I ?G p = obligations I G p" for p
      unfolding obligations_def strip_eqD [OF sG] heap_only [OF sG] ..
    with l3 [OF n] pushesD(3) [OF p [OF pop]] show ?thesis
      unfolding refs_closed_def re strip_eqD(1) [OF sG] by blast
  qed
  moreover have "add_java_object_edges I jobj populate G = Some (?G, n)"
    using l(1) by (simp add: add_java_object_edges_def strip_def)
  moreover have "n = 0 \<Longrightarrow> strip ?G = strip G" using l3 s1 by (simp add: strip_def)
  moreover have "copy_ext G ?G" if na: "wl_noac G"
  proof -
    note fl = flow_okD(1,2) [OF ok]
    have "wl_src ?G1 jobj"
    proof (cases populate)
      case True
      show ?thesis
      proof (rule wl_src_pushes [OF wl_src_noac [OF na] p [OF True]])
        fix a assume "Use a \<in> (\<Union>p \<in> {p. jobj \<in> set (edges G p) \<and> \<not> is_Arraycopy G p}. obligations I G p)"
          and a: "is_Arraycopy G a"
        then obtain p where p: "jobj \<in> set (edges G p)" "Use a \<in> obligations I G p" by blast
        then have "Use a \<in> set (uses G p) \<union> Use ` field_targets I G p" by (auto simp: obligations_def split: if_splits)
        from obligation_source [OF fl jobj_uses(2) [OF fl j'(1) p(1)] p(1) this a]
        show "\<exists>u \<in> set (edges G a). is_LocalVar G u \<and> jobj \<in> set (edges G u)" .
      qed
    next
      case False
      with wl_src_noac [OF na] show ?thesis by simp
    qed
    with l(3) have "copy_ext ?G1 G2" by blast
    moreover have "copy_ext G ?G1" by (rule copy_ext_strip [OF s1])
    moreover have "copy_ext G2 ?G" "grows G2 ?G" by (auto intro: copy_ext_strip strip_grows simp: strip_def)
    ultimately show ?thesis
      using copy_ext_trans flowsD(2) [OF f1] flowsD(2) [OF l(2)] flowsD(2) [OF flows_trans [OF f1 l(2)]] by blast
  qed
  ultimately show ?thesis using ok2 gr by (intro exI [of _ ?G] exI [of _ n]) (simp add: strip_def)
qed

end
