(* ===== verification/Build_Loop.thy ===== *)
theory Build_Loop
  imports Complete_Graph
begin

text \<open>
  Correctness of \<open>complete_connection_graph\<close> (\<open>escape.cpp\<close>): the loops end, and when the
  function reports success the references and the escape states are closed.
\<close>

section \<open>Escape states and the worklist\<close>

lemma raises_worklist:
  assumes "raises G G'"
  shows "cg_worklist G' = cg_worklist G" "cg_in_worklist G' = cg_in_worklist G"
  using assms unfolding raises_def by (metis ConnectionGraph.select_convs(4,5) ConnectionGraph.surjective
      ConnectionGraph.update_convs(3))+

lemma raises_flow:
  assumes r: "raises G G'" and ok: "flow_ok G" and same: "\<forall>p \<ge> cg_next_pidx G. cg_heap G' p = cg_heap G p"
  shows "flow_ok G'"
proof -
  note d = raisesD [OF r] raises_frame [OF r]
  note w = raises_worklist [OF r]
  have "wl_ok G'" by (rule wl_ok_grows [OF raises_grows [OF r] w flow_okD(3) [OF ok]])
  moreover have "typed_edges G'" using flow_okD(2) [OF ok] unfolding typed_edges_def d .
  ultimately show ?thesis using raises_wf [OF r flow_okD(1) [OF ok] same] by (simp add: flow_ok_def)
qed

lemma flows_value_edge:
  assumes ok: "flow_ok G" and f: "is_Field G f" "pt_is_oop (cg_heap G f)" and v: "is_JavaObject G v" "v < cg_next_pidx G"
  shows "flows G (fst (add_value_edge I f v G))"
proof -
  note wf = flow_okD(1) [OF ok]
  have "f \<noteq> null_obj G" using cg_wf_specials [OF wf] f by (auto simp: wf_specials_def)
  with f v wf_node_range [OF wf, of f] have e: "edge_ok f v G" by (simp add: edge_ok_def)
  obtain G1 b where a: "add_edge f v G = (G1, b)" by fastforce
  have f1: "flows G G1" using flows_add_edge [OF ok e] f a by simp
  note ok1 = flowsD(1) [OF f1] and g1 = growsD [OF flowsD(2) [OF f1]]
  have "\<forall>u \<in> set (uses G1 f). wl_entry G1 u" using f by (intro uses_entries flow_okD [OF ok1]) (simp_all add: g1)
  from flows_pushes [OF ok1 add_field_uses_to_worklist_pushes [OF flow_okD(3,1,2) [OF ok1] this]]
  have "flows G1 (add_field_uses_to_worklist I f G1)" .
  with f1 show ?thesis by (auto simp: add_value_edge_def a intro: flows_trans)
qed

lemma phantom_null_ok: "cg_wf G \<Longrightarrow> jobj_ok G (phantom_obj G)" "cg_wf G \<Longrightarrow> jobj_ok G (null_obj G)"
  using cg_wf_specials [of G] by (simp_all add: wf_specials_def jobj_ok_def)

lemma flows_unknown_value:
  assumes "flow_ok G" and "is_Field G f" "pt_is_oop (cg_heap G f)"
  shows "flows G (fst (add_value_edge I f (phantom_obj G) G))"
  using assms phantom_null_ok(1) [OF flow_okD(1)] by (intro flows_value_edge) (auto simp: jobj_ok_def)

text \<open>Between the passes no arraycopy is on the worklist: value edges only push fields and variables.\<close>

definition tidy :: "ConnectionGraph \<Rightarrow> bool" where
  "tidy G \<longleftrightarrow> flow_ok G \<and> wl_noac G"

lemma tidyD: "tidy G \<Longrightarrow> flow_ok G" "tidy G \<Longrightarrow> wl_noac G" "tidy G \<Longrightarrow> cg_wf G"
  by (simp_all add: tidy_def flow_okD)

lemma wl_noac_pushes:
  assumes "wl_noac G" and p: "pushes G S G'" and "\<And>a. Use a \<in> S \<Longrightarrow> \<not> is_Arraycopy G a"
  shows "wl_noac G'"
  using assms(1,3) unfolding wl_noac_def pushesD(3,5) [OF p] by blast

lemma tidy_value_edge:
  assumes t: "tidy G" and f: "is_Field G f" "pt_is_oop (cg_heap G f)" and v: "is_JavaObject G v" "v < cg_next_pidx G"
  shows "tidy (fst (add_value_edge I f v G))"
proof -
  note ok = tidyD(1) [OF t]
  have "f \<noteq> null_obj G" using cg_wf_specials [OF flow_okD(1) [OF ok]] f by (auto simp: wf_specials_def)
  with f v wf_node_range [OF flow_okD(1) [OF ok], of f] have e: "edge_ok f v G" by (simp add: edge_ok_def)
  obtain G1 b where a: "add_edge f v G = (G1, b)" by fastforce
  have f1: "flows G G1" using flows_add_edge [OF ok e] f a by simp
  note ok1 = flowsD(1) [OF f1] and g1 = growsD [OF flowsD(2) [OF f1]]
  note wf1 = flow_okD(1,2) [OF ok1]
  have n1: "wl_noac G1" using tidyD(2) [OF t] add_edge_worklist(1) [of f v G] a by (simp add: wl_noac_def g1)
  have "\<forall>u \<in> set (uses G1 f). wl_entry G1 u" using f by (intro uses_entries flow_okD [OF ok1]) (simp_all add: g1)
  note p = add_field_uses_to_worklist_pushes [OF flow_okD(3) [OF ok1] wf1 this, of I]
  have "\<not> is_Arraycopy G1 a" if "Use a \<in> set (uses G1 f) \<union> Use ` field_targets I G1 f" for a
    using that use_source [OF wf1, of f a] field_targets_no_copy [OF wf1(2), of a I f] f by (auto simp: g1)
  from wl_noac_pushes [OF n1 p this] have "wl_noac (add_field_uses_to_worklist I f G1)" by blast
  then have "wl_noac (fst (add_value_edge I f v G))" using n1 by (simp add: add_value_edge_def a)
  with flowsD(1) [OF flows_value_edge [OF ok f v]] show ?thesis by (simp add: tidy_def)
qed

lemma tidy_unknown_value:
  assumes "tidy G" and "is_Field G f" "pt_is_oop (cg_heap G f)"
  shows "tidy (fst (add_value_edge I f (phantom_obj G) G))"
  using assms phantom_null_ok(1) [OF tidyD(3)] by (intro tidy_value_edge) (auto simp: jobj_ok_def)

lemma escape_node_flow:
  assumes ok: "tidy G" and s: "escape_node I p (G, wl) = (G', wl')"
  shows "tidy G'"
proof -
  let ?G1 = "if is_Field G p \<and> pt_is_oop (cg_heap G p) \<and> ArgEscape \<le> escape G p
             then fst (add_value_edge I p (phantom_obj G) G) else G"
  have ok1: "tidy ?G1" using tidy_unknown_value [OF ok, of p I] ok by simp
  have f: "fold (escape_edge p (escape G p) (fields_escape G p)) (edges ?G1 p) (?G1, wl) = (G', wl')"
    using s by (simp add: escape_node_def Let_def)
  note er = edges_in_range [OF tidyD(3) [OF ok1], of p]
  have r: "raises ?G1 G'" and same: "\<forall>q. q \<notin> set (edges ?G1 p) \<longrightarrow> cg_heap G' q = cg_heap ?G1 q"
    using escape_fold [OF er f] unfolding fold_effect_def by blast+
  have "flow_ok G'" using same er by (intro raises_flow [OF r tidyD(1) [OF ok1]]) (meson leD)
  moreover have "wl_noac G'" using tidyD(2) [OF ok1] raisesD(1,4) [OF r] raises_worklist [OF r] by (simp add: wl_noac_def)
  ultimately show ?thesis by (simp add: tidy_def)
qed

lemma escape_loop_flow:
  assumes "escape_loop I G wl = Some G'"
  shows "tidy G \<longrightarrow> tidy G'"
proof (rule escape_loop.raw_induct [OF _ assms, where P = "\<lambda>I G wl G'. tidy G \<longrightarrow> tidy G'"])
  fix loop :: "ideal \<Rightarrow> ConnectionGraph \<Rightarrow> pt list \<Rightarrow> ConnectionGraph option" and I G wl G'
  assume IH: "\<And>I G wl G'. loop I G wl = Some G' \<Longrightarrow> tidy G \<longrightarrow> tidy G'"
    and "(case wl of [] \<Rightarrow> Some G | ptn # wl' \<Rightarrow> case escape_node I ptn (G, wl') of (G1, wl1) \<Rightarrow> loop I G1 wl1) = Some G'"
  then show "tidy G \<longrightarrow> tidy G'"
    by (cases wl) (auto split: prod.splits dest!: IH dest: escape_node_flow)
qed

lemma remove_escaped_flow:
  assumes "remove_escaped I ps G = (G', ne)" and "tidy G"
  shows "tidy G'"
proof -
  have u: "tidy (fst (find_unknown_values I p G))" if "tidy G" for p G
  proof -
    have "tidy (fst (fold (\<lambda>field (G, k).
             if is_Field G field \<and> pt_is_oop (cg_heap G field) then
               let (G1, is_new) = add_value_edge I field (phantom_obj G) G
               in (G1, if is_new then Suc k else k)
             else (G, k)) fs (G, 0::nat)))" for fs
      by (rule fold_inv [where P = "\<lambda>s. tidy (fst s)"])
        (use that tidy_unknown_value in \<open>auto simp: split_beta Let_def\<close>)
    with that show ?thesis by (simp add: find_unknown_values_def Let_def)
  qed
  show ?thesis using assms
  proof (induction ps arbitrary: G' ne)
    case (Cons p ps)
    have "tidy (fst (remove_escaped I ps G))" using Cons.IH [OF surjective_pairing] Cons.prems(2) .
    with Cons.prems(1) u show ?case by (auto simp: find_init_values_def split_beta Let_def split: if_splits)
  qed simp
qed

section \<open>The state between passes\<close>

text \<open>The arguments of the completion and the graph it starts from.\<close>

definition setup_ok :: "pt list \<Rightarrow> pt list \<Rightarrow> pt list \<Rightarrow> ConnectionGraph \<Rightarrow> bool" where
  "setup_ok ptnodes jobjs oop_fields G \<longleftrightarrow> phantom_escapes G \<and>
     set ptnodes \<subseteq> {..<cg_next_pidx G} \<and> (\<forall>p < cg_next_pidx G. p \<in> set ptnodes \<or> is_Arraycopy G p) \<and> (\<forall>j \<in> set jobjs. jobj_ok G j) \<and>
     (\<forall>f \<in> set oop_fields. is_Field G f \<and> pt_is_oop (cg_heap G f)) \<and>
     (\<forall>p < cg_next_pidx G. NoEscape \<le> escape G p \<and> NoEscape \<le> fields_escape G p)"

lemma setup_ok_grows:
  assumes "setup_ok ptnodes jobjs fs G" and gr: "grows G G'"
  shows "setup_ok ptnodes jobjs fs G'"
proof -
  have "NoEscape \<le> escape G' p \<and> NoEscape \<le> fields_escape G' p" if "p < cg_next_pidx G" for p
    using assms(1) that growsD(7,8) [OF gr, of p] unfolding setup_ok_def by (blast intro: order_trans)
  with assms show ?thesis
    by (simp add: setup_ok_def growsD [OF gr] jobj_ok_def phantom_escapes_grows [OF _ gr])
qed

definition settled :: "pt list \<Rightarrow> ConnectionGraph \<Rightarrow> pt list \<Rightarrow> bool" where
  "settled ne0 G ne \<longleftrightarrow> escape_inv G [] \<and> ne = filter (\<lambda>p. escape G p \<noteq> GlobalEscape) ne0"

lemma filter_escape_grows:
  assumes "grows G G'"
  shows "filter (\<lambda>p. escape G' p \<noteq> GlobalEscape) (filter (\<lambda>p. escape G p \<noteq> GlobalEscape) xs) =
    filter (\<lambda>p. escape G' p \<noteq> GlobalEscape) xs"
proof -
  have "escape G p = GlobalEscape \<Longrightarrow> escape G' p = GlobalEscape" for p
    using growsD(7) [OF assms, of p] by simp
  then show ?thesis by (auto intro: filter_cong)
qed

text \<open>Where the propagation of escape states may start.\<close>

definition copy_start :: "ConnectionGraph \<Rightarrow> bool" where
  "copy_start G \<longleftrightarrow> esc_le G \<and> copies_done G"

lemma copy_start_ext:
  assumes "copy_start G" and "copy_ext G G'" and "grows G G'"
  shows "copy_start G'"
proof -
  have "copies_done G'" using assms copies_done_ext by (auto simp: copy_start_def)
  with assms show ?thesis by (simp add: copy_start_def esc_le_def copy_ext_def growsD)
qed

lemma settled_copy_start:
  assumes "settled ne0 G ne"
  shows "copy_start G"
proof -
  have inv: "escape_inv G []" using assms by (simp add: settled_def)
  then have "copies_done G"
    using escape_inv_final by (simp add: copies_done_def copy_done_def closed_node_def)
  with inv show ?thesis by (simp add: copy_start_def escape_inv_def)
qed

lemma find_non_escaped_step:
  assumes ok: "tidy G" and st: "setup_ok ptnodes jobjs fs G" and cs: "copy_start G"
    and ne: "\<And>G'. grows G G' \<Longrightarrow> filter (\<lambda>p. escape G' p \<noteq> GlobalEscape) ne = filter (\<lambda>p. escape G' p \<noteq> GlobalEscape) ne0"
  shows "\<exists>G' ne'. find_non_escaped_objects I ptnodes ne G = Some (G', ne', ne' \<noteq> []) \<and>
    tidy G' \<and> grows G G' \<and> settled ne0 G' ne'"
proof -
  let ?wl = "rev (filter (\<lambda>p. ArgEscape \<le> escape G p \<or> ArgEscape \<le> fields_escape G p) ptnodes)"
  have "escape_inv G ?wl"
    using st cs by (intro initial_escape_inv tidyD(3) [OF ok]) (auto simp: setup_ok_def copy_start_def copies_done_def)
  from escape_loop_correct [OF this] obtain G1 where
    l: "escape_loop I G ?wl = Some G1" "escape_inv G1 []" "grows G G1" by blast
  obtain G2 ne' where r: "remove_escaped I ne G1 = (G2, ne')" by fastforce
  from remove_escaped_adds [OF r] have a: "adds_unknown G1 G2"
    "ne' = filter (\<lambda>p. escape G1 p \<noteq> GlobalEscape) ne" by auto
  then have "grows G1 G2" "escape_inv G2 []" "\<forall>p. escape G2 p = escape G1 p" using l(2) by (auto simp: adds_unknown_def)
  moreover have "tidy G2" using remove_escaped_flow [OF r] escape_loop_flow [OF l(1)] ok by blast
  moreover have "find_non_escaped_objects I ptnodes ne G = Some (G2, ne', ne' \<noteq> [])"
    by (simp add: find_non_escaped_objects_def l r)
  ultimately show ?thesis
    using a(2) l(3) ne [OF l(3)]
    by (auto simp: settled_def intro: grows_trans)
qed

lemma settled_strip:
  assumes "strip G' = strip G" and "settled ne0 G ne"
  shows "settled ne0 G' ne"
  using assms(2) unfolding settled_def escape_inv_def node_done_def copy_done_def esc_le_def closed_node_def edge_closed_def phantom_escapes_def
    cg_wf_strip_eq [OF assms(1)] strip_eqD [OF assms(1)] .

section \<open>One pass\<close>

lemma refs_closed_strip:
  assumes "strip G' = strip G"
  shows "refs_closed I G' j = refs_closed I G j"
proof -
  have "reached G' j u = reached G j u" for u using strip_eqD [OF assms] by (cases u) simp_all
  then show ?thesis
    unfolding refs_closed_def obligations_def strip_eqD [OF assms] heap_only [OF assms] by simp
qed

definition sane :: "build \<Rightarrow> build \<Rightarrow> bool" where
  "sane s s' \<longleftrightarrow> tidy (b_graph s') \<and> grows (b_graph s) (b_graph s')"

lemma sane_trans: "sane s s1 \<Longrightarrow> sane s1 s2 \<Longrightarrow> sane s s2"
  by (auto simp: sane_def intro: grows_trans)

text \<open>The state at the head of the inner loop.\<close>

definition pass_ok :: "pt list \<Rightarrow> pt list \<Rightarrow> pt list \<Rightarrow> pt list \<Rightarrow> build \<Rightarrow> bool" where
  "pass_ok ptnodes jobjs fs ne0 s \<longleftrightarrow> tidy (b_graph s) \<and> setup_ok ptnodes jobjs fs (b_graph s) \<and>
     settled ne0 (b_graph s) (b_non_escaped s) \<and> b_non_escaped s \<noteq> []"

definition all_refs_closed :: "ideal \<Rightarrow> pt list \<Rightarrow> ConnectionGraph \<Rightarrow> bool" where
  "all_refs_closed I jobjs G \<longleftrightarrow> (\<forall>j \<in> set jobjs. refs_closed I G j)"

lemma add_java_object_edges_tidy:
  assumes "tidy G" and "jobj_ok G jobj"
  shows "\<exists>G' n. add_java_object_edges I jobj populate G = Some (G', n) \<and> tidy G' \<and> grows G G' \<and> copy_ext G G' \<and>
    (n = 0 \<longrightarrow> strip G' = strip G \<and> (populate \<longrightarrow> refs_closed I G' jobj))"
  using add_java_object_edges_result [OF tidyD(1) [OF assms(1)] assms(2), of I populate] tidyD(2) [OF assms(1)]
  by (auto simp: tidy_def wl_noac_def)

lemma object_pass_correct:
  assumes "tidy (b_graph s)" and "\<forall>j \<in> set jobjs. jobj_ok (b_graph s) j"
  shows "\<exists>s'. object_pass I expired i jobjs s = Some s' \<and> sane s s' \<and> copy_ext (b_graph s) (b_graph s') \<and> b_new_edges s \<le> b_new_edges s' \<and>
    b_non_escaped s' = b_non_escaped s \<and> b_iterations s' = b_iterations s \<and>
    (\<not> b_timeout s' \<and> b_new_edges s' = 0 \<longrightarrow>
       strip (b_graph s') = strip (b_graph s) \<and> all_refs_closed I jobjs (b_graph s'))"
  using assms
proof (induction jobjs arbitrary: i s)
  case Nil
  then show ?case by (simp add: sane_def all_refs_closed_def)
next
  case (Cons j js)
  from add_java_object_edges_tidy [OF Cons.prems(1), of j I True] Cons.prems(2) obtain G1 n where
    a: "add_java_object_edges I j True (b_graph s) = Some (G1, n)" "tidy G1" "grows (b_graph s) G1"
    "n = 0 \<longrightarrow> strip G1 = strip (b_graph s) \<and> refs_closed I G1 j" "copy_ext (b_graph s) G1" by auto
  let ?s1 = "s\<lparr>b_graph := G1, b_new_edges := b_new_edges s + n\<rparr>"
  obtain s2 where s2: "s2 = (if i mod SAMPLE_SIZE = 0 then ?s1\<lparr>b_clock := Suc (b_clock s)\<rparr> else ?s1)" by blast
  have g2: "b_graph s2 = G1" "b_new_edges s2 = b_new_edges s + n" "b_non_escaped s2 = b_non_escaped s"
    "b_iterations s2 = b_iterations s" by (simp_all add: s2)
  have s1: "sane s ?s1" using a by (simp add: sane_def)
  show ?case
  proof (cases "i mod SAMPLE_SIZE = 0 \<and> expired (b_clock s)")
    case True
    with a(1,5) s1 show ?thesis by (simp add: sane_def)
  next
    case False
    have "\<forall>k \<in> set js. jobj_ok (b_graph s2) k" using Cons.prems(2) by (simp add: g2 jobj_ok_def growsD [OF a(3)])
    with Cons.IH [of s2 "Suc i"] a(2) obtain s' where
      IH: "object_pass I expired (Suc i) js s2 = Some s'" "sane s2 s'" "copy_ext (b_graph s2) (b_graph s')" "b_new_edges s2 \<le> b_new_edges s'"
      "b_non_escaped s' = b_non_escaped s2" "b_iterations s' = b_iterations s2"
      "\<not> b_timeout s' \<and> b_new_edges s' = 0 \<longrightarrow>
         strip (b_graph s') = strip (b_graph s2) \<and> all_refs_closed I js (b_graph s')" unfolding g2 by blast
    have o: "object_pass I expired i (j # js) s = Some s'"
      using a(1) False IH(1) by (auto simp: s2 Let_def)
    have "strip (b_graph s') = strip (b_graph s) \<and> all_refs_closed I (j # js) (b_graph s')"
      if "\<not> b_timeout s'" "b_new_edges s' = 0"
    proof -
      have "n = 0" using that(2) IH(4) by (simp only: g2)
      with a(4) IH(7) that have "strip G1 = strip (b_graph s)" "refs_closed I G1 j" "strip (b_graph s') = strip G1"
        "all_refs_closed I js (b_graph s')" by (simp_all only: g2 simp_thms)
      then show ?thesis by (simp add: all_refs_closed_def refs_closed_strip [of "b_graph s'" G1])
    qed
    moreover have "sane s s'" using a(3) IH(2) by (auto simp: sane_def g2 intro: grows_trans)
    moreover have "copy_ext (b_graph s) (b_graph s')"
      using copy_ext_trans [OF a(5) _ a(3)] IH(2,3) by (simp add: sane_def g2)
    ultimately show ?thesis using o IH(4-6) by (simp add: g2 del: object_pass.simps)
  qed
qed

lemma build_pass_correct:
  assumes ok: "pass_ok ptnodes jobjs fs ne0 s" and nt: "\<not> b_timeout s"
  shows "\<exists>r. build_pass I expired ptnodes jobjs s = Some r \<and>
    (case r of Inl s' \<Rightarrow> sane s s'
     | Inr s' \<Rightarrow> sane s s' \<and> b_iterations s' = b_iterations s \<and>
         (\<not> b_timeout s' \<longrightarrow> pass_ok ptnodes jobjs fs ne0 s' \<and>
            (b_new_edges s' = 0 \<longrightarrow> all_refs_closed I jobjs (b_graph s'))))"
proof -
  note p = ok [unfolded pass_ok_def]
  from p have fl: "tidy (b_graph s)" and st: "setup_ok ptnodes jobjs fs (b_graph s)" by blast+
  from add_java_object_edges_tidy [OF fl phantom_null_ok(1) [OF tidyD(3) [OF fl]], of I False] obtain G1 n where
    a: "add_java_object_edges I (phantom_obj (b_graph s)) False (b_graph s) = Some (G1, n)" "tidy G1"
    "grows (b_graph s) G1" "n = 0 \<longrightarrow> strip G1 = strip (b_graph s)" "copy_ext (b_graph s) G1" by auto
  let ?s1 = "s\<lparr>b_graph := G1, b_new_edges := n\<rparr>"
  have "\<forall>j \<in> set jobjs. jobj_ok (b_graph ?s1) j" using setup_ok_grows [OF st a(3)] by (simp add: setup_ok_def)
  from object_pass_correct [OF _ this, of I expired 0] a(2) obtain s2 where
    o: "object_pass I expired 0 jobjs ?s1 = Some s2" "sane ?s1 s2" "copy_ext G1 (b_graph s2)" "n \<le> b_new_edges s2"
    "b_non_escaped s2 = b_non_escaped s" "b_iterations s2 = b_iterations s"
    "\<not> b_timeout s2 \<and> b_new_edges s2 = 0 \<longrightarrow> strip (b_graph s2) = strip G1 \<and> all_refs_closed I jobjs (b_graph s2)"
    by auto
  have s2: "sane s s2" using o(2) a(3) by (auto simp: sane_def intro: grows_trans)
  have st2: "setup_ok ptnodes jobjs fs (b_graph s2)" "tidy (b_graph s2)" "grows (b_graph s) (b_graph s2)"
    using s2 setup_ok_grows [OF st] by (auto simp: sane_def)
  show ?thesis
  proof (cases "b_timeout s2 \<or> b_new_edges s2 = 0")
    case True
    have "pass_ok ptnodes jobjs fs ne0 s2" "all_refs_closed I jobjs (b_graph s2)" if "\<not> b_timeout s2"
    proof -
      from that True o have "strip (b_graph s2) = strip (b_graph s)" "all_refs_closed I jobjs (b_graph s2)"
        using a(4) by auto
      then show "pass_ok ptnodes jobjs fs ne0 s2" "all_refs_closed I jobjs (b_graph s2)"
        using p st2 settled_strip o(5) by (simp_all add: pass_ok_def)
    qed
    then show ?thesis
      using True s2 o by (auto simp: build_pass_def a(1) check_time_def pass_ok_def sane_def)
  next
    case False
    from p have "b_non_escaped s2 = filter (\<lambda>p. escape (b_graph s) p \<noteq> GlobalEscape) ne0"
      by (simp add: o(5) settled_def)
    then have "filter (\<lambda>p. escape G' p \<noteq> GlobalEscape) (b_non_escaped s2) = filter (\<lambda>p. escape G' p \<noteq> GlobalEscape) ne0"
      if "grows (b_graph s2) G'" for G'
      using filter_escape_grows [OF grows_trans [OF st2(3) that]] by simp
    moreover have "copy_ext (b_graph s) (b_graph s2)"
      using copy_ext_trans [OF a(5) o(3) a(3)] o(2) by (simp add: sane_def)
    then have "copy_start (b_graph s2)" using copy_start_ext [OF settled_copy_start _ st2(3)] p by blast
    ultimately obtain G3 ne where
      f: "find_non_escaped_objects I ptnodes (b_non_escaped s2) (b_graph s2) = Some (G3, ne, ne \<noteq> [])"
      "tidy G3" "grows (b_graph s2) G3" "settled ne0 G3 ne" using find_non_escaped_step [OF st2(2,1), of "b_non_escaped s2" ne0 I] by auto
    have "setup_ok ptnodes jobjs fs G3" by (rule setup_ok_grows [OF st2(1) f(3)])
    then show ?thesis
      using False f grows_trans [OF st2(3) f(3)] o(6)
      by (auto simp: build_pass_def a(1) o(1) check_time_def pass_ok_def sane_def Let_def)
  qed
qed

section \<open>The loops\<close>

text \<open>What the inner loop leaves: a settled graph unless it ran out of time or iterations.\<close>

lemma build_while_correct:
  assumes "pass_ok ptnodes jobjs fs ne0 s" and "\<not> b_timeout s"
    and "b_new_edges s = 0 \<longrightarrow> all_refs_closed I jobjs (b_graph s)"
  shows "\<exists>r. build_while I expired ptnodes jobjs s = Some r \<and>
    (case r of Inl s' \<Rightarrow> sane s s'
     | Inr s' \<Rightarrow> sane s s' \<and> (b_new_edges s > 0 \<longrightarrow> b_iterations s < b_iterations s') \<and>
         (\<not> b_timeout s' \<and> b_iterations s' < CG_BUILD_ITER_LIMIT \<longrightarrow>
            pass_ok ptnodes jobjs fs ne0 s' \<and> b_new_edges s' = 0 \<and> all_refs_closed I jobjs (b_graph s')))"
  using assms
proof (induction "CG_BUILD_ITER_LIMIT - b_iterations s" arbitrary: s rule: less_induct)
  case less
  have refl: "sane s s" using less.prems(1) by (simp add: sane_def pass_ok_def)
  show ?case
  proof (cases "b_new_edges s > 0 \<and> b_iterations s < CG_BUILD_ITER_LIMIT")
    case False
    then show ?thesis using less.prems refl by (subst build_while.simps) (auto simp: sane_def)
  next
    case True
    let ?s = "s\<lparr>b_iterations := Suc (b_iterations s)\<rparr>"
    have "pass_ok ptnodes jobjs fs ne0 ?s" "\<not> b_timeout ?s" using less.prems by (simp_all add: pass_ok_def)
    from build_pass_correct [OF this, of I expired] obtain r where
      r: "build_pass I expired ptnodes jobjs ?s = Some r"
      "case r of Inl s' \<Rightarrow> sane ?s s'
       | Inr s' \<Rightarrow> sane ?s s' \<and> b_iterations s' = b_iterations ?s \<and>
         (\<not> b_timeout s' \<longrightarrow> pass_ok ptnodes jobjs fs ne0 s' \<and>
            (b_new_edges s' = 0 \<longrightarrow> all_refs_closed I jobjs (b_graph s')))" by blast
    have sane: "sane ?s s' = sane s s'" for s' by (simp add: sane_def)
    show ?thesis
    proof (cases r)
      case (Inl s')
      with r True sane show ?thesis by (subst build_while.simps) simp
    next
      case (Inr s')
      with r(2) have s': "sane s s'" "b_iterations s' = Suc (b_iterations s)"
        "\<not> b_timeout s' \<longrightarrow> pass_ok ptnodes jobjs fs ne0 s' \<and>
            (b_new_edges s' = 0 \<longrightarrow> all_refs_closed I jobjs (b_graph s'))" by (simp_all add: sane)
      show ?thesis
      proof (cases "b_timeout s'")
        case t: True
        with r(1) Inr True s'(1,2) show ?thesis by (subst build_while.simps) simp
      next
        case False
        have e: "build_while I expired ptnodes jobjs s = build_while I expired ptnodes jobjs s'"
          using True r(1) Inr False by (subst build_while.simps) simp
        have "\<exists>r. build_while I expired ptnodes jobjs s' = Some r \<and>
          (case r of Inl s'' \<Rightarrow> sane s' s''
           | Inr s'' \<Rightarrow> sane s' s'' \<and> (b_new_edges s' > 0 \<longrightarrow> b_iterations s' < b_iterations s'') \<and>
             (\<not> b_timeout s'' \<and> b_iterations s'' < CG_BUILD_ITER_LIMIT \<longrightarrow>
                pass_ok ptnodes jobjs fs ne0 s'' \<and> b_new_edges s'' = 0 \<and> all_refs_closed I jobjs (b_graph s'')))"
          using True s' False by (intro less.hyps) auto
        then obtain r' where r': "build_while I expired ptnodes jobjs s' = Some r'"
          "case r' of Inl s'' \<Rightarrow> sane s' s''
           | Inr s'' \<Rightarrow> sane s' s'' \<and> (b_new_edges s' > 0 \<longrightarrow> b_iterations s' < b_iterations s'') \<and>
             (\<not> b_timeout s'' \<and> b_iterations s'' < CG_BUILD_ITER_LIMIT \<longrightarrow>
                pass_ok ptnodes jobjs fs ne0 s'' \<and> b_new_edges s'' = 0 \<and> all_refs_closed I jobjs (b_graph s''))"
          by blast
        have "b_iterations s < b_iterations s''" if "r' = Inr s''" for s''
        proof (cases "b_new_edges s' > 0")
          case True
          with r'(2) that s'(2) show ?thesis by simp
        next
          case z: False
          then have "r' = Inr s'" using r'(1) by (subst (asm) build_while.simps) simp
          with that s'(2) show ?thesis by simp
        qed
        with e r' show ?thesis using sane_trans [OF s'(1)] by (cases r') simp_all
      qed
    qed
  qed
qed

text \<open>Fields without a value have an allocation among their bases, or get the unknown value.\<close>

definition valued :: "ideal \<Rightarrow> ConnectionGraph \<Rightarrow> pt \<Rightarrow> bool" where
  "valued I G f \<longleftrightarrow> edges G f \<noteq> [] \<or>
     (\<exists>b \<in> set (bases G f). is_JavaObject G b \<and> is_Allocate I (ideal_node G b))"

lemma valued_grows:
  assumes gr: "grows G G'" and "valued I G f"
  shows "valued I G' f"
proof -
  have "edges G f \<noteq> [] \<Longrightarrow> edges G' f \<noteq> []" using growsD(9) [OF gr, of f] by auto
  with assms(2) growsD(10) [OF gr, of f] show ?thesis unfolding valued_def growsD(4,6) [OF gr] by blast
qed

lemma find_field_value_correct:
  assumes ok: "tidy G" and f: "is_Field G f" "pt_is_oop (cg_heap G f)" and r: "find_field_value I f G = (G', n)"
  shows "tidy G' \<and> adds_unknown G G' \<and> valued I G' f \<and> (edges G f = [] \<and> n = 0 \<longrightarrow> G' = G)"
proof (cases "\<exists>base \<in> set (bases G f). is_JavaObject G base \<and> is_Allocate I (ideal_node G base)")
  case True
  with r ok show ?thesis by (simp add: find_field_value_def valued_def)
next
  case False
  let ?v = "add_value_edge I f (phantom_obj G) G"
  note wf = tidyD(3) [OF ok]
  have G': "G' = fst ?v" "n = (if snd ?v then 1 else 0)"
    using r unfolding find_field_value_def if_not_P [OF False] by (simp_all add: split_beta)
  have ph: "phantom_obj G < cg_next_pidx G" using phantom_null_ok(1) [OF wf] by (simp add: jobj_ok_def)
  have "snd ?v" if "edges G f = []"
    using that f by (simp add: add_value_edge_strip(2) add_edge_new [OF wf])
  moreover have "edges G' f \<noteq> []"
    using add_value_edge_correct(3) [OF wf f ph, of I] unfolding G' by (metis insert_not_empty list.set(1))
  ultimately show ?thesis
    using G' adds_unknown_edge [OF f] tidy_unknown_value [OF ok f] by (auto simp: valued_def)
qed

lemma field_pass_correct:
  assumes "tidy (b_graph s)" and "\<forall>f \<in> set fs. is_Field (b_graph s) f \<and> pt_is_oop (cg_heap (b_graph s) f)"
    and "field_pass I fs s = s'"
  shows "tidy (b_graph s') \<and> adds_unknown (b_graph s) (b_graph s') \<and> (\<forall>f \<in> set fs. valued I (b_graph s') f) \<and>
    b_new_edges s \<le> b_new_edges s' \<and> (b_new_edges s' = b_new_edges s \<longrightarrow> b_graph s' = b_graph s) \<and>
    b_non_escaped s' = b_non_escaped s \<and> b_iterations s' = b_iterations s \<and> b_clock s' = b_clock s"
  using assms
proof (induction fs arbitrary: s)
  case (Cons f fs)
  obtain G1 n where r: "find_field_value I f (b_graph s) = (G1, n)" by fastforce
  from find_field_value_correct [OF Cons.prems(1) _ _ r] Cons.prems(2)
  have v: "tidy G1" "adds_unknown (b_graph s) G1" "valued I G1 f" "edges (b_graph s) f = [] \<and> n = 0 \<longrightarrow> G1 = b_graph s"
    by auto
  define s1 where "s1 = (if edges (b_graph s) f = [] then s\<lparr>b_graph := G1, b_new_edges := b_new_edges s + n\<rparr> else s)"
  have f1: "field_pass I fs s1 = s'" using Cons.prems(3) by (auto simp: s1_def r)
  have a1: "tidy (b_graph s1)" "adds_unknown (b_graph s) (b_graph s1)" "valued I (b_graph s1) f"
    using v Cons.prems(1) by (auto simp: s1_def valued_def)
  then have "grows (b_graph s) (b_graph s1)" by (simp add: adds_unknown_def)
  then have "\<forall>f \<in> set fs. is_Field (b_graph s1) f \<and> pt_is_oop (cg_heap (b_graph s1) f)"
    using Cons.prems(2) by (simp add: growsD)
  note IH = Cons.IH [OF a1(1) this f1]
  have "grows (b_graph s1) (b_graph s')" using IH by (simp add: adds_unknown_def)
  then have "valued I (b_graph s') f" using a1(3) by (rule valued_grows)
  moreover have "b_new_edges s \<le> b_new_edges s1" "b_new_edges s1 = b_new_edges s \<longrightarrow> b_graph s1 = b_graph s"
    "b_non_escaped s1 = b_non_escaped s" "b_iterations s1 = b_iterations s" "b_clock s1 = b_clock s"
    using v(4) by (auto simp: s1_def)
  ultimately show ?case using IH adds_unknown_trans [OF a1(2)] by auto
qed simp

lemma settled_adds_unknown:
  assumes "settled ne0 G ne" and "adds_unknown G G'"
  shows "settled ne0 G' ne"
  using assms by (simp add: settled_def adds_unknown_def)

definition build_done :: "ideal \<Rightarrow> pt list \<Rightarrow> pt list \<Rightarrow> pt list \<Rightarrow> pt list \<Rightarrow> build \<Rightarrow> bool" where
  "build_done I ptnodes jobjs fs ne0 s \<longleftrightarrow> pass_ok ptnodes jobjs fs ne0 s \<and>
     all_refs_closed I jobjs (b_graph s) \<and> (\<forall>f \<in> set fs. valued I (b_graph s) f)"

text \<open>The fields of a settled graph: the next round starts from a settled graph too.\<close>

lemma field_round:
  assumes ok: "pass_ok ptnodes jobjs fs ne0 s" and z: "b_new_edges s = 0" and rc: "all_refs_closed I jobjs (b_graph s)"
    and s2: "s2 = check_time expired (field_pass I fs s)"
  shows "sane s s2 \<and> b_iterations s2 = b_iterations s \<and> pass_ok ptnodes jobjs fs ne0 s2 \<and>
    (b_new_edges s2 = 0 \<longrightarrow> build_done I ptnodes jobjs fs ne0 s2)"
proof -
  have p: "tidy (b_graph s)" "setup_ok ptnodes jobjs fs (b_graph s)"
    "settled ne0 (b_graph s) (b_non_escaped s)" "b_non_escaped s \<noteq> []" using ok by (simp_all add: pass_ok_def)
  then have "\<forall>f \<in> set fs. is_Field (b_graph s) f \<and> pt_is_oop (cg_heap (b_graph s) f)" by (simp add: setup_ok_def)
  note f = field_pass_correct [OF p(1) this refl, of I]
  have g: "b_graph s2 = b_graph (field_pass I fs s)" "b_non_escaped s2 = b_non_escaped s"
    "b_iterations s2 = b_iterations s" "b_new_edges s2 = b_new_edges (field_pass I fs s)"
    using f by (simp_all add: s2 check_time_def)
  have "grows (b_graph s) (b_graph s2)" using f by (simp add: g adds_unknown_def)
  with p f have ok2: "pass_ok ptnodes jobjs fs ne0 s2"
    by (simp add: pass_ok_def g settled_adds_unknown setup_ok_grows)
  moreover have "build_done I ptnodes jobjs fs ne0 s2" if "b_new_edges s2 = 0"
  proof -
    have "b_graph s2 = b_graph s" using that z f by (simp add: g)
    then have "all_refs_closed I jobjs (b_graph s2)" using rc by simp
    moreover have "\<forall>f \<in> set fs. valued I (b_graph s2) f" using f by (simp add: g(1))
    ultimately show ?thesis using ok2 by (simp add: build_done_def)
  qed
  ultimately show ?thesis using \<open>grows _ _\<close> by (auto simp: sane_def pass_ok_def g(3))
qed

lemma build_do_while_correct:
  assumes "pass_ok ptnodes jobjs fs ne0 s" and "\<not> b_timeout s" and "b_new_edges s > 0"
  shows "\<exists>r. build_do_while I expired ptnodes jobjs fs s = Some r \<and>
    (case r of Inl s' \<Rightarrow> sane s s'
     | Inr s' \<Rightarrow> sane s s' \<and>
         (\<not> b_timeout s' \<and> b_iterations s' < CG_BUILD_ITER_LIMIT \<longrightarrow> build_done I ptnodes jobjs fs ne0 s'))"
  using assms
proof (induction "CG_BUILD_ITER_LIMIT - b_iterations s" arbitrary: s rule: less_induct)
  case less
  have "b_new_edges s = 0 \<longrightarrow> all_refs_closed I jobjs (b_graph s)" using less.prems(3) by simp
  from build_while_correct [OF less.prems(1,2) this, of expired] obtain r where
    r: "build_while I expired ptnodes jobjs s = Some r"
    "case r of Inl s' \<Rightarrow> sane s s'
     | Inr s' \<Rightarrow> sane s s' \<and> (b_new_edges s > 0 \<longrightarrow> b_iterations s < b_iterations s') \<and>
         (\<not> b_timeout s' \<and> b_iterations s' < CG_BUILD_ITER_LIMIT \<longrightarrow>
            pass_ok ptnodes jobjs fs ne0 s' \<and> b_new_edges s' = 0 \<and> all_refs_closed I jobjs (b_graph s'))" by blast
  show ?case
  proof (cases r)
    case (Inl s')
    with r show ?thesis by (subst build_do_while.simps) simp
  next
    case (Inr s1)
    show ?thesis
    proof (cases "b_iterations s1 < CG_BUILD_ITER_LIMIT \<and> \<not> b_timeout s1")
      case False
      with r Inr show ?thesis by (subst build_do_while.simps) (auto simp: sane_def)
    next
      case True
      obtain s2 where s2: "s2 = check_time expired (field_pass I fs s1)" by blast
      from r(2) Inr True less.prems(3) have s1: "sane s s1" "b_iterations s < b_iterations s1" "pass_ok ptnodes jobjs fs ne0 s1"
        "b_new_edges s1 = 0" "all_refs_closed I jobjs (b_graph s1)" by auto
      from field_round [OF s1(3-5) s2] have
        f: "sane s1 s2" "b_iterations s2 = b_iterations s1" "pass_ok ptnodes jobjs fs ne0 s2"
        "b_new_edges s2 = 0 \<longrightarrow> build_done I ptnodes jobjs fs ne0 s2" by auto
      note sane2 = sane_trans [OF s1(1) f(1)]
      have e: "build_do_while I expired ptnodes jobjs fs s =
         (if b_timeout s2 then Some (Inr s2)
          else if b_new_edges s2 > 0 then build_do_while I expired ptnodes jobjs fs s2 else Some (Inr s2))"
        using r(1) Inr True by (subst build_do_while.simps) (simp add: s2 Let_def)
      show ?thesis
      proof (cases "b_timeout s2 \<or> b_new_edges s2 = 0")
        case True
        with e f(4) sane2 show ?thesis by auto
      next
        case False
        have "\<exists>r. build_do_while I expired ptnodes jobjs fs s2 = Some r \<and>
          (case r of Inl s' \<Rightarrow> sane s2 s'
           | Inr s' \<Rightarrow> sane s2 s' \<and>
             (\<not> b_timeout s' \<and> b_iterations s' < CG_BUILD_ITER_LIMIT \<longrightarrow> build_done I ptnodes jobjs fs ne0 s'))"
          using False f s1(2) True by (intro less.hyps) auto
        with e False sane_trans [OF sane2] show ?thesis by (auto split: sum.splits)
      qed
    qed
  qed
qed

section \<open>Null values\<close>

text \<open>References to null only: nothing else changes but the uses of null.\<close>

definition null_ext :: "ConnectionGraph \<Rightarrow> ConnectionGraph \<Rightarrow> bool" where
  "null_ext G G' \<longleftrightarrow> grows G G' \<and> flow_ok G' \<and>
     (\<forall>p. escape G' p = escape G p \<and> fields_escape G' p = fields_escape G p \<and> pt_offset (cg_heap G' p) = pt_offset (cg_heap G p) \<and>
        arraycopy_src (cg_heap G' p) = arraycopy_src (cg_heap G p) \<and> arraycopy_dst (cg_heap G' p) = arraycopy_dst (cg_heap G p) \<and>
        set (edges G' p) \<subseteq> insert (null_obj G) (set (edges G p)) \<and>
        set (bases G' p) \<subseteq> insert (null_obj G) (set (bases G p)) \<and>
        (p \<noteq> null_obj G \<longrightarrow> uses G' p = uses G p))"

lemma null_ext_refl: "flow_ok G \<Longrightarrow> null_ext G G"
  by (auto simp: null_ext_def)

lemma null_ext_trans:
  assumes a: "null_ext G G1" and b: "null_ext G1 G2"
  shows "null_ext G G2"
proof -
  have gr: "grows G G1" "grows G1 G2" using a b by (simp_all add: null_ext_def)
  note n = growsD(2) [OF gr(1)]
  have "set (edges G2 p) \<subseteq> insert (null_obj G) (set (edges G p))" "set (bases G2 p) \<subseteq> insert (null_obj G) (set (bases G p))" for p
    using a b unfolding null_ext_def n by blast+
  with a b grows_trans [OF gr] show ?thesis unfolding null_ext_def n by simp
qed

lemma null_extD:
  assumes "null_ext G G'"
  shows "grows G G'" "flow_ok G'" "escape G' p = escape G p" "fields_escape G' p = fields_escape G p"
    "pt_offset (cg_heap G' p) = pt_offset (cg_heap G p)" "arraycopy_src (cg_heap G' p) = arraycopy_src (cg_heap G p)"
    "arraycopy_dst (cg_heap G' p) = arraycopy_dst (cg_heap G p)"
    "set (edges G' p) \<subseteq> insert (null_obj G) (set (edges G p))"
    "set (bases G' p) \<subseteq> insert (null_obj G) (set (bases G p))" "p \<noteq> null_obj G \<Longrightarrow> uses G' p = uses G p"
  using assms by (simp_all add: null_ext_def)

lemma null_dests:
  assumes "cg_wf G" "typed_edges G"
  shows "arraycopy_dests (null_obj G) G = []"
proof -
  have "\<not> is_Arraycopy G v" if "Use v \<in> set (uses G (null_obj G))" for v
    using that assms cg_wf_uses [OF assms(1)] unfolding wf_uses_def typed_edges_def by blast
  then show ?thesis by (auto simp: arraycopy_dests_def split: pt_use.split)
qed

lemma null_ext_dests:
  assumes ok: "flow_ok G" and e: "null_ext G G'" and b: "b \<noteq> null_obj G"
  shows "arraycopy_dests b G' = arraycopy_dests b G"
proof -
  note d = null_extD [OF e] growsD [OF null_extD(1) [OF e]]
  have "is_JavaObject G (null_obj G)" using cg_wf_specials [OF flow_okD(1) [OF ok]] by (simp add: wf_specials_def)
  then have "is_Arraycopy G a \<Longrightarrow> uses G' a = uses G a" for a 
    using d(10) [of a] by (cases "a = null_obj G") auto
  then show ?thesis
    unfolding arraycopy_dests_def d(10) [OF b] d(7,14)
    by (intro arg_cong [where f = concat] map_cong refl) (auto split: pt_use.split)
qed

lemma null_ext_base_fields:
  assumes ok: "flow_ok G" and e: "null_ext G G'"
  shows "base_fields I G' f b \<subseteq> base_fields I G f b"
proof
  note d = null_extD [OF e] growsD [OF null_extD(1) [OF e]]
  fix g assume g: "g \<in> base_fields I G' f b"
  have nj: "is_JavaObject G (null_obj G)" using cg_wf_specials [OF flow_okD(1) [OF ok]] by (simp add: wf_specials_def)
  from g have r: "related_field I f g G" by (simp add: base_fields_def related_field_def Let_def d(5,15))
  then have "g \<noteq> null_obj G" using flow_okD(2) [OF ok] nj by (auto simp: related_field_def typed_edges_def)
  then have "g \<in> set (edges G' b) \<Longrightarrow> g \<in> set (edges G b)" using d(8) [of b] by auto
  moreover have "is_LocalVar G b \<Longrightarrow> uses G' b = uses G b"
    using d(10) [of b] nj by (cases "b = null_obj G") auto
  ultimately show "g \<in> base_fields I G f b"
    using g r unfolding base_fields_def d(12,13,14) by auto
qed

lemma null_ext_field_targets:
  assumes ok: "flow_ok G" and e: "null_ext G G'"
  shows "field_targets I G' f \<subseteq> field_targets I G f"
proof
  note d = null_extD [OF e] growsD [OF null_extD(1) [OF e]]
  have wf': "cg_wf G'" "typed_edges G'" using flow_okD [OF d(2)] by auto
  fix g assume "g \<in> field_targets I G' f"
  then obtain b where b: "b \<in> set (bases G' f)" and c: "g \<in> base_fields I G' f b \<or>
      arraycopy_src (cg_heap G' b) \<and> (\<exists>a \<in> set (arraycopy_dests b G'). g \<in> base_fields I G' f a)"
    by (auto simp: field_targets_def split: if_splits)
  have "b \<noteq> null_obj G"
  proof
    assume b0: "b = null_obj G"
    then have "base_fields I G' f b = {}"
      using cg_wf_specials [OF wf'(1)] by (auto simp: base_fields_def wf_specials_def d(12))
    with c null_dests [OF wf'] b0 show False by (simp add: d(12))
  qed
  with b d(9) [of f] have "b \<in> set (bases G f)" by auto
  with c null_ext_base_fields [OF ok e] null_ext_dests [OF ok e \<open>b \<noteq> _\<close>] show "g \<in> field_targets I G f"
    unfolding field_targets_def d(6) by fastforce
qed

lemma refs_closed_null_ext:
  assumes ok: "flow_ok G" and e: "null_ext G G'" and j: "j \<noteq> null_obj G" and rc: "refs_closed I G j"
  shows "refs_closed I G' j"
  unfolding refs_closed_def
proof (intro allI impI ballI)
  note d = null_extD [OF e] growsD [OF null_extD(1) [OF e]]
  fix p u assume p: "j \<in> set (edges G' p) \<and> \<not> is_Arraycopy G' p" and u: "u \<in> obligations I G' p"
  from p j d(8) [of p] have jp: "j \<in> set (edges G p)" "\<not> is_Arraycopy G p" by (auto simp: d(14))
  have "edges G (null_obj G) = []" using cg_wf_specials [OF flow_okD(1) [OF ok]] by (simp add: wf_specials_def)
  with jp(1) have "p \<noteq> null_obj G" by auto
  with u have "u \<in> obligations I G p"
    using null_ext_field_targets [OF ok e, of I p] d(10) [of p] by (auto simp: obligations_def d(14,15) split: if_splits)
  with rc jp have "reached G j u" by (simp add: refs_closed_def)
  then show "reached G' j u" by (rule reached_grows [OF d(1)])
qed

lemma settled_null_ext:
  assumes st: "settled ne0 G ne" and e: "null_ext G G'"
  shows "settled ne0 G' ne"
proof -
  note d = null_extD [OF e] growsD [OF null_extD(1) [OF e]]
  from st have inv: "escape_inv G []" and ne: "ne = filter (\<lambda>p. escape G p \<noteq> GlobalEscape) ne0" by (simp_all add: settled_def)
  have "closed_node G' p" if "closed_node G p" for p
    unfolding closed_node_def d(3,4,13,14,15)
  proof (intro conjI ballI impI)
    show "phantom_obj G \<in> set (edges G' p)" if "is_Field G p \<and> pt_is_oop (cg_heap G p) \<and> ArgEscape \<le> escape G p"
      using \<open>closed_node G p\<close> that d(19) [of p] unfolding closed_node_def by blast
    fix q assume "q \<in> set (edges G' p)"
    then have "q = null_obj G \<or> q \<in> set (edges G p)" using d(8) by auto
    then show "edge_closed G' p (escape G p) (fields_escape G p) q"
      using \<open>closed_node G p\<close> unfolding closed_node_def edge_closed_def d(3,4,12,14,15) by blast
  qed
  with escape_inv_final [OF inv] have "\<forall>p < cg_next_pidx G. node_done G' p" by (simp add: node_done_def)
  moreover have "esc_le G'" using inv by (simp add: escape_inv_def esc_le_def d(3,4,12))
  ultimately have "escape_inv G' []"
    using inv flow_okD(1) [OF d(2)] phantom_escapes_grows [OF _ d(1)] by (simp add: escape_inv_def d(11))
  with ne show ?thesis by (simp add: settled_def d(3))
qed

text \<open>The steps that add references to null.\<close>

lemma null_ext_strip: "strip G' = strip G \<Longrightarrow> flow_ok G' \<Longrightarrow> null_ext G G'"
  using strip_eqD [of G' G] strip_grows [of G G'] by (auto simp: null_ext_def)

lemma add_edge_null:
  assumes ok: "flow_ok G" and e: "edge_ok p (null_obj G) G" and p: "\<not> is_JavaObject G p" "\<not> is_Arraycopy G p"
  shows "null_ext G (fst (add_edge p (null_obj G) G))"
proof (cases "null_obj G \<in> set (edges G p)")
  case True
  then show ?thesis by (simp add: add_edge_old [OF flow_okD(1) [OF ok]] null_ext_refl [OF ok])
next
  case False
  note wf = flow_okD(1) [OF ok]
  have ph: "null_obj G \<noteq> phantom_obj G" using cg_wf_specials [OF wf] by (simp add: wf_specials_def)
  have "flows G (fst (add_edge p (null_obj G) G))" using p by (intro flows_add_edge [OF ok e]) auto
  then have f: "grows G (fst (add_edge p (null_obj G) G))" "flow_ok (fst (add_edge p (null_obj G) G))" by (auto dest: flowsD)
  have a: "fst (add_edge p (null_obj G) G) =
     upd_pt (null_obj G) (\<lambda>n. n\<lparr>pt_uses := pt_uses n @ [Use p]\<rparr>) (upd_pt p (\<lambda>n. n\<lparr>pt_edges := pt_edges n @ [null_obj G]\<rparr>) G)"
    using p by (simp add: add_edge_new [OF wf False] edge_node_def [abs_def] ph)
  have "p \<noteq> null_obj G" using e by (simp add: edge_ok_def)
  then have "set (edges (fst (add_edge p (null_obj G) G)) q) \<subseteq> insert (null_obj G) (set (edges G q))"
    "uses (fst (add_edge p (null_obj G) G)) q = (if q = null_obj G then uses G q @ [Use p] else uses G q)"
    "arraycopy_src (cg_heap (fst (add_edge p (null_obj G) G)) q) = arraycopy_src (cg_heap G q)"
    "arraycopy_dst (cg_heap (fst (add_edge p (null_obj G) G)) q) = arraycopy_dst (cg_heap G q)" for q
    by (auto simp: a)
  with f show ?thesis by (auto simp: null_ext_def cg_frame)
qed

lemma upd_pt_id: "upd_pt p (\<lambda>n. n) G = G"
  by (simp add: upd_pt_def)

lemma add_base_null:
  assumes ok: "flow_ok G" and b: "base_ok f (null_obj G) G"
  shows "null_ext G (fst (add_base f (null_obj G) G))"
proof (cases "null_obj G \<in> set (bases G f)")
  case True
  then show ?thesis by (simp add: add_base_old [OF flow_okD(1) [OF ok]] null_ext_refl [OF ok])
next
  case False
  let ?G = "fst (add_base f (null_obj G) G)"
  note wf = flow_okD(1) [OF ok]
  have ph: "null_obj G \<noteq> phantom_obj G" using cg_wf_specials [OF wf] by (simp add: wf_specials_def)
  have f: "grows G ?G" "flow_ok ?G" using flowsD [OF flows_add_base [OF ok b]] by auto
  have a: "?G = upd_pt f (\<lambda>n. n\<lparr>pt_bases := pt_bases n @ [null_obj G]\<rparr>) G"
    by (simp add: add_base_new [OF wf b False] base_node_def [abs_def] base_back_def [abs_def] ph upd_pt_id)
  have "set (bases ?G q) \<subseteq> insert (null_obj G) (set (bases G q))"
    "uses ?G q = uses G q" "edges ?G q = edges G q" "escape ?G q = escape G q" "fields_escape ?G q = fields_escape G q"
    "pt_offset (cg_heap ?G q) = pt_offset (cg_heap G q)"
    "arraycopy_src (cg_heap ?G q) = arraycopy_src (cg_heap G q)"
    "arraycopy_dst (cg_heap ?G q) = arraycopy_dst (cg_heap G q)" for q
    by (auto simp: a)
  with f show ?thesis by (auto simp: null_ext_def)
qed

lemma add_arraycopy_dst_edges_null:
  "fst (add_arraycopy_dst_edges use (null_obj G) G) = G"
proof -
  have "fst (fold (\<lambda>e (H, k).
        if is_Arraycopy H e then
          if null_obj G = null_obj H then (H, k)
          else
            let (G1, is_new) = add_edge (null_obj G) e H
            in if is_new then (upd_pt (null_obj G) set_arraycopy_dst G1, Suc k) else (G1, k)
        else (H, k)) xs (G, k)) = G" for xs k
    by (induction xs) simp_all
  then show ?thesis by (simp add: add_arraycopy_dst_edges_def)
qed

lemma process_use_null:
  assumes ok: "flow_ok G" and u: "wl_entry G u" and r: "process_use I (null_obj G) u G = (G', k)"
  shows "null_ext G G'"
proof (cases u)
  case (BaseUse f)
  have "base_ok f (null_obj G) G" using u BaseUse phantom_null_ok(2) [OF flow_okD(1) [OF ok]] by (simp add: base_ok_def jobj_ok_def)
  from add_base_null [OF ok this] r BaseUse show ?thesis by (simp add: process_use_def split_beta Let_def)
next
  case (Use v)
  show ?thesis
  proof (cases "is_Arraycopy G v")
    case True
    with r Use null_ext_refl [OF ok] show ?thesis by (simp add: process_use_def)
  next
    case False
    obtain G1 b where a: "add_edge v (null_obj G) G = (G1, b)" by fastforce
    have nj: "is_JavaObject G (null_obj G)" "null_obj G < cg_next_pidx G"
      using phantom_null_ok(2) [OF flow_okD(1) [OF ok]] by (simp_all add: jobj_ok_def)
    then have "edge_ok v (null_obj G) G" using u Use by (auto simp: edge_ok_def)
    from add_edge_null [OF ok this] False u Use a have e1: "null_ext G G1" by simp
    then have n1: "null_obj G1 = null_obj G" by (simp add: null_extD growsD)
    have "flow_ok G'" using process_use_correct [OF ok u nj r] by (simp add: flows_def)
    moreover have "strip G' = strip G1"
      using r Use False a add_arraycopy_dst_edges_null [of v "add_uses_to_worklist v G1"] n1
      by (auto simp: process_use_def Let_def split_beta split: if_splits)
    ultimately show ?thesis using null_ext_trans [OF e1 null_ext_strip] by blast
  qed
qed

lemma worklist_loop_null:
  assumes "worklist_loop I (null_obj G) l k G = Some (G', n)" and "flow_ok G"
  shows "null_ext G G'"
proof -
  have "flow_ok G \<and> j = null_obj G \<longrightarrow> null_ext G (fst r)" if "worklist_loop I j l k G = Some r" for j l k G r
  proof (rule worklist_loop.raw_induct [OF _ that, where P = "\<lambda>I j l k G r. flow_ok G \<and> j = null_obj G \<longrightarrow> null_ext G (fst r)"])
    fix loop :: "ideal \<Rightarrow> pt \<Rightarrow> nat \<Rightarrow> nat \<Rightarrow> ConnectionGraph \<Rightarrow> (ConnectionGraph \<times> nat) option" and I j l k G r
    assume IH: "\<And>I j l k G r. loop I j l k G = Some r \<Longrightarrow> flow_ok G \<and> j = null_obj G \<longrightarrow> null_ext G (fst r)"
      and eq: "(if l < length (cg_worklist G) then
        (case process_use I j (cg_worklist G ! l) G of (G1, k') \<Rightarrow> loop I j (Suc l) (k + k') G1)
        else Some (G, k)) = Some r"
    show "flow_ok G \<and> j = null_obj G \<longrightarrow> null_ext G (fst r)"
    proof
      assume a: "flow_ok G \<and> j = null_obj G"
      show "null_ext G (fst r)"
      proof (cases "l < length (cg_worklist G)")
        case False
        with eq a show ?thesis by (auto simp: null_ext_refl)
      next
        case True
        obtain G1 k1 where p: "process_use I j (cg_worklist G ! l) G = (G1, k1)" by fastforce
        have "wl_entry G (cg_worklist G ! l)" using a True flow_okD(3) [of G] by (simp add: wl_ok_def)
        with a p have e: "null_ext G G1" using process_use_null by blast
        then have "flow_ok G1" "j = null_obj G1" using a null_extD(2) [OF e] growsD(2) [OF null_extD(1) [OF e]] by simp_all
        with eq True p IH [of I j "Suc l" "k + k1" G1 r] have "null_ext G1 (fst r)" by simp
        with e show ?thesis by (rule null_ext_trans)
      qed
    qed
  qed
  from this [OF assms(1)] assms(2) show ?thesis by simp
qed

lemma add_java_object_edges_null:
  assumes ok: "flow_ok G"
  shows "\<exists>G' n. add_java_object_edges I (null_obj G) False G = Some (G', n) \<and> null_ext G G'"
proof -
  from add_java_object_edges_result [OF ok phantom_null_ok(2) [OF flow_okD(1) [OF ok]], of I False] obtain G' n where
    r: "add_java_object_edges I (null_obj G) False G = Some (G', n)" "flow_ok G'" by blast
  then obtain G1 where "worklist_loop I (null_obj G) 0 0 G = Some (G1, n)" "G' = strip G1"
    by (auto simp: add_java_object_edges_def strip_def split: option.splits)
  with worklist_loop_null ok have e: "null_ext G G1" and "strip G' = strip G1" by (auto simp: strip_def)
  with r null_ext_trans [OF e null_ext_strip] show ?thesis by blast
qed

lemma add_value_edge_null:
  assumes ok: "flow_ok G" and f: "is_Field G f" "pt_is_oop (cg_heap G f)"
  shows "null_ext G (fst (add_value_edge I f (null_obj G) G))"
proof -
  have nj: "is_JavaObject G (null_obj G)" "null_obj G < cg_next_pidx G"
    using phantom_null_ok(2) [OF flow_okD(1) [OF ok]] by (simp_all add: jobj_ok_def)
  with f wf_node_range [OF flow_okD(1) [OF ok], of f] have "edge_ok f (null_obj G) G" by (auto simp: edge_ok_def)
  from add_edge_null [OF ok this] f have "null_ext G (fst (add_edge f (null_obj G) G))" by simp
  moreover have "flow_ok (fst (add_value_edge I f (null_obj G) G))" using flowsD(1) [OF flows_value_edge [OF ok f nj]] .
  ultimately show ?thesis using null_ext_trans [OF _ null_ext_strip [OF add_value_edge_strip(1)]] by blast
qed

lemma null_fields_null:
  assumes "flow_ok G"
  shows "null_ext G (fst (null_fields I alloc fs vb offsets G k))"
  using assms
proof (induction fs arbitrary: vb offsets G k)
  case Nil
  then show ?case by (simp add: null_ext_refl)
next
  case (Cons f fs)
  have v: "null_ext G (fst (null_fields I alloc fs vb' off' G1 k'))"
    if "add_value_edge I f (null_obj G) G = (G1, b)" "is_Field G f" "pt_is_oop (cg_heap G f)" for G1 b vb' off' k'
  proof -
    have e: "null_ext G G1" using add_value_edge_null [OF Cons.prems that(2,3), of I] that(1) by simp
    from null_ext_trans [OF e Cons.IH [OF null_extD(2) [OF e]]] show ?thesis .
  qed
  show ?case
    using Cons.IH [OF Cons.prems] v by (simp add: Let_def split: prod.splits bool.splits)
qed

text \<open>The whole pass over the non-escaping objects.\<close>

lemma null_pass_correct:
  assumes "flow_ok G"
  shows "\<exists>G' inits'. null_pass I ptns G inits = Some (G', inits') \<and> null_ext G G'"
  using assms
proof (induction ptns arbitrary: G inits)
  case Nil
  then show ?case by (simp add: null_ext_refl)
next
  case (Cons p ps)
  note ok = Cons.prems
  obtain G1 n where f: "find_init_values I p (null_obj G) G = (G1, n)" by fastforce
  have "null_obj G \<noteq> phantom_obj G" using cg_wf_specials [OF flow_okD(1) [OF ok]] by (simp add: wf_specials_def)
  then have e1: "null_ext G G1"
    using f null_fields_null [OF ok, of I "ideal_node G p" "edges G p" False "[]" 0] null_ext_refl [OF ok]
    by (auto simp: find_init_values_def split: if_splits)
  from add_java_object_edges_null [OF null_extD(2) [OF e1], of I] obtain G2 m where
    a: "add_java_object_edges I (null_obj G1) False G1 = Some (G2, m)" "null_ext G1 G2" by blast
  obtain H m' where H: "(if escape G p = NoEscape then
              (case find_init_values I p (null_obj G) G of
                 (G1, n) \<Rightarrow> if n > 0 then add_java_object_edges I (null_obj G1) False G1 else Some (G1, n))
            else Some (G, 0)) = Some (H, m')" "null_ext G H"
    using f a e1 null_ext_trans [OF e1 a(2)] null_ext_refl [OF ok] by (cases "escape G p = NoEscape"; cases "n > 0") auto
  obtain inits2 where i: "null_pass I (p # ps) G inits = null_pass I ps H inits2"
    using H(1) by (simp only: null_pass.simps option.case prod.case Let_def)
  from Cons.IH [OF null_extD(2) [OF H(2)], of inits2] obtain G' inits' where
    "null_pass I ps H inits2 = Some (G', inits')" "null_ext H G'" by blast
  with i null_ext_trans [OF H(2)] show ?case by auto
qed

lemma null_pass_done:
  assumes d: "build_done I ptnodes jobjs fs ne0 s"
  shows "\<exists>G2 inits. null_pass I (b_non_escaped s) (b_graph s) [] = Some (G2, inits) \<and> cg_wf G2 \<and> grows (b_graph s) G2 \<and>
    escape_closed G2 \<and> b_non_escaped s = filter (\<lambda>p. escape G2 p \<noteq> GlobalEscape) ne0 \<and> b_non_escaped s \<noteq> [] \<and>
    (\<forall>j \<in> set jobjs. j \<noteq> null_obj G2 \<longrightarrow> refs_closed I G2 j) \<and> (\<forall>f \<in> set fs. valued I G2 f)"
proof -
  from d have ok: "flow_ok (b_graph s)" "settled ne0 (b_graph s) (b_non_escaped s)" "b_non_escaped s \<noteq> []"
    by (simp_all add: build_done_def pass_ok_def tidyD)
  from null_pass_correct [OF ok(1)] obtain G2 inits where
    n: "null_pass I (b_non_escaped s) (b_graph s) [] = Some (G2, inits)" "null_ext (b_graph s) G2" by blast
  note e = null_extD [OF n(2)]
  have "settled ne0 G2 (b_non_escaped s)" by (rule settled_null_ext [OF ok(2) n(2)])
  then have "escape_closed G2" "b_non_escaped s = filter (\<lambda>p. escape G2 p \<noteq> GlobalEscape) ne0"
    by (simp_all add: settled_def escape_inv_closed)
  moreover have "\<forall>j \<in> set jobjs. j \<noteq> null_obj G2 \<longrightarrow> refs_closed I G2 j"
    using d refs_closed_null_ext [OF ok(1) n(2)] growsD(2) [OF e(1)]
    by (simp add: build_done_def all_refs_closed_def)
  moreover have "\<forall>f \<in> set fs. valued I G2 f" using d valued_grows [OF e(1)] by (simp add: build_done_def)
  ultimately show ?thesis using n(1) e(1) flow_okD(1) [OF e(2)] ok(3) by blast
qed

section \<open>Properties\<close>

lemma complete_connection_graph_result:
  assumes "tidy G" and "setup_ok ptnodes jobjs oop_fields G" and "copy_start G"
  shows "\<exists>G' ne inits ok.
    complete_connection_graph I expired ptnodes non_escaped jobjs oop_fields G = Some (G', ne, inits, ok) \<and>
    cg_wf G' \<and> grows G G' \<and>
    (ok \<longrightarrow> escape_closed G' \<and> ne = filter (\<lambda>p. escape G' p \<noteq> GlobalEscape) non_escaped \<and> ne \<noteq> [] \<and>
       (\<forall>j \<in> set jobjs. j \<noteq> null_obj G' \<longrightarrow> refs_closed I G' j) \<and>
       (\<forall>f \<in> set oop_fields. valued I G' f))"
proof -
  obtain G1 ne where f: "find_non_escaped_objects I ptnodes non_escaped G = Some (G1, ne, ne \<noteq> [])"
    "tidy G1" "grows G G1" "settled non_escaped G1 ne"
    using find_non_escaped_step [OF assms, of non_escaped non_escaped I] by blast
  show ?thesis
  proof (cases "ne = []")
    case True
    with f show ?thesis by (auto simp: complete_connection_graph_def tidyD)
  next
    case False
    let ?s = "\<lparr>b_graph = G1, b_non_escaped = ne, b_new_edges = 1, b_iterations = 0, b_clock = 0, b_timeout = False\<rparr>"
    have "pass_ok ptnodes jobjs oop_fields non_escaped ?s"
      using f False setup_ok_grows [OF assms(2) f(3)] by (simp add: pass_ok_def)
    from build_do_while_correct [OF this, of I expired] obtain r where
      r: "build_do_while I expired ptnodes jobjs oop_fields ?s = Some r"
      "case r of Inl s' \<Rightarrow> sane ?s s'
       | Inr s' \<Rightarrow> sane ?s s' \<and> (\<not> b_timeout s' \<and> b_iterations s' < CG_BUILD_ITER_LIMIT \<longrightarrow>
           build_done I ptnodes jobjs oop_fields non_escaped s')" by auto
    note c = complete_connection_graph_def [of I expired ptnodes non_escaped jobjs oop_fields G, unfolded f(1)]
    have gr: "grows G (b_graph s)" "cg_wf (b_graph s)" if "sane ?s s" for s
      using that grows_trans [OF f(3)] by (auto simp: sane_def tidyD)
    show ?thesis
    proof (cases "\<exists>s. r = Inr s \<and> b_iterations s < CG_BUILD_ITER_LIMIT \<and> \<not> b_timeout s")
      case bail: False
      then show ?thesis using c False r gr by (cases r) (auto simp: not_less)
    next
      case True
      then obtain s where s: "r = Inr s" "b_iterations s < CG_BUILD_ITER_LIMIT" "\<not> b_timeout s" by blast
      with r(2) have d: "sane ?s s" "build_done I ptnodes jobjs oop_fields non_escaped s" by auto
      from null_pass_done [OF d(2)] c False r(1) s show ?thesis
        using grows_trans [OF gr(1) [OF d(1)]] by (auto simp: not_le)
    qed
  qed
qed

text \<open>
  C3: \<open>complete_connection_graph\<close> always returns, whatever the timer answers. The graph it
  leaves is well-formed and only grew. If it reports success, then (1) the escape states are
  closed under the edges and the list holds exactly the given objects that do not escape
  globally, and is not empty; (2) the references to every Java object but null are closed:
  every use of a node that points to the object, and every field that may be the same
  memory as a field holding it, points to it; (3) every oop field has a value, or an
  allocation among its bases.
\<close>

theorem complete_connection_graph_correct:
  assumes "tidy G" and "setup_ok ptnodes jobjs oop_fields G" and "copy_start G"
  shows "\<exists>G' ne inits ok.
    complete_connection_graph I expired ptnodes non_escaped jobjs oop_fields G = Some (G', ne, inits, ok) \<and>
    cg_wf G' \<and> grows G G' \<and>
    (ok \<longrightarrow> escape_closed G' \<and> ne = filter (\<lambda>p. escape G' p \<noteq> GlobalEscape) non_escaped \<and> ne \<noteq> [] \<and>
       (\<forall>j \<in> set jobjs. j \<noteq> null_obj G' \<longrightarrow> refs_closed I G' j) \<and>
       (\<forall>f \<in> set oop_fields. valued I G' f))"
  by (rule complete_connection_graph_result [OF assms])

text \<open>An object, a variable that holds it and a second variable that reads the first.\<close>

definition chain_graph :: ConnectionGraph where
  "chain_graph = fst (add_edge 4 3 (fst (add_edge 3 2 (add_local_var 4 NoEscape
     (add_local_var 3 NoEscape (add_java_object 2 NoEscape (new_ConnectionGraph 8 0 1 1 False)))))))"

lemmas chain_graph_defs = chain_graph_def new_graph_defs add_edge_def pt_add_edge_def pt_add_use_def
  es_less_defs set_scalar_replaceable_def pt_none_def

lemma chain_graph_wf: "cg_wf chain_graph"
  unfolding chain_graph_def
  by (intro add_edge_wf add_local_var_wf add_java_object_wf new_graph_wf)
    (simp_all add: edge_ok_def cg_frame, simp_all add: new_graph_defs)

lemma chain_graph_heap:
  "cg_next_pidx chain_graph = 5" "phantom_obj chain_graph = 0" "null_obj chain_graph = 1"
  "edges chain_graph 3 = [2]" "edges chain_graph 4 = [3]" "uses chain_graph 3 = [Use 4]"
  "pt_type (cg_heap chain_graph 0) = JavaObject" "pt_type (cg_heap chain_graph 1) = JavaObject"
  "pt_type (cg_heap chain_graph 2) = JavaObject" "pt_type (cg_heap chain_graph 3) = LocalVar"
  "pt_type (cg_heap chain_graph 4) = LocalVar"
  by (simp_all add: chain_graph_defs)

lemma chain_graph_ok: "tidy chain_graph" "setup_ok [0, 1, 2, 3, 4] [0, 1, 2] [] chain_graph" "copy_start chain_graph"
proof -
  have "typed_edges chain_graph" "wl_ok chain_graph" "wl_noac chain_graph"
    by (auto simp: typed_edges_def wl_ok_def wl_noac_def chain_graph_defs)
  with chain_graph_wf show "tidy chain_graph" by (simp add: flow_ok_def tidy_def)
  show "copy_start chain_graph"
    by (auto simp: copy_start_def copies_done_def esc_le_def chain_graph_defs)
  have "phantom_escapes chain_graph"
    "\<forall>p < 5. NoEscape \<le> escape chain_graph p \<and> NoEscape \<le> fields_escape chain_graph p"
    by (auto simp: phantom_escapes_def chain_graph_defs)
  moreover have "set [0, 1, 2, 3, 4] = {..<5::nat}" by auto
  ultimately show "setup_ok [0, 1, 2, 3, 4] [0, 1, 2] [] chain_graph"
    by (simp add: setup_ok_def jobj_ok_def chain_graph_heap chain_graph_heap(8) [simplified])
qed

theorem complete_connection_graph_correct_witness:
  "\<exists>G' ne inits ok.
    complete_connection_graph ideal0 (\<lambda>_. False) [0, 1, 2, 3, 4] [2] [0, 1, 2] [] chain_graph = Some (G', ne, inits, ok) \<and>
    (ok \<longrightarrow> 2 \<in> set (edges G' 4))"
proof -
  from complete_connection_graph_correct [OF chain_graph_ok, of ideal0 "\<lambda>_. False" "[2]"] obtain G' ne inits ok where
    r: "complete_connection_graph ideal0 (\<lambda>_. False) [0, 1, 2, 3, 4] [2] [0, 1, 2] [] chain_graph = Some (G', ne, inits, ok)"
    "cg_wf G'" "grows chain_graph G'" "ok \<longrightarrow> (\<forall>j \<in> set [0, 1, 2]. j \<noteq> null_obj G' \<longrightarrow> refs_closed ideal0 G' j)"
    by blast
  note g = growsD [OF r(3)]
  have e: "2 \<in> set (edges G' 3)" "3 \<in> set (edges G' 4)" using g(9) [of 3] g(9) [of 4] by (simp_all add: chain_graph_heap)
  have t: "\<not> is_Arraycopy G' 3" "\<not> is_Arraycopy G' 4" "\<not> is_JavaObject G' 4" by (simp_all add: g chain_graph_heap)
  have "Use 4 \<in> set (uses G' 3)" using cg_wf_uses [OF r(2)] e(2) t(3) by (simp add: wf_uses_def)
  moreover have "ok \<longrightarrow> refs_closed ideal0 G' 2" using r(4) by (simp add: g(2) chain_graph_heap)
  ultimately have "ok \<longrightarrow> reached G' 2 (Use 4)" using e(1) t(1) unfolding refs_closed_def obligations_def by blast
  with r(1) t(2) show ?thesis by auto
qed

text \<open>
  C6: \<open>add_java_object_edges\<close> always returns; it keeps the graph in order, only adds edges
  and bases and leaves the worklist empty. If it was started from the uses of the object and
  reports no new edge, the graph is as before and the references to the object are closed.
\<close>

theorem add_java_object_edges_correct:
  assumes "flow_ok G" and "jobj_ok G jobj"
  shows "\<exists>G' n. add_java_object_edges I jobj populate G = Some (G', n) \<and> cg_wf G' \<and> grows G G' \<and>
    cg_worklist G' = [] \<and> (n = 0 \<longrightarrow> cg_heap G' = cg_heap G \<and> (populate \<longrightarrow> refs_closed I G' jobj))"
  using add_java_object_edges_result [OF assms, of I populate] strip_eqD(1) flow_okD(1) by blast

theorem add_java_object_edges_correct_witness:
  "\<exists>G' n. add_java_object_edges ideal0 2 True chain_graph = Some (G', n) \<and> (n = 0 \<longrightarrow> refs_closed ideal0 G' 2)"
proof -
  have "jobj_ok chain_graph 2" by (simp add: jobj_ok_def chain_graph_heap)
  from add_java_object_edges_correct [OF tidyD(1) [OF chain_graph_ok(1)] this, of ideal0 True] show ?thesis by blast
qed
end
