(* ===== verification/Graph_Queries.thy ===== *)
theory Graph_Queries
  imports Build_Loop
begin

text \<open>
  What the rest of the compiler asks of the finished graph (\<open>escape.cpp\<close>): the scalar
  replaceable state of the non-escaping objects, whether a node may escape globally,
  which object a node must point to, and the outcome of a pointer comparison.
\<close>

section \<open>Points-to queries\<close>

definition points_to :: "ConnectionGraph \<Rightarrow> pt \<Rightarrow> pt \<Rightarrow> bool" where
  "points_to G p ptn = (if is_JavaObject G p then p = ptn else ptn \<in> set (edges G p))"

definition meet :: "ConnectionGraph \<Rightarrow> pt \<Rightarrow> pt \<Rightarrow> bool" where
  "meet G p ptn =
     (if p = ptn then True
      else if is_JavaObject G ptn then points_to G p ptn
      else if is_JavaObject G p then points_to G ptn p
      else \<exists>e \<in> set (edges G p). e \<in> set (edges G ptn))"

definition java_call :: "ideal \<Rightarrow> node \<Rightarrow> bool" where
  "java_call I n \<longleftrightarrow> is_Allocate I n \<or> is_CallStaticJava I n"

definition non_escaping_allocation :: "ideal \<Rightarrow> ConnectionGraph \<Rightarrow> pt \<Rightarrow> bool" where
  "non_escaping_allocation I G p =
     (if is_JavaObject G p then
        if java_call I (ideal_node G p) then escape G p = NoEscape else False
      else \<forall>e \<in> set (edges G p). is_JavaObject G e \<longrightarrow>
             \<not> (escape G e \<noteq> NoEscape \<or> \<not> java_call I (ideal_node G e)))"

text \<open>The loop of \<open>unique_java_object\<close>; \<open>jobj\<close> is the object found so far.\<close>

fun unique_edge :: "ConnectionGraph \<Rightarrow> pt option \<Rightarrow> pt list \<Rightarrow> pt option" where
  "unique_edge G jobj [] = jobj"
| "unique_edge G jobj (e # es) =
     (if is_JavaObject G e then
        (case jobj of
           None \<Rightarrow> unique_edge G (Some e) es
         | Some j \<Rightarrow> if j \<noteq> e then None else unique_edge G jobj es)
      else unique_edge G jobj es)"

definition unique_java_object :: "ConnectionGraph \<Rightarrow> node \<Rightarrow> pt option" where
  "unique_java_object G n =
     (if n \<ge> cg_nodes_size G then None
      else case ptnode_adr G n of
             None \<Rightarrow> None
           | Some ptn \<Rightarrow> if is_JavaObject G ptn then Some ptn else unique_edge G None (edges G ptn))"

definition not_global_escape :: "ConnectionGraph \<Rightarrow> node \<Rightarrow> bool" where
  "not_global_escape G n =
     (if n \<ge> cg_nodes_size G then False
      else case ptnode_adr G n of
             None \<Rightarrow> False
           | Some ptn \<Rightarrow>
               if escape G ptn \<ge> GlobalEscape then False
               else if is_JavaObject G ptn then True
               else \<not> (\<exists>e \<in> set (edges G ptn). escape G e \<ge> GlobalEscape))"

text \<open>The three answers of \<open>optimize_ptr_compare\<close>: \<open>_pcmp_eq\<close>, \<open>_pcmp_neq\<close> and \<open>NULL\<close>.\<close>

datatype pcmp = pcmp_eq | pcmp_neq | pcmp_unknown

definition known :: "(pt \<Rightarrow> bool) \<Rightarrow> pt option \<Rightarrow> bool" where
  "known P jobj = (case jobj of None \<Rightarrow> False | Some j \<Rightarrow> P j)"

definition con_object :: "ideal \<Rightarrow> ConnectionGraph \<Rightarrow> pt \<Rightarrow> bool" where
  "con_object I G j \<longleftrightarrow> j \<noteq> phantom_obj G \<and> is_Con I (ideal_node G j)"

definition optimize_ptr_compare :: "ideal \<Rightarrow> ConnectionGraph \<Rightarrow> node \<Rightarrow> node \<Rightarrow> pcmp option" where
  "optimize_ptr_compare I G in1 in2 =
     (case (ptnode_adr G in1, ptnode_adr G in2) of
        (Some ptn1, Some ptn2) \<Rightarrow> Some
          (let jobj1 = unique_java_object G in1;
               jobj2 = unique_java_object G in2;
               noescape = (\<lambda>j. escape G j = NoEscape);
               alloc = (\<lambda>j. java_call I (ideal_node G j));
               con = con_object I G;
               set1_has_unknown_ptr = points_to G ptn1 (phantom_obj G);
               set2_has_unknown_ptr = points_to G ptn2 (phantom_obj G);
               set1_has_null_ptr = points_to G ptn1 (null_obj G);
               set2_has_null_ptr = points_to G ptn2 (null_obj G)
           in
           if known noescape jobj1 \<and> jobj1 = jobj2 then pcmp_eq
           else if known (\<lambda>j. noescape j \<and> alloc j \<and> \<not> points_to G ptn2 j) jobj1 then pcmp_neq
           else if known (\<lambda>j. noescape j \<and> alloc j \<and> \<not> points_to G ptn1 j) jobj2 then pcmp_neq
           else if known con jobj1 \<and> known con jobj2 then
             (if ptr_type I (ideal_node G (the jobj1)) = ptr_type I (ideal_node G (the jobj2))
              then pcmp_eq else pcmp_neq)
           else if meet G ptn1 ptn2 then pcmp_unknown
           else if set1_has_unknown_ptr \<and> set2_has_null_ptr \<or> set2_has_unknown_ptr \<and> set1_has_null_ptr
           then pcmp_unknown
           else if \<not> set1_has_unknown_ptr \<and> \<not> set1_has_null_ptr \<and> non_escaping_allocation I G ptn1
           then pcmp_neq
           else if \<not> set2_has_unknown_ptr \<and> \<not> set2_has_null_ptr \<and> non_escaping_allocation I G ptn2
           then pcmp_neq
           else pcmp_unknown)
      | _ \<Rightarrow> None)"

section \<open>Scalar replaceable state\<close>

definition clear_scalar_replaceable :: "pt \<Rightarrow> ConnectionGraph \<Rightarrow> ConnectionGraph" where
  "clear_scalar_replaceable p = upd_pt p (set_scalar_replaceable False)"

text \<open>\<open>Mark all objects\<close>: every other Java object of a list, and \<open>jobj\<close> if there is one.\<close>

definition mark_merged :: "pt \<Rightarrow> pt list \<Rightarrow> ConnectionGraph \<Rightarrow> ConnectionGraph" where
  "mark_merged jobj = fold (\<lambda>ptn G.
     if is_JavaObject G ptn \<and> ptn \<noteq> jobj
     then clear_scalar_replaceable ptn (clear_scalar_replaceable jobj G) else G)"

text \<open>The loop over the uses; the Boolean says that the function returned inside it.\<close>

fun adjust_uses :: "ideal \<Rightarrow> pt \<Rightarrow> pt_use list \<Rightarrow> ConnectionGraph \<Rightarrow> ConnectionGraph \<times> bool" where
  "adjust_uses I jobj [] G = (G, False)"
| "adjust_uses I jobj (u # us) G =
     (let use = get_use_node u in
      if is_Arraycopy G use then adjust_uses I jobj us G
      else if is_Field G use \<and> pt_offset (cg_heap G use) = OffsetBot I then
        (clear_scalar_replaceable jobj G, True)
      else if is_Field G use \<and> length (bases G use) > 1 \<and> null_obj G \<in> set (bases G use) then
        (clear_scalar_replaceable jobj G, True)
      else
        let G1 = mark_merged jobj (edges G use) G
        in if \<not> scalar_replaceable (cg_heap G1 jobj) then (G1, True) else adjust_uses I jobj us G1)"

definition unsafe_raw_access :: "ideal \<Rightarrow> node \<Rightarrow> bool" where
  "unsafe_raw_access I n =
     (case (input I n 1, input I n 2) of
        (Some base, Some address) \<Rightarrow> is_top I base \<and> Opcode I address = Op_CheckCastPP
      | _ \<Rightarrow> False)"

definition has_loadstore_access :: "ideal \<Rightarrow> node \<Rightarrow> bool" where
  "has_loadstore_access I n \<longleftrightarrow>
     (\<exists>u \<in> set (outs I n). is_LoadStore I u \<or> (is_Mem I u \<and> is_mismatched_access I u))"

fun adjust_fields :: "ideal \<Rightarrow> pt \<Rightarrow> pt list \<Rightarrow> ConnectionGraph \<Rightarrow> ConnectionGraph" where
  "adjust_fields I jobj [] G = G"
| "adjust_fields I jobj (f # fs) G =
     (if is_Arraycopy G f then adjust_fields I jobj fs G
      else if pt_offset (cg_heap G f) = OffsetBot I then clear_scalar_replaceable jobj G
      else if unsafe_raw_access I (ideal_node G f) then clear_scalar_replaceable jobj G
      else if has_loadstore_access I (ideal_node G f) then clear_scalar_replaceable jobj G
      else adjust_fields I jobj fs
             (if length (bases G f) > 1 then mark_merged jobj (bases G f) G else G))"

definition adjust_scalar_replaceable_state :: "ideal \<Rightarrow> pt \<Rightarrow> ConnectionGraph \<Rightarrow> ConnectionGraph" where
  "adjust_scalar_replaceable_state I jobj G =
     (case adjust_uses I jobj (uses G jobj) G of
        (G1, True) \<Rightarrow> G1
      | (G1, False) \<Rightarrow> adjust_fields I jobj (edges G1 jobj) G1)"

text \<open>
  Step 3 of \<open>compute_escape\<close>. The result also has the nodes with \<open>_is_non_escaping\<close> set
  or cleared, in the order of the assignments, and \<open>alloc_worklist\<close>.
\<close>

fun adjust_non_escaped ::
  "ideal \<Rightarrow> pt list \<Rightarrow> ConnectionGraph \<Rightarrow> (node \<times> bool) list \<Rightarrow> node list \<Rightarrow>
     ConnectionGraph \<times> (node \<times> bool) list \<times> node list" where
  "adjust_non_escaped I [] G marks allocs = (G, marks, allocs)"
| "adjust_non_escaped I (ptn # ptns) G marks allocs =
     (let noescape = (escape G ptn = NoEscape);
          n = ideal_node G ptn;
          marks' = (if java_call I n then marks @ [(n, noescape)] else marks)
      in if noescape \<and> scalar_replaceable (cg_heap G ptn) then
           let G1 = adjust_scalar_replaceable_state I ptn G
           in adjust_non_escaped I ptns G1 marks'
                (if scalar_replaceable (cg_heap G1 ptn) then allocs @ [n] else allocs)
         else adjust_non_escaped I ptns (clear_scalar_replaceable ptn G) marks' allocs)"

section \<open>Clearing the flag\<close>

abbreviation sr :: "ConnectionGraph \<Rightarrow> pt \<Rightarrow> bool" where
  "sr G p \<equiv> scalar_replaceable (cg_heap G p)"

definition clears :: "ConnectionGraph \<Rightarrow> ConnectionGraph \<Rightarrow> bool" where
  "clears G G' \<longleftrightarrow> G' = G\<lparr>cg_heap := cg_heap G'\<rparr> \<and>
     (\<forall>p. cg_heap G' p = cg_heap G p \<or>
        is_JavaObject G p \<and> cg_heap G' p = set_scalar_replaceable False (cg_heap G p))"

lemma set_scalar_replaceable_idem [simp]:
  "set_scalar_replaceable False (set_scalar_replaceable False n) = set_scalar_replaceable False n"
  by (simp add: set_scalar_replaceable_def and.assoc)

lemma clears_refl [simp]: "clears G G"
  by (simp add: clears_def)

lemma clears_trans:
  assumes a: "clears G G1" and b: "clears G1 G2"
  shows "clears G G2"
proof -
  have "G2 = G\<lparr>cg_heap := cg_heap G2\<rparr>" using a b unfolding clears_def by (cases G; cases G1; cases G2) simp
  moreover have "cg_heap G2 p = cg_heap G p \<or> is_JavaObject G p \<and> cg_heap G2 p = set_scalar_replaceable False (cg_heap G p)" for p
    using a b unfolding clears_def by (metis set_scalar_replaceable_frame(3) set_scalar_replaceable_idem)
  ultimately show ?thesis by (simp add: clears_def)
qed

lemma clear_scalar_replaceable_clears [simp]: "is_JavaObject G p \<Longrightarrow> clears G (clear_scalar_replaceable p G)"
  by (simp add: clears_def clear_scalar_replaceable_def upd_pt_def)

lemma sr_clear [simp]: "sr (clear_scalar_replaceable p G) q \<longleftrightarrow> sr G q \<and> q \<noteq> p"
  by (simp add: clear_scalar_replaceable_def)

lemma clearsD:
  assumes "clears G G'"
  shows "edges G' p = edges G p" "uses G' p = uses G p" "bases G' p = bases G p"
    "pt_type (cg_heap G' p) = pt_type (cg_heap G p)" "pt_offset (cg_heap G' p) = pt_offset (cg_heap G p)"
    "ideal_node G' p = ideal_node G p" "escape G' p = escape G p" "null_obj G' = null_obj G"
    "phantom_obj G' = phantom_obj G" "sr G' p \<Longrightarrow> sr G p" "cg_next_pidx G' = cg_next_pidx G"
proof -
  from assms have h: "cg_heap G' p = cg_heap G p \<or> cg_heap G' p = set_scalar_replaceable False (cg_heap G p)"
    and eq: "G' = G\<lparr>cg_heap := cg_heap G'\<rparr>" by (auto simp: clears_def)
  show "edges G' p = edges G p" "uses G' p = uses G p" "bases G' p = bases G p"
    "pt_type (cg_heap G' p) = pt_type (cg_heap G p)" "pt_offset (cg_heap G' p) = pt_offset (cg_heap G p)"
    "ideal_node G' p = ideal_node G p" "escape G' p = escape G p" "sr G' p \<Longrightarrow> sr G p"
    using h by auto
  show "null_obj G' = null_obj G" "phantom_obj G' = phantom_obj G" "cg_next_pidx G' = cg_next_pidx G"
    by (subst eq, simp)+
qed

lemma mark_merged_correct:
  assumes "is_JavaObject G jobj"
  shows "clears G (mark_merged jobj xs G) \<and>
   (\<forall>p. sr (mark_merged jobj xs G) p \<longleftrightarrow> sr G p \<and>
      \<not> ((\<exists>q \<in> set xs. is_JavaObject G q \<and> q \<noteq> jobj) \<and> (p = jobj \<or> p \<in> set xs \<and> is_JavaObject G p))) \<and>
   ((\<forall>q \<in> set xs. \<not> (is_JavaObject G q \<and> q \<noteq> jobj)) \<longrightarrow> mark_merged jobj xs G = G)"
  using assms
proof (induction xs arbitrary: G)
  case Nil
  then show ?case by (simp add: mark_merged_def)
next
  case (Cons x xs)
  let ?G1 = "if is_JavaObject G x \<and> x \<noteq> jobj then clear_scalar_replaceable x (clear_scalar_replaceable jobj G) else G"
  have m: "mark_merged jobj (x # xs) G = mark_merged jobj xs ?G1" by (simp add: mark_merged_def)
  have c: "clears G ?G1"
    using clears_trans [OF clear_scalar_replaceable_clears [OF Cons.prems] clear_scalar_replaceable_clears, of x]
      clearsD(4) [OF clear_scalar_replaceable_clears [OF Cons.prems]] by simp
  have s1: "sr ?G1 p \<longleftrightarrow> sr G p \<and> \<not> ((is_JavaObject G x \<and> x \<noteq> jobj) \<and> (p = jobj \<or> p = x))" for p by auto
  have t: "pt_type (cg_heap ?G1 p) = pt_type (cg_heap G p)" for p by (rule clearsD(4) [OF c])
  note IH = Cons.IH [of ?G1, unfolded t s1, OF Cons.prems]
  show ?case unfolding m using IH clears_trans [OF c] by auto
qed

section \<open>When an object stays scalar replaceable\<close>

text \<open>
  The six conditions of the comments in \<open>adjust_scalar_replaceable_state\<close>, three on the uses
  of the object and three on its fields.
\<close>

definition use_ok :: "ideal \<Rightarrow> ConnectionGraph \<Rightarrow> pt \<Rightarrow> pt \<Rightarrow> bool" where
  "use_ok I G jobj u \<longleftrightarrow> is_Arraycopy G u \<or>
     \<not> (is_Field G u \<and> pt_offset (cg_heap G u) = OffsetBot I) \<and>
     \<not> (is_Field G u \<and> length (bases G u) > 1 \<and> null_obj G \<in> set (bases G u)) \<and>
     (\<forall>e \<in> set (edges G u). \<not> (is_JavaObject G e \<and> e \<noteq> jobj))"

definition field_ok :: "ideal \<Rightarrow> ConnectionGraph \<Rightarrow> pt \<Rightarrow> pt \<Rightarrow> bool" where
  "field_ok I G jobj f \<longleftrightarrow> is_Arraycopy G f \<or>
     pt_offset (cg_heap G f) \<noteq> OffsetBot I \<and> \<not> unsafe_raw_access I (ideal_node G f) \<and>
     \<not> has_loadstore_access I (ideal_node G f) \<and>
     (length (bases G f) > 1 \<longrightarrow> (\<forall>b \<in> set (bases G f). \<not> (is_JavaObject G b \<and> b \<noteq> jobj)))"

definition replaceable :: "ideal \<Rightarrow> ConnectionGraph \<Rightarrow> pt \<Rightarrow> bool" where
  "replaceable I G jobj \<longleftrightarrow> (\<forall>u \<in> set (uses G jobj). use_ok I G jobj (get_use_node u)) \<and>
     (\<forall>f \<in> set (edges G jobj). field_ok I G jobj f)"

lemma conditions_clears:
  assumes "clears G G'"
  shows "use_ok I G' = use_ok I G" "field_ok I G' = field_ok I G" "replaceable I G' = replaceable I G"
  by (auto simp: fun_eq_iff use_ok_def field_ok_def replaceable_def clearsD [OF assms])

text \<open>The objects whose flag a call for \<open>jobj\<close> can clear.\<close>

definition merged_with :: "ConnectionGraph \<Rightarrow> pt \<Rightarrow> pt \<Rightarrow> bool" where
  "merged_with G jobj p \<longleftrightarrow> is_JavaObject G p \<and>
     ((\<exists>u \<in> set (uses G jobj). \<not> is_Arraycopy G (get_use_node u) \<and> p \<in> set (edges G (get_use_node u))) \<or>
      (\<exists>f \<in> set (edges G jobj). \<not> is_Arraycopy G f \<and> length (bases G f) > 1 \<and> p \<in> set (bases G f)))"

lemma adjust_uses_correct:
  assumes "is_JavaObject G jobj" and "sr G jobj" and "adjust_uses I jobj us G = (G', returned)" and "set us \<subseteq> set (uses G jobj)"
  shows "clears G G' \<and> (returned \<longleftrightarrow> \<not> (\<forall>u \<in> set us. use_ok I G jobj (get_use_node u))) \<and>
    (sr G' jobj \<longleftrightarrow> \<not> returned) \<and> (\<not> returned \<longrightarrow> G' = G) \<and>
    (\<forall>p. p \<noteq> jobj \<and> sr G p \<and> \<not> sr G' p \<longrightarrow> merged_with G jobj p)"
  using assms
proof (induction us)
  case (Cons u us)
  let ?u = "get_use_node u"
  let ?G1 = "mark_merged jobj (edges G ?u) G"
  note m = mark_merged_correct [OF Cons.prems(1), of "edges G ?u"]
  show ?case
  proof (cases "use_ok I G jobj ?u")
    case True
    have "adjust_uses I jobj us G = (G', returned)"
    proof (cases "is_Arraycopy G ?u")
      case False
      with True m have "?G1 = G" by (auto simp: use_ok_def)
      with Cons.prems False True show ?thesis by (auto simp: use_ok_def Let_def split: if_splits)
    qed (use Cons.prems in \<open>simp add: Let_def\<close>)
    with Cons.IH Cons.prems(1,2,4) True show ?thesis by simp
  next
    case False
    show ?thesis
    proof (cases "\<forall>e \<in> set (edges G ?u). \<not> (is_JavaObject G e \<and> e \<noteq> jobj)")
      case True
      with False Cons.prems(3) have "G' = clear_scalar_replaceable jobj G" "returned"
        by (auto simp: use_ok_def Let_def split: if_splits)
      with False Cons.prems(1) show ?thesis by auto
    next
      case merged: False
      show ?thesis
      proof (cases "is_Field G ?u \<and> (pt_offset (cg_heap G ?u) = OffsetBot I \<or>
          length (bases G ?u) > 1 \<and> null_obj G \<in> set (bases G ?u))")
        case True
        with False Cons.prems(3) have "G' = clear_scalar_replaceable jobj G" "returned"
          by (auto simp: use_ok_def Let_def split: if_splits)
        with False Cons.prems(1) show ?thesis by auto
      next
        case other: False
        have "\<not> sr ?G1 jobj" using m merged by blast
        then have "G' = ?G1" "returned"
          using False other Cons.prems(3) by (auto simp: use_ok_def Let_def split: if_splits)
        moreover have "merged_with G jobj p" if "p \<noteq> jobj" "sr G p" "\<not> sr ?G1 p" for p
          using that m False Cons.prems(4) unfolding merged_with_def use_ok_def by auto
        ultimately show ?thesis using m False \<open>\<not> sr ?G1 jobj\<close> by auto
      qed
    qed
  qed
qed simp

lemma adjust_fields_correct:
  assumes "is_JavaObject G jobj" and "set fs \<subseteq> set (edges G jobj)"
  shows "clears G (adjust_fields I jobj fs G) \<and>
    (sr (adjust_fields I jobj fs G) jobj \<longleftrightarrow> sr G jobj \<and> (\<forall>f \<in> set fs. field_ok I G jobj f)) \<and>
    ((\<forall>f \<in> set fs. field_ok I G jobj f) \<longrightarrow> adjust_fields I jobj fs G = G) \<and>
    (\<forall>p. p \<noteq> jobj \<and> sr G p \<and> \<not> sr (adjust_fields I jobj fs G) p \<longrightarrow> merged_with G jobj p)"
  using assms
proof (induction fs arbitrary: G)
  case (Cons f fs)
  show ?case
  proof (cases "is_Arraycopy G f")
    case True
    with Cons.IH [of G] Cons.prems show ?thesis by (simp add: field_ok_def)
  next
    case na: False
    show ?thesis
    proof (cases "pt_offset (cg_heap G f) = OffsetBot I \<or> unsafe_raw_access I (ideal_node G f) \<or>
        has_loadstore_access I (ideal_node G f)")
      case True
      with na Cons.prems(1) show ?thesis by (auto simp: field_ok_def)
    next
      case False
      let ?G1 = "if length (bases G f) > 1 then mark_merged jobj (bases G f) G else G"
      note m = mark_merged_correct [OF Cons.prems(1), of "bases G f"]
      have c: "clears G ?G1" using m by simp
      have step: "adjust_fields I jobj (f # fs) G = adjust_fields I jobj fs ?G1" using na False by auto
      have s1: "sr ?G1 jobj \<longleftrightarrow> sr G jobj \<and> field_ok I G jobj f" "field_ok I G jobj f \<longrightarrow> ?G1 = G"
        using m na False by (auto simp: field_ok_def)
      have "merged_with G jobj p" if "p \<noteq> jobj" "sr G p" "\<not> sr ?G1 p" for p
        using that m na Cons.prems unfolding merged_with_def by (auto split: if_splits)
      moreover have "merged_with ?G1 jobj = merged_with G jobj"
        unfolding merged_with_def clearsD [OF c] ..
      moreover have "set fs \<subseteq> set (edges ?G1 jobj)" using Cons.prems(2) unfolding clearsD(1) [OF c] by simp
      note Cons.IH [OF _ this, unfolded clearsD(4) [OF c], OF Cons.prems(1), unfolded conditions_clears [OF c]]
      ultimately show ?thesis
        unfolding step using s1 clears_trans [OF c] by (metis list.set_intros(1,2) set_ConsD)
    qed
  qed
qed simp

lemma adjust_correct:
  fixes I :: ideal
  assumes j: "is_JavaObject G jobj" and s: "sr G jobj"
  defines "G' \<equiv> adjust_scalar_replaceable_state I jobj G"
  shows "clears G G'" "sr G' jobj \<longleftrightarrow> replaceable I G jobj" "replaceable I G jobj \<Longrightarrow> G' = G"
    "p \<noteq> jobj \<Longrightarrow> sr G p \<Longrightarrow> \<not> sr G' p \<Longrightarrow> merged_with G jobj p"
proof -
  obtain G1 r where a: "adjust_uses I jobj (uses G jobj) G = (G1, r)" by fastforce
  note u = adjust_uses_correct [OF j s a subset_refl]
  have G': "G' = (if r then G1 else adjust_fields I jobj (edges G jobj) G)"
    using u by (cases r) (simp_all add: G'_def adjust_scalar_replaceable_state_def a)
  note f = adjust_fields_correct [OF j subset_refl, of I]
  show "clears G G'" "sr G' jobj \<longleftrightarrow> replaceable I G jobj" "replaceable I G jobj \<Longrightarrow> G' = G"
    "p \<noteq> jobj \<Longrightarrow> sr G p \<Longrightarrow> \<not> sr G' p \<Longrightarrow> merged_with G jobj p"
    using u f s by (cases r; simp add: G' replaceable_def)+
qed

section \<open>Which flags are cleared\<close>

text \<open>
  The other objects that lose the flag with \<open>jobj\<close>: those merged with it at the first use that does not meet its conditions
  (none, if the use fails because of its offset or a null base); if all uses are fine, those that share a field with it, for
  all fields before the first one that is accessed in an unknown way.
\<close>

definition other_objects :: "ConnectionGraph \<Rightarrow> pt \<Rightarrow> pt list \<Rightarrow> pt set" where
  "other_objects G jobj xs = {e \<in> set xs. is_JavaObject G e \<and> e \<noteq> jobj}"

definition unknown_use :: "ideal \<Rightarrow> ConnectionGraph \<Rightarrow> pt \<Rightarrow> bool" where
  "unknown_use I G u \<longleftrightarrow> is_Field G u \<and> (pt_offset (cg_heap G u) = OffsetBot I \<or> length (bases G u) > 1 \<and> null_obj G \<in> set (bases G u))"

definition unknown_field :: "ideal \<Rightarrow> ConnectionGraph \<Rightarrow> pt \<Rightarrow> bool" where
  "unknown_field I G f \<longleftrightarrow> \<not> is_Arraycopy G f \<and>
     (pt_offset (cg_heap G f) = OffsetBot I \<or> unsafe_raw_access I (ideal_node G f) \<or> has_loadstore_access I (ideal_node G f))"

definition use_merged :: "ideal \<Rightarrow> ConnectionGraph \<Rightarrow> pt \<Rightarrow> pt_use list \<Rightarrow> pt set" where
  "use_merged I G jobj us =
     (case List.find (\<lambda>u. \<not> use_ok I G jobj (get_use_node u)) us of
        None \<Rightarrow> {}
      | Some u \<Rightarrow> if unknown_use I G (get_use_node u) then {} else other_objects G jobj (edges G (get_use_node u)))"

definition field_merged :: "ideal \<Rightarrow> ConnectionGraph \<Rightarrow> pt \<Rightarrow> pt list \<Rightarrow> pt set" where
  "field_merged I G jobj fs =
     {p. \<exists>f \<in> set (takeWhile (\<lambda>f. \<not> unknown_field I G f) fs). \<not> is_Arraycopy G f \<and> length (bases G f) > 1 \<and> p \<in> other_objects G jobj (bases G f)}"

definition merged_objects :: "ideal \<Rightarrow> ConnectionGraph \<Rightarrow> pt \<Rightarrow> pt set" where
  "merged_objects I G jobj =
     (if \<forall>u \<in> set (uses G jobj). use_ok I G jobj (get_use_node u) then field_merged I G jobj (edges G jobj)
      else use_merged I G jobj (uses G jobj))"

lemma mark_merged_flags:
  assumes "is_JavaObject G jobj"
  shows "sr (mark_merged jobj xs G) p \<longleftrightarrow> sr G p \<and> p \<notin> other_objects G jobj xs \<and> (p = jobj \<longrightarrow> other_objects G jobj xs = {})"
proof -
  note m = mark_merged_correct [OF assms, of xs]
  have "sr (mark_merged jobj xs G) p \<longleftrightarrow> sr G p \<and>
      \<not> ((\<exists>q \<in> set xs. is_JavaObject G q \<and> q \<noteq> jobj) \<and> (p = jobj \<or> p \<in> set xs \<and> is_JavaObject G p))" using m by blast
  then show ?thesis by (auto simp: other_objects_def)
qed

lemma adjust_uses_flags:
  assumes "is_JavaObject G jobj" "sr G jobj" "adjust_uses I jobj us G = (G', returned)"
  shows "sr G' p \<longleftrightarrow> sr G p \<and> \<not> (returned \<and> p = jobj) \<and> p \<notin> use_merged I G jobj us"
  using assms(3)
proof (induction us)
  case Nil
  then show ?case by (simp add: use_merged_def)
next
  case (Cons u us)
  let ?u = "get_use_node u"
  let ?G1 = "mark_merged jobj (edges G ?u) G"
  note m = mark_merged_correct [OF assms(1), of "edges G ?u"]
  show ?case
  proof (cases "use_ok I G jobj ?u")
    case True
    have "adjust_uses I jobj us G = (G', returned)"
    proof (cases "is_Arraycopy G ?u")
      case False
      with True m have "?G1 = G" by (auto simp: use_ok_def)
      with Cons.prems False True assms(2) show ?thesis by (auto simp: use_ok_def Let_def split: if_splits)
    qed (use Cons.prems in \<open>simp add: Let_def\<close>)
    with Cons.IH True show ?thesis by (simp add: use_merged_def)
  next
    case bad: False
    then have na: "\<not> is_Arraycopy G ?u" by (simp add: use_ok_def)
    show ?thesis
    proof (cases "unknown_use I G ?u")
      case True
      then have "G' = clear_scalar_replaceable jobj G" "returned"
        using Cons.prems na by (auto simp: unknown_use_def Let_def split: if_splits)
      then show ?thesis using bad True by (auto simp: use_merged_def)
    next
      case False
      then have ne: "other_objects G jobj (edges G ?u) \<noteq> {}" using bad na by (auto simp: use_ok_def unknown_use_def other_objects_def)
      then have "\<not> sr ?G1 jobj" using mark_merged_flags [OF assms(1)] by blast
      then have "G' = ?G1" "returned" using False na Cons.prems by (auto simp: unknown_use_def Let_def split: if_splits)
      then show ?thesis using bad False ne mark_merged_flags [OF assms(1), of "edges G ?u" p] by (auto simp: use_merged_def)
    qed
  qed
qed

lemma flags_clears:
  assumes "clears G G'"
  shows "other_objects G' = other_objects G" "unknown_field I G' = unknown_field I G" "field_merged I G' = field_merged I G"
proof -
  show o: "other_objects G' = other_objects G" by (simp add: fun_eq_iff other_objects_def clearsD [OF assms])
  show u: "unknown_field I G' = unknown_field I G" by (simp add: fun_eq_iff unknown_field_def clearsD [OF assms])
  show "field_merged I G' = field_merged I G" by (simp add: fun_eq_iff field_merged_def clearsD [OF assms] o u)
qed

lemma field_merged_Cons:
  "field_merged I G jobj (f # fs) = (if unknown_field I G f then {} else
     (if \<not> is_Arraycopy G f \<and> length (bases G f) > 1 then other_objects G jobj (bases G f) else {}) \<union> field_merged I G jobj fs)"
  by (auto simp: field_merged_def)

lemma adjust_fields_flags:
  assumes "is_JavaObject G jobj"
  shows "sr (adjust_fields I jobj fs G) p \<longleftrightarrow> sr G p \<and> (p = jobj \<longrightarrow> (\<forall>f \<in> set fs. field_ok I G jobj f)) \<and> p \<notin> field_merged I G jobj fs"
  using assms
proof (induction fs arbitrary: G)
  case Nil
  then show ?case by (simp add: field_merged_def)
next
  case (Cons f fs)
  show ?case
  proof (cases "is_Arraycopy G f")
    case True
    then have "field_ok I G jobj f" "\<not> unknown_field I G f" by (simp_all add: field_ok_def unknown_field_def)
    then show ?thesis using True Cons.IH [OF Cons.prems] by (simp add: field_merged_Cons)
  next
    case na: False
    show ?thesis
    proof (cases "unknown_field I G f")
      case True
      then have "adjust_fields I jobj (f # fs) G = clear_scalar_replaceable jobj G" "\<not> field_ok I G jobj f"
        using na by (auto simp: unknown_field_def field_ok_def)
      then show ?thesis using True by (auto simp: field_merged_Cons)
    next
      case False
      let ?o = "if length (bases G f) > 1 then other_objects G jobj (bases G f) else {}"
      let ?G1 = "if length (bases G f) > 1 then mark_merged jobj (bases G f) G else G"
      have c: "clears G ?G1" using mark_merged_correct [OF Cons.prems, of "bases G f"] by simp
      have step: "adjust_fields I jobj (f # fs) G = adjust_fields I jobj fs ?G1" using na False by (auto simp: unknown_field_def)
      have "sr ?G1 p \<longleftrightarrow> sr G p \<and> p \<notin> ?o \<and> (p = jobj \<longrightarrow> ?o = {})" using mark_merged_flags [OF Cons.prems, of "bases G f" p] by simp
      moreover have "?o = {} \<longleftrightarrow> field_ok I G jobj f" using na False by (auto simp: field_ok_def unknown_field_def other_objects_def)
      moreover have "field_merged I G jobj (f # fs) = ?o \<union> field_merged I G jobj fs" using na False by (simp add: field_merged_Cons)
      moreover have "sr (adjust_fields I jobj fs ?G1) p \<longleftrightarrow> sr ?G1 p \<and> (p = jobj \<longrightarrow> (\<forall>f \<in> set fs. field_ok I G jobj f)) \<and> p \<notin> field_merged I G jobj fs"
        using Cons.IH [of ?G1, unfolded clearsD(4) [OF c], OF Cons.prems] unfolding conditions_clears [OF c] flags_clears [OF c] .
      ultimately show ?thesis unfolding step by auto
    qed
  qed
qed

lemma adjust_flags:
  assumes j: "is_JavaObject G jobj" and s: "sr G jobj"
  shows "sr (adjust_scalar_replaceable_state I jobj G) p \<longleftrightarrow>
    sr G p \<and> (p = jobj \<longrightarrow> replaceable I G jobj) \<and> p \<notin> merged_objects I G jobj"
proof -
  obtain G1 r where a: "adjust_uses I jobj (uses G jobj) G = (G1, r)" by fastforce
  note u = adjust_uses_correct [OF j s a subset_refl] and fl = adjust_uses_flags [OF j s a, of p]
  show ?thesis
  proof (cases r)
    case True
    have "jobj \<notin> use_merged I G jobj (uses G jobj)" by (auto simp: use_merged_def other_objects_def split: option.splits)
    then show ?thesis using True u fl by (auto simp: adjust_scalar_replaceable_state_def a merged_objects_def replaceable_def)
  next
    case False
    then show ?thesis using u adjust_fields_flags [OF j, of I "edges G jobj" p]
      by (auto simp: adjust_scalar_replaceable_state_def a merged_objects_def replaceable_def)
  qed
qed

section \<open>The list of scalar replaceable allocations\<close>

text \<open>An object that stays scalar replaceable is merged with no other object.\<close>

lemma replaceable_not_merged:
  assumes wf: "cg_wf G" and p: "is_JavaObject G p" "p \<noteq> null_obj G" "replaceable I G p"
    and q: "is_JavaObject G q" "merged_with G q p"
  shows "p = q"
proof -
  note d = cg_wf_dests [OF wf]
  from q(2) consider
    (use) u where "u \<in> set (uses G q)" "\<not> is_Arraycopy G (get_use_node u)" "p \<in> set (edges G (get_use_node u))"
  | (field) f where "f \<in> set (edges G q)" "\<not> is_Arraycopy G f" "length (bases G f) > 1" "p \<in> set (bases G f)"
    unfolding merged_with_def by blast
  then show ?thesis
  proof cases
    case use
    let ?u = "get_use_node u"
    have "u = Use ?u" by (cases u) (use use(1) d(5) q(1) in \<open>auto simp: wf_base_uses_def\<close>)
    then have "q \<in> set (edges G ?u)" using use(1) d(4) unfolding wf_uses_def by metis
    moreover have "Use ?u \<in> set (uses G p)" using use(3) d(4) p(1) by (auto simp: wf_uses_def)
    then have "use_ok I G p ?u" using p(3) unfolding replaceable_def by force
    ultimately show ?thesis using use(2) q(1) by (auto simp: use_ok_def)
  next
    case field
    have f: "is_Field G f" using field(4) d(2) by (auto simp: wf_range_def)
    then have "f \<in> set (edges G p)" "q \<in> set (bases G f)"
      using field(1,4) d(6) p(1,2) q(1) by (auto simp: wf_fields_def)
    then show ?thesis using p(3) field(2,3) q(1) by (auto simp: replaceable_def field_ok_def)
  qed
qed

text \<open>The allocations collected so far stay replaceable.\<close>

definition allocs_ok :: "ideal \<Rightarrow> ConnectionGraph \<Rightarrow> node list \<Rightarrow> bool" where
  "allocs_ok I G allocs \<longleftrightarrow> (\<forall>n \<in> set allocs. \<exists>p. n = ideal_node G p \<and> is_JavaObject G p \<and> p \<noteq> null_obj G \<and>
     escape G p = NoEscape \<and> sr G p \<and> replaceable I G p)"

lemma allocs_ok_adjust:
  assumes wf: "cg_wf G" and ok: "allocs_ok I G allocs" and q: "is_JavaObject G q" "sr G q"
  shows "allocs_ok I (adjust_scalar_replaceable_state I q G) allocs"
proof -
  let ?G = "adjust_scalar_replaceable_state I q G"
  note a = adjust_correct [OF q, where I = I]
  show ?thesis
    unfolding allocs_ok_def
  proof
    fix n assume "n \<in> set allocs"
    with ok obtain p where p: "n = ideal_node G p" "is_JavaObject G p" "p \<noteq> null_obj G" "escape G p = NoEscape"
      "sr G p" "replaceable I G p" by (auto simp: allocs_ok_def)
    have "sr ?G p"
    proof (rule ccontr)
      assume n: "\<not> sr ?G p"
      show False
      proof (cases "p = q")
        case True
        with n p(6) a(2) show False by simp
      next
        case False
        with a(4) [OF False p(5) n] replaceable_not_merged [OF wf p(2,3,6) q(1)] show False by simp
      qed
    qed
    with p show "\<exists>p. n = ideal_node ?G p \<and> is_JavaObject ?G p \<and> p \<noteq> null_obj ?G \<and> escape ?G p = NoEscape \<and> sr ?G p \<and> replaceable I ?G p"
      unfolding clearsD [OF a(1)] conditions_clears [OF a(1)] by blast
  qed
qed

lemma clears_wf:
  assumes "clears G G'" and wf: "cg_wf G"
  shows "cg_wf G'"
proof -
  from assms(1) have eq: "G' = G\<lparr>cg_heap := cg_heap G'\<rparr>" by (simp add: clears_def)
  have n: "cg_nodes G' = cg_nodes G" by (subst eq) simp
  have h: "cg_heap G' p = cg_heap G p \<or> is_JavaObject G p \<and> cg_heap G' p = set_scalar_replaceable False (cg_heap G p)" for p
    using assms(1) by (simp add: clears_def)
  have f: "pt_is_oop (cg_heap G' p) = pt_is_oop (cg_heap G p)" "has_unknown_ptr (cg_heap G' p) = has_unknown_ptr (cg_heap G p)"
    "pt_has_unknown_base (cg_heap G' p) = pt_has_unknown_base (cg_heap G p)" for p
    using h [of p] by auto
  have r: "cg_heap G p = pt_none \<Longrightarrow> cg_heap G' p = pt_none" for p
    using h [of p] by (auto simp: pt_none_def new_PointsToNode_def)
  have "wf_range G'"
    using cg_wf_range [OF wf] r unfolding wf_range_def clearsD [OF assms(1)] n f by blast
  with wf show ?thesis
    unfolding cg_wf_def wf_specials_def wf_distinct_def wf_uses_def wf_base_uses_def wf_fields_def wf_unknown_def
      clearsD [OF assms(1)] f by blast
qed

lemma allocs_ok_clear:
  assumes "allocs_ok I G allocs" and "\<not> (escape G q = NoEscape \<and> sr G q)" and q: "is_JavaObject G q"
  shows "allocs_ok I (clear_scalar_replaceable q G) allocs"
proof -
  have c: "clears G (clear_scalar_replaceable q G)" using q by simp
  show ?thesis
    using assms unfolding allocs_ok_def clearsD [OF c] conditions_clears [OF c] sr_clear by blast
qed

lemma adjust_non_escaped_result:
  assumes "adjust_non_escaped I ptns G marks allocs = (G', marks', allocs')" and "cg_wf G"
    and "\<forall>p \<in> set ptns. is_JavaObject G p \<and> p \<noteq> null_obj G" and "allocs_ok I G allocs"
  shows "clears G G' \<and> allocs_ok I G' allocs' \<and>
    (\<forall>p \<in> set ptns. sr G' p \<longrightarrow> escape G p = NoEscape \<and> replaceable I G p)"
  using assms
proof (induction ptns arbitrary: G marks allocs)
  case (Cons p ps)
  let ?c = "escape G p = NoEscape \<and> sr G p"
  obtain G1 where G1: "G1 = (if ?c then adjust_scalar_replaceable_state I p G else clear_scalar_replaceable p G)" by blast
  let ?al = "if ?c \<and> sr G1 p then allocs @ [ideal_node G p] else allocs"
  obtain m where step: "adjust_non_escaped I ps G1 m ?al = (G', marks', allocs')"
    using Cons.prems(1) by (auto simp: G1 Let_def split: if_splits)
  have j: "is_JavaObject G p" "p \<noteq> null_obj G" using Cons.prems(3) by auto
  have c: "clears G G1" using adjust_correct(1) [OF j(1)] j(1) by (simp add: G1)
  note d = clearsD(1-9) [OF c] conditions_clears [OF c]
  have keep: "?c \<and> sr G1 p \<Longrightarrow> replaceable I G p" "sr G1 p \<Longrightarrow> ?c"
    using adjust_correct(2) [OF j(1), of I] by (auto simp: G1 split: if_splits)
  have "allocs_ok I G1 allocs"
    using allocs_ok_adjust [OF Cons.prems(2,4) j(1)] allocs_ok_clear [OF Cons.prems(4) _ j(1)]
    by (cases ?c) (simp_all add: G1)
  then have "allocs_ok I G1 ?al"
    using j keep unfolding allocs_ok_def d by auto
  from Cons.IH [OF step clears_wf [OF c Cons.prems(2)] _ this] Cons.prems(3)
  have IH: "clears G1 G'" "allocs_ok I G' allocs'" "\<forall>p \<in> set ps. sr G' p \<longrightarrow> escape G p = NoEscape \<and> replaceable I G p"
    unfolding d by auto
  have "sr G' p \<longrightarrow> escape G p = NoEscape \<and> replaceable I G p"
    using clearsD(10) [OF IH(1), of p] keep by blast
  with IH clears_trans [OF c] show ?case by simp
qed simp

section \<open>Pointer comparison\<close>

text \<open>
  The values a node may have at run time: \<open>rep v j\<close> says that the object \<open>j\<close> of the graph stands for the
  value \<open>v\<close>. The phantom object stands for all values but those of the non-escaping
  allocations.
\<close>

definition pts :: "ConnectionGraph \<Rightarrow> pt \<Rightarrow> pt set" where
  "pts G p = (if is_JavaObject G p then {p} else {e \<in> set (edges G p). is_JavaObject G e})"

definition noescape_alloc :: "ideal \<Rightarrow> ConnectionGraph \<Rightarrow> pt \<Rightarrow> bool" where
  "noescape_alloc I G j \<longleftrightarrow> is_JavaObject G j \<and> escape G j = NoEscape \<and> java_call I (ideal_node G j)"

definition may_be :: "('v \<Rightarrow> pt \<Rightarrow> bool) \<Rightarrow> ConnectionGraph \<Rightarrow> pt \<Rightarrow> 'v \<Rightarrow> bool" where
  "may_be rep G p v \<longleftrightarrow> (\<exists>j \<in> pts G p. rep v j)"

text \<open>
  What makes \<open>rep\<close> a sound reading of the graph at the comparison: a value of a non-escaping allocation is
  represented by that allocation only; an object that does not escape stands for one value, the one of the execution of
  the allocation that the operands come from; and constants denote the same value exactly if their types are the same,
  since the type of a constant is its value.
\<close>

definition sound_rep :: "('v \<Rightarrow> pt \<Rightarrow> bool) \<Rightarrow> ideal \<Rightarrow> ConnectionGraph \<Rightarrow> bool" where
  "sound_rep rep I G \<longleftrightarrow>
     (\<forall>v j k. noescape_alloc I G j \<and> rep v j \<and> rep v k \<longrightarrow> k = j) \<and>
     (\<forall>v w j. escape G j = NoEscape \<and> rep v j \<and> rep w j \<longrightarrow> v = w) \<and>
     (\<forall>v w j k. con_object I G j \<and> con_object I G k \<and> rep v j \<and> rep w k \<longrightarrow>
        (v = w \<longleftrightarrow> ptr_type I (ideal_node G j) = ptr_type I (ideal_node G k)))"

lemma unique_edge_Some:
  "unique_edge G jo es = Some j \<Longrightarrow> set_option jo \<union> {e \<in> set es. is_JavaObject G e} = {j}"
proof (induction es arbitrary: jo)
  case (Cons e es)
  then show ?case by (cases jo) (fastforce split: if_splits)+
qed simp

lemma unique_java_object_pts:
  "unique_java_object G n = Some j \<Longrightarrow> ptnode_adr G n = Some p \<Longrightarrow> pts G p = {j}"
  using unique_edge_Some [of G None "edges G p" j]
  by (auto simp: unique_java_object_def pts_def split: if_splits)

lemma points_to_pts: "is_JavaObject G j \<Longrightarrow> points_to G p j \<longleftrightarrow> j \<in> pts G p"
  by (auto simp: points_to_def pts_def)

lemma meet_pts: "pts G p \<inter> pts G q \<noteq> {} \<Longrightarrow> meet G p q"
  by (auto simp: meet_def pts_def points_to_def split: if_splits)

lemma meet_sym: "meet G p q = meet G q p"
  by (auto simp: meet_def points_to_def)

lemma non_escaping_allocation_pts: "non_escaping_allocation I G p \<Longrightarrow> j \<in> pts G p \<Longrightarrow> noescape_alloc I G j"
  by (auto simp: non_escaping_allocation_def pts_def noescape_alloc_def split: if_splits)

lemma disjoint_neq:
  assumes "sound_rep rep I G" and "noescape_alloc I G j" "rep a j" and "j \<notin> pts G q" "may_be rep G q b"
  shows "a \<noteq> b"
  using assms unfolding sound_rep_def may_be_def by blast

lemma known_iff: "known P jo \<longleftrightarrow> (\<exists>j. jo = Some j \<and> P j)"
  by (cases jo) (simp_all add: known_def)

lemma pts_JavaObject: "j \<in> pts G p \<Longrightarrow> is_JavaObject G j"
  by (auto simp: pts_def split: if_splits)

text \<open>One operand is a known non-escaping allocation the other cannot be.\<close>

lemma known_alloc_neq:
  assumes "sound_rep rep I G" and "ptnode_adr G n = Some p"
    and "known (\<lambda>j. escape G j = NoEscape \<and> java_call I (ideal_node G j) \<and> \<not> points_to G q j) (unique_java_object G n)"
    and "may_be rep G p a" "may_be rep G q b"
  shows "a \<noteq> b"
proof -
  from assms(3) obtain j where j: "unique_java_object G n = Some j" "escape G j = NoEscape"
    "java_call I (ideal_node G j)" "\<not> points_to G q j" by (auto simp: known_iff)
  have p: "pts G p = {j}" using unique_java_object_pts [OF j(1) assms(2)] .
  then have jo: "is_JavaObject G j" using pts_JavaObject by blast
  then have "j \<notin> pts G q" using j(4) by (simp add: points_to_pts)
  moreover have "rep a j" using assms(4) p by (simp add: may_be_def)
  ultimately show ?thesis using disjoint_neq [OF assms(1), of j a q b] jo j assms(5) by (simp add: noescape_alloc_def)
qed

lemma disjoint_allocs_neq:
  assumes "sound_rep rep I G" and "\<not> meet G p q" "non_escaping_allocation I G p" and "may_be rep G p a" "may_be rep G q b"
  shows "a \<noteq> b"
proof -
  from assms(4) obtain j where j: "j \<in> pts G p" "rep a j" by (auto simp: may_be_def)
  with assms(2) meet_pts have "j \<notin> pts G q" by blast
  with disjoint_neq [OF assms(1) non_escaping_allocation_pts [OF assms(3) j(1)] j(2)] assms(5) show ?thesis by blast
qed

text \<open>Both operands are known constants.\<close>

lemma known_con:
  assumes "sound_rep rep I G" and "ptnode_adr G in1 = Some p" and "ptnode_adr G in2 = Some q"
    and "may_be rep G p a" and "may_be rep G q b"
    and "known (con_object I G) (unique_java_object G in1)" "known (con_object I G) (unique_java_object G in2)"
  shows "\<exists>j k. pts G p = {j} \<and> pts G q = {k} \<and> unique_java_object G in1 = Some j \<and> unique_java_object G in2 = Some k \<and>
    con_object I G j \<and> con_object I G k \<and>
    (a = b \<longleftrightarrow> ptr_type I (ideal_node G j) = ptr_type I (ideal_node G k))"
proof -
  from assms(6,7) obtain j k where jk: "unique_java_object G in1 = Some j" "unique_java_object G in2 = Some k"
    "con_object I G j" "con_object I G k" by (auto simp: known_iff)
  then have p: "pts G p = {j}" "pts G q = {k}" using unique_java_object_pts assms(2,3) by blast+
  with assms(4,5) have "rep a j" "rep b k" by (simp_all add: may_be_def)
  with assms(1) jk(3,4) have "a = b \<longleftrightarrow> ptr_type I (ideal_node G j) = ptr_type I (ideal_node G k)"
    unfolding sound_rep_def by blast
  with p jk show ?thesis by blast
qed

text \<open>Both operands are the same object, which does not escape.\<close>

lemma known_same:
  assumes "sound_rep rep I G" and "ptnode_adr G in1 = Some p" and "ptnode_adr G in2 = Some q"
    and "may_be rep G p a" and "may_be rep G q b"
    and "known (\<lambda>j. escape G j = NoEscape) (unique_java_object G in1)" "unique_java_object G in1 = unique_java_object G in2"
  shows "a = b"
proof -
  from assms(6) obtain j where j: "unique_java_object G in1 = Some j" "escape G j = NoEscape" by (auto simp: known_iff)
  then have "pts G p = {j}" "pts G q = {j}" using unique_java_object_pts assms(2,3,7) by metis+
  then have "rep a j" "rep b j" using assms(4,5) by (simp_all add: may_be_def)
  then show ?thesis using assms(1) j(2) unfolding sound_rep_def by blast
qed

section \<open>Properties\<close>

text \<open>
  C24: the folding of pointer comparisons is sound. If the answer is "not equal", no value that the first operand may have
  equals one of the second, and if it is "equal", every value of the first equals every value of the second, whatever
  values the objects of the graph stand for in a run.
\<close>

theorem optimize_ptr_compare_sound:
  assumes "sound_rep rep I G" and "ptnode_adr G in1 = Some p" and "ptnode_adr G in2 = Some q"
    and "may_be rep G p a" and "may_be rep G q b"
  shows "\<exists>r. optimize_ptr_compare I G in1 in2 = Some r \<and> (r = pcmp_neq \<longrightarrow> a \<noteq> b) \<and> (r = pcmp_eq \<longrightarrow> a = b)"
proof -
  let ?u = "unique_java_object G in1" and ?v = "unique_java_object G in2"
  let ?con = "con_object I G"
  note a1 = known_alloc_neq [OF assms(1) assms(2) _ assms(4,5)] and a2 = known_alloc_neq [OF assms(1) assms(3) _ assms(5,4)]
  note d1 = disjoint_allocs_neq [OF assms(1) _ _ assms(4,5)]
  have d2: "\<not> meet G p q \<Longrightarrow> non_escaping_allocation I G q \<Longrightarrow> a \<noteq> b"
    using disjoint_allocs_neq [OF assms(1) _ _ assms(5,4)] meet_sym by blast
  note con = known_con [OF assms]
  note same = known_same [OF assms]
  obtain r where r: "optimize_ptr_compare I G in1 in2 = Some r"
    using assms(2,3) by (simp add: optimize_ptr_compare_def)
  have "r = pcmp_neq \<longrightarrow>
      known (\<lambda>j. escape G j = NoEscape \<and> java_call I (ideal_node G j) \<and> \<not> points_to G q j) ?u \<or>
      known (\<lambda>j. escape G j = NoEscape \<and> java_call I (ideal_node G j) \<and> \<not> points_to G p j) ?v \<or>
      known ?con ?u \<and> known ?con ?v \<and> ptr_type I (ideal_node G (the ?u)) \<noteq> ptr_type I (ideal_node G (the ?v)) \<or>
      \<not> meet G p q \<and> (non_escaping_allocation I G p \<or> non_escaping_allocation I G q)"
    using r assms(2,3) unfolding optimize_ptr_compare_def Let_def by (simp split: if_splits)
  then have "r = pcmp_neq \<longrightarrow> a \<noteq> b" using a1 a2 d1 d2 con by fastforce
  moreover have "r = pcmp_eq \<longrightarrow> known (\<lambda>j. escape G j = NoEscape) ?u \<and> ?u = ?v \<or>
      known ?con ?u \<and> known ?con ?v \<and> ptr_type I (ideal_node G (the ?u)) = ptr_type I (ideal_node G (the ?v))"
    using r assms(2,3) unfolding optimize_ptr_compare_def Let_def by (simp split: if_splits)
  then have "r = pcmp_eq \<longrightarrow> a = b" using same con by fastforce
  ultimately show ?thesis using r by blast
qed

text \<open>The object of \<open>chain_graph\<close> as an allocation.\<close>

definition chain_ideal :: ideal where
  "chain_ideal = ideal0\<lparr>is_Allocate := (\<lambda>n. n = 2)\<rparr>"

lemma chain_graph_query:
  "ptnode_adr chain_graph 3 = Some 3" "ptnode_adr chain_graph (Suc 0) = Some 1" "cg_nodes_size chain_graph = 8"
  "escape chain_graph 2 = NoEscape" "ideal_node chain_graph 2 = 2" "uses chain_graph 2 = [Use 3]"
  "edges chain_graph 2 = []" "sr chain_graph 2" "escape chain_graph (Suc 0) = NoEscape"
  "ideal_node chain_graph (Suc 0) = 1"
  by (simp_all add: chain_graph_defs scalar_replaceable_def)

theorem optimize_ptr_compare_sound_witness:
  "optimize_ptr_compare chain_ideal chain_graph 3 1 = Some pcmp_neq \<and> (2::nat) \<noteq> 1 \<and>
   optimize_ptr_compare chain_ideal chain_graph 3 3 = Some pcmp_eq \<and> {a. may_be (\<lambda>v j. v = j) chain_graph 3 a} = {2}"
proof -
  have con: "\<not> con_object chain_ideal chain_graph j" for j by (simp add: con_object_def chain_ideal_def ideal0_def)
  have s: "sound_rep (\<lambda>v j. v = j) chain_ideal chain_graph" by (auto simp: sound_rep_def con)
  have m: "may_be (\<lambda>v j. v = j) chain_graph 3 2" "may_be (\<lambda>v j. v = j) chain_graph 1 1"
    using chain_graph_heap by (simp_all add: may_be_def pts_def)
  have n: "optimize_ptr_compare chain_ideal chain_graph 3 1 = Some pcmp_neq"
    using chain_graph_heap chain_graph_query
    by (simp add: optimize_ptr_compare_def unique_java_object_def known_def java_call_def chain_ideal_def points_to_def)
  have e: "optimize_ptr_compare chain_ideal chain_graph 3 3 = Some pcmp_eq"
    using chain_graph_heap chain_graph_query by (simp add: optimize_ptr_compare_def unique_java_object_def known_def)
  have "a = 2" if "may_be (\<lambda>v j. v = j) chain_graph 3 a" for a
    using optimize_ptr_compare_sound [OF s _ _ that m(1), of 3 3] e by (simp add: chain_graph_query)
  then have "{a. may_be (\<lambda>v j. v = j) chain_graph 3 a} = {2}" using m(1) by blast
  with n e optimize_ptr_compare_sound [OF s _ _ m, of 3 1] show ?thesis by (simp add: chain_graph_query)
qed

text \<open>
  C25: what \<open>adjust_scalar_replaceable_state\<close> does to the flags. The object keeps its flag exactly if the six conditions of its
  comments hold, and then nothing changes at all. Otherwise it loses the flag, and of the other objects exactly those
  merged with it lose theirs: the objects at the first use that does not meet its conditions, or, when all uses do, the
  objects that share one of its fields with it, up to the first field accessed in an unknown way. Nothing else changes.
\<close>

theorem adjust_scalar_replaceable_state_correct:
  assumes "is_JavaObject G jobj" and "sr G jobj"
  shows "(sr (adjust_scalar_replaceable_state I jobj G) jobj \<longleftrightarrow> replaceable I G jobj) \<and>
    (\<forall>p. p \<noteq> jobj \<longrightarrow> (sr (adjust_scalar_replaceable_state I jobj G) p \<longleftrightarrow> sr G p \<and> p \<notin> merged_objects I G jobj)) \<and>
    (replaceable I G jobj \<longrightarrow> adjust_scalar_replaceable_state I jobj G = G) \<and>
    clears G (adjust_scalar_replaceable_state I jobj G)"
  using adjust_correct(1-3) [OF assms, where I = I] adjust_flags [OF assms, where I = I] by simp

text \<open>A variable 3 that may hold the object 2 or the object 4.\<close>

definition merge_graph :: ConnectionGraph where
  "merge_graph = fst (add_edge 3 4 (fst (add_edge 3 2 (add_java_object 4 NoEscape
     (add_local_var 3 NoEscape (add_java_object 2 NoEscape (new_ConnectionGraph 8 0 1 1 False)))))))"

lemma merge_graph_query:
  "edges merge_graph 3 = [2, 4]" "uses merge_graph 2 = [Use 3]" "sr merge_graph 2" "sr merge_graph 4"
  "pt_type (cg_heap merge_graph 2) = JavaObject" "pt_type (cg_heap merge_graph 3) = LocalVar" "pt_type (cg_heap merge_graph 4) = JavaObject"
  by (simp_all add: merge_graph_def new_graph_defs add_edge_def pt_add_edge_def pt_add_use_def es_less_defs set_scalar_replaceable_def
      pt_none_def scalar_replaceable_def)

theorem adjust_scalar_replaceable_state_correct_witness:
  "\<not> sr (adjust_scalar_replaceable_state chain_ideal 2 merge_graph) 2 \<and> \<not> sr (adjust_scalar_replaceable_state chain_ideal 2 merge_graph) 4"
proof -
  have bad: "\<not> use_ok chain_ideal merge_graph 2 3" and u: "\<not> unknown_use chain_ideal merge_graph 3"
    and o: "other_objects merge_graph 2 [2, 4] = {4}"
    by (auto simp: use_ok_def unknown_use_def other_objects_def merge_graph_query)
  then have "\<not> replaceable chain_ideal merge_graph 2" "4 \<in> merged_objects chain_ideal merge_graph 2"
    by (simp_all add: replaceable_def merged_objects_def use_merged_def merge_graph_query)
  moreover have "(4::nat) \<noteq> 2" by simp
  ultimately show ?thesis
    using adjust_scalar_replaceable_state_correct [OF merge_graph_query(5) merge_graph_query(3), of chain_ideal] by blast
qed

text \<open>
  C26: step 3 of \<open>compute_escape\<close>. Every node on \<open>alloc_worklist\<close> belongs to an object that, at the
  end of the step, does not escape and still is scalar replaceable: adjusting a later object
  never takes the flag of one collected before. An object that keeps its flag meets the
  six conditions, and the step only clears flags.
\<close>

theorem adjust_non_escaped_correct:
  assumes "cg_wf G" and "\<forall>p \<in> set ptns. is_JavaObject G p \<and> p \<noteq> null_obj G"
    and "adjust_non_escaped I ptns G [] [] = (G', marks, allocs)"
  shows "clears G G' \<and>
    (\<forall>n \<in> set allocs. \<exists>p. n = ideal_node G' p \<and> is_JavaObject G' p \<and> escape G' p = NoEscape \<and> sr G' p) \<and>
    (\<forall>p \<in> set ptns. sr G' p \<longrightarrow> escape G p = NoEscape \<and> replaceable I G p)"
  using adjust_non_escaped_result [OF assms(3,1,2)] by (fastforce simp: allocs_ok_def)

theorem adjust_non_escaped_correct_witness:
  "snd (snd (adjust_non_escaped chain_ideal [2] chain_graph [] [])) = [2] \<and>
   sr (fst (adjust_non_escaped chain_ideal [2] chain_graph [] [])) 2"
proof -
  have r: "replaceable chain_ideal chain_graph 2"
    using chain_graph_heap by (simp add: replaceable_def chain_graph_query use_ok_def)
  have a: "adjust_scalar_replaceable_state chain_ideal 2 chain_graph = chain_graph"
    using adjust_correct(3) [of chain_graph 2 chain_ideal] r by (simp add: chain_graph_heap chain_graph_query)
  obtain G' marks allocs where e: "adjust_non_escaped chain_ideal [2] chain_graph [] [] = (G', marks, allocs)"
    by (metis prod.exhaust)
  have "clears chain_graph G'"
    using adjust_non_escaped_correct [OF chain_graph_wf _ e] by (simp add: chain_graph_heap)
  moreover have "G' = chain_graph" "allocs = [2]" using e by (simp_all add: a chain_graph_query Let_def)
  ultimately show ?thesis unfolding e by (simp add: chain_graph_query)
qed

end
