(* ===== verification/Graph_Build.thy ===== *)
theory Graph_Build
  imports Build_Loop
begin

text \<open>
  Construction of the connection graph from the ideal graph (\<open>escape.cpp\<close>): the nodes registered
  on the first pass, the simple edges added afterwards, and the calls.
\<close>

section \<open>Queries\<close>

text \<open>
  What the construction asks of the nodes, types and methods, which are outside the sources. The
  fields of the bytecode analysis (\<open>BCEscapeAnalyzer\<close>) start with \<open>bc_\<close>.
\<close>

record build_ideal = ideal +
  is_Call :: "node \<Rightarrow> bool"
  is_AbstractLock :: "node \<Rightarrow> bool"
  is_ArrayCopy :: "node \<Rightarrow> bool"
  is_Proj :: "node \<Rightarrow> bool"
  is_Store :: "node \<Rightarrow> bool"
  is_BoxLock :: "node \<Rightarrow> bool"
  is_DecodeNarrowPtr :: "node \<Rightarrow> bool"
  is_MergeMem :: "node \<Rightarrow> bool"
  is_Cmp :: "node \<Rightarrow> bool"
  is_MemBarStoreStore :: "node \<Rightarrow> bool"
  is_MemBar :: "node \<Rightarrow> bool"
  has_Precedent :: "node \<Rightarrow> bool"               \<comment> \<open>\<open>req() > MemBarNode::Precedent\<close>\<close>
  is_Lock :: "node \<Rightarrow> bool"
  is_Parm :: "node \<Rightarrow> bool"
  lock_obj :: "node \<Rightarrow> node"                     \<comment> \<open>\<open>as_Lock()->obj_node()\<close>\<close>
  root :: "node option"
  OptimizePtrCompare :: bool
  macro_nodes :: "node list"
  req :: "node \<Rightarrow> nat"
  uncast :: "node \<Rightarrow> node"
  is_uncommon_trap :: "node \<Rightarrow> bool"
  returns_pointer :: "node \<Rightarrow> bool"
  has_result_proj :: "node \<Rightarrow> bool"
  is_boxing_call :: "node \<Rightarrow> bool"              \<comment> \<open>\<open>as_CallStaticJava()->is_boxing_method()\<close>\<close>
  is_result_proj :: "node \<Rightarrow> bool"              \<comment> \<open>\<open>as_Proj()->_con == TypeFunc::Parms\<close>\<close>
  has_make_ptr :: "node \<Rightarrow> bool"                \<comment> \<open>\<open>type(n)->make_ptr() != NULL\<close>\<close>
  phi_has_make_ptr :: "node \<Rightarrow> bool"            \<comment> \<open>\<open>as_Phi()->type()->make_ptr() != NULL\<close>\<close>
  isa_ptr :: "node \<Rightarrow> bool"
  isa_oopptr :: "node \<Rightarrow> bool"
  isa_rawptr :: "node \<Rightarrow> bool"
  make_ptr_isa_oopptr :: "node \<Rightarrow> bool"         \<comment> \<open>\<open>type(n)->make_ptr()->isa_oopptr()\<close>\<close>
  make_ptr_is_notnull_raw :: "node \<Rightarrow> bool"     \<comment> \<open>\<open>type(n)->make_ptr() == TypeRawPtr::NOTNULL\<close>\<close>
  make_ptr_isa_rawptr :: "node \<Rightarrow> bool"
  is_null_con :: "node \<Rightarrow> bool"
  type_offset :: "node \<Rightarrow> int"                  \<comment> \<open>\<open>type(n)->isa_ptr()->offset()\<close>\<close>
  adr_isa_aryptr :: "node \<Rightarrow> bool"
  adr_isa_instptr :: "node \<Rightarrow> bool"
  adr_isa_klassptr :: "node \<Rightarrow> bool"
  ary_may_hold_oops :: "node \<Rightarrow> bool"           \<comment> \<open>the klass of the array is unknown or an array of objects\<close>
  alias_field_type :: "node \<Rightarrow> BasicType option" \<comment> \<open>\<open>alias_type(...)->field()->layout_type()\<close>\<close>
  ary_element_type :: "node \<Rightarrow> BasicType"
  is_reference_type :: "BasicType \<Rightarrow> bool"
  klass_offset_in_bytes :: int
  length_offset_in_bytes :: int
  EliminateAllocationArraySizeLimit :: int
  has_klassptr :: "node \<Rightarrow> bool"                \<comment> \<open>\<open>in(KlassNode)->bottom_type()->isa_klassptr() != NULL\<close>\<close>
  klass_is_array :: "node \<Rightarrow> bool"
  klass_is_thread :: "node \<Rightarrow> bool"
  klass_is_reference :: "node \<Rightarrow> bool"
  klass_is_instance :: "node \<Rightarrow> bool"
  klass_can_be_instantiated :: "node \<Rightarrow> bool"
  klass_has_finalizer :: "node \<Rightarrow> bool"
  has_method :: "node \<Rightarrow> bool"
  is_multianewarray :: "node \<Rightarrow> bool"
  is_boxing_method :: "node \<Rightarrow> bool"
  always_allocates_box :: "node \<Rightarrow> bool"        \<comment> \<open>\<open>_floatValue\<close> or \<open>_doubleValue\<close>\<close>
  domain_isa_ptr :: "node \<Rightarrow> bool list"         \<comment> \<open>the arguments of the call, from \<open>TypeFunc::Parms\<close>\<close>
  domain_isa_oopptr :: "node \<Rightarrow> bool list"
  is_call_to_arraycopystub :: "node \<Rightarrow> bool"
  is_known_leaf :: "node \<Rightarrow> bool"               \<comment> \<open>the names that \<open>process_call_arguments\<close> accepts\<close>
  arg_has_oops :: "node \<Rightarrow> bool"
  copy_validated :: "node \<Rightarrow> bool"
  bc_return_allocated :: "node \<Rightarrow> bool"
  bc_arg_returned :: "node \<Rightarrow> nat \<Rightarrow> bool"
  bc_arg_stack :: "node \<Rightarrow> nat \<Rightarrow> bool"
  bc_arg_local :: "node \<Rightarrow> nat \<Rightarrow> bool"
  bc_return_local :: "node \<Rightarrow> bool"
  gc_add_to_con_graph :: "node \<Rightarrow> bool"
  gc_add_final_edges :: "node \<Rightarrow> bool"
  gc_has_out_with_unsafe_object :: "node \<Rightarrow> bool"

text \<open>The input positions that the node classes declare.\<close>

definition Parms :: nat where "Parms = 5"
definition mem_Address :: nat where "mem_Address = 2"
definition mem_ValueIn :: nat where "mem_ValueIn = 3"
definition addp_Base :: nat where "addp_Base = 1"
definition addp_Address :: nat where "addp_Address = 2"
definition addp_Offset :: nat where "addp_Offset = 3"
definition cmove_IfFalse :: nat where "cmove_IfFalse = 2"

definition is_AddP :: "'a ideal_scheme \<Rightarrow> node \<Rightarrow> bool" where
  "is_AddP B n \<longleftrightarrow> Opcode B n = Op_AddP"

section \<open>Addresses\<close>

text \<open>\<open>in(Address)\<close> is the result of an allocation.\<close>

definition is_raw_allocation :: "build_ideal \<Rightarrow> node \<Rightarrow> bool" where
  "is_raw_allocation B adr \<longleftrightarrow>
     (case input B adr addp_Address of
        Some p \<Rightarrow> is_Proj B p \<and> (case input B p 0 of Some a \<Rightarrow> is_Allocate B a | None \<Rightarrow> False)
      | None \<Rightarrow> False)"

definition address_offset :: "build_ideal \<Rightarrow> node \<Rightarrow> int option" where
  "address_offset B adr =
     (if is_AddP B adr \<and> \<not> isa_oopptr B adr \<and> is_raw_allocation B adr then
        (case input B adr addp_Offset of
           None \<Rightarrow> None
         | Some off \<Rightarrow>
             let offs = signed_take_bit 31 (find_intptr_t_con B off (OffsetBot B))
             in if offs \<noteq> OffsetBot B \<or>
                   (case input B adr addp_Address of
                      Some p \<Rightarrow> (case input B p 0 of Some a \<Rightarrow> is_AllocateArray B a | None \<Rightarrow> False)
                    | None \<Rightarrow> False)
                then Some offs else None)
      else if isa_ptr B adr then Some (type_offset B adr)
      else None)"

partial_function (option) skip_addp :: "build_ideal \<Rightarrow> node \<Rightarrow> node option" where
  "skip_addp B base =
     (if is_AddP B base then
        (case (input B base addp_Base, input B base addp_Address) of
           (Some b, Some a) \<Rightarrow> if is_top B (uncast B b) then skip_addp B a else None
         | _ \<Rightarrow> None)
      else Some base)"

definition base_sane :: "build_ideal \<Rightarrow> node \<Rightarrow> bool" where
  "base_sane B u \<longleftrightarrow> Opcode B u \<in> {Op_ConP, Op_ThreadLocal, Op_CastX2P} \<or> is_DecodeNarrowPtr B u \<or>
     (is_Mem B u \<and> is_rawptr_type B u) \<or> (is_Proj B u \<and> (case input B u 0 of Some a \<Rightarrow> is_Allocate B a | None \<Rightarrow> False))"

definition get_addp_base :: "build_ideal \<Rightarrow> node \<Rightarrow> node option" where
  "get_addp_base B addp =
     (case (input B addp addp_Base, input B addp addp_Address) of
        (Some base, Some address) \<Rightarrow>
          if is_top B (uncast B base) then
            (case skip_addp B address of
               None \<Rightarrow> None
             | Some base1 \<Rightarrow>
                 (case input B base1 1 of
                    Some x \<Rightarrow>
                      if Opcode B base1 = Op_CheckCastPP \<and> is_rawptr_type B base1 \<and> isa_oopptr B x then Some x
                      else if base_sane B (uncast B base1) then Some base1 else None
                  | None \<Rightarrow> if base_sane B (uncast B base1) then Some base1 else None))
          else Some base
      | _ \<Rightarrow> None)"

definition find_second_addp :: "build_ideal \<Rightarrow> node \<Rightarrow> node option \<Rightarrow> node option" where
  "find_second_addp B addp n =
     (case outs B addp of
        [addp2] \<Rightarrow> if is_AddP B addp2 \<and> input B addp2 addp_Base = n \<and> input B addp2 addp_Address = Some addp then Some addp2 else None
      | _ \<Rightarrow> None)"

definition has_oop_access :: "build_ideal \<Rightarrow> node \<Rightarrow> bool" where
  "has_oop_access B n \<longleftrightarrow>
     (\<exists>u \<in> set (outs B n). Opcode B u \<in> {Op_StoreP, Op_LoadP, Op_StoreN, Op_LoadN, Op_GetAndSetP, Op_GetAndSetN, Op_CompareAndExchangeP,
        Op_CompareAndExchangeN, Op_CompareAndSwapP, Op_CompareAndSwapN, Op_WeakCompareAndSwapP, Op_WeakCompareAndSwapN}) \<or>
     gc_has_out_with_unsafe_object B n"

text \<open>The first result is \<open>is_oop_field\<close>, the second \<open>*unsafe\<close>.\<close>

definition field_basic_type :: "build_ideal \<Rightarrow> node \<Rightarrow> int \<Rightarrow> BasicType \<times> bool" where
  "field_basic_type B n offset =
     (let second = find_second_addp B n (input B n addp_Base)
      in if offset = OffsetBot B then
           (if (\<not> adr_isa_aryptr B n \<or> ary_may_hold_oops B n) \<and> second = None then T_OBJECT else T_INT, False)
         else if offset \<noteq> klass_offset_in_bytes B then
           if adr_isa_instptr B n then
             (case alias_field_type B n of
                Some bt \<Rightarrow> (bt, False)
              | None \<Rightarrow> if has_oop_access B n then (T_OBJECT, True) else (T_INT, False))
           else if adr_isa_aryptr B n then
             (if offset = length_offset_in_bytes B then T_INT
              else if second \<noteq> None then T_INT
              else ary_element_type B n, False)
           else if is_rawptr_type B n \<or> adr_isa_klassptr B n then
             (if has_oop_access B n then T_OBJECT else T_INT, False)
           else (T_INT, False)
         else (T_INT, False))"

definition is_oop_field :: "build_ideal \<Rightarrow> node \<Rightarrow> int \<Rightarrow> bool \<times> bool" where
  "is_oop_field B n offset =
     (case field_basic_type B n offset of (bt, unsafe) \<Rightarrow> (is_reference_type B bt \<or> bt = T_NARROWOOP, unsafe))"

text \<open>
  \<open>G1BarrierSetC2::escape_add_to_con_graph\<close>: the stores of the barriers into the buffers of a thread. The
  offsets of the two buffers are arguments.
\<close>

definition g1_escape_add_to_con_graph :: "build_ideal \<Rightarrow> int \<Rightarrow> int \<Rightarrow> node \<Rightarrow> bool" where
  "g1_escape_add_to_con_graph B satb_offset dirty_offset n \<longleftrightarrow>
     Opcode B n = Op_StoreP \<and>
     (case input B n mem_Address of
        Some adr \<Rightarrow>
          isa_rawptr B adr \<and> is_AddP B adr \<and>
          (case get_addp_base B adr of
             Some base \<Rightarrow>
               Opcode B base = Op_LoadP \<and>
               (case input B base mem_Address of
                  Some adr2 \<Rightarrow>
                    is_AddP B adr2 \<and>
                    (case (get_addp_base B adr2, input B adr2 addp_Offset) of
                       (Some tls, Some off) \<Rightarrow>
                         Opcode B tls = Op_ThreadLocal \<and>
                         (let offs = signed_take_bit 31 (find_intptr_t_con B off (OffsetBot B))
                          in offs = satb_offset \<or> offs = dirty_offset)
                     | _ \<Rightarrow> False)
                | None \<Rightarrow> False)
           | None \<Rightarrow> False)
      | None \<Rightarrow> False)"

section \<open>Calls that return objects\<close>

definition allocate_array_state :: "build_ideal \<Rightarrow> node \<Rightarrow> EscapeState \<times> bool" where
  "allocate_array_state B call =
     (if \<not> klass_is_array B call then (GlobalEscape, True)
      else let len = find_int_con B (alloc_in B call ALength) (-1)
           in (NoEscape, \<not> (len < 0 \<or> len > EliminateAllocationArraySizeLimit B)))"

definition allocate_instance_state :: "build_ideal \<Rightarrow> node \<Rightarrow> EscapeState" where
  "allocate_instance_state B call =
     (if klass_is_thread B call \<or> klass_is_reference B call \<or> \<not> klass_is_instance B call \<or>
         \<not> klass_can_be_instantiated B call \<or> klass_has_finalizer B call then GlobalEscape
      else NoEscape)"

definition not_scalar_replaceable :: "node \<Rightarrow> ConnectionGraph \<Rightarrow> ConnectionGraph" where
  "not_scalar_replaceable n G =
     (case ptnode_adr G n of None \<Rightarrow> G | Some p \<Rightarrow> upd_pt p (set_scalar_replaceable False) G)"

definition returns_argument :: "build_ideal \<Rightarrow> node \<Rightarrow> bool" where
  "returns_argument B call \<longleftrightarrow> (\<exists>k < length (domain_isa_ptr B call). domain_isa_ptr B call ! k \<and> bc_arg_returned B call k)"

definition add_call_node :: "build_ideal \<Rightarrow> node \<Rightarrow> ConnectionGraph \<Rightarrow> ConnectionGraph option" where
  "add_call_node B call G =
     (if \<not> returns_pointer B call then None
      else if is_Allocate B call \<and> \<not> has_klassptr B call then None
      else if is_Allocate B call then
        let (es, sr) = (if is_AllocateArray B call then allocate_array_state B call else (allocate_instance_state B call, True));
            G1 = add_java_object call es G
        in Some (if sr then G1 else not_scalar_replaceable call G1)
      else if is_CallStaticJava B call then
        if \<not> has_method B call then
          (if is_multianewarray B call then Some (not_scalar_replaceable call (add_java_object call NoEscape G)) else None)
        else if is_boxing_method B call then
          Some (add_java_object call (if always_allocates_box B call then NoEscape else GlobalEscape) G)
        else if bc_return_allocated B call then Some (not_scalar_replaceable call (add_java_object call NoEscape G))
        else if returns_argument B call then Some (add_local_var call ArgEscape G)
        else Some (map_ideal_node call (phantom_obj G) G)
      else if Opcode B call = Op_CallDynamicJava then Some (map_ideal_node call (phantom_obj G) G)
      else None)"

section \<open>The first pass\<close>

record build_state =
  bs_graph :: ConnectionGraph
  bs_delayed :: "node list"
  bs_recorded :: "node list"                    \<comment> \<open>\<open>record_for_optimizer\<close>\<close>

definition push_unique :: "node \<Rightarrow> node list \<Rightarrow> node list" where
  "push_unique n ns = (if n \<in> set ns then ns else ns @ [n])"

definition delay :: "node \<Rightarrow> build_state \<Rightarrow> build_state" where
  "delay n s = s\<lparr>bs_delayed := push_unique n (bs_delayed s)\<rparr>"

definition on_graph :: "(ConnectionGraph \<Rightarrow> ConnectionGraph) \<Rightarrow> build_state \<Rightarrow> build_state" where
  "on_graph f s = s\<lparr>bs_graph := f (bs_graph s)\<rparr>"

definition record_node :: "node \<Rightarrow> build_state \<Rightarrow> build_state" where
  "record_node n s = s\<lparr>bs_recorded := push_unique n (bs_recorded s)\<rparr>"

definition local_var_and_edge :: "node \<Rightarrow> EscapeState \<Rightarrow> node option \<Rightarrow> build_state \<Rightarrow> build_state option" where
  "local_var_and_edge n es to s =
     (case to of
        None \<Rightarrow> None
      | Some t \<Rightarrow>
          map_option (\<lambda>(G, d). s\<lparr>bs_graph := G, bs_delayed := d\<rparr>) (add_local_var_and_edge n es t True (bs_delayed s) (bs_graph s)))"

definition add_objload_to_connection_graph :: "build_ideal \<Rightarrow> node \<Rightarrow> build_state \<Rightarrow> build_state option" where
  "add_objload_to_connection_graph B n s =
     (if \<not> has_make_ptr B n then Some s
      else
        (case input B n mem_Address of
           None \<Rightarrow> None
         | Some adr \<Rightarrow>
             if (if \<not> is_AddP B adr then isa_rawptr B adr
                 else (case ptnode_adr (bs_graph s) adr of
                         None \<Rightarrow> True
                       | Some p \<Rightarrow> is_Field (bs_graph s) p \<and> pt_is_oop (cg_heap (bs_graph s) p)))
             then local_var_and_edge n NoEscape (Some adr) s else None))"

definition is_oop_store_address :: "build_ideal \<Rightarrow> opcode \<Rightarrow> node \<Rightarrow> bool" where
  "is_oop_store_address B opcode adr \<longleftrightarrow>
     make_ptr_isa_oopptr B adr \<or>
     (opcode \<in> {Op_StoreP, Op_StoreN, Op_StoreNKlass} \<and> make_ptr_is_notnull_raw B adr \<and> is_raw_allocation B adr)"

definition add_to_congraph_unsafe_access :: "build_ideal \<Rightarrow> node \<Rightarrow> opcode \<Rightarrow> build_state \<Rightarrow> build_state option" where
  "add_to_congraph_unsafe_access B n opcode s =
     (case input B n mem_Address of
        None \<Rightarrow> None
      | Some adr \<Rightarrow>
          if \<not> has_make_ptr B adr then Some s
          else if is_oop_store_address B opcode adr then
            (if is_AddP B adr \<and>
                (make_ptr_is_notnull_raw B adr \<longrightarrow>
                   (case input B adr addp_Offset of Some off \<Rightarrow> signed_take_bit 31 (find_intptr_t_con B off (OffsetBot B)) \<noteq> OffsetBot B | None \<Rightarrow> False))
             then Some (delay n s) else None)
          else if is_BoxLock B adr then Some s
          else if opcode = Op_StoreP \<and> make_ptr_isa_rawptr B adr then Some (delay n s)
          else None)"

definition add_call_to_connection_graph :: "build_ideal \<Rightarrow> node \<Rightarrow> build_state \<Rightarrow> build_state option" where
  "add_call_to_connection_graph B n s =
     (if is_AbstractLock B n then Some (record_node n s)
      else if is_Allocate B n then map_option (\<lambda>G. record_node n (s\<lparr>bs_graph := G\<rparr>)) (add_call_node B n (bs_graph s))
      else if is_CallStaticJava B n \<and> is_uncommon_trap B n then Some s
      else
        let s1 = delay n s
        in if (returns_pointer B n \<and> has_result_proj B n) \<or> (is_CallStaticJava B n \<and> is_boxing_call B n) then
             map_option (\<lambda>G. s1\<lparr>bs_graph := G\<rparr>) (add_call_node B n (bs_graph s1))
           else Some s1)"

definition add_addp_to_connection_graph :: "build_ideal \<Rightarrow> node \<Rightarrow> build_state \<Rightarrow> build_state option" where
  "add_addp_to_connection_graph B n s =
     (case (get_addp_base B n, address_offset B n) of
        (Some base, Some offset) \<Rightarrow>
          let ptn_base = ptnode_adr (bs_graph s) base;
              (is_oop, unsafe) = is_oop_field B n offset;
              s1 = on_graph (add_field n NoEscape offset is_oop unsafe) s
          in (case ptn_base of
                None \<Rightarrow> Some (delay n s1)
              | Some b \<Rightarrow>
                  (case ptnode_adr (bs_graph s1) n of
                     None \<Rightarrow> None
                   | Some f \<Rightarrow> Some (on_graph (\<lambda>G. fst (add_base f b G)) s1)))
      | _ \<Rightarrow> None)"

definition add_node_to_connection_graph :: "build_ideal \<Rightarrow> node \<Rightarrow> build_state \<Rightarrow> build_state option" where
  "add_node_to_connection_graph B n s =
     (let G = bs_graph s; opcode = Opcode B n
      in if cg_verify G then None
         else if ptnode_adr G n \<noteq> None then Some s
         else if gc_add_to_con_graph B n then Some s
         else if is_Call B n then add_call_to_connection_graph B n s
         else if opcode = Op_AddP then add_addp_to_connection_graph B n s
         else if opcode \<in> {Op_CastX2P, Op_CreateEx, Op_LoadKlass, Op_LoadNKlass, Op_Parm, Op_PartialSubtypeCheck} then
           Some (on_graph (map_ideal_node n (phantom_obj G)) s)
         else if opcode \<in> {Op_CastPP, Op_CheckCastPP, Op_EncodeP, Op_DecodeN, Op_EncodePKlass, Op_DecodeNKlass} then
           local_var_and_edge n NoEscape (input B n 1) s
         else if opcode = Op_CMoveP then Some (delay n (on_graph (add_local_var n NoEscape) s))
         else if opcode \<in> {Op_ConP, Op_ConN, Op_ConNKlass} then
           Some (on_graph (add_java_object n (if is_null_con B n then NoEscape else GlobalEscape)) s)
         else if opcode \<in> {Op_LoadP, Op_LoadN, Op_LoadPLocked} then add_objload_to_connection_graph B n s
         else if opcode = Op_Phi then
           Some (if phi_has_make_ptr B n then delay n (on_graph (add_local_var n NoEscape) s) else s)
         else if opcode = Op_Proj then
           (case input B n 0 of
              None \<Rightarrow> None
            | Some c \<Rightarrow> if is_result_proj B n \<and> is_Call B c \<and> returns_pointer B c then local_var_and_edge n NoEscape (Some c) s else Some s)
         else if opcode \<in> {Op_Rethrow, Op_Return} then
           (if req B n > Parms then
              (case input B n Parms of
                 None \<Rightarrow> None
               | Some v \<Rightarrow> if isa_oopptr B v then local_var_and_edge n GlobalEscape (Some v) s else Some s)
            else Some s)
         else if opcode \<in> {Op_CompareAndExchangeP, Op_CompareAndExchangeN, Op_GetAndSetP, Op_GetAndSetN} then
           Option.bind (add_objload_to_connection_graph B n s) (add_to_congraph_unsafe_access B n opcode)
         else if opcode \<in> {Op_StoreP, Op_StoreN, Op_StoreNKlass, Op_StorePConditional, Op_WeakCompareAndSwapP, Op_WeakCompareAndSwapN,
                           Op_CompareAndSwapP, Op_CompareAndSwapN} then
           add_to_congraph_unsafe_access B n opcode s
         else if opcode \<in> {Op_AryEq, Op_HasNegatives, Op_StrComp, Op_StrEquals, Op_StrIndexOf, Op_StrIndexOfChar, Op_StrInflatedCopy,
                           Op_StrCompressedCopy, Op_EncodeISOArray} then
           Some (delay n (on_graph (add_local_var n ArgEscape) s))
         else if opcode = Op_ThreadLocal then Some (on_graph (add_java_object n ArgEscape) s)
         else Some s)"

section \<open>Arguments of calls\<close>

definition object_of :: "build_ideal \<Rightarrow> node \<Rightarrow> node option" where
  "object_of B arg = (if is_AddP B arg then get_addp_base B arg else Some arg)"

definition registered_object :: "build_ideal \<Rightarrow> ConnectionGraph \<Rightarrow> node \<Rightarrow> pt option" where
  "registered_object B G arg = Option.bind (object_of B arg) (ptnode_adr G)"

text \<open>
  An argument of a stub: the graph and whether the source of a copy has oops. \<open>k\<close> counts from \<open>TypeFunc::Parms\<close>.
\<close>

definition stub_arg :: "build_ideal \<Rightarrow> node \<Rightarrow> bool \<Rightarrow> nat \<Rightarrow> bool \<times> ConnectionGraph \<Rightarrow> (bool \<times> ConnectionGraph) option" where
  "stub_arg B call is_arraycopy k sG =
     (case sG of (src_has_oops, G) \<Rightarrow>
        (case input B call (Parms + k) of
           None \<Rightarrow> Some (src_has_oops, G)
         | Some arg \<Rightarrow>
             if is_top B arg \<or> \<not> domain_isa_ptr B call ! k \<or> \<not> isa_ptr B arg then Some (src_has_oops, G)
             else
               (case registered_object B G arg of
                  None \<Rightarrow> None
                | Some arg_ptn \<Rightarrow>
                    let arg_esc = escape G arg_ptn
                    in if is_arraycopy \<or> arg_esc < ArgEscape then
                         let has_oops = arg_has_oops B arg;
                             src = (if k = 0 then has_oops else src_has_oops);
                             dest = (src \<and> is_arraycopy \<and> has_oops \<and> 0 < k);
                             es = (if is_ArrayCopy B call \<and> copy_validated B call then NoEscape else ArgEscape);
                             G1 = set_escape_state arg_ptn es G
                         in if \<not> (is_arraycopy \<or> is_known_leaf B call) then None
                            else if ArgEscape \<le> arg_esc \<and> \<not> dest then Some (src, G)
                            else if dest then
                              (case Option.bind (input B call Parms) (registered_object B G1) of
                                 None \<Rightarrow> None
                               | Some src_ptn \<Rightarrow>
                                   Some (src, if arg_ptn \<noteq> src_ptn then add_arraycopy call es src_ptn arg_ptn G1 else G1))
                            else Some (src, G1)
                       else Some (src_has_oops, G))))"

fun stub_args :: "build_ideal \<Rightarrow> node \<Rightarrow> bool \<Rightarrow> nat list \<Rightarrow> bool \<times> ConnectionGraph \<Rightarrow> (bool \<times> ConnectionGraph) option" where
  "stub_args B call is_arraycopy [] sG = Some sG"
| "stub_args B call is_arraycopy (k # ks) sG =
     (case stub_arg B call is_arraycopy k sG of None \<Rightarrow> None | Some sG1 \<Rightarrow> stub_args B call is_arraycopy ks sG1)"

definition java_arg_escape :: "build_ideal \<Rightarrow> node \<Rightarrow> nat \<Rightarrow> pt \<Rightarrow> ConnectionGraph \<Rightarrow> ConnectionGraph" where
  "java_arg_escape B call k p G =
     (if escape G p < GlobalEscape then
        if \<not> bc_arg_stack B call k then set_escape_state p GlobalEscape G
        else
          let G1 = set_escape_state p ArgEscape G
          in if \<not> bc_arg_local B call k then set_fields_escape_state p GlobalEscape G1 else G1
      else G)"

definition java_arg :: "build_ideal \<Rightarrow> node \<Rightarrow> nat \<Rightarrow> ConnectionGraph \<Rightarrow> ConnectionGraph option" where
  "java_arg B call k G =
     (case input B call (Parms + k) of
        None \<Rightarrow> None
      | Some arg \<Rightarrow>
          let returned = (domain_isa_ptr B call ! k \<and> bc_arg_returned B call k)
          in case (if returned then
                     (case ptnode_adr G call of
                        None \<Rightarrow> Some G
                      | Some call_ptn \<Rightarrow>
                          (case ptnode_adr G arg of
                             Some arg_ptn \<Rightarrow> if is_LocalVar G call_ptn then Some (fst (add_edge call_ptn arg_ptn G)) else None
                           | None \<Rightarrow> None))
                   else Some G) of
               None \<Rightarrow> None
             | Some G1 \<Rightarrow>
                 if domain_isa_oopptr B call ! k then map_option (\<lambda>p. java_arg_escape B call k p G1) (ptnode_adr G1 arg)
                 else Some G1)"

fun java_args :: "build_ideal \<Rightarrow> node \<Rightarrow> nat list \<Rightarrow> ConnectionGraph \<Rightarrow> ConnectionGraph option" where
  "java_args B call [] G = Some G"
| "java_args B call (k # ks) G = (case java_arg B call k G of None \<Rightarrow> None | Some G1 \<Rightarrow> java_args B call ks G1)"

fun unknown_args :: "build_ideal \<Rightarrow> node \<Rightarrow> nat list \<Rightarrow> ConnectionGraph \<Rightarrow> ConnectionGraph option" where
  "unknown_args B call [] G = Some G"
| "unknown_args B call (k # ks) G =
     (if domain_isa_oopptr B call ! k then
        (case Option.bind (input B call (Parms + k)) (registered_object B G) of
           None \<Rightarrow> None
         | Some p \<Rightarrow> unknown_args B call ks (set_escape_state p GlobalEscape G))
      else unknown_args B call ks G)"

definition arg_positions :: "build_ideal \<Rightarrow> node \<Rightarrow> nat list" where
  "arg_positions B call = [0..<length (domain_isa_ptr B call)]"

definition analyzed_call :: "build_ideal \<Rightarrow> node \<Rightarrow> ConnectionGraph \<Rightarrow> ConnectionGraph option" where
  "analyzed_call B call G =
     (case java_args B call (arg_positions B call) G of
        None \<Rightarrow> None
      | Some G1 \<Rightarrow>
          (case ptnode_adr G1 call of
             Some p \<Rightarrow>
               if is_LocalVar G1 p then
                 (if edges G1 p = [] then None
                  else Some (if bc_return_local B call then G1 else fst (add_edge p (phantom_obj G1) G1)))
               else Some G1
           | None \<Rightarrow> Some G1))"

definition process_call_arguments :: "build_ideal \<Rightarrow> node \<Rightarrow> ConnectionGraph \<Rightarrow> ConnectionGraph option" where
  "process_call_arguments B call G =
     (let opcode = Opcode B call
      in if is_Allocate B call \<or> is_AbstractLock B call then None
         else if opcode \<in> {Op_ArrayCopy, Op_CallLeafNoFP, Op_CallLeaf} then
           let is_arraycopy = (opcode = Op_ArrayCopy \<or> (opcode = Op_CallLeafNoFP \<and> is_call_to_arraycopystub B call))
           in map_option snd (stub_args B call is_arraycopy (arg_positions B call) (False, G))
         else if opcode = Op_CallStaticJava \<and> is_uncommon_trap B call then None
         else if opcode = Op_CallStaticJava \<and> has_method B call \<and> is_boxing_method B call then Some G
         else if opcode = Op_CallStaticJava \<and> has_method B call then analyzed_call B call G
         else unknown_args B call (arg_positions B call) G)"

section \<open>Final edges\<close>

definition edge_to :: "node \<Rightarrow> EscapeState \<Rightarrow> node option \<Rightarrow> ConnectionGraph \<Rightarrow> ConnectionGraph option" where
  "edge_to n es to G =
     (case to of None \<Rightarrow> None | Some t \<Rightarrow> map_option fst (add_local_var_and_edge n es t False [] G))"

fun input_edges :: "build_ideal \<Rightarrow> node \<Rightarrow> pt \<Rightarrow> nat list \<Rightarrow> ConnectionGraph \<Rightarrow> ConnectionGraph option" where
  "input_edges B n p [] G = Some G"
| "input_edges B n p (i # is) G =
     (case input B n i of
        None \<Rightarrow> input_edges B n p is G
      | Some x \<Rightarrow>
          if is_top B (uncast B x) \<or> uncast B x = n then input_edges B n p is G
          else
            (case ptnode_adr G x of
               None \<Rightarrow> None
             | Some q \<Rightarrow> input_edges B n p is (fst (add_edge p q G))))"

fun intrinsic_edges :: "build_ideal \<Rightarrow> node \<Rightarrow> pt \<Rightarrow> nat list \<Rightarrow> ConnectionGraph \<Rightarrow> ConnectionGraph option" where
  "intrinsic_edges B n p [] G = Some G"
| "intrinsic_edges B n p (i # is) G =
     (case input B n i of
        None \<Rightarrow> None
      | Some adr \<Rightarrow>
          if \<not> is_top B adr \<and> isa_ptr B adr then
            (case registered_object B G adr of
               None \<Rightarrow> None
             | Some q \<Rightarrow> intrinsic_edges B n p is (fst (add_edge p q G)))
          else intrinsic_edges B n p is G)"

definition add_final_edges_unsafe_access :: "build_ideal \<Rightarrow> node \<Rightarrow> opcode \<Rightarrow> ConnectionGraph \<Rightarrow> (ConnectionGraph \<times> bool) option" where
  "add_final_edges_unsafe_access B n opcode G =
     (case input B n mem_Address of
        None \<Rightarrow> None
      | Some adr \<Rightarrow>
          if \<not> has_make_ptr B adr then None
          else
            Option.bind (if opcode \<in> {Op_GetAndSetP, Op_GetAndSetN, Op_CompareAndExchangeN, Op_CompareAndExchangeP}
                         then edge_to n NoEscape (Some adr) G else Some G)
              (\<lambda>G1.
                if is_oop_store_address B opcode adr then
                  (case (ptnode_adr G1 adr, Option.bind (input B n mem_ValueIn) (ptnode_adr G1)) of
                     (Some a, Some v) \<Rightarrow>
                       if is_Field G1 a \<and> pt_is_oop (cg_heap G1 a) then Some (fst (add_edge a v G1), True) else None
                   | _ \<Rightarrow> None)
                else if opcode = Op_StoreP \<and> make_ptr_isa_rawptr B adr then
                  (case (ptnode_adr G1 adr, Option.bind (input B n mem_ValueIn) (ptnode_adr G1)) of
                     (Some a, Some v) \<Rightarrow>
                       let G2 = set_escape_state v GlobalEscape G1
                       in if is_Field G2 a then
                            (if pt_is_oop (cg_heap G2 a) then Some (fst (add_edge a v G2), True) else None)
                          else Some (G2, True)
                   | _ \<Rightarrow> None)
                else Some (G1, False)))"

definition add_final_edges :: "build_ideal \<Rightarrow> node \<Rightarrow> ConnectionGraph \<Rightarrow> ConnectionGraph option" where
  "add_final_edges B n G =
     (let opcode = Opcode B n; n_ptn = ptnode_adr G n
      in if cg_verify G \<and> n_ptn = None then None
         else if cg_verify G \<and> is_JavaObject G (the n_ptn) then Some G
         else if is_Call B n then process_call_arguments B n G
         else if \<not> (is_Store B n \<or> is_LoadStore B n \<or> n_ptn \<noteq> None) then None
         else if gc_add_final_edges B n then Some G
         else if opcode = Op_AddP then
           (case (get_addp_base B n, n_ptn) of
              (Some base, Some f) \<Rightarrow>
                (case ptnode_adr G base of Some b \<Rightarrow> if is_Field G f then Some (fst (add_base f b G)) else None | None \<Rightarrow> None)
            | _ \<Rightarrow> None)
         else if opcode \<in> {Op_CastPP, Op_CheckCastPP, Op_EncodeP, Op_DecodeN, Op_EncodePKlass, Op_DecodeNKlass} then
           edge_to n NoEscape (input B n 1) G
         else if opcode = Op_CMoveP then
           (case n_ptn of None \<Rightarrow> None | Some p \<Rightarrow> input_edges B n p [cmove_IfFalse..<req B n] G)
         else if opcode \<in> {Op_LoadP, Op_LoadN, Op_LoadPLocked} then
           (if has_make_ptr B n then edge_to n NoEscape (input B n mem_Address) G else None)
         else if opcode = Op_Phi then
           (if phi_has_make_ptr B n then (case n_ptn of None \<Rightarrow> None | Some p \<Rightarrow> input_edges B n p [1..<req B n] G) else None)
         else if opcode = Op_Proj then
           (case input B n 0 of
              None \<Rightarrow> None
            | Some c \<Rightarrow> if is_result_proj B n \<and> is_Call B c \<and> returns_pointer B c then edge_to n NoEscape (Some c) G else None)
         else if opcode \<in> {Op_Rethrow, Op_Return} then
           (case input B n Parms of
              None \<Rightarrow> None
            | Some v \<Rightarrow> if req B n > Parms \<and> isa_oopptr B v then edge_to n GlobalEscape (Some v) G else None)
         else if opcode \<in> {Op_StoreP, Op_StoreN, Op_StoreNKlass, Op_StorePConditional, Op_CompareAndExchangeP, Op_CompareAndExchangeN,
                           Op_CompareAndSwapP, Op_CompareAndSwapN, Op_WeakCompareAndSwapP, Op_WeakCompareAndSwapN, Op_GetAndSetP, Op_GetAndSetN} then
           (case add_final_edges_unsafe_access B n opcode G of Some (G1, True) \<Rightarrow> Some G1 | _ \<Rightarrow> None)
         else if opcode \<in> {Op_AryEq, Op_HasNegatives, Op_StrComp, Op_StrEquals, Op_StrIndexOf, Op_StrIndexOfChar, Op_StrInflatedCopy,
                           Op_StrCompressedCopy, Op_EncodeISOArray} then
           (case n_ptn of None \<Rightarrow> None | Some p \<Rightarrow> intrinsic_edges B n p [2..<req B n] G)
         else None)"

section \<open>The first step of the analysis\<close>

definition has_candidates :: "build_ideal \<Rightarrow> bool" where
  "has_candidates B \<longleftrightarrow>
     (\<exists>n \<in> set (macro_nodes B). is_Allocate B n \<or>
        (is_Lock B n \<and> (let obj = uncast B (lock_obj B n) in \<not> (is_Parm B obj \<or> is_Con B obj))) \<or>
        (is_CallStaticJava B n \<and> is_boxing_call B n))"

record collected =
  co_nodes :: "node list"                       \<comment> \<open>\<open>ideal_nodes\<close>\<close>
  co_build :: build_state
  co_ptnodes :: "pt list"
  co_java_objects :: "pt list"
  co_non_escaped :: "pt list"
  co_oop_fields :: "pt list"
  co_mergemem :: "node list"
  co_ptr_cmp :: "node list"
  co_storestore :: "node list"
  co_arraycopy :: "node list"
  co_has_locks :: bool

text \<open>The worklists of graph nodes.\<close>

definition collect_ptn :: "build_ideal \<Rightarrow> node \<Rightarrow> collected \<Rightarrow> collected" where
  "collect_ptn B n c =
     (let G = bs_graph (co_build c)
      in case ptnode_adr G n of
           None \<Rightarrow> c
         | Some p \<Rightarrow>
             if p = phantom_obj G then c
             else
               let c1 = c\<lparr>co_ptnodes := co_ptnodes c @ [p]\<rparr>
               in if is_JavaObject G p then
                    let c2 = c1\<lparr>co_java_objects := co_java_objects c1 @ [p]\<rparr>
                    in if (is_Allocate B n \<or> is_CallStaticJava B n) \<and> escape G p < GlobalEscape
                       then c2\<lparr>co_non_escaped := co_non_escaped c2 @ [p]\<rparr> else c2
                  else if is_Field G p \<and> pt_is_oop (cg_heap G p) then c1\<lparr>co_oop_fields := co_oop_fields c1 @ [p]\<rparr>
                  else c1)"

text \<open>The worklists of ideal nodes.\<close>

definition collect_node :: "build_ideal \<Rightarrow> node \<Rightarrow> collected \<Rightarrow> collected" where
  "collect_node B n c =
     (if is_MergeMem B n then c\<lparr>co_mergemem := co_mergemem c @ [n]\<rparr>
      else if OptimizePtrCompare B \<and> is_Cmp B n \<and> Opcode B n \<in> {Op_CmpP, Op_CmpN} then c\<lparr>co_ptr_cmp := co_ptr_cmp c @ [n]\<rparr>
      else if is_MemBarStoreStore B n then c\<lparr>co_storestore := co_storestore c @ [n]\<rparr>
      else if is_MemBar B n \<and> Opcode B n = Op_MemBarRelease \<and> has_Precedent B n then c\<lparr>co_build := record_node n (co_build c)\<rparr>
      else if is_ArrayCopy B n then c\<lparr>co_arraycopy := co_arraycopy c @ [n]\<rparr>
      else if is_Lock B n then
        (let obj = uncast B (lock_obj B n) in if \<not> (is_Parm B obj \<or> is_Con B obj) then c\<lparr>co_has_locks := True\<rparr> else c)
      else c)"

definition collect_step :: "build_ideal \<Rightarrow> node \<Rightarrow> collected \<Rightarrow> collected option" where
  "collect_step B n c =
     (case add_node_to_connection_graph B n (co_build c) of
        None \<Rightarrow> None
      | Some s \<Rightarrow>
          let c1 = collect_node B n (collect_ptn B n (c\<lparr>co_build := s\<rparr>))
          in Some (c1\<lparr>co_nodes := fold push_unique (outs B n) (co_nodes c1)\<rparr>))"

partial_function (option) collect_loop :: "build_ideal \<Rightarrow> nat \<Rightarrow> collected \<Rightarrow> collected option" where
  "collect_loop B i c =
     (if i < length (co_nodes c) then
        (case collect_step B (co_nodes c ! i) c of None \<Rightarrow> None | Some c1 \<Rightarrow> collect_loop B (Suc i) c1)
      else Some c)"

declare skip_addp.simps [code] collect_loop.simps [code]

fun final_loop :: "build_ideal \<Rightarrow> node list \<Rightarrow> ConnectionGraph \<Rightarrow> ConnectionGraph option" where
  "final_loop B [] G = Some G"
| "final_loop B (n # ns) G = (case add_final_edges B n G of None \<Rightarrow> None | Some G1 \<Rightarrow> final_loop B ns G1)"

definition start_collecting :: "build_ideal \<Rightarrow> ConnectionGraph \<Rightarrow> collected" where
  "start_collecting B G =
     \<lparr>co_nodes = (case root B of None \<Rightarrow> [] | Some r \<Rightarrow> [r]), co_build = \<lparr>bs_graph = G, bs_delayed = [], bs_recorded = []\<rparr>,
      co_ptnodes = [phantom_obj G], co_java_objects = [phantom_obj G], co_non_escaped = [], co_oop_fields = [],
      co_mergemem = [], co_ptr_cmp = [], co_storestore = [], co_arraycopy = [], co_has_locks = cg_has_locks G\<rparr>"

text \<open>
  \<open>None\<close> is a failed assertion. The Boolean says that there are objects to analyze; otherwise
  \<open>compute_escape\<close> returns. The delayed worklist is popped from its end.
\<close>

definition build_connection_graph :: "build_ideal \<Rightarrow> ConnectionGraph \<Rightarrow> (collected \<times> ConnectionGraph \<times> bool) option" where
  "build_connection_graph B G =
     (case collect_loop B 0 (start_collecting B G) of
        None \<Rightarrow> None
      | Some c \<Rightarrow>
          if co_non_escaped c = [] then Some (c, (bs_graph (co_build c))\<lparr>cg_collecting := False\<rparr>, False)
          else map_option (\<lambda>G1. (c, G1, True)) (final_loop B (rev (bs_delayed (co_build c))) (bs_graph (co_build c))))"

end
