(* ===== verification/Build_Invariant.thy ===== *)
theory Build_Invariant
  imports Graph_Build
begin

text \<open>
  The invariant of the graph under construction: every operation of the two passes extends the graph and
  keeps it well-formed, and an ideal node is registered with a kind that its opcode allows.
\<close>

section \<open>Extensions of the graph\<close>

definition extends :: "ConnectionGraph \<Rightarrow> ConnectionGraph \<Rightarrow> bool" where
  "extends G G' \<longleftrightarrow> cg_next_pidx G \<le> cg_next_pidx G' \<and> phantom_obj G' = phantom_obj G \<and> null_obj G' = null_obj G \<and>
     cg_verify G' = cg_verify G \<and> cg_worklist G' = cg_worklist G \<and> cg_in_worklist G' = cg_in_worklist G \<and>
     (\<forall>n p. cg_nodes G n = Some p \<longrightarrow> cg_nodes G' n = Some p) \<and>
     (\<forall>p < cg_next_pidx G. node_grows (cg_heap G p) (cg_heap G' p))"

lemma node_grows_refl [simp]: "node_grows n n"
  by (simp add: node_grows_def)

lemma extends_refl [simp, intro]: "extends G G"
  by (simp add: extends_def)

lemma extends_trans [trans]: "extends G H \<Longrightarrow> extends H K \<Longrightarrow> extends G K"
proof -
  assume a: "extends G H" and b: "extends H K"
  have "node_grows (cg_heap G p) (cg_heap K p)" if "p < cg_next_pidx G" for p
    using a b that by (meson extends_def node_grows_trans order.strict_trans2)
  with a b show ?thesis unfolding extends_def by simp
qed

lemma extendsD:
  assumes "extends G G'"
  shows "cg_next_pidx G \<le> cg_next_pidx G'" "phantom_obj G' = phantom_obj G" "null_obj G' = null_obj G"
    "cg_verify G' = cg_verify G" "cg_worklist G' = cg_worklist G" "cg_in_worklist G' = cg_in_worklist G"
    "cg_nodes G n = Some p \<Longrightarrow> cg_nodes G' n = Some p"
    "q < cg_next_pidx G \<Longrightarrow> pt_type (cg_heap G' q) = pt_type (cg_heap G q)"
    "q < cg_next_pidx G \<Longrightarrow> pt_is_oop (cg_heap G' q) = pt_is_oop (cg_heap G q)"
    "q < cg_next_pidx G \<Longrightarrow> escape G q \<le> escape G' q"
    "q < cg_next_pidx G \<Longrightarrow> fields_escape G q \<le> fields_escape G' q"
    "q < cg_next_pidx G \<Longrightarrow> set (edges G q) \<subseteq> set (edges G' q)"
    "q < cg_next_pidx G \<Longrightarrow> set (bases G q) \<subseteq> set (bases G' q)" "q < cg_next_pidx G \<Longrightarrow> ideal_node G' q = ideal_node G q"
  using assms by (simp_all add: extends_def node_grows_def)

section \<open>The invariant\<close>

text \<open>The kinds of graph node that an ideal node may be registered with.\<close>

definition copy_call :: "build_ideal \<Rightarrow> node \<Rightarrow> bool" where
  "copy_call B n \<longleftrightarrow> is_Call B n \<and> Opcode B n \<in> {Op_ArrayCopy, Op_CallLeafNoFP}"

definition local_var_opcode :: "opcode \<Rightarrow> bool" where
  "local_var_opcode opc \<longleftrightarrow> opc \<in> {Op_CastPP, Op_CheckCastPP, Op_EncodeP, Op_DecodeN, Op_EncodePKlass, Op_DecodeNKlass, Op_CMoveP,
     Op_LoadP, Op_LoadN, Op_LoadPLocked, Op_Phi, Op_Proj, Op_Rethrow, Op_Return, Op_CompareAndExchangeP, Op_CompareAndExchangeN,
     Op_GetAndSetP, Op_GetAndSetN, Op_AryEq, Op_HasNegatives, Op_StrComp, Op_StrEquals, Op_StrIndexOf, Op_StrIndexOfChar,
     Op_StrInflatedCopy, Op_StrCompressedCopy, Op_EncodeISOArray}"

definition node_kinds :: "build_ideal \<Rightarrow> node \<Rightarrow> NodeType set" where
  "node_kinds B n =
     (if is_Call B n then if copy_call B n then {Arraycopy} else {JavaObject, LocalVar}
      else if Opcode B n = Op_AddP then {Field}
      else if local_var_opcode (Opcode B n) then {LocalVar}
      else {JavaObject})"

definition kinds_ok :: "build_ideal \<Rightarrow> ConnectionGraph \<Rightarrow> bool" where
  "kinds_ok B G \<longleftrightarrow> (\<forall>n p. cg_nodes G n = Some p \<longrightarrow>
     pt_type (cg_heap G p) \<in> node_kinds B n \<and> (p = null_obj G \<longrightarrow> is_null_con B n) \<and>
     (is_Field G p \<longrightarrow> (\<exists>off. address_offset B n = Some off \<and> pt_is_oop (cg_heap G p) = fst (is_oop_field B n off))))"

definition states_known :: "ConnectionGraph \<Rightarrow> bool" where
  "states_known G \<longleftrightarrow> (\<forall>p < cg_next_pidx G. NoEscape \<le> escape G p \<and> NoEscape \<le> fields_escape G p)"

definition build_inv :: "build_ideal \<Rightarrow> ConnectionGraph \<Rightarrow> bool" where
  "build_inv B G \<longleftrightarrow> cg_wf G \<and> typed_edges G \<and> esc_le G \<and> phantom_escapes G \<and> states_known G \<and> kinds_ok B G \<and> copies_done G \<and>
     \<not> cg_verify G \<and> cg_worklist G = [] \<and> cg_in_worklist G = {}"

lemma build_invD:
  assumes "build_inv B G"
  shows "cg_wf G" "typed_edges G" "esc_le G" "phantom_escapes G" "states_known G" "kinds_ok B G" "copies_done G" "\<not> cg_verify G"
    "cg_worklist G = []" "cg_in_worklist G = {}"
  using assms by (simp_all add: build_inv_def)

lemma kinds_okD:
  assumes "kinds_ok B G" and "ptnode_adr G n = Some p"
  shows "pt_type (cg_heap G p) \<in> node_kinds B n" "p = null_obj G \<Longrightarrow> is_null_con B n"
    "is_Field G p \<Longrightarrow> \<exists>off. address_offset B n = Some off \<and> pt_is_oop (cg_heap G p) = fst (is_oop_field B n off)"
  using assms unfolding kinds_ok_def ptnode_adr_def by blast+

lemma ptnode_range: "build_inv B G \<Longrightarrow> ptnode_adr G n = Some p \<Longrightarrow> p < cg_next_pidx G"
  using build_invD(1) cg_wf_range by (auto simp: wf_range_def ptnode_adr_def)

lemma kinds_ok_extends:
  assumes k: "kinds_ok B G" and e: "extends G G'" and r: "\<And>n p. cg_nodes G n = Some p \<Longrightarrow> p < cg_next_pidx G"
    and same: "cg_nodes G' = cg_nodes G"
  shows "kinds_ok B G'"
  using k r extendsD(3,8,9) [OF e] unfolding kinds_ok_def same by metis

lemma states_known_extends:
  assumes "states_known G" and e: "extends G G'" and "cg_next_pidx G' = cg_next_pidx G"
  shows "states_known G'"
  using assms(1) extendsD(10,11) [OF e] unfolding states_known_def assms(3) by (blast intro: order_trans)

lemma phantom_escapes_extends:
  assumes "phantom_escapes G" and e: "extends G G'" and "phantom_obj G < cg_next_pidx G"
  shows "phantom_escapes G'"
  using assms(1) extendsD(10,11) [OF e assms(3)] by (simp add: phantom_escapes_def extendsD(2) [OF e])

text \<open>The copies stay closed if the arraycopies that exist are left alone.\<close>

lemma copies_done_extends:
  assumes c: "copies_done G" and e: "extends G G'" and wf: "cg_wf G"
    and old: "\<And>p. p < cg_next_pidx G \<Longrightarrow> is_Arraycopy G p \<Longrightarrow>
      edges G' p = edges G p \<and> escape G' p = escape G p \<and> fields_escape G' p = fields_escape G p"
    and new: "\<And>p. cg_next_pidx G \<le> p \<Longrightarrow> p < cg_next_pidx G' \<Longrightarrow> is_Arraycopy G' p \<Longrightarrow> copy_done G' p"
  shows "copies_done G'"
  unfolding copies_done_def
proof (intro allI impI)
  fix p assume p: "p < cg_next_pidx G'" "is_Arraycopy G' p"
  show "copy_done G' p"
  proof (cases "p < cg_next_pidx G")
    case True
    note t = extendsD(8) [OF e]
    from p(2) True have a: "is_Arraycopy G p" by (simp add: t)
    note o = old [OF True a]
    from c True a have d: "copy_done G p" by (simp add: copies_done_def)
    have r: "q < cg_next_pidx G" if "q \<in> set (edges G x)" for q x using cg_wf_range [OF wf] that by (auto simp: wf_range_def)
    have ec: "edge_closed G' p es fes x" if "edge_closed G p es fes x" "x \<in> set (edges G p)" for es fes x
      using that(1) t [OF r [OF that(2)]] t [OF True] extendsD(3) [OF e] extendsD(9,10,11) [OF e, of x] r [OF that(2)]
      by (auto simp: edge_closed_def split: if_splits intro: order_trans)
    have "edge_closed G' p (escape G' p) (fields_escape G' p) x \<or>
        is_JavaObject G' x \<and> (\<exists>u \<in> set (edges G' p). is_LocalVar G' u \<and> x \<in> set (edges G' u))"
      if x: "x \<in> set (edges G' p)" for x
    proof -
      from x o have x': "x \<in> set (edges G p)" by simp
      from d x' consider "edge_closed G p (escape G p) (fields_escape G p) x"
        | u where "is_JavaObject G x" "u \<in> set (edges G p)" "is_LocalVar G u" "x \<in> set (edges G u)"
        unfolding copy_done_def by blast
      then show ?thesis
      proof cases
        case 1 then show ?thesis using ec x' o by simp
      next
        case (2 u)
        then have "is_JavaObject G' x" "u \<in> set (edges G' p)" "is_LocalVar G' u" "x \<in> set (edges G' u)"
          using r [OF x'] r [OF 2(2)] t extendsD(12) [OF e, of u] o by auto
        then show ?thesis by blast
      qed
    qed
    with p(2) show ?thesis unfolding copy_done_def by blast
  next
    case False
    with p new show ?thesis by simp
  qed
qed

section \<open>The primitive operations\<close>

definition builds :: "build_ideal \<Rightarrow> ConnectionGraph \<Rightarrow> ConnectionGraph \<Rightarrow> bool" where
  "builds B G G' \<longleftrightarrow> build_inv B G' \<and> extends G G'"

lemma buildsD: "builds B G G' \<Longrightarrow> build_inv B G'" "builds B G G' \<Longrightarrow> extends G G'"
  by (simp_all add: builds_def)

lemma builds_refl: "build_inv B G \<Longrightarrow> builds B G G"
  by (simp add: builds_def)

lemma builds_trans: "builds B G H \<Longrightarrow> builds B H K \<Longrightarrow> builds B G K"
  by (auto simp: builds_def intro: extends_trans)

lemma build_inv_flow: "build_inv B G \<Longrightarrow> flow_ok G"
  by (simp add: build_inv_def flow_ok_def wl_ok_def)

lemma phantom_range: "cg_wf G \<Longrightarrow> phantom_obj G < cg_next_pidx G" "cg_wf G \<Longrightarrow> null_obj G < cg_next_pidx G"
  using cg_wf_specials by (auto simp: wf_specials_def)

lemma grows_extends:
  assumes "grows G G'" and "cg_verify G' = cg_verify G" and "cg_worklist G' = cg_worklist G" and "cg_in_worklist G' = cg_in_worklist G"
  shows "extends G G'"
  using assms by (simp add: extends_def grows_def)

lemma builds_grows:
  assumes inv: "build_inv B G" and g: "grows G G'" and ok: "flow_ok G'" and cd: "copies_done G'" and el: "esc_le G'"
    and fr: "cg_verify G' = cg_verify G" "cg_worklist G' = cg_worklist G" "cg_in_worklist G' = cg_in_worklist G"
  shows "builds B G G'"
proof -
  note e = grows_extends [OF g fr] and d = build_invD [OF inv]
  have n: "cg_nodes G' = cg_nodes G" "cg_next_pidx G' = cg_next_pidx G" using g by (simp_all add: grows_def)
  have "kinds_ok B G'" using kinds_ok_extends [OF d(6) e _ n(1)] cg_wf_range [OF d(1)] by (auto simp: wf_range_def)
  with states_known_extends [OF d(5) e n(2)] phantom_escapes_extends [OF d(4) e phantom_range(1) [OF d(1)]] ok cd el fr d e show ?thesis
    by (simp add: builds_def build_inv_def flow_ok_def)
qed

lemma add_edge_verify [simp]: "cg_verify (fst (add_edge p q G)) = cg_verify G"
  by (simp add: add_edge_def Let_def split_beta)

lemma add_base_verify [simp]: "cg_verify (fst (add_base p q G)) = cg_verify G"
  by (simp add: add_base_def Let_def split_beta)

lemma builds_edge:
  assumes inv: "build_inv B G" and r: "p < cg_next_pidx G" "q < cg_next_pidx G"
    and p: "is_LocalVar G p \<or> is_Field G p \<and> pt_is_oop (cg_heap G p)"
  shows "builds B G (fst (add_edge p q G))"
proof -
  note d = build_invD [OF inv]
  have "is_JavaObject G (null_obj G)" using cg_wf_specials [OF d(1)] by (simp add: wf_specials_def)
  with p have np: "p \<noteq> null_obj G" by auto
  have ok: "edge_ok p q G" using r p np by (auto simp: edge_ok_def)
  have na: "\<not> is_JavaObject G p" "\<not> is_Arraycopy G p" using p by auto
  have ce: "copy_ext G (fst (add_edge p q G))" using add_edge_copy_ext [OF d(1) ok] na by simp
  show ?thesis
  proof (rule builds_grows [OF inv add_edge_grows])
    show "flow_ok (fst (add_edge p q G))" using add_edge_flow [OF build_inv_flow [OF inv] ok] na by simp
    show "copies_done (fst (add_edge p q G))" by (rule copies_done_ext [OF d(7) ce add_edge_grows])
    show "esc_le (fst (add_edge p q G))" using d(3) by (simp add: esc_le_def cg_frame)
  qed simp_all
qed

lemma builds_base:
  assumes inv: "build_inv B G" and r: "f < cg_next_pidx G" "b < cg_next_pidx G" and f: "is_Field G f" and b: "\<not> is_Arraycopy G b"
  shows "builds B G (fst (add_base f b G))"
proof -
  note d = build_invD [OF inv]
  have ok: "base_ok f b G" using r f b by (simp add: base_ok_def)
  note ce = add_base_copy_ext [OF d(1) ok]
  show ?thesis
  proof (rule builds_grows [OF inv add_base_grows])
    show "flow_ok (fst (add_base f b G))" by (rule add_base_flow [OF build_inv_flow [OF inv] ok])
    show "copies_done (fst (add_base f b G))" by (rule copies_done_ext [OF d(7) ce add_base_grows])
    show "esc_le (fst (add_base f b G))" using d(3) ce add_base_grows [of G f b] by (simp add: esc_le_def copy_ext_def growsD)
  qed simp_all
qed

text \<open>Raising the state of a node that is not an arraycopy, and clearing its scalar replaceable mark.\<close>

lemma set_escape_frame [simp]:
  "cg_verify (set_escape_state p s G) = cg_verify G" "cg_worklist (set_escape_state p s G) = cg_worklist G"
  "cg_in_worklist (set_escape_state p s G) = cg_in_worklist G" "cg_verify (set_fields_escape_state p s G) = cg_verify G"
  "cg_worklist (set_fields_escape_state p s G) = cg_worklist G" "cg_in_worklist (set_fields_escape_state p s G) = cg_in_worklist G"
  by (simp_all add: set_escape_state_def set_fields_escape_state_def Let_def)

lemma set_escape_flow:
  assumes "flow_ok G" and "p < cg_next_pidx G"
  shows "flow_ok (set_escape_state p s G)" "flow_ok (set_fields_escape_state p s G)"
  using assms flow_ok_upd [OF _ _ esc.structure_preserving_axioms] flow_ok_upd [OF _ _ fesc.structure_preserving_axioms]
  by (simp_all add: set_escape_state_def set_fields_escape_state_def Let_def)

lemma builds_raises:
  assumes inv: "build_inv B G" and r: "raises G G'" and ok: "flow_ok G'" and el: "esc_le G'"
    and fr: "cg_verify G' = cg_verify G" "cg_worklist G' = cg_worklist G" "cg_in_worklist G' = cg_in_worklist G"
    and old: "\<And>q. is_Arraycopy G q \<Longrightarrow> cg_heap G' q = cg_heap G q"
  shows "builds B G G'"
proof (rule builds_grows [OF inv raises_grows [OF r] ok _ el fr])
  note g = raises_grows [OF r]
  show "copies_done G'"
    by (rule copies_done_extends [OF build_invD(7) [OF inv] grows_extends [OF g fr] build_invD(1) [OF inv]])
      (use old in \<open>auto simp: growsD [OF g]\<close>)
qed

lemma builds_escape:
  assumes inv: "build_inv B G" and p: "p < cg_next_pidx G" "\<not> is_Arraycopy G p"
  shows "builds B G (set_escape_state p s G)" "builds B G (set_fields_escape_state p s G)"
proof -
  note d = build_invD [OF inv] and f = build_inv_flow [OF inv]
  have 1: "cg_heap (set_escape_state p s G) q = cg_heap G q" "cg_heap (set_fields_escape_state p s G) q = cg_heap G q"
    if "is_Arraycopy G q" for q using that p(2) by (cases "q = p"; simp)+
  show "builds B G (set_escape_state p s G)" "builds B G (set_fields_escape_state p s G)"
    using set_escape_flow [OF f p(1)] esc_le_set [OF d(3)] 1
    by (intro builds_raises [OF inv set_escape_state_raises] builds_raises [OF inv set_fields_escape_state_raises]; simp)+
qed

lemma builds_not_scalar_replaceable:
  assumes inv: "build_inv B G"
  shows "builds B G (not_scalar_replaceable n G)"
proof (cases "ptnode_adr G n")
  case (Some p)
  let ?G = "upd_pt p (set_scalar_replaceable False) G"
  note d = build_invD [OF inv]
  have g: "grows G ?G" by (simp add: grows_def node_grows_def)
  have "flow_ok ?G"
    by (rule flow_ok_upd [OF build_inv_flow [OF inv] ptnode_range [OF inv Some] scr.structure_preserving_axioms])
  moreover have "copies_done ?G"
    by (rule copies_done_extends [OF d(7) grows_extends [OF g] d(1)]) simp_all
  moreover have "esc_le ?G" using d(3) by (simp add: esc_le_def)
  ultimately have "builds B G ?G" by (intro builds_grows [OF inv g]) simp_all
  with Some show ?thesis by (simp add: not_scalar_replaceable_def)
qed (use inv in \<open>simp add: not_scalar_replaceable_def builds_refl\<close>)

section \<open>New nodes\<close>

definition fresh_node :: "PointsToNode \<Rightarrow> EscapeState \<Rightarrow> bool" where
  "fresh_node p es \<longleftrightarrow> pt_edges p = [] \<and> pt_uses p = [] \<and> pt_bases p = [] \<and> \<not> has_unknown_ptr p \<and> \<not> pt_has_unknown_base p \<and>
     pt_escape p = es \<and> pt_fields_escape p = es \<and> (pt_is_oop p \<longrightarrow> pt_type p = Field)"

lemma register_simps [simp]:
  "cg_next_pidx (register_pt n p G) = Suc (cg_next_pidx G)" "null_obj (register_pt n p G) = null_obj G"
  "phantom_obj (register_pt n p G) = phantom_obj G" "cg_nodes (register_pt n p G) = (cg_nodes G)(n \<mapsto> cg_next_pidx G)"
  "cg_heap (register_pt n p G) = (cg_heap G)(cg_next_pidx G := p)" "cg_verify (register_pt n p G) = cg_verify G"
  "cg_worklist (register_pt n p G) = cg_worklist G" "cg_in_worklist (register_pt n p G) = cg_in_worklist G"
  by (simp_all add: register_pt_def)

lemma register_extends: "cg_nodes G n = None \<Longrightarrow> extends G (register_pt n p G)"
  by (auto simp: extends_def)

lemma register_flow:
  assumes inv: "build_inv B G" and f: "fresh_node p es"
  shows "flow_ok (register_pt n p G)"
proof -
  note d = build_invD [OF inv]
  have nr: "cg_next_pidx G \<notin> set (edges G q)" for q using cg_wf_range [OF d(1)] by (auto simp: wf_range_def)
  have "cg_wf (register_pt n p G)" using f by (intro register_pt_wf [OF d(1)]) (simp_all add: fresh_node_def)
  moreover have "typed_edges (register_pt n p G)" using d(2) nr f phantom_range(2) [OF d(1)]
    by (auto simp: typed_edges_def fresh_node_def)
  ultimately show ?thesis using d by (simp add: flow_ok_def wl_ok_def)
qed

lemma builds_register:
  assumes inv: "build_inv B G" and n: "cg_nodes G n = None" and f: "fresh_node p es" and es: "NoEscape \<le> es"
    and t: "pt_type p \<in> node_kinds B n" "pt_type p \<noteq> Arraycopy"
    and fd: "pt_type p = Field \<Longrightarrow> \<exists>off. address_offset B n = Some off \<and> pt_is_oop p = fst (is_oop_field B n off)"
  shows "builds B G (register_pt n p G)"
proof -
  let ?G = "register_pt n p G"
  note d = build_invD [OF inv] and e = register_extends [OF n, of p]
  have k: "kinds_ok B ?G" using d(6) t fd phantom_range(2) [OF d(1)] cg_wf_range [OF d(1)]
    by (auto simp: kinds_ok_def wf_range_def)
  have s: "states_known ?G" using d(5) es f by (auto simp: states_known_def fresh_node_def less_Suc_eq)
  have el: "esc_le ?G" using d(3) f by (simp add: esc_le_def fresh_node_def)
  have cd: "copies_done ?G" by (rule copies_done_extends [OF d(7) e d(1)]) (use t(2) in \<open>auto simp: less_Suc_eq\<close>)
  show ?thesis
    using k s el cd e register_flow [OF inv f, of n] phantom_escapes_extends [OF d(4) e phantom_range(1) [OF d(1)]] d
    by (simp add: builds_def build_inv_def flow_ok_def)
qed

lemma fresh_nodes:
  "fresh_node (new_LocalVarNode n es) es" "fresh_node (new_JavaObjectNode n es) es" "fresh_node (new_FieldNode n es off oop) es"
  "fresh_node (new_ArraycopyNode n es) es"
  by (simp_all add: fresh_node_def new_LocalVarNode_def new_JavaObjectNode_def new_FieldNode_def new_ArraycopyNode_def Let_def new_nodes_fresh)
    (simp_all add: new_PointsToNode_def has_unknown_ptr_def flag_defs)

lemma new_types [simp]:
  "pt_type (new_LocalVarNode n es) = LocalVar" "pt_type (new_JavaObjectNode n es) = JavaObject"
  "pt_type (new_FieldNode n es off oop) = Field" "pt_type (new_ArraycopyNode n es) = Arraycopy"
  "pt_is_oop (new_FieldNode n es off oop) = oop"
  by (simp_all add: new_LocalVarNode_def new_JavaObjectNode_def new_FieldNode_def new_ArraycopyNode_def Let_def new_nodes_fresh)

lemma builds_local_var:
  assumes "build_inv B G" "LocalVar \<in> node_kinds B n" "NoEscape \<le> es"
  shows "builds B G (add_local_var n es G)"
  using assms by (cases "cg_nodes G n")
    (auto simp: add_local_var_def builds_refl intro!: builds_register [OF _ _ fresh_nodes(1)])

lemma builds_java_object:
  assumes "build_inv B G" "JavaObject \<in> node_kinds B n" "NoEscape \<le> es"
  shows "builds B G (add_java_object n es G)"
  using assms by (cases "cg_nodes G n")
    (auto simp: add_java_object_def builds_refl intro!: builds_register [OF _ _ fresh_nodes(2)])

lemma builds_field:
  assumes "build_inv B G" "Field \<in> node_kinds B n" "address_offset B n = Some off" "is_oop_field B n off = (oop, unsafe)"
  shows "builds B G (add_field n NoEscape off oop unsafe G)"
  using assms by (cases "cg_nodes G n")
    (auto simp: add_field_def Let_def builds_refl es_less_defs intro!: builds_register [OF _ _ fresh_nodes(3)])

lemma builds_map_phantom:
  assumes inv: "build_inv B G" and "JavaObject \<in> node_kinds B n" and n: "cg_nodes G n = None"
  shows "builds B G (map_ideal_node n (phantom_obj G) G)"
proof -
  let ?G = "map_ideal_node n (phantom_obj G) G"
  note d = build_invD [OF inv]
  have h: "cg_heap ?G = cg_heap G" "null_obj ?G = null_obj G" "phantom_obj ?G = phantom_obj G" "cg_next_pidx ?G = cg_next_pidx G"
    "cg_verify ?G = cg_verify G" "cg_worklist ?G = cg_worklist G" "cg_in_worklist ?G = cg_in_worklist G"
    "cg_nodes ?G = (cg_nodes G)(n \<mapsto> phantom_obj G)"
    by (simp_all add: map_ideal_node_def)
  have ph: "is_JavaObject G (phantom_obj G)" "phantom_obj G \<noteq> null_obj G" using cg_wf_specials [OF d(1)] by (simp_all add: wf_specials_def)
  have "kinds_ok B ?G" using d(6) ph assms(2) by (auto simp: kinds_ok_def h)
  moreover have "extends G ?G" using n by (auto simp: extends_def h)
  moreover have "copies_done ?G" using d(7) unfolding copies_done_def copy_done_def edge_closed_def h .
  moreover have "typed_edges ?G" "esc_le ?G" "phantom_escapes ?G" "states_known ?G"
    using d by (simp_all add: typed_edges_def esc_le_def phantom_escapes_def states_known_def h)
  ultimately show ?thesis using map_ideal_node_wf [OF d(1) phantom_range(1) [OF d(1)]] d h by (simp add: builds_def build_inv_def)
qed

text \<open>An arraycopy from an object or variable whose states are not below those of the copy.\<close>

lemma builds_arraycopy:
  assumes inv: "build_inv B G" and n: "copy_call B n" and r: "src < cg_next_pidx G" "dst < cg_next_pidx G"
    and ty: "is_LocalVar G src \<or> is_JavaObject G src" "is_LocalVar G dst \<or> is_JavaObject G dst"
    and nn: "src \<noteq> null_obj G" "dst \<noteq> null_obj G" and es: "NoEscape \<le> es" "es \<le> escape G src"
  shows "builds B G (add_arraycopy n es src dst G)"
proof (cases "cg_nodes G n")
  case None
  let ?a = "cg_next_pidx G"
  let ?G1 = "register_pt n (new_ArraycopyNode n es) G"
  let ?G2 = "fst (add_edge ?a src ?G1)"
  let ?G3 = "upd_pt src set_arraycopy_src ?G2"
  let ?G4 = "fst (add_edge dst ?a ?G3)"
  let ?G = "upd_pt dst set_arraycopy_dst ?G4"
  note d = build_invD [OF inv] and e1 = register_extends [OF None, of "new_ArraycopyNode n es"]
  have f1: "flow_ok ?G1" by (rule register_flow [OF inv fresh_nodes(4)])
  have ne: "src \<noteq> ?a" "dst \<noteq> ?a" "null_obj G \<noteq> ?a" using r phantom_range(2) [OF d(1)] by simp_all
  have o1: "edge_ok ?a src ?G1" using r ne by (auto simp: edge_ok_def)
  have f2: "flow_ok ?G2" using o1 ty nn ne by (intro add_edge_flow [OF f1]) auto
  have "src < cg_next_pidx ?G2" using r by (simp add: cg_frame)
  from flowsD [OF flows_set_arraycopy(1) [OF f2 this]] have f3: "flow_ok ?G3" and g3: "grows ?G2 ?G3" .
  have t3: "pt_type (cg_heap ?G3 q) = pt_type (cg_heap ?G1 q)" for q by (simp add: cg_frame)
  have o3: "edge_ok dst ?a ?G3" unfolding edge_ok_def t3 using r ty nn ne by (auto simp: cg_frame)
  have f4: "flow_ok ?G4" using o3 ty ne by (intro add_edge_flow [OF f3]) (auto simp: cg_frame)
  have "dst < cg_next_pidx ?G4" using r by (simp add: cg_frame)
  from flowsD [OF flows_set_arraycopy(2) [OF f4 this]] have f5: "flow_ok ?G" and g5: "grows ?G4 ?G" .
  note g = grows_trans [OF grows_trans [OF grows_trans [OF add_edge_grows g3] add_edge_grows] g5]
  define H where "H = ?G"
  have e: "extends G H" unfolding H_def by (rule extends_trans [OF e1 grows_extends [OF g]]) simp_all
  have h: "escape H q = escape ?G1 q" "fields_escape H q = fields_escape ?G1 q" "cg_nodes H = cg_nodes ?G1" "cg_next_pidx H = Suc ?a"
    "null_obj H = null_obj G" "pt_type (cg_heap H q) = pt_type (cg_heap ?G1 q)" "pt_is_oop (cg_heap H q) = pt_is_oop (cg_heap ?G1 q)" for q
    by (simp_all add: H_def cg_frame)
  have ea: "edges H ?a = [src]"
    using ne add_edge_new [OF flow_okD(1) [OF f1], of src ?a] by (simp add: H_def add_edge_other new_ArraycopyNode_def new_nodes_fresh)
  have eo: "edges H q = edges G q" if "is_Arraycopy G q" "q < ?a" for q
    using that ty unfolding H_def by (simp, intro impI conjI) (simp_all add: add_edge_other)
  have en: "escape ?G1 ?a = es" "fields_escape ?G1 ?a = es" by (simp_all add: new_ArraycopyNode_def new_PointsToNode_def)
  have sc: "edge_closed H ?a (escape H ?a) (fields_escape H ?a) src"
    unfolding edge_closed_def h en using es(2) ty(1) ne by auto
  have cd: "copies_done H"
  proof (rule copies_done_extends [OF d(7) e d(1)])
    fix p assume p: "?a \<le> p" "p < cg_next_pidx H" and a: "is_Arraycopy H p"
    from p have "p = ?a" by (simp add: h)
    with a show "copy_done H p" using sc by (simp add: copy_done_def ea)
  qed (simp add: eo h)
  have "kinds_ok B H"
    unfolding kinds_ok_def
  proof (intro allI impI)
    fix m p assume m: "cg_nodes H m = Some p"
    let ?ok = "\<lambda>G. pt_type (cg_heap G p) \<in> node_kinds B m \<and> (p = null_obj G \<longrightarrow> is_null_con B m) \<and>
      (is_Field G p \<longrightarrow> (\<exists>off. address_offset B m = Some off \<and> pt_is_oop (cg_heap G p) = fst (is_oop_field B m off)))"
    show "?ok H"
    proof (cases "m = n")
      case True
      with m have "p = ?a" by (simp add: h)
      with True n ne show ?thesis by (simp add: h node_kinds_def copy_call_def)
    next
      case False
      with m have m': "cg_nodes G m = Some p" by (simp add: h)
      with cg_wf_range [OF d(1)] have "p < ?a" by (simp add: wf_range_def)
      moreover have "?ok G" using d(6) m' unfolding kinds_ok_def by blast
      ultimately show ?thesis by (simp add: h)
    qed
  qed
  moreover have "states_known H" using d(5) es(1) en unfolding states_known_def h by (auto simp: less_Suc_eq)
  moreover have "esc_le H" using d(3) en unfolding esc_le_def h by auto
  ultimately have "builds B G H"
    using e cd f5 [folded H_def] phantom_escapes_extends [OF d(4) e phantom_range(1) [OF d(1)]] d extendsD(4-6) [OF e]
    by (simp add: builds_def build_inv_def flow_ok_def)
  with None show ?thesis by (simp add: add_arraycopy_def Let_def H_def)
qed (use inv in \<open>simp add: add_arraycopy_def builds_refl\<close>)

section \<open>The first pass\<close>

text \<open>
  What is assumed of the ideal graph: allocations and static calls are not copies, and the users of a copy,
  whose result is memory, are its projections; so it is not the base of an address.
\<close>

definition ideal_ok :: "build_ideal \<Rightarrow> bool" where
  "ideal_ok B \<longleftrightarrow> (\<forall>n. is_Allocate B n \<or> is_CallStaticJava B n \<longrightarrow> \<not> copy_call B n) \<and>
     (\<forall>n b. get_addp_base B n = Some b \<longrightarrow> \<not> copy_call B b) \<and>
     (\<forall>n i c. input B n i = Some c \<and> copy_call B c \<longrightarrow> i = 0)"

text \<open>A step that registers at most the node \<open>n\<close>, with at most one new node of the graph.\<close>

definition registers :: "build_ideal \<Rightarrow> node \<Rightarrow> ConnectionGraph \<Rightarrow> ConnectionGraph \<Rightarrow> bool" where
  "registers B n G G' \<longleftrightarrow> builds B G G' \<and> (\<forall>m. m \<noteq> n \<longrightarrow> cg_nodes G' m = cg_nodes G m) \<and>
     (cg_next_pidx G' = cg_next_pidx G \<or> cg_next_pidx G' = Suc (cg_next_pidx G) \<and> cg_nodes G' n = Some (cg_next_pidx G))"

lemma registers_refl: "build_inv B G \<Longrightarrow> registers B n G G"
  by (simp add: registers_def builds_refl)

lemma registers_then:
  assumes "registers B n G H" and "builds B H K" and "cg_nodes K = cg_nodes H" and "cg_next_pidx K = cg_next_pidx H"
  shows "registers B n G K"
  using assms by (auto simp: registers_def intro: builds_trans)

lemma add_base_frame [cg_frame]:
  "cg_nodes (fst (add_base p q G)) = cg_nodes G" "cg_next_pidx (fst (add_base p q G)) = cg_next_pidx G"
  by (simp_all add: add_base_def Let_def split_beta)

lemma registers_add:
  assumes inv: "build_inv B G" and "NoEscape \<le> es"
  shows "LocalVar \<in> node_kinds B n \<Longrightarrow> registers B n G (add_local_var n es G)"
    "JavaObject \<in> node_kinds B n \<Longrightarrow> registers B n G (add_java_object n es G)"
    "JavaObject \<in> node_kinds B n \<Longrightarrow> cg_nodes G n = None \<Longrightarrow> registers B n G (map_ideal_node n (phantom_obj G) G)"
    "Field \<in> node_kinds B n \<Longrightarrow> address_offset B n = Some off \<Longrightarrow> is_oop_field B n off = (oop, unsafe) \<Longrightarrow>
       registers B n G (add_field n NoEscape off oop unsafe G)"
  using builds_local_var [OF inv _ assms(2)] builds_java_object [OF inv _ assms(2)] builds_map_phantom [OF inv] builds_field [OF inv]
  by (auto simp: registers_def add_local_var_def add_java_object_def map_ideal_node_def add_field_def Let_def split: option.split)

lemma add_registered:
  "cg_nodes (add_local_var n es G) n \<noteq> None" "cg_nodes (add_java_object n es G) n \<noteq> None" "cg_nodes (map_ideal_node n p G) n \<noteq> None"
  "cg_nodes (add_field n es off oop unsafe G) n \<noteq> None"
  by (auto simp: add_local_var_def add_java_object_def map_ideal_node_def add_field_def Let_def split: option.split)

lemma registers_not_scalar_replaceable:
  assumes "registers B n G H"
  shows "registers B n G (not_scalar_replaceable m H)"
  using registers_then [OF assms builds_not_scalar_replaceable] assms
  by (auto simp: registers_def builds_def not_scalar_replaceable_def split: option.splits)

lemma not_scalar_replaceable_nodes [simp]: "cg_nodes (not_scalar_replaceable m G) = cg_nodes G"
  by (simp add: not_scalar_replaceable_def split: option.split)

lemma NoEscape_le [simp]: "NoEscape \<le> NoEscape" "NoEscape \<le> ArgEscape"
  by (simp_all add: es_less_defs)

lemma add_call_node_registers:
  assumes inv: "build_inv B G" and ok: "ideal_ok B" and c: "is_Call B call" and un: "cg_nodes G call = None"
    and r: "add_call_node B call G = Some G'"
  shows "registers B call G G' \<and> cg_nodes G' call \<noteq> None"
proof -
  have nc: "\<not> copy_call B call"
    using r ok by (auto simp: add_call_node_def ideal_ok_def copy_call_def split: if_splits)
  then have k: "JavaObject \<in> node_kinds B call" "LocalVar \<in> node_kinds B call" using c by (simp_all add: node_kinds_def)
  note a = registers_add [OF inv]
  have es: "NoEscape \<le> fst (allocate_array_state B call)" "NoEscape \<le> allocate_instance_state B call"
    by (simp_all add: allocate_array_state_def allocate_instance_state_def Let_def)
  show ?thesis
    using r a(1) [OF _ k(2)] a(2) [OF _ k(1)] a(3) [OF NoEscape_le(1) k(1) un] es add_registered
    by (auto simp: add_call_node_def Let_def split_beta registers_not_scalar_replaceable split: if_splits)
qed

definition visits :: "build_ideal \<Rightarrow> node \<Rightarrow> build_state \<Rightarrow> build_state \<Rightarrow> bool" where
  "visits B n s s' \<longleftrightarrow> registers B n (bs_graph s) (bs_graph s') \<and> set (bs_delayed s) \<subseteq> set (bs_delayed s') \<and>
     set (bs_delayed s') \<subseteq> insert n (set (bs_delayed s))"

lemma set_push_unique [simp]: "set (push_unique n ns) = insert n (set ns)"
  by (auto simp: push_unique_def)

lemma build_state_simps [simp]:
  "bs_graph (delay n s) = bs_graph s" "bs_delayed (delay n s) = push_unique n (bs_delayed s)"
  "bs_graph (record_node n s) = bs_graph s" "bs_delayed (record_node n s) = bs_delayed s"
  "bs_graph (on_graph f s) = f (bs_graph s)" "bs_delayed (on_graph f s) = bs_delayed s"
  by (simp_all add: delay_def record_node_def on_graph_def)

lemma visits_refl: "build_inv B (bs_graph s) \<Longrightarrow> visits B n s s"
  by (auto simp: visits_def registers_refl)

lemma visits_delay: "visits B n s s' \<Longrightarrow> visits B n s (delay n s')"
  by (auto simp: visits_def)

lemma visits_record: "visits B n s s' \<Longrightarrow> visits B n s (record_node m s')"
  by (auto simp: visits_def)

lemma visits_graph: "registers B n (bs_graph s) (f (bs_graph s)) \<Longrightarrow> visits B n s (on_graph f s)"
  by (auto simp: visits_def)

lemma local_var_and_edge_visits:
  assumes inv: "build_inv B (bs_graph s)" and k: "node_kinds B n = {LocalVar}" and es: "NoEscape \<le> es"
    and r: "local_var_and_edge n es to s = Some s'"
  shows "visits B n s s' \<and> cg_nodes (bs_graph s') n \<noteq> None"
proof -
  let ?G = "bs_graph s"
  let ?G1 = "add_local_var n es ?G"
  from k have 1: "registers B n ?G ?G1" by (intro registers_add [OF inv es]) simp
  then have i1: "build_inv B ?G1" "extends ?G ?G1" by (simp_all add: registers_def builds_def)
  obtain m where to: "to = Some m" using r by (auto simp: local_var_and_edge_def split: option.splits)
  from r add_registered(1) [of n es ?G] consider (late) "s' = s\<lparr>bs_graph := ?G1, bs_delayed := push_unique n (bs_delayed s)\<rparr>"
    | (now) p q where "ptnode_adr ?G1 n = Some p" "ptnode_adr ?G m = Some q" "s' = s\<lparr>bs_graph := fst (add_edge p q ?G1)\<rparr>"
    by (auto simp: local_var_and_edge_def to add_local_var_and_edge_def Let_def push_unique_def split: if_splits option.splits)
  then show ?thesis
  proof cases
    case late
    with 1 add_registered(1) [of n es ?G] show ?thesis by (auto simp: visits_def)
  next
    case now
    have q: "q < cg_next_pidx ?G1" using ptnode_range [OF inv now(2)] extendsD(1) [OF i1(2)] by simp
    have "is_LocalVar ?G1 p" using kinds_okD(1) [OF build_invD(6) [OF i1(1)] now(1)] k by simp
    with builds_edge [OF i1(1) ptnode_range [OF i1(1) now(1)] q] have "builds B ?G1 (fst (add_edge p q ?G1))" by simp
    from registers_then [OF 1 this] now add_registered(1) [of n es ?G] show ?thesis by (auto simp: visits_def cg_frame)
  qed
qed

lemma add_objload_visits:
  assumes inv: "build_inv B (bs_graph s)" and k: "node_kinds B n = {LocalVar}"
    and r: "add_objload_to_connection_graph B n s = Some s'"
  shows "visits B n s s' \<and> (has_make_ptr B n \<longrightarrow> cg_nodes (bs_graph s') n \<noteq> None)"
proof (cases "has_make_ptr B n")
  case True
  with r obtain adr where "local_var_and_edge n NoEscape (Some adr) s = Some s'"
    by (auto simp: add_objload_to_connection_graph_def split: option.splits if_splits)
  from local_var_and_edge_visits [OF inv k NoEscape_le(1) this] show ?thesis by simp
qed (use r inv in \<open>simp add: add_objload_to_connection_graph_def visits_refl\<close>)

lemma add_unsafe_access_visits:
  assumes v: "visits B n s s1" and r: "add_to_congraph_unsafe_access B n opc s1 = Some s'"
  shows "visits B n s s' \<and> bs_graph s' = bs_graph s1"
  using r v by (auto simp: add_to_congraph_unsafe_access_def visits_delay split: option.splits if_splits)

lemma add_call_visits:
  assumes inv: "build_inv B (bs_graph s)" and ok: "ideal_ok B" and c: "is_Call B n" and un: "cg_nodes (bs_graph s) n = None"
    and r: "add_call_to_connection_graph B n s = Some s'"
  shows "visits B n s s' \<and> (\<not> is_AbstractLock B n \<and> (is_Allocate B n \<or> \<not> (is_CallStaticJava B n \<and> is_uncommon_trap B n) \<and>
    (returns_pointer B n \<and> has_result_proj B n \<or> is_CallStaticJava B n \<and> is_boxing_call B n)) \<longrightarrow> cg_nodes (bs_graph s') n \<noteq> None) \<and>
    (\<not> is_AbstractLock B n \<and> \<not> is_Allocate B n \<and> \<not> (is_CallStaticJava B n \<and> is_uncommon_trap B n) \<longrightarrow> n \<in> set (bs_delayed s'))"
proof -
  have *: "registers B n (bs_graph s) G' \<and> cg_nodes G' n \<noteq> None" if "add_call_node B n (bs_graph s) = Some G'" for G'
    by (rule add_call_node_registers [OF inv ok c un that])
  show ?thesis
    using r * registers_refl [OF inv]
    by (auto simp: add_call_to_connection_graph_def visits_def Let_def split: if_splits)
qed

lemma add_addp_visits:
  assumes inv: "build_inv B (bs_graph s)" and ok: "ideal_ok B" and k: "node_kinds B n = {Field}"
    and r: "add_addp_to_connection_graph B n s = Some s'"
  shows "visits B n s s' \<and> cg_nodes (bs_graph s') n \<noteq> None"
proof -
  let ?G = "bs_graph s"
  from r obtain base off where b: "get_addp_base B n = Some base" "address_offset B n = Some off"
    by (auto simp: add_addp_to_connection_graph_def split: option.splits)
  obtain oop unsafe where o: "is_oop_field B n off = (oop, unsafe)" by (cases "is_oop_field B n off")
  let ?G1 = "add_field n NoEscape off oop unsafe ?G"
  from k have 1: "registers B n ?G ?G1" by (intro registers_add(4) [OF inv NoEscape_le(1) _ b(2) o]) simp
  then have i1: "build_inv B ?G1" "extends ?G ?G1" by (simp_all add: registers_def builds_def)
  note reg = add_registered(4) [of n NoEscape off oop unsafe ?G]
  show ?thesis
  proof (cases "ptnode_adr ?G base")
    case None
    with r 1 reg show ?thesis by (auto simp: add_addp_to_connection_graph_def b o Let_def visits_def)
  next
    case (Some q)
    from reg obtain f where f: "ptnode_adr ?G1 n = Some f" by (auto simp: ptnode_adr_def)
    have q: "ptnode_adr ?G1 base = Some q" using extendsD(7) [OF i1(2)] Some by (simp add: ptnode_adr_def)
    have "is_Field ?G1 f" using kinds_okD(1) [OF build_invD(6) [OF i1(1)] f] k by simp
    moreover have "\<not> is_Arraycopy ?G1 q"
      using kinds_okD(1) [OF build_invD(6) [OF i1(1)] q] ok b(1) by (auto simp: ideal_ok_def node_kinds_def split: if_splits)
    ultimately have "builds B ?G1 (fst (add_base f q ?G1))"
      by (intro builds_base [OF i1(1) ptnode_range [OF i1(1) f] ptnode_range [OF i1(1) q]])
    from registers_then [OF 1 this] r Some f reg show ?thesis
      by (auto simp: add_addp_to_connection_graph_def b o Let_def visits_def cg_frame)
  qed
qed

text \<open>The nodes that the first pass has to register: those that yield a pointer.\<close>

definition pointer_node :: "build_ideal \<Rightarrow> node \<Rightarrow> bool" where
  "pointer_node B n \<longleftrightarrow>
     (if is_Call B n then \<not> is_AbstractLock B n \<and> (is_Allocate B n \<or> \<not> (is_CallStaticJava B n \<and> is_uncommon_trap B n) \<and>
        (returns_pointer B n \<and> has_result_proj B n \<or> is_CallStaticJava B n \<and> is_boxing_call B n))
      else case Opcode B n of
        Op_LoadP \<Rightarrow> has_make_ptr B n | Op_LoadN \<Rightarrow> has_make_ptr B n | Op_LoadPLocked \<Rightarrow> has_make_ptr B n
      | Op_CompareAndExchangeP \<Rightarrow> has_make_ptr B n | Op_CompareAndExchangeN \<Rightarrow> has_make_ptr B n
      | Op_GetAndSetP \<Rightarrow> has_make_ptr B n | Op_GetAndSetN \<Rightarrow> has_make_ptr B n
      | Op_Phi \<Rightarrow> phi_has_make_ptr B n
      | Op_Proj \<Rightarrow> is_result_proj B n \<and> (\<exists>c. input B n 0 = Some c \<and> is_Call B c \<and> returns_pointer B c)
      | Op_Rethrow \<Rightarrow> req B n > Parms \<and> (\<exists>v. input B n Parms = Some v \<and> isa_oopptr B v)
      | Op_Return \<Rightarrow> req B n > Parms \<and> (\<exists>v. input B n Parms = Some v \<and> isa_oopptr B v)
      | opc \<Rightarrow> opc \<in> {Op_AddP, Op_CastX2P, Op_CreateEx, Op_LoadKlass, Op_LoadNKlass, Op_Parm, Op_PartialSubtypeCheck, Op_ConP, Op_ConN,
          Op_ConNKlass, Op_ThreadLocal} \<or> local_var_opcode opc)"

text \<open>A node that is not a call, before its visit, and what the visit has to achieve.\<close>

definition unvisited :: "build_ideal \<Rightarrow> node \<Rightarrow> build_state \<Rightarrow> bool" where
  "unvisited B n s \<longleftrightarrow> build_inv B (bs_graph s) \<and> ideal_ok B \<and> cg_nodes (bs_graph s) n = None \<and> \<not> gc_add_to_con_graph B n \<and> \<not> is_Call B n"

definition delayed_call :: "build_ideal \<Rightarrow> node \<Rightarrow> bool" where
  "delayed_call B n \<longleftrightarrow> is_Call B n \<and> \<not> gc_add_to_con_graph B n \<and> \<not> is_AbstractLock B n \<and> \<not> is_Allocate B n \<and>
     \<not> (is_CallStaticJava B n \<and> is_uncommon_trap B n)"

definition visited :: "build_ideal \<Rightarrow> node \<Rightarrow> build_state \<Rightarrow> build_state \<Rightarrow> bool" where
  "visited B n s s' \<longleftrightarrow> visits B n s s' \<and> (pointer_node B n \<and> \<not> gc_add_to_con_graph B n \<longrightarrow> cg_nodes (bs_graph s') n \<noteq> None) \<and>
     (delayed_call B n \<and> cg_nodes (bs_graph s) n = None \<longrightarrow> n \<in> set (bs_delayed s'))"

lemma unvisitedD:
  assumes "unvisited B n s"
  shows "build_inv B (bs_graph s)" "ideal_ok B" "cg_nodes (bs_graph s) n = None" "ptnode_adr (bs_graph s) n = None"
    "\<not> gc_add_to_con_graph B n" "\<not> is_Call B n" "\<not> cg_verify (bs_graph s)" "\<not> delayed_call B n"
  using assms build_invD(8) by (auto simp: unvisited_def ptnode_adr_def delayed_call_def)

lemma unvisited_kinds:
  assumes "unvisited B n s"
  shows "Opcode B n = Op_AddP \<Longrightarrow> node_kinds B n = {Field}" "local_var_opcode (Opcode B n) \<Longrightarrow> node_kinds B n = {LocalVar}"
    "Opcode B n \<noteq> Op_AddP \<Longrightarrow> \<not> local_var_opcode (Opcode B n) \<Longrightarrow> node_kinds B n = {JavaObject}"
  using unvisitedD(6) [OF assms] by (auto simp: node_kinds_def local_var_opcode_def)

lemma visited_phantom:
  assumes "unvisited B n s" and "Opcode B n \<noteq> Op_AddP" "\<not> local_var_opcode (Opcode B n)"
  shows "visited B n s (on_graph (map_ideal_node n (phantom_obj (bs_graph s))) s)"
  using registers_add(3) [OF unvisitedD(1) [OF assms(1)] NoEscape_le(1)] unvisited_kinds(3) [OF assms] unvisitedD(3,8) [OF assms(1)]
    add_registered(3)
  by (auto simp: visited_def intro!: visits_graph)

lemma visited_java_object:
  assumes "unvisited B n s" and "Opcode B n \<noteq> Op_AddP" "\<not> local_var_opcode (Opcode B n)" "NoEscape \<le> es"
  shows "visited B n s (on_graph (add_java_object n es) s)"
  using registers_add(2) [OF unvisitedD(1) [OF assms(1)] assms(4)] unvisited_kinds(3) [OF assms(1-3)] unvisitedD(8) [OF assms(1)] add_registered(2)
  by (auto simp: visited_def intro!: visits_graph)

lemma visited_local_var:
  assumes "unvisited B n s" and "local_var_opcode (Opcode B n)" "NoEscape \<le> es"
  shows "visited B n s (delay n (on_graph (add_local_var n es) s))"
  using registers_add(1) [OF unvisitedD(1) [OF assms(1)] assms(3)] unvisited_kinds(2) [OF assms(1,2)] unvisitedD(8) [OF assms(1)] add_registered(1)
  by (auto simp: visited_def intro!: visits_graph visits_delay)

lemma visited_edge:
  assumes "unvisited B n s" and "local_var_opcode (Opcode B n)" "NoEscape \<le> es" and "local_var_and_edge n es to s = Some s'"
  shows "visited B n s s'"
  using local_var_and_edge_visits [OF unvisitedD(1) [OF assms(1)] unvisited_kinds(2) [OF assms(1,2)] assms(3,4)]
    unvisitedD(8) [OF assms(1)]
  by (simp add: visited_def)

lemma visited_unchanged: "unvisited B n s \<Longrightarrow> \<not> pointer_node B n \<Longrightarrow> visited B n s s"
  by (simp add: visited_def visits_refl unvisitedD)

lemma visited_load:
  assumes "unvisited B n s" and "local_var_opcode (Opcode B n)" and "pointer_node B n \<Longrightarrow> has_make_ptr B n"
    and "add_objload_to_connection_graph B n s = Some s'"
  shows "visited B n s s'"
  using add_objload_visits [OF unvisitedD(1) [OF assms(1)] unvisited_kinds(2) [OF assms(1,2)] assms(4)] assms(3)
    unvisitedD(8) [OF assms(1)]
  by (auto simp: visited_def)

lemma visited_access:
  assumes "visited B n s s1" and "\<not> delayed_call B n" and "add_to_congraph_unsafe_access B n opc s1 = Some s'"
  shows "visited B n s s'"
  using add_unsafe_access_visits [OF _ assms(3), of s] assms(1,2) by (simp add: visited_def)

text \<open>The opcodes, one group at a time.\<close>

lemma pointer_node_opcode:
  assumes "\<not> is_Call B n"
  shows "Opcode B n \<in> {Op_StoreP, Op_StoreN, Op_StoreNKlass, Op_StorePConditional, Op_WeakCompareAndSwapP, Op_WeakCompareAndSwapN,
      Op_CompareAndSwapP, Op_CompareAndSwapN, Op_CmpP, Op_CmpN, Op_ArrayCopy, Op_CallLeafNoFP, Op_CallLeaf, Op_CallStaticJava,
      Op_CallDynamicJava, Op_MemBarRelease} \<Longrightarrow> \<not> pointer_node B n"
    "Opcode B n = Op_other k \<Longrightarrow> \<not> pointer_node B n"
    "Opcode B n \<in> {Op_LoadP, Op_LoadN, Op_LoadPLocked, Op_CompareAndExchangeP, Op_CompareAndExchangeN, Op_GetAndSetP, Op_GetAndSetN} \<Longrightarrow>
       pointer_node B n = has_make_ptr B n"
    "Opcode B n = Op_Phi \<Longrightarrow> pointer_node B n = phi_has_make_ptr B n"
    "Opcode B n = Op_Proj \<Longrightarrow> pointer_node B n = (is_result_proj B n \<and> (\<exists>c. input B n 0 = Some c \<and> is_Call B c \<and> returns_pointer B c))"
    "Opcode B n = Op_Rethrow \<or> Opcode B n = Op_Return \<Longrightarrow>
       pointer_node B n = (req B n > Parms \<and> (\<exists>v. input B n Parms = Some v \<and> isa_oopptr B v))"
  using assms by (auto simp: pointer_node_def local_var_opcode_def)

lemma visited_opcode:
  assumes u: "unvisited B n s" and r: "add_node_to_connection_graph B n s = Some s'"
  shows "visited B n s s'"
proof -
  note d = unvisitedD [OF u] and p = pointer_node_opcode [OF unvisitedD(6) [OF u]]
  note r' = r [unfolded add_node_to_connection_graph_def Let_def, simplified d if_False not_not not_True_eq_False, simplified]
  note lo = local_var_opcode_def
  have ?thesis if o: "Opcode B n = Op_AddP"
    using r' o add_addp_visits [OF d(1,2) unvisited_kinds(1) [OF u o], of s'] d(8) by (simp add: visited_def)
  moreover have ?thesis if o: "Opcode B n \<in> {Op_CastX2P, Op_CreateEx, Op_LoadKlass, Op_LoadNKlass, Op_Parm, Op_PartialSubtypeCheck}"
    using o r' visited_phantom [OF u] by (elim insertE emptyE) (auto simp: lo)
  moreover have ?thesis if o: "Opcode B n \<in> {Op_CastPP, Op_CheckCastPP, Op_EncodeP, Op_DecodeN, Op_EncodePKlass, Op_DecodeNKlass}"
    using o r' by (elim insertE emptyE) (simp_all add: lo visited_edge [OF u _ NoEscape_le(1)])
  moreover have ?thesis if o: "Opcode B n = Op_CMoveP"
    using o r' visited_local_var [OF u _ NoEscape_le(1)] by (auto simp: lo)
  moreover have ?thesis if o: "Opcode B n = Op_Phi"
    using o r' visited_local_var [OF u _ NoEscape_le(1)] visited_unchanged [OF u] p(4) by (auto simp: lo split: if_splits)
  moreover have ?thesis if o: "Opcode B n \<in> {Op_ConP, Op_ConN, Op_ConNKlass, Op_ThreadLocal}"
    using o r' visited_java_object [OF u] by (elim insertE emptyE) (auto simp: lo split: if_splits)
  moreover have ?thesis if o: "Opcode B n \<in> {Op_LoadP, Op_LoadN, Op_LoadPLocked}"
    using o r' p(3) visited_load [OF u, of s'] by (elim insertE emptyE) (simp_all add: lo)
  moreover have ?thesis if o: "Opcode B n = Op_Proj"
    using o r' visited_unchanged [OF u] p(5) visited_edge [OF u _ NoEscape_le(1)] by (simp add: lo split: option.splits if_splits)
  moreover have ?thesis if o: "Opcode B n = Op_Rethrow \<or> Opcode B n = Op_Return"
    using o r' visited_unchanged [OF u] p(6) visited_edge [OF u _ GlobalEscape_top(1)]
    by (elim disjE) (simp_all add: lo split: option.splits if_splits)
  moreover have ?thesis if o: "Opcode B n \<in> {Op_CompareAndExchangeP, Op_CompareAndExchangeN, Op_GetAndSetP, Op_GetAndSetN}"
  proof -
    from o r' obtain s1 where s1: "add_objload_to_connection_graph B n s = Some s1"
      "add_to_congraph_unsafe_access B n (Opcode B n) s1 = Some s'"
      by (elim insertE emptyE) (simp_all add: Option.bind_eq_Some_conv, blast+)
    from o have "local_var_opcode (Opcode B n)" "pointer_node B n = has_make_ptr B n" using p(3) by (auto simp: lo)
    from visited_access [OF visited_load [OF u this(1) _ s1(1)] d(8) s1(2)] this(2) show ?thesis by simp
  qed
  moreover have ?thesis if o: "Opcode B n \<in> {Op_StoreP, Op_StoreN, Op_StoreNKlass, Op_StorePConditional, Op_WeakCompareAndSwapP,
      Op_WeakCompareAndSwapN, Op_CompareAndSwapP, Op_CompareAndSwapN}"
    using o r' p(1) visited_access [OF visited_unchanged [OF u] d(8)] by (elim insertE emptyE) simp_all
  moreover have ?thesis if o: "Opcode B n \<in> {Op_AryEq, Op_HasNegatives, Op_StrComp, Op_StrEquals, Op_StrIndexOf, Op_StrIndexOfChar,
      Op_StrInflatedCopy, Op_StrCompressedCopy, Op_EncodeISOArray}"
    using o r' visited_local_var [OF u _ NoEscape_le(2)] by (elim insertE emptyE) (auto simp: lo)
  moreover have ?thesis if o: "Opcode B n \<in> {Op_CmpP, Op_CmpN, Op_ArrayCopy, Op_CallLeafNoFP, Op_CallLeaf, Op_CallStaticJava,
      Op_CallDynamicJava, Op_MemBarRelease}"
    using o r' p(1) visited_unchanged [OF u] by (elim insertE emptyE) simp_all
  moreover have ?thesis if o: "Opcode B n = Op_other k" for k
    using o r' p(2) visited_unchanged [OF u] by simp
  ultimately show ?thesis by (cases "Opcode B n") simp_all
qed

lemma add_node_visited:
  assumes inv: "build_inv B (bs_graph s)" and ok: "ideal_ok B" and r: "add_node_to_connection_graph B n s = Some s'"
  shows "visited B n s s'"
proof -
  note f = build_invD(8) [OF inv]
  consider (same) "cg_nodes (bs_graph s) n \<noteq> None \<or> gc_add_to_con_graph B n"
    | (call) "cg_nodes (bs_graph s) n = None" "\<not> gc_add_to_con_graph B n" "is_Call B n" | (opc) "unvisited B n s"
    using inv ok by (metis unvisited_def)
  then show ?thesis
  proof cases
    case same
    then have "s' = s" using r f by (auto simp: add_node_to_connection_graph_def ptnode_adr_def Let_def split: if_splits)
    with same inv show ?thesis by (auto simp: visited_def visits_refl delayed_call_def)
  next
    case call
    then have "add_call_to_connection_graph B n s = Some s'"
      using r f by (simp add: add_node_to_connection_graph_def ptnode_adr_def Let_def)
    from add_call_visits [OF inv ok call(3,1) this] call show ?thesis by (simp add: visited_def pointer_node_def delayed_call_def)
  next
    case opc
    then show ?thesis using r by (rule visited_opcode)
  qed
qed

section \<open>The assertions of the first pass\<close>

text \<open>The conditions on the ideal graph under which no assertion fails when a node is visited.\<close>

definition call_ok :: "build_ideal \<Rightarrow> node \<Rightarrow> bool" where
  "call_ok B n \<longleftrightarrow> is_AbstractLock B n \<or> returns_pointer B n \<and>
     (if is_Allocate B n then has_klassptr B n
      else if is_CallStaticJava B n then has_method B n \<or> is_multianewarray B n
      else Opcode B n = Op_CallDynamicJava)"

definition load_ok :: "build_ideal \<Rightarrow> node \<Rightarrow> bool" where
  "load_ok B n \<longleftrightarrow> (has_make_ptr B n \<longrightarrow> (\<exists>adr. input B n mem_Address = Some adr \<and>
     (if is_AddP B adr then \<not> is_Call B adr \<and> (\<forall>off. address_offset B adr = Some off \<longrightarrow> fst (is_oop_field B adr off))
      else isa_rawptr B adr)))"

definition access_ok :: "build_ideal \<Rightarrow> node \<Rightarrow> bool" where
  "access_ok B n \<longleftrightarrow> (\<exists>adr. input B n mem_Address = Some adr \<and>
     (has_make_ptr B adr \<longrightarrow>
       (if is_oop_store_address B (Opcode B n) adr then
          is_AddP B adr \<and> (make_ptr_is_notnull_raw B adr \<longrightarrow>
            (\<exists>off. input B adr addp_Offset = Some off \<and> signed_take_bit 31 (find_intptr_t_con B off (OffsetBot B)) \<noteq> OffsetBot B))
        else is_BoxLock B adr \<or> Opcode B n = Op_StoreP \<and> make_ptr_isa_rawptr B adr)))"

definition node_ok :: "build_ideal \<Rightarrow> node \<Rightarrow> bool" where
  "node_ok B n \<longleftrightarrow> gc_add_to_con_graph B n \<or>
     (if is_Call B n then pointer_node B n \<longrightarrow> call_ok B n
      else let opc = Opcode B n in
        (opc = Op_AddP \<longrightarrow> get_addp_base B n \<noteq> None \<and> address_offset B n \<noteq> None) \<and>
        (opc \<in> {Op_CastPP, Op_CheckCastPP, Op_EncodeP, Op_DecodeN, Op_EncodePKlass, Op_DecodeNKlass} \<longrightarrow> input B n 1 \<noteq> None) \<and>
        (opc \<in> {Op_LoadP, Op_LoadN, Op_LoadPLocked, Op_CompareAndExchangeP, Op_CompareAndExchangeN, Op_GetAndSetP, Op_GetAndSetN} \<longrightarrow>
           load_ok B n) \<and>
        (opc = Op_Proj \<longrightarrow> input B n 0 \<noteq> None) \<and>
        (opc \<in> {Op_Rethrow, Op_Return} \<longrightarrow> req B n > Parms \<longrightarrow> input B n Parms \<noteq> None) \<and>
        (opc \<in> {Op_StoreP, Op_StoreN, Op_StoreNKlass, Op_StorePConditional, Op_WeakCompareAndSwapP, Op_WeakCompareAndSwapN, Op_CompareAndSwapP,
           Op_CompareAndSwapN, Op_CompareAndExchangeP, Op_CompareAndExchangeN, Op_GetAndSetP, Op_GetAndSetN} \<longrightarrow> access_ok B n))"

lemma local_var_and_edge_succeeds: "\<exists>s'. local_var_and_edge n es (Some t) s = Some s'"
  using add_registered(1) [of n es "bs_graph s"]
  by (auto simp: local_var_and_edge_def add_local_var_and_edge_def Let_def ptnode_adr_def split: option.splits)

lemma local_var_and_edge_succeeds': "to \<noteq> None \<Longrightarrow> \<exists>s'. local_var_and_edge n es to s = Some s'"
  using local_var_and_edge_succeeds by auto

lemma add_objload_succeeds:
  assumes inv: "build_inv B (bs_graph s)" and ok: "load_ok B n"
  shows "\<exists>s'. add_objload_to_connection_graph B n s = Some s'"
proof (cases "has_make_ptr B n")
  case True
  with ok obtain adr where adr: "input B n mem_Address = Some adr"
    "if is_AddP B adr then \<not> is_Call B adr \<and> (\<forall>off. address_offset B adr = Some off \<longrightarrow> fst (is_oop_field B adr off)) else isa_rawptr B adr"
    by (auto simp: load_ok_def)
  have "is_Field (bs_graph s) p \<and> pt_is_oop (cg_heap (bs_graph s) p)" if "is_AddP B adr" and p: "ptnode_adr (bs_graph s) adr = Some p" for p
  proof -
    note k = kinds_okD [OF build_invD(6) [OF inv] p]
    have "is_Field (bs_graph s) p" using k(1) that(1) adr(2) by (simp add: node_kinds_def is_AddP_def)
    with k(3) that(1) adr(2) show ?thesis by auto
  qed
  then show ?thesis using True adr local_var_and_edge_succeeds [of n NoEscape adr s]
    by (auto simp: add_objload_to_connection_graph_def split: option.split)
qed (simp add: add_objload_to_connection_graph_def)

lemma add_unsafe_access_succeeds: "access_ok B n \<Longrightarrow> \<exists>s'. add_to_congraph_unsafe_access B n (Opcode B n) s = Some s'"
  by (auto simp: access_ok_def add_to_congraph_unsafe_access_def split: option.split if_splits)

lemma add_call_node_succeeds:
  assumes "call_ok B n" "\<not> is_AbstractLock B n"
  shows "\<exists>G'. add_call_node B n G = Some G'"
  using assms by (auto simp: call_ok_def add_call_node_def Let_def split_beta split: if_splits)

lemma add_call_succeeds:
  assumes "is_Call B n" and "pointer_node B n \<longrightarrow> call_ok B n"
  shows "\<exists>s'. add_call_to_connection_graph B n s = Some s'"
proof (cases "pointer_node B n")
  case True
  with assms have "\<exists>G'. add_call_node B n (bs_graph s) = Some G'"
    by (intro add_call_node_succeeds) (simp_all add: pointer_node_def)
  then show ?thesis by (auto simp: add_call_to_connection_graph_def Let_def)
qed (use assms in \<open>auto simp: add_call_to_connection_graph_def Let_def pointer_node_def\<close>)

lemma add_addp_succeeds:
  assumes "get_addp_base B n \<noteq> None" "address_offset B n \<noteq> None"
  shows "\<exists>s'. add_addp_to_connection_graph B n s = Some s'"
proof -
  obtain base off where "get_addp_base B n = Some base" "address_offset B n = Some off" using assms by auto
  then show ?thesis using add_registered(4) [of n NoEscape off "fst (is_oop_field B n off)" "snd (is_oop_field B n off)" "bs_graph s"]
    by (auto simp: add_addp_to_connection_graph_def Let_def ptnode_adr_def split_beta split: option.split)
qed

lemma add_node_succeeds:
  assumes inv: "build_inv B (bs_graph s)" and ok: "node_ok B n"
  shows "\<exists>s'. add_node_to_connection_graph B n s = Some s'"
proof (cases "ptnode_adr (bs_graph s) n = None \<and> \<not> gc_add_to_con_graph B n")
  case True
  note f = build_invD(8) [OF inv]
  show ?thesis
  proof (cases "is_Call B n")
    case c: True
    with True f ok add_call_succeeds [OF c] show ?thesis by (simp add: add_node_to_connection_graph_def node_ok_def)
  next
    case c: False
    note e = add_node_to_connection_graph_def [of B n s, unfolded Let_def, simplified True f c, simplified]
    note lv = local_var_and_edge_succeeds' [of _ n _ s] local_var_and_edge_succeeds [of n _ _ s] and ob = add_objload_succeeds [OF inv, of n]
    note o = ok [unfolded node_ok_def Let_def, simplified True c, simplified]
    have ac: "\<exists>s'. add_to_congraph_unsafe_access B n (Opcode B n) s1 = Some s'" if "access_ok B n" for s1
      using that by (rule add_unsafe_access_succeeds)
    have cx: "\<exists>s'. Option.bind (add_objload_to_connection_graph B n s) (add_to_congraph_unsafe_access B n (Opcode B n)) = Some s'"
      if l: "load_ok B n" and a: "access_ok B n"
    proof -
      from ob [OF l] obtain s1 where "add_objload_to_connection_graph B n s = Some s1" by blast
      with ac [OF a, of s1] show ?thesis by simp
    qed
    show ?thesis
    proof (cases "Opcode B n \<in> {Op_CompareAndExchangeP, Op_CompareAndExchangeN, Op_GetAndSetP, Op_GetAndSetN, Op_StoreP, Op_StoreN, Op_StoreNKlass,
        Op_StorePConditional, Op_WeakCompareAndSwapP, Op_WeakCompareAndSwapN, Op_CompareAndSwapP, Op_CompareAndSwapN}")
      case True
      then show ?thesis using o ac [of s] cx unfolding e by (elim insertE emptyE) simp_all
    next
      case False
      then show ?thesis using o lv ob add_addp_succeeds [of B n s] unfolding e by (cases "Opcode B n"; simp split: option.split; force)
    qed
  qed
qed (use build_invD(8) [OF inv] in \<open>auto simp: add_node_to_connection_graph_def Let_def\<close>)

end
