(* ===== verification/First_Pass.thy ===== *)
theory First_Pass
  imports Build_Invariant
begin

text \<open>
  The first loop of \<open>compute_escape\<close>: it visits each node reachable from the root once, registers the nodes that
  yield pointers and fills the worklists of the later steps.
\<close>

section \<open>The worklist of ideal nodes\<close>

inductive reachable :: "build_ideal \<Rightarrow> node \<Rightarrow> bool" for B where
  root: "root B = Some r \<Longrightarrow> reachable B r"
| out: "reachable B n \<Longrightarrow> m \<in> set (outs B n) \<Longrightarrow> reachable B m"

lemma fold_push_unique:
  "\<exists>zs. fold push_unique xs ys = ys @ zs \<and> set zs \<subseteq> set xs \<and> set xs \<subseteq> set (ys @ zs) \<and> (distinct ys \<longrightarrow> distinct (ys @ zs))"
proof (induction xs arbitrary: ys)
  case (Cons x xs)
  let ?ys = "push_unique x ys"
  obtain zs where zs: "fold push_unique xs ?ys = ?ys @ zs" "set zs \<subseteq> set xs" "set xs \<subseteq> set (?ys @ zs)"
    "distinct ?ys \<longrightarrow> distinct (?ys @ zs)" using Cons by blast
  show ?case
  proof (cases "x \<in> set ys")
    case True
    then have "?ys = ys" by (simp add: push_unique_def)
    with zs True show ?thesis by (intro exI [of _ zs]) auto
  next
    case False
    then have "?ys = ys @ [x]" by (simp add: push_unique_def)
    with zs False show ?thesis by (intro exI [of _ "x # zs"]) auto
  qed
qed simp

lemma nth_take_set: "i < length xs \<Longrightarrow> set (take (Suc i) xs) = insert (xs ! i) (set (take i xs))"
  by (simp add: take_Suc_conv_app_nth)

section \<open>The invariant of the loop\<close>

abbreviation co_graph :: "collected \<Rightarrow> ConnectionGraph" where
  "co_graph c \<equiv> bs_graph (co_build c)"

text \<open>The worklists of graph nodes agree with the graph.\<close>

definition lists_ok :: "ConnectionGraph \<Rightarrow> collected \<Rightarrow> bool" where
  "lists_ok G0 c \<longleftrightarrow> set (co_ptnodes c) \<subseteq> {..<cg_next_pidx (co_graph c)} \<and>
     (\<forall>p < cg_next_pidx (co_graph c). cg_next_pidx G0 \<le> p \<or> p = phantom_obj G0 \<longrightarrow> p \<in> set (co_ptnodes c)) \<and>
     set (co_java_objects c) = {p \<in> set (co_ptnodes c). is_JavaObject (co_graph c) p} \<and>
     set (co_oop_fields c) = {p \<in> set (co_ptnodes c). is_Field (co_graph c) p \<and> pt_is_oop (cg_heap (co_graph c) p)} \<and>
     set (co_non_escaped c) \<subseteq> set (co_java_objects c)"

text \<open>The nodes in \<open>S\<close> were visited.\<close>

definition nodes_done :: "build_ideal \<Rightarrow> ConnectionGraph \<Rightarrow> node set \<Rightarrow> collected \<Rightarrow> bool" where
  "nodes_done B G0 S c \<longleftrightarrow>
     (\<forall>n. n \<notin> S \<longrightarrow> cg_nodes (co_graph c) n = cg_nodes G0 n) \<and>
     (\<forall>n \<in> S. \<forall>p. cg_nodes (co_graph c) n = Some p \<longrightarrow> p \<in> set (co_ptnodes c)) \<and>
     (\<forall>n \<in> S. pointer_node B n \<and> \<not> gc_add_to_con_graph B n \<longrightarrow> cg_nodes (co_graph c) n \<noteq> None) \<and>
     (\<forall>n \<in> S. delayed_call B n \<longrightarrow> n \<in> set (bs_delayed (co_build c))) \<and>
     set (bs_delayed (co_build c)) \<subseteq> S"

text \<open>The constructor registers no call.\<close>

definition calls_new :: "build_ideal \<Rightarrow> ConnectionGraph \<Rightarrow> bool" where
  "calls_new B G \<longleftrightarrow> (\<forall>n. is_Call B n \<longrightarrow> cg_nodes G n = None)"

definition queue_ok :: "build_ideal \<Rightarrow> nat \<Rightarrow> node list \<Rightarrow> bool" where
  "queue_ok B i ns \<longleftrightarrow> i \<le> length ns \<and> distinct ns \<and> (\<forall>n \<in> set ns. reachable B n) \<and> (\<forall>r. root B = Some r \<longrightarrow> r \<in> set ns) \<and>
     (\<forall>n \<in> set (take i ns). set (outs B n) \<subseteq> set ns)"

definition coll_inv :: "build_ideal \<Rightarrow> ConnectionGraph \<Rightarrow> nat \<Rightarrow> collected \<Rightarrow> bool" where
  "coll_inv B G0 i c \<longleftrightarrow> queue_ok B i (co_nodes c) \<and> builds B G0 (co_graph c) \<and> lists_ok G0 c \<and> calls_new B G0 \<and>
     nodes_done B G0 (set (take i (co_nodes c))) c"

lemma queue_ok_step:
  assumes q: "queue_ok B i ns" and i: "i < length ns"
  shows "queue_ok B (Suc i) (fold push_unique (outs B (ns ! i)) ns)"
    "set (take (Suc i) (fold push_unique (outs B (ns ! i)) ns)) = insert (ns ! i) (set (take i ns))"
proof -
  obtain zs where zs: "fold push_unique (outs B (ns ! i)) ns = ns @ zs" "set zs \<subseteq> set (outs B (ns ! i))"
    "set (outs B (ns ! i)) \<subseteq> set (ns @ zs)" "distinct ns \<longrightarrow> distinct (ns @ zs)" using fold_push_unique by metis
  have r: "reachable B (ns ! i)" using q i by (simp add: queue_ok_def)
  have t: "set (take (Suc i) (ns @ zs)) = insert (ns ! i) (set (take i ns))"
    using nth_take_set [of i "ns @ zs"] i by (simp add: nth_append)
  show "set (take (Suc i) (fold push_unique (outs B (ns ! i)) ns)) = insert (ns ! i) (set (take i ns))" using t zs(1) by simp
  have "reachable B n" if "n \<in> set (ns @ zs)" for n
    using that q zs(2) reachable.out [OF r] by (auto simp: queue_ok_def)
  moreover have "set (outs B n) \<subseteq> set (ns @ zs)" if "n \<in> set (take (Suc i) (ns @ zs))" for n
    using that q zs(3) unfolding t queue_ok_def by auto
  ultimately show "queue_ok B (Suc i) (fold push_unique (outs B (ns ! i)) ns)"
    using q i zs unfolding zs(1) queue_ok_def by auto
qed

text \<open>At the end of the queue, the queue is the set of reachable nodes.\<close>

lemma queue_ok_end:
  assumes "queue_ok B (length ns) ns"
  shows "set ns = {n. reachable B n}"
proof -
  have "n \<in> set ns" if "reachable B n" for n
    using that by induction (use assms in \<open>auto simp: queue_ok_def\<close>)
  with assms show ?thesis by (auto simp: queue_ok_def)
qed

section \<open>One visit\<close>

lemma collect_node_simps [simp]:
  "co_graph (collect_node B n c) = co_graph c" "bs_delayed (co_build (collect_node B n c)) = bs_delayed (co_build c)"
  "co_nodes (collect_node B n c) = co_nodes c" "co_ptnodes (collect_node B n c) = co_ptnodes c"
  "co_java_objects (collect_node B n c) = co_java_objects c" "co_oop_fields (collect_node B n c) = co_oop_fields c"
  "co_non_escaped (collect_node B n c) = co_non_escaped c"
  by (simp_all add: collect_node_def Let_def)

lemma collect_ptn_simps [simp]:
  "co_build (collect_ptn B n c) = co_build c" "co_nodes (collect_ptn B n c) = co_nodes c"
  by (simp_all add: collect_ptn_def Let_def split: option.split)

lemma collect_ptn_lists:
  "set (co_ptnodes (collect_ptn B n c)) =
     set (co_ptnodes c) \<union> {p. cg_nodes (co_graph c) n = Some p \<and> p \<noteq> phantom_obj (co_graph c)}"
  "set (co_java_objects (collect_ptn B n c)) =
     set (co_java_objects c) \<union> {p. cg_nodes (co_graph c) n = Some p \<and> p \<noteq> phantom_obj (co_graph c) \<and> is_JavaObject (co_graph c) p}"
  "set (co_oop_fields (collect_ptn B n c)) =
     set (co_oop_fields c) \<union> {p. cg_nodes (co_graph c) n = Some p \<and> p \<noteq> phantom_obj (co_graph c) \<and> is_Field (co_graph c) p \<and>
       pt_is_oop (cg_heap (co_graph c) p)}"
  "set (co_non_escaped (collect_ptn B n c)) \<subseteq> set (co_non_escaped c) \<union> 
     {p. cg_nodes (co_graph c) n = Some p \<and> p \<noteq> phantom_obj (co_graph c) \<and> is_JavaObject (co_graph c) p}"
  by (auto simp: collect_ptn_def Let_def ptnode_adr_def split: option.split)

lemma lists_ok_step:
  assumes ok: "lists_ok G0 c" and r: "registers B n (co_graph c) (bs_graph s)" and b: "builds B G0 (co_graph c)"
  shows "lists_ok G0 (collect_ptn B n (c\<lparr>co_build := s\<rparr>))"
proof -
  let ?G = "co_graph c" and ?G1 = "bs_graph s" and ?c = "collect_ptn B n (c\<lparr>co_build := s\<rparr>)"
  have e: "extends ?G ?G1" and inv: "build_inv B ?G1" using r by (simp_all add: registers_def builds_def)
  have ph: "phantom_obj ?G1 = phantom_obj G0" "phantom_obj G0 < cg_next_pidx ?G"
    using extendsD(2) [OF e] extendsD(2) [OF buildsD(2) [OF b]] phantom_range(1) [OF build_invD(1) [OF buildsD(1) [OF b]]] by simp_all
  have ran: "p < cg_next_pidx ?G1" if "cg_nodes ?G1 n = Some p" for p using ptnode_range [OF inv] that by (simp add: ptnode_adr_def)
  have old: "p < cg_next_pidx ?G" if "p \<in> set (co_ptnodes c)" for p using ok that by (auto simp: lists_ok_def)
  have new: "cg_nodes ?G1 n = Some p" if "p < cg_next_pidx ?G1" "\<not> p < cg_next_pidx ?G" for p
    using r that by (auto simp: registers_def less_Suc_eq)
  note ty = extendsD(8,9) [OF e]
  note l = collect_ptn_lists [of B n "c\<lparr>co_build := s\<rparr>", simplified]
  have j: "set (co_java_objects ?c) = {p \<in> set (co_ptnodes ?c). is_JavaObject ?G1 p}"
    using ok old ty(1) unfolding l lists_ok_def by auto
  have f: "set (co_oop_fields ?c) = {p \<in> set (co_ptnodes ?c). is_Field ?G1 p \<and> pt_is_oop (cg_heap ?G1 p)}"
    using ok old ty unfolding l lists_ok_def by auto
  have "set (co_ptnodes ?c) \<subseteq> {..<cg_next_pidx ?G1}" using old extendsD(1) [OF e] ran unfolding l by (auto dest: order.strict_trans2)
  moreover have "p \<in> set (co_ptnodes ?c)" if "p < cg_next_pidx ?G1" "cg_next_pidx G0 \<le> p \<or> p = phantom_obj G0" for p
    using that ok new [OF that(1)] ph unfolding l lists_ok_def by (cases "p < cg_next_pidx ?G") auto
  moreover have "set (co_non_escaped ?c) \<subseteq> set (co_java_objects ?c)"
    using l(4) ok unfolding l(2) lists_ok_def by blast
  ultimately show ?thesis using j f by (simp add: lists_ok_def)
qed

lemma lists_ok_node: "lists_ok G0 ((collect_node B n c)\<lparr>co_nodes := ns\<rparr>) = lists_ok G0 c"
  by (simp add: lists_ok_def)

lemma collect_step_inv:
  assumes inv: "coll_inv B G0 i c" and i: "i < length (co_nodes c)" and ok: "ideal_ok B" and nk: "node_ok B (co_nodes c ! i)"
  shows "\<exists>c'. collect_step B (co_nodes c ! i) c = Some c' \<and> coll_inv B G0 (Suc i) c'"
proof -
  let ?n = "co_nodes c ! i" and ?G = "co_graph c"
  from inv have q: "queue_ok B i (co_nodes c)" and b: "builds B G0 ?G" and l: "lists_ok G0 c"
    and d: "nodes_done B G0 (set (take i (co_nodes c))) c" and cn: "calls_new B G0" by (simp_all add: coll_inv_def)
  have nt: "?n \<notin> set (take i (co_nodes c))"
    using q i by (auto simp: queue_ok_def in_set_conv_nth nth_eq_iff_index_eq)
  with d have un: "cg_nodes ?G ?n = cg_nodes G0 ?n" by (simp add: nodes_done_def)
  obtain s where s: "add_node_to_connection_graph B ?n (co_build c) = Some s"
    using add_node_succeeds [OF buildsD(1) [OF b] nk] by blast
  from add_node_visited [OF buildsD(1) [OF b] ok s] have v: "registers B ?n ?G (bs_graph s)"
    "set (bs_delayed s) \<subseteq> insert ?n (set (bs_delayed (co_build c)))"
    "pointer_node B ?n \<and> \<not> gc_add_to_con_graph B ?n \<longrightarrow> cg_nodes (bs_graph s) ?n \<noteq> None"
    "delayed_call B ?n \<and> cg_nodes ?G ?n = None \<longrightarrow> ?n \<in> set (bs_delayed s)" "set (bs_delayed (co_build c)) \<subseteq> set (bs_delayed s)"
    by (auto simp: visited_def visits_def)
  have dc: "delayed_call B ?n \<longrightarrow> ?n \<in> set (bs_delayed s)" using v(4) un cn by (simp add: calls_new_def delayed_call_def)
  let ?c1 = "collect_ptn B ?n (c\<lparr>co_build := s\<rparr>)"
  let ?c' = "(collect_node B ?n ?c1)\<lparr>co_nodes := fold push_unique (outs B ?n) (co_nodes c)\<rparr>"
  have st: "collect_step B ?n c = Some ?c'" by (simp add: collect_step_def s Let_def)
  note l1 = lists_ok_step [OF l v(1) b] and qs = queue_ok_step [OF q i]
  have "lists_ok G0 ?c'" using l1 by (simp only: lists_ok_node)
  moreover have "builds B G0 (bs_graph s)" using b v(1) by (auto simp: registers_def intro: builds_trans)
  moreover have "nodes_done B G0 (insert ?n (set (take i (co_nodes c)))) ?c'"
  proof -
    have ph: "phantom_obj (bs_graph s) \<in> set (co_ptnodes c)"
      using l extendsD(2) [OF buildsD(2), of B ?G "bs_graph s"] v(1) extendsD(2) [OF buildsD(2) [OF b]]
        phantom_range(1) [OF build_invD(1) [OF buildsD(1) [OF b]]] by (simp add: lists_ok_def registers_def)
    have nodes: "cg_nodes (bs_graph s) m = cg_nodes ?G m" if "m \<noteq> ?n" for m using v(1) that by (simp add: registers_def)
    note lp = collect_ptn_lists(1) [of B ?n "c\<lparr>co_build := s\<rparr>", simplified]
    have 1: "cg_nodes (bs_graph s) m = cg_nodes G0 m" if "m \<noteq> ?n" "m \<notin> set (take i (co_nodes c))" for m
      using d that nodes by (simp add: nodes_done_def)
    have 2: "p \<in> set (co_ptnodes ?c1)" if "m = ?n \<or> m \<in> set (take i (co_nodes c))" "cg_nodes (bs_graph s) m = Some p" for m p
      using d that nodes [of m] ph unfolding lp nodes_done_def by (cases "m = ?n"; cases "p = phantom_obj (bs_graph s)") auto
    have 3: "cg_nodes (bs_graph s) m \<noteq> None" if "m = ?n \<or> m \<in> set (take i (co_nodes c))" "pointer_node B m \<and> \<not> gc_add_to_con_graph B m" for m
      using d that nodes [of m] v(3) unfolding nodes_done_def by (cases "m = ?n") auto
    show ?thesis using 1 2 3 v(2,5) dc d unfolding nodes_done_def by auto
  qed
  ultimately show ?thesis using st qs cn by (auto simp: coll_inv_def)
qed

lemmas collect_loop_unfold = collect_loop.simps

text \<open>The loop ends: the queue has no duplicates and only holds nodes of the ideal graph.\<close>

lemma collect_loop_inv:
  assumes "coll_inv B G0 i c" and ok: "ideal_ok B" and nk: "\<And>n. reachable B n \<Longrightarrow> node_ok B n \<and> n < N"
  shows "\<exists>c'. collect_loop B i c = Some c' \<and> coll_inv B G0 (length (co_nodes c')) c'"
  using assms(1)
proof (induction "N - i" arbitrary: i c rule: less_induct)
  case less
  then have q: "queue_ok B i (co_nodes c)" by (simp add: coll_inv_def)
  show ?case
  proof (cases "i < length (co_nodes c)")
    case True
    have "set (co_nodes c) \<subseteq> {..<N}" "distinct (co_nodes c)" using q nk by (auto simp: queue_ok_def)
    then have "length (co_nodes c) \<le> N" using card_mono [of "{..<N}" "set (co_nodes c)"] by (simp add: distinct_card)
    with True have m: "N - Suc i < N - i" by simp
    have "node_ok B (co_nodes c ! i)" using nk q True by (simp add: queue_ok_def)
    from collect_step_inv [OF less.prems True ok this] obtain c1 where
      c1: "collect_step B (co_nodes c ! i) c = Some c1" "coll_inv B G0 (Suc i) c1" by blast
    from less.hyps [OF m c1(2)] c1(1) True show ?thesis by (simp add: collect_loop_unfold [of B i c])
  next
    case False
    with q have i: "i = length (co_nodes c)" by (simp add: queue_ok_def)
    have "collect_loop B i c = Some c" using False by (simp add: collect_loop_unfold [of B i c])
    with less.prems show ?thesis unfolding i by blast
  qed
qed

lemma start_inv:
  assumes inv: "build_inv B G" and cn: "calls_new B G"
  shows "coll_inv B G 0 (start_collecting B G)"
proof -
  have "is_JavaObject G (phantom_obj G)" using cg_wf_specials [OF build_invD(1) [OF inv]] by (simp add: wf_specials_def)
  then have "lists_ok G (start_collecting B G)"
    using phantom_range(1) [OF build_invD(1) [OF inv]] by (auto simp: lists_ok_def start_collecting_def)
  then show ?thesis using inv cn
    by (auto simp: coll_inv_def queue_ok_def nodes_done_def builds_refl start_collecting_def split: option.splits intro: reachable.root)
qed

section \<open>The start\<close>

text \<open>The nodes that the constructor registers.\<close>

definition constants_ok :: "build_ideal \<Rightarrow> node \<Rightarrow> node \<Rightarrow> node \<Rightarrow> bool" where
  "constants_ok B top_node oop_null noop_null \<longleftrightarrow> top_node \<noteq> oop_null \<and> noop_null \<noteq> top_node \<and>
     node_kinds B top_node = {JavaObject} \<and> node_kinds B oop_null = {JavaObject} \<and> node_kinds B noop_null = {JavaObject} \<and>
     is_null_con B oop_null \<and> is_null_con B noop_null"

lemma new_graph_simps:
  assumes "top_node \<noteq> oop_null"
  shows "cg_next_pidx (new_ConnectionGraph unq top_node oop_null noop_null coops) = 2"
    "phantom_obj (new_ConnectionGraph unq top_node oop_null noop_null coops) = 0"
    "null_obj (new_ConnectionGraph unq top_node oop_null noop_null coops) = 1"
    "\<not> cg_verify (new_ConnectionGraph unq top_node oop_null noop_null coops)"
    "cg_worklist (new_ConnectionGraph unq top_node oop_null noop_null coops) = []"
    "cg_in_worklist (new_ConnectionGraph unq top_node oop_null noop_null coops) = {}"
    "cg_nodes (new_ConnectionGraph unq top_node oop_null noop_null coops) =
       (if coops then [top_node \<mapsto> 0, oop_null \<mapsto> 1, noop_null \<mapsto> 1] else [top_node \<mapsto> 0, oop_null \<mapsto> 1])"
    "cg_heap (new_ConnectionGraph unq top_node oop_null noop_null coops) =
       (\<lambda>_. pt_none)(0 := new_JavaObjectNode top_node GlobalEscape, 1 := new_JavaObjectNode oop_null NoEscape)"
  using assms
  by (simp_all add: new_ConnectionGraph_def Let_def add_java_object_def register_pt_def ptnode_adr_def map_ideal_node_def fun_eq_iff)

lemma new_graph_inv:
  assumes ok: "constants_ok B top_node oop_null noop_null"
  shows "build_inv B (new_ConnectionGraph unq top_node oop_null noop_null coops)"
proof -
  let ?G = "new_ConnectionGraph unq top_node oop_null noop_null coops"
  from ok have t: "top_node \<noteq> oop_null" "noop_null \<noteq> top_node" by (simp_all add: constants_ok_def)
  note s = new_graph_simps [OF t(1), of unq noop_null coops]
  have n: "pt_edges (new_JavaObjectNode m es) = []" "pt_escape (new_JavaObjectNode m es) = es" "\<not> pt_is_oop (new_JavaObjectNode m es)"
    "pt_fields_escape (new_JavaObjectNode m es) = es" "pt_edges pt_none = []" "\<not> pt_is_oop pt_none" "pt_type pt_none = UnknownType"
    "pt_escape pt_none = pt_fields_escape pt_none"
    for m es by (simp_all add: new_JavaObjectNode_def new_PointsToNode_def pt_none_def Let_def)
  have "typed_edges ?G" "esc_le ?G" "phantom_escapes ?G" "copies_done ?G"
    unfolding typed_edges_def esc_le_def phantom_escapes_def copies_done_def s by (auto simp: n)
  moreover have "states_known ?G" unfolding states_known_def s by (auto simp: n less_Suc_eq numeral_2_eq_2)
  moreover have "kinds_ok B ?G" using ok unfolding kinds_ok_def s constants_ok_def by (auto split: if_splits)
  ultimately show ?thesis using new_graph_wf [OF t(1)] s by (simp add: build_inv_def)
qed

lemma first_pass_result:
  assumes k: "constants_ok B top_node oop_null noop_null" and ok: "ideal_ok B"
    and n: "\<forall>n. reachable B n \<longrightarrow> node_ok B n \<and> n < N"
    and G: "G = new_ConnectionGraph unq top_node oop_null noop_null coops" and o: "reachable B oop_null"
  shows "\<exists>c. collect_loop B 0 (start_collecting B G) = Some c \<and> coll_inv B G (length (co_nodes c)) c \<and>
    set (co_ptnodes c) = {..<cg_next_pidx (co_graph c)}"
proof -
  have "build_inv B G" using new_graph_inv [OF k] G by simp
  moreover have "calls_new B G" using k new_graph_simps(7) [of top_node oop_null unq noop_null coops]
    by (auto simp: G calls_new_def constants_ok_def node_kinds_def split: if_splits)
  ultimately obtain c where
   
    c: "collect_loop B 0 (start_collecting B G) = Some c" "coll_inv B G (length (co_nodes c)) c" using collect_loop_inv [OF start_inv ok, of G N] n by blast
  then have q: "queue_ok B (length (co_nodes c)) (co_nodes c)" and b: "builds B G (co_graph c)" and l: "lists_ok G c"
    and d: "nodes_done B G (set (co_nodes c)) c" by (simp_all add: coll_inv_def)
  note s = new_graph_simps [of top_node oop_null unq noop_null coops, folded G]
  have t: "top_node \<noteq> oop_null" "noop_null \<noteq> top_node" using k by (simp_all add: constants_ok_def)
  have "cg_nodes (co_graph c) oop_null = Some 1" using extendsD(7) [OF buildsD(2) [OF b]] t by (simp add: s)
  then have "1 \<in> set (co_ptnodes c)" using d o queue_ok_end [OF q] by (auto simp: nodes_done_def)
  moreover have "p \<in> set (co_ptnodes c)" if "p < cg_next_pidx (co_graph c)" "p \<noteq> 1" for p
    using l that t unfolding lists_ok_def by (cases "p = 0") (auto simp: s)
  ultimately have "{..<cg_next_pidx (co_graph c)} \<subseteq> set (co_ptnodes c)" by force
  with c l show ?thesis by (auto simp: lists_ok_def)
qed

section \<open>Properties\<close>

text \<open>An empty ideal graph, and a method that allocates an object, stores it into itself and passes it to a virtual call.\<close>

definition build0 :: build_ideal where
  "build0 = \<lparr>unique = 0, OffsetBot = -2000000001, outs = (\<lambda>_. []), input = (\<lambda>_ _. None), Opcode = (\<lambda>_. Op_other 0),
    is_Allocate = (\<lambda>_. False), is_AllocateArray = (\<lambda>_. False), is_CallStaticJava = (\<lambda>_. False),
    is_Phi = (\<lambda>_. False), is_Loop = (\<lambda>_. False), is_Load = (\<lambda>_. False),
    is_EncodeP = (\<lambda>_. False), is_CheckCastPP = (\<lambda>_. False), is_LoadStore = (\<lambda>_. False),
    is_Mem = (\<lambda>_. False), is_mismatched_access = (\<lambda>_. False), is_Con = (\<lambda>_. False),
    is_top = (\<lambda>_. False), is_null_ptr_type = (\<lambda>_. False), ptr_type = (\<lambda>_. 0),
    is_rawptr_type = (\<lambda>_. False), is_obj_array_klass = (\<lambda>_. False),
    alloc_in = (\<lambda>_ _. 0), result_cast = (\<lambda>_. None), initialization = (\<lambda>_. None),
    find_intptr_t_con = (\<lambda>_ d. d), find_int_con = (\<lambda>_ d. d),
    captured_oop_store = (\<lambda>_ _. False),
    is_Call = (\<lambda>_. False), is_AbstractLock = (\<lambda>_. False), is_ArrayCopy = (\<lambda>_. False),
    is_Proj = (\<lambda>_. False), is_Store = (\<lambda>_. False), is_BoxLock = (\<lambda>_. False),
    is_DecodeNarrowPtr = (\<lambda>_. False), is_MergeMem = (\<lambda>_. False), is_Cmp = (\<lambda>_. False),
    is_MemBarStoreStore = (\<lambda>_. False), is_MemBar = (\<lambda>_. False), has_Precedent = (\<lambda>_. False),
    is_Lock = (\<lambda>_. False), is_Parm = (\<lambda>_. False), lock_obj = (\<lambda>_. 0), root = None,
    OptimizePtrCompare = False, macro_nodes = [], req = (\<lambda>_. 0), uncast = (\<lambda>n. n),
    is_uncommon_trap = (\<lambda>_. False), returns_pointer = (\<lambda>_. False), has_result_proj = (\<lambda>_. False),
    is_boxing_call = (\<lambda>_. False), is_result_proj = (\<lambda>_. False), has_make_ptr = (\<lambda>_. False),
    phi_has_make_ptr = (\<lambda>_. False), isa_ptr = (\<lambda>_. False), isa_oopptr = (\<lambda>_. False),
    isa_rawptr = (\<lambda>_. False), make_ptr_isa_oopptr = (\<lambda>_. False), make_ptr_is_notnull_raw = (\<lambda>_. False),
    make_ptr_isa_rawptr = (\<lambda>_. False), is_null_con = (\<lambda>_. False), type_offset = (\<lambda>_. 0),
    adr_isa_aryptr = (\<lambda>_. False), adr_isa_instptr = (\<lambda>_. False), adr_isa_klassptr = (\<lambda>_. False),
    ary_may_hold_oops = (\<lambda>_. False), alias_field_type = (\<lambda>_. None), ary_element_type = (\<lambda>_. T_INT),
    is_reference_type = (\<lambda>_. False),
    klass_offset_in_bytes = 0, length_offset_in_bytes = 0, EliminateAllocationArraySizeLimit = 0,
    has_klassptr = (\<lambda>_. False), klass_is_array = (\<lambda>_. False), klass_is_thread = (\<lambda>_. False),
    klass_is_reference = (\<lambda>_. False), klass_is_instance = (\<lambda>_. False),
    klass_can_be_instantiated = (\<lambda>_. False), klass_has_finalizer = (\<lambda>_. False), has_method = (\<lambda>_. False),
    is_multianewarray = (\<lambda>_. False), is_boxing_method = (\<lambda>_. False), always_allocates_box = (\<lambda>_. False),
    domain_isa_ptr = (\<lambda>_. []), domain_isa_oopptr = (\<lambda>_. []), is_call_to_arraycopystub = (\<lambda>_. False),
    is_known_leaf = (\<lambda>_. False), arg_has_oops = (\<lambda>_. False), copy_validated = (\<lambda>_. False),
    bc_return_allocated = (\<lambda>_. False), bc_arg_returned = (\<lambda>_ _. False), bc_arg_stack = (\<lambda>_ _. False),
    bc_arg_local = (\<lambda>_ _. False), bc_return_local = (\<lambda>_. False), gc_add_to_con_graph = (\<lambda>_. False),
    gc_add_final_edges = (\<lambda>_. False), gc_has_out_with_unsafe_object = (\<lambda>_. False)\<rparr>"

definition sample_ideal :: build_ideal where
  "sample_ideal = build0\<lparr>unique := 9, root := Some 2,
     outs := (\<lambda>n. [[], [], [0, 1, 3], [4], [5], [6, 7, 8], [7], [], []] ! n),
     input := (\<lambda>n i. if n = 4 \<and> i = 0 then Some 3 else if n = 5 \<and> i = 1 then Some 4 else if n = 6 \<and> (i = 1 \<or> i = 2) then Some 5
       else if n = 7 \<and> i = 2 then Some 6 else if n = 7 \<and> i = 3 then Some 5 else if n = 8 \<and> i = 5 then Some 5 else None),
     Opcode := (\<lambda>n. [Op_other 0, Op_ConP, Op_other 1, Op_other 2, Op_Proj, Op_CheckCastPP, Op_AddP, Op_StoreP, Op_CallDynamicJava] ! n),
     is_Call := (\<lambda>n. n = 3 \<or> n = 8), is_Allocate := (\<lambda>n. n = 3), returns_pointer := (\<lambda>n. n = 3), has_klassptr := (\<lambda>n. n = 3),
     klass_is_instance := (\<lambda>n. n = 3), klass_can_be_instantiated := (\<lambda>n. n = 3), is_result_proj := (\<lambda>n. n = 4),
     is_null_con := (\<lambda>n. n = 1), isa_ptr := (\<lambda>_. True), isa_oopptr := (\<lambda>n. n = 5 \<or> n = 6), has_make_ptr := (\<lambda>_. True),
     make_ptr_isa_oopptr := (\<lambda>n. n = 6), type_offset := (\<lambda>_. 12), klass_offset_in_bytes := 8, adr_isa_instptr := (\<lambda>n. n = 6),
     alias_field_type := (\<lambda>n. if n = 6 then Some T_OBJECT else None), is_reference_type := (\<lambda>bt. bt = T_OBJECT \<or> bt = T_ARRAY), is_Store := (\<lambda>n. n = 7),
     domain_isa_ptr := (\<lambda>n. if n = 8 then [True] else []), domain_isa_oopptr := (\<lambda>n. if n = 8 then [True] else [])\<rparr>"

abbreviation sample_graph :: ConnectionGraph where
  "sample_graph \<equiv> new_ConnectionGraph 9 0 1 1 False"

lemma sample_simps [simp]:
  "unique sample_ideal = 9" "root sample_ideal = Some 2"
  "outs sample_ideal n = [[], [], [0, 1, 3], [4], [5], [6, 7, 8], [7], [], []] ! n"
  "Opcode sample_ideal n = [Op_other 0, Op_ConP, Op_other 1, Op_other 2, Op_Proj, Op_CheckCastPP, Op_AddP, Op_StoreP, Op_CallDynamicJava] ! n"
  "is_Call sample_ideal n \<longleftrightarrow> n = 3 \<or> n = 8" "is_Allocate sample_ideal n \<longleftrightarrow> n = 3" "is_null_con sample_ideal n \<longleftrightarrow> n = 1"
  "is_CallStaticJava sample_ideal n \<longleftrightarrow> False" "gc_add_to_con_graph sample_ideal n \<longleftrightarrow> False"
  by (simp_all add: sample_ideal_def build0_def)

lemma sample_reachable: "reachable sample_ideal n \<Longrightarrow> n < 9"
  by (induction rule: reachable.induct) (auto simp: numeral_eq_Suc less_Suc_eq)

lemma sample_ideal_ok: "ideal_ok sample_ideal"
proof -
  have "\<not> copy_call sample_ideal n" for n by (auto simp: copy_call_def)
  then show ?thesis by (simp add: ideal_ok_def)
qed

lemma sample_skip_addp: "skip_addp sample_ideal 5 = Some 5"
  by (simp add: skip_addp.simps is_AddP_def)

lemmas sample_queries = Parms_def mem_Address_def mem_ValueIn_def addp_Base_def addp_Address_def addp_Offset_def is_AddP_def
  sample_ideal_def build0_def

lemma sample_addp: "get_addp_base sample_ideal 6 = Some 5" "address_offset sample_ideal 6 = Some 12" "is_oop_field sample_ideal 6 12 = (True, False)"
  by (simp_all add: get_addp_base_def address_offset_def is_oop_field_def field_basic_type_def Let_def sample_queries)

lemma sample_node_ok: "n < 9 \<Longrightarrow> node_ok sample_ideal n"
proof -
  assume "n < 9"
  then consider "n = 0" | "n = 1" | "n = 2" | "n = 3" | "n = 4" | "n = 5" | "n = 6" | "n = 7" | "n = 8" by linarith
  then show ?thesis
  proof cases
    case 7 then show ?thesis using sample_addp by (simp add: node_ok_def)
  next
    case 8 then show ?thesis by (simp add: node_ok_def access_ok_def is_oop_store_address_def sample_queries)
  qed (simp_all add: node_ok_def call_ok_def pointer_node_def sample_queries)
qed

lemma sample_constants: "constants_ok sample_ideal 0 1 1"
  by (simp add: constants_ok_def node_kinds_def local_var_opcode_def)

text \<open>
  C8: Visiting a node of the ideal graph fails no assertion if the inputs it reads are there and its addresses
  have the types the code expects. The visit keeps the invariant of the graph under construction, registers at
  most this node, and a node that yields a pointer is registered with a kind that its opcode allows: an address
  as a field, a cast, load or phi as a local variable, a constant as a Java object.
\<close>

theorem add_node_to_connection_graph_typed:
  assumes "build_inv B (bs_graph s)" and "ideal_ok B" and "node_ok B n"
  shows "\<exists>s'. add_node_to_connection_graph B n s = Some s' \<and> build_inv B (bs_graph s') \<and> extends (bs_graph s) (bs_graph s') \<and>
    (\<forall>m. m \<noteq> n \<longrightarrow> ptnode_adr (bs_graph s') m = ptnode_adr (bs_graph s) m) \<and>
    (pointer_node B n \<and> \<not> gc_add_to_con_graph B n \<longrightarrow>
       (\<exists>p. ptnode_adr (bs_graph s') n = Some p \<and> pt_type (cg_heap (bs_graph s') p) \<in> node_kinds B n))"
proof -
  obtain s' where s': "add_node_to_connection_graph B n s = Some s'" using add_node_succeeds [OF assms(1,3)] by blast
  from add_node_visited [OF assms(1,2) this] have v: "build_inv B (bs_graph s')" "extends (bs_graph s) (bs_graph s')"
    "\<forall>m. m \<noteq> n \<longrightarrow> cg_nodes (bs_graph s') m = cg_nodes (bs_graph s) m"
    "pointer_node B n \<and> \<not> gc_add_to_con_graph B n \<longrightarrow> cg_nodes (bs_graph s') n \<noteq> None"
    by (simp_all add: visited_def visits_def registers_def builds_def)
  with s' kinds_okD(1) [OF build_invD(6) [OF v(1)]] show ?thesis by (auto simp: ptnode_adr_def)
qed

theorem add_node_to_connection_graph_typed_witness:
  "\<exists>s' p. add_node_to_connection_graph sample_ideal 6 \<lparr>bs_graph = sample_graph, bs_delayed = [], bs_recorded = []\<rparr> = Some s' \<and>
     ptnode_adr (bs_graph s') 6 = Some p \<and> is_Field (bs_graph s') p"
  using add_node_to_connection_graph_typed [of sample_ideal "\<lparr>bs_graph = sample_graph, bs_delayed = [], bs_recorded = []\<rparr>" 6]
    new_graph_inv [OF sample_constants] sample_ideal_ok sample_node_ok [of 6]
  by (auto simp: pointer_node_def node_kinds_def)

text \<open>
  C7: The first pass ends and misses nothing: every node that is reachable from the root is visited exactly once,
  every such node that yields a pointer is registered with a kind its opcode allows, and the worklists
  of the later steps hold the Java objects and the oop fields of the graph, none missing.
\<close>

theorem first_pass_complete:
  assumes "constants_ok B top_node oop_null noop_null" and "ideal_ok B"
    and "\<forall>n. reachable B n \<longrightarrow> node_ok B n \<and> n < unique B"
    and "G = new_ConnectionGraph unq top_node oop_null noop_null coops" and "reachable B oop_null"
  shows "\<exists>c. collect_loop B 0 (start_collecting B G) = Some c \<and> distinct (co_nodes c) \<and> set (co_nodes c) = {n. reachable B n} \<and>
    build_inv B (co_graph c) \<and>
    (\<forall>n. reachable B n \<and> pointer_node B n \<and> \<not> gc_add_to_con_graph B n \<longrightarrow>
       (\<exists>p. ptnode_adr (co_graph c) n = Some p \<and> pt_type (cg_heap (co_graph c) p) \<in> node_kinds B n)) \<and>
    set (co_java_objects c) = {p. p < cg_next_pidx (co_graph c) \<and> is_JavaObject (co_graph c) p} \<and>
    set (co_oop_fields c) = {p. p < cg_next_pidx (co_graph c) \<and> is_Field (co_graph c) p \<and> pt_is_oop (cg_heap (co_graph c) p)}"
proof -
  from first_pass_result [OF assms] obtain c where
    c: "collect_loop B 0 (start_collecting B G) = Some c" "coll_inv B G (length (co_nodes c)) c"
      "set (co_ptnodes c) = {..<cg_next_pidx (co_graph c)}" by blast
  then have q: "queue_ok B (length (co_nodes c)) (co_nodes c)" and b: "build_inv B (co_graph c)" and l: "lists_ok G c"
    and d: "nodes_done B G (set (co_nodes c)) c" by (simp_all add: coll_inv_def builds_def)
  have reg: "\<exists>p. ptnode_adr (co_graph c) n = Some p \<and> pt_type (cg_heap (co_graph c) p) \<in> node_kinds B n"
    if "reachable B n" "pointer_node B n" "\<not> gc_add_to_con_graph B n" for n
    using d that kinds_okD(1) [OF build_invD(6) [OF b], of n] queue_ok_end [OF q] by (auto simp: nodes_done_def ptnode_adr_def)
  have "distinct (co_nodes c)" using q by (simp add: queue_ok_def)
  with c(1) reg b l queue_ok_end [OF q] show ?thesis unfolding lists_ok_def c(3) by (intro exI [of _ c]) auto
qed

theorem first_pass_complete_witness:
  "\<exists>c p. collect_loop sample_ideal 0 (start_collecting sample_ideal sample_graph) = Some c \<and>
     ptnode_adr (co_graph c) 3 = Some p \<and> p \<in> set (co_java_objects c) \<union> {p. is_LocalVar (co_graph c) p}"
proof -
  have r: "reachable sample_ideal 1" "reachable sample_ideal 3"
    by (rule reachable.out [of _ 2]; simp add: reachable.root)+
  from first_pass_complete [OF sample_constants sample_ideal_ok _ refl r(1), of 9 False] sample_node_ok sample_reachable obtain c where
    c: "collect_loop sample_ideal 0 (start_collecting sample_ideal sample_graph) = Some c" "build_inv sample_ideal (co_graph c)"
    "\<forall>n. reachable sample_ideal n \<and> pointer_node sample_ideal n \<and> \<not> gc_add_to_con_graph sample_ideal n \<longrightarrow>
       (\<exists>p. ptnode_adr (co_graph c) n = Some p \<and> pt_type (cg_heap (co_graph c) p) \<in> node_kinds sample_ideal n)"
    "set (co_java_objects c) = {p. p < cg_next_pidx (co_graph c) \<and> is_JavaObject (co_graph c) p}" by auto
  have "pointer_node sample_ideal 3" by (simp add: pointer_node_def sample_queries)
  with c(3) r(2) obtain p where p: "ptnode_adr (co_graph c) 3 = Some p" "pt_type (cg_heap (co_graph c) p) \<in> node_kinds sample_ideal 3"
    by auto
  from p(2) have "is_JavaObject (co_graph c) p \<or> is_LocalVar (co_graph c) p" by (auto simp: node_kinds_def copy_call_def)
  with c(1,4) p(1) ptnode_range [OF c(2) p(1)] show ?thesis by auto
qed

end
