(* ===== verification/Final_Pass.thy ===== *)
theory Final_Pass
  imports First_Pass
begin

text \<open>
  The second pass over the delayed nodes: the edges that needed both ends, and the arguments of calls. It
  keeps the invariant of the construction, and it leaves the graph in the state from which
  \<open>complete_connection_graph\<close> starts.
\<close>

section \<open>What the second pass assumes and keeps\<close>

text \<open>An argument of a call that may hold oops is not null and not an address.\<close>

definition copies_ok :: "build_ideal \<Rightarrow> bool" where
  "copies_ok B \<longleftrightarrow> (\<forall>call k a m. is_Call B call \<and> input B call (Parms + k) = Some a \<and> object_of B a = Some m \<and> arg_has_oops B a \<longrightarrow>
     \<not> is_null_con B m \<and> \<not> is_AddP B m)"

text \<open>The only new nodes are arraycopies.\<close>

definition finals :: "build_ideal \<Rightarrow> ConnectionGraph \<Rightarrow> ConnectionGraph \<Rightarrow> bool" where
  "finals B G G' \<longleftrightarrow> builds B G G' \<and> (\<forall>p. cg_next_pidx G \<le> p \<and> p < cg_next_pidx G' \<longrightarrow> is_Arraycopy G' p)"

lemma finalsD: "finals B G G' \<Longrightarrow> build_inv B G'" "finals B G G' \<Longrightarrow> extends G G'"
  by (simp_all add: finals_def builds_def)

lemma finals_refl: "build_inv B G \<Longrightarrow> finals B G G"
  by (auto simp: finals_def builds_refl)

lemma finals_trans:
  assumes "finals B G H" and "finals B H K"
  shows "finals B G K"
proof -
  have "is_Arraycopy K p" if "cg_next_pidx G \<le> p" "p < cg_next_pidx K" for p
    using assms that extendsD(8) [OF finalsD(2) [OF assms(2)], of p] by (cases "p < cg_next_pidx H") (auto simp: finals_def)
  with assms show ?thesis by (auto simp: finals_def intro: builds_trans)
qed

lemma finals_same: "builds B G G' \<Longrightarrow> cg_next_pidx G' = cg_next_pidx G \<Longrightarrow> finals B G G'"
  by (auto simp: finals_def)

lemma not_copy_input: "ideal_ok B \<Longrightarrow> input B n i = Some c \<Longrightarrow> 0 < i \<Longrightarrow> \<not> copy_call B c"
  unfolding ideal_ok_def by (metis less_irrefl)

lemma registered_not_arraycopy:
  assumes "build_inv B G" and "ptnode_adr G n = Some p" and "\<not> copy_call B n"
  shows "\<not> is_Arraycopy G p"
  using kinds_okD(1) [OF build_invD(6) [OF assms(1)] assms(2)] assms(3) by (auto simp: node_kinds_def split: if_splits)

lemma object_of_not_copy:
  assumes "ideal_ok B" and "input B n i = Some a" and "0 < i" and "object_of B a = Some m"
  shows "\<not> copy_call B m"
  using assms not_copy_input [OF assms(1-3)] by (auto simp: object_of_def ideal_ok_def split: if_splits)

lemma finals_edge:
  assumes "build_inv B G" and "ptnode_adr G m = Some q" and "p < cg_next_pidx G" and "is_LocalVar G p \<or> is_Field G p \<and> pt_is_oop (cg_heap G p)"
  shows "finals B G (fst (add_edge p q G))"
  using builds_edge [OF assms(1,3) ptnode_range [OF assms(1,2)] assms(4)] by (rule finals_same) (simp add: cg_frame)

lemma set_escape_next [simp]:
  "cg_next_pidx (set_escape_state p s G) = cg_next_pidx G" "cg_next_pidx (set_fields_escape_state p s G) = cg_next_pidx G"
  "cg_nodes (set_escape_state p s G) = cg_nodes G" "cg_nodes (set_fields_escape_state p s G) = cg_nodes G"
  by (simp_all add: set_escape_state_def set_fields_escape_state_def Let_def)

lemma finals_escape:
  assumes "build_inv B G" and "ptnode_adr G m = Some p" and "\<not> copy_call B m"
  shows "finals B G (set_escape_state p s G)" "finals B G (set_fields_escape_state p s G)"
  using builds_escape [OF assms(1) ptnode_range [OF assms(1,2)] registered_not_arraycopy [OF assms]]
  by (auto intro!: finals_same)

lemma ptnode_extends: "extends G G' \<Longrightarrow> ptnode_adr G n = Some p \<Longrightarrow> ptnode_adr G' n = Some p"
  by (simp add: ptnode_adr_def extendsD(7))

section \<open>Calls of stubs\<close>

definition copy_state :: "build_ideal \<Rightarrow> node \<Rightarrow> EscapeState" where
  "copy_state B call = (if is_ArrayCopy B call \<and> copy_validated B call then NoEscape else ArgEscape)"

lemma copy_state_le: "NoEscape \<le> copy_state B call" "copy_state B call \<le> ArgEscape"
  by (simp_all add: copy_state_def)

text \<open>The source of a copy that holds oops was processed before the destination.\<close>

definition src_ok :: "build_ideal \<Rightarrow> node \<Rightarrow> ConnectionGraph \<Rightarrow> bool \<Rightarrow> bool" where
  "src_ok B call G src \<longleftrightarrow> (src \<longrightarrow> (\<exists>a m p. input B call Parms = Some a \<and> object_of B a = Some m \<and> ptnode_adr G m = Some p \<and>
     arg_has_oops B a \<and> copy_state B call \<le> escape G p))"

lemma src_ok_extends:
  assumes "src_ok B call G src" and e: "extends G G'" and inv: "build_inv B G"
  shows "src_ok B call G' src"
  using assms(1) ptnode_extends [OF e] extendsD(10) [OF e] ptnode_range [OF inv] unfolding src_ok_def by (meson order_trans)

text \<open>An object that takes part in a copy of oops.\<close>

lemma copied_operand:
  assumes inv: "build_inv B G" and ok: "ideal_ok B" "copies_ok B" and c: "is_Call B call" and a: "input B call (Parms + k) = Some a"
    and m: "object_of B a = Some m" and h: "arg_has_oops B a" and p: "ptnode_adr G m = Some p"
  shows "p < cg_next_pidx G" "is_LocalVar G p \<or> is_JavaObject G p" "p \<noteq> null_obj G"
proof -
  have i: "0 < Parms + k" by (simp add: Parms_def)
  have nm: "\<not> is_null_con B m" "\<not> is_AddP B m" using ok(2) c a m h unfolding copies_ok_def by blast+
  note kk = kinds_okD [OF build_invD(6) [OF inv] p]
  show "p < cg_next_pidx G" by (rule ptnode_range [OF inv p])
  show "is_LocalVar G p \<or> is_JavaObject G p"
    using kk(1) nm(2) object_of_not_copy [OF ok(1) a i m] by (auto simp: node_kinds_def is_AddP_def split: if_splits)
  show "p \<noteq> null_obj G" using kk(2) nm(1) by blast
qed

lemma arraycopy_next:
  "cg_next_pidx G \<le> q \<Longrightarrow> q < cg_next_pidx (add_arraycopy n es src dst G) \<Longrightarrow> src < cg_next_pidx G \<Longrightarrow> dst < cg_next_pidx G \<Longrightarrow>
     is_Arraycopy (add_arraycopy n es src dst G) q"
  by (cases "cg_nodes G n") (auto simp: add_arraycopy_def Let_def cg_frame less_Suc_eq)

text \<open>The outcome for an argument that is processed.\<close>

lemma stub_arg_processed:
  assumes "input B call (Parms + k) = Some arg" and "registered_object B G arg = Some p" and "is_copy \<or> escape G p < ArgEscape"
    and "\<not> (is_top B arg \<or> \<not> domain_isa_ptr B call ! k \<or> \<not> isa_ptr B arg)"
    and "stub_arg B call is_copy k (src, G) = Some (src', G')" and "H = set_escape_state p (copy_state B call) G"
  obtains (old) "ArgEscape \<le> escape G p" "src' = (if k = 0 then arg_has_oops B arg else src)" "G' = G"
    | (arg) "src' = (if k = 0 then arg_has_oops B arg else src)" "G' = H"
    | (dest) q where "src" "k \<noteq> 0" "is_copy" "arg_has_oops B arg" "src' = src"
        "Option.bind (input B call Parms) (registered_object B H) = Some q"
        "G' = (if p \<noteq> q then add_arraycopy call (copy_state B call) q p H else H)"
proof -
  let ?src = "if k = 0 then arg_has_oops B arg else src"
  let ?dest = "?src \<and> is_copy \<and> arg_has_oops B arg \<and> 0 < k"
  have eq: "stub_arg B call is_copy k (src, G) =
    (if \<not> (is_copy \<or> is_known_leaf B call) then None else if ArgEscape \<le> escape G p \<and> \<not> ?dest then Some (?src, G)
     else if ?dest then
       (case Option.bind (input B call Parms) (registered_object B H) of None \<Rightarrow> None
        | Some q \<Rightarrow> Some (?src, if p \<noteq> q then add_arraycopy call (copy_state B call) q p H else H))
     else Some (?src, H))"
    using assms(3,4) unfolding stub_arg_def prod.case assms(1,2) option.case Let_def copy_state_def [symmetric] assms(6) [symmetric]
    by (simp only: if_True if_False simp_thms de_Morgan_disj)
  show thesis
  proof (cases ?dest)
    case True
    with assms(5) eq obtain q where "Option.bind (input B call Parms) (registered_object B H) = Some q"
      "src' = ?src" "G' = (if p \<noteq> q then add_arraycopy call (copy_state B call) q p H else H)"
      by (cases "Option.bind (input B call Parms) (registered_object B H)") (simp_all split: if_split_asm)
    with True dest show thesis by simp
  next
    case False
    then have "stub_arg B call is_copy k (src, G) =
      (if \<not> (is_copy \<or> is_known_leaf B call) then None else if ArgEscape \<le> escape G p then Some (?src, G) else Some (?src, H))"
      unfolding eq by (simp only: if_False simp_thms not_False_eq_True)
    with assms(5) have "Some (src', G') = (if \<not> (is_copy \<or> is_known_leaf B call) then None
      else if ArgEscape \<le> escape G p then Some (?src, G) else Some (?src, H))" by (simp only:)
    then show thesis using old arg by (cases "is_copy \<or> is_known_leaf B call"; cases "ArgEscape \<le> escape G p") (simp_all only: if_True if_False simp_thms option.simps prod.simps)
  qed
qed

lemma stub_arg_finals:
  assumes inv: "build_inv B G" and ok: "ideal_ok B" "copies_ok B" and c: "is_Call B call" and cc: "is_copy \<longrightarrow> copy_call B call"
    and so: "src_ok B call G src" and r: "stub_arg B call is_copy k (src, G) = Some (src', G')"
  shows "finals B G G' \<and> src_ok B call G' src'"
proof (cases "\<exists>arg p. input B call (Parms + k) = Some arg \<and> registered_object B G arg = Some p \<and> (is_copy \<or> escape G p < ArgEscape) \<and>
    \<not> (is_top B arg \<or> \<not> domain_isa_ptr B call ! k \<or> \<not> isa_ptr B arg)")
  case False
  then have "src' = src" "G' = G" using r by (auto simp: stub_arg_def split: option.splits if_splits)
  with inv so show ?thesis by (simp add: finals_refl)
next
  case True
  then obtain arg p where arg: "input B call (Parms + k) = Some arg" and p: "registered_object B G arg = Some p"
    and go: "is_copy \<or> escape G p < ArgEscape" and t: "\<not> (is_top B arg \<or> \<not> domain_isa_ptr B call ! k \<or> \<not> isa_ptr B arg)" by blast
  obtain m where m: "object_of B arg = Some m" "ptnode_adr G m = Some p" using p by (auto simp: registered_object_def Option.bind_eq_Some_conv)
  let ?es = "copy_state B call" and ?src = "if k = 0 then arg_has_oops B arg else src" and ?G1 = "set_escape_state p (copy_state B call) G"
  have i: "0 < Parms + k" by (simp add: Parms_def)
  have f1: "finals B G ?G1" by (rule finals_escape(1) [OF inv m(2) object_of_not_copy [OF ok(1) arg i m(1)]])
  have s0: "src_ok B call H ?src" if H: "H = G \<and> ArgEscape \<le> escape G p \<or> H = ?G1" "k = 0" for H
  proof -
    have "?es \<le> escape H p" if h: "arg_has_oops B arg"
    proof -
      have "p \<noteq> null_obj G" by (rule copied_operand(3) [OF inv ok c arg m(1) h m(2)])
      with H(1) copy_state_le(2) [of B call] show ?thesis by (auto intro: order_trans)
    qed
    moreover have "ptnode_adr H m = Some p" using H(1) m(2) by (auto simp: ptnode_adr_def)
    ultimately show ?thesis using arg m(1) H(2) by (auto simp: src_ok_def)
  qed
  have s1: "src_ok B call H ?src" if "extends G H" "k \<noteq> 0" for H using src_ok_extends [OF so that(1) inv] that(2) by simp
  from arg p go t r refl show ?thesis
  proof (cases rule: stub_arg_processed)
    case old
    with inv s0 [of G] s1 [of G] show ?thesis by (cases "k = 0") (auto simp: finals_refl)
  next
    case arg
    with f1 s0 [of ?G1] s1 [OF finalsD(2) [OF f1]] show ?thesis by (cases "k = 0") auto
  next
    case (dest q)
    note i1 = finalsD(1) [OF f1] and e1 = finalsD(2) [OF f1]
    have "src_ok B call ?G1 src" by (rule src_ok_extends [OF so e1 inv])
    with dest(1) obtain a m' p' where a: "input B call Parms = Some a" "object_of B a = Some m'" "ptnode_adr ?G1 m' = Some p'"
      "arg_has_oops B a" "?es \<le> escape ?G1 p'" by (auto simp: src_ok_def)
    from dest(6) a have q: "q = p'" by (simp add: registered_object_def)
    have a0: "input B call (Parms + 0) = Some a" using a(1) by simp
    note cs = copied_operand [OF i1 ok c a0 a(2,4,3)] and cd = copied_operand [OF i1 ok c arg m(1) dest(4) ptnode_extends [OF e1 m(2)]]
    have "copy_call B call" using cc dest(3) by simp
    from builds_arraycopy [OF i1 this cs(1) cd(1) cs(2) cd(2) cs(3) cd(3) copy_state_le(1) a(5)]
    have "finals B ?G1 (add_arraycopy call ?es p' p ?G1)" using arraycopy_next cs(1) cd(1) by (auto simp: finals_def)
    then have "finals B ?G1 G'" using dest(7) q finals_refl [OF i1] by (simp split: if_split_asm)
    from finals_trans [OF f1 this] have "finals B G G'" .
    with src_ok_extends [OF so finalsD(2) [OF this] inv] dest(5) show ?thesis by simp
  qed
qed

lemma stub_args_finals:
  assumes "build_inv B G" and ok: "ideal_ok B" "copies_ok B" and c: "is_Call B call" and cc: "is_copy \<longrightarrow> copy_call B call"
    and "src_ok B call G src" and "stub_args B call is_copy ks (src, G) = Some (src', G')"
  shows "finals B G G'"
  using assms(1,6,7)
proof (induction ks arbitrary: src G)
  case (Cons k ks)
  from Cons.prems(3) obtain src1 G1 where 1: "stub_arg B call is_copy k (src, G) = Some (src1, G1)"
    "stub_args B call is_copy ks (src1, G1) = Some (src', G')" by (auto split: option.splits)
  from stub_arg_finals [OF Cons.prems(1) ok c cc Cons.prems(2) 1(1)] have f: "finals B G G1" "src_ok B call G1 src1" by blast+
  from finals_trans [OF f(1) Cons.IH [OF finalsD(1) [OF f(1)] f(2) 1(2)]] show ?case .
qed (simp add: finals_refl)

section \<open>Calls of Java methods\<close>

lemma java_arg_escape_finals:
  assumes inv: "build_inv B G" and p: "ptnode_adr G m = Some p" and m: "\<not> copy_call B m"
  shows "finals B G (java_arg_escape B call k p G)"
proof -
  let ?G1 = "set_escape_state p ArgEscape G"
  note f1 = finals_escape(1) [OF inv p m, of ArgEscape]
  have "finals B G (set_fields_escape_state p GlobalEscape ?G1)"
    by (rule finals_trans [OF f1 finals_escape(2) [OF finalsD(1) [OF f1] ptnode_extends [OF finalsD(2) [OF f1] p] m]])
  with f1 finals_escape(1) [OF inv p m, of GlobalEscape] finals_refl [OF inv] show ?thesis
    by (simp add: java_arg_escape_def Let_def)
qed

lemma java_arg_finals:
  assumes inv: "build_inv B G" and ok: "ideal_ok B" and r: "java_arg B call k G = Some G'"
  shows "finals B G G'"
proof -
  obtain arg where arg: "input B call (Parms + k) = Some arg" using r by (auto simp: java_arg_def split: option.splits)
  have na: "\<not> copy_call B arg" using not_copy_input [OF ok arg] by (simp add: Parms_def)
  define ret where "ret \<longleftrightarrow> domain_isa_ptr B call ! k \<and> bc_arg_returned B call k"
  obtain G1 where G1: "(if ret then (case ptnode_adr G call of None \<Rightarrow> Some G
      | Some cp \<Rightarrow> (case ptnode_adr G arg of Some ap \<Rightarrow> if is_LocalVar G cp then Some (fst (add_edge cp ap G)) else None | None \<Rightarrow> None))
     else Some G) = Some G1" "(if domain_isa_oopptr B call ! k then map_option (\<lambda>p. java_arg_escape B call k p G1) (ptnode_adr G1 arg) else Some G1) = Some G'"
    using r unfolding java_arg_def arg option.case Let_def ret_def [symmetric] by (auto split: option.splits)
  from G1(1) have f1: "finals B G G1"
    using finals_refl [OF inv] finals_edge [OF inv] ptnode_range [OF inv] by (auto split: if_splits option.splits)
  from G1(2) java_arg_escape_finals [OF finalsD(1) [OF f1] _ na, of _ call k] have "finals B G1 G'"
    using finals_refl [OF finalsD(1) [OF f1]] by (auto split: if_splits)
  with f1 show ?thesis by (rule finals_trans)
qed

lemma java_args_finals:
  assumes "build_inv B G" and ok: "ideal_ok B" and "java_args B call ks G = Some G'"
  shows "finals B G G'"
  using assms(1,3)
proof (induction ks arbitrary: G)
  case (Cons k ks)
  then obtain G1 where 1: "java_arg B call k G = Some G1" "java_args B call ks G1 = Some G'" by (auto split: option.splits)
  note f = java_arg_finals [OF Cons.prems(1) ok 1(1)]
  from finals_trans [OF f Cons.IH [OF finalsD(1) [OF f] 1(2)]] show ?case .
qed (simp add: finals_refl)

lemma analyzed_call_finals:
  assumes inv: "build_inv B G" and ok: "ideal_ok B" and r: "analyzed_call B call G = Some G'"
  shows "finals B G G'"
proof -
  obtain G1 where G1: "java_args B call (arg_positions B call) G = Some G1" using r by (auto simp: analyzed_call_def split: option.splits)
  note f = java_args_finals [OF inv ok G1] and ph = phantom_range(1) [OF build_invD(1) [OF finalsD(1) [OF java_args_finals [OF inv ok G1]]]]
  have "finals B G1 (fst (add_edge p (phantom_obj G1) G1))" if "ptnode_adr G1 call = Some p" "is_LocalVar G1 p" for p
    using builds_edge [OF finalsD(1) [OF f] ptnode_range [OF finalsD(1) [OF f] that(1)] ph] that(2) by (intro finals_same) (simp_all add: cg_frame)
  then have "finals B G1 G'" using r finals_refl [OF finalsD(1) [OF f]]
    by (auto simp: analyzed_call_def G1 split: option.splits if_splits)
  with f show ?thesis by (rule finals_trans)
qed

lemma unknown_args_finals:
  assumes "build_inv B G" and ok: "ideal_ok B" and "unknown_args B call ks G = Some G'"
  shows "finals B G G'"
  using assms(1,3)
proof (induction ks arbitrary: G)
  case (Cons k ks)
  show ?case
  proof (cases "domain_isa_oopptr B call ! k")
    case True
    with Cons.prems obtain a p where a: "input B call (Parms + k) = Some a" "registered_object B G a = Some p"
      "unknown_args B call ks (set_escape_state p GlobalEscape G) = Some G'"
      by (auto simp: Option.bind_eq_Some_conv split: option.splits)
    then obtain m where m: "object_of B a = Some m" "ptnode_adr G m = Some p" by (auto simp: registered_object_def Option.bind_eq_Some_conv)
    have "\<not> copy_call B m" by (rule object_of_not_copy [OF ok a(1) _ m(1)]) (simp add: Parms_def)
    note f = finals_escape(1) [OF Cons.prems(1) m(2) this, of GlobalEscape]
    from finals_trans [OF f Cons.IH [OF finalsD(1) [OF f] a(3)]] show ?thesis .
  qed (use Cons in auto)
qed (simp add: finals_refl)

lemma process_call_arguments_finals:
  assumes inv: "build_inv B G" and ok: "ideal_ok B" "copies_ok B" and c: "is_Call B call" and r: "process_call_arguments B call G = Some G'"
  shows "finals B G G'"
proof -
  let ?copy = "Opcode B call = Op_ArrayCopy \<or> Opcode B call = Op_CallLeafNoFP \<and> is_call_to_arraycopystub B call"
  have stub: "finals B G G'" if st: "map_option snd (stub_args B call ?copy (arg_positions B call) (False, G)) = Some G'"
  proof -
    from st obtain src where "stub_args B call ?copy (arg_positions B call) (False, G) = Some (src, G')" by auto
    then show ?thesis using c by (intro stub_args_finals [OF inv ok c, of ?copy False _ src]) (auto simp: copy_call_def src_ok_def)
  qed
  show ?thesis
    using r stub analyzed_call_finals [OF inv ok(1), of call G'] unknown_args_finals [OF inv ok(1), of call _ G'] finals_refl [OF inv]
    unfolding process_call_arguments_def Let_def by (auto split: if_split_asm)
qed

section \<open>The escape states of the arguments\<close>

lemma escape_global_extends:
  assumes "extends G G'" and "p < cg_next_pidx G"
  shows "escape G p = GlobalEscape \<Longrightarrow> escape G' p = GlobalEscape" "fields_escape G p = GlobalEscape \<Longrightarrow> fields_escape G' p = GlobalEscape"
  using extendsD(10,11) [OF assms] by simp_all

lemma registered_object_extends: "extends G G' \<Longrightarrow> registered_object B G a = Some p \<Longrightarrow> registered_object B G' a = Some p"
  using ptnode_extends by (auto simp: registered_object_def Option.bind_eq_Some_conv)

lemma registered_object_range: "build_inv B G \<Longrightarrow> registered_object B G a = Some p \<Longrightarrow> p < cg_next_pidx G"
  using ptnode_range by (auto simp: registered_object_def Option.bind_eq_Some_conv)

lemma unknown_args_escape:
  assumes "build_inv B G" and ok: "ideal_ok B" and "unknown_args B call ks G = Some G'" and "k \<in> set ks" and k: "domain_isa_oopptr B call ! k"
    and "input B call (Parms + k) = Some a" and "registered_object B G a = Some p" and "p \<noteq> null_obj G"
  shows "escape G' p = GlobalEscape"
  using assms(1,3,4,7,8)
proof (induction ks arbitrary: G)
  case (Cons j ks)
  obtain G1 where 1: "unknown_args B call [j] G = Some G1" "unknown_args B call ks G1 = Some G'"
    using Cons.prems(2) by (auto split: option.splits if_splits)
  note f1 = unknown_args_finals [OF Cons.prems(1) ok 1(1)]
  note f2 = unknown_args_finals [OF finalsD(1) [OF f1] ok 1(2)]
  note p = Cons.prems(4,5)
  have r: "p < cg_next_pidx G1" using registered_object_range [OF finalsD(1) [OF f1] registered_object_extends [OF finalsD(2) [OF f1] p(1)]] .
  show ?case
  proof (cases "j = k")
    case True
    with 1(1) k assms(6) p have "G1 = set_escape_state p GlobalEscape G" by simp
    with p(2) have "escape G1 p = GlobalEscape" by (simp add: max_def)
    then show ?thesis by (rule escape_global_extends(1) [OF finalsD(2) [OF f2] r])
  next
    case False
    with Cons.prems(3) have "k \<in> set ks" by simp
    from Cons.IH [OF finalsD(1) [OF f1] 1(2) this registered_object_extends [OF finalsD(2) [OF f1] p(1)]] p(2)
    show ?thesis by (simp add: extendsD(3) [OF finalsD(2) [OF f1]])
  qed
qed simp

text \<open>What the bytecode analysis promises of an argument.\<close>

definition arg_state :: "build_ideal \<Rightarrow> node \<Rightarrow> nat \<Rightarrow> ConnectionGraph \<Rightarrow> pt \<Rightarrow> bool" where
  "arg_state B call k G p \<longleftrightarrow> ArgEscape \<le> escape G p \<and> (\<not> bc_arg_stack B call k \<longrightarrow> escape G p = GlobalEscape) \<and>
     (\<not> bc_arg_local B call k \<longrightarrow> fields_escape G p = GlobalEscape)"

lemma arg_state_extends: "arg_state B call k G p \<Longrightarrow> extends G G' \<Longrightarrow> p < cg_next_pidx G \<Longrightarrow> arg_state B call k G' p"
  using escape_global_extends extendsD(10) by (auto simp: arg_state_def intro: order_trans)

lemma java_arg_escape_state:
  assumes "esc_le G" and "p \<noteq> null_obj G"
  shows "arg_state B call k (java_arg_escape B call k p G) p"
proof -
  have "p \<noteq> null_obj (set_escape_state p ArgEscape G)" using assms(2) raises_frame(2) [OF set_escape_state_raises] by metis
  moreover have "escape G p = GlobalEscape \<Longrightarrow> fields_escape G p = GlobalEscape" using assms by (auto simp: esc_le_def)
  ultimately show ?thesis using assms(2) by (auto simp: arg_state_def java_arg_escape_def Let_def not_less max_def)
qed

lemma java_arg_state:
  assumes inv: "build_inv B G" and ok: "ideal_ok B" and r: "java_arg B call k G = Some G'" and k: "domain_isa_oopptr B call ! k"
    and a: "input B call (Parms + k) = Some a" and p: "ptnode_adr G a = Some p" "p \<noteq> null_obj G"
  shows "arg_state B call k G' p"
proof -
  define ret where "ret \<longleftrightarrow> domain_isa_ptr B call ! k \<and> bc_arg_returned B call k"
  obtain G1 where G1: "(if ret then (case ptnode_adr G call of None \<Rightarrow> Some G
      | Some cp \<Rightarrow> (case ptnode_adr G a of Some ap \<Rightarrow> if is_LocalVar G cp then Some (fst (add_edge cp ap G)) else None | None \<Rightarrow> None))
     else Some G) = Some G1" "map_option (\<lambda>p. java_arg_escape B call k p G1) (ptnode_adr G1 a) = Some G'"
    using r k unfolding java_arg_def a option.case Let_def ret_def [symmetric] by (auto split: option.splits)
  from G1(1) p have s: "ptnode_adr G1 a = Some p" "null_obj G1 = null_obj G" "escape G1 q = escape G q" "fields_escape G1 q = fields_escape G q" for q
    by (auto simp: ptnode_adr_def cg_frame split: if_splits option.splits)
  have "esc_le G1" using build_invD(3) [OF inv] by (simp add: esc_le_def s)
  with G1(2) s p(2) show ?thesis by (auto intro: java_arg_escape_state)
qed

lemma java_args_state:
  assumes "build_inv B G" and ok: "ideal_ok B" and "java_args B call ks G = Some G'" and "k \<in> set ks" and k: "domain_isa_oopptr B call ! k"
    and a: "input B call (Parms + k) = Some a" and "ptnode_adr G a = Some p" and "p \<noteq> null_obj G"
  shows "arg_state B call k G' p"
  using assms(1,3,4,7,8)
proof (induction ks arbitrary: G)
  case (Cons j ks)
  obtain G1 where 1: "java_arg B call j G = Some G1" "java_args B call ks G1 = Some G'"
    using Cons.prems(2) by (auto split: option.splits)
  note f1 = java_arg_finals [OF Cons.prems(1) ok 1(1)]
  note f2 = java_args_finals [OF finalsD(1) [OF f1] ok 1(2)]
  note p = Cons.prems(4,5) and p1 = ptnode_extends [OF finalsD(2) [OF f1] Cons.prems(4)]
  show ?case
  proof (cases "j = k")
    case True
    from java_arg_state [OF Cons.prems(1) ok 1(1) [unfolded True] k a p] show ?thesis
      by (rule arg_state_extends [OF _ finalsD(2) [OF f2] ptnode_range [OF finalsD(1) [OF f1] p1]])
  next
    case False
    with Cons.prems(3) have "k \<in> set ks" by simp
    from Cons.IH [OF finalsD(1) [OF f1] 1(2) this p1] p(2) show ?thesis by (simp add: extendsD(3) [OF finalsD(2) [OF f1]])
  qed
qed simp

section \<open>Final edges\<close>

lemma registered_local_var:
  assumes "build_inv B G" and "ptnode_adr G n = Some p" and "\<not> is_Call B n" and "local_var_opcode (Opcode B n)"
  shows "p < cg_next_pidx G" "is_LocalVar G p"
  using ptnode_range [OF assms(1,2)] kinds_okD(1) [OF build_invD(6) [OF assms(1)] assms(2)] assms(3,4)
  by (auto simp: node_kinds_def local_var_opcode_def)

lemma edge_to_finals:
  assumes inv: "build_inv B G" and n: "\<not> is_Call B n" "local_var_opcode (Opcode B n)" and r: "edge_to n es to G = Some G'"
  shows "finals B G G'"
proof -
  from r obtain t p q where "to = Some t" "ptnode_adr G n = Some p" "ptnode_adr G t = Some q" "G' = fst (add_edge p q G)"
    by (auto simp: edge_to_def add_local_var_and_edge_def Let_def split: option.splits)
  with finals_edge [OF inv] registered_local_var [OF inv _ n] show ?thesis by blast
qed

lemma input_edges_finals:
  assumes "build_inv B G" and n: "\<not> is_Call B n" "local_var_opcode (Opcode B n)" and "ptnode_adr G n = Some p" and "input_edges B n p is G = Some G'"
  shows "finals B G G'"
  using assms(1,4,5)
proof (induction "is" arbitrary: G)
  case (Cons i "is")
  show ?case
  proof (cases "\<exists>x q. input B n i = Some x \<and> ptnode_adr G x = Some q \<and> \<not> (is_top B (uncast B x) \<or> uncast B x = n)")
    case True
    then obtain x q where x: "input B n i = Some x" "ptnode_adr G x = Some q" "\<not> (is_top B (uncast B x) \<or> uncast B x = n)" by blast
    note f = finals_edge [OF Cons.prems(1) x(2) registered_local_var(1) [OF Cons.prems(1,2) n] disjI1 [OF registered_local_var(2) [OF Cons.prems(1,2) n]]]
    from Cons.IH [OF finalsD(1) [OF f] ptnode_extends [OF finalsD(2) [OF f] Cons.prems(2)]] Cons.prems(3) x finals_trans [OF f]
    show ?thesis by simp
  next
    case False
    with Cons show ?thesis by (auto split: option.splits if_splits)
  qed
qed (simp add: finals_refl)

lemma intrinsic_edges_finals:
  assumes "build_inv B G" and n: "\<not> is_Call B n" "local_var_opcode (Opcode B n)" and "ptnode_adr G n = Some p" and "intrinsic_edges B n p is G = Some G'"
  shows "finals B G G'"
  using assms(1,4,5)
proof (induction "is" arbitrary: G)
  case (Cons i "is")
  show ?case
  proof (cases "\<exists>x q. input B n i = Some x \<and> registered_object B G x = Some q \<and> \<not> is_top B x \<and> isa_ptr B x")
    case True
    then obtain x q m where x: "input B n i = Some x" "registered_object B G x = Some q" "ptnode_adr G m = Some q" "\<not> is_top B x" "isa_ptr B x"
      by (auto simp: registered_object_def Option.bind_eq_Some_conv)
    note f = finals_edge [OF Cons.prems(1) x(3) registered_local_var(1) [OF Cons.prems(1,2) n] disjI1 [OF registered_local_var(2) [OF Cons.prems(1,2) n]]]
    from Cons.IH [OF finalsD(1) [OF f] ptnode_extends [OF finalsD(2) [OF f] Cons.prems(2)]] Cons.prems(3) x finals_trans [OF f]
    show ?thesis by simp
  next
    case False
    with Cons show ?thesis by (auto split: option.splits if_splits)
  qed
qed (simp add: finals_refl)

lemma unsafe_access_finals:
  assumes inv: "build_inv B G" and ok: "ideal_ok B" and n: "\<not> is_Call B n" and o: "Opcode B n = opc"
    and r: "add_final_edges_unsafe_access B n opc G = Some (G', b)"
  shows "finals B G G'"
proof -
  obtain adr where adr: "input B n mem_Address = Some adr" using r by (auto simp: add_final_edges_unsafe_access_def split: option.splits)
  obtain G1 where G1: "(if opc \<in> {Op_GetAndSetP, Op_GetAndSetN, Op_CompareAndExchangeN, Op_CompareAndExchangeP}
      then edge_to n NoEscape (Some adr) G else Some G) = Some G1"
    and r1: "(if is_oop_store_address B opc adr then
         (case (ptnode_adr G1 adr, Option.bind (input B n mem_ValueIn) (ptnode_adr G1)) of
            (Some a, Some v) \<Rightarrow> if is_Field G1 a \<and> pt_is_oop (cg_heap G1 a) then Some (fst (add_edge a v G1), True) else None
          | _ \<Rightarrow> None)
       else if opc = Op_StoreP \<and> make_ptr_isa_rawptr B adr then
         (case (ptnode_adr G1 adr, Option.bind (input B n mem_ValueIn) (ptnode_adr G1)) of
            (Some a, Some v) \<Rightarrow>
              let G2 = set_escape_state v GlobalEscape G1
              in if is_Field G2 a then (if pt_is_oop (cg_heap G2 a) then Some (fst (add_edge a v G2), True) else None) else Some (G2, True)
          | _ \<Rightarrow> None)
       else Some (G1, False)) = Some (G', b)"
    using r unfolding add_final_edges_unsafe_access_def adr option.case by (auto simp: Option.bind_eq_Some_conv split: if_split_asm)
  have f1: "finals B G G1"
  proof (cases "opc \<in> {Op_GetAndSetP, Op_GetAndSetN, Op_CompareAndExchangeN, Op_CompareAndExchangeP}")
    case True
    then have "local_var_opcode (Opcode B n)" using o by (auto simp: local_var_opcode_def)
    with True G1 show ?thesis by (auto intro: edge_to_finals [OF inv n])
  qed (use G1 inv in \<open>auto simp: finals_refl\<close>)
  note i1 = finalsD(1) [OF f1]
  have e: "finals B G1 (fst (add_edge a v G1))" if "ptnode_adr G1 adr = Some a" "ptnode_adr G1 m = Some v" "is_Field G1 a \<and> pt_is_oop (cg_heap G1 a)" for a v m
    using finals_edge [OF i1 that(2) ptnode_range [OF i1 that(1)]] that(3) by simp
  have e2: "finals B G1 (set_escape_state v GlobalEscape G1)"
    "ptnode_adr G1 adr = Some a \<Longrightarrow> is_Field (set_escape_state v GlobalEscape G1) a \<Longrightarrow> pt_is_oop (cg_heap (set_escape_state v GlobalEscape G1) a) \<Longrightarrow>
       finals B G1 (fst (add_edge a v (set_escape_state v GlobalEscape G1)))"
    if "input B n mem_ValueIn = Some m" "ptnode_adr G1 m = Some v" for a v m
  proof -
    let ?G2 = "set_escape_state v GlobalEscape G1"
    have "\<not> copy_call B m" by (rule not_copy_input [OF ok that(1)]) (simp add: mem_ValueIn_def)
    note f2 = finals_escape(1) [OF i1 that(2) this, of GlobalEscape]
    show "finals B G1 ?G2" by (rule f2)
    show "finals B G1 (fst (add_edge a v ?G2))" if "ptnode_adr G1 adr = Some a" "is_Field ?G2 a" "pt_is_oop (cg_heap ?G2 a)"
      using finals_trans [OF f2 finals_edge [OF finalsD(1) [OF f2], of m v a]] that \<open>ptnode_adr G1 m = Some v\<close> ptnode_range [OF i1]
      by (simp add: ptnode_adr_def)
  qed
  have "finals B G1 G'" using r1 e e2 finals_refl [OF i1]
    by (auto simp: Let_def Option.bind_eq_Some_conv split: if_split_asm option.split_asm)
  with f1 show ?thesis by (rule finals_trans)
qed

lemma add_final_edges_finals:
  assumes inv: "build_inv B G" and ok: "ideal_ok B" "copies_ok B" and r: "add_final_edges B n G = Some G'"
  shows "finals B G G'"
proof (cases "is_Call B n \<or> gc_add_final_edges B n")
  case True
  then show ?thesis using r build_invD(8) [OF inv] process_call_arguments_finals [OF inv ok, of n G'] finals_refl [OF inv]
    by (auto simp: add_final_edges_def Let_def split: if_split_asm)
next
  case False
  then have n: "\<not> is_Call B n" "\<not> gc_add_final_edges B n" by simp_all
  have v: "cg_verify G = False" using build_invD(8) [OF inv] by simp
  have reg: "(is_Store B n \<or> is_LoadStore B n \<or> ptnode_adr G n \<noteq> None) = True"
    using r n v by (auto simp: add_final_edges_def Let_def split: if_split_asm)
  have n': "is_Call B n = False" "gc_add_final_edges B n = False" using n by simp_all
  note r' = r [unfolded add_final_edges_def Let_def, unfolded reg v n' simp_thms if_False if_True, unfolded if_False]
  note lo = local_var_opcode_def
  have et: ?thesis if "local_var_opcode (Opcode B n)" "edge_to n es to G = Some G'" for es to
    by (rule edge_to_finals [OF inv n(1) that])
  have ie: ?thesis if "local_var_opcode (Opcode B n)" "ptnode_adr G n = Some p" "input_edges B n p is G = Some G'" for p "is"
    by (rule input_edges_finals [OF inv n(1) that])
  have ne: ?thesis if "local_var_opcode (Opcode B n)" "ptnode_adr G n = Some p" "intrinsic_edges B n p is G = Some G'" for p "is"
    by (rule intrinsic_edges_finals [OF inv n(1) that])
  have un: ?thesis if "add_final_edges_unsafe_access B n (Opcode B n) G = Some (G', b)" for b
    by (rule unsafe_access_finals [OF inv ok(1) n(1) refl that])
  have ?thesis if o: "Opcode B n = Op_AddP"
  proof -
    from o r' obtain base f b where b: "get_addp_base B n = Some base" "ptnode_adr G n = Some f" "ptnode_adr G base = Some b"
      "is_Field G f" "G' = fst (add_base f b G)" by (auto split: option.splits if_splits)
    have "\<not> copy_call B base" using ok(1) b(1) by (auto simp: ideal_ok_def)
    from builds_base [OF inv ptnode_range [OF inv b(2)] ptnode_range [OF inv b(3)] b(4) registered_not_arraycopy [OF inv b(3) this]] b(5)
    show ?thesis by (intro finals_same) (simp_all add: cg_frame)
  qed
  moreover have ?thesis if o: "Opcode B n \<in> {Op_CastPP, Op_CheckCastPP, Op_EncodeP, Op_DecodeN, Op_EncodePKlass, Op_DecodeNKlass}"
    using o r' et by (elim insertE emptyE) (simp_all add: lo split: if_splits)
  moreover have ?thesis if o: "Opcode B n = Op_CMoveP"
    using o r' ie by (simp add: lo split: option.splits)
  moreover have ?thesis if o: "Opcode B n \<in> {Op_LoadP, Op_LoadN, Op_LoadPLocked}"
    using o r' et by (elim insertE emptyE) (simp_all add: lo split: if_splits)
  moreover have ?thesis if o: "Opcode B n = Op_Phi"
    using o r' ie by (simp add: lo split: option.splits if_splits)
  moreover have ?thesis if o: "Opcode B n = Op_Proj"
    using o r' et by (simp add: lo split: option.splits if_splits)
  moreover have ?thesis if o: "Opcode B n = Op_Rethrow \<or> Opcode B n = Op_Return"
    using o r' et by (elim disjE) (simp_all add: lo split: option.splits if_splits)
  moreover have ?thesis if o: "Opcode B n \<in> {Op_StoreP, Op_StoreN, Op_StoreNKlass, Op_StorePConditional, Op_CompareAndExchangeP,
      Op_CompareAndExchangeN, Op_CompareAndSwapP, Op_CompareAndSwapN, Op_WeakCompareAndSwapP, Op_WeakCompareAndSwapN, Op_GetAndSetP, Op_GetAndSetN}"
    using o r' un by (elim insertE emptyE) (simp_all split: option.splits if_splits prod.splits bool.splits)
  moreover have ?thesis if o: "Opcode B n \<in> {Op_AryEq, Op_HasNegatives, Op_StrComp, Op_StrEquals, Op_StrIndexOf, Op_StrIndexOfChar,
      Op_StrInflatedCopy, Op_StrCompressedCopy, Op_EncodeISOArray}"
    using o r' ne by (elim insertE emptyE) (simp_all add: lo split: option.splits)
  moreover have ?thesis if o: "Opcode B n \<in> {Op_CastX2P, Op_CreateEx, Op_LoadKlass, Op_LoadNKlass, Op_Parm, Op_PartialSubtypeCheck, Op_ConP, Op_ConN,
      Op_ConNKlass, Op_ThreadLocal, Op_CmpP, Op_CmpN, Op_ArrayCopy, Op_CallLeafNoFP, Op_CallLeaf, Op_CallStaticJava, Op_CallDynamicJava, Op_MemBarRelease}"
    using o r' by (elim insertE emptyE) (simp_all split: if_splits)
  moreover have ?thesis if o: "Opcode B n = Op_other k" for k
    using o r' by (simp split: if_splits)
  ultimately show ?thesis by (cases "Opcode B n") simp_all
qed

lemma final_loop_finals:
  assumes "build_inv B G" and ok: "ideal_ok B" "copies_ok B" and "final_loop B ns G = Some G'"
  shows "finals B G G'"
  using assms(1,4)
proof (induction ns arbitrary: G)
  case (Cons n ns)
  then obtain G1 where 1: "add_final_edges B n G = Some G1" "final_loop B ns G1 = Some G'" by (auto split: option.splits)
  note f = add_final_edges_finals [OF Cons.prems(1) ok 1(1)]
  from finals_trans [OF f Cons.IH [OF finalsD(1) [OF f] 1(2)]] show ?case .
qed (simp add: finals_refl)

section \<open>The whole construction\<close>

lemma build_inv_complete:
  assumes "build_inv B G"
  shows "tidy G" "copy_start G"
  using assms build_inv_flow [OF assms] by (auto simp: tidy_def wl_noac_def copy_start_def build_inv_def)

lemma build_setup:
  assumes f: "finals B G G'" and l: "lists_ok G0 c" and g: "co_graph c = G" and all: "set (co_ptnodes c) = {..<cg_next_pidx G}"
  shows "setup_ok (co_ptnodes c) (co_java_objects c) (co_oop_fields c) G'"
proof -
  note d = build_invD [OF finalsD(1) [OF f]] and e = finalsD(2) [OF f]
  have 1: "{..<cg_next_pidx G} \<subseteq> {..<cg_next_pidx G'}" using extendsD(1) [OF e] by auto
  have 2: "p \<in> set (co_ptnodes c) \<or> is_Arraycopy G' p" if "p < cg_next_pidx G'" for p
    using that f all by (cases "p < cg_next_pidx G") (auto simp: finals_def)
  have 3: "jobj_ok G' j" if "j \<in> set (co_java_objects c)" for j
    using that l all g extendsD(1,8) [OF e] by (auto simp: lists_ok_def jobj_ok_def)
  have 4: "is_Field G' x \<and> pt_is_oop (cg_heap G' x)" if "x \<in> set (co_oop_fields c)" for x
    using that l all g extendsD(8,9) [OF e, of x] by (auto simp: lists_ok_def)
  show ?thesis using 1 2 3 4 d(4,5) all by (simp add: setup_ok_def states_known_def)
qed

text \<open>A call about which nothing is known.\<close>

definition opaque_call :: "build_ideal \<Rightarrow> node \<Rightarrow> bool" where
  "opaque_call B call \<longleftrightarrow> delayed_call B call \<and> Opcode B call \<notin> {Op_ArrayCopy, Op_CallLeafNoFP, Op_CallLeaf} \<and>
     \<not> (Opcode B call = Op_CallStaticJava \<and> has_method B call)"

definition oop_arg :: "build_ideal \<Rightarrow> node \<Rightarrow> nat \<Rightarrow> node \<Rightarrow> bool" where
  "oop_arg B call k a \<longleftrightarrow> k < length (domain_isa_ptr B call) \<and> domain_isa_oopptr B call ! k \<and> input B call (Parms + k) = Some a"

lemma unknown_args_registered:
  assumes "unknown_args B call ks G = Some G'" and "k \<in> set ks" and "domain_isa_oopptr B call ! k" and "input B call (Parms + k) = Some a"
  shows "\<exists>p. registered_object B G a = Some p"
  using assms
proof (induction ks arbitrary: G)
  case (Cons j ks)
  have same: "registered_object B (set_escape_state p s G) a = registered_object B G a" for p s
    by (simp add: registered_object_def ptnode_adr_def [abs_def])
  show ?case
  proof (cases "k = j")
    case True
    with Cons.prems show ?thesis by (auto split: option.split_asm)
  next
    case False
    with Cons.prems have k: "k \<in> set ks" by simp
    from Cons.prems(1) obtain H where "unknown_args B call ks H = Some G'" "registered_object B H a = registered_object B G a"
      by (auto simp: same split: if_split_asm option.split_asm)
    with Cons.IH [OF _ k Cons.prems(3,4)] show ?thesis by metis
  qed
qed simp

lemma opaque_call_args:
  assumes "opaque_call B call" and "process_call_arguments B call G = Some G'"
  shows "unknown_args B call (arg_positions B call) G = Some G'"
  using assms by (auto simp: opaque_call_def process_call_arguments_def Let_def split: if_split_asm)

lemma opaque_call_escapes:
  assumes inv: "build_inv B G" and ok: "ideal_ok B" and c: "opaque_call B call" "oop_arg B call k a" and r: "process_call_arguments B call G = Some G'"
  shows "\<exists>p. registered_object B G a = Some p \<and> (p \<noteq> null_obj G \<longrightarrow> escape G' p = GlobalEscape)"
proof -
  note u = opaque_call_args [OF c(1) r]
  have k: "k \<in> set (arg_positions B call)" "domain_isa_oopptr B call ! k" "input B call (Parms + k) = Some a"
    using c(2) by (simp_all add: oop_arg_def arg_positions_def)
  obtain p where "registered_object B G a = Some p" using unknown_args_registered [OF u k] by blast
  with unknown_args_escape [OF inv ok u k] show ?thesis by blast
qed

lemma final_loop_opaque:
  assumes "build_inv B G" and ok: "ideal_ok B" "copies_ok B" and "final_loop B ns G = Some G'" and "call \<in> set ns"
    and c: "opaque_call B call" "oop_arg B call k a"
  shows "\<exists>p. registered_object B G' a = Some p \<and> (p \<noteq> null_obj G' \<longrightarrow> escape G' p = GlobalEscape)"
  using assms(1,4,5)
proof (induction ns arbitrary: G)
  case (Cons n ns)
  then obtain G1 where 1: "add_final_edges B n G = Some G1" "final_loop B ns G1 = Some G'" by (auto split: option.splits)
  note f = add_final_edges_finals [OF Cons.prems(1) ok 1(1)]
  note e = finalsD(2) [OF final_loop_finals [OF finalsD(1) [OF f] ok 1(2)]]
  show ?case
  proof (cases "n = call")
    case True
    with c(1) have "is_Call B n" by (simp add: opaque_call_def delayed_call_def)
    with 1(1) True build_invD(8) [OF Cons.prems(1)] have "process_call_arguments B call G = Some G1" by (simp add: add_final_edges_def)
    from opaque_call_escapes [OF Cons.prems(1) ok(1) c this] obtain p where
      p: "registered_object B G a = Some p" "p \<noteq> null_obj G \<longrightarrow> escape G1 p = GlobalEscape" by blast
    note p1 = registered_object_extends [OF finalsD(2) [OF f] p(1)]
    show ?thesis using registered_object_extends [OF e p1] p(2) extendsD(3) [OF e] extendsD(3) [OF finalsD(2) [OF f]]
        escape_global_extends(1) [OF e registered_object_range [OF finalsD(1) [OF f] p1]] by auto
  next
    case False
    with Cons.IH [OF finalsD(1) [OF f] 1(2)] Cons.prems(3) show ?thesis by simp
  qed
qed simp

lemma build_connection_graph_result:
  assumes k: "constants_ok B top_node oop_null noop_null" and ok: "ideal_ok B" "copies_ok B"
    and n: "\<forall>n. reachable B n \<longrightarrow> node_ok B n \<and> n < unique B"
    and G: "G = new_ConnectionGraph unq top_node oop_null noop_null coops" and o: "reachable B oop_null"
    and r: "build_connection_graph B G = Some (c, G1, True)"
  shows "build_inv B G1" "setup_ok (co_ptnodes c) (co_java_objects c) (co_oop_fields c) G1"
    "\<And>call k a. reachable B call \<Longrightarrow> opaque_call B call \<Longrightarrow> oop_arg B call k a \<Longrightarrow>
       \<exists>p. registered_object B G1 a = Some p \<and> (p \<noteq> null_obj G1 \<longrightarrow> escape G1 p = GlobalEscape)"
proof -
  from first_pass_result [OF k ok(1) n G o] obtain c' where
    c': "collect_loop B 0 (start_collecting B G) = Some c'" "coll_inv B G (length (co_nodes c')) c'"
      "set (co_ptnodes c') = {..<cg_next_pidx (co_graph c')}" by blast
  with r have c: "c' = c" "final_loop B (rev (bs_delayed (co_build c))) (co_graph c) = Some G1"
    by (auto simp: build_connection_graph_def split: if_split_asm)
  from c'(2) c(1) have q: "queue_ok B (length (co_nodes c)) (co_nodes c)" and b: "build_inv B (co_graph c)" and l: "lists_ok G c"
    and d: "nodes_done B G (set (co_nodes c)) c" by (simp_all add: coll_inv_def builds_def)
  note f = final_loop_finals [OF b ok c(2)]
  show "build_inv B G1" by (rule finalsD(1) [OF f])
  show "setup_ok (co_ptnodes c) (co_java_objects c) (co_oop_fields c) G1" by (rule build_setup [OF f l refl]) (use c'(3) c(1) in simp)
  fix call k a assume a: "reachable B call" "opaque_call B call" "oop_arg B call k a"
  then have "call \<in> set (rev (bs_delayed (co_build c)))"
    using d queue_ok_end [OF q] by (auto simp: nodes_done_def opaque_call_def)
  from final_loop_opaque [OF b ok c(2) this a(2,3)]
  show "\<exists>p. registered_object B G1 a = Some p \<and> (p \<noteq> null_obj G1 \<longrightarrow> escape G1 p = GlobalEscape)" .
qed


lemma sample_builds: "case build_connection_graph sample_ideal sample_graph of Some (c, G1, b) \<Rightarrow> b | _ \<Rightarrow> False"
  by code_simp

section \<open>Properties\<close>

text \<open>What a node may hold: the nodes reached over edges, copies and null left out.\<close>

inductive holds :: "ConnectionGraph \<Rightarrow> pt \<Rightarrow> pt \<Rightarrow> bool" for G p where
  self: "holds G p p"
| edge: "holds G p q \<Longrightarrow> r \<in> set (edges G q) \<Longrightarrow> r \<noteq> null_obj G \<Longrightarrow> \<not> is_Arraycopy G r \<Longrightarrow> holds G p r"

lemma holds_escape:
  assumes cl: "escape_closed G" and wf: "cg_wf G" and p: "p < cg_next_pidx G" "escape G p = GlobalEscape" and "holds G p q"
  shows "q < cg_next_pidx G \<and> escape G q = GlobalEscape"
  using assms(5)
proof induction
  case (edge q r)
  then have "escape G q \<le> escape G r" using cl by (auto simp: escape_closed_def)
  with edge cg_wf_range [OF wf] show ?case by (auto simp: wf_range_def)
qed (use p in simp)

lemma sample_copies_ok: "copies_ok sample_ideal"
  by (simp add: copies_ok_def sample_ideal_def build0_def)

lemma sample_oop_arg: "reachable sample_ideal 8" "opaque_call sample_ideal 8" "oop_arg sample_ideal 8 0 5"
proof -
  have "reachable sample_ideal 3" by (rule reachable.out [of _ 2]) (simp_all add: reachable.root)
  then have "reachable sample_ideal 4" by (rule reachable.out) simp
  then have "reachable sample_ideal 5" by (rule reachable.out) simp
  then show "reachable sample_ideal 8" by (rule reachable.out) simp
  show "opaque_call sample_ideal 8" "oop_arg sample_ideal 8 0 5"
    by (simp_all add: opaque_call_def delayed_call_def oop_arg_def sample_queries)
qed

text \<open>
  C4: The construction of the graph hands over to its completion. From the new graph, if no assertion of the
  second pass fails and there is an object to analyze, the graph and the worklists are in the state the completion
  needs, so that it returns. If it reports success, then whatever an argument of a call about which nothing is known may
  hold is not among the objects reported as not escaping.
\<close>

theorem construction_and_completion:
  assumes "constants_ok B top_node oop_null noop_null" and "ideal_ok B" and "copies_ok B"
    and "\<forall>n. reachable B n \<longrightarrow> node_ok B n \<and> n < unique B"
    and "G = new_ConnectionGraph unq top_node oop_null noop_null coops" and "reachable B oop_null"
    and "build_connection_graph B G = Some (c, G1, True)"
  shows "\<exists>G2 ne inits ok.
    complete_connection_graph I expired (co_ptnodes c) (co_non_escaped c) (co_java_objects c) (co_oop_fields c) G1 = Some (G2, ne, inits, ok) \<and>
    cg_wf G2 \<and>
    (ok \<longrightarrow> escape_closed G2 \<and>
       (\<forall>call k a. reachable B call \<and> opaque_call B call \<and> oop_arg B call k a \<longrightarrow>
          (\<exists>p. registered_object B G2 a = Some p \<and> (\<forall>q. holds G2 p q \<and> p \<noteq> null_obj G2 \<longrightarrow> q \<notin> set ne))))"
proof -
  note b = build_connection_graph_result [OF assms]
  from complete_connection_graph_result [OF build_inv_complete(1) [OF b(1)] b(2) build_inv_complete(2) [OF b(1)], of I expired "co_non_escaped c"]
  obtain G2 ne inits ok where
    r: "complete_connection_graph I expired (co_ptnodes c) (co_non_escaped c) (co_java_objects c) (co_oop_fields c) G1 = Some (G2, ne, inits, ok)"
    and w: "cg_wf G2" "grows G1 G2" and k: "ok \<longrightarrow> escape_closed G2 \<and> ne = filter (\<lambda>p. escape G2 p \<noteq> GlobalEscape) (co_non_escaped c)"
    by blast
  have "\<exists>p. registered_object B G2 a = Some p \<and> (\<forall>q. holds G2 p q \<and> p \<noteq> null_obj G2 \<longrightarrow> q \<notin> set ne)"
    if ok and c: "reachable B call" "opaque_call B call" "oop_arg B call k a" for call k a
  proof -
    obtain p where p: "registered_object B G1 a = Some p" "p \<noteq> null_obj G1 \<longrightarrow> escape G1 p = GlobalEscape" using b(3) [OF c] by blast
    have p2: "registered_object B G2 a = Some p" using p(1) w(2) by (simp add: registered_object_def ptnode_adr_def [abs_def] grows_def)
    have "q \<notin> set ne" if "holds G2 p q" "p \<noteq> null_obj G2" for q
    proof -
      have "escape G2 p = GlobalEscape" using p(2) that(2) growsD(2,7) [OF w(2)] by (metis GlobalEscape_top(2))
      moreover have "p < cg_next_pidx G2" using registered_object_range [OF b(1) p(1)] by (simp add: growsD [OF w(2)])
      ultimately have "escape G2 q = GlobalEscape" using holds_escape [OF _ w(1) _ _ that(1)] k \<open>ok\<close> by blast
      with k \<open>ok\<close> show ?thesis by simp
    qed
    with p2 show ?thesis by blast
  qed
  with r w(1) k show ?thesis by blast
qed

theorem construction_and_completion_witness:
  "\<exists>c G1 G2 ne inits ok. build_connection_graph sample_ideal sample_graph = Some (c, G1, True) \<and>
     complete_connection_graph ideal0 (\<lambda>_. False) (co_ptnodes c) (co_non_escaped c) (co_java_objects c) (co_oop_fields c) G1 =
       Some (G2, ne, inits, ok) \<and>
     (ok \<longrightarrow> (\<exists>p. registered_object sample_ideal G2 5 = Some p \<and> (\<forall>q. holds G2 p q \<and> p \<noteq> null_obj G2 \<longrightarrow> q \<notin> set ne)))"
proof -
  from sample_builds obtain c G1 where b: "build_connection_graph sample_ideal sample_graph = Some (c, G1, True)"
    by (auto split: option.splits prod.splits)
  have "reachable sample_ideal 1" by (rule reachable.out [of _ 2]) (simp_all add: reachable.root)
  from construction_and_completion [OF sample_constants sample_ideal_ok sample_copies_ok _ refl this b, of ideal0 "\<lambda>_. False"]
    sample_node_ok sample_reachable b sample_oop_arg show ?thesis by (simp, blast)
qed

text \<open>
  C9: The arguments of a call, when none of the assertions fails: states only rise. If nothing is known about the
  call, every oop argument that is not null escapes globally. If the bytecode analysis knows the method, an
  argument escapes at least into the call, globally if the analysis does not keep it on the stack, and its
  fields escape globally if the analysis does not keep them local.
\<close>

theorem process_call_arguments_escapes:
  assumes "build_inv B G" and "ideal_ok B" and "copies_ok B" and "delayed_call B call" and "oop_arg B call k a"
    and "process_call_arguments B call G = Some G'"
  shows "extends G G' \<and> cg_wf G' \<and>
    (opaque_call B call \<longrightarrow> (\<exists>p. registered_object B G a = Some p \<and> (p \<noteq> null_obj G \<longrightarrow> escape G' p = GlobalEscape))) \<and>
    (Opcode B call = Op_CallStaticJava \<and> has_method B call \<and> \<not> is_boxing_method B call \<longrightarrow>
       (\<forall>p. ptnode_adr G a = Some p \<and> p \<noteq> null_obj G \<longrightarrow> arg_state B call k G' p))"
proof -
  have c: "is_Call B call" using assms(4) by (simp add: delayed_call_def)
  note f = process_call_arguments_finals [OF assms(1-3) c assms(6)]
  have "arg_state B call k G' p" if m: "Opcode B call = Op_CallStaticJava" "has_method B call" "\<not> is_boxing_method B call"
    and p: "ptnode_adr G a = Some p" "p \<noteq> null_obj G" for p
  proof -
    from m assms(6) have "analyzed_call B call G = Some G'"
      by (auto simp: process_call_arguments_def split: if_split_asm)
    then obtain G1 where g: "java_args B call (arg_positions B call) G = Some G1" and e: "G' = G1 \<or> (\<exists>q. G' = fst (add_edge q (phantom_obj G1) G1))"
      by (auto simp: analyzed_call_def split: option.split_asm if_split_asm)
    have "arg_state B call k G1 p"
      using assms(5) by (intro java_args_state [OF assms(1,2) g _ _ _ p]) (simp_all add: oop_arg_def arg_positions_def)
    with e show ?thesis by (auto simp: arg_state_def cg_frame)
  qed
  with f opaque_call_escapes [OF assms(1,2) _ assms(5,6)] show ?thesis using finalsD [OF f] build_invD(1) by blast
qed

theorem process_call_arguments_escapes_witness:
  "\<exists>G'. process_call_arguments sample_ideal 8 (add_local_var 5 NoEscape sample_graph) = Some G' \<and> escape G' 2 = GlobalEscape"
proof -
  let ?G = "add_local_var 5 NoEscape sample_graph"
  have inv: "build_inv sample_ideal ?G"
    by (intro buildsD(1) [OF builds_local_var] new_graph_inv [OF sample_constants]) (simp_all add: node_kinds_def local_var_opcode_def)
  have reg: "registered_object sample_ideal ?G 5 = Some 2" "null_obj ?G = 1"
    by (simp_all add: registered_object_def object_of_def is_AddP_def ptnode_adr_def add_local_var_def new_graph_simps)
  have "process_call_arguments sample_ideal 8 ?G = Some (set_escape_state 2 GlobalEscape ?G)"
    using reg by (simp add: process_call_arguments_def arg_positions_def sample_queries Let_def)
  with process_call_arguments_escapes [OF inv sample_ideal_ok sample_copies_ok _ sample_oop_arg(3) this] sample_oop_arg(2) reg show ?thesis
    by (auto simp: opaque_call_def)
qed

end
