(* ===== verification/Oop_Map.thy ===== *)
theory Oop_Map
  imports Prelude
begin

text \<open>
  \<open>OopMapValue\<close>, \<open>OopMap\<close> and \<open>OopMapStream\<close> (\<open>compiler/oopMap.hpp\<close>, \<open>oopMap.cpp\<close>): the entries
  that tell the collector where the oops of a frame are, packed into 16 bits each and
  written to a compressed byte stream. The registers (\<open>code/vmreg.hpp\<close>) and the stream
  (\<open>code/compressedStream.hpp\<close>) are arguments.
\<close>

section \<open>Registers and streams\<close>

text \<open>A \<open>VMReg\<close> is its \<open>value()\<close>.\<close>

type_synonym VMReg = int

record vmreg_impl =
  is_reg :: "VMReg \<Rightarrow> bool"
  is_stack :: "VMReg \<Rightarrow> bool"
  is_valid :: "VMReg \<Rightarrow> bool"
  reg2stack :: "VMReg \<Rightarrow> int"
  Bad :: VMReg
  stack0 :: nat

record stream_impl =
  write_int :: "int \<Rightarrow> u1 list"
  read_int :: "u1 list \<Rightarrow> (int \<times> u1 list) option"

text \<open>What a reader of the stream relies on: an int is read as it was written.\<close>

definition stream_ok :: "stream_impl \<Rightarrow> bool" where
  "stream_ok S \<longleftrightarrow> (\<forall>v rest. - (2 ^ 31) \<le> v \<and> v < 2 ^ 31 \<longrightarrow> read_int S (write_int S v @ rest) = Some (v, rest))"

text \<open>Little-endian ints in four bytes.\<close>

definition i32_bytes :: "int \<Rightarrow> u1 list" where
  "i32_bytes v = [word_of_int v, word_of_int (drop_bit 8 v), word_of_int (drop_bit 16 v), word_of_int (drop_bit 24 v)]"

fun bytes_i32 :: "u1 list \<Rightarrow> int" where
  "bytes_i32 (a # b # c # d # _) = signed_take_bit 31 (uint a OR push_bit 8 (uint b) OR push_bit 16 (uint c) OR push_bit 24 (uint d))"
| "bytes_i32 _ = 0"

lemma i32_roundtrip: "bytes_i32 (i32_bytes v @ rest) = signed_take_bit 31 v"
proof -
  have "uint (word_of_int (drop_bit k v) :: u1) = take_bit 8 (drop_bit k v)" for k by (simp add: unsigned_of_int)
  note u = this [of 0, simplified] this
  have t: "take_bit 32 v = take_bit 8 v OR push_bit 8 (take_bit 8 (drop_bit 8 v)) OR push_bit 16 (take_bit 8 (drop_bit 16 v)) OR
      push_bit 24 (take_bit 8 (drop_bit 24 v))" (is "_ = ?r")
  proof (rule bit_eqI)
    fix n show "bit (take_bit 32 v) n = bit ?r n"
      by (cases "n < 8"; cases "n < 16"; cases "n < 24") (auto simp: bit_simps)
  qed
  have "bytes_i32 (i32_bytes v @ rest) = signed_take_bit 31 (take_bit 32 v)"
    unfolding i32_bytes_def by (simp only: append_Cons bytes_i32.simps u t)
  also have "\<dots> = signed_take_bit 31 v" by (simp add: signed_take_bit_take_bit)
  finally show ?thesis .
qed

lemma i32_bytes_length [simp]: "length (i32_bytes v) = 4" by (simp add: i32_bytes_def)

section \<open>One entry\<close>

datatype oop_types = oop_value | narrowoop_value | callee_saved_value | derived_oop_value | unused_value

primrec oop_types_value :: "oop_types \<Rightarrow> int" where
  "oop_types_value oop_value = 0"
| "oop_types_value narrowoop_value = 1"
| "oop_types_value callee_saved_value = 2"
| "oop_types_value derived_oop_value = 3"
| "oop_types_value unused_value = -1"

record OopMapValue =
  omv_value :: "16 word"
  omv_content_reg :: "16 word"

definition type_bits :: nat where "type_bits = 2"
definition register_bits :: nat where "register_bits = 16 - type_bits"
definition register_shift :: nat where "register_shift = type_bits"
definition right_n_bits :: "nat \<Rightarrow> int" where "right_n_bits n = push_bit n 1 - 1"
definition type_mask_in_place :: int where "type_mask_in_place = right_n_bits type_bits"
definition register_mask :: int where "register_mask = right_n_bits register_bits"
definition register_mask_in_place :: int where "register_mask_in_place = push_bit register_shift register_mask"
definition mask_bits :: "int \<Rightarrow> int \<Rightarrow> int" where "mask_bits x m = x AND m"

definition get_value :: "OopMapValue \<Rightarrow> int" where "get_value o1 = sint (omv_value o1)"

definition set_value :: "int \<Rightarrow> OopMapValue \<Rightarrow> OopMapValue" where
  "set_value v o1 = o1\<lparr>omv_value := word_of_int v\<rparr>"

definition type_is :: "oop_types \<Rightarrow> OopMapValue \<Rightarrow> bool" where
  "type_is t o1 \<longleftrightarrow> mask_bits (get_value o1) type_mask_in_place = oop_types_value t"

abbreviation is_oop :: "OopMapValue \<Rightarrow> bool" where "is_oop \<equiv> type_is oop_value"
abbreviation is_narrowoop :: "OopMapValue \<Rightarrow> bool" where "is_narrowoop \<equiv> type_is narrowoop_value"
abbreviation is_callee_saved :: "OopMapValue \<Rightarrow> bool" where "is_callee_saved \<equiv> type_is callee_saved_value"
abbreviation is_derived_oop :: "OopMapValue \<Rightarrow> bool" where "is_derived_oop \<equiv> type_is derived_oop_value"

definition reg :: "OopMapValue \<Rightarrow> VMReg" where
  "reg o1 = drop_bit register_shift (mask_bits (get_value o1) register_mask_in_place)"

definition type :: "OopMapValue \<Rightarrow> oop_types" where
  "type o1 = (let v = mask_bits (get_value o1) type_mask_in_place in
     if v = 0 then oop_value else if v = 1 then narrowoop_value
     else if v = 2 then callee_saved_value else derived_oop_value)"

definition content_reg :: "OopMapValue \<Rightarrow> VMReg" where "content_reg o1 = sint (omv_content_reg o1)"

definition legal_vm_reg_name :: "VMReg \<Rightarrow> bool" where
  "legal_vm_reg_name p \<longleftrightarrow> p = p AND register_mask"

text \<open>The asserts of the setters are the failing branches.\<close>

definition set_reg_type :: "VMReg \<Rightarrow> oop_types \<Rightarrow> OopMapValue \<Rightarrow> OopMapValue option" where
  "set_reg_type p t o1 =
     (let o2 = set_value (push_bit register_shift p OR oop_types_value t) o1
      in if reg o2 = p \<and> type o2 = t then Some o2 else None)"

definition set_content_reg :: "vmreg_impl \<Rightarrow> VMReg \<Rightarrow> OopMapValue \<Rightarrow> OopMapValue option" where
  "set_content_reg V r o1 =
     (if (if is_callee_saved o1 then is_reg V r else if is_derived_oop o1 then is_valid V r else \<not> is_valid V r)
      then Some (o1\<lparr>omv_content_reg := word_of_int r\<rparr>) else None)"

definition new_OopMapValue :: "vmreg_impl \<Rightarrow> VMReg \<Rightarrow> oop_types \<Rightarrow> VMReg \<Rightarrow> OopMapValue option" where
  "new_OopMapValue V r t r2 =
     (case set_reg_type r t \<lparr>omv_value = 0, omv_content_reg = 0\<rparr> of
        None \<Rightarrow> None
      | Some o1 \<Rightarrow> set_content_reg V r2 o1)"

definition empty_OopMapValue :: "vmreg_impl \<Rightarrow> OopMapValue option" where
  "empty_OopMapValue V = set_content_reg V (Bad V) (set_value 0 \<lparr>omv_value = 0, omv_content_reg = 0\<rparr>)"

definition write_on :: "stream_impl \<Rightarrow> OopMapValue \<Rightarrow> u1 list" where
  "write_on S o1 = write_int S (get_value o1) @
     (if is_callee_saved o1 \<or> is_derived_oop o1 then write_int S (content_reg o1) else [])"

text \<open>\<open>read_from\<close> overwrites an entry: the content register of the entry read before stays if the new one has none.\<close>

definition read_from :: "vmreg_impl \<Rightarrow> stream_impl \<Rightarrow> OopMapValue \<Rightarrow> u1 list \<Rightarrow> (OopMapValue \<times> u1 list) option" where
  "read_from V S prev bs =
     (case read_int S bs of
        None \<Rightarrow> None
      | Some (v, bs1) \<Rightarrow>
          let o1 = set_value v prev
          in if is_callee_saved o1 \<or> is_derived_oop o1 then
               (case read_int S bs1 of
                  None \<Rightarrow> None
                | Some (r, bs2) \<Rightarrow>
                    (case set_content_reg V r o1 of None \<Rightarrow> None | Some o2 \<Rightarrow> Some (o2, bs2)))
             else Some (o1, bs1))"

section \<open>Maps and their streams\<close>

text \<open>\<open>om_locs_used\<close> is the debug array of the entries a location has.\<close>

record OopMap =
  om_pc_offset :: int
  om_omv_count :: nat
  om_write_stream :: "u1 list"
  om_locs_used :: "oop_types list"

text \<open>The constructor leaves \<open>_pc_offset\<close> as the memory was.\<close>

definition new_OopMap :: "vmreg_impl \<Rightarrow> int \<Rightarrow> nat \<Rightarrow> nat \<Rightarrow> OopMap" where
  "new_OopMap V pc frame_size arg_count =
     \<lparr>om_pc_offset = pc, om_omv_count = 0, om_write_stream = [],
      om_locs_used = replicate (stack0 V + frame_size + arg_count) unused_value\<rparr>"

definition set_xxx :: "vmreg_impl \<Rightarrow> stream_impl \<Rightarrow> VMReg \<Rightarrow> oop_types \<Rightarrow> VMReg \<Rightarrow> OopMap \<Rightarrow> OopMap option" where
  "set_xxx V S r x optional m =
     (if 0 \<le> r \<and> r < int (length (om_locs_used m)) \<and> om_locs_used m ! nat r = unused_value then
        (case new_OopMapValue V r x optional of
           None \<Rightarrow> None
         | Some o1 \<Rightarrow>
             Some (m\<lparr>om_locs_used := (om_locs_used m)[nat r := x],
                     om_write_stream := om_write_stream m @ write_on S o1,
                     om_omv_count := Suc (om_omv_count m)\<rparr>))
      else None)"

definition set_oop :: "vmreg_impl \<Rightarrow> stream_impl \<Rightarrow> VMReg \<Rightarrow> OopMap \<Rightarrow> OopMap option" where
  "set_oop V S r m = set_xxx V S r oop_value (Bad V) m"

definition set_narrowoop :: "vmreg_impl \<Rightarrow> stream_impl \<Rightarrow> VMReg \<Rightarrow> OopMap \<Rightarrow> OopMap option" where
  "set_narrowoop V S r m = set_xxx V S r narrowoop_value (Bad V) m"

definition set_callee_saved :: "vmreg_impl \<Rightarrow> stream_impl \<Rightarrow> VMReg \<Rightarrow> VMReg \<Rightarrow> OopMap \<Rightarrow> OopMap option" where
  "set_callee_saved V S r caller m = set_xxx V S r callee_saved_value caller m"

definition set_derived_oop :: "vmreg_impl \<Rightarrow> stream_impl \<Rightarrow> VMReg \<Rightarrow> VMReg \<Rightarrow> OopMap \<Rightarrow> OopMap option" where
  "set_derived_oop V S r base m =
     (if r = base then set_oop V S r m else set_xxx V S r derived_oop_value base m)"

record OopMapStream =
  oms_stream :: "u1 list"
  oms_size :: nat
  oms_position :: nat
  oms_valid_omv :: bool
  oms_omv :: OopMapValue

definition new_OopMapStream :: "vmreg_impl \<Rightarrow> u1 list \<Rightarrow> nat \<Rightarrow> OopMapStream option" where
  "new_OopMapStream V data n =
     (case empty_OopMapValue V of
        None \<Rightarrow> None
      | Some o1 \<Rightarrow> Some \<lparr>oms_stream = data, oms_size = n, oms_position = 0, oms_valid_omv = False, oms_omv = o1\<rparr>)"

definition find_next :: "vmreg_impl \<Rightarrow> stream_impl \<Rightarrow> OopMapStream \<Rightarrow> OopMapStream option" where
  "find_next V S s =
     (let s1 = s\<lparr>oms_position := Suc (oms_position s)\<rparr>
      in if oms_position s < oms_size s then
           (case read_from V S (oms_omv s) (oms_stream s) of
              None \<Rightarrow> None
            | Some (o1, bs) \<Rightarrow> Some (s1\<lparr>oms_omv := o1, oms_stream := bs, oms_valid_omv := True\<rparr>))
         else Some (s1\<lparr>oms_valid_omv := False\<rparr>))"

definition is_done :: "vmreg_impl \<Rightarrow> stream_impl \<Rightarrow> OopMapStream \<Rightarrow> (bool \<times> OopMapStream) option" where
  "is_done V S s =
     (case (if oms_valid_omv s then Some s else find_next V S s) of
        None \<Rightarrow> None
      | Some s1 \<Rightarrow> Some (\<not> oms_valid_omv s1, s1))"

text \<open>
  The loops \<open>for (OopMapStream oms(map); !oms.is_done(); oms.next())\<close>: the entries
  \<open>oms.current()\<close> in the order the body sees them, and the stream at the end.
\<close>

partial_function (option) oms_loop ::
  "vmreg_impl \<Rightarrow> stream_impl \<Rightarrow> OopMapStream \<Rightarrow> (OopMapValue list \<times> OopMapStream) option" where
  "oms_loop V S s =
     (case is_done V S s of
        None \<Rightarrow> None
      | Some (d, s1) \<Rightarrow>
          if d then Some ([], s1)
          else (case find_next V S s1 of
                  None \<Rightarrow> None
                | Some s2 \<Rightarrow>
                    Option.bind (oms_loop V S s2) (\<lambda>(os, s3). Some (oms_omv s1 # os, s3))))"

definition oms_entries :: "vmreg_impl \<Rightarrow> stream_impl \<Rightarrow> u1 list \<Rightarrow> nat \<Rightarrow> (OopMapValue list \<times> OopMapStream) option" where
  "oms_entries V S data n =
     (case new_OopMapStream V data n of None \<Rightarrow> None | Some s \<Rightarrow> oms_loop V S s)"

definition deep_copy :: "vmreg_impl \<Rightarrow> stream_impl \<Rightarrow> OopMap \<Rightarrow> OopMap option" where
  "deep_copy V S m =
     (case oms_entries V S (om_write_stream m) (om_omv_count m) of
        None \<Rightarrow> None
      | Some (os, _) \<Rightarrow>
          Some (fold (\<lambda>o1 m. m\<lparr>om_write_stream := om_write_stream m @ write_on S o1, om_omv_count := Suc (om_omv_count m)\<rparr>) os
            \<lparr>om_pc_offset = om_pc_offset m, om_omv_count = 0, om_write_stream = [],
             om_locs_used = replicate (length (om_locs_used m)) unused_value\<rparr>))"

definition equals :: "OopMap \<Rightarrow> OopMap \<Rightarrow> bool" where
  "equals m other =
     (if om_omv_count other \<noteq> om_omv_count m then False
      else if length (om_write_stream other) \<noteq> length (om_write_stream m) then False
      else om_write_stream other = om_write_stream m)"

text \<open>\<open>heap_size\<close> rounds up to a multiple of the pointer size; \<open>sizeof(OopMap)\<close> is an argument.\<close>

definition om_heap_size :: "int \<Rightarrow> int \<Rightarrow> OopMap \<Rightarrow> int" where
  "om_heap_size sizeof_OopMap sizeof_ptr m =
     (let align = sizeof_ptr - 1;
          size = sizeof_OopMap + int (length (om_write_stream m))
      in (size + align) AND NOT align)"


section \<open>Packing\<close>

lemmas omv_consts = type_bits_def register_bits_def register_shift_def right_n_bits_def type_mask_in_place_def
  register_mask_def register_mask_in_place_def mask_bits_def

lemma masks: "type_mask_in_place = mask 2" "register_mask = mask 14" "register_mask_in_place = push_bit 2 (mask 14)"
  by (simp_all add: omv_consts mask_eq_exp_minus_1)

lemma legal_vm_reg_name_iff: "legal_vm_reg_name p \<longleftrightarrow> 0 \<le> p \<and> p < 2 ^ 14"
  unfolding legal_vm_reg_name_def masks take_bit_eq_mask [symmetric]
  by (metis take_bit_int_eq_self take_bit_nonnegative take_bit_int_less_exp)

text \<open>The fields of a value are bit ranges of the 16 bits, whatever the sign of the int they are read from.\<close>

lemma reg_bits: "reg o1 = take_bit 14 (drop_bit 2 (uint (omv_value o1)))"
  unfolding reg_def get_value_def mask_bits_def masks register_shift_def type_bits_def
  by (rule bit_eqI) (auto simp: bit_simps)

lemma type_bits_uint: "mask_bits (get_value o1) type_mask_in_place = take_bit 2 (uint (omv_value o1))"
  unfolding get_value_def mask_bits_def masks
  by (rule bit_eqI) (auto simp: bit_simps)

lemma packed_fields:
  assumes c: "take_bit 2 c = c"
  shows "reg (set_value (push_bit register_shift p OR c) o1) = take_bit 14 p"
    "mask_bits (get_value (set_value (push_bit register_shift p OR c) o1)) type_mask_in_place = c"
proof -
  have b: "bit c n \<Longrightarrow> n < 2" for n using c by (metis bit_take_bit_iff)
  have v: "uint (omv_value (set_value (push_bit register_shift p OR c) o1)) = take_bit 16 (push_bit 2 p OR c)"
    by (simp add: set_value_def omv_consts unsigned_of_int)
  show "reg (set_value (push_bit register_shift p OR c) o1) = take_bit 14 p"
    unfolding reg_bits v by (rule bit_eqI) (auto simp: bit_simps dest: b)
  show "mask_bits (get_value (set_value (push_bit register_shift p OR c) o1)) type_mask_in_place = c"
    unfolding type_bits_uint v by (subst c [symmetric], rule bit_eqI) (auto simp: bit_simps dest: b)
qed

lemma type_is_type: "type o1 = t \<longleftrightarrow> type_is t o1"
proof -
  obtain v where v: "v = take_bit 2 (uint (omv_value o1))" "0 \<le> v" "v < 4"
    using take_bit_int_less_exp [of 2 "uint (omv_value o1)"] by simp
  then have "v = 0 \<or> v = 1 \<or> v = 2 \<or> v = 3" by arith
  then show ?thesis by (cases t) (auto simp: type_def type_is_def type_bits_uint v(1) [symmetric] Let_def)
qed

lemma set_reg_type_eq:
  "set_reg_type p t o1 =
     (if legal_vm_reg_name p \<and> t \<noteq> unused_value then Some (set_value (push_bit register_shift p OR oop_types_value t) o1) else None)"
proof (cases "t = unused_value")
  case True
  then show ?thesis by (simp add: set_reg_type_def type_def Let_def)
next
  case False
  then have c: "take_bit 2 (oop_types_value t) = oop_types_value t" by (cases t) (simp_all add: take_bit_eq_mod)
  have "take_bit 14 p = p \<longleftrightarrow> legal_vm_reg_name p" by (auto simp: legal_vm_reg_name_def masks take_bit_eq_mask)
  with False show ?thesis
    by (simp add: set_reg_type_def packed_fields [OF c] type_is_type) (simp add: type_is_def packed_fields [OF c])
qed

definition content_ok :: "vmreg_impl \<Rightarrow> oop_types \<Rightarrow> VMReg \<Rightarrow> bool" where
  "content_ok V t r \<longleftrightarrow> (if t = callee_saved_value then is_reg V r
     else if t = derived_oop_value then is_valid V r else \<not> is_valid V r)"

lemma set_content_reg_eq:
  "set_content_reg V r o1 = (if content_ok V (type o1) r then Some (o1\<lparr>omv_content_reg := word_of_int r\<rparr>) else None)"
  by (simp add: set_content_reg_def content_ok_def type_is_type)

lemma omv_content_upd [simp]:
  "get_value (o1\<lparr>omv_content_reg := r\<rparr>) = get_value o1" "reg (o1\<lparr>omv_content_reg := r\<rparr>) = reg o1"
  "type (o1\<lparr>omv_content_reg := r\<rparr>) = type o1" "type_is t (o1\<lparr>omv_content_reg := r\<rparr>) = type_is t o1"
  "content_reg (o1\<lparr>omv_content_reg := word_of_int v\<rparr>) = signed_take_bit 15 v"
  by (simp_all add: get_value_def reg_def type_def type_is_def content_reg_def signed_of_int)

lemma new_OopMapValue_result:
  assumes "new_OopMapValue V r t r2 = Some o1"
  shows "legal_vm_reg_name r" "t \<noteq> unused_value" "content_ok V t r2" "reg o1 = r" "type o1 = t"
    "content_reg o1 = signed_take_bit 15 r2"
proof -
  from assms obtain o2 where o2: "set_reg_type r t \<lparr>omv_value = 0, omv_content_reg = 0\<rparr> = Some o2" "set_content_reg V r2 o2 = Some o1"
    by (auto simp: new_OopMapValue_def split: option.splits)
  from o2(1) show "legal_vm_reg_name r" "t \<noteq> unused_value" by (simp_all add: set_reg_type_eq split: if_splits)
  from o2(1) have rt: "reg o2 = r" "type o2 = t" by (auto simp: set_reg_type_def Let_def split: if_splits)
  with o2(2) show "content_ok V t r2" "reg o1 = r" "type o1 = t" "content_reg o1 = signed_take_bit 15 r2"
    by (auto simp: set_content_reg_eq split: if_splits)
qed

lemma new_OopMapValue_some:
  assumes "legal_vm_reg_name r" "t \<noteq> unused_value" "content_ok V t r2"
  shows "\<exists>o1. new_OopMapValue V r t r2 = Some o1"
proof -
  obtain o2 where o2: "set_reg_type r t \<lparr>omv_value = 0, omv_content_reg = 0\<rparr> = Some o2" using assms by (simp add: set_reg_type_eq)
  then have "type o2 = t" by (auto simp: set_reg_type_def Let_def split: if_splits)
  with o2 assms(3) show ?thesis by (simp add: new_OopMapValue_def set_content_reg_eq)
qed

section \<open>Decoding what was encoded\<close>

text \<open>
  An encoder and a decoder for entries. The decoder starts from the entry read before and
  may keep parts of it that the encoding does not hold: \<open>same\<close> is equality of the rest.
\<close>

primrec decode_n :: "('a \<Rightarrow> 'b list \<Rightarrow> ('a \<times> 'b list) option) \<Rightarrow> nat \<Rightarrow> 'a \<Rightarrow> 'b list \<Rightarrow> ('a list \<times> 'b list) option" where
  "decode_n dec 0 prev bs = Some ([], bs)"
| "decode_n dec (Suc n) prev bs =
     (case dec prev bs of
        None \<Rightarrow> None
      | Some (x, bs1) \<Rightarrow> (case decode_n dec n x bs1 of None \<Rightarrow> None | Some (xs, bs2) \<Rightarrow> Some (x # xs, bs2)))"

locale entry_codec =
  fixes ok :: "'a \<Rightarrow> bool" and enc :: "'a \<Rightarrow> 'b list" and dec :: "'a \<Rightarrow> 'b list \<Rightarrow> ('a \<times> 'b list) option"
    and same :: "'a \<Rightarrow> 'a \<Rightarrow> bool"
  assumes dec_enc: "ok x \<Longrightarrow> \<exists>y. dec prev (enc x @ rest) = Some (y, rest) \<and> same y x"
    and same_enc: "same y x \<Longrightarrow> enc y = enc x"
    and same_sym: "same y x \<Longrightarrow> same x y"
    and same_trans: "same z y \<Longrightarrow> same y x \<Longrightarrow> same z x"
begin

lemma decode_list:
  "\<forall>x \<in> set xs. ok x \<Longrightarrow>
     \<exists>ys. decode_n dec (length xs) prev (concat (map enc xs) @ rest) = Some (ys, rest) \<and> list_all2 same ys xs"
proof (induction xs arbitrary: prev)
  case (Cons x xs)
  from Cons.prems dec_enc [of x prev "concat (map enc xs) @ rest"] obtain y where
    y: "dec prev (enc x @ concat (map enc xs) @ rest) = Some (y, rest') \<and> same y x" if "rest' = concat (map enc xs) @ rest" for rest' by auto
  from Cons.IH [of y] Cons.prems obtain ys where
    "decode_n dec (length xs) y (concat (map enc xs) @ rest) = Some (ys, rest) \<and> list_all2 same ys xs" by auto
  with y show ?case by simp
qed simp

lemma encode_same: "list_all2 same ys xs \<Longrightarrow> map enc ys = map enc xs"
  by (induction rule: list_all2_induct) (simp_all add: same_enc)

lemma encode_inj:
  assumes "\<forall>x \<in> set xs. ok x" "\<forall>y \<in> set ys. ok y" and "length xs = length ys"
    and "concat (map enc xs) = concat (map enc ys)"
  shows "list_all2 same xs ys"
proof -
  obtain zs where z: "decode_n dec (length xs) undefined (concat (map enc xs) @ []) = Some (zs, [])" "list_all2 same zs xs"
    using decode_list [OF assms(1)] by blast
  obtain zs' where "decode_n dec (length ys) undefined (concat (map enc ys) @ []) = Some (zs', [])" "list_all2 same zs' ys"
    using decode_list [OF assms(2)] by blast
  with z assms(3,4) have "list_all2 same zs ys" by simp
  moreover from z(2) have "list_all2 same xs zs" by (simp add: list_all2_conv_all_nth same_sym)
  ultimately show ?thesis using same_trans by (blast intro: list_all2_trans)
qed

end

definition has_content :: "OopMapValue \<Rightarrow> bool" where
  "has_content o1 \<longleftrightarrow> is_callee_saved o1 \<or> is_derived_oop o1"

definition omv_same :: "OopMapValue \<Rightarrow> OopMapValue \<Rightarrow> bool" where
  "omv_same a b \<longleftrightarrow> omv_value a = omv_value b \<and> (has_content b \<longrightarrow> omv_content_reg a = omv_content_reg b)"

definition omv_ok :: "vmreg_impl \<Rightarrow> stream_impl \<Rightarrow> OopMapValue \<Rightarrow> bool" where
  "omv_ok V S o1 \<longleftrightarrow> stream_ok S \<and> (has_content o1 \<longrightarrow> content_ok V (type o1) (content_reg o1))"

lemma short_range: "- (2 ^ 31) \<le> sint (w :: 16 word)" "sint (w :: 16 word) < 2 ^ 31"
  using sint_greater_eq [of w] sint_less [of w] by simp_all

lemma set_value_get_value [simp]: "omv_value (set_value (get_value o1) o2) = omv_value o1"
  by (simp add: set_value_def get_value_def)

lemma type_is_cong: "omv_value a = omv_value b \<Longrightarrow> type_is t a = type_is t b"
  "omv_value a = omv_value b \<Longrightarrow> type a = type b" "omv_value a = omv_value b \<Longrightarrow> reg a = reg b"
  "omv_value a = omv_value b \<Longrightarrow> has_content a = has_content b"
  by (simp_all add: type_is_def type_def reg_def get_value_def has_content_def)

lemma read_from_write_on:
  assumes "omv_ok V S o1"
  shows "\<exists>o2. read_from V S prev (write_on S o1 @ rest) = Some (o2, rest) \<and> omv_same o2 o1"
proof -
  have ri: "read_int S (write_int S (sint (w :: 16 word)) @ bs) = Some (sint w, bs)" for w bs
    using assms short_range [of w] by (simp add: omv_ok_def stream_ok_def)
  let ?o = "set_value (get_value o1) prev"
  have c: "type_is t ?o = type_is t o1" "type ?o = type o1" "has_content ?o = has_content o1" for t by (rule type_is_cong; simp)+
  have v: "read_int S (write_on S o1 @ rest) = Some (get_value o1, (if has_content o1 then write_int S (content_reg o1) else []) @ rest)"
    by (simp add: write_on_def has_content_def get_value_def ri)
  show ?thesis
  proof (cases "has_content o1")
    case True
    then have "content_ok V (type ?o) (content_reg o1)" using assms by (simp add: omv_ok_def c)
    then have "set_content_reg V (content_reg o1) ?o = Some (?o\<lparr>omv_content_reg := omv_content_reg o1\<rparr>)"
      by (simp add: set_content_reg_eq content_reg_def)
    moreover have "is_callee_saved ?o \<or> is_derived_oop ?o" using True c by (simp add: has_content_def)
    moreover have "read_int S (write_int S (content_reg o1) @ rest) = Some (content_reg o1, rest)" by (simp add: content_reg_def ri)
    ultimately show ?thesis
      using True by (auto simp: read_from_def v omv_same_def)
  next
    case False
    then have "\<not> (is_callee_saved ?o \<or> is_derived_oop ?o)" using c by (simp add: has_content_def)
    then show ?thesis using False by (simp add: read_from_def v omv_same_def Let_def)
  qed
qed

lemma write_on_same: "omv_same a b \<Longrightarrow> write_on S a = write_on S b"
  using type_is_cong [of a b] by (auto simp: omv_same_def write_on_def get_value_def content_reg_def has_content_def)

interpretation omv: entry_codec "omv_ok V S" "write_on S" "read_from V S" omv_same for V S
proof
  show "omv_ok V S x \<Longrightarrow> \<exists>y. read_from V S prev (write_on S x @ rest) = Some (y, rest) \<and> omv_same y x" for x prev rest
    by (rule read_from_write_on)
  show "omv_same y x \<Longrightarrow> write_on S y = write_on S x" for y x by (rule write_on_same)
  show "omv_same y x \<Longrightarrow> omv_same x y" for y x using type_is_cong(4) [of x y] by (auto simp: omv_same_def)
  show "omv_same z y \<Longrightarrow> omv_same y x \<Longrightarrow> omv_same z x" for z y x using type_is_cong(4) [of y x] by (auto simp: omv_same_def)
qed

section \<open>Streams\<close>

text \<open>The loop over a stream sees the entries that decoding the bytes gives, and ends.\<close>

lemma oms_loop_valid:
  assumes "decode_n (read_from V S) n (oms_omv s) (oms_stream s) = Some (os, bs)" and "oms_valid_omv s"
    and "oms_position s + n = oms_size s \<or> n = 0 \<and> oms_position s \<ge> oms_size s"
  shows "\<exists>s'. oms_loop V S s = Some (oms_omv s # os, s') \<and> oms_stream s' = bs"
  using assms
proof (induction n arbitrary: s os)
  case 0
  let ?s = "s\<lparr>oms_position := Suc (oms_position s), oms_valid_omv := False\<rparr>"
  have "\<not> oms_position s < oms_size s" using 0 by auto
  then have "find_next V S s = Some ?s" by (simp add: find_next_def Let_def)
  moreover have "find_next V S ?s = Some (?s\<lparr>oms_position := Suc (Suc (oms_position s))\<rparr>)"
    using \<open>\<not> _\<close> by (simp add: find_next_def Let_def)
  then have "oms_loop V S ?s = Some ([], ?s\<lparr>oms_position := Suc (Suc (oms_position s))\<rparr>)"
    by (subst oms_loop.simps) (simp add: is_done_def)
  ultimately show ?case using 0 by (subst oms_loop.simps) (simp add: is_done_def)
next
  case (Suc n)
  from Suc.prems(1) obtain y bs1 ys where
    d: "read_from V S (oms_omv s) (oms_stream s) = Some (y, bs1)" "decode_n (read_from V S) n y bs1 = Some (ys, bs)" "os = y # ys"
    by (auto split: option.splits)
  let ?s = "s\<lparr>oms_position := Suc (oms_position s), oms_omv := y, oms_stream := bs1, oms_valid_omv := True\<rparr>"
  have "find_next V S s = Some ?s" using Suc.prems(3) by (simp add: find_next_def d(1) Let_def)
  moreover have "\<exists>s'. oms_loop V S ?s = Some (y # ys, s') \<and> oms_stream s' = bs"
    using Suc.IH [of ?s ys] d(2) Suc.prems(3) by simp
  ultimately show ?case using Suc.prems(2) d(3) by (subst oms_loop.simps) (auto simp: is_done_def)
qed

lemma oms_loop_decode:
  assumes d: "decode_n (read_from V S) (oms_size s) (oms_omv s) (oms_stream s) = Some (os, bs)"
    and "\<not> oms_valid_omv s" and "oms_position s = 0"
  shows "\<exists>s'. oms_loop V S s = Some (os, s') \<and> oms_stream s' = bs"
proof (cases "oms_size s")
  case 0
  with assms show ?thesis by (subst oms_loop.simps) (simp add: is_done_def find_next_def Let_def)
next
  case (Suc n)
  with d obtain y bs1 ys where
    y: "read_from V S (oms_omv s) (oms_stream s) = Some (y, bs1)" "decode_n (read_from V S) n y bs1 = Some (ys, bs)" "os = y # ys"
    by (auto split: option.splits)
  let ?s = "s\<lparr>oms_position := Suc 0, oms_omv := y, oms_stream := bs1, oms_valid_omv := True\<rparr>"
  have f: "find_next V S s = Some ?s" using assms Suc by (simp add: find_next_def y(1) Let_def)
  then have "oms_loop V S s = oms_loop V S ?s"
    using assms(2) by (subst (1 2) oms_loop.simps) (simp add: is_done_def)
  with oms_loop_valid [of V S n ?s ys bs] y Suc show ?thesis by simp
qed

text \<open>What an entry says: the location, its kind and the register it refers to, if any.\<close>

type_synonym entry = "VMReg \<times> oop_types \<times> VMReg option"

definition entry_of :: "OopMapValue \<Rightarrow> entry" where
  "entry_of o1 = (reg o1, type o1, if has_content o1 then Some (content_reg o1) else None)"

lemma value_fields: "uint (omv_value o1) = push_bit 2 (reg o1) OR mask_bits (get_value o1) type_mask_in_place"
  unfolding reg_bits type_bits_uint
proof (rule bit_eqI)
  fix n
  show "bit (uint (omv_value o1)) n =
     bit (push_bit 2 (take_bit 14 (drop_bit 2 (uint (omv_value o1)))) OR take_bit 2 (uint (omv_value o1))) n"
  proof (cases "n < 2")
    case False
    then have "Suc (Suc (n - 2)) = n" by simp
    moreover have "bit (omv_value o1) n \<Longrightarrow> n < 16" using bit_imp_le_length [of "omv_value o1" n] by simp
    ultimately show ?thesis using False by (auto simp: bit_simps)
  qed (auto simp: bit_simps)
qed

lemma omv_same_entry: "omv_same a b \<longleftrightarrow> entry_of a = entry_of b"
proof
  assume "omv_same a b"
  then show "entry_of a = entry_of b"
    using type_is_cong [of a b] by (auto simp: omv_same_def entry_of_def content_reg_def)
next
  assume e: "entry_of a = entry_of b"
  then have rt: "reg a = reg b" "type a = type b" by (simp_all add: entry_of_def)
  have t: "mask_bits (get_value o1) type_mask_in_place = oop_types_value (type o1)" for o1
    using type_is_type [of o1 "type o1"] by (simp add: type_is_def)
  have "uint (omv_value a) = uint (omv_value b)" unfolding value_fields t rt ..
  then have v: "omv_value a = omv_value b" by (rule word_uint_eqI)
  moreover from v have h: "has_content a = has_content b" by (rule type_is_cong)
  moreover from e h have "has_content b \<Longrightarrow> sint (omv_content_reg a) = sint (omv_content_reg b)"
    by (simp add: entry_of_def content_reg_def)
  then have "has_content b \<Longrightarrow> omv_content_reg a = omv_content_reg b" by (blast intro: word_eq_iff_signed [THEN iffD2])
  ultimately show "omv_same a b" by (simp add: omv_same_def)
qed

section \<open>Maps\<close>

text \<open>A map stands for its list of entries; \<open>om_rep\<close> is the abstraction relation.\<close>

definition om_rep :: "vmreg_impl \<Rightarrow> stream_impl \<Rightarrow> OopMap \<Rightarrow> entry list \<Rightarrow> bool" where
  "om_rep V S m es \<longleftrightarrow> stream_ok S \<and> \<not> is_valid V (Bad V) \<and> (\<exists>os. om_write_stream m = concat (map (write_on S) os) \<and>
     om_omv_count m = length os \<and> (\<forall>o1 \<in> set os. omv_ok V S o1) \<and> map entry_of os = es)"

lemma empty_OopMapValue_some: "\<not> is_valid V (Bad V) \<Longrightarrow> \<exists>o1. empty_OopMapValue V = Some o1"
proof -
  have "type (set_value 0 \<lparr>omv_value = 0, omv_content_reg = 0\<rparr>) = oop_value"
    by (simp add: type_def get_value_def set_value_def mask_bits_def)
  then show "\<not> is_valid V (Bad V) \<Longrightarrow> \<exists>o1. empty_OopMapValue V = Some o1"
    by (simp add: empty_OopMapValue_def set_content_reg_eq content_ok_def)
qed

lemma list_same_entries: "list_all2 omv_same xs ys \<longleftrightarrow> map entry_of xs = map entry_of ys"
  by (simp add: omv_same_entry list_eq_iff_nth_eq list_all2_conv_all_nth cong: conj_cong)

lemma om_rep_entries:
  assumes "om_rep V S m es"
  shows "\<exists>os s. oms_entries V S (om_write_stream m @ rest) (om_omv_count m) = Some (os, s) \<and> map entry_of os = es \<and> oms_stream s = rest"
proof -
  from assms obtain os where o: "om_write_stream m = concat (map (write_on S) os)" "om_omv_count m = length os"
    "\<forall>o1 \<in> set os. omv_ok V S o1" "map entry_of os = es" and bad: "\<not> is_valid V (Bad V)" by (auto simp: om_rep_def)
  from empty_OopMapValue_some [OF bad] obtain o0 where e: "empty_OopMapValue V = Some o0" by blast
  let ?s = "\<lparr>oms_stream = om_write_stream m @ rest, oms_size = om_omv_count m, oms_position = 0, oms_valid_omv = False, oms_omv = o0\<rparr>"
  from omv.decode_list [OF o(3), of o0 rest] obtain ys where
    y: "decode_n (read_from V S) (length os) o0 (concat (map (write_on S) os) @ rest) = Some (ys, rest)" "list_all2 omv_same ys os" by blast
  from oms_loop_decode [of V S ?s ys rest] y(1) o(1,2) obtain s' where "oms_loop V S ?s = Some (ys, s')" "oms_stream s' = rest" by auto
  then show ?thesis using y(2) o(4) by (auto simp: oms_entries_def new_OopMapStream_def e list_same_entries)
qed

lemma new_OopMap_rep: "stream_ok S \<Longrightarrow> \<not> is_valid V (Bad V) \<Longrightarrow> om_rep V S (new_OopMap V pc fs ac) []"
  by (simp add: om_rep_def new_OopMap_def)

definition fits_short :: "int \<Rightarrow> bool" where "fits_short r \<longleftrightarrow> - (2 ^ 15) \<le> r \<and> r < 2 ^ 15"

lemma fits_short_id: "fits_short r \<Longrightarrow> signed_take_bit 15 r = r"
  by (simp add: fits_short_def signed_take_bit_int_eq_self)

definition keeps_content :: "oop_types \<Rightarrow> bool" where
  "keeps_content t \<longleftrightarrow> t = callee_saved_value \<or> t = derived_oop_value"

lemma has_content_type: "has_content o1 \<longleftrightarrow> keeps_content (type o1)"
  by (auto simp: has_content_def keeps_content_def type_is_type)

lemma set_xxx_rep:
  assumes rep: "om_rep V S m es" and s: "set_xxx V S r t opt m = Some m'" and f: "keeps_content t \<longrightarrow> fits_short opt"
  shows "om_rep V S m' (es @ [(r, t, if keeps_content t then Some opt else None)])"
    "nat r < length (om_locs_used m)" "0 \<le> r" "om_locs_used m ! nat r = unused_value" "t \<noteq> unused_value"
    "om_locs_used m' = (om_locs_used m)[nat r := t]" "om_pc_offset m' = om_pc_offset m"
proof -
  from s obtain o1 where o1: "new_OopMapValue V r t opt = Some o1" and m': "m' = m\<lparr>om_locs_used := (om_locs_used m)[nat r := t],
      om_write_stream := om_write_stream m @ write_on S o1, om_omv_count := Suc (om_omv_count m)\<rparr>"
    by (auto simp: set_xxx_def split: if_splits option.splits)
  note n = new_OopMapValue_result [OF o1]
  have e: "entry_of o1 = (r, t, if keeps_content t then Some opt else None)"
    using n f by (simp add: entry_of_def has_content_type fits_short_id)
  have "keeps_content t \<Longrightarrow> content_reg o1 = opt" using n(6) f by (simp add: fits_short_id)
  then have "omv_ok V S o1" using rep n by (auto simp: om_rep_def omv_ok_def has_content_type)
  moreover from rep obtain os where "om_write_stream m = concat (map (write_on S) os)" "om_omv_count m = length os"
    "\<forall>o1 \<in> set os. omv_ok V S o1" "map entry_of os = es" by (auto simp: om_rep_def)
  ultimately show "om_rep V S m' (es @ [(r, t, if keeps_content t then Some opt else None)])"
    using rep unfolding om_rep_def m' by (intro conjI exI [of _ "os @ [o1]"]) (auto simp: e)
  show "nat r < length (om_locs_used m)" "0 \<le> r" "om_locs_used m ! nat r = unused_value" "t \<noteq> unused_value"
    "om_locs_used m' = (om_locs_used m)[nat r := t]" "om_pc_offset m' = om_pc_offset m"
    using s n(2) m' by (auto simp: set_xxx_def split: if_splits)
qed

lemma equals_iff:
  assumes "om_rep V S m es" and "om_rep V S m' es'"
  shows "equals m m' \<longleftrightarrow> es = es'"
proof -
  from assms obtain os os' where o: "om_write_stream m = concat (map (write_on S) os)" "om_omv_count m = length os"
    "\<forall>o1 \<in> set os. omv_ok V S o1" "map entry_of os = es" "om_write_stream m' = concat (map (write_on S) os')" "om_omv_count m' = length os'"
    "\<forall>o1 \<in> set os'. omv_ok V S o1" "map entry_of os' = es'" by (auto simp: om_rep_def)
  have "list_all2 omv_same os os'" if "equals m m'"
    using that o(1,2,5,6) by (intro omv.encode_inj [OF o(3,7)]) (auto simp: equals_def split: if_splits)
  moreover have "equals m m'" if "list_all2 omv_same os os'"
    using omv.encode_same [OF that, of S] list_all2_lengthD [OF that] o(1,2,5,6) by (simp add: equals_def)
  ultimately show ?thesis using list_same_entries [of os os'] unfolding o(4,8) by blast
qed

lemma copy_entries_fold:
  "om_write_stream (fold (\<lambda>o1 m. m\<lparr>om_write_stream := om_write_stream m @ write_on S o1, om_omv_count := Suc (om_omv_count m)\<rparr>) os m) =
     om_write_stream m @ concat (map (write_on S) os)"
  "om_omv_count (fold (\<lambda>o1 m. m\<lparr>om_write_stream := om_write_stream m @ write_on S o1, om_omv_count := Suc (om_omv_count m)\<rparr>) os m) =
     om_omv_count m + length os"
  "om_pc_offset (fold (\<lambda>o1 m. m\<lparr>om_write_stream := om_write_stream m @ write_on S o1, om_omv_count := Suc (om_omv_count m)\<rparr>) os m) = om_pc_offset m"
  by (induction os arbitrary: m) simp_all

text \<open>A compilation records the oops of a frame by a sequence of these calls.\<close>

datatype om_op = Oop VMReg | Narrowoop VMReg | Callee_saved VMReg VMReg | Derived_oop VMReg VMReg

primrec om_do :: "vmreg_impl \<Rightarrow> stream_impl \<Rightarrow> om_op \<Rightarrow> OopMap \<Rightarrow> OopMap option" where
  "om_do V S (Oop r) = set_oop V S r"
| "om_do V S (Narrowoop r) = set_narrowoop V S r"
| "om_do V S (Callee_saved r c) = set_callee_saved V S r c"
| "om_do V S (Derived_oop r b) = set_derived_oop V S r b"

primrec om_run :: "vmreg_impl \<Rightarrow> stream_impl \<Rightarrow> om_op list \<Rightarrow> OopMap \<Rightarrow> OopMap option" where
  "om_run V S [] m = Some m"
| "om_run V S (x # xs) m = (case om_do V S x m of None \<Rightarrow> None | Some m' \<Rightarrow> om_run V S xs m')"

primrec op_entry :: "om_op \<Rightarrow> entry" where
  "op_entry (Oop r) = (r, oop_value, None)"
| "op_entry (Narrowoop r) = (r, narrowoop_value, None)"
| "op_entry (Callee_saved r c) = (r, callee_saved_value, Some c)"
| "op_entry (Derived_oop r b) = (if r = b then (r, oop_value, None) else (r, derived_oop_value, Some b))"

primrec op_short :: "om_op \<Rightarrow> bool" where
  "op_short (Oop r) = True"
| "op_short (Narrowoop r) = True"
| "op_short (Callee_saved r c) = fits_short c"
| "op_short (Derived_oop r b) = fits_short b"

lemma om_do_set_xxx:
  assumes "op_short x"
  shows "\<exists>r t opt. om_do V S x m = set_xxx V S r t opt m \<and> (keeps_content t \<longrightarrow> fits_short opt) \<and>
    op_entry x = (r, t, if keeps_content t then Some opt else None)"
  using assms
  by (cases x) (auto simp: set_oop_def set_narrowoop_def set_callee_saved_def set_derived_oop_def keeps_content_def)

text \<open>The debug array says which entry a location has.\<close>

definition locs_ok :: "OopMap \<Rightarrow> entry list \<Rightarrow> bool" where
  "locs_ok m es \<longleftrightarrow> distinct (map fst es) \<and>
     (\<forall>r t c. (r, t, c) \<in> set es \<longrightarrow> 0 \<le> r \<and> nat r < length (om_locs_used m) \<and> om_locs_used m ! nat r \<noteq> unused_value)"

lemma om_do_rep:
  assumes "om_rep V S m es" and "locs_ok m es" and "op_short x" and "om_do V S x m = Some m'"
  shows "om_rep V S m' (es @ [op_entry x]) \<and> locs_ok m' (es @ [op_entry x]) \<and> om_pc_offset m' = om_pc_offset m"
proof -
  from om_do_set_xxx [OF assms(3), of V S m] assms(4) obtain r t opt where
    x: "set_xxx V S r t opt m = Some m'" "keeps_content t \<longrightarrow> fits_short opt"
    "op_entry x = (r, t, if keeps_content t then Some opt else None)" by auto
  note sx = set_xxx_rep [OF assms(1) x(1,2)]
  have "r \<noteq> r'" if "(r', t', c') \<in> set es" for r' t' c' using that assms(2) sx(4) by (auto simp: locs_ok_def)
  then have "r \<notin> fst ` set es" by fastforce
  moreover have "om_locs_used m' ! nat r' \<noteq> unused_value \<and> nat r' < length (om_locs_used m') \<and> 0 \<le> r'"
    if "(r', t', c') \<in> set (es @ [op_entry x])" for r' t' c'
    using that assms(2) sx(2-6) x(3) by (auto simp: locs_ok_def nth_list_update)
  ultimately have "locs_ok m' (es @ [op_entry x])" using assms(2) x(3) by (auto simp: locs_ok_def)
  with sx x(3) show ?thesis by simp
qed

lemma om_run_rep:
  assumes "om_rep V S m es" and "locs_ok m es" and "\<forall>x \<in> set xs. op_short x" and "om_run V S xs m = Some m'"
  shows "om_rep V S m' (es @ map op_entry xs) \<and> locs_ok m' (es @ map op_entry xs) \<and> om_pc_offset m' = om_pc_offset m"
  using assms
proof (induction xs arbitrary: m es)
  case (Cons x xs)
  from Cons.prems(4) obtain m1 where m1: "om_do V S x m = Some m1" "om_run V S xs m1 = Some m'" by (auto split: option.splits)
  with om_do_rep [OF Cons.prems(1,2) _ m1(1)] Cons.prems(3) have
    r: "om_rep V S m1 (es @ [op_entry x])" "locs_ok m1 (es @ [op_entry x])" "om_pc_offset m1 = om_pc_offset m" by auto
  from Cons.IH [OF r(1,2) _ m1(2)] Cons.prems(3) r(3) show ?case by simp
qed simp

definition built :: "vmreg_impl \<Rightarrow> stream_impl \<Rightarrow> om_op list \<Rightarrow> OopMap \<Rightarrow> bool" where
  "built V S xs m \<longleftrightarrow> stream_ok S \<and> \<not> is_valid V (Bad V) \<and> (\<forall>x \<in> set xs. op_short x) \<and>
     (\<exists>pc fs ac. om_run V S xs (new_OopMap V pc fs ac) = Some m)"

lemma built_rep: "built V S xs m \<Longrightarrow> om_rep V S m (map op_entry xs) \<and> locs_ok m (map op_entry xs)"
proof -
  assume b: "built V S xs m"
  then obtain pc fs ac where r: "om_run V S xs (new_OopMap V pc fs ac) = Some m" by (auto simp: built_def)
  have "locs_ok (new_OopMap V pc fs ac) []" by (simp add: locs_ok_def)
  from om_run_rep [OF new_OopMap_rep this _ r] b show ?thesis by (simp add: built_def)
qed

lemma deep_copy_rep:
  assumes "om_rep V S m es"
  shows "\<exists>m'. deep_copy V S m = Some m' \<and> om_rep V S m' es \<and> om_pc_offset m' = om_pc_offset m \<and>
    om_write_stream m' = om_write_stream m \<and> om_omv_count m' = om_omv_count m"
proof -
  from om_rep_entries [OF assms, of "[]"] obtain os s where
    e: "oms_entries V S (om_write_stream m) (om_omv_count m) = Some (os, s)" "map entry_of os = es" by auto
  from assms obtain os' where o: "om_write_stream m = concat (map (write_on S) os')" "om_omv_count m = length os'"
    "map entry_of os' = es" by (auto simp: om_rep_def)
  with e(2) have "list_all2 omv_same os os'" by (simp add: list_same_entries)
  from omv.encode_same [OF this] list_all2_lengthD [OF this] o e(1) assms show ?thesis
    by (auto simp: deep_copy_def copy_entries_fold om_rep_def)
qed

text \<open>Sample registers and stream, and three entries of a frame.\<close>

definition sample_vm :: vmreg_impl where
  "sample_vm = \<lparr>is_reg = (\<lambda>r. 0 \<le> r \<and> r < 16), is_stack = (\<lambda>r. 16 \<le> r), is_valid = (\<lambda>r. 0 \<le> r), reg2stack = (\<lambda>r. r - 16),
     Bad = -1, stack0 = 16\<rparr>"

definition sample_stream :: stream_impl where
  "sample_stream = \<lparr>write_int = i32_bytes, read_int = (\<lambda>bs. if length bs < 4 then None else Some (bytes_i32 bs, drop 4 bs))\<rparr>"

lemma sample_stream_ok: "stream_ok sample_stream"
  by (simp add: stream_ok_def sample_stream_def i32_roundtrip signed_take_bit_int_eq_self)

definition sample_ops :: "om_op list" where "sample_ops = [Oop 16, Derived_oop 17 16, Callee_saved 18 3]"

lemma sample_built: "\<exists>m. built sample_vm sample_stream sample_ops m"
proof -
  have "om_run sample_vm sample_stream sample_ops (new_OopMap sample_vm 0 4 0) \<noteq> None" by code_simp
  moreover have "\<not> is_valid sample_vm (Bad sample_vm)" "\<forall>x \<in> set sample_ops. op_short x"
    by (simp_all add: sample_vm_def sample_ops_def fits_short_def)
  ultimately show ?thesis using sample_stream_ok unfolding built_def by blast
qed

section \<open>Properties\<close>

text \<open>
  the constructor of an entry passes its asserts exactly for register numbers below
  \<open>2 ^ 14\<close>, real kinds and a content register that fits the kind; then the location and the
  kind are read back from the 16 bits unchanged, also where the packed value is a negative
  short, and the content register up to the width of a short.
\<close>

theorem OopMapValue_packing:
  "case new_OopMapValue V r t r2 of
     None \<Rightarrow> \<not> (legal_vm_reg_name r \<and> t \<noteq> unused_value \<and> content_ok V t r2)
   | Some o1 \<Rightarrow> legal_vm_reg_name r \<and> t \<noteq> unused_value \<and> content_ok V t r2 \<and>
       reg o1 = r \<and> type o1 = t \<and> content_reg o1 = signed_take_bit 15 r2"
  using new_OopMapValue_result [of V r t r2] new_OopMapValue_some [of r t V r2]
  by (cases "new_OopMapValue V r t r2") auto

text \<open>
  C30: an oop map is read back as it was recorded. After any sequence of \<open>set_oop\<close>,
  \<open>set_narrowoop\<close>, \<open>set_callee_saved\<close> and \<open>set_derived_oop\<close> that passes the asserts, the
  loop over its stream ends, sees exactly the recorded entries in their order and consumes
  the bytes of the map; no location has two entries.
\<close>

theorem OopMap_roundtrip:
  assumes "built V S xs m"
  shows "\<exists>os s. oms_entries V S (om_write_stream m @ rest) (om_omv_count m) = Some (os, s) \<and>
    map entry_of os = map op_entry xs \<and> oms_stream s = rest \<and> distinct (map reg os)"
proof -
  from built_rep [OF assms] have r: "om_rep V S m (map op_entry xs)" "locs_ok m (map op_entry xs)" by auto
  from om_rep_entries [OF r(1), of rest] obtain os s where
    o: "oms_entries V S (om_write_stream m @ rest) (om_omv_count m) = Some (os, s)" "map entry_of os = map op_entry xs" "oms_stream s = rest" by blast
  have "map reg os = map fst (map entry_of os)" by (simp add: entry_of_def)
  with o(2) r(2) have "distinct (map reg os)" unfolding locs_ok_def by simp
  with o show ?thesis by blast
qed

theorem OopMap_roundtrip_witness:
  "\<exists>(m :: OopMap) os s. oms_entries sample_vm sample_stream (om_write_stream m) (om_omv_count m) = Some (os, s) \<and>
     map entry_of os = [(16, oop_value, None), (17, derived_oop_value, Some 16), (18, callee_saved_value, Some 3)]"
proof -
  from sample_built obtain m where "built sample_vm sample_stream sample_ops m" by blast
  from OopMap_roundtrip [OF this, of "[]"] obtain os s where
    os: "oms_entries sample_vm sample_stream (om_write_stream m) (om_omv_count m) = Some (os, s)"
    "map entry_of os = map op_entry sample_ops" by auto
  from os(2) have "map entry_of os = [(16, oop_value, None), (17, derived_oop_value, Some 16), (18, callee_saved_value, Some 3)]"
    by (simp add: sample_ops_def)
  with os(1) show ?thesis by (intro exI [of _ m] exI [of _ os] exI [of _ s] conjI)
qed

text \<open>
  C31: \<open>equals\<close>, which compares bytes, holds exactly if two maps have the same entries in the
  same order; \<open>deep_copy\<close> always returns and gives a map for the same pc that is \<open>equals\<close> to
  its source.
\<close>

theorem OopMap_equals_correct:
  assumes "built V S xs m" and "built V S ys m'"
  shows "(equals m m' \<longleftrightarrow> map op_entry xs = map op_entry ys) \<and>
    (\<exists>c. deep_copy V S m = Some c \<and> equals m c \<and> om_pc_offset c = om_pc_offset m)"
proof -
  note r = built_rep [OF assms(1), THEN conjunct1]
  from equals_iff [OF r built_rep [OF assms(2), THEN conjunct1]] deep_copy_rep [OF r] equals_iff [OF r]
  show ?thesis by blast
qed

theorem OopMap_equals_correct_witness:
  "\<exists>m c. built sample_vm sample_stream sample_ops m \<and> deep_copy sample_vm sample_stream m = Some c \<and> equals m c"
proof -
  from sample_built obtain m where m: "built sample_vm sample_stream sample_ops m" by blast
  from OopMap_equals_correct [OF m m] m show ?thesis by blast
qed

end
