(* ===== verification/Oop_Map_Set.thy ===== *)
theory Oop_Map_Set
  imports Oop_Map
begin

text \<open>
  \<open>OopMapSet\<close>, \<open>ImmutableOopMapSet\<close> and \<open>ImmutableOopMapBuilder\<close> (\<open>compiler/oopMap.cpp\<close>): the
  maps of a compiled method are packed into one block of bytes, with one copy of equal
  neighbours and of the empty map, and looked up by pc offset.
\<close>

section \<open>OopMapSet\<close>

text \<open>\<open>add_gc_map\<close> fails if the pc offset is that of the last map; maps out of order only give a warning.\<close>

definition add_gc_map :: "int \<Rightarrow> OopMap \<Rightarrow> OopMap list \<Rightarrow> OopMap list option" where
  "add_gc_map pc m xs =
     (let m1 = m\<lparr>om_pc_offset := pc\<rparr>
      in if xs \<noteq> [] \<and> om_pc_offset (last xs) = om_pc_offset m1 then None else Some (xs @ [m1]))"

section \<open>The immutable set as bytes\<close>

text \<open>Addresses count from the start of the buffer that holds the \<open>ImmutableOopMapSet\<close>.\<close>

type_synonym memory = "nat \<Rightarrow> u1"

definition write_bytes :: "nat \<Rightarrow> u1 list \<Rightarrow> memory \<Rightarrow> memory" where
  "write_bytes a bs m = (\<lambda>i. if a \<le> i \<and> i < a + length bs then bs ! (i - a) else m i)"

definition read_bytes :: "nat \<Rightarrow> nat \<Rightarrow> memory \<Rightarrow> u1 list" where
  "read_bytes a n m = map m [a..<a + n]"

definition store_int :: "nat \<Rightarrow> int \<Rightarrow> memory \<Rightarrow> memory" where
  "store_int a v = write_bytes a (i32_bytes v)"

definition load_int :: "nat \<Rightarrow> memory \<Rightarrow> int" where
  "load_int a m = bytes_i32 (read_bytes a 4 m)"

definition sizeof_ImmutableOopMapSet :: nat where "sizeof_ImmutableOopMapSet = 8"
definition sizeof_ImmutableOopMapPair :: nat where "sizeof_ImmutableOopMapPair = 8"
definition sizeof_ImmutableOopMap :: nat where "sizeof_ImmutableOopMap = 4"

text \<open>\<open>ImmutableOopMapSet\<close>: \<open>_count\<close> and \<open>_size\<close>, the pairs, the maps.\<close>

definition new_ImmutableOopMapSet :: "int \<Rightarrow> int \<Rightarrow> memory \<Rightarrow> memory" where
  "new_ImmutableOopMapSet count sz m = store_int 4 sz (store_int 0 count m)"

definition set_count :: "memory \<Rightarrow> int" where "set_count m = load_int 0 m"
definition nr_of_bytes :: "memory \<Rightarrow> int" where "nr_of_bytes m = load_int 4 m"

definition get_pairs :: nat where "get_pairs = sizeof_ImmutableOopMapSet"

definition set_data :: "memory \<Rightarrow> nat" where
  "set_data m = sizeof_ImmutableOopMapSet + sizeof_ImmutableOopMapPair * nat (set_count m)"

definition oopmap_at_offset :: "int \<Rightarrow> memory \<Rightarrow> nat option" where
  "oopmap_at_offset offset m = (if 0 \<le> offset \<and> offset < nr_of_bytes m then Some (set_data m + nat offset) else None)"

definition pair_addr :: "nat \<Rightarrow> nat" where
  "pair_addr i = get_pairs + sizeof_ImmutableOopMapPair * i"

definition pc_offset :: "nat \<Rightarrow> memory \<Rightarrow> int" where "pc_offset p m = load_int p m"
definition oopmap_offset :: "nat \<Rightarrow> memory \<Rightarrow> int" where "oopmap_offset p m = load_int (p + 4) m"

definition new_ImmutableOopMapPair :: "nat \<Rightarrow> int \<Rightarrow> int \<Rightarrow> memory \<Rightarrow> memory option" where
  "new_ImmutableOopMapPair p pc off m =
     (if 0 \<le> pc \<and> 0 \<le> off then Some (store_int (p + 4) off (store_int p pc m)) else None)"

definition get_from :: "nat \<Rightarrow> memory \<Rightarrow> nat option" where
  "get_from p m = oopmap_at_offset (oopmap_offset p m) m"

text \<open>The first pair at or after the pc; \<open>pairs_from i\<close> is the loop from index \<open>i\<close>.\<close>

function find_pair :: "nat \<Rightarrow> int \<Rightarrow> memory \<Rightarrow> nat option" where
  "find_pair i pc m =
     (if int i < set_count m then
        if pc_offset (pair_addr i) m \<ge> pc then Some (pair_addr i) else find_pair (Suc i) pc m
      else None)"
  by auto
termination by (relation "measure (\<lambda>(i, pc, m). nat (set_count m) - i)") auto

declare find_pair.simps [simp del]

definition find_map_at_offset :: "int \<Rightarrow> memory \<Rightarrow> nat option" where
  "find_map_at_offset pc m =
     (case find_pair 0 pc m of
        None \<Rightarrow> None
      | Some p \<Rightarrow> if pc_offset p m = pc then get_from p m else None)"

text \<open>\<open>ImmutableOopMap\<close>: the number of entries, then the bytes of the map.\<close>

definition imm_count :: "nat \<Rightarrow> memory \<Rightarrow> int" where "imm_count a m = load_int a m"
definition data_addr :: "nat \<Rightarrow> nat" where "data_addr a = a + sizeof_ImmutableOopMap"

definition copy_data_to :: "nat \<Rightarrow> OopMap \<Rightarrow> memory \<Rightarrow> memory" where
  "copy_data_to a om m = write_bytes a (om_write_stream om) m"

definition new_ImmutableOopMap :: "nat \<Rightarrow> OopMap \<Rightarrow> memory \<Rightarrow> memory" where
  "new_ImmutableOopMap a om m = copy_data_to (data_addr a) om (store_int a (int (om_omv_count om)) m)"

text \<open>The stream over an immutable map reads on in memory; \<open>lim\<close> is the end of the buffer.\<close>

definition imm_entries :: "vmreg_impl \<Rightarrow> stream_impl \<Rightarrow> nat \<Rightarrow> nat \<Rightarrow> memory \<Rightarrow> (OopMapValue list \<times> OopMapStream) option" where
  "imm_entries V S lim a m = oms_entries V S (read_bytes (data_addr a) (lim - data_addr a) m) (nat (imm_count a m))"

definition imm_nr_of_bytes :: "vmreg_impl \<Rightarrow> stream_impl \<Rightarrow> nat \<Rightarrow> nat \<Rightarrow> memory \<Rightarrow> nat option" where
  "imm_nr_of_bytes V S lim a m =
     (case imm_entries V S lim a m of
        None \<Rightarrow> None
      | Some (_, s) \<Rightarrow> Some (sizeof_ImmutableOopMap + (lim - data_addr a - length (oms_stream s))))"

section \<open>The builder\<close>

datatype mapping_kind = OOPMAP_UNKNOWN | OOPMAP_NEW | OOPMAP_EMPTY | OOPMAP_DUPLICATE

text \<open>\<open>_empty\<close> and \<open>_other\<close> are written and never read; they are left out.\<close>

record builder_mapping =
  mp_kind :: mapping_kind
  mp_offset :: int
  mp_size :: int
  mp_map :: OopMap

record ImmutableOopMapBuilder =
  b_last :: "OopMap option"
  b_empty_offset :: int
  b_last_offset :: int
  b_offset :: int
  b_mapping :: "builder_mapping list"

definition new_ImmutableOopMapBuilder :: ImmutableOopMapBuilder where
  "new_ImmutableOopMapBuilder = \<lparr>b_last = None, b_empty_offset = -1, b_last_offset = -1, b_offset = 0, b_mapping = []\<rparr>"

text \<open>\<open>align_up\<close> (\<open>utilities/align.hpp\<close>) is an argument.\<close>

type_synonym aligner = "int \<Rightarrow> int \<Rightarrow> int"

definition size_for :: "aligner \<Rightarrow> OopMap \<Rightarrow> int" where
  "size_for align_up om = align_up (int sizeof_ImmutableOopMap + int (length (om_write_stream om))) 8"

definition is_empty :: "OopMap \<Rightarrow> bool" where "is_empty om \<longleftrightarrow> om_omv_count om = 0"

definition is_last_duplicate :: "ImmutableOopMapBuilder \<Rightarrow> OopMap \<Rightarrow> bool" where
  "is_last_duplicate b om =
     (case b_last b of None \<Rightarrow> False | Some l \<Rightarrow> om_omv_count l > 0 \<and> equals l om)"

definition has_empty :: "ImmutableOopMapBuilder \<Rightarrow> bool" where "has_empty b \<longleftrightarrow> b_empty_offset b \<noteq> -1"

definition map_one :: "aligner \<Rightarrow> OopMap \<Rightarrow> ImmutableOopMapBuilder \<Rightarrow> ImmutableOopMapBuilder" where
  "map_one align_up om b =
     (let put = \<lambda>k off sz b. b\<lparr>b_mapping := b_mapping b @ [\<lparr>mp_kind = k, mp_offset = off, mp_size = sz, mp_map = om\<rparr>],
                                 b_offset := b_offset b + sz\<rparr>
      in if is_empty om then
           if has_empty b then put OOPMAP_EMPTY (b_empty_offset b) 0 b
           else put OOPMAP_NEW (b_offset b) (size_for align_up om) (b\<lparr>b_empty_offset := b_offset b\<rparr>)
         else if is_last_duplicate b om then put OOPMAP_DUPLICATE (b_last_offset b) 0 b
         else put OOPMAP_NEW (b_offset b) (size_for align_up om) (b\<lparr>b_last_offset := b_offset b, b_last := Some om\<rparr>))"

definition heap_size :: "aligner \<Rightarrow> OopMap list \<Rightarrow> int \<times> ImmutableOopMapBuilder" where
  "heap_size align_up oms =
     (let base = align_up (int sizeof_ImmutableOopMapSet) 8;
          pairs = align_up (int (length oms * sizeof_ImmutableOopMapPair)) 8;
          b = fold (map_one align_up) oms new_ImmutableOopMapBuilder
      in (base + pairs + b_offset b + 8, b))"

definition fill_pair :: "nat \<Rightarrow> OopMap \<Rightarrow> int \<Rightarrow> memory \<Rightarrow> memory option" where
  "fill_pair p om off m =
     (if off < nr_of_bytes m then new_ImmutableOopMapPair p (om_pc_offset om) off m else None)"

definition fill_map :: "nat \<Rightarrow> OopMap \<Rightarrow> int \<Rightarrow> memory \<Rightarrow> memory option" where
  "fill_map p om off m =
     (case fill_pair p om off m of
        None \<Rightarrow> None
      | Some m1 \<Rightarrow> (case get_from p m1 of None \<Rightarrow> None | Some a \<Rightarrow> Some (new_ImmutableOopMap a om m1)))"

text \<open>The loop of \<open>fill\<close> over the mappings, from index \<open>i\<close>.\<close>

fun fill :: "nat \<Rightarrow> builder_mapping list \<Rightarrow> memory \<Rightarrow> memory option" where
  "fill i [] m = Some m"
| "fill i (mp # mps) m =
     (let om = mp_map mp;
          r = (if mp_kind mp = OOPMAP_NEW then fill_map (pair_addr i) om (mp_offset mp) m
               else if mp_kind mp = OOPMAP_DUPLICATE \<or> mp_kind mp = OOPMAP_EMPTY then fill_pair (pair_addr i) om (mp_offset mp) m
               else Some m)
      in case r of
           None \<Rightarrow> None
         | Some m1 \<Rightarrow>
             (case find_map_at_offset (om_pc_offset om) m1 of
                None \<Rightarrow> None
              | Some a \<Rightarrow>
                  if read_bytes (data_addr a) (length (om_write_stream om)) m1 = om_write_stream om
                  then fill (Suc i) mps m1 else None))"

definition verify :: "vmreg_impl \<Rightarrow> stream_impl \<Rightarrow> nat \<Rightarrow> memory \<Rightarrow> bool" where
  "verify V S sz m \<longleftrightarrow>
     (\<forall>i < 8. m (sz - 8 + i) = 255) \<and>
     (\<forall>i < nat (set_count m). oopmap_offset (pair_addr i) m < nr_of_bytes m \<and>
        (case get_from (pair_addr i) m of
           None \<Rightarrow> False
         | Some a \<Rightarrow>
             (case imm_nr_of_bytes V S sz a m of
                None \<Rightarrow> False
              | Some n \<Rightarrow> oopmap_offset (pair_addr i) m + int n \<le> nr_of_bytes m)))"

definition generate_into :: "vmreg_impl \<Rightarrow> stream_impl \<Rightarrow> int \<Rightarrow> nat \<Rightarrow> builder_mapping list \<Rightarrow> memory \<Rightarrow> memory option" where
  "generate_into V S required count mps buffer =
     (let m0 = write_bytes (nat required - 8) (replicate 8 255) buffer;
          m1 = new_ImmutableOopMapSet (int count) required m0
      in case fill 0 mps m1 of
           None \<Rightarrow> None
         | Some m2 \<Rightarrow> if verify V S (nat required) m2 then Some m2 else None)"

text \<open>\<open>buffer\<close> is the memory that the allocation returns.\<close>

definition build_from :: "vmreg_impl \<Rightarrow> stream_impl \<Rightarrow> aligner \<Rightarrow> memory \<Rightarrow> OopMap list \<Rightarrow> memory option" where
  "build_from V S align_up buffer oms =
     (case heap_size align_up oms of
        (required, b) \<Rightarrow> generate_into V S required (length oms) (b_mapping b) buffer)"

section \<open>Memory\<close>

lemma read_bytes_cong: "(\<And>x. a \<le> x \<Longrightarrow> x < a + n \<Longrightarrow> m x = m' x) \<Longrightarrow> read_bytes a n m = read_bytes a n m'"
  by (simp add: read_bytes_def)

lemma load_int_cong: "(\<And>x. a \<le> x \<Longrightarrow> x < a + 4 \<Longrightarrow> m x = m' x) \<Longrightarrow> load_int a m = load_int a m'"
  unfolding load_int_def by (metis read_bytes_cong)

lemma read_write_bytes: "read_bytes a (length bs) (write_bytes a bs m) = bs"
  by (rule nth_equalityI) (simp_all add: read_bytes_def write_bytes_def)

lemma read_bytes_append: "read_bytes a (n + k) m = read_bytes a n m @ read_bytes (a + n) k m"
  using upt_add_eq_append [of a "a + n" k] by (simp add: read_bytes_def add.assoc)

lemma read_bytes_length [simp]: "length (read_bytes a n m) = n"
  by (simp add: read_bytes_def)

definition fits32 :: "int \<Rightarrow> bool" where "fits32 v \<longleftrightarrow> 0 \<le> v \<and> v < 2 ^ 31"

lemma load_store_int: "fits32 v \<Longrightarrow> load_int a (store_int a v m) = v"
  using read_write_bytes [of a "i32_bytes v" m] i32_roundtrip [of v "[]"]
  by (simp add: load_int_def store_int_def fits32_def signed_take_bit_int_eq_self)

lemma store_int_other: "x < a \<or> a + 4 \<le> x \<Longrightarrow> store_int a v m x = m x"
  by (auto simp: store_int_def write_bytes_def)

section \<open>Where the builder puts the maps\<close>

text \<open>The bytes that a map needs, and when two maps may share them.\<close>

definition room :: "OopMap \<Rightarrow> int" where
  "room om = int sizeof_ImmutableOopMap + int (length (om_write_stream om))"

definition same_data :: "OopMap \<Rightarrow> OopMap \<Rightarrow> bool" where
  "same_data a b \<longleftrightarrow> om_omv_count a = om_omv_count b \<and> om_write_stream a = om_write_stream b"

abbreviation is_new :: "builder_mapping \<Rightarrow> bool" where "is_new mp \<equiv> mp_kind mp = OOPMAP_NEW"

text \<open>Every map has a place of its own or shares that of an earlier map; the places are disjoint and end before \<open>lim\<close>.\<close>

definition layout_ok :: "builder_mapping list \<Rightarrow> int \<Rightarrow> bool" where
  "layout_ok mps lim \<longleftrightarrow> 0 \<le> lim \<and>
     (\<forall>i < length mps. mp_kind (mps ! i) \<noteq> OOPMAP_UNKNOWN \<and>
        (\<exists>j \<le> i. is_new (mps ! j) \<and> mp_offset (mps ! j) = mp_offset (mps ! i) \<and> same_data (mp_map (mps ! j)) (mp_map (mps ! i)))) \<and>
     (\<forall>i < length mps. is_new (mps ! i) \<longrightarrow> 0 \<le> mp_offset (mps ! i) \<and> mp_offset (mps ! i) + room (mp_map (mps ! i)) \<le> lim) \<and>
     (\<forall>j < length mps. \<forall>i < j. is_new (mps ! i) \<and> is_new (mps ! j) \<longrightarrow>
        mp_offset (mps ! i) + room (mp_map (mps ! i)) \<le> mp_offset (mps ! j))"

lemma layout_new:
  assumes l: "layout_ok mps lim" and mp: "is_new mp" "mp_offset mp = lim" and r: "room (mp_map mp) \<le> sz"
  shows "layout_ok (mps @ [mp]) (lim + sz)"
proof -
  have "0 \<le> room (mp_map mp)" by (simp add: room_def)
  with l r have lim: "0 \<le> lim" "0 \<le> sz" by (auto simp: layout_ok_def)
  have "mp_kind ((mps @ [mp]) ! i) \<noteq> OOPMAP_UNKNOWN \<and> (\<exists>j \<le> i. is_new ((mps @ [mp]) ! j) \<and>
      mp_offset ((mps @ [mp]) ! j) = mp_offset ((mps @ [mp]) ! i) \<and> same_data (mp_map ((mps @ [mp]) ! j)) (mp_map ((mps @ [mp]) ! i)))"
    if "i < length (mps @ [mp])" for i
  proof (cases "i < length mps")
    case True
    with l obtain j where "j \<le> i" "is_new (mps ! j)" "mp_offset (mps ! j) = mp_offset (mps ! i)"
      "same_data (mp_map (mps ! j)) (mp_map (mps ! i))" "mp_kind (mps ! i) \<noteq> OOPMAP_UNKNOWN" unfolding layout_ok_def by blast
    with True show ?thesis by (auto simp: nth_append intro!: exI [of _ j])
  next
    case False
    with that mp show ?thesis by (auto simp: nth_append same_data_def intro!: exI [of _ i])
  qed
  moreover have "\<forall>i < length mps. is_new (mps ! i) \<longrightarrow> 0 \<le> mp_offset (mps ! i) \<and> mp_offset (mps ! i) + room (mp_map (mps ! i)) \<le> lim"
    using l unfolding layout_ok_def by blast
  ultimately show ?thesis
    using l mp r lim unfolding layout_ok_def by (fastforce simp: nth_append less_Suc_eq)
qed

lemma layout_shared:
  assumes l: "layout_ok mps lim" and k: "mp_kind mp \<noteq> OOPMAP_UNKNOWN" "\<not> is_new mp"
    and j: "j < length mps" "is_new (mps ! j)" "mp_offset (mps ! j) = mp_offset mp" "same_data (mp_map (mps ! j)) (mp_map mp)"
  shows "layout_ok (mps @ [mp]) lim"
proof -
  have "mp_kind ((mps @ [mp]) ! i) \<noteq> OOPMAP_UNKNOWN \<and> (\<exists>j \<le> i. is_new ((mps @ [mp]) ! j) \<and>
      mp_offset ((mps @ [mp]) ! j) = mp_offset ((mps @ [mp]) ! i) \<and> same_data (mp_map ((mps @ [mp]) ! j)) (mp_map ((mps @ [mp]) ! i)))"
    if "i < length (mps @ [mp])" for i
  proof (cases "i < length mps")
    case True
    with l obtain j where "j \<le> i" "is_new (mps ! j)" "mp_offset (mps ! j) = mp_offset (mps ! i)"
      "same_data (mp_map (mps ! j)) (mp_map (mps ! i))" "mp_kind (mps ! i) \<noteq> OOPMAP_UNKNOWN" unfolding layout_ok_def by blast
    with True show ?thesis by (auto simp: nth_append intro!: exI [of _ j])
  next
    case False
    with that have "i = length mps" by simp
    with j k show ?thesis by (auto simp: nth_append intro!: exI [of _ j])
  qed
  with l k show ?thesis unfolding layout_ok_def by (auto simp: nth_append less_Suc_eq)
qed

definition align_ok :: "aligner \<Rightarrow> bool" where
  "align_ok align_up \<longleftrightarrow> (\<forall>x \<ge> 0. x \<le> align_up x 8)"

text \<open>The state of the builder after a number of maps.\<close>

definition builder_ok :: "OopMap list \<Rightarrow> ImmutableOopMapBuilder \<Rightarrow> bool" where
  "builder_ok oms b \<longleftrightarrow> layout_ok (b_mapping b) (b_offset b) \<and> map mp_map (b_mapping b) = oms \<and>
     (has_empty b \<longrightarrow> (\<exists>j < length oms. is_new (b_mapping b ! j) \<and> mp_offset (b_mapping b ! j) = b_empty_offset b \<and> is_empty (oms ! j))) \<and>
     (\<forall>l. b_last b = Some l \<longrightarrow> (\<exists>j < length oms. is_new (b_mapping b ! j) \<and> mp_offset (b_mapping b ! j) = b_last_offset b \<and> oms ! j = l))"

lemma builder_ok_new:
  assumes ok: "builder_ok oms b" and A: "align_ok A"
    and b': "b' = b\<lparr>b_mapping := b_mapping b @ [\<lparr>mp_kind = OOPMAP_NEW, mp_offset = b_offset b, mp_size = size_for A om, mp_map = om\<rparr>],
                   b_offset := b_offset b + size_for A om, b_empty_offset := eo, b_last_offset := lo, b_last := l\<rparr>"
    and e: "eo = b_empty_offset b \<or> eo = b_offset b \<and> is_empty om"
    and l: "lo = b_last_offset b \<and> l = b_last b \<or> lo = b_offset b \<and> l = Some om"
  shows "builder_ok (oms @ [om]) b'"
proof -
  have len: "length (b_mapping b) = length oms" using ok unfolding builder_ok_def by (metis length_map)
  have "room om \<le> size_for A om" using A by (simp add: align_ok_def size_for_def room_def)
  with ok have "layout_ok (b_mapping b') (b_offset b')"
    by (simp add: b' builder_ok_def layout_new)
  moreover have "\<exists>j < length (oms @ [om]). is_new (b_mapping b' ! j) \<and> mp_offset (b_mapping b' ! j) = eo \<and> is_empty ((oms @ [om]) ! j)"
    if "eo \<noteq> -1"
    using e
  proof
    assume "eo = b_empty_offset b"
    with that ok obtain j where "j < length oms" "is_new (b_mapping b ! j)" "mp_offset (b_mapping b ! j) = eo" "is_empty (oms ! j)"
      by (auto simp: builder_ok_def has_empty_def)
    with len show ?thesis by (auto simp: b' nth_append intro!: exI [of _ j])
  qed (use len in \<open>auto simp: b' nth_append intro!: exI [of _ "length oms"]\<close>)
  moreover have "\<exists>j < length (oms @ [om]). is_new (b_mapping b' ! j) \<and> mp_offset (b_mapping b' ! j) = lo \<and> (oms @ [om]) ! j = l'"
    if "l = Some l'" for l'
    using l
  proof
    assume "lo = b_last_offset b \<and> l = b_last b"
    with that ok obtain j where "j < length oms" "is_new (b_mapping b ! j)" "mp_offset (b_mapping b ! j) = lo" "oms ! j = l'"
      by (auto simp: builder_ok_def)
    with len show ?thesis by (auto simp: b' nth_append intro!: exI [of _ j])
  qed (use len that in \<open>auto simp: b' nth_append intro!: exI [of _ "length oms"]\<close>)
  ultimately show ?thesis using ok by (simp add: builder_ok_def b' has_empty_def)
qed

lemma builder_ok_shared:
  assumes ok: "builder_ok oms b" and k: "k \<noteq> OOPMAP_UNKNOWN" "k \<noteq> OOPMAP_NEW"
    and j: "j < length oms" "is_new (b_mapping b ! j)" "mp_offset (b_mapping b ! j) = off" "same_data (oms ! j) om"
  shows "builder_ok (oms @ [om]) (b\<lparr>b_mapping := b_mapping b @ [\<lparr>mp_kind = k, mp_offset = off, mp_size = 0, mp_map = om\<rparr>]\<rparr>)"
proof -
  have len: "length (b_mapping b) = length oms" and mm: "map mp_map (b_mapping b) = oms"
    using ok unfolding builder_ok_def by (metis length_map)+
  then have "mp_map (b_mapping b ! j) = oms ! j" using j(1) by (metis nth_map)
  with j k ok len have "layout_ok (b_mapping b @ [\<lparr>mp_kind = k, mp_offset = off, mp_size = 0, mp_map = om\<rparr>]) (b_offset b)"
    by (intro layout_shared [where j = j]) (simp_all add: builder_ok_def)
  then show ?thesis
    using ok len unfolding builder_ok_def has_empty_def
    by (auto simp: nth_append)
qed

lemma map_one_ok:
  assumes ok: "builder_ok oms b" and A: "align_ok A"
    and em: "\<forall>x \<in> set (oms @ [om]). is_empty x \<longrightarrow> om_write_stream x = []"
  shows "builder_ok (oms @ [om]) (map_one A om b)"
proof (cases "is_empty om")
  case True
  show ?thesis
  proof (cases "has_empty b")
    case he: True
    with ok obtain j where j: "j < length oms" "is_new (b_mapping b ! j)" "mp_offset (b_mapping b ! j) = b_empty_offset b" "is_empty (oms ! j)"
      by (auto simp: builder_ok_def)
    with em True have "same_data (oms ! j) om" by (simp add: same_data_def is_empty_def)
    from builder_ok_shared [OF ok _ _ j(1,2,3) this, of OOPMAP_EMPTY] True he show ?thesis by (simp add: map_one_def Let_def)
  next
    case False
    with True show ?thesis
      by (intro builder_ok_new [OF ok A, where eo = "b_offset b" and lo = "b_last_offset b" and l = "b_last b"])
        (cases b; simp add: map_one_def Let_def)+
  qed
next
  case ne: False
  show ?thesis
  proof (cases "is_last_duplicate b om")
    case True
    then obtain l where l: "b_last b = Some l" "equals l om" by (auto simp: is_last_duplicate_def split: option.splits)
    with ok obtain j where j: "j < length oms" "is_new (b_mapping b ! j)" "mp_offset (b_mapping b ! j) = b_last_offset b" "oms ! j = l"
      by (auto simp: builder_ok_def)
    have "same_data (oms ! j) om" using l(2) j(4) by (auto simp: same_data_def equals_def split: if_splits)
    from builder_ok_shared [OF ok _ _ j(1,2,3) this, of OOPMAP_DUPLICATE] True ne show ?thesis by (simp add: map_one_def Let_def)
  next
    case False
    with ne show ?thesis
      by (intro builder_ok_new [OF ok A, where eo = "b_empty_offset b" and lo = "b_offset b" and l = "Some om"])
        (cases b; simp add: map_one_def Let_def)+
  qed
qed

lemma builder_fold_ok:
  assumes "align_ok A" and "\<forall>x \<in> set (ys @ oms). is_empty x \<longrightarrow> om_write_stream x = []" and "builder_ok ys b"
  shows "builder_ok (ys @ oms) (fold (map_one A) oms b)"
  using assms(2,3)
proof (induction oms arbitrary: ys b)
  case (Cons om oms)
  have "builder_ok (ys @ [om]) (map_one A om b)" using map_one_ok [OF Cons.prems(2) assms(1)] Cons.prems(1) by simp
  from Cons.IH [OF _ this] Cons.prems(1) show ?case by simp
qed simp

section \<open>Filling the block\<close>

text \<open>The sizes the filling relies on. All numbers fit into an int and the maps are sorted by pc.\<close>

definition block_ok :: "builder_mapping list \<Rightarrow> int \<Rightarrow> int \<Rightarrow> bool" where
  "block_ok mps lim req \<longleftrightarrow> layout_ok mps lim \<and> 16 + 8 * int (length mps) + lim \<le> req \<and> req < 2 ^ 31 \<and>
     (\<forall>mp \<in> set mps. fits32 (om_pc_offset (mp_map mp)) \<and> fits32 (int (om_omv_count (mp_map mp)))) \<and>
     sorted_wrt (<) (map (\<lambda>mp. om_pc_offset (mp_map mp)) mps)"

definition map_addr :: "builder_mapping list \<Rightarrow> nat \<Rightarrow> nat" where
  "map_addr mps i = 8 + 8 * length mps + nat (mp_offset (mps ! i))"

text \<open>The memory after \<open>i\<close> steps.\<close>

definition filled :: "builder_mapping list \<Rightarrow> int \<Rightarrow> nat \<Rightarrow> memory \<Rightarrow> bool" where
  "filled mps req i m \<longleftrightarrow> set_count m = int (length mps) \<and> nr_of_bytes m = req \<and> (\<forall>k < 8. m (nat req - 8 + k) = 255) \<and>
     (\<forall>k < i. pc_offset (pair_addr k) m = om_pc_offset (mp_map (mps ! k)) \<and> oopmap_offset (pair_addr k) m = mp_offset (mps ! k) \<and>
        (is_new (mps ! k) \<longrightarrow> imm_count (map_addr mps k) m = int (om_omv_count (mp_map (mps ! k))) \<and>
           read_bytes (map_addr mps k + 4) (length (om_write_stream (mp_map (mps ! k)))) m = om_write_stream (mp_map (mps ! k))))"

lemmas imm_sizes = sizeof_ImmutableOopMapSet_def sizeof_ImmutableOopMapPair_def sizeof_ImmutableOopMap_def get_pairs_def pair_addr_def data_addr_def

lemma block_offsets:
  assumes "block_ok mps lim req" and i: "i < length mps"
  shows "0 \<le> mp_offset (mps ! i)" "mp_offset (mps ! i) + room (mp_map (mps ! i)) \<le> lim" "mp_offset (mps ! i) < req"
    "fits32 (mp_offset (mps ! i))"
    "map_addr mps i + 4 + length (om_write_stream (mp_map (mps ! i))) \<le> nat req - 8"
proof -
  have l: "layout_ok mps lim" and r: "16 + 8 * int (length mps) + lim \<le> req" "req < 2 ^ 31" using assms(1) by (simp_all add: block_ok_def)
  from l i obtain j where j: "j \<le> i" "is_new (mps ! j)" "mp_offset (mps ! j) = mp_offset (mps ! i)"
    "same_data (mp_map (mps ! j)) (mp_map (mps ! i))" unfolding layout_ok_def by blast
  from l j(1,2) i have "0 \<le> mp_offset (mps ! j)" "mp_offset (mps ! j) + room (mp_map (mps ! j)) \<le> lim" by (simp_all add: layout_ok_def)
  with j(3,4) show o: "0 \<le> mp_offset (mps ! i)" "mp_offset (mps ! i) + room (mp_map (mps ! i)) \<le> lim"
    by (simp_all add: same_data_def room_def)
  have "4 \<le> room (mp_map (mps ! i))" by (simp add: room_def imm_sizes)
  with o r show "mp_offset (mps ! i) < req" "fits32 (mp_offset (mps ! i))" by (auto simp: fits32_def)
  show "map_addr mps i + 4 + length (om_write_stream (mp_map (mps ! i))) \<le> nat req - 8"
    using o r by (simp add: map_addr_def room_def imm_sizes)
qed

lemma find_pair_first:
  assumes "j \<le> i" and "int i < set_count m" and "\<forall>k < i. pc_offset (pair_addr k) m < pc" and "pc \<le> pc_offset (pair_addr i) m"
  shows "find_pair j pc m = Some (pair_addr i)"
  using assms
proof (induction "i - j" arbitrary: j)
  case 0
  then show ?case by (subst find_pair.simps) simp
next
  case (Suc d)
  then have "j < i" by simp
  with Suc show ?case by (subst find_pair.simps) (simp add: not_le [symmetric])
qed

text \<open>A map that was filled in is found by its pc, with its entries.\<close>

lemma filled_lookup:
  assumes b: "block_ok mps lim req" and f: "filled mps req (Suc i) m" and i: "i < length mps"
  shows "find_map_at_offset (om_pc_offset (mp_map (mps ! i))) m = Some (map_addr mps i)"
    "get_from (pair_addr i) m = Some (map_addr mps i)"
    "read_bytes (data_addr (map_addr mps i)) (length (om_write_stream (mp_map (mps ! i)))) m = om_write_stream (mp_map (mps ! i))"
    "imm_count (map_addr mps i) m = int (om_omv_count (mp_map (mps ! i)))"
proof -
  note o = block_offsets [OF b i]
  have c: "set_count m = int (length mps)" "nr_of_bytes m = req" using f by (simp_all add: filled_def)
  show g: "get_from (pair_addr i) m = Some (map_addr mps i)"
    using f o c by (simp add: filled_def get_from_def oopmap_at_offset_def set_data_def map_addr_def imm_sizes)
  have "\<forall>k < i. om_pc_offset (mp_map (mps ! k)) < om_pc_offset (mp_map (mps ! i))"
    using b i by (auto simp: block_ok_def sorted_wrt_iff_nth_less)
  then have "find_pair 0 (om_pc_offset (mp_map (mps ! i))) m = Some (pair_addr i)"
    using f i by (intro find_pair_first) (simp_all add: filled_def)
  then show "find_map_at_offset (om_pc_offset (mp_map (mps ! i))) m = Some (map_addr mps i)"
    using f g by (simp add: find_map_at_offset_def filled_def)
  from b i obtain j where j: "j \<le> i" "is_new (mps ! j)" "mp_offset (mps ! j) = mp_offset (mps ! i)"
    "same_data (mp_map (mps ! j)) (mp_map (mps ! i))" unfolding block_ok_def layout_ok_def by blast
  from j(3) have a: "map_addr mps j = map_addr mps i" by (simp add: map_addr_def)
  from f j(1,2) have "imm_count (map_addr mps j) m = int (om_omv_count (mp_map (mps ! j)))"
    "read_bytes (map_addr mps j + 4) (length (om_write_stream (mp_map (mps ! j)))) m = om_write_stream (mp_map (mps ! j))"
    by (simp_all add: filled_def)
  with j(4) show "read_bytes (data_addr (map_addr mps i)) (length (om_write_stream (mp_map (mps ! i)))) m = om_write_stream (mp_map (mps ! i))"
    "imm_count (map_addr mps i) m = int (om_omv_count (mp_map (mps ! i)))"
    unfolding a same_data_def by (simp_all add: data_addr_def imm_sizes)
qed

lemma new_ImmutableOopMap_effect:
  assumes "fits32 (int (om_omv_count om))"
  shows "imm_count a (new_ImmutableOopMap a om m) = int (om_omv_count om)"
    "read_bytes (a + 4) (length (om_write_stream om)) (new_ImmutableOopMap a om m) = om_write_stream om"
    "x < a \<or> a + 4 + length (om_write_stream om) \<le> x \<Longrightarrow> new_ImmutableOopMap a om m x = m x"
proof -
  have "load_int a (new_ImmutableOopMap a om m) = load_int a (store_int a (int (om_omv_count om)) m)"
    by (rule load_int_cong) (simp add: new_ImmutableOopMap_def copy_data_to_def write_bytes_def imm_sizes)
  then show "imm_count a (new_ImmutableOopMap a om m) = int (om_omv_count om)"
    using assms by (simp add: imm_count_def load_store_int)
  show "read_bytes (a + 4) (length (om_write_stream om)) (new_ImmutableOopMap a om m) = om_write_stream om"
    by (simp add: new_ImmutableOopMap_def copy_data_to_def imm_sizes read_write_bytes)
  show "x < a \<or> a + 4 + length (om_write_stream om) \<le> x \<Longrightarrow> new_ImmutableOopMap a om m x = m x"
    by (auto simp: new_ImmutableOopMap_def copy_data_to_def imm_sizes write_bytes_def store_int_other)
qed

text \<open>One step of \<open>fill\<close>: the memory it leaves.\<close>

definition put_map :: "builder_mapping list \<Rightarrow> nat \<Rightarrow> memory \<Rightarrow> memory" where
  "put_map mps i m =
     (let m0 = store_int (pair_addr i + 4) (mp_offset (mps ! i)) (store_int (pair_addr i) (om_pc_offset (mp_map (mps ! i))) m)
      in if is_new (mps ! i) then new_ImmutableOopMap (map_addr mps i) (mp_map (mps ! i)) m0 else m0)"

lemma put_map_frame:
  assumes b: "block_ok mps lim req" and i: "i < length mps"
    and x: "x < 8 + 8 * i \<or> 16 + 8 * i \<le> x" "is_new (mps ! i) \<Longrightarrow>
      x < map_addr mps i \<or> map_addr mps i + 4 + length (om_write_stream (mp_map (mps ! i))) \<le> x"
  shows "put_map mps i m x = m x"
proof -
  have "fits32 (int (om_omv_count (mp_map (mps ! i))))" using b i by (simp add: block_ok_def)
  note e = new_ImmutableOopMap_effect(3) [OF this]
  show ?thesis using x by (auto simp: put_map_def Let_def e store_int_other imm_sizes)
qed

lemma put_map_pair:
  assumes b: "block_ok mps lim req" and i: "i < length mps"
  shows "pc_offset (pair_addr i) (put_map mps i m) = om_pc_offset (mp_map (mps ! i))"
    "oopmap_offset (pair_addr i) (put_map mps i m) = mp_offset (mps ! i)"
    "is_new (mps ! i) \<Longrightarrow> imm_count (map_addr mps i) (put_map mps i m) = int (om_omv_count (mp_map (mps ! i))) \<and>
       read_bytes (map_addr mps i + 4) (length (om_write_stream (mp_map (mps ! i)))) (put_map mps i m) = om_write_stream (mp_map (mps ! i))"
proof -
  have f: "fits32 (om_pc_offset (mp_map (mps ! i)))" "fits32 (int (om_omv_count (mp_map (mps ! i))))" using b i by (simp_all add: block_ok_def)
  note e = new_ImmutableOopMap_effect [OF f(2)]
  let ?m1 = "store_int (pair_addr i) (om_pc_offset (mp_map (mps ! i))) m"
  let ?m0 = "store_int (pair_addr i + 4) (mp_offset (mps ! i)) ?m1"
  have p: "put_map mps i m x = ?m0 x" if "x < 16 + 8 * i" for x
  proof -
    have "x < map_addr mps i" using that i by (simp add: map_addr_def)
    then show ?thesis by (simp add: put_map_def Let_def e(3))
  qed
  have "load_int (pair_addr i) (put_map mps i m) = load_int (pair_addr i) ?m1"
    by (rule load_int_cong) (simp add: p imm_sizes store_int_other)
  then show "pc_offset (pair_addr i) (put_map mps i m) = om_pc_offset (mp_map (mps ! i))"
    by (simp add: pc_offset_def load_store_int [OF f(1)])
  have "load_int (pair_addr i + 4) (put_map mps i m) = load_int (pair_addr i + 4) ?m0"
    by (rule load_int_cong) (simp add: p imm_sizes)
  then show "oopmap_offset (pair_addr i) (put_map mps i m) = mp_offset (mps ! i)"
    by (simp add: oopmap_offset_def load_store_int [OF block_offsets(4) [OF b i]])
  show "is_new (mps ! i) \<Longrightarrow> imm_count (map_addr mps i) (put_map mps i m) = int (om_omv_count (mp_map (mps ! i))) \<and>
     read_bytes (map_addr mps i + 4) (length (om_write_stream (mp_map (mps ! i)))) (put_map mps i m) = om_write_stream (mp_map (mps ! i))"
    by (simp add: put_map_def Let_def e(1,2))
qed

lemma put_map_filled:
  assumes b: "block_ok mps lim req" and f: "filled mps req i m" and i: "i < length mps"
  shows "filled mps req (Suc i) (put_map mps i m)"
proof -
  note o = block_offsets [OF b i] and fr = put_map_frame [OF b i]
  have data: "8 + 8 * length mps \<le> map_addr mps k" for k by (simp add: map_addr_def)
  have low: "put_map mps i m x = m x" if "x < 8 + 8 * i" for x
    using that i data [of i] by (intro fr) auto
  have "set_count (put_map mps i m) = set_count m" "nr_of_bytes (put_map mps i m) = nr_of_bytes m"
    unfolding set_count_def nr_of_bytes_def by (rule load_int_cong; simp add: low)+
  moreover have "put_map mps i m (nat req - 8 + k) = m (nat req - 8 + k)" for k
    using o(5) data [of i] i by (intro fr) auto
  moreover have "pc_offset (pair_addr k) (put_map mps i m) = pc_offset (pair_addr k) m"
    "oopmap_offset (pair_addr k) (put_map mps i m) = oopmap_offset (pair_addr k) m" if "k < i" for k
    unfolding pc_offset_def oopmap_offset_def by (rule load_int_cong; use that in \<open>simp add: low imm_sizes\<close>)+
  moreover have "put_map mps i m x = m x"
    if k: "k < i" "is_new (mps ! k)" and x: "map_addr mps k \<le> x" "x < map_addr mps k + 4 + length (om_write_stream (mp_map (mps ! k)))" for k x
  proof (rule fr)
    show "x < 8 + 8 * i \<or> 16 + 8 * i \<le> x" using x(1) data [of k] i by simp
    assume "is_new (mps ! i)"
    with b k i have "mp_offset (mps ! k) + room (mp_map (mps ! k)) \<le> mp_offset (mps ! i)" by (simp add: block_ok_def layout_ok_def)
    then have "nat (mp_offset (mps ! k)) + 4 + length (om_write_stream (mp_map (mps ! k))) \<le> nat (mp_offset (mps ! i))"
      using block_offsets(1) [OF b, of k] k(1) i by (simp add: room_def imm_sizes)
    then show "x < map_addr mps i \<or> map_addr mps i + 4 + length (om_write_stream (mp_map (mps ! i))) \<le> x"
      using x(2) by (simp add: map_addr_def)
  qed
  then have "imm_count (map_addr mps k) (put_map mps i m) = imm_count (map_addr mps k) m"
    "read_bytes (map_addr mps k + 4) (length (om_write_stream (mp_map (mps ! k)))) (put_map mps i m) =
     read_bytes (map_addr mps k + 4) (length (om_write_stream (mp_map (mps ! k)))) m" if "k < i" "is_new (mps ! k)" for k
    unfolding imm_count_def using that by (auto intro!: load_int_cong read_bytes_cong)
  ultimately show ?thesis
    using f put_map_pair [OF b i] by (simp add: filled_def less_Suc_eq)
qed

lemma fill_step:
  assumes b: "block_ok mps lim req" and f: "filled mps req i m" and i: "i < length mps"
  shows "fill i (mps ! i # rest) m = fill (Suc i) rest (put_map mps i m)"
proof -
  note o = block_offsets [OF b i] and p = put_map_pair [OF b i]
  let ?om = "mp_map (mps ! i)"
  let ?m0 = "store_int (pair_addr i + 4) (mp_offset (mps ! i)) (store_int (pair_addr i) (om_pc_offset ?om) m)"
  have pc: "0 \<le> om_pc_offset ?om" using b i by (simp add: block_ok_def fits32_def)
  have fp: "fill_pair (pair_addr i) ?om (mp_offset (mps ! i)) m = Some ?m0"
    using f o(1,3) pc by (simp add: fill_pair_def filled_def new_ImmutableOopMapPair_def)
  have low: "?m0 x = m x" if "x < 8" for x using that by (simp add: store_int_other imm_sizes)
  have "oopmap_offset (pair_addr i) ?m0 = mp_offset (mps ! i)" by (simp add: oopmap_offset_def load_store_int [OF o(4)])
  moreover have "set_count ?m0 = set_count m" "nr_of_bytes ?m0 = nr_of_bytes m"
    unfolding set_count_def nr_of_bytes_def by (rule load_int_cong; simp add: low)+
  ultimately have "get_from (pair_addr i) ?m0 = Some (map_addr mps i)"
    using f o(1,3) by (simp add: get_from_def oopmap_at_offset_def set_data_def filled_def map_addr_def imm_sizes)
  then have fm: "fill_map (pair_addr i) ?om (mp_offset (mps ! i)) m = Some (new_ImmutableOopMap (map_addr mps i) ?om ?m0)"
    by (simp add: fill_map_def fp)
  have "mp_kind (mps ! i) \<noteq> OOPMAP_UNKNOWN" using b i by (simp add: block_ok_def layout_ok_def)
  then have "mp_kind (mps ! i) \<in> {OOPMAP_NEW, OOPMAP_DUPLICATE, OOPMAP_EMPTY}" by (cases "mp_kind (mps ! i)") auto
  then show ?thesis
    using filled_lookup [OF b put_map_filled [OF b f i] i] by (auto simp: put_map_def fp fm Let_def)
qed

lemma fill_correct:
  assumes b: "block_ok mps lim req" and "filled mps req i m" and "i \<le> length mps"
  shows "\<exists>m'. fill i (drop i mps) m = Some m' \<and> filled mps req (length mps) m'"
  using assms(2,3)
proof (induction "length mps - i" arbitrary: i m)
  case 0
  then show ?case by simp
next
  case (Suc d)
  then have i: "i < length mps" by simp
  then have "drop i mps = mps ! i # drop (Suc i) mps" by (simp add: Cons_nth_drop_Suc)
  with fill_step [OF b Suc.prems(1) i] Suc.hyps(1) [OF _ put_map_filled [OF b Suc.prems(1) i]] Suc.hyps(2) i show ?case by simp
qed

section \<open>Building\<close>

lemma write_int_nonempty:
  assumes "stream_ok S" and "- (2 ^ 31) \<le> v" "v < 2 ^ 31"
  shows "write_int S v \<noteq> []"
proof
  assume w: "write_int S v = []"
  obtain u :: int where u: "u \<noteq> v" "- (2 ^ 31) \<le> u" "u < 2 ^ 31" by (cases "v = 0") (auto intro: that [of 0] that [of 1])
  have "read_int S (write_int S v @ write_int S u) = Some (v, write_int S u)"
    "read_int S (write_int S u @ []) = Some (u, [])" using assms u(2,3) unfolding stream_ok_def by blast+
  with w u(1) show False by simp
qed

lemma om_rep_sizes:
  assumes "om_rep V S om es"
  shows "om_omv_count om \<le> length (om_write_stream om)" "is_empty om \<Longrightarrow> om_write_stream om = []"
proof -
  from assms obtain os where o: "om_write_stream om = concat (map (write_on S) os)" "om_omv_count om = length os" and ok: "stream_ok S"
    by (auto simp: om_rep_def)
  have "1 \<le> length (write_on S o1)" for o1
    using write_int_nonempty [OF ok short_range] by (cases "write_int S (sint (omv_value o1))") (auto simp: write_on_def get_value_def)
  then have "length os \<le> length (concat (map (write_on S) os))"
  proof (induction os)
    case (Cons o1 os)
    from Cons.prems [of o1] Cons.IH [OF Cons.prems] show ?case by simp
  qed simp
  with o show "om_omv_count om \<le> length (om_write_stream om)" by simp
  show "is_empty om \<Longrightarrow> om_write_stream om = []" using o by (simp add: is_empty_def)
qed

text \<open>What the caller guarantees: maps with entries \<open>ess\<close>, in the order of their pcs, that fit into a block.\<close>

definition set_ok :: "vmreg_impl \<Rightarrow> stream_impl \<Rightarrow> aligner \<Rightarrow> OopMap list \<Rightarrow> entry list list \<Rightarrow> bool" where
  "set_ok V S A oms ess \<longleftrightarrow> align_ok A \<and> list_all2 (om_rep V S) oms ess \<and> sorted_wrt (<) (map om_pc_offset oms) \<and>
     (\<forall>om \<in> set oms. fits32 (om_pc_offset om)) \<and> fst (heap_size A oms) < 2 ^ 31"

lemma set_ok_block:
  assumes ok: "set_ok V S A oms ess"
  defines "b \<equiv> snd (heap_size A oms)"
  shows "block_ok (b_mapping b) (b_offset b) (fst (heap_size A oms))" "map mp_map (b_mapping b) = oms"
proof -
  have rep: "\<exists>es. om_rep V S om es" if "om \<in> set oms" for om
    using ok that unfolding set_ok_def by (metis in_set_conv_nth list_all2_nthD)
  have A: "align_ok A" and r: "fst (heap_size A oms) < 2 ^ 31" using ok by (simp_all add: set_ok_def)
  have "b = fold (map_one A) oms new_ImmutableOopMapBuilder" by (simp add: b_def heap_size_def Let_def)
  moreover have "builder_ok [] new_ImmutableOopMapBuilder"
    by (simp add: builder_ok_def new_ImmutableOopMapBuilder_def layout_ok_def has_empty_def)
  ultimately have bo: "builder_ok oms b"
    using builder_fold_ok [OF A, of "[]" oms] rep om_rep_sizes(2) by force
  then show mm: "map mp_map (b_mapping b) = oms" by (simp add: builder_ok_def)
  have lay: "layout_ok (b_mapping b) (b_offset b)" using bo by (simp add: builder_ok_def)
  have len: "length (b_mapping b) = length oms" using mm by (metis length_map)
  have "8 \<le> A 8 8" "int (length oms * 8) \<le> A (int (length oms * 8)) 8" using A unfolding align_ok_def by simp_all
  then have req: "16 + 8 * int (length (b_mapping b)) + b_offset b \<le> fst (heap_size A oms)"
    by (simp add: b_def heap_size_def Let_def imm_sizes len [unfolded b_def heap_size_def Let_def snd_conv])
  have "fits32 (om_pc_offset (mp_map mp)) \<and> fits32 (int (om_omv_count (mp_map mp)))" if mp: "mp \<in> set (b_mapping b)" for mp
  proof -
    from mp mm have in_oms: "mp_map mp \<in> set oms" by (metis image_eqI set_map)
    from mp obtain i where i: "i < length (b_mapping b)" "b_mapping b ! i = mp" by (auto simp: in_set_conv_nth)
    from lay i obtain j where j: "j \<le> i" "is_new (b_mapping b ! j)" "same_data (mp_map (b_mapping b ! j)) (mp_map mp)"
      unfolding layout_ok_def by blast
    from lay j(1,2) i(1) have "0 \<le> mp_offset (b_mapping b ! j)" "mp_offset (b_mapping b ! j) + room (mp_map (b_mapping b ! j)) \<le> b_offset b"
      by (simp_all add: layout_ok_def)
    with j(3) have "room (mp_map mp) \<le> b_offset b" by (simp add: room_def same_data_def)
    moreover obtain es where "om_rep V S (mp_map mp) es" using rep [OF in_oms] by blast
    from om_rep_sizes(1) [OF this] have "int (om_omv_count (mp_map mp)) \<le> room (mp_map mp)" by (simp add: room_def)
    ultimately have "int (om_omv_count (mp_map mp)) < 2 ^ 31" using req r by linarith
    with ok in_oms show ?thesis by (simp add: set_ok_def fits32_def)
  qed
  moreover have "map (\<lambda>mp. om_pc_offset (mp_map mp)) (b_mapping b) = map om_pc_offset oms"
    using arg_cong [OF mm, of "map om_pc_offset"] by (simp add: comp_def)
  ultimately show "block_ok (b_mapping b) (b_offset b) (fst (heap_size A oms))"
    using lay req r ok by (simp add: block_ok_def set_ok_def)
qed

lemma new_set_filled:
  assumes "block_ok mps lim req"
  shows "filled mps req 0 (new_ImmutableOopMapSet (int (length mps)) req (write_bytes (nat req - 8) (replicate 8 255) buffer))"
proof -
  have r: "16 + 8 * int (length mps) \<le> req" "req < 2 ^ 31" using assms by (auto simp: block_ok_def layout_ok_def)
  let ?m = "new_ImmutableOopMapSet (int (length mps)) req (write_bytes (nat req - 8) (replicate 8 255) buffer)"
  have "load_int 0 ?m = load_int 0 (store_int 0 (int (length mps)) (write_bytes (nat req - 8) (replicate 8 255) buffer))"
    by (rule load_int_cong) (simp add: new_ImmutableOopMapSet_def store_int_other)
  then have "set_count ?m = int (length mps)" "nr_of_bytes ?m = req"
    using r by (simp_all add: set_count_def nr_of_bytes_def load_store_int fits32_def new_ImmutableOopMapSet_def)
  moreover have "?m (nat req - 8 + k) = 255" if k: "k < 8" for k
  proof -
    obtain x where x: "x = nat req - 8 + k" "8 \<le> x" "nat req - 8 \<le> x" "x < nat req" using r k by simp
    then have "?m x = 255" using k by (simp add: new_ImmutableOopMapSet_def store_int_other write_bytes_def)
    with x(1) show ?thesis by simp
  qed
  ultimately show ?thesis by (simp add: filled_def)
qed

text \<open>Streaming a map of the finished block.\<close>

lemma filled_entries:
  assumes b: "block_ok mps lim req" and f: "filled mps req (length mps) m" and i: "i < length mps"
    and rep: "om_rep V S (mp_map (mps ! i)) es"
  shows "\<exists>os s. imm_entries V S (nat req) (map_addr mps i) m = Some (os, s) \<and> map entry_of os = es \<and>
    length (oms_stream s) = nat req - data_addr (map_addr mps i) - length (om_write_stream (mp_map (mps ! i)))"
proof -
  have fi: "filled mps req (Suc i) m" using f i by (simp add: filled_def)
  let ?n = "length (om_write_stream (mp_map (mps ! i)))" and ?a = "data_addr (map_addr mps i)"
  have "?a + ?n \<le> nat req" using block_offsets(5) [OF b i] by (simp add: imm_sizes)
  then have "read_bytes ?a (nat req - ?a) m = om_write_stream (mp_map (mps ! i)) @ read_bytes (?a + ?n) (nat req - ?a - ?n) m"
    using read_bytes_append [of ?a ?n "nat req - ?a - ?n" m] filled_lookup(3) [OF b fi i] by simp
  with om_rep_entries [OF rep, of "read_bytes (?a + ?n) (nat req - ?a - ?n) m"] filled_lookup(4) [OF b fi i] show ?thesis
    by (auto simp: imm_entries_def)
qed

lemma build_from_block:
  assumes ok: "set_ok V S A oms ess"
  shows "\<exists>m. build_from V S A buffer oms = Some m \<and>
    filled (b_mapping (snd (heap_size A oms))) (fst (heap_size A oms)) (length oms) m"
proof -
  obtain req b where h: "heap_size A oms = (req, b)" by fastforce
  let ?mps = "b_mapping b"
  from set_ok_block [OF ok] h have blk: "block_ok ?mps (b_offset b) req" and mm: "map mp_map ?mps = oms" by simp_all
  have len: "length ?mps = length oms" using mm by (metis length_map)
  from fill_correct [OF blk new_set_filled [OF blk, of buffer]] obtain m where
    m: "fill 0 ?mps (new_ImmutableOopMapSet (int (length ?mps)) req (write_bytes (nat req - 8) (replicate 8 255) buffer)) = Some m"
    "filled ?mps req (length ?mps) m" by auto
  have "verify V S (nat req) m"
    unfolding verify_def
  proof (intro conjI allI impI)
    show "m (nat req - 8 + i) = 255" if "i < 8" for i using m(2) that by (simp add: filled_def)
    fix i assume "i < nat (set_count m)"
    then have i: "i < length ?mps" using m(2) by (simp add: filled_def)
    then have fi: "filled ?mps req (Suc i) m" using m(2) by (simp add: filled_def)
    note o = block_offsets [OF blk i] and l = filled_lookup [OF blk fi i]
    have q: "oopmap_offset (pair_addr i) m = mp_offset (?mps ! i)" "nr_of_bytes m = req" using fi by (simp_all add: filled_def)
    then show "oopmap_offset (pair_addr i) m < nr_of_bytes m" using o by simp
    have "mp_map (?mps ! i) = oms ! i" using mm i by (metis nth_map)
    then obtain es where "om_rep V S (mp_map (?mps ! i)) es" using ok i len by (metis list_all2_nthD set_ok_def)
    from filled_entries [OF blk m(2) i this] obtain os s where
      e: "imm_entries V S (nat req) (map_addr ?mps i) m = Some (os, s)"
      "length (oms_stream s) = nat req - data_addr (map_addr ?mps i) - length (om_write_stream (mp_map (?mps ! i)))" by blast
    have "16 + 8 * int (length ?mps) + b_offset b \<le> req" using blk by (simp add: block_ok_def)
    then have "mp_offset (?mps ! i) + int (4 + length (om_write_stream (mp_map (?mps ! i)))) \<le> req"
      using o(2) by (simp add: room_def imm_sizes)
    moreover have "nat req - data_addr (map_addr ?mps i) - length (oms_stream s) = length (om_write_stream (mp_map (?mps ! i)))"
      using e(2) o(5) by (simp add: imm_sizes)
    ultimately show "case get_from (pair_addr i) m of None \<Rightarrow> False
       | Some a \<Rightarrow> (case imm_nr_of_bytes V S (nat req) a m of None \<Rightarrow> False
           | Some n \<Rightarrow> oopmap_offset (pair_addr i) m + int n \<le> nr_of_bytes m)"
      using l(2) e(1) q by (simp add: imm_nr_of_bytes_def sizeof_ImmutableOopMap_def)
  qed
  with m h len show ?thesis by (simp add: build_from_def generate_into_def)
qed

section \<open>Properties\<close>

text \<open>
  C28: packing the maps of a method and looking them up again gives the entries that were
  recorded. For maps in the order of their pcs whose block fits into an int, \<open>build_from\<close> passes
  all its checks whatever the allocated memory held, and for every map \<open>find_map_at_offset\<close>
  of its pc gives an address from which the stream reads exactly the entries of that map,
  also where the builder made maps share one copy.
\<close>

theorem build_from_correct:
  assumes "set_ok V S A oms ess"
  shows "\<exists>m. build_from V S A buffer oms = Some m \<and>
    (\<forall>i < length oms. \<exists>a os s. find_map_at_offset (om_pc_offset (oms ! i)) m = Some a \<and>
       imm_entries V S (nat (fst (heap_size A oms))) a m = Some (os, s) \<and> map entry_of os = ess ! i)"
proof -
  obtain req b where h: "heap_size A oms = (req, b)" by fastforce
  let ?mps = "b_mapping b"
  from set_ok_block [OF assms] h have blk: "block_ok ?mps (b_offset b) req" and mm: "map mp_map ?mps = oms" by simp_all
  have len: "length ?mps = length oms" using mm by (metis length_map)
  from build_from_block [OF assms, of buffer] h obtain m where m: "build_from V S A buffer oms = Some m" "filled ?mps req (length ?mps) m"
    by (auto simp: len)
  have "\<exists>a os s. find_map_at_offset (om_pc_offset (oms ! i)) m = Some a \<and>
     imm_entries V S (nat req) a m = Some (os, s) \<and> map entry_of os = ess ! i" if i: "i < length oms" for i
  proof -
    have il: "i < length ?mps" and om: "mp_map (?mps ! i) = oms ! i" using i len mm by (simp, metis nth_map)
    then have "om_rep V S (mp_map (?mps ! i)) (ess ! i)" using assms i by (simp add: set_ok_def list_all2_nthD)
    moreover have "filled ?mps req (Suc i) m" using m(2) il by (simp add: filled_def)
    ultimately show ?thesis
      using filled_entries [OF blk m(2) il] filled_lookup(1) [OF blk _ il] om by fastforce
  qed
  with m(1) h show ?thesis by auto
qed

definition sample_map :: OopMap where
  "sample_map = (case om_run sample_vm sample_stream sample_ops (new_OopMap sample_vm 12 4 0) of Some m \<Rightarrow> m | None \<Rightarrow> new_OopMap sample_vm 0 0 0)"

definition sample_maps :: "OopMap list" where
  "sample_maps = [new_OopMap sample_vm 4 4 0, new_OopMap sample_vm 8 4 0, sample_map]"

definition sample_align :: aligner where "sample_align x a = (x + a - 1) div a * a"

lemma sample_set_ok:
  "set_ok sample_vm sample_stream sample_align sample_maps [[], [], map op_entry sample_ops]"
proof -
  have nn: "om_run sample_vm sample_stream sample_ops (new_OopMap sample_vm 12 4 0) \<noteq> None" by code_simp
  have ok: "stream_ok sample_stream" "\<not> is_valid sample_vm (Bad sample_vm)" "\<forall>x \<in> set sample_ops. op_short x"
    by (simp_all add: sample_stream_ok sample_vm_def sample_ops_def fits_short_def)
  have "built sample_vm sample_stream sample_ops sample_map" using nn ok unfolding built_def sample_map_def by fastforce
  then have "list_all2 (om_rep sample_vm sample_stream) sample_maps [[], [], map op_entry sample_ops]"
    using built_rep new_OopMap_rep [OF ok(1,2)] by (simp add: sample_maps_def)
  moreover have "align_ok sample_align" by (auto simp: align_ok_def sample_align_def)
  moreover have "fst (heap_size sample_align sample_maps) < 2 ^ 31" by code_simp
  moreover have "map om_pc_offset sample_maps = [4, 8, 12]" by code_simp
  moreover from this have "fits32 (om_pc_offset om)" if "om \<in> set sample_maps" for om
    using that by (auto simp: fits32_def sample_maps_def)
  ultimately show ?thesis by (simp add: set_ok_def)
qed

theorem build_from_correct_witness:
  "\<exists>m a os s. build_from sample_vm sample_stream sample_align (\<lambda>_. 0) sample_maps = Some m \<and> find_map_at_offset 12 m = Some a \<and>
    imm_entries sample_vm sample_stream (nat (fst (heap_size sample_align sample_maps))) a m = Some (os, s) \<and>
    map entry_of os = map op_entry sample_ops"
proof -
  have pc: "om_pc_offset (sample_maps ! 2) = 12" "2 < length sample_maps" by code_simp+
  from build_from_correct [OF sample_set_ok, of "\<lambda>_. 0"] obtain m where
    m: "build_from sample_vm sample_stream sample_align (\<lambda>_. 0) sample_maps = Some m"
    "\<forall>i < length sample_maps. \<exists>a os s. find_map_at_offset (om_pc_offset (sample_maps ! i)) m = Some a \<and>
       imm_entries sample_vm sample_stream (nat (fst (heap_size sample_align sample_maps))) a m = Some (os, s) \<and>
       map entry_of os = [[], [], map op_entry sample_ops] ! i" by blast
  from m(2) [rule_format, OF pc(2)] m(1) pc(1) show ?thesis by auto
qed

end
