(* ===== verification/Oop_Walk.thy ===== *)
theory Oop_Walk
  imports Oop_Map "HOL-Library.Multiset"
begin

text \<open>
  How the collector visits the oops of a compiled frame (\<open>compiler/oopMap.cpp\<close>): \<open>OopMapSet::all_do\<close>
  with its descent into stack allocated objects (\<open>stack_oop_do\<close>, \<open>OopClosureWalker\<close>),
  \<open>update_register_map\<close> and the \<open>DerivedPointerTable\<close>.
\<close>

section \<open>Frames and closures\<close>

text \<open>
  A slot is the location of an oop or of a narrow oop. A frame gives the bounds of its stack
  slots and the locations of registers; the layout of objects (\<open>oop_iterate\<close>), the decoding of
  narrow oops, the heap and the description of the frame's objects are queries, answered by
  code outside of this component.
\<close>

datatype slot = Wide intptr | Narrow intptr

text \<open>A \<open>RegisterMap\<close> as the locations it knows.\<close>

type_synonym reg_map = "VMReg \<Rightarrow> intptr option"

record frame =
  unextended_sp :: intptr
  cb_frame_size :: nat
  oopmapreg_to_location :: "VMReg \<Rightarrow> reg_map \<Rightarrow> intptr option"

record vm =
  UseStackAllocationRuntime :: bool
  VerifyStack :: bool
  little_endian :: bool
  is_narrow_base :: "intptr \<Rightarrow> bool"
  is_in_or_null :: "intptr \<Rightarrow> bool"
  is_typeArray :: "intptr \<Rightarrow> bool"
  oop_iterate :: "intptr \<Rightarrow> slot list"
  narrow_load :: "(intptr \<Rightarrow> intptr) \<Rightarrow> intptr \<Rightarrow> intptr"
  describes_object :: "intptr \<Rightarrow> bool"

text \<open>An \<open>OopClosure\<close> changes the memory; \<open>w_calls\<close> records the slots it was called with.\<close>

type_synonym oop_closure = "slot \<Rightarrow> (intptr \<Rightarrow> intptr) \<Rightarrow> (intptr \<Rightarrow> intptr)"

record walk =
  w_mem :: "intptr \<Rightarrow> intptr"
  w_calls :: "slot list"
  w_stack_oops :: "intptr list"

definition do_oop :: "oop_closure \<Rightarrow> slot \<Rightarrow> walk \<Rightarrow> walk" where
  "do_oop cl s w = w\<lparr>w_mem := cl s (w_mem w), w_calls := w_calls w @ [s]\<rparr>"

definition stack_top :: "frame \<Rightarrow> intptr" where
  "stack_top fr = unextended_sp fr + of_nat (8 * cb_frame_size fr)"

definition in_frame :: "frame \<Rightarrow> intptr \<Rightarrow> bool" where
  "in_frame fr p \<longleftrightarrow> unextended_sp fr \<le> p \<and> p < stack_top fr"

section \<open>Stack allocated objects\<close>

text \<open>
  \<open>stack_oop_do\<close> and \<open>OopClosureWalker::do_oop\<close> call each other through \<open>oop_iterate\<close>. A visit is
  split into what happens before the descent, with the slots to descend into, and the descent.
\<close>

definition stack_oop_enter :: "vm \<Rightarrow> intptr \<Rightarrow> walk \<Rightarrow> slot list \<times> walk" where
  "stack_oop_enter vm p w =
     (let obj = w_mem w p
      in if \<not> is_typeArray vm obj then
           case append_if_missing obj (w_stack_oops w) of
             (so, True) \<Rightarrow> (oop_iterate vm obj, w\<lparr>w_stack_oops := so\<rparr>)
           | (so, False) \<Rightarrow> ([], w)
         else ([], w))"

fun walker_do_oop :: "vm \<Rightarrow> frame \<Rightarrow> oop_closure \<Rightarrow> slot \<Rightarrow> walk \<Rightarrow> (slot list \<times> walk) option" where
  "walker_do_oop vm fr cl (Wide p) w =
     (if in_frame fr (w_mem w p) then Some (stack_oop_enter vm p w) else Some ([], do_oop cl (Wide p) w))"
| "walker_do_oop vm fr cl (Narrow p) w =
     (if in_frame fr (narrow_load vm (w_mem w) p) then None else Some ([], do_oop cl (Narrow p) w))"

partial_function (option) walk_elements :: "vm \<Rightarrow> frame \<Rightarrow> oop_closure \<Rightarrow> slot list \<Rightarrow> walk \<Rightarrow> walk option" where
  "walk_elements vm fr cl ss w =
     (case ss of
        [] \<Rightarrow> Some w
      | s # ss1 \<Rightarrow>
          (case walker_do_oop vm fr cl s w of
             None \<Rightarrow> None
           | Some (es, w1) \<Rightarrow>
               Option.bind (walk_elements vm fr cl es w1) (\<lambda>w2. walk_elements vm fr cl ss1 w2)))"

definition stack_oop_do :: "vm \<Rightarrow> frame \<Rightarrow> oop_closure \<Rightarrow> intptr \<Rightarrow> walk \<Rightarrow> walk option" where
  "stack_oop_do vm fr cl p w = (case stack_oop_enter vm p w of (es, w1) \<Rightarrow> walk_elements vm fr cl es w1)"

section \<open>The oops of a frame\<close>

text \<open>The first loop of \<open>all_do\<close>: the derived oops. \<open>df base derived\<close> is the call of \<open>derived_oop_fn\<close>.\<close>

fun derived_loop :: "vm \<Rightarrow> frame \<Rightarrow> reg_map \<Rightarrow> (intptr \<Rightarrow> intptr \<Rightarrow> 's \<Rightarrow> 's option) \<Rightarrow> ('s \<Rightarrow> intptr \<Rightarrow> intptr) \<Rightarrow> OopMapValue list \<Rightarrow> 's \<Rightarrow> 's option" where
  "derived_loop vm fr rm df mem [] st = Some st"
| "derived_loop vm fr rm df mem (omv # os) st =
     (if type omv \<noteq> derived_oop_value then derived_loop vm fr rm df mem os st
      else
        (case oopmapreg_to_location fr (reg omv) rm of
           None \<Rightarrow> None
         | Some derived_loc \<Rightarrow>
             (case oopmapreg_to_location fr (content_reg omv) rm of
                None \<Rightarrow> derived_loop vm fr rm df mem os st
              | Some base_loc \<Rightarrow>
                  let base = mem st base_loc
                  in if base \<noteq> 0 \<and> \<not> is_narrow_base vm base then
                       if UseStackAllocationRuntime vm \<and> in_frame fr base then derived_loop vm fr rm df mem os st
                       else (case df base_loc derived_loc st of
                               None \<Rightarrow> None
                             | Some st1 \<Rightarrow> derived_loop vm fr rm df mem os st1)
                     else derived_loop vm fr rm df mem os st)))"

text \<open>The second loop: oops and narrow oops.\<close>

definition oop_entry :: "vm \<Rightarrow> frame \<Rightarrow> oop_closure \<Rightarrow> intptr \<Rightarrow> walk \<Rightarrow> walk option" where
  "oop_entry vm fr cl loc w =
     (let val = w_mem w loc
      in if val = 0 \<or> is_narrow_base vm val then Some w
         else if UseStackAllocationRuntime vm \<and> in_frame fr val then
           if VerifyStack vm \<and> \<not> describes_object vm val then Some w
           else stack_oop_do vm fr cl loc w
         else if is_in_or_null vm val then Some (do_oop cl (Wide loc) w) else None)"

definition narrow_slot :: "vmreg_impl \<Rightarrow> vm \<Rightarrow> VMReg \<Rightarrow> intptr \<Rightarrow> slot" where
  "narrow_slot V vm r loc = Narrow (if \<not> little_endian vm \<and> \<not> is_stack V r then loc + 4 else loc)"

fun oops_loop :: "vmreg_impl \<Rightarrow> vm \<Rightarrow> frame \<Rightarrow> reg_map \<Rightarrow> oop_closure \<Rightarrow> OopMapValue list \<Rightarrow> walk \<Rightarrow> walk option" where
  "oops_loop V vm fr rm cl [] w = Some w"
| "oops_loop V vm fr rm cl (omv # os) w =
     (case oopmapreg_to_location fr (reg omv) rm of
        None \<Rightarrow> None
      | Some loc \<Rightarrow>
          (case (if type omv = oop_value then oop_entry vm fr cl loc w
                 else if type omv = narrowoop_value then Some (do_oop cl (narrow_slot V vm (reg omv) loc) w)
                 else Some w) of
             None \<Rightarrow> None
           | Some w1 \<Rightarrow> oops_loop V vm fr rm cl os w1))"

section \<open>Derived pointers\<close>

text \<open>The lock-free stack that holds the entries is given by its \<open>push\<close>.\<close>

type_synonym dp_entry = "intptr \<times> intptr"

record derived_table =
  dp_active :: bool
  dp_list :: "dp_entry list option"
  dp_mem :: "intptr \<Rightarrow> intptr"

definition dp_is_empty :: "derived_table \<Rightarrow> bool" where
  "dp_is_empty t \<longleftrightarrow> dp_list t = None \<or> dp_list t = Some []"

definition dp_clear :: "derived_table \<Rightarrow> derived_table option" where
  "dp_clear t =
     (if \<not> dp_active t \<and> dp_is_empty t then
        Some (t\<lparr>dp_list := (case dp_list t of None \<Rightarrow> Some [] | Some l \<Rightarrow> Some l), dp_active := True\<rparr>)
      else None)"

definition dp_add :: "vm \<Rightarrow> (dp_entry \<Rightarrow> dp_entry list \<Rightarrow> dp_entry list) \<Rightarrow> intptr \<Rightarrow> intptr \<Rightarrow> derived_table \<Rightarrow> derived_table option" where
  "dp_add vm push derived_loc base_loc t =
     (if is_in_or_null vm (dp_mem t base_loc) \<and> derived_loc \<noteq> base_loc then
        if dp_active t then
          (case dp_list t of
             None \<Rightarrow> None
           | Some l \<Rightarrow>
               if dp_mem t derived_loc \<noteq> base_loc then
                 let offset = dp_mem t derived_loc - dp_mem t base_loc
                 in Some (t\<lparr>dp_mem := (dp_mem t)(derived_loc := base_loc), dp_list := Some (push (derived_loc, offset) l)\<rparr>)
               else None)
        else Some t
      else None)"

text \<open>The loop of \<open>update_pointers\<close> over the popped entries.\<close>

fun dp_update :: "vm \<Rightarrow> dp_entry list \<Rightarrow> (intptr \<Rightarrow> intptr) \<Rightarrow> (intptr \<Rightarrow> intptr) option" where
  "dp_update vm [] m = Some m"
| "dp_update vm ((derived_loc, offset) # es) m =
     (let base = m (m derived_loc)
      in if is_in_or_null vm base then dp_update vm es (m(derived_loc := base + offset)) else None)"

definition update_pointers :: "vm \<Rightarrow> derived_table \<Rightarrow> derived_table option" where
  "update_pointers vm t =
     (case dp_list t of
        None \<Rightarrow> None
      | Some l \<Rightarrow>
          (case dp_update vm l (dp_mem t) of
             None \<Rightarrow> None
           | Some m \<Rightarrow> Some (t\<lparr>dp_mem := m, dp_list := Some [], dp_active := False\<rparr>)))"

text \<open>\<open>add_derived_oop\<close> takes the base first; \<open>DerivedPointerTable::add\<close> the derived location.\<close>

definition add_derived_oop :: "vm \<Rightarrow> (dp_entry \<Rightarrow> dp_entry list \<Rightarrow> dp_entry list) \<Rightarrow> intptr \<Rightarrow> intptr \<Rightarrow> derived_table \<Rightarrow> derived_table option" where
  "add_derived_oop vm push base derived t = dp_add vm push derived base t"

text \<open>
  \<open>oops_do\<close> passes \<open>add_derived_oop\<close> to \<open>all_do\<close>: the derived oops are entered into the table
  before the closure changes their bases.
\<close>

definition all_do :: "vmreg_impl \<Rightarrow> vm \<Rightarrow> frame \<Rightarrow> reg_map \<Rightarrow> oop_closure \<Rightarrow> (intptr \<Rightarrow> intptr \<Rightarrow> derived_table \<Rightarrow> derived_table option) \<Rightarrow>
    OopMapValue list \<Rightarrow> derived_table \<Rightarrow> (derived_table \<times> slot list) option" where
  "all_do V vm fr rm cl df os t =
     (case derived_loop vm fr rm df dp_mem os t of
        None \<Rightarrow> None
      | Some t1 \<Rightarrow>
          (case oops_loop V vm fr rm cl os \<lparr>w_mem = dp_mem t1, w_calls = [], w_stack_oops = []\<rparr> of
             None \<Rightarrow> None
           | Some w \<Rightarrow> Some (t1\<lparr>dp_mem := w_mem w\<rparr>, w_calls w)))"

definition oops_do :: "vmreg_impl \<Rightarrow> vm \<Rightarrow> frame \<Rightarrow> reg_map \<Rightarrow> (dp_entry \<Rightarrow> dp_entry list \<Rightarrow> dp_entry list) \<Rightarrow> oop_closure \<Rightarrow>
    OopMapValue list \<Rightarrow> derived_table \<Rightarrow> (derived_table \<times> slot list) option" where
  "oops_do V vm fr rm push cl os t = all_do V vm fr rm cl (add_derived_oop vm push) os t"

text \<open>\<open>update_register_map\<close>: where the frame saved the registers of its caller.\<close>

fun update_register_map :: "frame \<Rightarrow> OopMapValue list \<Rightarrow> reg_map \<Rightarrow> reg_map" where
  "update_register_map fr [] locs = locs"
| "update_register_map fr (omv # os) locs =
     (if type omv = callee_saved_value
      then update_register_map fr os (locs(content_reg omv := oopmapreg_to_location fr (reg omv) locs))
      else update_register_map fr os locs)"

section \<open>What a walk visits\<close>

text \<open>
  A closure moves heap objects: it changes references, but not what kind of value a
  location holds, no reference into the frame, and none of the locations \<open>K\<close>.
\<close>

definition no_oop :: "vm \<Rightarrow> intptr \<Rightarrow> bool" where
  "no_oop vm v \<longleftrightarrow> v = 0 \<or> is_narrow_base vm v"

definition same_kind :: "intptr set \<Rightarrow> vm \<Rightarrow> frame \<Rightarrow> (intptr \<Rightarrow> intptr) \<Rightarrow> (intptr \<Rightarrow> intptr) \<Rightarrow> bool" where
  "same_kind K vm fr m m' \<longleftrightarrow> (\<forall>q. (in_frame fr (m q) \<longrightarrow> m' q = m q) \<and> in_frame fr (m' q) = in_frame fr (m q) \<and>
     no_oop vm (m' q) = no_oop vm (m q) \<and> (is_in_or_null vm (m q) \<longrightarrow> is_in_or_null vm (m' q)) \<and> (q \<in> K \<longrightarrow> m' q = m q))"

definition closure_ok :: "intptr set \<Rightarrow> vm \<Rightarrow> frame \<Rightarrow> oop_closure \<Rightarrow> bool" where
  "closure_ok K vm fr cl \<longleftrightarrow> (\<forall>s m. same_kind K vm fr m (cl s m)) \<and> (\<forall>m p. \<not> in_frame fr (narrow_load vm m p))"

lemma same_kind_refl [simp]: "same_kind K vm fr m m" by (simp add: same_kind_def)

lemma same_kind_trans: "same_kind K vm fr m m1 \<Longrightarrow> same_kind K vm fr m1 m2 \<Longrightarrow> same_kind K vm fr m m2"
  by (simp add: same_kind_def)

lemma same_kindD:
  assumes "same_kind K vm fr m m'"
  shows "in_frame fr (m q) \<Longrightarrow> m' q = m q" "in_frame fr (m' q) = in_frame fr (m q)"
    "no_oop vm (m' q) = no_oop vm (m q)" "is_in_or_null vm (m q) \<Longrightarrow> is_in_or_null vm (m' q)"
    "q \<in> K \<Longrightarrow> m' q = m q"
  using assms by (simp_all add: same_kind_def)

primrec stack_ref :: "frame \<Rightarrow> (intptr \<Rightarrow> intptr) \<Rightarrow> slot \<Rightarrow> bool" where
  "stack_ref fr m (Wide p) = in_frame fr (m p)"
| "stack_ref fr m (Narrow p) = False"

text \<open>The objects of the frame that can be reached from a set of slots.\<close>

inductive live :: "vm \<Rightarrow> frame \<Rightarrow> (intptr \<Rightarrow> intptr) \<Rightarrow> slot set \<Rightarrow> intptr \<Rightarrow> bool" for vm fr m R where
  root: "Wide p \<in> R \<Longrightarrow> in_frame fr (m p) \<Longrightarrow> \<not> is_typeArray vm (m p) \<Longrightarrow> live vm fr m R (m p)"
| field: "live vm fr m R obj \<Longrightarrow> Wide p \<in> set (oop_iterate vm obj) \<Longrightarrow> in_frame fr (m p) \<Longrightarrow> \<not> is_typeArray vm (m p) \<Longrightarrow>
    live vm fr m R (m p)"

lemma live_mono: "live vm fr m R x \<Longrightarrow> R \<subseteq> R' \<Longrightarrow> live vm fr m R' x"
  by (induction rule: live.induct) (auto intro: live.intros)

lemma live_through: "live vm fr m (set (oop_iterate vm obj)) x \<Longrightarrow> live vm fr m R obj \<Longrightarrow> live vm fr m R x"
  by (induction rule: live.induct) (auto intro: live.intros)

text \<open>A slot is handled when the object it refers to was entered, or the closure was called.\<close>

definition handled :: "vm \<Rightarrow> frame \<Rightarrow> (intptr \<Rightarrow> intptr) \<Rightarrow> walk \<Rightarrow> slot \<Rightarrow> bool" where
  "handled vm fr m w s \<longleftrightarrow> (if stack_ref fr m s then
     (\<forall>p. s = Wide p \<longrightarrow> is_typeArray vm (m p) \<or> m p \<in> set (w_stack_oops w)) else s \<in> set (w_calls w))"

definition entered :: "walk \<Rightarrow> walk \<Rightarrow> intptr set" where
  "entered w w' = set (w_stack_oops w') - set (w_stack_oops w)"

definition walks :: "intptr set \<Rightarrow> vm \<Rightarrow> frame \<Rightarrow> (intptr \<Rightarrow> intptr) \<Rightarrow> slot list \<Rightarrow> walk \<Rightarrow> walk \<Rightarrow> bool" where
  "walks K vm fr m ss w w' \<longleftrightarrow> same_kind K vm fr m (w_mem w') \<and> set (w_stack_oops w) \<subseteq> set (w_stack_oops w') \<and>
     (\<exists>new. w_calls w' = w_calls w @ new \<and> (\<forall>s \<in> set new. \<not> stack_ref fr m s) \<and>
        mset new \<subseteq># mset ss + (\<Sum>obj \<in> entered w w'. mset (oop_iterate vm obj))) \<and>
     (\<forall>s \<in> set ss. handled vm fr m w' s) \<and>
     (\<forall>obj \<in> entered w w'. live vm fr m (set ss) obj \<and> (\<forall>s \<in> set (oop_iterate vm obj). handled vm fr m w' s))"

lemma walksD:
  assumes "walks K vm fr m ss w w'"
  shows "same_kind K vm fr m (w_mem w')" "set (w_stack_oops w) \<subseteq> set (w_stack_oops w')" "set (w_calls w) \<subseteq> set (w_calls w')"
    "s \<in> set ss \<Longrightarrow> handled vm fr m w' s" "obj \<in> entered w w' \<Longrightarrow> live vm fr m (set ss) obj"
    "obj \<in> entered w w' \<Longrightarrow> s \<in> set (oop_iterate vm obj) \<Longrightarrow> handled vm fr m w' s"
  using assms by (auto simp: walks_def)

lemma handled_mono:
  "handled vm fr m w s \<Longrightarrow> set (w_stack_oops w) \<subseteq> set (w_stack_oops w') \<Longrightarrow> set (w_calls w) \<subseteq> set (w_calls w') \<Longrightarrow>
     handled vm fr m w' s"
  by (auto simp: handled_def split: if_splits)

lemma walks_refl: "same_kind K vm fr m (w_mem w) \<Longrightarrow> walks K vm fr m [] w w"
  by (simp add: walks_def entered_def)

lemma walks_trans:
  assumes a: "walks K vm fr m ss w w1" and b: "walks K vm fr m ts w1 w2"
  shows "walks K vm fr m (ss @ ts) w w2"
proof -
  have e: "entered w w2 = entered w w1 \<union> entered w1 w2" "entered w w1 \<inter> entered w1 w2 = {}"
    using walksD(2) [OF a] walksD(2) [OF b] by (auto simp: entered_def)
  have fin: "finite (entered w w1)" "finite (entered w1 w2)" by (simp_all add: entered_def)
  from a obtain n1 where n1: "w_calls w1 = w_calls w @ n1" "\<forall>s \<in> set n1. \<not> stack_ref fr m s"
    "mset n1 \<subseteq># mset ss + (\<Sum>obj \<in> entered w w1. mset (oop_iterate vm obj))" by (auto simp: walks_def)
  from b obtain n2 where n2: "w_calls w2 = w_calls w1 @ n2" "\<forall>s \<in> set n2. \<not> stack_ref fr m s"
    "mset n2 \<subseteq># mset ts + (\<Sum>obj \<in> entered w1 w2. mset (oop_iterate vm obj))" by (auto simp: walks_def)
  have "mset (n1 @ n2) \<subseteq># mset (ss @ ts) + (\<Sum>obj \<in> entered w w2. mset (oop_iterate vm obj))"
    using subset_mset.add_mono [OF n1(3) n2(3)] unfolding e(1) sum.union_disjoint [OF fin e(2)] by (simp add: ac_simps)
  moreover have "handled vm fr m w2 s" if "handled vm fr m w1 s" for s
    using handled_mono [OF that] walksD(2,3) [OF b] by blast
  moreover have "live vm fr m (set (ss @ ts)) obj" if "obj \<in> entered w w2" for obj
    using that live_mono [OF walksD(5) [OF a], of obj "set (ss @ ts)"] live_mono [OF walksD(5) [OF b], of obj "set (ss @ ts)"]
    unfolding e(1) by auto
  ultimately show ?thesis
    using n1 n2 walksD [OF a] walksD [OF b] unfolding walks_def e(1) by (fastforce intro!: exI [of _ "n1 @ n2"])
qed

lemma walks_do_oop:
  assumes "closure_ok K vm fr cl" and "same_kind K vm fr m (w_mem w)" and "\<not> stack_ref fr m s"
  shows "walks K vm fr m [s] w (do_oop cl s w)"
  using assms same_kind_trans [OF assms(2)]
  by (auto simp: walks_def do_oop_def entered_def handled_def closure_ok_def)

lemma sub_add_mset: "A \<subseteq># B \<Longrightarrow> A \<subseteq># add_mset x B"
  by (metis add_mset_add_single mset_subset_eq_add_left subset_mset.order_trans)

lemma walks_enter:
  assumes k: "same_kind K vm fr m (w_mem w)" and p: "in_frame fr (m p)" and e: "stack_oop_enter vm p w = (es, w1)"
    and d: "walks K vm fr m es w1 w2"
  shows "walks K vm fr m [Wide p] w w2"
proof -
  have mp: "w_mem w p = m p" using same_kindD(1) [OF k p] .
  show ?thesis
  proof (cases "\<not> is_typeArray vm (m p) \<and> m p \<notin> set (w_stack_oops w)")
    case False
    then have "es = []" "w1 = w" using e by (auto simp: stack_oop_enter_def mp Let_def split: if_splits)
    moreover have "handled vm fr m w2 (Wide p)" using False p walksD(2) [OF d] \<open>w1 = w\<close> by (auto simp: handled_def)
    moreover have "entered w w2 = {}"
    proof -
      have "\<not> live vm fr m {} x" for x
      proof
        assume "live vm fr m {} x" then show False by induction auto
      qed
      with walksD(5) [OF d] \<open>es = []\<close> \<open>w1 = w\<close> show ?thesis by auto
    qed
    ultimately show ?thesis using d p by (auto simp: walks_def)
  next
    case True
    then have ew: "es = oop_iterate vm (m p)" "w1 = w\<lparr>w_stack_oops := w_stack_oops w @ [m p]\<rparr>"
      using e by (simp_all add: stack_oop_enter_def mp Let_def)
    have en: "entered w w2 = insert (m p) (entered w1 w2)" "m p \<notin> entered w1 w2"
      using walksD(2) [OF d] True by (auto simp: entered_def ew(2))
    have lp: "live vm fr m {Wide p} (m p)" using True p by (auto intro: live.root)
    have "handled vm fr m w2 (Wide p)" using p walksD(2) [OF d] by (auto simp: handled_def ew(2))
    moreover have "live vm fr m {Wide p} obj" if "obj \<in> entered w1 w2" for obj
      using walksD(5) [OF d that] ew(1) lp by (simp add: live_through)
    moreover have fin: "finite (entered w1 w2)" by (simp add: entered_def)
    ultimately show ?thesis
      using d lp walksD(4) [OF d] walksD(6) [OF d] en(2) unfolding walks_def en(1) sum.insert [OF fin en(2)]
      by (auto simp: ew intro: sub_add_mset)
  qed
qed

lemma walk_elements_correct:
  assumes cl: "closure_ok K vm fr cl" and "same_kind K vm fr m (w_mem w)"
  shows "\<exists>w'. walk_elements vm fr cl ss w = Some w' \<and> walks K vm fr m ss w w'"
  using assms(2)
proof (induction "(ss, w)" arbitrary: ss w rule: wf_induct_rule [OF wf_measures
      [of "[\<lambda>(ss, w). card (- set (w_stack_oops w)), \<lambda>(ss, w). length ss]"]])
  case 1
  show ?case
  proof (cases ss)
    case Nil
    then show ?thesis by (subst walk_elements.simps) (simp add: walks_refl 1)
  next
    case (Cons s ss1)
    have nn: "\<not> in_frame fr (narrow_load vm (w_mem w) p)" for p using cl by (simp add: closure_ok_def)
    have "walker_do_oop vm fr cl s w \<noteq> None" by (cases s) (simp_all add: nn)
    then obtain es w1 where st: "walker_do_oop vm fr cl s w = Some (es, w1)" by auto
    have next1: "\<exists>w2. walk_elements vm fr cl es w1 = Some w2 \<and> walks K vm fr m [s] w w2"
    proof (cases "\<exists>p. s = Wide p \<and> in_frame fr (m p)")
      case True
      then obtain p where p: "s = Wide p" "in_frame fr (m p)" by blast
      then have mp: "w_mem w p = m p" using same_kindD(1) [OF "1.prems"] by simp
      have e: "stack_oop_enter vm p w = (es, w1)" using st p mp by simp
      have "\<exists>w2. walk_elements vm fr cl es w1 = Some w2 \<and> walks K vm fr m es w1 w2"
      proof (cases "es = []")
        case True
        have "same_kind K vm fr m (w_mem w1)"
          using e "1.prems" by (auto simp: stack_oop_enter_def append_if_missing_def Let_def split: if_splits)
        with True show ?thesis by (subst walk_elements.simps) (simp add: walks_refl)
      next
        case False
        then have w1: "w1 = w\<lparr>w_stack_oops := w_stack_oops w @ [m p]\<rparr>" "m p \<notin> set (w_stack_oops w)"
          using e by (auto simp: stack_oop_enter_def append_if_missing_def mp Let_def split: if_splits)
        then have "- set (w_stack_oops w1) \<subset> - set (w_stack_oops w)" by auto
        then have "card (- set (w_stack_oops w1)) < card (- set (w_stack_oops w))" by (intro psubset_card_mono) simp_all
        then show ?thesis using "1.prems" by (intro 1(1)) (auto simp: w1)
      qed
      with walks_enter [OF "1.prems" p(2) e] p(1) show ?thesis by blast
    next
      case False
      then have "\<not> stack_ref fr m s" by (cases s) auto
      moreover have "es = [] \<and> w1 = do_oop cl s w"
        using st False same_kindD(2) [OF "1.prems"] by (cases s) (auto split: if_splits)
      ultimately show ?thesis using walks_do_oop [OF cl "1.prems"] by (subst walk_elements.simps) simp
    qed
    then obtain w2 where w2: "walk_elements vm fr cl es w1 = Some w2" "walks K vm fr m [s] w w2" by blast
    have "card (- set (w_stack_oops w2)) \<le> card (- set (w_stack_oops w))"
      using walksD(2) [OF w2(2)] by (intro card_mono) auto
    then have "\<exists>w'. walk_elements vm fr cl ss1 w2 = Some w' \<and> walks K vm fr m ss1 w2 w'"
      using walksD(1) [OF w2(2)] Cons by (intro 1(1)) auto
    then obtain w3 where w3: "walk_elements vm fr cl ss1 w2 = Some w3" "walks K vm fr m ss1 w2 w3" by blast
    from walks_trans [OF w2(2) w3(2)] w2(1) w3(1) st Cons show ?thesis by (subst walk_elements.simps) simp
  qed
qed

section \<open>The frame\<close>

text \<open>The slots the second loop starts from: oop slots that hold an oop, and narrow slots.\<close>

definition frame_slots :: "vmreg_impl \<Rightarrow> vm \<Rightarrow> frame \<Rightarrow> reg_map \<Rightarrow> (intptr \<Rightarrow> intptr) \<Rightarrow> OopMapValue list \<Rightarrow> slot list" where
  "frame_slots V vm fr rm m os = concat (map (\<lambda>omv.
     (case oopmapreg_to_location fr (reg omv) rm of
        None \<Rightarrow> []
      | Some loc \<Rightarrow>
          if type omv = oop_value then
            if no_oop vm (m loc) \<or> in_frame fr (m loc) \<and> VerifyStack vm \<and> \<not> describes_object vm (m loc) then [] else [Wide loc]
          else if type omv = narrowoop_value then [narrow_slot V vm (reg omv) loc] else [])) os)"

text \<open>Every register of the map has a location, and oops outside of the frame are in the heap.\<close>

definition frame_ok :: "vm \<Rightarrow> frame \<Rightarrow> reg_map \<Rightarrow> (intptr \<Rightarrow> intptr) \<Rightarrow> OopMapValue list \<Rightarrow> bool" where
  "frame_ok vm fr rm m os \<longleftrightarrow> UseStackAllocationRuntime vm \<and>
     (\<forall>omv \<in> set os. \<exists>loc. oopmapreg_to_location fr (reg omv) rm = Some loc \<and>
        (type omv = oop_value \<longrightarrow> no_oop vm (m loc) \<or> in_frame fr (m loc) \<or> is_in_or_null vm (m loc)))"

lemma stack_oop_do_walks:
  assumes cl: "closure_ok K vm fr cl" and k: "same_kind K vm fr m (w_mem w)" and p: "in_frame fr (m p)"
  shows "\<exists>w'. stack_oop_do vm fr cl p w = Some w' \<and> walks K vm fr m [Wide p] w w'"
proof -
  obtain es w1 where e: "stack_oop_enter vm p w = (es, w1)" by fastforce
  then have "same_kind K vm fr m (w_mem w1)"
    using k by (auto simp: stack_oop_enter_def append_if_missing_def Let_def split: if_splits)
  from walk_elements_correct [OF cl this, of es] walks_enter [OF k p e] e show ?thesis
    by (auto simp: stack_oop_do_def)
qed

lemma oop_entry_walks:
  assumes cl: "closure_ok K vm fr cl" and k: "same_kind K vm fr m (w_mem w)" and u: "UseStackAllocationRuntime vm"
    and h: "no_oop vm (m loc) \<or> in_frame fr (m loc) \<or> is_in_or_null vm (m loc)"
  shows "\<exists>w'. oop_entry vm fr cl loc w = Some w' \<and>
    walks K vm fr m (if no_oop vm (m loc) \<or> in_frame fr (m loc) \<and> VerifyStack vm \<and> \<not> describes_object vm (m loc) then [] else [Wide loc]) w w'"
proof -
  note q = same_kindD [OF k, of loc]
  consider "no_oop vm (m loc)" | "\<not> no_oop vm (m loc)" "in_frame fr (m loc)" | "\<not> no_oop vm (m loc)" "\<not> in_frame fr (m loc)" by blast
  then show ?thesis
  proof cases
    case 1
    then show ?thesis using q(3) walks_refl [OF k] by (auto simp: oop_entry_def no_oop_def Let_def)
  next
    case 2
    then have "w_mem w loc = m loc" using q by simp
    with 2 u stack_oop_do_walks [OF cl k 2(2)] walks_refl [OF k] show ?thesis by (auto simp: oop_entry_def no_oop_def Let_def)
  next
    case 3
    then have "\<not> no_oop vm (w_mem w loc)" "\<not> in_frame fr (w_mem w loc)" "is_in_or_null vm (w_mem w loc)" using q h by simp_all
    with 3 walks_do_oop [OF cl k, of "Wide loc"] show ?thesis by (auto simp: oop_entry_def no_oop_def Let_def)
  qed
qed

lemma oops_loop_correct:
  assumes cl: "closure_ok K vm fr cl" and "same_kind K vm fr m (w_mem w)" and "frame_ok vm fr rm m os"
  shows "\<exists>w'. oops_loop V vm fr rm cl os w = Some w' \<and> walks K vm fr m (frame_slots V vm fr rm m os) w w'"
  using assms(2,3)
proof (induction os arbitrary: w)
  case Nil
  then show ?case by (simp add: frame_slots_def walks_refl)
next
  case (Cons omv os)
  from Cons.prems(2) obtain loc where loc: "oopmapreg_to_location fr (reg omv) rm = Some loc" and u: "UseStackAllocationRuntime vm"
    and h: "type omv = oop_value \<longrightarrow> no_oop vm (m loc) \<or> in_frame fr (m loc) \<or> is_in_or_null vm (m loc)" by (auto simp: frame_ok_def)
  have "\<not> stack_ref fr m (narrow_slot V vm r l)" for r l by (simp add: narrow_slot_def)
  from walks_do_oop [OF cl Cons.prems(1) this, of "reg omv" loc] oop_entry_walks [OF cl Cons.prems(1) u] h
    walks_refl [OF Cons.prems(1)]
  obtain w1 where w1: "(if type omv = oop_value then oop_entry vm fr cl loc w
       else if type omv = narrowoop_value then Some (do_oop cl (narrow_slot V vm (reg omv) loc) w) else Some w) = Some w1"
    "walks K vm fr m (frame_slots V vm fr rm m [omv]) w w1"
    by (cases "type omv = oop_value"; cases "type omv = narrowoop_value") (auto simp: frame_slots_def loc)
  have "frame_ok vm fr rm m os" using Cons.prems(2) by (simp add: frame_ok_def)
  from Cons.IH [OF walksD(1) [OF w1(2)] this] obtain w2 where
    w2: "oops_loop V vm fr rm cl os w1 = Some w2" "walks K vm fr m (frame_slots V vm fr rm m os) w1 w2" by blast
  have "frame_slots V vm fr rm m (omv # os) = frame_slots V vm fr rm m [omv] @ frame_slots V vm fr rm m os" by (simp add: frame_slots_def)
  with walks_trans [OF w1(2) w2(2)] w1(1) w2(1) loc show ?case by simp
qed

text \<open>Starting with nothing visited, the calls are exactly the heap references of the frame and of its live objects.\<close>

lemma walks_fresh:
  assumes w: "walks K vm fr m ss w w'" and f: "w_calls w = []" "w_stack_oops w = []"
  shows "set (w_stack_oops w') = {obj. live vm fr m (set ss) obj}"
    "set (w_calls w') = {s. \<not> stack_ref fr m s \<and> (s \<in> set ss \<or> (\<exists>obj. live vm fr m (set ss) obj \<and> s \<in> set (oop_iterate vm obj)))}"
    "mset (w_calls w') \<subseteq># mset ss + (\<Sum>obj \<in> {obj. live vm fr m (set ss) obj}. mset (oop_iterate vm obj))"
proof -
  have e: "entered w w' = set (w_stack_oops w')" using f by (simp add: entered_def)
  note d = walksD [OF w, unfolded e]
  have "obj \<in> set (w_stack_oops w')" if "live vm fr m (set ss) obj" for obj
    using that
  proof induction
    case (root p)
    with d(4) [of "Wide p"] show ?case by (simp add: handled_def)
  next
    case (field obj p)
    with d(6) [OF field.IH, of "Wide p"] show ?case by (simp add: handled_def)
  qed
  with d(5) show so: "set (w_stack_oops w') = {obj. live vm fr m (set ss) obj}" by blast
  from w f obtain new where n: "w_calls w' = new" "\<forall>s \<in> set new. \<not> stack_ref fr m s"
    "mset new \<subseteq># mset ss + (\<Sum>obj \<in> entered w w'. mset (oop_iterate vm obj))" by (auto simp: walks_def)
  then show "mset (w_calls w') \<subseteq># mset ss + (\<Sum>obj \<in> {obj. live vm fr m (set ss) obj}. mset (oop_iterate vm obj))"
    by (simp add: e so)
  have "s \<in> set ss \<or> (\<exists>obj. live vm fr m (set ss) obj \<and> s \<in> set (oop_iterate vm obj))" if "s \<in> set new" for s
  proof -
    from that mset_subset_eqD [OF n(3), of s] have "s \<in># mset ss + (\<Sum>obj \<in> set (w_stack_oops w'). mset (oop_iterate vm obj))" by (simp add: e)
    then show ?thesis using so by (auto simp: set_mset_sum)
  qed
  moreover have "s \<in> set (w_calls w')"
    if "\<not> stack_ref fr m s" "s \<in> set ss \<or> (\<exists>obj. live vm fr m (set ss) obj \<and> s \<in> set (oop_iterate vm obj))" for s
    using that d(4) [of s] d(6) [of _ s] so by (auto simp: handled_def)
  ultimately show "set (w_calls w') = {s. \<not> stack_ref fr m s \<and> (s \<in> set ss \<or> (\<exists>obj. live vm fr m (set ss) obj \<and> s \<in> set (oop_iterate vm obj)))}"
    using n(1,2) by blast
qed

section \<open>Derived pointers\<close>

text \<open>The pairs of a derived location and the location of its base that the first loop enters.\<close>

definition derived_pairs :: "vm \<Rightarrow> frame \<Rightarrow> reg_map \<Rightarrow> (intptr \<Rightarrow> intptr) \<Rightarrow> OopMapValue list \<Rightarrow> (intptr \<times> intptr) list" where
  "derived_pairs vm fr rm m os = concat (map (\<lambda>omv.
     if type omv \<noteq> derived_oop_value then []
     else (case (oopmapreg_to_location fr (reg omv) rm, oopmapreg_to_location fr (content_reg omv) rm) of
             (Some d, Some b) \<Rightarrow>
               if no_oop vm (m b) \<or> UseStackAllocationRuntime vm \<and> in_frame fr (m b) then [] else [(d, b)]
           | _ \<Rightarrow> [])) os)"

definition redirect :: "(intptr \<Rightarrow> intptr) \<Rightarrow> (intptr \<times> intptr) list \<Rightarrow> intptr \<Rightarrow> intptr" where
  "redirect m ps q = (case map_of ps q of None \<Rightarrow> m q | Some b \<Rightarrow> b)"

definition dp_entries :: "(intptr \<Rightarrow> intptr) \<Rightarrow> (intptr \<times> intptr) list \<Rightarrow> dp_entry list" where
  "dp_entries m ps = map (\<lambda>(d, b). (d, m d - m b)) ps"

definition pairs_ok :: "vm \<Rightarrow> (intptr \<Rightarrow> intptr) \<Rightarrow> (intptr \<times> intptr) list \<Rightarrow> bool" where
  "pairs_ok vm m ps \<longleftrightarrow> distinct (map fst ps) \<and>
     (\<forall>(d, b) \<in> set ps. b \<notin> fst ` set ps \<and> m d \<noteq> b \<and> is_in_or_null vm (m b))"

definition push_ok :: "(dp_entry \<Rightarrow> dp_entry list \<Rightarrow> dp_entry list) \<Rightarrow> bool" where
  "push_ok push \<longleftrightarrow> (\<forall>e l. mset (push e l) = add_mset e (mset l))"

lemma redirect_other: "q \<notin> fst ` set ps \<Longrightarrow> redirect m ps q = m q"
  by (simp add: redirect_def map_of_eq_None_iff [THEN iffD2])

lemma redirect_Nil: "redirect m [] = m"
  by (rule ext) (simp add: redirect_def)

lemma redirect_snoc: "d \<notin> fst ` set ps \<Longrightarrow> redirect m (ps @ [(d, b)]) = (redirect m ps)(d := b)"
proof
  fix q assume "d \<notin> fst ` set ps"
  then have "map_of ps d = None" by (simp add: map_of_eq_None_iff)
  then show "redirect m (ps @ [(d, b)]) q = ((redirect m ps)(d := b)) q"
    by (auto simp: redirect_def map_add_def split: option.splits)
qed

text \<open>What the table holds after the pairs \<open>ps\<close> were entered.\<close>

definition dp_holds :: "(intptr \<Rightarrow> intptr) \<Rightarrow> (intptr \<times> intptr) list \<Rightarrow> derived_table \<Rightarrow> bool" where
  "dp_holds m ps t \<longleftrightarrow> dp_active t \<and> dp_mem t = redirect m ps \<and> (\<exists>l. dp_list t = Some l \<and> mset l = mset (dp_entries m ps))"

lemma dp_add_holds:
  assumes h: "dp_holds m ps t" and pu: "push_ok push" and ok: "pairs_ok vm m (ps @ [(d, b)] @ qs)"
  shows "\<exists>t'. dp_add vm push d b t = Some t' \<and> dp_holds m (ps @ [(d, b)]) t'"
proof -
  from ok have d: "d \<notin> fst ` set ps" "b \<notin> fst ` set ps" "b \<noteq> d" "m d \<noteq> b" "is_in_or_null vm (m b)"
    by (auto simp: pairs_ok_def)
  from h obtain l where l: "dp_active t" "dp_mem t = redirect m ps" "dp_list t = Some l" "mset l = mset (dp_entries m ps)"
    by (auto simp: dp_holds_def)
  let ?t = "t\<lparr>dp_mem := (redirect m ps)(d := b), dp_list := Some (push (d, m d - m b) l)\<rparr>"
  have "dp_add vm push d b t = Some ?t" using d l by (simp add: dp_add_def redirect_other Let_def)
  moreover have "dp_holds m (ps @ [(d, b)]) ?t"
    using l pu by (simp add: dp_holds_def redirect_snoc [OF d(1)] push_ok_def dp_entries_def)
  ultimately show ?thesis by blast
qed

lemma derived_loop_correct:
  assumes pu: "push_ok push" and "dp_holds m ps t" and "pairs_ok vm m (ps @ derived_pairs vm fr rm m os)"
    and "\<forall>omv \<in> set os. \<exists>loc. oopmapreg_to_location fr (reg omv) rm = Some loc"
    and "\<forall>omv \<in> set os. \<forall>b. type omv = derived_oop_value \<and> oopmapreg_to_location fr (content_reg omv) rm = Some b \<longrightarrow>
      b \<notin> fst ` set (ps @ derived_pairs vm fr rm m os)"
  shows "\<exists>t'. derived_loop vm fr rm (add_derived_oop vm push) dp_mem os t = Some t' \<and>
    dp_holds m (ps @ derived_pairs vm fr rm m os) t'"
  using assms(2-5)
proof (induction os arbitrary: ps t)
  case Nil
  then show ?case by (simp add: derived_pairs_def)
next
  case (Cons omv os)
  let ?one = "derived_pairs vm fr rm m [omv]"
  have app: "derived_pairs vm fr rm m (omv # os) = ?one @ derived_pairs vm fr rm m os" by (simp add: derived_pairs_def)
  from Cons.prems(3) obtain d where d: "oopmapreg_to_location fr (reg omv) rm = Some d" by auto
  have step: "\<exists>t1. derived_loop vm fr rm (add_derived_oop vm push) dp_mem (omv # os) t =
      derived_loop vm fr rm (add_derived_oop vm push) dp_mem os t1 \<and> dp_holds m (ps @ ?one) t1"
  proof (cases "type omv = derived_oop_value \<and> oopmapreg_to_location fr (content_reg omv) rm \<noteq> None")
    case False
    then have "?one = []" by (auto simp: derived_pairs_def split: option.splits)
    moreover have "derived_loop vm fr rm (add_derived_oop vm push) dp_mem (omv # os) t =
        derived_loop vm fr rm (add_derived_oop vm push) dp_mem os t" using False d by auto
    ultimately show ?thesis using Cons.prems(1) by auto
  next
    case True
    then obtain b where b: "oopmapreg_to_location fr (content_reg omv) rm = Some b" by auto
    have "b \<notin> fst ` set ps" using Cons.prems(4) True b by auto
    then have mb: "dp_mem t b = m b" using Cons.prems(1) by (simp add: dp_holds_def redirect_other)
    show ?thesis
    proof (cases "no_oop vm (m b) \<or> UseStackAllocationRuntime vm \<and> in_frame fr (m b)")
      case skip: True
      then have "?one = []" using d b by (simp add: derived_pairs_def)
      with True d b mb skip Cons.prems(1) show ?thesis by (auto simp: no_oop_def Let_def)
    next
      case False
      then have one: "?one = [(d, b)]" using True d b by (simp add: derived_pairs_def)
      with dp_add_holds [OF Cons.prems(1) pu, of vm d b "derived_pairs vm fr rm m os"] Cons.prems(2) app obtain t1 where
        "dp_add vm push d b t = Some t1" "dp_holds m (ps @ [(d, b)]) t1" by auto
      with True d b mb False one show ?thesis by (auto simp: no_oop_def Let_def add_derived_oop_def)
    qed
  qed
  then obtain t1 where t1: "derived_loop vm fr rm (add_derived_oop vm push) dp_mem (omv # os) t =
      derived_loop vm fr rm (add_derived_oop vm push) dp_mem os t1" "dp_holds m (ps @ ?one) t1" by blast
  have "pairs_ok vm m ((ps @ ?one) @ derived_pairs vm fr rm m os)" using Cons.prems(2) app by simp
  from Cons.IH [OF t1(2) this] Cons.prems(3,4) app t1(1) show ?case by auto
qed

lemma dp_update_correct:
  assumes "distinct (map fst l)" and "\<forall>(d, off) \<in> set l. m d \<notin> fst ` set l \<and> is_in_or_null vm (m (m d))"
  shows "\<exists>m'. dp_update vm l m = Some m' \<and> (\<forall>q. m' q = (case map_of l q of None \<Rightarrow> m q | Some off \<Rightarrow> m (m q) + off))"
  using assms
proof (induction l arbitrary: m)
  case (Cons e l)
  obtain d off where e: "e = (d, off)" by (cases e)
  let ?m = "m(d := m (m d) + off)"
  have dl: "d \<notin> fst ` set l" using Cons.prems(1) e by simp
  have "\<forall>(d', off') \<in> set l. ?m d' \<notin> fst ` set l \<and> is_in_or_null vm (?m (?m d'))"
  proof
    fix x assume x: "x \<in> set l"
    obtain d' off' where x': "x = (d', off')" by (cases x)
    with x dl have "d' \<noteq> d" by (metis fst_conv image_eqI)
    moreover have "m d' \<notin> fst ` set (e # l) \<and> is_in_or_null vm (m (m d'))"
      using bspec [OF Cons.prems(2), of "(d', off')"] x x' by simp
    ultimately show "case x of (d', off') \<Rightarrow> ?m d' \<notin> fst ` set l \<and> is_in_or_null vm (?m (?m d'))" using x' e by simp
  qed
  moreover have "distinct (map fst l)" using Cons.prems(1) by simp
  ultimately obtain m' where m': "dp_update vm l ?m = Some m'"
    "\<forall>q. m' q = (case map_of l q of None \<Rightarrow> ?m q | Some off \<Rightarrow> ?m (?m q) + off)" using Cons.IH [of ?m] by blast
  have "m' q = (case map_of (e # l) q of None \<Rightarrow> m q | Some off \<Rightarrow> m (m q) + off)" for q
  proof (cases "q = d")
    case True
    then have "map_of l q = None" using dl by (simp add: map_of_eq_None_iff)
    with True m'(2) e show ?thesis by simp
  next
    case False
    have "m q \<noteq> d" if "map_of l q = Some off'" for off'
      using Cons.prems(2) map_of_SomeD [OF that] e by auto
    with False m'(2) e show ?thesis by (auto split: option.splits)
  qed
  with m'(1) Cons.prems(2) e show ?case by (auto simp: Let_def)
qed simp

lemma redirect_pair:
  assumes "pairs_ok vm m ps" and "(d, b) \<in> set ps"
  shows "redirect m ps d = b" "redirect m ps b = m b" "map_of (dp_entries m ps) d = Some (m d - m b)"
proof -
  have dist: "distinct (map fst ps)" and "b \<notin> fst ` set ps" using assms by (auto simp: pairs_ok_def)
  then show "redirect m ps b = m b" by (intro redirect_other)
  show "redirect m ps d = b" using map_of_is_SomeI [OF dist assms(2)] by (simp add: redirect_def)
  have "distinct (map fst (dp_entries m ps))" using dist by (simp add: dp_entries_def comp_def split_beta)
  moreover have "(d, m d - m b) \<in> set (dp_entries m ps)" using assms(2) by (force simp: dp_entries_def)
  ultimately show "map_of (dp_entries m ps) d = Some (m d - m b)" by (rule map_of_is_SomeI)
qed

lemma update_pointers_correct:
  assumes h: "dp_holds m ps t" and ok: "pairs_ok vm m ps" and k: "same_kind K vm fr (redirect m ps) m1" "K = fst ` set ps"
  shows "\<exists>t'. update_pointers vm (t\<lparr>dp_mem := m1\<rparr>) = Some t' \<and> \<not> dp_active t' \<and> dp_is_empty t' \<and>
    (\<forall>(d, b) \<in> set ps. dp_mem t' d = m1 b + (m d - m b)) \<and> (\<forall>q. q \<notin> fst ` set ps \<longrightarrow> dp_mem t' q = m1 q)"
proof -
  from h obtain l where l: "dp_list t = Some l" "mset l = mset (dp_entries m ps)" by (auto simp: dp_holds_def)
  have de: "distinct (map fst (dp_entries m ps))" "fst ` set (dp_entries m ps) = fst ` set ps"
    using ok by (auto simp: pairs_ok_def dp_entries_def comp_def split_beta image_image)
  have sl: "set l = set (dp_entries m ps)" using l(2) by (rule mset_eq_setD)
  have "mset (map fst l) = mset (map fst (dp_entries m ps))" using l(2) by simp
  then have dl: "distinct (map fst l)" using de(1) by (metis mset_eq_imp_distinct_iff)
  have pair: "m1 d = b \<and> b \<notin> fst ` set ps \<and> is_in_or_null vm (m1 b)" if "(d, b) \<in> set ps" for d b
  proof -
    note r = redirect_pair [OF ok that]
    have "m1 d = b" using same_kindD(5) [OF k(1), of d] that k(2) r(1) by force
    moreover have "b \<notin> fst ` set ps" "is_in_or_null vm (m b)" using ok that by (auto simp: pairs_ok_def)
    ultimately show ?thesis using same_kindD(4) [OF k(1), of b] r(2) by simp
  qed
  have "\<forall>(d, off) \<in> set l. m1 d \<notin> fst ` set l \<and> is_in_or_null vm (m1 (m1 d))"
    unfolding sl de(2) using pair by (auto simp: dp_entries_def)
  from dp_update_correct [OF dl this] obtain m' where
    m': "dp_update vm l m1 = Some m'" "\<forall>q. m' q = (case map_of l q of None \<Rightarrow> m1 q | Some off \<Rightarrow> m1 (m1 q) + off)" by blast
  have lm: "map_of l = map_of (dp_entries m ps)" using map_of_inject_set [OF dl de(1)] sl by simp
  have "m' d = m1 b + (m d - m b)" if "(d, b) \<in> set ps" for d b
    using m'(2) redirect_pair(3) [OF ok that] pair [OF that] by (simp add: lm)
  moreover have "m' q = m1 q" if "q \<notin> fst ` set ps" for q
    using that m'(2) de(2) by (simp add: lm map_of_eq_None_iff [THEN iffD2])
  ultimately show ?thesis using m'(1) l(1) by (auto simp: update_pointers_def dp_is_empty_def)
qed

text \<open>
  The setting of a collection: the table was cleared, the closure leaves the derived
  locations alone, and the pairs and slots of the frame are in order.
\<close>

definition gc_ok :: "vm \<Rightarrow> frame \<Rightarrow> reg_map \<Rightarrow> (dp_entry \<Rightarrow> dp_entry list \<Rightarrow> dp_entry list) \<Rightarrow> oop_closure \<Rightarrow> OopMapValue list \<Rightarrow> derived_table \<Rightarrow> bool" where
  "gc_ok vm fr rm push cl os t \<longleftrightarrow>
     (let m = dp_mem t; ps = derived_pairs vm fr rm m os
      in push_ok push \<and> dp_active t \<and> dp_list t = Some [] \<and> closure_ok (fst ` set ps) vm fr cl \<and> pairs_ok vm m ps \<and>
         frame_ok vm fr rm (redirect m ps) os \<and>
         (\<forall>omv \<in> set os. \<forall>b. type omv = derived_oop_value \<and> oopmapreg_to_location fr (content_reg omv) rm = Some b \<longrightarrow> b \<notin> fst ` set ps))"

lemma oops_do_result:
  assumes "gc_ok vm fr rm push cl os t"
  defines "m \<equiv> dp_mem t"
  defines "ps \<equiv> derived_pairs vm fr rm m os"
  shows "\<exists>t1 w. oops_do V vm fr rm push cl os t = Some (t1\<lparr>dp_mem := w_mem w\<rparr>, w_calls w) \<and> dp_holds m ps t1 \<and>
    walks (fst ` set ps) vm fr (redirect m ps) (frame_slots V vm fr rm (redirect m ps) os)
      \<lparr>w_mem = redirect m ps, w_calls = [], w_stack_oops = []\<rparr> w"
proof -
  have ok: "push_ok push" "dp_active t" "dp_list t = Some []" "closure_ok (fst ` set ps) vm fr cl" "pairs_ok vm m ps"
    "frame_ok vm fr rm (redirect m ps) os"
    "\<forall>omv \<in> set os. \<forall>b. type omv = derived_oop_value \<and> oopmapreg_to_location fr (content_reg omv) rm = Some b \<longrightarrow> b \<notin> fst ` set ps"
    using assms(1) by (simp_all add: gc_ok_def m_def ps_def Let_def)
  have "dp_holds m [] t" using ok(2,3) by (simp add: dp_holds_def m_def dp_entries_def redirect_Nil)
  moreover have "\<forall>omv \<in> set os. \<exists>loc. oopmapreg_to_location fr (reg omv) rm = Some loc" using ok(6) by (auto simp: frame_ok_def)
  ultimately obtain t1 where t1: "derived_loop vm fr rm (add_derived_oop vm push) dp_mem os t = Some t1" "dp_holds m ps t1"
    using derived_loop_correct [OF ok(1), of m "[]" t vm fr rm os] ok(5,7) by (auto simp: ps_def)
  have "same_kind (fst ` set ps) vm fr (redirect m ps) (dp_mem t1)" using t1(2) by (simp add: dp_holds_def)
  with oops_loop_correct [OF ok(4), of "redirect m ps" "\<lparr>w_mem = dp_mem t1, w_calls = [], w_stack_oops = []\<rparr>" rm os V] ok(6)
  obtain w where w: "oops_loop V vm fr rm cl os \<lparr>w_mem = dp_mem t1, w_calls = [], w_stack_oops = []\<rparr> = Some w"
    "walks (fst ` set ps) vm fr (redirect m ps) (frame_slots V vm fr rm (redirect m ps) os) \<lparr>w_mem = dp_mem t1, w_calls = [], w_stack_oops = []\<rparr> w"
    by auto
  moreover have "dp_mem t1 = redirect m ps" using t1(2) by (simp add: dp_holds_def)
  ultimately show ?thesis using t1 by (auto simp: oops_do_def all_do_def)
qed

section \<open>Properties\<close>

text \<open>
  C27: the collector misses no reference of a frame with stack allocated objects and
  descends into no object twice. \<open>oops_do\<close> ends, also for cyclic structures. The closure is called
  for exactly the slots whose value does not lie in the frame, among the oop slots of the frame that hold an oop,
  its narrow slots, and the fields of the objects on its stack that these slots reach. An oop slot that is null
  is filtered out, but a narrow slot or a field is passed to the closure also when it is null. Every slot is visited at most as
  often as it is listed.
\<close>

theorem oops_do_visits:
  fixes V :: vmreg_impl
  assumes "gc_ok vm fr rm push cl os t"
  defines "m \<equiv> redirect (dp_mem t) (derived_pairs vm fr rm (dp_mem t) os)"
  defines "roots \<equiv> frame_slots V vm fr rm m os"
  shows "\<exists>t' calls. oops_do V vm fr rm push cl os t = Some (t', calls) \<and>
    set calls = {s. \<not> stack_ref fr m s \<and> (s \<in> set roots \<or> (\<exists>obj. live vm fr m (set roots) obj \<and> s \<in> set (oop_iterate vm obj)))} \<and>
    mset calls \<subseteq># mset roots + (\<Sum>obj \<in> {obj. live vm fr m (set roots) obj}. mset (oop_iterate vm obj))"
  using oops_do_result [OF assms(1), of V] walks_fresh(2,3) unfolding m_def roots_def by fastforce

text \<open>Against the comment of \<open>oops_do\<close>, the closure sees the null fields of an object on the stack.\<close>

lemma null_fields_visited:
  fixes V :: vmreg_impl
  assumes "gc_ok vm fr rm push cl os t"
  defines "m \<equiv> redirect (dp_mem t) (derived_pairs vm fr rm (dp_mem t) os)"
  assumes "live vm fr m (set (frame_slots V vm fr rm m os)) obj" "Wide p \<in> set (oop_iterate vm obj)" "m p = 0" "\<not> in_frame fr 0"
  shows "\<exists>t' calls. oops_do V vm fr rm push cl os t = Some (t', calls) \<and> Wide p \<in> set calls"
proof -
  obtain t1 w where r: "oops_do V vm fr rm push cl os t = Some (t1\<lparr>dp_mem := w_mem w\<rparr>, w_calls w)"
    "walks (fst ` set (derived_pairs vm fr rm (dp_mem t) os)) vm fr m (frame_slots V vm fr rm m os) \<lparr>w_mem = m, w_calls = [], w_stack_oops = []\<rparr> w"
    using oops_do_result [OF assms(1), of V] unfolding m_def by blast
  have "Wide p \<in> set (w_calls w)" using walks_fresh(2) [OF r(2)] assms(3-6) by auto
  then show ?thesis using r(1) by blast
qed

text \<open>
  A frame with an object at 108 on its stack: the oop slot 200 refers to it, its field 112 and
  the oop slot 216 to heap objects, and the slot 208 is derived from 216.
\<close>

definition demo_vm :: vm where
  "demo_vm = \<lparr>UseStackAllocationRuntime = True, VerifyStack = False, little_endian = True, is_narrow_base = (\<lambda>_. False),
     is_in_or_null = (\<lambda>_. True), is_typeArray = (\<lambda>_. False), oop_iterate = (\<lambda>p. if p = 108 then [Wide 112] else []),
     narrow_load = (\<lambda>m p. 0), describes_object = (\<lambda>_. True)\<rparr>"

definition demo_frame :: frame where
  "demo_frame = \<lparr>unextended_sp = 100, cb_frame_size = 4,
     oopmapreg_to_location = (\<lambda>r rm. if r = 16 then Some 200 else if r = 17 then Some 208 else if r = 18 then Some 216 else None)\<rparr>"

definition demo_omvs :: "OopMapValue list" where
  "demo_omvs = [\<lparr>omv_value = 64, omv_content_reg = 0\<rparr>, \<lparr>omv_value = 71, omv_content_reg = 18\<rparr>, \<lparr>omv_value = 72, omv_content_reg = 0\<rparr>]"

definition demo_table :: derived_table where
  "demo_table = \<lparr>dp_active = True, dp_list = Some [],
     dp_mem = (\<lambda>q. if q = 200 then 108 else if q = 112 then 1000 else if q = 208 then 1016 else if q = 216 then 1000 else 0)\<rparr>"

definition demo_closure :: oop_closure where
  "demo_closure s m = (case s of
     Wide p \<Rightarrow> if p = 208 \<or> in_frame demo_frame (m p) \<or> m p = 0 then m else m(p := 2000)
   | Narrow p \<Rightarrow> m)"

lemma demo_regs:
  "map reg demo_omvs = [16, 17, 18]" "map type demo_omvs = [oop_value, derived_oop_value, oop_value]" "map content_reg demo_omvs = [0, 18, 0]"
  by code_simp+

lemma demo_pairs: "derived_pairs demo_vm demo_frame Map.empty (dp_mem demo_table) demo_omvs = [(208, 216)]"
  using demo_regs
  by (simp add: demo_omvs_def derived_pairs_def demo_frame_def demo_vm_def demo_table_def no_oop_def in_frame_def stack_top_def)

lemma demo_gc_ok: "gc_ok demo_vm demo_frame Map.empty Cons demo_closure demo_omvs demo_table"
proof -
  let ?m = "redirect (dp_mem demo_table) [(208, 216)]"
  have "closure_ok {208} demo_vm demo_frame demo_closure"
    by (auto simp: closure_ok_def same_kind_def demo_closure_def demo_vm_def demo_frame_def in_frame_def stack_top_def no_oop_def
        split: slot.splits)
  moreover have "frame_ok demo_vm demo_frame Map.empty ?m demo_omvs"
    using demo_regs by (simp add: demo_omvs_def frame_ok_def demo_vm_def demo_frame_def)
  moreover have "pairs_ok demo_vm (dp_mem demo_table) [(208, 216)]" by (simp add: pairs_ok_def demo_table_def demo_vm_def)
  moreover have "push_ok Cons" by (simp add: push_ok_def)
  moreover have "\<forall>omv \<in> set demo_omvs. \<forall>b. type omv = derived_oop_value \<and>
      oopmapreg_to_location demo_frame (content_reg omv) Map.empty = Some b \<longrightarrow> b \<notin> {208}"
    using demo_regs by (simp add: demo_omvs_def demo_frame_def)
  ultimately show ?thesis unfolding gc_ok_def demo_pairs Let_def by (simp add: demo_table_def)
qed

theorem oops_do_visits_witness:
  "\<exists>t' calls. oops_do sample_vm demo_vm demo_frame Map.empty Cons demo_closure demo_omvs demo_table = Some (t', calls) \<and>
     {Wide 112, Wide 216} \<subseteq> set calls"
proof -
  let ?m = "redirect (dp_mem demo_table) [(208, 216)]"
  have roots: "frame_slots sample_vm demo_vm demo_frame Map.empty ?m demo_omvs = [Wide 200, Wide 216]"
    using demo_regs by (simp add: demo_omvs_def frame_slots_def demo_vm_def demo_frame_def demo_table_def redirect_def no_oop_def)
  have m: "?m 200 = 108" "\<not> in_frame demo_frame (?m 112)" "\<not> in_frame demo_frame (?m 216)" "in_frame demo_frame 108"
    by (simp_all add: redirect_def demo_table_def in_frame_def stack_top_def demo_frame_def)
  have "live demo_vm demo_frame ?m {Wide 200, Wide 216} (?m 200)"
    by (rule live.root) (use m in \<open>simp_all add: demo_vm_def\<close>)
  moreover have "Wide 112 \<in> set (oop_iterate demo_vm 108)" by (simp add: demo_vm_def)
  ultimately show ?thesis
    using oops_do_visits [OF demo_gc_ok, of sample_vm] m unfolding demo_pairs roots by fastforce
qed

text \<open>
  C29: derived pointers follow their bases. After \<open>oops_do\<close>, in which the closure may
  have moved the objects, \<open>update_pointers\<close> succeeds and gives every entered derived location the
  new value of its base plus the old offset; no other location changes and the table is
  empty and inactive again.
\<close>

theorem derived_pointers_follow:
  assumes "gc_ok vm fr rm push cl os t"
  defines "ps \<equiv> derived_pairs vm fr rm (dp_mem t) os"
  shows "\<exists>t1 calls t2. oops_do V vm fr rm push cl os t = Some (t1, calls) \<and> update_pointers vm t1 = Some t2 \<and>
    (\<forall>(d, b) \<in> set ps. dp_mem t2 d = dp_mem t1 b + (dp_mem t d - dp_mem t b)) \<and>
    (\<forall>q. q \<notin> fst ` set ps \<longrightarrow> dp_mem t2 q = dp_mem t1 q) \<and> \<not> dp_active t2 \<and> dp_is_empty t2"
proof -
  have ok: "pairs_ok vm (dp_mem t) ps" using assms(1) by (simp add: gc_ok_def ps_def Let_def)
  from oops_do_result [OF assms(1), of V] obtain t1 w where
    r: "oops_do V vm fr rm push cl os t = Some (t1\<lparr>dp_mem := w_mem w\<rparr>, w_calls w)" "dp_holds (dp_mem t) ps t1"
    and ww: "walks (fst ` set ps) vm fr (redirect (dp_mem t) ps) (frame_slots V vm fr rm (redirect (dp_mem t) ps) os)
      \<lparr>w_mem = redirect (dp_mem t) ps, w_calls = [], w_stack_oops = []\<rparr> w"
    unfolding ps_def by blast
  note r = r walksD(1) [OF ww]
  from update_pointers_correct [OF r(2) ok r(3) refl] r(1) show ?thesis by auto
qed

theorem derived_pointers_follow_witness:
  "\<exists>t1 calls t2. oops_do sample_vm demo_vm demo_frame Map.empty Cons demo_closure demo_omvs demo_table = Some (t1, calls) \<and>
     update_pointers demo_vm t1 = Some t2 \<and> dp_mem t2 208 = dp_mem t1 216 + 16"
proof -
  have "dp_mem demo_table 208 - dp_mem demo_table 216 = 16" by (simp add: demo_table_def)
  then show ?thesis using derived_pointers_follow [OF demo_gc_ok, of sample_vm] unfolding demo_pairs by fastforce
qed

end
