(* ===== verification/Raw_Memory.thy ===== *)
theory Raw_Memory
  imports Prelude
begin

text \<open>
  Bytes of memory and little endian values of up to eight bytes in it: what the accessors of fields
  and of array elements read and write.
\<close>

unbundle bit_operations_syntax

type_synonym memory = "nat \<Rightarrow> u1"

fun load :: "nat \<Rightarrow> memory \<Rightarrow> nat \<Rightarrow> intptr" where
  "load 0 m a = 0"
| "load (Suc n) m a = ucast (m a) OR push_bit 8 (load n m (Suc a))"

definition store :: "nat \<Rightarrow> nat \<Rightarrow> intptr \<Rightarrow> memory \<Rightarrow> memory" where
  "store n a v m x = (if a \<le> x \<and> x < a + n then ucast (drop_bit (8 * (x - a)) v) else m x)"

lemma store_other: "x < a \<or> a + n \<le> x \<Longrightarrow> store n a v m x = m x"
  by (auto simp: store_def)

lemma load_cong: "(\<And>x. a \<le> x \<Longrightarrow> x < a + n \<Longrightarrow> m x = m' x) \<Longrightarrow> load n m a = load n m' a"
  by (induction n arbitrary: a) simp_all

lemma load_bytes:
  assumes "\<And>i. i < n \<Longrightarrow> m (a + i) = ucast (drop_bit (8 * i) v)"
  shows "load n m a = take_bit (8 * n) v"
  using assms
proof (induction n arbitrary: a v)
  case (Suc n)
  have "load n m (Suc a) = take_bit (8 * n) (drop_bit 8 v)"
  proof (rule Suc.IH)
    fix i assume "i < n"
    then have "m (a + Suc i) = ucast (drop_bit (8 * Suc i) v)" by (intro Suc.prems) simp
    then show "m (Suc a + i) = ucast (drop_bit (8 * i) (drop_bit 8 v))" by (simp add: drop_bit_drop_bit add.commute)
  qed
  moreover have "m a = ucast v" using Suc.prems [of 0] by simp
  moreover have "(ucast (ucast v :: u1) :: intptr) OR push_bit 8 (take_bit (8 * n) (drop_bit 8 v)) = take_bit (8 * Suc n) v"
    by (rule bit_eqI) (auto simp: bit_simps)
  ultimately show ?case by simp
qed simp

lemma load_store: "load n (store n a v m) a = take_bit (8 * n) v"
  by (rule load_bytes) (simp add: store_def)

lemma load_store_other: "b + k \<le> a \<or> a + n \<le> b \<Longrightarrow> load k (store n a v m) b = load k m b"
  by (rule load_cong) (auto simp: store_def)

lemma load_bound: "take_bit (8 * n) (load n m a) = load n m a"
proof (induction n arbitrary: a)
  case (Suc n)
  have "take_bit (8 * Suc n) (ucast (m a) OR push_bit 8 (load n m (Suc a))) =
      ucast (m a) OR push_bit 8 (take_bit (8 * n) (load n m (Suc a)))"
    by (rule bit_eqI) (auto simp: bit_simps dest: bit_imp_le_length)
  with Suc show ?case by simp
qed simp

lemma load_bit: "bit (load n m a) k \<Longrightarrow> k < 8 * n"
  using load_bound [of n m a] by (metis bit_take_bit_iff)

lemma load_byte: "i < n \<Longrightarrow> n \<le> 8 \<Longrightarrow> ucast (drop_bit (8 * i) (load n m a)) = m (a + i)"
proof (induction n arbitrary: a i)
  case (Suc n)
  show ?case
  proof (cases i)
    case 0
    show ?thesis unfolding 0 by (rule bit_eqI) (auto simp: bit_simps dest: bit_imp_le_length)
  next
    case (Suc j)
    have "drop_bit (8 * i) (ucast (m a) OR push_bit 8 (load n m (Suc a)) :: intptr) = drop_bit (8 * j) (load n m (Suc a))"
      unfolding Suc using Suc.prems(2) by (intro bit_eqI) (auto simp: bit_simps dest: bit_imp_le_length load_bit)
    with Suc.IH [of j "Suc a"] Suc.prems Suc show ?thesis by simp
  qed
qed simp

text \<open>A store of what was loaded elsewhere copies the bytes.\<close>

lemma store_load_byte:
  "n \<le> 8 \<Longrightarrow> a \<le> x \<Longrightarrow> x < a + n \<Longrightarrow> store n a (load n m b) m' x = m (b + (x - a))"
  by (simp add: store_def load_byte)

section \<open>Lists of stores\<close>

type_synonym mem_write = "nat \<times> nat \<times> intptr"

definition span :: "mem_write \<Rightarrow> nat set" where
  "span w = (case w of (n, a, v) \<Rightarrow> {a..<a + n})"

definition spans :: "mem_write list \<Rightarrow> nat set" where
  "spans ws = (\<Union>w \<in> set ws. span w)"

fun apply_writes :: "mem_write list \<Rightarrow> memory \<Rightarrow> memory" where
  "apply_writes [] m = m"
| "apply_writes ((n, a, v) # ws) m = apply_writes ws (store n a v m)"

lemma spans_simps [simp]: "spans [] = {}" "spans (w # ws) = span w \<union> spans ws" "spans (us @ ws) = spans us \<union> spans ws"
  by (auto simp: spans_def)

lemma span_simp [simp]: "span (n, a, v) = {a..<a + n}"
  by (simp add: span_def)

lemma apply_writes_append [simp]: "apply_writes (us @ ws) m = apply_writes ws (apply_writes us m)"
  by (induction us m rule: apply_writes.induct) simp_all

lemma apply_writes_other: "x \<notin> spans ws \<Longrightarrow> apply_writes ws m x = m x"
  by (induction ws m rule: apply_writes.induct) (auto simp: store_other)

lemma apply_writes_cong: "m' x = m x \<Longrightarrow> apply_writes ws m' x = apply_writes ws m x"
proof (induction ws arbitrary: m m')
  case (Cons w ws)
  obtain n a v where w: "w = (n, a, v)" by (cases w)
  have "store n a v m' x = store n a v m x" using Cons.prems by (simp add: store_def)
  from Cons.IH [of "store n a v m'" "store n a v m", OF this] show ?case by (simp only: w apply_writes.simps)
qed simp

definition same_on :: "nat set \<Rightarrow> memory \<Rightarrow> memory \<Rightarrow> bool" where
  "same_on A m m' \<longleftrightarrow> (\<forall>x \<in> A. m x = m' x)"

lemma same_on_refl [simp]: "same_on A m m"
  by (simp add: same_on_def)

lemma same_on_trans: "same_on A m m1 \<Longrightarrow> same_on A m1 m2 \<Longrightarrow> same_on A m m2"
  by (simp add: same_on_def)

lemma same_on_mono: "same_on A m m' \<Longrightarrow> B \<subseteq> A \<Longrightarrow> same_on B m m'"
  by (auto simp: same_on_def)

lemma same_on_load: "same_on A m m' \<Longrightarrow> {a..<a + n} \<subseteq> A \<Longrightarrow> load n m a = load n m' a"
  by (rule load_cong) (auto simp: same_on_def)

lemma same_on_writes: "A \<inter> spans ws = {} \<Longrightarrow> same_on A m (apply_writes ws m)"
  by (auto simp: same_on_def apply_writes_other disjoint_iff)

text \<open>A store that no later one touches is what is found in the end.\<close>

lemma load_writes:
  assumes "(n, a, v) \<in> set ws" and "sorted_wrt (\<lambda>u w. span u \<inter> span w = {}) ws"
  shows "load n (apply_writes ws m) a = take_bit (8 * n) v"
proof -
  from assms(1) obtain us vs where ws: "ws = us @ (n, a, v) # vs" by (meson split_list)
  with assms(2) have "{a..<a + n} \<inter> spans vs = {}" by (auto simp: sorted_wrt_append spans_def)
  from same_on_load [OF same_on_writes [OF this] order_refl] show ?thesis unfolding ws by (simp add: load_store)
qed

section \<open>Loops of stores\<close>

text \<open>
  Restoring an object is a loop: the position in the debug information or in the object, and the
  memory, give the next store or an error.
\<close>

partial_function (option) trace_of :: "('l \<Rightarrow> bool) \<Rightarrow> ('l \<Rightarrow> ('w \<times> 'l) option) \<Rightarrow> 'l \<Rightarrow> 'w list option" where
  "trace_of fin step l =
     (if fin l then Some []
      else Option.bind (step l) (\<lambda>(w, l1). Option.bind (trace_of fin step l1) (\<lambda>ws. Some (w # ws))))"

locale store_loop =
  fixes fin :: "'l \<Rightarrow> bool"
    and step :: "memory \<Rightarrow> 'l \<Rightarrow> (mem_write \<times> 'l) option"
    and loop :: "'l \<Rightarrow> memory \<Rightarrow> memory option"
    and left :: "'l \<Rightarrow> nat"
  assumes loop_end: "fin l \<Longrightarrow> loop l m = Some m"
    and loop_step: "\<not> fin l \<Longrightarrow> loop l m = (case step m l of None \<Rightarrow> None | Some ((n, a, v), l1) \<Rightarrow> loop l1 (store n a v m))"
    and step_less: "\<not> fin l \<Longrightarrow> step m l = Some (w, l1) \<Longrightarrow> left l1 < left l"
begin

lemma trace_end: "fin l \<Longrightarrow> trace_of fin (step m) l = Some []"
  by (subst trace_of.simps) simp

lemma trace_step: "\<not> fin l \<Longrightarrow> trace_of fin (step m) l =
    (case step m l of None \<Rightarrow> None | Some (w, l1) \<Rightarrow> map_option (Cons w) (trace_of fin (step m) l1))"
  by (subst trace_of.simps) (auto split: option.splits bind_splits)

text \<open>What a step reads is not written: the loop performs the stores found in the initial memory.\<close>

lemma loop_trace:
  assumes local: "\<And>l m1 m2. P l \<Longrightarrow> \<not> fin l \<Longrightarrow> same_on A m1 m2 \<Longrightarrow> step m1 l = step m2 l"
    and closed: "\<And>l m w l1. P l \<Longrightarrow> \<not> fin l \<Longrightarrow> step m l = Some (w, l1) \<Longrightarrow> P l1"
    and "P l" and "trace_of fin (step m) l = Some ws" and "spans ws \<inter> A = {}" and "same_on A m m1"
  shows "loop l m1 = Some (apply_writes ws m1)"
  using assms(3-6)
proof (induction "left l" arbitrary: l ws m1 rule: less_induct)
  case less
  show ?case
  proof (cases "fin l")
    case True
    with less.prems(2) show ?thesis by (simp add: loop_end trace_end)
  next
    case False
    with less.prems(2) obtain n a v l1 ws1 where s: "step m l = Some ((n, a, v), l1)"
      and ws: "trace_of fin (step m) l1 = Some ws1" "ws = (n, a, v) # ws1"
      by (auto simp: trace_step split: option.splits)
    have d: "A \<inter> spans [(n, a, v)] = {}" "spans ws1 \<inter> A = {}" using less.prems(3) ws(2) by auto
    from same_on_trans [OF less.prems(4) same_on_writes [OF d(1)]] have "same_on A m (store n a v m1)" by simp
    from less.hyps [OF step_less [OF False s] closed [OF less.prems(1) False s] ws(1) d(2) this]
    have "loop l1 (store n a v m1) = Some (apply_writes ws1 (store n a v m1))" .
    moreover have "step m1 l = Some ((n, a, v), l1)" using local [OF less.prems(1) False less.prems(4)] s by simp
    ultimately show ?thesis using False ws(2) by (simp add: loop_step)
  qed
qed

end

text \<open>A loop over a list that stores something for each element.\<close>

lemma trace_map: "(\<And>x xs. x \<in> set l \<Longrightarrow> step (x # xs) = Some (f x, xs)) \<Longrightarrow> trace_of (\<lambda>l. l = []) step l = Some (map f l)"
  by (induction l) (subst trace_of.simps, simp)+

end
