(* ===== verification/Scope_Values.thy ===== *)
theory Scope_Values
  imports Oop_Map
begin

text \<open>
  The values of variables that the compiler leaves for deoptimization (\<open>code/debugInfo.hpp\<close>,
  \<open>debugInfo.cpp\<close>), with the descriptions of scalar replaced and of stack allocated objects, and
  their serialization.
\<close>

section \<open>Values\<close>

text \<open>
  A \<open>Location\<close> (\<open>code/location.hpp\<close>) is its 32 bits. The objects are mutable and may refer to
  each other: they live in a store, and \<open>ObjectRef a\<close> is the pointer to the object at \<open>a\<close>.
\<close>

type_synonym Location = juint

datatype scope_value =
    LocationValue Location
  | MarkerValue
  | ConstantIntValue int
  | ConstantLongValue int
  | ConstantDoubleValue "64 word"
  | ConstantOopWriteValue nat
  | ConstantOopReadValue nat
  | ObjectRef nat

datatype object_class = ObjectValue | AutoBoxObjectValue | StackObjectValue

record object_value =
  ov_class :: object_class
  ov_id :: int
  ov_klass :: "scope_value option"
  ov_field_values :: "scope_value list"
  ov_visited :: bool
  ov_location :: Location
  ov_field_length :: "scope_value option"

type_synonym object_store = "nat \<Rightarrow> object_value"

fun is_constant_oop :: "scope_value \<Rightarrow> bool" where
  "is_constant_oop (ConstantOopWriteValue _) = True"
| "is_constant_oop (ConstantOopReadValue _) = True"
| "is_constant_oop _ = False"

text \<open>The constructors; \<open>loc0\<close> is \<open>Location()\<close>.\<close>

definition new_ObjectValue :: "object_class \<Rightarrow> Location \<Rightarrow> int \<Rightarrow> object_value" where
  "new_ObjectValue c loc0 i =
     \<lparr>ov_class = c, ov_id = i, ov_klass = None, ov_field_values = [], ov_visited = False, ov_location = loc0, ov_field_length = None\<rparr>"

definition new_StackObjectValue :: "int \<Rightarrow> scope_value \<Rightarrow> Location \<Rightarrow> scope_value \<Rightarrow> object_value option" where
  "new_StackObjectValue i klass location field_length =
     (if is_constant_oop klass then
        Some \<lparr>ov_class = StackObjectValue, ov_id = i, ov_klass = Some klass, ov_field_values = [], ov_visited = False,
              ov_location = location, ov_field_length = Some field_length\<rparr>
      else None)"

definition is_stack_object :: "object_value \<Rightarrow> bool" where
  "is_stack_object ov \<longleftrightarrow> ov_class ov = StackObjectValue"

definition is_auto_box :: "object_value \<Rightarrow> bool" where
  "is_auto_box ov \<longleftrightarrow> ov_class ov = AutoBoxObjectValue"

text \<open>\<open>set_visited\<close> has an argument, but always clears the flag.\<close>

definition set_visited :: "bool \<Rightarrow> object_value \<Rightarrow> object_value" where
  "set_visited visited ov = ov\<lparr>ov_visited := False\<rparr>"

section \<open>Streams of debug information\<close>

text \<open>
  The compressed stream (\<open>code/compressedStream.hpp\<close>), the serialization of locations and the
  table of oops of a method are arguments.
\<close>

record debug_stream =
  w_int :: "int \<Rightarrow> u1 list"
  r_int :: "u1 list \<Rightarrow> (int \<times> u1 list) option"
  w_signed_int :: "int \<Rightarrow> u1 list"
  r_signed_int :: "u1 list \<Rightarrow> (int \<times> u1 list) option"
  w_long :: "int \<Rightarrow> u1 list"
  r_long :: "u1 list \<Rightarrow> (int \<times> u1 list) option"
  w_double :: "64 word \<Rightarrow> u1 list"
  r_double :: "u1 list \<Rightarrow> (64 word \<times> u1 list) option"
  w_bool :: "bool \<Rightarrow> u1 list"
  r_bool :: "u1 list \<Rightarrow> (bool \<times> u1 list) option"
  w_location :: "Location \<Rightarrow> u1 list"
  r_location :: "u1 list \<Rightarrow> (Location \<times> u1 list) option"
  find_index :: "nat \<Rightarrow> int"
  oop_at :: "int \<Rightarrow> nat"

definition LOCATION_CODE :: int where "LOCATION_CODE = 0"
definition CONSTANT_INT_CODE :: int where "CONSTANT_INT_CODE = 1"
definition CONSTANT_OOP_CODE :: int where "CONSTANT_OOP_CODE = 2"
definition CONSTANT_LONG_CODE :: int where "CONSTANT_LONG_CODE = 3"
definition CONSTANT_DOUBLE_CODE :: int where "CONSTANT_DOUBLE_CODE = 4"
definition OBJECT_CODE :: int where "OBJECT_CODE = 5"
definition OBJECT_ID_CODE :: int where "OBJECT_ID_CODE = 6"
definition AUTO_BOX_OBJECT_CODE :: int where "AUTO_BOX_OBJECT_CODE = 7"
definition MARKER_CODE :: int where "MARKER_CODE = 8"
definition STACK_OBJECT_CODE :: int where "STACK_OBJECT_CODE = 9"

definition write_handle :: "debug_stream \<Rightarrow> nat \<Rightarrow> u1 list" where
  "write_handle D h = w_int D (find_index D h)"

definition read_oop :: "debug_stream \<Rightarrow> u1 list \<Rightarrow> (nat \<times> u1 list) option" where
  "read_oop D bs = (case r_int D bs of None \<Rightarrow> None | Some (i, bs1) \<Rightarrow> Some (oop_at D i, bs1))"

section \<open>Writing\<close>

text \<open>\<open>write_on\<close> of the values without objects; a \<open>ConstantOopReadValue\<close> is never written.\<close>

definition LocationValue_write_on :: "debug_stream \<Rightarrow> Location \<Rightarrow> u1 list" where [simp]:
  "LocationValue_write_on D l = w_int D LOCATION_CODE @ w_location D l"

definition MarkerValue_write_on :: "debug_stream \<Rightarrow> u1 list" where [simp]:
  "MarkerValue_write_on D = w_int D MARKER_CODE"

definition ConstantIntValue_write_on :: "debug_stream \<Rightarrow> int \<Rightarrow> u1 list" where [simp]:
  "ConstantIntValue_write_on D v = w_int D CONSTANT_INT_CODE @ w_signed_int D v"

definition ConstantLongValue_write_on :: "debug_stream \<Rightarrow> int \<Rightarrow> u1 list" where [simp]:
  "ConstantLongValue_write_on D v = w_int D CONSTANT_LONG_CODE @ w_long D v"

definition ConstantDoubleValue_write_on :: "debug_stream \<Rightarrow> 64 word \<Rightarrow> u1 list" where [simp]:
  "ConstantDoubleValue_write_on D v = w_int D CONSTANT_DOUBLE_CODE @ w_double D v"

definition ConstantOopWriteValue_write_on :: "debug_stream \<Rightarrow> nat \<Rightarrow> u1 list" where [simp]:
  "ConstantOopWriteValue_write_on D h = w_int D CONSTANT_OOP_CODE @ write_handle D h"

fun write_simple :: "debug_stream \<Rightarrow> scope_value \<Rightarrow> u1 list option" where
  "write_simple D (LocationValue l) = Some (LocationValue_write_on D l)"
| "write_simple D MarkerValue = Some (MarkerValue_write_on D)"
| "write_simple D (ConstantIntValue v) = Some (ConstantIntValue_write_on D v)"
| "write_simple D (ConstantLongValue v) = Some (ConstantLongValue_write_on D v)"
| "write_simple D (ConstantDoubleValue v) = Some (ConstantDoubleValue_write_on D v)"
| "write_simple D (ConstantOopWriteValue h) = Some (ConstantOopWriteValue_write_on D h)"
| "write_simple D (ConstantOopReadValue _) = None"
| "write_simple D (ObjectRef _) = None"

definition object_code :: "object_value \<Rightarrow> int" where
  "object_code ov =
     (if is_stack_object ov then STACK_OBJECT_CODE else if is_auto_box ov then AUTO_BOX_OBJECT_CODE else OBJECT_CODE)"

text \<open>
  \<open>write_on\<close> of an object: the bytes before its fields, the fields, and the bytes after them.
\<close>

definition write_object :: "debug_stream \<Rightarrow> nat \<Rightarrow> object_store \<Rightarrow> (u1 list \<times> scope_value list \<times> u1 list \<times> object_store) option" where
  "write_object D a st =
     (let ov = st a
      in if ov_visited ov then Some (w_int D OBJECT_ID_CODE @ w_int D (ov_id ov), [], [], st)
         else
           (case (ov_klass ov, if is_stack_object ov then ov_field_length ov else Some MarkerValue) of
              (Some klass, Some field_length) \<Rightarrow>
                (case (write_simple D klass, if is_stack_object ov then write_simple D field_length else Some []) of
                   (Some kb, Some fb) \<Rightarrow>
                     Some (w_int D (object_code ov) @ w_int D (ov_id ov) @ kb @ w_int D (int (length (ov_field_values ov))),
                           ov_field_values ov,
                           if is_stack_object ov then w_location D (ov_location ov) @ fb else [],
                           st(a := ov\<lparr>ov_visited := True\<rparr>))
                 | _ \<Rightarrow> None)
            | _ \<Rightarrow> None))"

definition write_head :: "debug_stream \<Rightarrow> scope_value \<Rightarrow> object_store \<Rightarrow> (u1 list \<times> scope_value list \<times> u1 list \<times> object_store) option" where
  "write_head D v st =
     (case v of
        ObjectRef a \<Rightarrow> write_object D a st
      | _ \<Rightarrow> (case write_simple D v of None \<Rightarrow> None | Some b \<Rightarrow> Some (b, [], [], st)))"

partial_function (option) write_values :: "debug_stream \<Rightarrow> scope_value list \<Rightarrow> object_store \<Rightarrow> (u1 list \<times> object_store) option" where
  "write_values D vs st =
     (case vs of
        [] \<Rightarrow> Some ([], st)
      | v # vs1 \<Rightarrow>
          (case write_head D v st of
             None \<Rightarrow> None
           | Some (pre, fs, post, st1) \<Rightarrow>
               Option.bind (write_values D fs st1) (\<lambda>(b1, st2).
                 Option.bind (write_values D vs1 st2) (\<lambda>(b2, st3). Some (pre @ b1 @ post @ b2, st3)))))"

section \<open>Reading\<close>

text \<open>\<open>_obj_pool\<close> is the list of the objects read so far; an \<open>ObjectRef\<close> is an index into it.\<close>

definition LocationValue_read :: "debug_stream \<Rightarrow> u1 list \<Rightarrow> (scope_value \<times> u1 list) option" where [simp]:
  "LocationValue_read D bs = map_option (apfst LocationValue) (r_location D bs)"

definition ConstantIntValue_read :: "debug_stream \<Rightarrow> u1 list \<Rightarrow> (scope_value \<times> u1 list) option" where [simp]:
  "ConstantIntValue_read D bs = map_option (apfst ConstantIntValue) (r_signed_int D bs)"

definition ConstantLongValue_read :: "debug_stream \<Rightarrow> u1 list \<Rightarrow> (scope_value \<times> u1 list) option" where [simp]:
  "ConstantLongValue_read D bs = map_option (apfst ConstantLongValue) (r_long D bs)"

definition ConstantDoubleValue_read :: "debug_stream \<Rightarrow> u1 list \<Rightarrow> (scope_value \<times> u1 list) option" where [simp]:
  "ConstantDoubleValue_read D bs = map_option (apfst ConstantDoubleValue) (r_double D bs)"

definition ConstantOopReadValue_read :: "debug_stream \<Rightarrow> u1 list \<Rightarrow> (scope_value \<times> u1 list) option" where [simp]:
  "ConstantOopReadValue_read D bs = map_option (apfst ConstantOopReadValue) (read_oop D bs)"

definition read_simple :: "debug_stream \<Rightarrow> int \<Rightarrow> u1 list \<Rightarrow> (scope_value \<times> u1 list) option" where
  "read_simple D code bs =
     (if code = LOCATION_CODE then LocationValue_read D bs
      else if code = CONSTANT_INT_CODE then ConstantIntValue_read D bs
      else if code = CONSTANT_OOP_CODE then ConstantOopReadValue_read D bs
      else if code = CONSTANT_LONG_CODE then ConstantLongValue_read D bs
      else if code = CONSTANT_DOUBLE_CODE then ConstantDoubleValue_read D bs
      else if code = MARKER_CODE then Some (MarkerValue, bs)
      else None)"

definition find_pool :: "int \<Rightarrow> object_value list \<Rightarrow> nat option" where
  "find_pool i pool = (case filter (\<lambda>k. ov_id (pool ! k) = i) (rev [0..<length pool]) of [] \<Rightarrow> None | k # _ \<Rightarrow> Some k)"

definition get_cached_object :: "debug_stream \<Rightarrow> u1 list \<Rightarrow> object_value list \<Rightarrow> (scope_value \<times> u1 list) option" where
  "get_cached_object D bs pool =
     (case r_int D bs of
        None \<Rightarrow> None
      | Some (i, bs1) \<Rightarrow> (case find_pool i pool of None \<Rightarrow> None | Some k \<Rightarrow> Some (ObjectRef k, bs1)))"

definition class_of_code :: "int \<Rightarrow> object_class" where
  "class_of_code code =
     (if code = AUTO_BOX_OBJECT_CODE then AutoBoxObjectValue else if code = STACK_OBJECT_CODE then StackObjectValue else ObjectValue)"

text \<open>
  \<open>read_object_value\<close> up to the fields of the object: its id, its class, and the number of fields.
  The klass has to be a constant oop.
\<close>

definition read_object_head :: "debug_stream \<Rightarrow> Location \<Rightarrow> int \<Rightarrow> u1 list \<Rightarrow> object_value list \<Rightarrow>
    (nat \<times> u1 list \<times> object_value list) option" where
  "read_object_head D loc0 code bs pool =
     (case r_int D bs of
        None \<Rightarrow> None
      | Some (i, bs1) \<Rightarrow>
          if find_pool i pool \<noteq> None then None
          else
            (case r_int D bs1 of
               None \<Rightarrow> None
             | Some (kcode, bs2) \<Rightarrow>
                 (case read_simple D kcode bs2 of
                    None \<Rightarrow> None
                  | Some (klass, bs3) \<Rightarrow>
                      if is_constant_oop klass then
                        (case r_int D bs3 of
                           None \<Rightarrow> None
                         | Some (len, bs4) \<Rightarrow>
                             Some (nat len, bs4, pool @ [(new_ObjectValue (class_of_code code) loc0 i)\<lparr>ov_klass := Some klass\<rparr>]))
                      else None)))"

text \<open>A value, the number of values to read for the fields of the object if it is one, and the pool.\<close>

definition read_head :: "debug_stream \<Rightarrow> Location \<Rightarrow> u1 list \<Rightarrow> object_value list \<Rightarrow>
    (scope_value \<times> bool \<times> nat \<times> u1 list \<times> object_value list) option" where
  "read_head D loc0 bs pool =
     (case r_int D bs of
        None \<Rightarrow> None
      | Some (code, bs1) \<Rightarrow>
          if code = OBJECT_CODE \<or> code = AUTO_BOX_OBJECT_CODE \<or> code = STACK_OBJECT_CODE then
            (case read_object_head D loc0 code bs1 pool of
               None \<Rightarrow> None
             | Some (n, bs2, pool1) \<Rightarrow> Some (ObjectRef (length pool), True, n, bs2, pool1))
          else if code = OBJECT_ID_CODE then
            (case get_cached_object D bs1 pool of
               None \<Rightarrow> None
             | Some (v, bs2) \<Rightarrow> Some (v, False, 0, bs2, pool))
          else
            (case read_simple D code bs1 of
               None \<Rightarrow> None
             | Some (v, bs2) \<Rightarrow> Some (v, False, 0, bs2, pool)))"

text \<open>After the fields: a stack object has its location, and one more value.\<close>

definition read_tail :: "debug_stream \<Rightarrow> bool \<Rightarrow> nat \<Rightarrow> scope_value list \<Rightarrow> u1 list \<Rightarrow> object_value list \<Rightarrow>
    (nat \<times> u1 list \<times> object_value list) option" where
  "read_tail D new k fs bs pool =
     (if \<not> new then Some (0, bs, pool)
      else
        let pool1 = pool[k := (pool ! k)\<lparr>ov_field_values := ov_field_values (pool ! k) @ fs\<rparr>]
        in if is_stack_object (pool ! k) then
             (case r_location D bs of
                None \<Rightarrow> None
              | Some (l, bs1) \<Rightarrow> Some (1, bs1, pool1[k := (pool1 ! k)\<lparr>ov_location := l\<rparr>]))
           else Some (0, bs, pool1))"

definition set_field_length :: "nat \<Rightarrow> scope_value list \<Rightarrow> object_value list \<Rightarrow> object_value list" where
  "set_field_length k gs pool = (case gs of [] \<Rightarrow> pool | g # _ \<Rightarrow> pool[k := (pool ! k)\<lparr>ov_field_length := Some g\<rparr>])"

partial_function (option) read_values :: "debug_stream \<Rightarrow> Location \<Rightarrow> nat \<Rightarrow> u1 list \<Rightarrow> object_value list \<Rightarrow>
    (scope_value list \<times> u1 list \<times> object_value list) option" where
  "read_values D loc0 n bs pool =
     (case n of
        0 \<Rightarrow> Some ([], bs, pool)
      | Suc n1 \<Rightarrow>
          (case read_head D loc0 bs pool of
             None \<Rightarrow> None
           | Some (v, new, m, bs1, pool1) \<Rightarrow>
               Option.bind (read_values D loc0 m bs1 pool1) (\<lambda>(fs, bs2, pool2).
                 case read_tail D new (length pool) fs bs2 pool2 of
                   None \<Rightarrow> None
                 | Some (j, bs3, pool3) \<Rightarrow>
                     Option.bind (read_values D loc0 j bs3 pool3) (\<lambda>(gs, bs4, pool4).
                       Option.bind (read_values D loc0 n1 bs4 (set_field_length (length pool) gs pool4))
                         (\<lambda>(vs, bs5, pool5). Some (v # vs, bs5, pool5))))))"

text \<open>A \<open>MonitorValue\<close>: the lock and the object that owns it.\<close>

record monitor_value =
  mv_owner :: scope_value
  mv_basic_lock :: Location
  mv_eliminated :: bool

definition write_monitor :: "debug_stream \<Rightarrow> monitor_value \<Rightarrow> object_store \<Rightarrow> (u1 list \<times> object_store) option" where
  "write_monitor D m st =
     (case write_values D [mv_owner m] st of
        None \<Rightarrow> None
      | Some (b, st1) \<Rightarrow> Some (w_location D (mv_basic_lock m) @ b @ w_bool D (mv_eliminated m), st1))"

definition read_monitor :: "debug_stream \<Rightarrow> Location \<Rightarrow> u1 list \<Rightarrow> object_value list \<Rightarrow>
    (monitor_value \<times> u1 list \<times> object_value list) option" where
  "read_monitor D loc0 bs pool =
     (case r_location D bs of
        None \<Rightarrow> None
      | Some (l, bs1) \<Rightarrow>
          (case read_values D loc0 1 bs1 pool of
             Some ([v], bs2, pool1) \<Rightarrow>
               (case r_bool D bs2 of
                  None \<Rightarrow> None
                | Some (e, bs3) \<Rightarrow> Some (\<lparr>mv_owner = v, mv_basic_lock = l, mv_eliminated = e\<rparr>, bs3, pool1))
           | _ \<Rightarrow> None))"

section \<open>Simple values\<close>

text \<open>What the reader relies on: every kind of datum is read as it was written.\<close>

definition in32 :: "int \<Rightarrow> bool" where "in32 v \<longleftrightarrow> - (2 ^ 31) \<le> v \<and> v < 2 ^ 31"
definition in64 :: "int \<Rightarrow> bool" where "in64 v \<longleftrightarrow> - (2 ^ 63) \<le> v \<and> v < 2 ^ 63"

definition debug_ok :: "debug_stream \<Rightarrow> bool" where
  "debug_ok D \<longleftrightarrow> (\<forall>v rest. in32 v \<longrightarrow> r_int D (w_int D v @ rest) = Some (v, rest) \<and> r_signed_int D (w_signed_int D v @ rest) = Some (v, rest)) \<and>
     (\<forall>v rest. in64 v \<longrightarrow> r_long D (w_long D v @ rest) = Some (v, rest)) \<and>
     (\<forall>v rest. r_double D (w_double D v @ rest) = Some (v, rest)) \<and> (\<forall>v rest. r_bool D (w_bool D v @ rest) = Some (v, rest)) \<and>
     (\<forall>v rest. r_location D (w_location D v @ rest) = Some (v, rest)) \<and> (\<forall>h. in32 (find_index D h))"

lemmas scope_codes = LOCATION_CODE_def CONSTANT_INT_CODE_def CONSTANT_OOP_CODE_def CONSTANT_LONG_CODE_def CONSTANT_DOUBLE_CODE_def
  OBJECT_CODE_def OBJECT_ID_CODE_def AUTO_BOX_OBJECT_CODE_def MARKER_CODE_def STACK_OBJECT_CODE_def

text \<open>The reader sees the oop of a handle.\<close>

fun as_read :: "debug_stream \<Rightarrow> scope_value \<Rightarrow> scope_value" where
  "as_read D (ConstantOopWriteValue h) = ConstantOopReadValue (oop_at D (find_index D h))"
| "as_read D v = v"

fun value_ok :: "nat set \<Rightarrow> scope_value \<Rightarrow> bool" where
  "value_ok A (ConstantIntValue v) = in32 v"
| "value_ok A (ConstantLongValue v) = in64 v"
| "value_ok A (ConstantOopReadValue _) = False"
| "value_ok A (ObjectRef a) = (a \<in> A)"
| "value_ok A _ = True"

fun simple_parts :: "debug_stream \<Rightarrow> scope_value \<Rightarrow> int \<times> u1 list" where
  "simple_parts D (LocationValue l) = (LOCATION_CODE, w_location D l)"
| "simple_parts D MarkerValue = (MARKER_CODE, [])"
| "simple_parts D (ConstantIntValue v) = (CONSTANT_INT_CODE, w_signed_int D v)"
| "simple_parts D (ConstantLongValue v) = (CONSTANT_LONG_CODE, w_long D v)"
| "simple_parts D (ConstantDoubleValue v) = (CONSTANT_DOUBLE_CODE, w_double D v)"
| "simple_parts D v = (CONSTANT_OOP_CODE, case v of ConstantOopWriteValue h \<Rightarrow> write_handle D h | _ \<Rightarrow> [])"

lemma write_simple_ok:
  assumes "debug_ok D" and "value_ok {} v" and p: "simple_parts D v = (code, b)"
  shows "write_simple D v = Some (w_int D code @ b)" "in32 code"
    "code \<notin> {OBJECT_CODE, AUTO_BOX_OBJECT_CODE, STACK_OBJECT_CODE, OBJECT_ID_CODE}"
    "read_simple D code (b @ rest) = Some (as_read D v, rest)"
proof -
  show "write_simple D v = Some (w_int D code @ b)" using assms(2) p by (cases v) auto
  show "in32 code" "code \<notin> {OBJECT_CODE, AUTO_BOX_OBJECT_CODE, STACK_OBJECT_CODE, OBJECT_ID_CODE}"
    using assms(2) p by (cases v; auto simp: in32_def scope_codes)+
  show "read_simple D code (b @ rest) = Some (as_read D v, rest)"
    using assms by (cases v) (auto simp: read_simple_def scope_codes read_oop_def write_handle_def debug_ok_def)
qed

lemma read_int_written: "debug_ok D \<Longrightarrow> in32 v \<Longrightarrow> r_int D (w_int D v @ rest) = Some (v, rest)"
  by (simp add: debug_ok_def)

lemma read_values_0 [simp]: "read_values D loc0 0 bs pool = Some ([], bs, pool)"
  by (subst read_values.simps) simp

lemma write_values_Nil [simp]: "write_values D [] st = Some ([], st)"
  by (subst write_values.simps) simp

lemma read_values_Suc:
  assumes "read_values D loc0 1 bs pool = Some ([v], bs1, pool1)" and "read_values D loc0 n bs1 pool1 = Some (vs, bs2, pool2)"
  shows "read_values D loc0 (Suc n) bs pool = Some (v # vs, bs2, pool2)"
  using assms
  by (subst read_values.simps, subst (asm) read_values.simps) (auto split: option.splits bind_splits)

lemma write_values_Cons:
  assumes "write_values D [v] st = Some (b1, st1)" and "write_values D vs st1 = Some (b2, st2)"
  shows "write_values D (v # vs) st = Some (b1 @ b2, st2)"
  using assms
  by (subst write_values.simps, subst (asm) write_values.simps) (auto split: option.splits bind_splits)

lemma simple_written:
  assumes D: "debug_ok D" and v: "value_ok {} v"
  obtains b where "write_values D [v] st = Some (b, st)" "write_simple D v = Some b"
    "\<And>rest pool. read_values D loc0 1 (b @ rest) pool = Some ([as_read D v], rest, pool)"
proof -
  obtain code b where "simple_parts D v = (code, b)" by fastforce
  note b = write_simple_ok [OF D v this]
  have "write_head D v st = Some (w_int D code @ b, [], [], st)" using b(1) v by (cases v) (simp_all add: write_head_def)
  then have w: "write_values D [v] st = Some (w_int D code @ b, st)" by (subst write_values.simps) simp
  have "read_head D loc0 ((w_int D code @ b) @ rest) pool = Some (as_read D v, False, 0, rest, pool)" for rest pool
    using b by (simp add: read_head_def read_int_written [OF D b(2)])
  then have "read_values D loc0 1 ((w_int D code @ b) @ rest) pool = Some ([as_read D v], rest, pool)" for rest pool
    by (subst read_values.simps) (simp add: read_tail_def set_field_length_def)
  from that [OF w b(1) this] show ?thesis .
qed

section \<open>Graphs of objects\<close>

text \<open>The objects \<open>A\<close> have distinct ids and refer to each other only.\<close>

definition graph_ok :: "nat set \<Rightarrow> object_store \<Rightarrow> bool" where
  "graph_ok A st \<longleftrightarrow> finite A \<and> inj_on (\<lambda>a. ov_id (st a)) A \<and>
     (\<forall>a \<in> A. in32 (ov_id (st a)) \<and> (\<exists>h. ov_klass (st a) = Some (ConstantOopWriteValue h)) \<and>
        in32 (int (length (ov_field_values (st a)))) \<and> (\<forall>v \<in> set (ov_field_values (st a)). value_ok A v) \<and>
        (is_stack_object (st a) \<longrightarrow> (\<exists>n. ov_field_length (st a) = Some (ConstantIntValue n) \<and> in32 n)))"

definition mark :: "object_store \<Rightarrow> nat set \<Rightarrow> object_store" where
  "mark st X a = (st a)\<lparr>ov_visited := a \<in> X\<rparr>"

text \<open>The pool holds the objects that were written, in the order they were met.\<close>

definition pool_ok :: "object_store \<Rightarrow> nat set \<Rightarrow> object_value list \<Rightarrow> bool" where
  "pool_ok st X pool \<longleftrightarrow> distinct (map ov_id pool) \<and> set (map ov_id pool) = (\<lambda>a. ov_id (st a)) ` X"

fun value_rel :: "debug_stream \<Rightarrow> object_store \<Rightarrow> object_value list \<Rightarrow> scope_value \<Rightarrow> scope_value \<Rightarrow> bool" where
  "value_rel D st pool (ObjectRef a) v \<longleftrightarrow> (\<exists>k < length pool. v = ObjectRef k \<and> ov_id (pool ! k) = ov_id (st a))"
| "value_rel D st pool u v \<longleftrightarrow> v = as_read D u"

definition object_rel :: "debug_stream \<Rightarrow> object_store \<Rightarrow> object_value list \<Rightarrow> nat \<Rightarrow> object_value \<Rightarrow> bool" where
  "object_rel D st pool a ov \<longleftrightarrow> ov_class ov = ov_class (st a) \<and> ov_id ov = ov_id (st a) \<and>
     ov_klass ov = map_option (as_read D) (ov_klass (st a)) \<and> list_all2 (value_rel D st pool) (ov_field_values (st a)) (ov_field_values ov) \<and>
     (is_stack_object (st a) \<longrightarrow> ov_location ov = ov_location (st a) \<and> ov_field_length ov = map_option (as_read D) (ov_field_length (st a)))"

definition pool_ext :: "object_value list \<Rightarrow> object_value list \<Rightarrow> bool" where
  "pool_ext pool pool' \<longleftrightarrow> (\<exists>us. map ov_id pool' = map ov_id pool @ us)"

lemma pool_extD:
  assumes "pool_ext pool pool'" and "k < length pool"
  shows "k < length pool'" "ov_id (pool' ! k) = ov_id (pool ! k)"
proof -
  from assms(1) obtain us where us: "map ov_id pool' = map ov_id pool @ us" by (auto simp: pool_ext_def)
  then have "length pool' = length pool + length us" by (metis length_append length_map)
  with assms(2) show k: "k < length pool'" by simp
  from us have "map ov_id pool' ! k = map ov_id pool ! k" using assms(2) by (simp add: nth_append)
  with k assms(2) show "ov_id (pool' ! k) = ov_id (pool ! k)" by simp
qed

lemma value_rel_mono: "value_rel D st pool u v \<Longrightarrow> pool_ext pool pool' \<Longrightarrow> value_rel D st pool' u v"
  using pool_extD [of pool pool'] by (cases u) auto

lemma value_rel_list: "list_all2 (value_rel D st pool) us vs \<Longrightarrow> pool_ext pool pool' \<Longrightarrow> list_all2 (value_rel D st pool') us vs"
  by (erule list_all2_mono) (rule value_rel_mono)

lemma object_rel_mono: "object_rel D st pool a ov \<Longrightarrow> pool_ext pool pool' \<Longrightarrow> object_rel D st pool' a ov"
  by (auto simp: object_rel_def intro: value_rel_list)

text \<open>
  Writing \<open>vs\<close> from the state \<open>X\<close> gives \<open>bs\<close> and leaves \<open>X'\<close>; reading \<open>bs\<close> gives the values back, and
  the objects that were new.
\<close>

definition copied :: "debug_stream \<Rightarrow> Location \<Rightarrow> nat set \<Rightarrow> object_store \<Rightarrow> scope_value list \<Rightarrow> nat set \<Rightarrow> u1 list \<Rightarrow> nat set \<Rightarrow> bool" where
  "copied D loc0 A st vs X bs X' \<longleftrightarrow> write_values D vs (mark st X) = Some (bs, mark st X') \<and> X \<subseteq> X' \<and> X' \<subseteq> A \<and>
     (\<forall>rest pool. pool_ok st X pool \<longrightarrow> (\<exists>vs' new. read_values D loc0 (length vs) (bs @ rest) pool = Some (vs', rest, pool @ new) \<and>
        pool_ok st X' (pool @ new) \<and> list_all2 (value_rel D st (pool @ new)) vs vs' \<and>
        (\<forall>ov \<in> set new. \<exists>a \<in> A. object_rel D st (pool @ new) a ov)))"

lemma copied_read:
  assumes "copied D loc0 A st vs X bs X'" and "pool_ok st X pool"
  shows "\<exists>vs' new. read_values D loc0 (length vs) (bs @ rest) pool = Some (vs', rest, pool @ new) \<and>
    pool_ok st X' (pool @ new) \<and> list_all2 (value_rel D st (pool @ new)) vs vs' \<and>
    (\<forall>ov \<in> set new. \<exists>a \<in> A. object_rel D st (pool @ new) a ov)"
  using assms by (simp add: copied_def)

lemma pool_ext_append [simp]: "pool_ext pool (pool @ new)"
  by (simp add: pool_ext_def)

lemma copied_Nil: "X \<subseteq> A \<Longrightarrow> copied D loc0 A st [] X [] X"
  by (auto simp: copied_def intro!: exI [of _ "[]"])

lemma copied_Cons:
  assumes a: "copied D loc0 A st [v] X b1 X1" and b: "copied D loc0 A st vs X1 b2 X2"
  shows "copied D loc0 A st (v # vs) X (b1 @ b2) X2"
proof -
  have "\<exists>vs' new. read_values D loc0 (Suc (length vs)) ((b1 @ b2) @ rest) pool = Some (vs', rest, pool @ new) \<and>
        pool_ok st X2 (pool @ new) \<and> list_all2 (value_rel D st (pool @ new)) (v # vs) vs' \<and>
        (\<forall>ov \<in> set new. \<exists>a \<in> A. object_rel D st (pool @ new) a ov)" if pool: "pool_ok st X pool" for rest pool
  proof -
    from a pool obtain us new1 where 1: "read_values D loc0 1 (b1 @ b2 @ rest) pool = Some (us, b2 @ rest, pool @ new1)"
      "pool_ok st X1 (pool @ new1)" "list_all2 (value_rel D st (pool @ new1)) [v] us"
      "\<forall>ov \<in> set new1. \<exists>a \<in> A. object_rel D st (pool @ new1) a ov"
      unfolding copied_def by (auto dest!: spec [of _ "b2 @ rest"])
    from 1(3) obtain v' where v': "us = [v']" "value_rel D st (pool @ new1) v v'" by (auto simp: list_all2_Cons1)
    from b 1(2) obtain vs' new2 where 2: "read_values D loc0 (length vs) (b2 @ rest) (pool @ new1) = Some (vs', rest, (pool @ new1) @ new2)"
      "pool_ok st X2 ((pool @ new1) @ new2)" "list_all2 (value_rel D st ((pool @ new1) @ new2)) vs vs'"
      "\<forall>ov \<in> set new2. \<exists>a \<in> A. object_rel D st ((pool @ new1) @ new2) a ov"
      unfolding copied_def by blast
    have "\<forall>ov \<in> set (new1 @ new2). \<exists>a \<in> A. object_rel D st (pool @ new1 @ new2) a ov"
      using 1(4) 2(4) object_rel_mono [OF _ pool_ext_append, of D st "pool @ new1" _ _ new2] by (auto; metis append.assoc)
    moreover have "value_rel D st (pool @ new1 @ new2) v v'"
      using value_rel_mono [OF v'(2) pool_ext_append, of new2] by simp
    ultimately show ?thesis
      using read_values_Suc [OF _ 2(1), of "b1 @ b2 @ rest" pool v'] 1(1) v'(1) 2(2,3)
      by (intro exI [of _ "v' # vs'"] exI [of _ "new1 @ new2"]) simp
  qed
  then show ?thesis
    using a b write_values_Cons [of D v "mark st X" b1 "mark st X1" vs b2 "mark st X2"] unfolding copied_def by auto
qed

lemma copied_simple:
  assumes D: "debug_ok D" and v: "value_ok {} v" and X: "X \<subseteq> A"
  shows "\<exists>b. copied D loc0 A st [v] X b X"
proof -
  obtain b where b: "write_values D [v] (mark st X) = Some (b, mark st X)"
    "\<And>rest pool. read_values D loc0 1 (b @ rest) pool = Some ([as_read D v], rest, pool)"
    using simple_written [OF D v, of "mark st X" loc0] by blast
  have "value_rel D st pool v (as_read D v)" for pool using v by (cases v) auto
  with b X show ?thesis by (auto simp: copied_def intro!: exI [of _ b] exI [of _ "[]"])
qed

lemma find_pool_Some: "find_pool i pool = Some k \<Longrightarrow> k < length pool \<and> ov_id (pool ! k) = i"
proof -
  assume "find_pool i pool = Some k"
  then obtain ks where eq: "filter (\<lambda>k. ov_id (pool ! k) = i) (rev [0..<length pool]) = k # ks"
    by (auto simp: find_pool_def split: list.splits)
  have "k \<in> set (filter (\<lambda>k. ov_id (pool ! k) = i) (rev [0..<length pool]))" unfolding eq by simp
  then show ?thesis by simp
qed

lemma find_pool_None: "find_pool i pool = None \<longleftrightarrow> i \<notin> set (map ov_id pool)"
proof -
  have "find_pool i pool = None \<longleftrightarrow> filter (\<lambda>k. ov_id (pool ! k) = i) (rev [0..<length pool]) = []"
    by (simp add: find_pool_def split: list.splits)
  also have "\<dots> \<longleftrightarrow> (\<forall>k < length pool. ov_id (pool ! k) \<noteq> i)" by (auto simp: filter_empty_conv)
  also have "\<dots> \<longleftrightarrow> i \<notin> set (map ov_id pool)" using in_set_conv_nth [of i "map ov_id pool"] by auto
  finally show ?thesis .
qed

lemma copied_cached:
  assumes D: "debug_ok D" and g: "graph_ok A st" and X: "X \<subseteq> A" and a: "a \<in> X"
  shows "\<exists>b. copied D loc0 A st [ObjectRef a] X b X"
proof -
  let ?b = "w_int D OBJECT_ID_CODE @ w_int D (ov_id (st a))"
  have id32: "in32 (ov_id (st a))" "in32 OBJECT_ID_CODE" using g X a by (auto simp: graph_ok_def in32_def scope_codes)
  have wr: "write_values D [ObjectRef a] (mark st X) = Some (?b, mark st X)"
    using a by (subst write_values.simps) (simp add: write_head_def write_object_def mark_def)
  have cached: "\<exists>k < length pool. ov_id (pool ! k) = ov_id (st a) \<and>
      read_values D loc0 1 (?b @ rest) pool = Some ([ObjectRef k], rest, pool)" if pool: "pool_ok st X pool" for rest pool
  proof -
    have "ov_id (st a) \<in> set (map ov_id pool)" using pool a by (auto simp: pool_ok_def)
    then obtain k where k: "find_pool (ov_id (st a)) pool = Some k" using find_pool_None by fastforce
    have "read_head D loc0 (?b @ rest) pool = Some (ObjectRef k, False, 0, rest, pool)"
      by (simp add: read_head_def read_int_written [OF D id32(2)] get_cached_object_def read_int_written [OF D id32(1)] k)
        (simp add: scope_codes)
    then have "read_values D loc0 1 (?b @ rest) pool = Some ([ObjectRef k], rest, pool)"
      by (subst read_values.simps) (simp add: read_tail_def set_field_length_def)
    with find_pool_Some [OF k] show ?thesis by blast
  qed
  have "\<exists>vs' new. read_values D loc0 (length [ObjectRef a]) (?b @ rest) pool = Some (vs', rest, pool @ new) \<and>
      pool_ok st X (pool @ new) \<and> list_all2 (value_rel D st (pool @ new)) [ObjectRef a] vs' \<and>
      (\<forall>ov \<in> set new. \<exists>a \<in> A. object_rel D st (pool @ new) a ov)" if pool: "pool_ok st X pool" for rest pool
  proof -
    from cached [OF pool, of rest] obtain k where
      "k < length pool" "ov_id (pool ! k) = ov_id (st a)" "read_values D loc0 1 (?b @ rest) pool = Some ([ObjectRef k], rest, pool)" by blast
    with pool show ?thesis by (intro exI [of _ "[ObjectRef k]"] exI [of _ "[]"]) simp
  qed
  with wr show ?thesis using X unfolding copied_def by blast
qed

text \<open>A new object: the reader's steps around its fields.\<close>

lemma object_code_class: "class_of_code (object_code ov) = ov_class ov" "in32 (object_code ov)"
  "object_code ov = OBJECT_CODE \<or> object_code ov = AUTO_BOX_OBJECT_CODE \<or> object_code ov = STACK_OBJECT_CODE"
  by (cases "ov_class ov"; simp add: object_code_def class_of_code_def scope_codes is_stack_object_def is_auto_box_def in32_def)+

lemma write_object_new:
  assumes D: "debug_ok D" and g: "graph_ok A st" and a: "a \<in> A" "a \<notin> X"
  obtains kb fb where "write_object D a (mark st X) =
      Some (w_int D (object_code (st a)) @ w_int D (ov_id (st a)) @ kb @ w_int D (int (length (ov_field_values (st a)))),
            ov_field_values (st a), if is_stack_object (st a) then w_location D (ov_location (st a)) @ fb else [], mark st (insert a X))"
    "\<And>pool rest. read_object_head D loc0 (object_code (st a))
         (w_int D (ov_id (st a)) @ kb @ w_int D (int (length (ov_field_values (st a)))) @ rest) pool =
       (if find_pool (ov_id (st a)) pool \<noteq> None then None
        else Some (length (ov_field_values (st a)), rest, pool @ [(new_ObjectValue (ov_class (st a)) loc0 (ov_id (st a)))
               \<lparr>ov_klass := map_option (as_read D) (ov_klass (st a))\<rparr>]))"
    "\<And>pool rest. is_stack_object (st a) \<Longrightarrow> \<exists>fl. ov_field_length (st a) = Some fl \<and>
       read_values D loc0 1 (fb @ rest) pool = Some ([as_read D fl], rest, pool)"
proof -
  from g a(1) obtain h where ids: "in32 (ov_id (st a))" "ov_klass (st a) = Some (ConstantOopWriteValue h)"
    "in32 (int (length (ov_field_values (st a))))" by (auto simp: graph_ok_def)
  let ?kb = "w_int D CONSTANT_OOP_CODE @ write_handle D h"
  have kc: "in32 CONSTANT_OOP_CODE" by (simp add: in32_def scope_codes)
  have k: "read_simple D CONSTANT_OOP_CODE (write_handle D h @ rest) = Some (as_read D (ConstantOopWriteValue h), rest)" for rest
    using write_simple_ok(4) [OF D, of "ConstantOopWriteValue h"] by simp
  have rh: "read_object_head D loc0 (object_code (st a))
       (w_int D (ov_id (st a)) @ ?kb @ w_int D (int (length (ov_field_values (st a)))) @ rest) pool =
     (if find_pool (ov_id (st a)) pool \<noteq> None then None
      else Some (length (ov_field_values (st a)), rest, pool @ [(new_ObjectValue (ov_class (st a)) loc0 (ov_id (st a)))
             \<lparr>ov_klass := map_option (as_read D) (ov_klass (st a))\<rparr>]))" for pool rest
    by (simp add: read_object_head_def read_int_written [OF D ids(1)] read_int_written [OF D kc] k
        read_int_written [OF D ids(3)] ids(2) object_code_class)
  have mk: "(mark st X)(a := (mark st X a)\<lparr>ov_visited := True\<rparr>) = mark st (insert a X)"
    by (auto simp: mark_def fun_eq_iff)
  have ma: "ov_visited (mark st X a) = False" "ov_klass (mark st X a) = ov_klass (st a)" "ov_id (mark st X a) = ov_id (st a)"
    "ov_field_values (mark st X a) = ov_field_values (st a)" "ov_location (mark st X a) = ov_location (st a)"
    "ov_field_length (mark st X a) = ov_field_length (st a)" "is_stack_object (mark st X a) = is_stack_object (st a)"
    "object_code (mark st X a) = object_code (st a)"
    using a(2) by (simp_all add: mark_def is_stack_object_def object_code_def is_auto_box_def)
  show thesis
  proof (cases "is_stack_object (st a)")
    case False
    with mk rh show thesis by (intro that [of ?kb "[]"]) (simp_all add: write_object_def ma ids(2) Let_def)
  next
    case True
    with g a(1) obtain n where n: "ov_field_length (st a) = Some (ConstantIntValue n)" "in32 n" by (auto simp: graph_ok_def)
    have vi: "value_ok {} (ConstantIntValue n)" using n(2) by simp
    obtain fb where fb: "write_simple D (ConstantIntValue n) = Some fb"
      "\<And>rest pool. read_values D loc0 1 (fb @ rest) pool = Some ([as_read D (ConstantIntValue n)], rest, pool)"
      using simple_written [OF D vi, of "mark st X" loc0] by blast
    from True mk rh fb n show thesis by (intro that [of ?kb fb]) (simp_all add: write_object_def ma ids(2) Let_def)
  qed
qed

lemma read_tail_new:
  "read_tail D True (length pool) fs bs (pool @ ov # new) =
     (if is_stack_object ov then
        (case r_location D bs of
           None \<Rightarrow> None
         | Some (l, bs1) \<Rightarrow> Some (1, bs1, pool @ ov\<lparr>ov_field_values := ov_field_values ov @ fs, ov_location := l\<rparr> # new))
      else Some (0, bs, pool @ ov\<lparr>ov_field_values := ov_field_values ov @ fs\<rparr> # new))"
  by (simp add: read_tail_def Let_def split: option.split)

lemma copied_object:
  assumes D: "debug_ok D" and g: "graph_ok A st" and a: "a \<in> A" "a \<notin> X" and X: "X \<subseteq> A"
    and f: "copied D loc0 A st (ov_field_values (st a)) (insert a X) bf X2"
  shows "\<exists>b. copied D loc0 A st [ObjectRef a] X b X2"
proof -
  let ?fs = "ov_field_values (st a)"
  obtain kb fb where w: "write_object D a (mark st X) =
      Some (w_int D (object_code (st a)) @ w_int D (ov_id (st a)) @ kb @ w_int D (int (length ?fs)),
            ?fs, if is_stack_object (st a) then w_location D (ov_location (st a)) @ fb else [], mark st (insert a X))"
    and rh: "\<And>pool rest. read_object_head D loc0 (object_code (st a)) (w_int D (ov_id (st a)) @ kb @ w_int D (int (length ?fs)) @ rest) pool =
       (if find_pool (ov_id (st a)) pool \<noteq> None then None
        else Some (length ?fs, rest, pool @ [(new_ObjectValue (ov_class (st a)) loc0 (ov_id (st a)))
               \<lparr>ov_klass := map_option (as_read D) (ov_klass (st a))\<rparr>]))"
    and rf: "\<And>pool rest. is_stack_object (st a) \<Longrightarrow> \<exists>fl. ov_field_length (st a) = Some fl \<and>
       read_values D loc0 1 (fb @ rest) pool = Some ([as_read D fl], rest, pool)"
    using write_object_new [OF D g a, of loc0] by blast
  let ?tl = "if is_stack_object (st a) then w_location D (ov_location (st a)) @ fb else []"
  let ?b = "(w_int D (object_code (st a)) @ w_int D (ov_id (st a)) @ kb @ w_int D (int (length ?fs))) @ bf @ ?tl"
  let ?o = "(new_ObjectValue (ov_class (st a)) loc0 (ov_id (st a)))\<lparr>ov_klass := map_option (as_read D) (ov_klass (st a))\<rparr>"
  have wf: "write_values D ?fs (mark st (insert a X)) = Some (bf, mark st X2)" "insert a X \<subseteq> X2" "X2 \<subseteq> A" using f by (simp_all add: copied_def)
  have wr: "write_values D [ObjectRef a] (mark st X) = Some (?b, mark st X2)"
    by (subst write_values.simps) (simp add: write_head_def w wf(1))
  have "\<exists>vs' new. read_values D loc0 (length [ObjectRef a]) (?b @ rest) pool = Some (vs', rest, pool @ new) \<and>
      pool_ok st X2 (pool @ new) \<and> list_all2 (value_rel D st (pool @ new)) [ObjectRef a] vs' \<and>
      (\<forall>ov \<in> set new. \<exists>a \<in> A. object_rel D st (pool @ new) a ov)" if pool: "pool_ok st X pool" for rest pool
  proof -
    have fresh: "ov_id (st a) \<notin> set (map ov_id pool)"
      using pool a X g by (auto simp: pool_ok_def graph_ok_def dest: inj_onD)
    then have fp: "find_pool (ov_id (st a)) pool = None" by (simp add: find_pool_None)
    have "pool_ok st (insert a X) (pool @ [?o])" using pool fresh by (auto simp: pool_ok_def new_ObjectValue_def)
    with f obtain fs' new where r: "read_values D loc0 (length ?fs) (bf @ ?tl @ rest) (pool @ [?o]) = Some (fs', ?tl @ rest, (pool @ [?o]) @ new)"
      "pool_ok st X2 ((pool @ [?o]) @ new)" "list_all2 (value_rel D st ((pool @ [?o]) @ new)) ?fs fs'"
      "\<forall>ov \<in> set new. \<exists>a \<in> A. object_rel D st ((pool @ [?o]) @ new) a ov"
      unfolding copied_def by (blast dest!: spec [of _ "?tl @ rest"])
    have hd: "read_head D loc0 (?b @ rest) pool = Some (ObjectRef (length pool), True, length ?fs, bf @ ?tl @ rest, pool @ [?o])"
      using object_code_class(3) [of "st a"]
      by (simp add: read_head_def read_int_written [OF D object_code_class(2)] rh fp)
    obtain ob where ob: "ob = ?o" by blast
    have obf: "ov_field_values ob = []" "is_stack_object ob = is_stack_object (st a)"
      by (simp_all add: ob is_stack_object_def new_ObjectValue_def)
    have r1: "read_values D loc0 (length ?fs) (bf @ ?tl @ rest) (pool @ [ob]) = Some (fs', ?tl @ rest, pool @ ob # new)" using r(1) ob by simp
    obtain o2 where o2: "o2 = (if is_stack_object (st a) then ob\<lparr>ov_field_values := fs', ov_location := ov_location (st a),
        ov_field_length := map_option (as_read D) (ov_field_length (st a))\<rparr> else ob\<lparr>ov_field_values := fs'\<rparr>)" by blast
    note rv = read_values.simps [of D loc0 1 "?b @ rest" pool, unfolded hd [folded ob]]
    have read: "read_values D loc0 1 (?b @ rest) pool = Some ([ObjectRef (length pool)], rest, pool @ o2 # new)"
    proof (cases "is_stack_object (st a)")
      case False
      with r1 o2 obf show ?thesis by (subst rv) (simp add: read_tail_new set_field_length_def)
    next
      case True
      obtain fl where f1: "ov_field_length (st a) = Some fl" using rf [OF True] by blast
      have "read_values D loc0 1 (fb @ rest) pool = Some ([as_read D fl], rest, pool)" for pool
        using rf [OF True, where rest = rest and pool = pool] f1 by auto
      note fl = f1 this
      have rl: "r_location D (w_location D l @ bs) = Some (l, bs)" for l bs using D by (simp add: debug_ok_def)
      from True r1 o2 obf fl show ?thesis by (subst rv) (simp add: read_tail_new rl set_field_length_def)
    qed
    have ids: "map ov_id (pool @ o2 # new) = map ov_id ((pool @ [?o]) @ new)" by (simp add: o2 ob new_ObjectValue_def)
    have ext: "pool_ext ((pool @ [?o]) @ new) (pool @ o2 # new)" using ids by (auto simp: pool_ext_def)
    have "pool_ok st X2 (pool @ o2 # new)" using r(2) unfolding pool_ok_def ids .
    moreover have "ov_id (st a) = ov_id ((pool @ o2 # new) ! length pool)" by (simp add: o2 ob new_ObjectValue_def)
    moreover have "object_rel D st (pool @ o2 # new) a o2"
      using value_rel_list [OF r(3) ext] by (auto simp: object_rel_def o2 ob new_ObjectValue_def)
    moreover have "\<forall>ov \<in> set new. \<exists>a \<in> A. object_rel D st (pool @ o2 # new) a ov"
      using r(4) object_rel_mono [OF _ ext] by blast
    ultimately show ?thesis
      using read a(1) by (intro exI [of _ "[ObjectRef (length pool)]"] exI [of _ "o2 # new"]) auto
  qed
  with wr wf show ?thesis unfolding copied_def by blast
qed

lemma copied_all:
  assumes D: "debug_ok D" and g: "graph_ok A st" and "X \<subseteq> A" and "\<forall>v \<in> set vs. value_ok A v"
  shows "\<exists>b X'. copied D loc0 A st vs X b X'"
  using assms(3,4)
proof (induction "(vs, X)" arbitrary: vs X rule: wf_induct_rule [OF wf_measures [of "[\<lambda>(vs, X). card (A - X), \<lambda>(vs, X). length vs]"]])
  case 1
  have fin: "finite A" using g by (simp add: graph_ok_def)
  show ?case
  proof (cases vs)
    case Nil
    then show ?thesis using copied_Nil "1.prems"(1) by blast
  next
    case (Cons v vs1)
    have "\<exists>b X1. copied D loc0 A st [v] X b X1"
    proof (cases "\<exists>a. v = ObjectRef a")
      case True
      then obtain a where v: "v = ObjectRef a" by blast
      then have a: "a \<in> A" using "1.prems"(2) Cons by simp
      show ?thesis
      proof (cases "a \<in> X")
        case True
        with copied_cached [OF D g "1.prems"(1)] v show ?thesis by blast
      next
        case False
        have "A - insert a X \<subset> A - X" using a False by auto
        then have "card (A - insert a X) < card (A - X)" using fin by (intro psubset_card_mono) auto
        moreover have "insert a X \<subseteq> A" "\<forall>v \<in> set (ov_field_values (st a)). value_ok A v" using a "1.prems"(1) g by (auto simp: graph_ok_def)
        ultimately obtain bf X2 where "copied D loc0 A st (ov_field_values (st a)) (insert a X) bf X2" using 1(1) by fastforce
        from copied_object [OF D g a False "1.prems"(1) this] v show ?thesis by blast
      qed
    next
      case False
      then have "value_ok {} v" using "1.prems"(2) Cons by (cases v) auto
      from copied_simple [OF D this "1.prems"(1)] show ?thesis by blast
    qed
    then obtain b1 X1 where c1: "copied D loc0 A st [v] X b1 X1" by blast
    then have X1: "X \<subseteq> X1" "X1 \<subseteq> A" by (simp_all add: copied_def)
    then have "card (A - X1) \<le> card (A - X)" using fin by (intro card_mono) auto
    then have "card (A - X1) < card (A - X) \<or> card (A - X1) = card (A - X)" by auto
    then obtain b2 X2 where "copied D loc0 A st vs1 X1 b2 X2" using 1(1) [of vs1 X1] X1 "1.prems"(2) Cons by auto
    from copied_Cons [OF c1 this] Cons show ?thesis by blast
  qed
qed

section \<open>Round trips\<close>

text \<open>A description of objects that has not been written yet.\<close>

definition unvisited :: "object_store \<Rightarrow> bool" where
  "unvisited st \<longleftrightarrow> (\<forall>a. \<not> ov_visited (st a))"

lemma unvisited_mark: "unvisited st \<Longrightarrow> mark st {} = st"
  by (simp add: unvisited_def mark_def fun_eq_iff)

lemma pool_ok_Nil: "pool_ok st {} []"
  by (simp add: pool_ok_def)

text \<open>
  C32: The values of a scope survive their serialization. Whatever graph of scalar replaced, boxed
  and stack allocated objects the values refer to, cyclic or shared, writing succeeds, and reading
  the bytes back gives values related one to one to the ones written: constants are equal, handles
  become their oops, and references to objects lead to an object of the pool with the same id. Every
  object of the pool has the class, the klass, the fields and, for a stack object, the location and
  the number of fields of the object written, and no object is read twice.
\<close>

theorem scope_values_roundtrip:
  assumes D: "debug_ok D" and g: "graph_ok A st" and u: "unvisited st" and v: "\<forall>v \<in> set vs. value_ok A v"
  shows "\<exists>bs st'. write_values D vs st = Some (bs, st') \<and>
    (\<forall>rest. \<exists>vs' pool. read_values D loc0 (length vs) (bs @ rest) [] = Some (vs', rest, pool) \<and>
       list_all2 (value_rel D st pool) vs vs' \<and> distinct (map ov_id pool) \<and>
       (\<forall>ov \<in> set pool. \<exists>a \<in> A. object_rel D st pool a ov))"
proof -
  obtain b X where c: "copied D loc0 A st vs {} b X" using copied_all [OF D g _ v] by blast
  have "\<exists>vs' pool. read_values D loc0 (length vs) (b @ rest) [] = Some (vs', rest, pool) \<and>
       list_all2 (value_rel D st pool) vs vs' \<and> distinct (map ov_id pool) \<and>
       (\<forall>ov \<in> set pool. \<exists>a \<in> A. object_rel D st pool a ov)" for rest
    using copied_read [OF c pool_ok_Nil, of rest] by (auto simp: pool_ok_def)
  moreover have "write_values D vs st = Some (b, mark st X)" using c unvisited_mark [OF u] by (simp add: copied_def)
  ultimately show ?thesis by blast
qed

text \<open>
  A concrete stream: a sign and a number in unary, for every kind of datum.
\<close>

definition unary :: "int \<Rightarrow> u1 list" where
  "unary v = (if v < 0 then 1 else 0) # replicate (nat \<bar>v\<bar>) 1 @ [0]"

definition read_unary :: "u1 list \<Rightarrow> (int \<times> u1 list) option" where
  "read_unary bs =
     (case bs of
        [] \<Rightarrow> None
      | s # bs1 \<Rightarrow> let n = int (length (takeWhile (\<lambda>b. b = 1) bs1)) in
          Some (if s = 1 then - n else n, drop 1 (dropWhile (\<lambda>b. b = 1) bs1)))"

lemma takeWhile_replicate_append: "P x \<Longrightarrow> \<not> P y \<Longrightarrow> takeWhile P (replicate n x @ y # zs) = replicate n x"
  by (induction n) auto

lemma dropWhile_replicate_append: "P x \<Longrightarrow> \<not> P y \<Longrightarrow> dropWhile P (replicate n x @ y # zs) = y # zs"
  by (induction n) auto

lemma read_unary_unary [simp]: "read_unary (unary v @ rest) = Some (v, rest)"
  by (simp add: read_unary_def unary_def Let_def takeWhile_replicate_append dropWhile_replicate_append)

definition sample_debug :: debug_stream where
  "sample_debug = \<lparr>w_int = unary, r_int = read_unary, w_signed_int = unary, r_signed_int = read_unary,
     w_long = unary, r_long = read_unary, w_double = (\<lambda>w. unary (uint w)), r_double = (\<lambda>bs. map_option (apfst word_of_int) (read_unary bs)),
     w_bool = (\<lambda>b. unary (of_bool b)), r_bool = (\<lambda>bs. map_option (apfst (\<lambda>i. i \<noteq> 0)) (read_unary bs)),
     w_location = (\<lambda>w. unary (uint w)), r_location = (\<lambda>bs. map_option (apfst word_of_int) (read_unary bs)),
     find_index = (\<lambda>h. int (h mod 100)), oop_at = nat\<rparr>"

lemma sample_debug_ok: "debug_ok sample_debug"
proof -
  have "in32 (int (h mod 100))" for h :: nat
  proof -
    have "h mod 100 < 100" by simp
    then have "int (h mod 100) < 100" by linarith
    moreover have "0 \<le> int (h mod 100)" by simp
    ultimately show ?thesis unfolding in32_def by (simp only: power_numeral) simp
  qed
  then show ?thesis by (simp add: debug_ok_def sample_debug_def)
qed

text \<open>A stack object of two fields and a scalar replaced one that refer to each other.\<close>

definition sample_objects :: object_store where
  "sample_objects a =
     (if a = 0 then \<lparr>ov_class = StackObjectValue, ov_id = 40, ov_klass = Some (ConstantOopWriteValue 3),
        ov_field_values = [ObjectRef 1, ConstantIntValue (- 5)], ov_visited = False, ov_location = 24,
        ov_field_length = Some (ConstantIntValue 2)\<rparr>
      else \<lparr>ov_class = ObjectValue, ov_id = 41, ov_klass = Some (ConstantOopWriteValue 4),
        ov_field_values = [ObjectRef 0], ov_visited = False, ov_location = 0, ov_field_length = None\<rparr>)"

lemma sample_objects_ok: "graph_ok {0, 1} sample_objects" "unvisited sample_objects"
  by (auto simp: graph_ok_def unvisited_def sample_objects_def in32_def is_stack_object_def)

theorem scope_values_roundtrip_witness:
  "debug_ok sample_debug \<and> graph_ok {0, 1} sample_objects \<and> unvisited sample_objects \<and>
   (\<exists>bs st'. write_values sample_debug [ObjectRef 0, MarkerValue, ObjectRef 1] sample_objects = Some (bs, st') \<and>
    (\<forall>rest. \<exists>vs' pool. read_values sample_debug 0 (length [ObjectRef 0, MarkerValue, ObjectRef 1]) (bs @ rest) [] = Some (vs', rest, pool) \<and>
       list_all2 (value_rel sample_debug sample_objects pool) [ObjectRef 0, MarkerValue, ObjectRef 1] vs' \<and> distinct (map ov_id pool) \<and>
       (\<forall>ov \<in> set pool. \<exists>a \<in> {0, 1}. object_rel sample_debug sample_objects pool a ov)))"
  using scope_values_roundtrip [OF sample_debug_ok sample_objects_ok, of "[ObjectRef 0, MarkerValue, ObjectRef 1]" 0]
    sample_debug_ok sample_objects_ok by (simp only: list.set) auto

text \<open>
  A monitor is read back with the lock, the eliminated flag and the owner it was written with;
  the owner may be an object description, also one that was written before.
\<close>

theorem monitor_roundtrip:
  assumes D: "debug_ok D" and g: "graph_ok A st" and X: "X \<subseteq> A" and v: "value_ok A (mv_owner m)"
  shows "\<exists>bs X'. write_monitor D m (mark st X) = Some (bs, mark st X') \<and> X \<subseteq> X' \<and>
    (\<forall>rest pool. pool_ok st X pool \<longrightarrow>
       (\<exists>m' new. read_monitor D loc0 (bs @ rest) pool = Some (m', rest, pool @ new) \<and> pool_ok st X' (pool @ new) \<and>
          mv_basic_lock m' = mv_basic_lock m \<and> mv_eliminated m' = mv_eliminated m \<and>
          value_rel D st (pool @ new) (mv_owner m) (mv_owner m')))"
proof -
  obtain b X' where c: "copied D loc0 A st [mv_owner m] X b X'" using copied_all [OF D g X, of "[mv_owner m]" loc0] v by auto
  let ?b = "w_location D (mv_basic_lock m) @ b @ w_bool D (mv_eliminated m)"
  have "write_monitor D m (mark st X) = Some (?b, mark st X')" "X \<subseteq> X'" using c by (simp_all add: write_monitor_def copied_def)
  moreover have "\<exists>m' new. read_monitor D loc0 (?b @ rest) pool = Some (m', rest, pool @ new) \<and> pool_ok st X' (pool @ new) \<and>
          mv_basic_lock m' = mv_basic_lock m \<and> mv_eliminated m' = mv_eliminated m \<and>
          value_rel D st (pool @ new) (mv_owner m) (mv_owner m')" if p: "pool_ok st X pool" for rest pool
  proof -
    obtain vs' new where r: "read_values D loc0 1 (b @ w_bool D (mv_eliminated m) @ rest) pool = Some (vs', w_bool D (mv_eliminated m) @ rest, pool @ new)"
      "pool_ok st X' (pool @ new)" "list_all2 (value_rel D st (pool @ new)) [mv_owner m] vs'"
      using copied_read [OF c p, of "w_bool D (mv_eliminated m) @ rest"] by auto
    have rl: "r_location D (w_location D l @ bs) = Some (l, bs)" "r_bool D (w_bool D e @ bs) = Some (e, bs)" for l e bs
      using D by (simp_all add: debug_ok_def)
    from r show ?thesis by (auto simp: read_monitor_def rl list_all2_Cons1)
  qed
  ultimately show ?thesis by blast
qed

theorem monitor_roundtrip_witness:
  "\<exists>bs X'. write_monitor sample_debug \<lparr>mv_owner = ObjectRef 0, mv_basic_lock = 8, mv_eliminated = True\<rparr> (mark sample_objects {}) = Some (bs, mark sample_objects X') \<and> {} \<subseteq> X' \<and>
    (\<forall>rest pool. pool_ok sample_objects {} pool \<longrightarrow>
       (\<exists>m' new. read_monitor sample_debug 0 (bs @ rest) pool = Some (m', rest, pool @ new) \<and> pool_ok sample_objects X' (pool @ new) \<and>
          mv_basic_lock m' = 8 \<and> mv_eliminated m' = True \<and>
          value_rel sample_debug sample_objects (pool @ new) (ObjectRef 0) (mv_owner m')))"
  using monitor_roundtrip [OF sample_debug_ok sample_objects_ok(1), of "{}" "\<lparr>mv_owner = ObjectRef 0, mv_basic_lock = 8, mv_eliminated = True\<rparr>" 0] by simp

end
