(* ===== verification/Deopt_Objects.thy ===== *)
theory Deopt_Objects
  imports Raw_Memory Scope_Values
begin

text \<open>
  Deoptimization gives the objects that a compiled frame holds in its registers, its debug
  information or its stack a place in the heap (\<open>runtime/deoptimization.cpp\<close>, \<open>realloc_objects\<close> and
  \<open>reassign_fields\<close>). The build modelled has 64-bit words, is little endian, and has JVMCI; a failed
  \<open>assert\<close> is \<open>None\<close>.
\<close>

section \<open>Types and the environment\<close>

record field_desc =
  fd_offset :: nat
  fd_type :: BasicType
  fd_static :: bool
  fd_internal :: bool

datatype instance_klass = InstanceKlass (own_fields: "field_desc list") (superklass: "instance_klass option")

datatype klass = Instance instance_klass | TypeArray BasicType | ObjArray

text \<open>What \<open>StackValue::create_stack_value\<close> returns.\<close>

datatype stack_value = SVInt intptr | SVObj nat | SVConflict

text \<open>
  The frame, the locations of \<open>code/location.hpp\<close>, the classes and the layout of objects are
  arguments. An oop is its address, and \<open>0\<close> is the null pointer; \<open>normalize_bool\<close> is what the store of a boolean
  keeps of it, and \<open>encode_oop\<close>, \<open>decode_oop\<close> are what is kept of an oop in the \<open>oop_bytes\<close> of a field.
  \<open>nonstatic_fields\<close> are the fields \<open>do_nonstatic_fields\<close> enumerates.
\<close>

record deopt_env =
  sp_base :: nat
  frame_words :: nat
  loc_is_stack :: "Location \<Rightarrow> bool"
  loc_is_register :: "Location \<Rightarrow> bool"
  loc_is_oop :: "Location \<Rightarrow> bool"
  loc_is_big :: "Location \<Rightarrow> bool"
  stack_offset :: "Location \<Rightarrow> int"
  reg_location :: "Location \<Rightarrow> nat"
  create_stack_value :: "(nat \<Rightarrow> nat) \<Rightarrow> memory \<Rightarrow> scope_value \<Rightarrow> stack_value"
  as_Klass :: "nat \<Rightarrow> klass"
  nonstatic_fields :: "instance_klass \<Rightarrow> field_desc list"
  base_offset :: "BasicType \<Rightarrow> nat"
  length_offset :: nat
  oop_bytes :: nat
  encode_oop :: "nat \<Rightarrow> intptr"
  decode_oop :: "intptr \<Rightarrow> nat"
  normalize_bool :: "intptr \<Rightarrow> intptr"

fun type_bytes :: "BasicType \<Rightarrow> nat" where
  "type_bytes T_BOOLEAN = 1"
| "type_bytes T_BYTE = 1"
| "type_bytes T_CHAR = 2"
| "type_bytes T_SHORT = 2"
| "type_bytes T_INT = 4"
| "type_bytes T_FLOAT = 4"
| "type_bytes T_LONG = 8"
| "type_bytes T_DOUBLE = 8"
| "type_bytes _ = 0"

definition is_oop_type :: "BasicType \<Rightarrow> bool" where
  "is_oop_type ty \<longleftrightarrow> ty = T_OBJECT \<or> ty = T_ARRAY"

text \<open>The accessors of fields and elements, at the address of the field or element.\<close>

definition prim_put :: "deopt_env \<Rightarrow> BasicType \<Rightarrow> nat \<Rightarrow> intptr \<Rightarrow> memory \<Rightarrow> memory" where
  "prim_put E ty a v m = store (type_bytes ty) a (if ty = T_BOOLEAN then normalize_bool E v else v) m"

definition oop_put :: "deopt_env \<Rightarrow> nat \<Rightarrow> nat \<Rightarrow> memory \<Rightarrow> memory" where
  "oop_put E a p m = store (oop_bytes E) a (encode_oop E p) m"

definition oop_get :: "deopt_env \<Rightarrow> memory \<Rightarrow> nat \<Rightarrow> nat" where
  "oop_get E m a = decode_oop E (load (oop_bytes E) m a)"

definition elem_addr :: "deopt_env \<Rightarrow> BasicType \<Rightarrow> nat \<Rightarrow> nat \<Rightarrow> nat" where
  "elem_addr E ty p i = p + base_offset E ty + i * (if is_oop_type ty then oop_bytes E else type_bytes ty)"

definition array_length :: "deopt_env \<Rightarrow> memory \<Rightarrow> nat \<Rightarrow> int" where
  "array_length E m p = signed_take_bit 31 (uint (load 4 m (p + length_offset E)))"

section \<open>References into the frame\<close>

definition in_stack :: "deopt_env \<Rightarrow> nat \<Rightarrow> bool" where
  "in_stack E p \<longleftrightarrow> sp_base E \<le> p \<and> p < sp_base E + 8 * frame_words E"

definition frame_offset :: "deopt_env \<Rightarrow> nat \<Rightarrow> int" where
  "frame_offset E p = signed_take_bit 31 (int p - int (sp_base E))"

definition matches_offset :: "deopt_env \<Rightarrow> object_store \<Rightarrow> int \<Rightarrow> scope_value \<Rightarrow> bool" where
  "matches_offset E st off v \<longleftrightarrow>
     (case v of
        ObjectRef a \<Rightarrow> is_stack_object (st a) \<and> stack_offset E (ov_location (st a)) = off
      | _ \<Rightarrow> False)"

definition match_object_to_stack_oop :: "deopt_env \<Rightarrow> object_store \<Rightarrow> nat \<Rightarrow> scope_value list \<Rightarrow> scope_value option" where
  "match_object_to_stack_oop E st oop_ptr objects = List.find (matches_offset E st (frame_offset E oop_ptr)) objects"

definition replace_stack_oop :: "deopt_env \<Rightarrow> object_store \<Rightarrow> scope_value list \<Rightarrow> nat \<Rightarrow> scope_value \<Rightarrow> scope_value option" where
  "replace_stack_oop E st objects oop_ptr sv =
     (if in_stack E oop_ptr then match_object_to_stack_oop E st oop_ptr objects else Some sv)"

text \<open>\<open>val\<close> is the \<open>_value\<close> of the objects, where they were reallocated.\<close>

definition get_scope_value :: "deopt_env \<Rightarrow> object_store \<Rightarrow> (nat \<Rightarrow> nat) \<Rightarrow> memory \<Rightarrow> scope_value list \<Rightarrow>
    scope_value \<Rightarrow> scope_value option" where
  "get_scope_value E st val m objects sv =
     (case sv of
        LocationValue loc \<Rightarrow>
          if objects = [] then Some sv
          else if loc_is_stack E loc \<and> loc_is_oop E loc then
            replace_stack_oop E st objects (unat (load 8 m (nat (int (sp_base E) + stack_offset E loc)))) sv
          else if loc_is_register E loc \<and> loc_is_oop E loc then
            replace_stack_oop E st objects (unat (load 8 m (reg_location E loc))) sv
          else if loc_is_oop E loc then None
          else Some sv
      | ObjectRef a \<Rightarrow> replace_stack_oop E st objects (val a) sv
      | _ \<Rightarrow> Some sv)"

section \<open>Allocation\<close>

record deopt_state =
  ds_mem :: memory
  ds_value :: "nat \<Rightarrow> nat"
  ds_cached :: "nat \<Rightarrow> bool"
  ds_pending :: "nat option"

definition object_klass :: "deopt_env \<Rightarrow> object_value \<Rightarrow> klass option" where
  "object_klass E ov = (case ov_klass ov of Some (ConstantOopReadValue h) \<Rightarrow> Some (as_Klass E h) | _ \<Rightarrow> None)"

definition type2size :: "BasicType \<Rightarrow> nat" where
  "type2size ty = (if ty = T_LONG \<or> ty = T_DOUBLE then 2 else 1)"

definition realloc_length :: "object_value \<Rightarrow> klass \<Rightarrow> int option" where
  "realloc_length ov k =
     (if is_stack_object ov then (case ov_field_length ov of Some (ConstantIntValue n) \<Rightarrow> Some n | _ \<Rightarrow> None)
      else
        (case k of
           TypeArray ty \<Rightarrow>
             if length (ov_field_values ov) mod type2size ty = 0 then Some (int (length (ov_field_values ov) div type2size ty)) else None
         | _ \<Rightarrow> Some (int (length (ov_field_values ov)))))"

text \<open>
  The allocator is an argument: the class, the length, the number of objects allocated before and
  the memory give the address, \<open>0\<close> when it failed, and the memory. \<open>box\<close> is \<open>get_cached_box\<close>, for code compiled
  by JVMCI.
\<close>

type_synonym allocator = "klass \<Rightarrow> int \<Rightarrow> nat \<Rightarrow> memory \<Rightarrow> nat \<times> memory"

definition realloc_object :: "deopt_env \<Rightarrow> object_store \<Rightarrow> allocator \<Rightarrow> bool \<Rightarrow> (object_value \<Rightarrow> nat) \<Rightarrow> nat \<Rightarrow> nat \<Rightarrow>
    deopt_state \<Rightarrow> deopt_state option" where
  "realloc_object E st alloc jvmci box i a s =
     (let ov = st a
      in case object_klass E ov of
           None \<Rightarrow> None
         | Some k \<Rightarrow>
             if ds_value s a \<noteq> 0 then None
             else
               (case k of
                  Instance ik \<Rightarrow>
                    let cached = (if jvmci \<and> is_auto_box ov then box ov else 0)
                    in if cached \<noteq> 0 then Some (s\<lparr>ds_value := (ds_value s)(a := cached), ds_cached := (ds_cached s)(a := True)\<rparr>)
                       else
                         (case alloc k 0 i (ds_mem s) of
                            (p, m) \<Rightarrow> Some (s\<lparr>ds_mem := m, ds_value := (ds_value s)(a := p)\<rparr>))
                | _ \<Rightarrow>
                    (case realloc_length ov k of
                       None \<Rightarrow> None
                     | Some len \<Rightarrow>
                         (case alloc k len i (ds_mem s) of
                            (p, m) \<Rightarrow> Some (s\<lparr>ds_mem := m, ds_value := (ds_value s)(a := p)\<rparr>)))))"

fun realloc_loop :: "deopt_env \<Rightarrow> object_store \<Rightarrow> allocator \<Rightarrow> bool \<Rightarrow> (object_value \<Rightarrow> nat) \<Rightarrow> nat \<Rightarrow> scope_value list \<Rightarrow>
    bool \<Rightarrow> deopt_state \<Rightarrow> (bool \<times> deopt_state) option" where
  "realloc_loop E st alloc jvmci box i [] failures s = Some (failures, s)"
| "realloc_loop E st alloc jvmci box i (ObjectRef a # vs) failures s =
     (case realloc_object E st alloc jvmci box i a s of
        None \<Rightarrow> None
      | Some s1 \<Rightarrow> realloc_loop E st alloc jvmci box (Suc i) vs (failures \<or> ds_value s1 a = 0) s1)"
| "realloc_loop E st alloc jvmci box i (_ # vs) failures s = None"

text \<open>\<open>oom\<close> is \<open>Universe::out_of_memory_error_realloc_objects\<close>.\<close>

definition realloc_objects :: "deopt_env \<Rightarrow> object_store \<Rightarrow> allocator \<Rightarrow> bool \<Rightarrow> (object_value \<Rightarrow> nat) \<Rightarrow> nat \<Rightarrow>
    scope_value list \<Rightarrow> deopt_state \<Rightarrow> (bool \<times> deopt_state) option" where
  "realloc_objects E st alloc jvmci box oom objects s =
     (let pending_exception = ds_pending s
      in case realloc_loop E st alloc jvmci box 0 objects False (s\<lparr>ds_pending := None\<rparr>) of
           None \<Rightarrow> None
         | Some (failures, s1) \<Rightarrow>
             Some (failures, s1\<lparr>ds_pending := if failures then Some oom else pending_exception\<rparr>))"

section \<open>Fields of scalar replaced objects\<close>

definition as_int :: "stack_value \<Rightarrow> intptr option" where
  "as_int v = (case v of SVInt w \<Rightarrow> Some w | _ \<Rightarrow> None)"

definition as_obj :: "stack_value \<Rightarrow> nat option" where
  "as_obj v = (case v of SVObj p \<Rightarrow> Some p | _ \<Rightarrow> None)"

definition is_big_constant :: "scope_value \<Rightarrow> bool" where
  "is_big_constant v = (case v of ConstantLongValue _ \<Rightarrow> True | ConstantDoubleValue _ \<Rightarrow> True | _ \<Rightarrow> False)"

text \<open>The fields of a class and its superclasses, by offset.\<close>

type_synonym reassigned_field = "nat \<times> BasicType"

definition compare :: "reassigned_field \<Rightarrow> reassigned_field \<Rightarrow> int" where
  "compare l r = int (fst l) - int (fst r)"

fun all_fields :: "bool \<Rightarrow> instance_klass \<Rightarrow> reassigned_field list" where
  "all_fields skip_internal (InstanceKlass fds super) =
     map (\<lambda>fd. (fd_offset fd, fd_type fd)) (filter (\<lambda>fd. \<not> fd_static fd \<and> (\<not> skip_internal \<or> \<not> fd_internal fd)) fds) @
     (case super of None \<Rightarrow> [] | Some k \<Rightarrow> all_fields skip_internal k)"

definition sorted_fields :: "bool \<Rightarrow> instance_klass \<Rightarrow> reassigned_field list" where
  "sorted_fields skip_internal ik = sort_key fst (all_fields skip_internal ik)"

text \<open>Whether the value fills this and the next field, of type \<open>int\<close>.\<close>

definition big_value :: "deopt_env \<Rightarrow> scope_value \<Rightarrow> scope_value list \<Rightarrow> reassigned_field list \<Rightarrow> bool option" where
  "big_value E u vs fs =
     (case fs of
        (_, T_INT) # _ \<Rightarrow>
          (case u of
             LocationValue l \<Rightarrow> Some (loc_is_big E l)
           | ConstantIntValue _ \<Rightarrow> (case vs of [] \<Rightarrow> None | v # _ \<Rightarrow> Some (is_big_constant v))
           | _ \<Rightarrow> Some False)
      | _ \<Rightarrow> Some False)"

definition low_value :: "deopt_env \<Rightarrow> (nat \<Rightarrow> nat) \<Rightarrow> memory \<Rightarrow> scope_value list \<Rightarrow> intptr option" where
  "low_value E val m vs = (case vs of [] \<Rightarrow> None | v # _ \<Rightarrow> as_int (create_stack_value E val m v))"

text \<open>
  One field: the memory, and how many values and how many further fields were used.
\<close>

definition assign_field :: "deopt_env \<Rightarrow> object_store \<Rightarrow> (nat \<Rightarrow> nat) \<Rightarrow> scope_value list \<Rightarrow> nat \<Rightarrow> scope_value \<Rightarrow> scope_value list \<Rightarrow>
    reassigned_field \<Rightarrow> reassigned_field list \<Rightarrow> memory \<Rightarrow> (memory \<times> nat \<times> nat) option" where
  "assign_field E st val objects obj v vs f fs m =
     (case get_scope_value E st val m objects v of
        None \<Rightarrow> None
      | Some u \<Rightarrow>
          let value = create_stack_value E val m u; offset = fst f; ty = snd f;
              put_long = (\<lambda>skip. case low_value E val m vs of None \<Rightarrow> None | Some res \<Rightarrow> Some (store 8 (obj + offset) res m, 1, skip))
          in if is_oop_type ty then
               (case as_obj value of None \<Rightarrow> None | Some p \<Rightarrow> Some (oop_put E (obj + offset) p m, 0, 0))
             else
               (case as_int value of
                  None \<Rightarrow> None
                | Some w \<Rightarrow>
                    if ty = T_INT \<or> ty = T_FLOAT then
                      (case big_value E u vs fs of
                         None \<Rightarrow> None
                       | Some True \<Rightarrow> put_long 1
                       | Some False \<Rightarrow> Some (prim_put E ty (obj + offset) w m, 0, 0))
                    else if ty = T_LONG \<or> ty = T_DOUBLE then put_long 0
                    else if ty \<in> {T_SHORT, T_CHAR, T_BYTE, T_BOOLEAN} then Some (prim_put E ty (obj + offset) w m, 0, 0)
                    else None))"

fun assign_fields :: "deopt_env \<Rightarrow> object_store \<Rightarrow> (nat \<Rightarrow> nat) \<Rightarrow> scope_value list \<Rightarrow> nat \<Rightarrow> scope_value list \<Rightarrow>
    reassigned_field list \<Rightarrow> memory \<Rightarrow> memory option" where
  "assign_fields E st val objects obj vs [] m = Some m"
| "assign_fields E st val objects obj [] (f # fs) m = None"
| "assign_fields E st val objects obj (v # vs) (f # fs) m =
     (case assign_field E st val objects obj v vs f fs m of
        None \<Rightarrow> None
      | Some (m1, j, k) \<Rightarrow> assign_fields E st val objects obj (drop j vs) (drop k fs) m1)"

definition reassign_scalar_replaced_fields_by_klass :: "deopt_env \<Rightarrow> object_store \<Rightarrow> (nat \<Rightarrow> nat) \<Rightarrow> scope_value list \<Rightarrow>
    instance_klass \<Rightarrow> object_value \<Rightarrow> nat \<Rightarrow> nat \<Rightarrow> bool \<Rightarrow> memory \<Rightarrow> memory option" where
  "reassign_scalar_replaced_fields_by_klass E st val objects ik sv svIndex obj skip_internal m =
     assign_fields E st val objects obj (drop svIndex (ov_field_values sv)) (sorted_fields skip_internal ik) m"

section \<open>Elements of scalar replaced arrays\<close>

definition is_marker :: "scope_value \<Rightarrow> bool" where
  "is_marker v \<longleftrightarrow> v = MarkerValue"

text \<open>The entry at the head of the list and the markers after it.\<close>

definition count_number_of_bytes_for_entry :: "scope_value list \<Rightarrow> nat" where
  "count_number_of_bytes_for_entry vs = Suc (length (takeWhile is_marker (drop 1 vs)))"

definition check_alignment_get_addr :: "nat \<Rightarrow> nat \<Rightarrow> nat option" where
  "check_alignment_get_addr a expected_alignment = (if a mod expected_alignment = 0 then Some a else None)"

definition byte_array_put :: "deopt_env \<Rightarrow> nat \<Rightarrow> intptr \<Rightarrow> nat \<Rightarrow> nat \<Rightarrow> memory \<Rightarrow> memory option" where
  "byte_array_put E obj v index byte_count m =
     (let a = elem_addr E T_BYTE obj index
      in if byte_count = 1 then Some (store 1 a v m)
         else if byte_count \<in> {2, 4, 8} then
           (case check_alignment_get_addr a byte_count of None \<Rightarrow> None | Some a \<Rightarrow> Some (store byte_count a v m))
         else None)"

definition big_element :: "deopt_env \<Rightarrow> BasicType \<Rightarrow> scope_value \<Rightarrow> scope_value list \<Rightarrow> bool" where
  "big_element E ty v vs \<longleftrightarrow>
     vs \<noteq> [] \<and> ty = T_INT \<and>
     (case v of LocationValue l \<Rightarrow> loc_is_big E l | ConstantIntValue _ \<Rightarrow> is_big_constant (hd vs) | _ \<Rightarrow> False)"

text \<open>One entry: the memory, how many further values it used, and how many elements it filled.\<close>

definition assign_element :: "deopt_env \<Rightarrow> (nat \<Rightarrow> nat) \<Rightarrow> nat \<Rightarrow> BasicType \<Rightarrow> nat \<Rightarrow> scope_value \<Rightarrow> scope_value list \<Rightarrow> memory \<Rightarrow>
    (memory \<times> nat \<times> nat) option" where
  "assign_element E val obj ty index v vs m =
     (case as_int (create_stack_value E val m v) of
        None \<Rightarrow> None
      | Some w \<Rightarrow>
          let a = elem_addr E ty obj index
          in if ty = T_LONG \<or> ty = T_DOUBLE then
               (case low_value E val m vs of None \<Rightarrow> None | Some res \<Rightarrow> Some (store 8 a res m, 1, 1))
             else if ty = T_INT \<or> ty = T_FLOAT then
               if big_element E ty v vs then
                 (case low_value E val m vs of
                    None \<Rightarrow> None
                  | Some res \<Rightarrow> Some (store 4 (elem_addr E ty obj (Suc index)) (drop_bit 32 res) (store 4 a res m), 1, 2))
               else Some (store 4 a w m, 0, 1)
             else if ty = T_BYTE then
               let byte_count = count_number_of_bytes_for_entry (v # vs)
               in (case byte_array_put E obj w index byte_count m of
                     None \<Rightarrow> None
                   | Some m1 \<Rightarrow> Some (m1, byte_count - 1, byte_count))
             else if ty \<in> {T_SHORT, T_CHAR, T_BOOLEAN} then Some (prim_put E ty a w m, 0, 1)
             else None)"

function reassign_type_array :: "deopt_env \<Rightarrow> (nat \<Rightarrow> nat) \<Rightarrow> nat \<Rightarrow> BasicType \<Rightarrow> nat \<Rightarrow> scope_value list \<Rightarrow> memory \<Rightarrow> memory option" where
  "reassign_type_array E val obj ty index [] m = Some m"
| "reassign_type_array E val obj ty index (v # vs) m =
     (case assign_element E val obj ty index v vs m of
        None \<Rightarrow> None
      | Some (m1, j, k) \<Rightarrow> reassign_type_array E val obj ty (index + k) (drop j vs) m1)"
  by pat_completeness auto
termination by (relation "measure (\<lambda>(_, _, _, _, _, vs, _). length vs)") (auto simp: less_Suc_eq_le)

definition reassign_scalar_replaced_type_array_elements :: "deopt_env \<Rightarrow> (nat \<Rightarrow> nat) \<Rightarrow> object_value \<Rightarrow> nat \<Rightarrow> BasicType \<Rightarrow> memory \<Rightarrow> memory option" where
  "reassign_scalar_replaced_type_array_elements E val sv obj ty m = reassign_type_array E val obj ty 0 (ov_field_values sv) m"

fun reassign_object_array :: "deopt_env \<Rightarrow> object_store \<Rightarrow> (nat \<Rightarrow> nat) \<Rightarrow> scope_value list \<Rightarrow> nat \<Rightarrow> nat \<Rightarrow> scope_value list \<Rightarrow>
    memory \<Rightarrow> memory option" where
  "reassign_object_array E st val objects obj i [] m = Some m"
| "reassign_object_array E st val objects obj i (v # vs) m =
     (case get_scope_value E st val m objects v of
        None \<Rightarrow> None
      | Some u \<Rightarrow>
          (case as_obj (create_stack_value E val m u) of
             None \<Rightarrow> None
           | Some p \<Rightarrow> reassign_object_array E st val objects obj (Suc i) vs (oop_put E (elem_addr E T_OBJECT obj i) p m)))"

definition reassign_scalar_replaced_object_array_elements :: "deopt_env \<Rightarrow> object_store \<Rightarrow> (nat \<Rightarrow> nat) \<Rightarrow> scope_value list \<Rightarrow>
    object_value \<Rightarrow> nat \<Rightarrow> memory \<Rightarrow> memory option" where
  "reassign_scalar_replaced_object_array_elements E st val objects sv obj m =
     reassign_object_array E st val objects obj 0 (ov_field_values sv) m"

definition reassign_scalar_replaced_fields :: "deopt_env \<Rightarrow> object_store \<Rightarrow> (nat \<Rightarrow> nat) \<Rightarrow> scope_value list \<Rightarrow> object_value \<Rightarrow> nat \<Rightarrow>
    klass \<Rightarrow> bool \<Rightarrow> memory \<Rightarrow> memory option" where
  "reassign_scalar_replaced_fields E st val objects sv obj k skip_internal m =
     (case k of
        Instance ik \<Rightarrow> reassign_scalar_replaced_fields_by_klass E st val objects ik sv 0 obj skip_internal m
      | TypeArray ty \<Rightarrow> reassign_scalar_replaced_type_array_elements E val sv obj ty m
      | ObjArray \<Rightarrow> reassign_scalar_replaced_object_array_elements E st val objects sv obj m)"

section \<open>Stack allocated objects\<close>

fun copy_elements :: "deopt_env \<Rightarrow> BasicType \<Rightarrow> nat \<Rightarrow> nat \<Rightarrow> nat list \<Rightarrow> memory \<Rightarrow> memory option" where
  "copy_elements E ty orig new [] m = Some m"
| "copy_elements E ty orig new (i # is) m =
     (if type_bytes ty = 0 then None
      else copy_elements E ty orig new is (prim_put E ty (elem_addr E ty new i) (load (type_bytes ty) m (elem_addr E ty orig i)) m))"

definition reassign_stack_allocated_type_array_elements :: "deopt_env \<Rightarrow> nat \<Rightarrow> nat \<Rightarrow> BasicType \<Rightarrow> memory \<Rightarrow> memory option" where
  "reassign_stack_allocated_type_array_elements E orig new ty m =
     (if array_length E m orig = array_length E m new then copy_elements E ty orig new [0..<nat (array_length E m orig)] m
      else None)"

text \<open>A reference into the frame becomes the reference to the new object.\<close>

definition relocate_oop :: "deopt_env \<Rightarrow> object_store \<Rightarrow> (nat \<Rightarrow> nat) \<Rightarrow> scope_value list \<Rightarrow> nat \<Rightarrow> nat option" where
  "relocate_oop E st val objects p =
     (if in_stack E p then
        (case List.find (matches_offset E st (frame_offset E p)) objects of Some (ObjectRef a) \<Rightarrow> Some (val a) | _ \<Rightarrow> None)
      else Some p)"

fun copy_oops :: "deopt_env \<Rightarrow> object_store \<Rightarrow> (nat \<Rightarrow> nat) \<Rightarrow> scope_value list \<Rightarrow> nat \<Rightarrow> nat \<Rightarrow> nat list \<Rightarrow> memory \<Rightarrow> memory option" where
  "copy_oops E st val objects orig new [] m = Some m"
| "copy_oops E st val objects orig new (i # is) m =
     (case relocate_oop E st val objects (oop_get E m (elem_addr E T_OBJECT orig i)) of
        None \<Rightarrow> None
      | Some p \<Rightarrow> copy_oops E st val objects orig new is (oop_put E (elem_addr E T_OBJECT new i) p m))"

definition reassign_stack_allocated_object_array_elements :: "deopt_env \<Rightarrow> object_store \<Rightarrow> (nat \<Rightarrow> nat) \<Rightarrow> scope_value list \<Rightarrow>
    nat \<Rightarrow> nat \<Rightarrow> memory \<Rightarrow> memory option" where
  "reassign_stack_allocated_object_array_elements E st val objects orig new m =
     (if array_length E m orig = array_length E m new then copy_oops E st val objects orig new [0..<nat (array_length E m orig)] m
      else None)"

text \<open>\<open>ReassignStackObjectFields\<close>.\<close>

definition do_field :: "deopt_env \<Rightarrow> object_store \<Rightarrow> (nat \<Rightarrow> nat) \<Rightarrow> scope_value list \<Rightarrow> nat \<Rightarrow> nat \<Rightarrow> field_desc \<Rightarrow> memory \<Rightarrow> memory option" where
  "do_field E st val objects orig new fd m =
     (let ft = fd_type fd; offset = fd_offset fd
      in if is_oop_type ft then
           (case relocate_oop E st val objects (oop_get E m (orig + offset)) of
              None \<Rightarrow> None
            | Some p \<Rightarrow> Some (oop_put E (new + offset) p m))
         else if type_bytes ft = 0 then None
         else Some (prim_put E ft (new + offset) (load (type_bytes ft) m (orig + offset)) m))"

fun do_fields :: "deopt_env \<Rightarrow> object_store \<Rightarrow> (nat \<Rightarrow> nat) \<Rightarrow> scope_value list \<Rightarrow> nat \<Rightarrow> nat \<Rightarrow> field_desc list \<Rightarrow> memory \<Rightarrow> memory option" where
  "do_fields E st val objects orig new [] m = Some m"
| "do_fields E st val objects orig new (fd # fds) m =
     (case do_field E st val objects orig new fd m of None \<Rightarrow> None | Some m1 \<Rightarrow> do_fields E st val objects orig new fds m1)"

definition stack_address :: "deopt_env \<Rightarrow> object_value \<Rightarrow> nat" where
  "stack_address E sv = nat (int (sp_base E) + stack_offset E (ov_location sv))"

definition reassign_stack_allocated_fields :: "deopt_env \<Rightarrow> object_store \<Rightarrow> (nat \<Rightarrow> nat) \<Rightarrow> scope_value list \<Rightarrow> object_value \<Rightarrow> nat \<Rightarrow>
    klass \<Rightarrow> memory \<Rightarrow> memory option" where
  "reassign_stack_allocated_fields E st val objects sv new k m =
     (let orig = stack_address E sv
      in case k of
           Instance ik \<Rightarrow> do_fields E st val objects orig new (nonstatic_fields E ik) m
         | TypeArray ty \<Rightarrow> reassign_stack_allocated_type_array_elements E orig new ty m
         | ObjArray \<Rightarrow> reassign_stack_allocated_object_array_elements E st val objects orig new m)"

section \<open>All objects\<close>

definition reassign_object :: "deopt_env \<Rightarrow> object_store \<Rightarrow> scope_value list \<Rightarrow> bool \<Rightarrow> bool \<Rightarrow> nat \<Rightarrow> deopt_state \<Rightarrow> deopt_state option" where
  "reassign_object E st objects realloc_failures skip_internal a s =
     (let sv = st a; obj = ds_value s a
      in case object_klass E sv of
           None \<Rightarrow> None
         | Some k \<Rightarrow>
             if obj = 0 then (if realloc_failures then Some s else None)
             else if is_auto_box sv \<and> ds_cached s a then Some s
             else
               map_option (\<lambda>m. s\<lparr>ds_mem := m\<rparr>)
                 (if is_stack_object sv then reassign_stack_allocated_fields E st (ds_value s) objects sv obj k (ds_mem s)
                  else reassign_scalar_replaced_fields E st (ds_value s) objects sv obj k skip_internal (ds_mem s)))"

fun reassign_loop :: "deopt_env \<Rightarrow> object_store \<Rightarrow> scope_value list \<Rightarrow> bool \<Rightarrow> bool \<Rightarrow> scope_value list \<Rightarrow> deopt_state \<Rightarrow> deopt_state option" where
  "reassign_loop E st objects realloc_failures skip_internal [] s = Some s"
| "reassign_loop E st objects realloc_failures skip_internal (ObjectRef a # vs) s =
     (case reassign_object E st objects realloc_failures skip_internal a s of
        None \<Rightarrow> None
      | Some s1 \<Rightarrow> reassign_loop E st objects realloc_failures skip_internal vs s1)"
| "reassign_loop E st objects realloc_failures skip_internal (_ # vs) s = None"

definition reassign_fields :: "deopt_env \<Rightarrow> object_store \<Rightarrow> scope_value list \<Rightarrow> bool \<Rightarrow> bool \<Rightarrow> deopt_state \<Rightarrow> deopt_state option" where
  "reassign_fields E st objects realloc_failures skip_internal s =
     reassign_loop E st objects realloc_failures skip_internal objects s"

section \<open>Restoring as a loop of stores\<close>

text \<open>The store of one field of a scalar replaced object, and what it consumes.\<close>

definition field_write :: "deopt_env \<Rightarrow> object_store \<Rightarrow> (nat \<Rightarrow> nat) \<Rightarrow> scope_value list \<Rightarrow> nat \<Rightarrow> scope_value \<Rightarrow> scope_value list \<Rightarrow>
    reassigned_field \<Rightarrow> reassigned_field list \<Rightarrow> memory \<Rightarrow> (mem_write \<times> nat \<times> nat) option" where
  "field_write E st val objects obj v vs f fs m =
     (case get_scope_value E st val m objects v of
        None \<Rightarrow> None
      | Some u \<Rightarrow>
          let value = create_stack_value E val m u; a = obj + fst f; ty = snd f;
              long = (\<lambda>skip. case low_value E val m vs of None \<Rightarrow> None | Some res \<Rightarrow> Some ((8, a, res), 1, skip))
          in if is_oop_type ty then map_option (\<lambda>p. ((oop_bytes E, a, encode_oop E p), 0, 0)) (as_obj value)
             else
               (case as_int value of
                  None \<Rightarrow> None
                | Some w \<Rightarrow>
                    if ty = T_LONG \<or> ty = T_DOUBLE then long 0
                    else if type_bytes ty = 0 then None
                    else
                      (case if ty = T_INT \<or> ty = T_FLOAT then big_value E u vs fs else Some False of
                         None \<Rightarrow> None
                       | Some True \<Rightarrow> long 1
                       | Some False \<Rightarrow> Some ((type_bytes ty, a, if ty = T_BOOLEAN then normalize_bool E w else w), 0, 0))))"

lemma assign_field_write:
  "assign_field E st val objects obj v vs f fs m =
     map_option (\<lambda>((n, a, x), j, k). (store n a x m, j, k)) (field_write E st val objects obj v vs f fs m)"
proof (cases "get_scope_value E st val m objects v")
  case (Some u)
  then show ?thesis
    by (cases "snd f")
      (auto simp: assign_field_def field_write_def Let_def is_oop_type_def oop_put_def prim_put_def
         split: option.splits bool.splits)
qed (simp add: assign_field_def field_write_def)

definition field_step :: "deopt_env \<Rightarrow> object_store \<Rightarrow> (nat \<Rightarrow> nat) \<Rightarrow> scope_value list \<Rightarrow> nat \<Rightarrow> memory \<Rightarrow>
    scope_value list \<times> reassigned_field list \<Rightarrow> (mem_write \<times> scope_value list \<times> reassigned_field list) option" where
  "field_step E st val objects obj m l =
     (case l of
        (v # vs, f # fs) \<Rightarrow> map_option (\<lambda>(w, j, k). (w, drop j vs, drop k fs)) (field_write E st val objects obj v vs f fs m)
      | _ \<Rightarrow> None)"

interpretation fields: store_loop "\<lambda>l. snd l = []" "field_step E st val objects obj"
    "\<lambda>l. assign_fields E st val objects obj (fst l) (snd l)" "\<lambda>l. length (snd l)" for E st val objects obj
proof unfold_locales
  fix l :: "scope_value list \<times> reassigned_field list" and m w l1
  show "snd l = [] \<Longrightarrow> assign_fields E st val objects obj (fst l) (snd l) m = Some m" by simp
  assume "snd l \<noteq> []"
  then obtain f fs where l: "snd l = f # fs" by (cases "snd l") auto
  show "assign_fields E st val objects obj (fst l) (snd l) m =
      (case field_step E st val objects obj m l of None \<Rightarrow> None | Some ((n, a, v), l1) \<Rightarrow> assign_fields E st val objects obj (fst l1) (snd l1) (store n a v m))"
    using l by (cases l; cases "fst l") (auto simp: field_step_def assign_field_write split: option.splits)
  show "field_step E st val objects obj m l = Some (w, l1) \<Longrightarrow> length (snd l1) < length (snd l)"
    using l by (cases l; cases "fst l") (auto simp: field_step_def less_Suc_eq_le split: option.splits)
qed

text \<open>One entry of a scalar replaced array. Two halves of a long are one store.\<close>

lemma store_halves: "store 4 (a + 4) (drop_bit 32 v) (store 4 a v m) = store 8 a v m"
proof -
  have "32 + 8 * (x - (a + 4)) = 8 * (x - a)" if "a + 4 \<le> x" for x using that by linarith
  then show ?thesis by (auto simp: store_def fun_eq_iff drop_bit_drop_bit add.commute)
qed

definition element_write :: "deopt_env \<Rightarrow> (nat \<Rightarrow> nat) \<Rightarrow> nat \<Rightarrow> BasicType \<Rightarrow> nat \<Rightarrow> scope_value \<Rightarrow> scope_value list \<Rightarrow> memory \<Rightarrow>
    (mem_write \<times> nat \<times> nat) option" where
  "element_write E val obj ty index v vs m =
     (case as_int (create_stack_value E val m v) of
        None \<Rightarrow> None
      | Some w \<Rightarrow>
          let a = elem_addr E ty obj index
          in if ty = T_LONG \<or> ty = T_DOUBLE then map_option (\<lambda>res. ((8, a, res), 1, 1)) (low_value E val m vs)
             else if big_element E ty v vs then map_option (\<lambda>res. ((8, a, res), 1, 2)) (low_value E val m vs)
             else if ty = T_BYTE then
               let n = count_number_of_bytes_for_entry (v # vs)
               in if n \<in> {1, 2, 4, 8} \<and> a mod n = 0 then Some ((n, a, w), n - 1, n) else None
             else if type_bytes ty = 0 then None
             else Some ((type_bytes ty, a, if ty = T_BOOLEAN then normalize_bool E w else w), 0, 1))"

lemma assign_element_write:
  "assign_element E val obj ty index v vs m =
     map_option (\<lambda>((n, a, x), j, k). (store n a x m, j, k)) (element_write E val obj ty index v vs m)"
proof (cases "as_int (create_stack_value E val m v)")
  case (Some w)
  have half: "elem_addr E T_INT obj (Suc index) = elem_addr E T_INT obj index + 4"
    by (simp add: elem_addr_def is_oop_type_def)
  show ?thesis
  proof (cases "ty = T_BYTE")
    case True
    obtain n where n: "count_number_of_bytes_for_entry (v # vs) = n" by blast
    have "\<not> big_element E T_BYTE v vs" by (simp add: big_element_def)
    then show ?thesis
      using Some True by (simp add: assign_element_def element_write_def n byte_array_put_def check_alignment_get_addr_def Let_def)
  next
    case False
    have "\<not> big_element E ty v vs" if "ty \<noteq> T_INT" using that by (simp add: big_element_def)
    with Some False show ?thesis
      by (cases ty; cases "low_value E val m vs")
        (simp_all add: assign_element_def element_write_def Let_def prim_put_def half store_halves)
  qed
qed (simp add: assign_element_def element_write_def)

definition element_step :: "deopt_env \<Rightarrow> (nat \<Rightarrow> nat) \<Rightarrow> nat \<Rightarrow> BasicType \<Rightarrow> memory \<Rightarrow> nat \<times> scope_value list \<Rightarrow>
    (mem_write \<times> nat \<times> scope_value list) option" where
  "element_step E val obj ty m l =
     (case l of
        (index, v # vs) \<Rightarrow> map_option (\<lambda>(w, j, k). (w, index + k, drop j vs)) (element_write E val obj ty index v vs m)
      | _ \<Rightarrow> None)"

interpretation elements: store_loop "\<lambda>l. snd l = []" "element_step E val obj ty"
    "\<lambda>l. reassign_type_array E val obj ty (fst l) (snd l)" "\<lambda>l. length (snd l)" for E val obj ty
proof unfold_locales
  fix l :: "nat \<times> scope_value list" and m w l1
  show "snd l = [] \<Longrightarrow> reassign_type_array E val obj ty (fst l) (snd l) m = Some m" by simp
  assume "snd l \<noteq> []"
  then obtain v vs where l: "snd l = v # vs" by (cases "snd l") auto
  show "reassign_type_array E val obj ty (fst l) (snd l) m =
      (case element_step E val obj ty m l of None \<Rightarrow> None | Some ((n, a, v), l1) \<Rightarrow> reassign_type_array E val obj ty (fst l1) (snd l1) (store n a v m))"
    using l by (cases l) (auto simp: element_step_def assign_element_write split: option.splits)
  show "element_step E val obj ty m l = Some (w, l1) \<Longrightarrow> length (snd l1) < length (snd l)"
    using l by (cases l) (auto simp: element_step_def less_Suc_eq_le split: option.splits)
qed

definition ref_step :: "deopt_env \<Rightarrow> object_store \<Rightarrow> (nat \<Rightarrow> nat) \<Rightarrow> scope_value list \<Rightarrow> nat \<Rightarrow> memory \<Rightarrow> nat \<times> scope_value list \<Rightarrow>
    (mem_write \<times> nat \<times> scope_value list) option" where
  "ref_step E st val objects obj m l =
     (case l of
        (i, v # vs) \<Rightarrow>
          Option.bind (get_scope_value E st val m objects v) (\<lambda>u.
            map_option (\<lambda>p. ((oop_bytes E, elem_addr E T_OBJECT obj i, encode_oop E p), Suc i, vs)) (as_obj (create_stack_value E val m u)))
      | _ \<Rightarrow> None)"

interpretation refs: store_loop "\<lambda>l. snd l = []" "ref_step E st val objects obj"
    "\<lambda>l. reassign_object_array E st val objects obj (fst l) (snd l)" "\<lambda>l. length (snd l)" for E st val objects obj
proof unfold_locales
  fix l :: "nat \<times> scope_value list" and m w l1
  show "snd l = [] \<Longrightarrow> reassign_object_array E st val objects obj (fst l) (snd l) m = Some m" by simp
  assume "snd l \<noteq> []"
  then obtain v vs where l: "snd l = v # vs" by (cases "snd l") auto
  show "reassign_object_array E st val objects obj (fst l) (snd l) m =
      (case ref_step E st val objects obj m l of None \<Rightarrow> None | Some ((n, a, v), l1) \<Rightarrow> reassign_object_array E st val objects obj (fst l1) (snd l1) (store n a v m))"
    using l by (cases l) (auto simp: ref_step_def oop_put_def split: option.splits)
  show "ref_step E st val objects obj m l = Some (w, l1) \<Longrightarrow> length (snd l1) < length (snd l)"
    using l by (cases l) (auto simp: ref_step_def split: option.splits bind_splits)
qed

text \<open>Copies of stack allocated objects.\<close>

definition copy_step :: "deopt_env \<Rightarrow> BasicType \<Rightarrow> nat \<Rightarrow> nat \<Rightarrow> memory \<Rightarrow> nat list \<Rightarrow> (mem_write \<times> nat list) option" where
  "copy_step E ty orig new m is =
     (if type_bytes ty = 0 then None
      else let x = load (type_bytes ty) m (elem_addr E ty orig (hd is))
           in Some ((type_bytes ty, elem_addr E ty new (hd is), if ty = T_BOOLEAN then normalize_bool E x else x), tl is))"

interpretation copies: store_loop "\<lambda>l. l = []" "copy_step E ty orig new" "copy_elements E ty orig new" length for E ty orig new
proof unfold_locales
  fix l :: "nat list" and m
  assume "l \<noteq> []"
  then show "copy_elements E ty orig new l m =
      (case copy_step E ty orig new m l of None \<Rightarrow> None | Some ((n, a, v), l1) \<Rightarrow> copy_elements E ty orig new l1 (store n a v m))"
    by (cases l) (auto simp: copy_step_def prim_put_def Let_def)
qed (auto simp: copy_step_def Let_def split: if_splits)

definition oop_step :: "deopt_env \<Rightarrow> object_store \<Rightarrow> (nat \<Rightarrow> nat) \<Rightarrow> scope_value list \<Rightarrow> nat \<Rightarrow> nat \<Rightarrow> memory \<Rightarrow> nat list \<Rightarrow>
    (mem_write \<times> nat list) option" where
  "oop_step E st val objects orig new m is =
     map_option (\<lambda>p. ((oop_bytes E, elem_addr E T_OBJECT new (hd is), encode_oop E p), tl is))
       (relocate_oop E st val objects (oop_get E m (elem_addr E T_OBJECT orig (hd is))))"

interpretation oop_copies: store_loop "\<lambda>l. l = []" "oop_step E st val objects orig new" "copy_oops E st val objects orig new" length
  for E st val objects orig new
proof unfold_locales
  fix l :: "nat list" and m
  assume "l \<noteq> []"
  then show "copy_oops E st val objects orig new l m =
      (case oop_step E st val objects orig new m l of None \<Rightarrow> None | Some ((n, a, v), l1) \<Rightarrow> copy_oops E st val objects orig new l1 (store n a v m))"
    by (cases l) (auto simp: oop_step_def oop_put_def split: option.splits)
qed (auto simp: oop_step_def)

definition do_field_step :: "deopt_env \<Rightarrow> object_store \<Rightarrow> (nat \<Rightarrow> nat) \<Rightarrow> scope_value list \<Rightarrow> nat \<Rightarrow> nat \<Rightarrow> memory \<Rightarrow> field_desc list \<Rightarrow>
    (mem_write \<times> field_desc list) option" where
  "do_field_step E st val objects orig new m fds =
     (let ft = fd_type (hd fds); offset = fd_offset (hd fds); x = load (type_bytes ft) m (orig + offset)
      in if is_oop_type ft then
           map_option (\<lambda>p. ((oop_bytes E, new + offset, encode_oop E p), tl fds)) (relocate_oop E st val objects (oop_get E m (orig + offset)))
         else if type_bytes ft = 0 then None
         else Some ((type_bytes ft, new + offset, if ft = T_BOOLEAN then normalize_bool E x else x), tl fds))"

interpretation do_field: store_loop "\<lambda>l. l = []" "do_field_step E st val objects orig new" "do_fields E st val objects orig new" length
  for E st val objects orig new
proof unfold_locales
  fix l :: "field_desc list" and m
  assume "l \<noteq> []"
  then show "do_fields E st val objects orig new l m =
      (case do_field_step E st val objects orig new m l of None \<Rightarrow> None | Some ((n, a, v), l1) \<Rightarrow> do_fields E st val objects orig new l1 (store n a v m))"
    by (cases l) (auto simp: do_field_step_def do_field_def oop_put_def prim_put_def Let_def split: option.splits)
qed (auto simp: do_field_step_def Let_def split: if_splits)

section \<open>What is read\<close>

text \<open>
  The bytes \<open>A\<close> hold what restoring an object reads: the frame, the saved registers, and what
  \<open>create_stack_value\<close> looks at.
\<close>

definition frame_bytes :: "deopt_env \<Rightarrow> nat set" where
  "frame_bytes E = {sp_base E..<sp_base E + 8 * frame_words E}"

definition reads_within :: "deopt_env \<Rightarrow> (nat \<Rightarrow> nat) \<Rightarrow> nat set \<Rightarrow> bool" where
  "reads_within E val A \<longleftrightarrow> frame_bytes E \<subseteq> A \<and>
     (\<forall>l. loc_is_stack E l \<longrightarrow> 0 \<le> stack_offset E l \<and> stack_offset E l + 8 \<le> 8 * int (frame_words E)) \<and>
     (\<forall>l. loc_is_register E l \<longrightarrow> {reg_location E l..<reg_location E l + 8} \<subseteq> A) \<and>
     (\<forall>v m1 m2. same_on A m1 m2 \<longrightarrow> create_stack_value E val m1 v = create_stack_value E val m2 v)"

lemma get_scope_value_local:
  assumes "reads_within E val A" and "same_on A m1 m2"
  shows "get_scope_value E st val m1 objects v = get_scope_value E st val m2 objects v"
proof (cases v)
  case (LocationValue l)
  have "load 8 m1 (nat (int (sp_base E) + stack_offset E l)) = load 8 m2 (nat (int (sp_base E) + stack_offset E l))" if "loc_is_stack E l"
  proof (rule same_on_load [OF assms(2)])
    have "0 \<le> stack_offset E l" "stack_offset E l + 8 \<le> 8 * int (frame_words E)" "frame_bytes E \<subseteq> A"
      using assms(1) that by (auto simp: reads_within_def)
    then show "{nat (int (sp_base E) + stack_offset E l)..<nat (int (sp_base E) + stack_offset E l) + 8} \<subseteq> A"
      by (intro order_trans [OF _ \<open>frame_bytes E \<subseteq> A\<close>]) (auto simp: frame_bytes_def)
  qed
  moreover have "load 8 m1 (reg_location E l) = load 8 m2 (reg_location E l)" if "loc_is_register E l"
    using assms that by (auto simp: reads_within_def intro: same_on_load)
  ultimately show ?thesis using LocationValue by (simp add: get_scope_value_def)
qed (simp_all add: get_scope_value_def)

lemma create_stack_value_local: "reads_within E val A \<Longrightarrow> same_on A m1 m2 \<Longrightarrow> create_stack_value E val m1 v = create_stack_value E val m2 v"
  by (simp add: reads_within_def)

lemma low_value_local: "reads_within E val A \<Longrightarrow> same_on A m1 m2 \<Longrightarrow> low_value E val m1 vs = low_value E val m2 vs"
  by (simp add: low_value_def create_stack_value_local split: list.split)

lemma value_local:
  assumes "reads_within E val A" and "same_on A m1 m2"
  shows "get_scope_value E st val m1 objects = get_scope_value E st val m2 objects"
    "create_stack_value E val m1 = create_stack_value E val m2" "low_value E val m1 = low_value E val m2"
  using get_scope_value_local [OF assms] create_stack_value_local [OF assms] low_value_local [OF assms] by (simp_all add: fun_eq_iff)

lemma step_local:
  assumes "reads_within E val A" and "same_on A m1 m2"
  shows "field_step E st val objects obj m1 l = field_step E st val objects obj m2 l"
    "element_step E val obj ty m1 k = element_step E val obj ty m2 k"
    "ref_step E st val objects obj m1 k = ref_step E st val objects obj m2 k"
  unfolding field_step_def field_write_def element_step_def element_write_def ref_step_def value_local [OF assms] by (rule refl)+

section \<open>Scalar replaced objects\<close>

text \<open>The stores that restore a scalar replaced object, found in one memory.\<close>

definition scalar_writes :: "deopt_env \<Rightarrow> object_store \<Rightarrow> (nat \<Rightarrow> nat) \<Rightarrow> scope_value list \<Rightarrow> object_value \<Rightarrow> nat \<Rightarrow> klass \<Rightarrow> bool \<Rightarrow> memory \<Rightarrow>
    mem_write list option" where
  "scalar_writes E st val objects sv obj k skip_internal m =
     (case k of
        Instance ik \<Rightarrow> trace_of (\<lambda>l. snd l = []) (field_step E st val objects obj m) (ov_field_values sv, sorted_fields skip_internal ik)
      | TypeArray ty \<Rightarrow> trace_of (\<lambda>l. snd l = []) (element_step E val obj ty m) (0, ov_field_values sv)
      | ObjArray \<Rightarrow> trace_of (\<lambda>l. snd l = []) (ref_step E st val objects obj m) (0, ov_field_values sv))"

lemma scalar_restored:
  assumes r: "reads_within E val A" and w: "scalar_writes E st val objects sv obj k skip_internal m = Some ws"
    and d: "spans ws \<inter> A = {}" and s: "same_on A m m1"
  shows "reassign_scalar_replaced_fields E st val objects sv obj k skip_internal m1 = Some (apply_writes ws m1)"
proof (cases k)
  case (Instance ik)
  from w have "trace_of (\<lambda>l. snd l = []) (field_step E st val objects obj m) (ov_field_values sv, sorted_fields skip_internal ik) = Some ws"
    by (simp add: scalar_writes_def Instance)
  from fields.loop_trace [where P = "\<lambda>_. True", OF step_local(1) [OF r] _ _ this d s] show ?thesis
    by (simp add: Instance reassign_scalar_replaced_fields_def reassign_scalar_replaced_fields_by_klass_def)
next
  case (TypeArray ty)
  from w have "trace_of (\<lambda>l. snd l = []) (element_step E val obj ty m) (0, ov_field_values sv) = Some ws"
    by (simp add: scalar_writes_def TypeArray)
  from elements.loop_trace [where P = "\<lambda>_. True", OF step_local(2) [OF r] _ _ this d s] show ?thesis
    by (simp add: TypeArray reassign_scalar_replaced_fields_def reassign_scalar_replaced_type_array_elements_def)
next
  case ObjArray
  from w have "trace_of (\<lambda>l. snd l = []) (ref_step E st val objects obj m) (0, ov_field_values sv) = Some ws"
    by (simp add: scalar_writes_def ObjArray)
  from refs.loop_trace [where P = "\<lambda>_. True", OF step_local(3) [OF r] _ _ this d s] show ?thesis
    by (simp add: ObjArray reassign_scalar_replaced_fields_def reassign_scalar_replaced_object_array_elements_def)
qed

section \<open>Stack allocated objects are copied\<close>

text \<open>The fields of an object or the elements of an array: their offset in the object and their type.\<close>

definition slots :: "deopt_env \<Rightarrow> klass \<Rightarrow> nat \<Rightarrow> (nat \<times> BasicType) list" where
  "slots E k len =
     (case k of
        Instance ik \<Rightarrow> map (\<lambda>fd. (fd_offset fd, fd_type fd)) (nonstatic_fields E ik)
      | TypeArray ty \<Rightarrow> map (\<lambda>i. (base_offset E ty + i * type_bytes ty, ty)) [0..<len]
      | ObjArray \<Rightarrow> map (\<lambda>i. (base_offset E T_OBJECT + i * oop_bytes E, T_OBJECT)) [0..<len])"

definition slot_bytes :: "deopt_env \<Rightarrow> BasicType \<Rightarrow> nat" where
  "slot_bytes E ty = (if is_oop_type ty then oop_bytes E else type_bytes ty)"

definition slot_write :: "deopt_env \<Rightarrow> object_store \<Rightarrow> (nat \<Rightarrow> nat) \<Rightarrow> scope_value list \<Rightarrow> nat \<Rightarrow> nat \<Rightarrow> memory \<Rightarrow> nat \<times> BasicType \<Rightarrow> mem_write" where
  "slot_write E st val objects orig new m f =
     (case f of (off, ty) \<Rightarrow>
        (slot_bytes E ty, new + off,
         if is_oop_type ty then encode_oop E (the (relocate_oop E st val objects (oop_get E m (orig + off))))
         else let x = load (type_bytes ty) m (orig + off) in if ty = T_BOOLEAN then normalize_bool E x else x))"

text \<open>
  A stack object can be copied: its slots lie in bytes that are not written, its references into
  the frame lead to objects of the debug information, and the new array has the same length.
\<close>

definition copyable :: "deopt_env \<Rightarrow> object_store \<Rightarrow> (nat \<Rightarrow> nat) \<Rightarrow> scope_value list \<Rightarrow> nat set \<Rightarrow> nat \<Rightarrow> nat \<Rightarrow> klass \<Rightarrow> nat \<Rightarrow> memory \<Rightarrow> bool" where
  "copyable E st val objects A orig new k len m \<longleftrightarrow>
     (\<forall>(off, ty) \<in> set (slots E k len). {orig + off..<orig + off + slot_bytes E ty} \<subseteq> A \<and> 0 < slot_bytes E ty \<and>
        (is_oop_type ty \<longrightarrow> relocate_oop E st val objects (oop_get E m (orig + off)) \<noteq> None)) \<and>
     ((\<forall>ik. k \<noteq> Instance ik) \<longrightarrow> array_length E m orig = int len \<and> array_length E m new = int len \<and>
        {orig + length_offset E..<orig + length_offset E + 4} \<subseteq> A \<and> {new + length_offset E..<new + length_offset E + 4} \<subseteq> A)"

lemma elem_addr_slot: "elem_addr E ty p i = p + (base_offset E ty + i * slot_bytes E ty)"
  by (simp add: elem_addr_def slot_bytes_def)

lemma array_length_local:
  "same_on A m m1 \<Longrightarrow> {p + length_offset E..<p + length_offset E + 4} \<subseteq> A \<Longrightarrow> array_length E m p = array_length E m1 p"
  by (simp add: array_length_def same_on_load)

lemma oop_get_local: "same_on A m m1 \<Longrightarrow> {a..<a + oop_bytes E} \<subseteq> A \<Longrightarrow> oop_get E m a = oop_get E m1 a"
  by (simp add: oop_get_def same_on_load)

lemma copyable_slot:
  assumes "copyable E st val objects A orig new k len m" and "(off, ty) \<in> set (slots E k len)"
  shows "{orig + off..<orig + off + slot_bytes E ty} \<subseteq> A \<and> 0 < slot_bytes E ty \<and>
    (is_oop_type ty \<longrightarrow> relocate_oop E st val objects (oop_get E m (orig + off)) \<noteq> None)"
  using assms unfolding copyable_def by blast

lemma copyable_length:
  assumes "copyable E st val objects A orig new k len m" and "\<forall>ik. k \<noteq> Instance ik" and s: "same_on A m m1"
  shows "array_length E m1 orig = int len \<and> array_length E m1 new = int len"
proof -
  have *: "array_length E m orig = int len" "array_length E m new = int len"
    "{orig + length_offset E..<orig + length_offset E + 4} \<subseteq> A" "{new + length_offset E..<new + length_offset E + 4} \<subseteq> A"
    using assms(1,2) unfolding copyable_def by blast+
  then show ?thesis using array_length_local [OF s *(3)] array_length_local [OF s *(4)] by simp
qed

lemma stack_instance_restored:
  assumes c: "copyable E st val objects A orig new (Instance ik) len m" and s: "same_on A m m1"
    and d: "spans (map (slot_write E st val objects orig new m) (slots E (Instance ik) len)) \<inter> A = {}"
  shows "do_fields E st val objects orig new (nonstatic_fields E ik) m1 =
    Some (apply_writes (map (slot_write E st val objects orig new m) (slots E (Instance ik) len)) m1)"
proof -
  let ?fs = "nonstatic_fields E ik"
  have slot: "{orig + fd_offset fd..<orig + fd_offset fd + slot_bytes E (fd_type fd)} \<subseteq> A \<and> 0 < slot_bytes E (fd_type fd) \<and>
      (is_oop_type (fd_type fd) \<longrightarrow> relocate_oop E st val objects (oop_get E m (orig + fd_offset fd)) \<noteq> None)" if "fd \<in> set ?fs" for fd
    using copyable_slot [OF c, of "fd_offset fd" "fd_type fd"] that by (simp add: slots_def image_iff) blast
  have t: "trace_of (\<lambda>l. l = []) (do_field_step E st val objects orig new m) ?fs =
      Some (map (\<lambda>fd. slot_write E st val objects orig new m (fd_offset fd, fd_type fd)) ?fs)"
  proof (rule trace_map)
    fix fd fds assume "fd \<in> set ?fs"
    from slot [OF this] show "do_field_step E st val objects orig new m (fd # fds) =
        Some (slot_write E st val objects orig new m (fd_offset fd, fd_type fd), fds)"
      by (auto simp: do_field_step_def slot_write_def slot_bytes_def Let_def split: if_splits)
  qed
  have "do_fields E st val objects orig new ?fs m1 =
      Some (apply_writes (map (\<lambda>fd. slot_write E st val objects orig new m (fd_offset fd, fd_type fd)) ?fs) m1)"
  proof (rule do_field.loop_trace [where P = "\<lambda>l. set l \<subseteq> set ?fs", OF _ _ _ t _ s])
    fix l m1 m2 assume "set l \<subseteq> set ?fs" "l \<noteq> []" and s: "same_on A m1 m2"
    then have r: "{orig + fd_offset (hd l)..<orig + fd_offset (hd l) + slot_bytes E (fd_type (hd l))} \<subseteq> A"
      using slot [of "hd l"] by (cases l) auto
    show "do_field_step E st val objects orig new m1 l = do_field_step E st val objects orig new m2 l"
    proof (cases "is_oop_type (fd_type (hd l))")
      case True
      then show ?thesis using oop_get_local [OF s, of "orig + fd_offset (hd l)" E] r by (simp add: do_field_step_def slot_bytes_def)
    next
      case False
      then have "load (type_bytes (fd_type (hd l))) m1 (orig + fd_offset (hd l)) = load (type_bytes (fd_type (hd l))) m2 (orig + fd_offset (hd l))"
        using same_on_load [OF s] r by (simp add: slot_bytes_def)
      with False show ?thesis by (simp only: do_field_step_def Let_def if_False)
    qed
  next
    fix l m w l1 assume "set l \<subseteq> set ?fs" "l \<noteq> []" "do_field_step E st val objects orig new m l = Some (w, l1)"
    then show "set l1 \<subseteq> set ?fs" by (cases l) (auto simp: do_field_step_def Let_def split: if_splits)
  qed (use d in \<open>auto simp: slots_def comp_def\<close>)
  then show ?thesis by (simp add: slots_def comp_def)
qed

lemma stack_type_array_restored:
  assumes c: "copyable E st val objects A orig new (TypeArray ty) len m" and s: "same_on A m m1" and ty: "\<not> is_oop_type ty"
    and d: "spans (map (slot_write E st val objects orig new m) (slots E (TypeArray ty) len)) \<inter> A = {}"
  shows "reassign_stack_allocated_type_array_elements E orig new ty m1 =
    Some (apply_writes (map (slot_write E st val objects orig new m) (slots E (TypeArray ty) len)) m1)"
proof -
  let ?w = "\<lambda>i. slot_write E st val objects orig new m (base_offset E ty + i * type_bytes ty, ty)"
  have slot: "{elem_addr E ty orig i..<elem_addr E ty orig i + type_bytes ty} \<subseteq> A \<and> 0 < type_bytes ty" if "i < len" for i
  proof -
    have "(base_offset E ty + i * type_bytes ty, ty) \<in> set (slots E (TypeArray ty) len)" using that by (auto simp: slots_def)
    from copyable_slot [OF c this] ty show ?thesis by (simp add: slot_bytes_def elem_addr_def add.assoc)
  qed
  have len: "array_length E m1 orig = int len" "array_length E m1 new = int len"
    using copyable_length [OF c _ s] by simp_all
  have t: "trace_of (\<lambda>l. l = []) (copy_step E ty orig new m) [0..<len] = Some (map ?w [0..<len])"
  proof (rule trace_map)
    fix i xs assume "i \<in> set [0..<len]"
    with slot [of i] ty show "copy_step E ty orig new m (i # xs) = Some (?w i, xs)"
      by (simp add: copy_step_def slot_write_def slot_bytes_def elem_addr_def Let_def add.assoc)
  qed
  have "copy_elements E ty orig new [0..<len] m1 = Some (apply_writes (map ?w [0..<len]) m1)"
  proof (rule copies.loop_trace [where P = "\<lambda>l. set l \<subseteq> {..<len}", OF _ _ _ t _ s])
    fix l m1 m2 assume "set l \<subseteq> {..<len}" "l \<noteq> []" and s: "same_on A m1 m2"
    then have "{elem_addr E ty orig (hd l)..<elem_addr E ty orig (hd l) + type_bytes ty} \<subseteq> A" using slot [of "hd l"] by (cases l) auto
    from same_on_load [OF s this] show "copy_step E ty orig new m1 l = copy_step E ty orig new m2 l" by (simp add: copy_step_def)
  next
    fix l m w l1 assume "set l \<subseteq> {..<len}" "l \<noteq> []" "copy_step E ty orig new m l = Some (w, l1)"
    then show "set l1 \<subseteq> {..<len}" by (cases l) (auto simp: copy_step_def Let_def split: if_splits)
  qed (use d in \<open>auto simp: slots_def comp_def\<close>)
  with len show ?thesis by (simp add: reassign_stack_allocated_type_array_elements_def slots_def comp_def)
qed

lemma stack_object_array_restored:
  assumes c: "copyable E st val objects A orig new ObjArray len m" and s: "same_on A m m1"
    and d: "spans (map (slot_write E st val objects orig new m) (slots E ObjArray len)) \<inter> A = {}"
  shows "reassign_stack_allocated_object_array_elements E st val objects orig new m1 =
    Some (apply_writes (map (slot_write E st val objects orig new m) (slots E ObjArray len)) m1)"
proof -
  let ?w = "\<lambda>i. slot_write E st val objects orig new m (base_offset E T_OBJECT + i * oop_bytes E, T_OBJECT)"
  have [simp]: "is_oop_type T_OBJECT" by (simp add: is_oop_type_def)
  have slot: "{elem_addr E T_OBJECT orig i..<elem_addr E T_OBJECT orig i + oop_bytes E} \<subseteq> A \<and>
      relocate_oop E st val objects (oop_get E m (elem_addr E T_OBJECT orig i)) \<noteq> None" if "i < len" for i
  proof -
    have "(base_offset E T_OBJECT + i * oop_bytes E, T_OBJECT) \<in> set (slots E ObjArray len)" using that by (auto simp: slots_def)
    from copyable_slot [OF c this] show ?thesis by (simp add: slot_bytes_def elem_addr_def add.assoc)
  qed
  have len: "array_length E m1 orig = int len" "array_length E m1 new = int len"
    using copyable_length [OF c _ s] by simp_all
  have t: "trace_of (\<lambda>l. l = []) (oop_step E st val objects orig new m) [0..<len] = Some (map ?w [0..<len])"
  proof (rule trace_map)
    fix i xs assume "i \<in> set [0..<len]"
    with slot [of i] show "oop_step E st val objects orig new m (i # xs) = Some (?w i, xs)"
      by (auto simp: oop_step_def slot_write_def slot_bytes_def elem_addr_def add.assoc)
  qed
  have "copy_oops E st val objects orig new [0..<len] m1 = Some (apply_writes (map ?w [0..<len]) m1)"
  proof (rule oop_copies.loop_trace [where P = "\<lambda>l. set l \<subseteq> {..<len}", OF _ _ _ t _ s])
    fix l m1 m2 assume "set l \<subseteq> {..<len}" "l \<noteq> []" and s: "same_on A m1 m2"
    then have "{elem_addr E T_OBJECT orig (hd l)..<elem_addr E T_OBJECT orig (hd l) + oop_bytes E} \<subseteq> A" using slot [of "hd l"] by (cases l) auto
    from oop_get_local [OF s this] show "oop_step E st val objects orig new m1 l = oop_step E st val objects orig new m2 l"
      by (simp add: oop_step_def)
  next
    fix l m w l1 assume "set l \<subseteq> {..<len}" "l \<noteq> []" "oop_step E st val objects orig new m l = Some (w, l1)"
    then show "set l1 \<subseteq> {..<len}" by (cases l) (auto simp: oop_step_def)
  qed (use d in \<open>auto simp: slots_def comp_def\<close>)
  with len show ?thesis by (simp add: reassign_stack_allocated_object_array_elements_def slots_def comp_def)
qed

lemma stack_restored:
  assumes "copyable E st val objects A (stack_address E sv) new k len m" and "same_on A m m1" and "\<forall>ty. k = TypeArray ty \<longrightarrow> \<not> is_oop_type ty"
    and "spans (map (slot_write E st val objects (stack_address E sv) new m) (slots E k len)) \<inter> A = {}"
  shows "reassign_stack_allocated_fields E st val objects sv new k m1 =
    Some (apply_writes (map (slot_write E st val objects (stack_address E sv) new m) (slots E k len)) m1)"
  using assms stack_instance_restored stack_type_array_restored stack_object_array_restored
  by (cases k) (simp_all add: reassign_stack_allocated_fields_def)

text \<open>What is found in the copy. An oop is storable when a field keeps it.\<close>

definition storable :: "deopt_env \<Rightarrow> nat \<Rightarrow> bool" where
  "storable E q \<longleftrightarrow> decode_oop E (take_bit (8 * oop_bytes E) (encode_oop E q)) = q"

definition slot_copied :: "deopt_env \<Rightarrow> object_store \<Rightarrow> (nat \<Rightarrow> nat) \<Rightarrow> scope_value list \<Rightarrow> memory \<Rightarrow> memory \<Rightarrow> nat \<Rightarrow> nat \<Rightarrow> BasicType \<Rightarrow> bool" where
  "slot_copied E st val objects m m' src dst ty \<longleftrightarrow>
     (if is_oop_type ty then relocate_oop E st val objects (oop_get E m src) = Some (oop_get E m' dst)
      else load (type_bytes ty) m' dst =
        (if ty = T_BOOLEAN then take_bit 8 (normalize_bool E (load 1 m src)) else load (type_bytes ty) m src))"

abbreviation apart :: "deopt_env \<Rightarrow> (nat \<times> BasicType) list \<Rightarrow> bool" where
  "apart E fs \<equiv> sorted_wrt (\<lambda>f g. {fst f..<fst f + slot_bytes E (snd f)} \<inter> {fst g..<fst g + slot_bytes E (snd g)} = {}) fs"

lemma array_apart: "apart E (map (\<lambda>i. (c + i * slot_bytes E ty, ty)) [0..<n])"
proof -
  have "i * b + b \<le> j * b" if "i < j" for i j b :: nat using mult_le_mono1 [of "Suc i" j b] that by simp
  then have le: "c + i * b + b \<le> c + j * b" if "i < j" for i j b :: nat using that by (simp add: add.assoc)
  have "{c + i * b..<c + i * b + b} \<inter> {c + j * b..<c + j * b + b} = {}" if "i < j" for i j b :: nat
  proof -
    have "x < c + j * b" if "x < c + i * b + b" for x using that le [OF \<open>i < j\<close>, of b] by (rule less_le_trans)
    then show ?thesis by fastforce
  qed
  then show ?thesis by (simp add: sorted_wrt_iff_nth_less)
qed

lemma slots_apart:
  assumes "\<forall>ty. k = TypeArray ty \<longrightarrow> \<not> is_oop_type ty" and "\<forall>ik. k = Instance ik \<longrightarrow> apart E (slots E k len)"
  shows "apart E (slots E k len)"
proof (cases k)
  case (TypeArray ty)
  with assms array_apart [of E "base_offset E ty" ty len] show ?thesis by (simp add: slots_def slot_bytes_def)
next
  case ObjArray
  have "slot_bytes E T_OBJECT = oop_bytes E" by (simp add: slot_bytes_def is_oop_type_def)
  with ObjArray array_apart [of E "base_offset E T_OBJECT" T_OBJECT len] show ?thesis by (simp add: slots_def)
qed (use assms in blast)

lemma slot_found:
  assumes f: "(off, ty) \<in> set fs" and d: "apart E fs"
    and c: "is_oop_type ty \<longrightarrow> (\<exists>q. relocate_oop E st val objects (oop_get E m (orig + off)) = Some q \<and> storable E q)"
  shows "slot_copied E st val objects m (apply_writes (map (slot_write E st val objects orig new m) fs) m1) (orig + off) (new + off) ty"
proof -
  let ?ws = "map (slot_write E st val objects orig new m) fs"
  obtain n a v where w: "slot_write E st val objects orig new m (off, ty) = (n, a, v)" by (metis prod_cases3)
  have span: "span (slot_write E st val objects orig new m f) = {new + fst f..<new + fst f + slot_bytes E (snd f)}" for f
    by (simp add: slot_write_def split: prod.split)
  have "sorted_wrt (\<lambda>u w. span u \<inter> span w = {}) ?ws"
    unfolding sorted_wrt_map span by (rule sorted_wrt_mono_rel [OF _ d]) (auto simp: disjoint_iff; presburger)
  moreover have "(n, a, v) \<in> set ?ws" using f w by (metis image_eqI set_map)
  ultimately have l: "load n (apply_writes ?ws m1) a = take_bit (8 * n) v" by (intro load_writes)
  show ?thesis
  proof (cases "is_oop_type ty")
    case True
    with c obtain q where q: "relocate_oop E st val objects (oop_get E m (orig + off)) = Some q" "storable E q" by blast
    with w True have "n = oop_bytes E" "a = new + off" "v = encode_oop E q" by (auto simp: slot_write_def slot_bytes_def)
    with l q True show ?thesis by (simp add: slot_copied_def oop_get_def storable_def)
  next
    case False
    with w have "n = type_bytes ty" "a = new + off"
      "v = (if ty = T_BOOLEAN then normalize_bool E (load 1 m (orig + off)) else load (type_bytes ty) m (orig + off))"
      by (auto simp: slot_write_def slot_bytes_def Let_def)
    with l False show ?thesis by (simp add: slot_copied_def load_bound)
  qed
qed

section \<open>All objects are restored\<close>

definition skipped :: "object_store \<Rightarrow> deopt_state \<Rightarrow> nat \<Rightarrow> bool" where
  "skipped st s a \<longleftrightarrow> ds_value s a = 0 \<or> is_auto_box (st a) \<and> ds_cached s a"

definition object_writes :: "deopt_env \<Rightarrow> object_store \<Rightarrow> scope_value list \<Rightarrow> bool \<Rightarrow> (nat \<Rightarrow> nat) \<Rightarrow> deopt_state \<Rightarrow> nat \<Rightarrow> mem_write list option" where
  "object_writes E st objects skip_internal len s a =
     (case object_klass E (st a) of
        None \<Rightarrow> None
      | Some k \<Rightarrow>
          if skipped st s a then Some []
          else if is_stack_object (st a) then
            Some (map (slot_write E st (ds_value s) objects (stack_address E (st a)) (ds_value s a) (ds_mem s)) (slots E k (len a)))
          else scalar_writes E st (ds_value s) objects (st a) (ds_value s a) k skip_internal (ds_mem s))"

text \<open>
  The state after reallocation: \<open>new a\<close> are the bytes of the fields or elements of the new object \<open>a\<close>. They
  are apart from each other and from what restoring reads; the debug information describes all
  that the objects refer to.
\<close>

definition new_bytes :: "(nat \<Rightarrow> nat set) \<Rightarrow> scope_value list \<Rightarrow> nat set" where
  "new_bytes new objects = (\<Union>a \<in> {a. ObjectRef a \<in> set objects}. new a)"

definition stack_describes :: "deopt_env \<Rightarrow> object_store \<Rightarrow> scope_value list \<Rightarrow> nat set \<Rightarrow> nat \<Rightarrow> deopt_state \<Rightarrow> nat \<Rightarrow> klass \<Rightarrow> bool" where
  "stack_describes E st objects A len s a k \<longleftrightarrow>
     copyable E st (ds_value s) objects A (stack_address E (st a)) (ds_value s a) k len (ds_mem s) \<and>
     (\<forall>ty. k = TypeArray ty \<longrightarrow> \<not> is_oop_type ty) \<and>
     (\<forall>ik. k = Instance ik \<longrightarrow> apart E (slots E k len)) \<and>
     (\<forall>(off, ty) \<in> set (slots E k len). is_oop_type ty \<longrightarrow>
        (\<exists>q. relocate_oop E st (ds_value s) objects (oop_get E (ds_mem s) (stack_address E (st a) + off)) = Some q \<and> storable E q))"

definition restorable :: "deopt_env \<Rightarrow> object_store \<Rightarrow> scope_value list \<Rightarrow> bool \<Rightarrow> bool \<Rightarrow> (nat \<Rightarrow> nat set) \<Rightarrow> (nat \<Rightarrow> nat) \<Rightarrow> deopt_state \<Rightarrow> bool" where
  "restorable E st objects failures skip_internal new len s \<longleftrightarrow>
     distinct objects \<and> (\<forall>v \<in> set objects. \<exists>a. v = ObjectRef a) \<and>
     reads_within E (ds_value s) (- new_bytes new objects) \<and>
     (\<forall>a b. ObjectRef a \<in> set objects \<longrightarrow> ObjectRef b \<in> set objects \<longrightarrow> a \<noteq> b \<longrightarrow> new a \<inter> new b = {}) \<and>
     (\<forall>a. ObjectRef a \<in> set objects \<longrightarrow>
        (ds_value s a = 0 \<longrightarrow> failures) \<and>
        (\<exists>k. object_klass E (st a) = Some k \<and>
           (\<not> skipped st s a \<and> is_stack_object (st a) \<longrightarrow> stack_describes E st objects (- new_bytes new objects) (len a) s a k)) \<and>
        (\<exists>ws. object_writes E st objects skip_internal len s a = Some ws \<and> spans ws \<subseteq> new a))"

lemma reassign_object_writes:
  assumes r: "restorable E st objects failures skip_internal new len s" and a: "ObjectRef a \<in> set objects"
    and w: "object_writes E st objects skip_internal len s a = Some ws"
    and s1: "ds_value s1 = ds_value s" "ds_cached s1 = ds_cached s" "same_on (- new_bytes new objects) (ds_mem s) (ds_mem s1)"
  shows "reassign_object E st objects failures skip_internal a s1 = Some (s1\<lparr>ds_mem := apply_writes ws (ds_mem s1)\<rparr>)"
proof -
  from r a w obtain k where k: "object_klass E (st a) = Some k" and f: "ds_value s a = 0 \<longrightarrow> failures" and ws: "spans ws \<subseteq> new a"
    and st: "\<not> skipped st s a \<and> is_stack_object (st a) \<longrightarrow> stack_describes E st objects (- new_bytes new objects) (len a) s a k"
    by (force simp: restorable_def)
  have reads: "reads_within E (ds_value s) (- new_bytes new objects)" using r by (simp add: restorable_def)
  have d: "spans ws \<inter> - new_bytes new objects = {}" using ws a by (auto simp: new_bytes_def)
  consider "skipped st s a" | "\<not> skipped st s a" "is_stack_object (st a)" | "\<not> skipped st s a" "\<not> is_stack_object (st a)" by blast
  then show ?thesis
  proof cases
    case 1
    with k w have "ws = []" by (simp add: object_writes_def)
    with 1 k f s1 show ?thesis by (auto simp: reassign_object_def skipped_def Let_def)
  next
    case 2
    with k w have wse: "ws = map (slot_write E st (ds_value s) objects (stack_address E (st a)) (ds_value s a) (ds_mem s)) (slots E k (len a))"
      by (simp add: object_writes_def)
    from st 2 have sd: "copyable E st (ds_value s) objects (- new_bytes new objects) (stack_address E (st a)) (ds_value s a) k (len a) (ds_mem s)"
      "\<forall>ty. k = TypeArray ty \<longrightarrow> \<not> is_oop_type ty" by (simp_all add: stack_describes_def)
    from stack_restored [OF sd(1) s1(3) sd(2) d [unfolded wse], folded wse] show ?thesis
      using 2 k s1 by (auto simp: reassign_object_def skipped_def Let_def)
  next
    case 3
    with k w have "scalar_writes E st (ds_value s) objects (st a) (ds_value s a) k skip_internal (ds_mem s) = Some ws"
      by (simp add: object_writes_def)
    from scalar_restored [OF reads this d s1(3)] show ?thesis
      using 3 k s1 by (auto simp: reassign_object_def skipped_def Let_def)
  qed
qed

lemma reassign_loop_writes:
  assumes r: "restorable E st objects failures skip_internal new len s" and "set vs \<subseteq> set objects"
    and "ds_value s1 = ds_value s" "ds_cached s1 = ds_cached s" "same_on (- new_bytes new objects) (ds_mem s) (ds_mem s1)"
  shows "reassign_loop E st objects failures skip_internal vs s1 =
    Some (s1\<lparr>ds_mem := apply_writes (concat (map (\<lambda>v. case v of ObjectRef a \<Rightarrow> the (object_writes E st objects skip_internal len s a) | _ \<Rightarrow> []) vs)) (ds_mem s1)\<rparr>)"
  using assms(2-)
proof (induction vs arbitrary: s1)
  case (Cons v vs)
  from r Cons.prems(1) obtain a where v: "v = ObjectRef a" and a: "ObjectRef a \<in> set objects" by (force simp: restorable_def)
  from r a obtain ws where ws: "object_writes E st objects skip_internal len s a = Some ws" "spans ws \<subseteq> new a" by (auto simp: restorable_def)
  let ?s = "s1\<lparr>ds_mem := apply_writes ws (ds_mem s1)\<rparr>"
  have "- new_bytes new objects \<inter> spans ws = {}" using ws(2) a by (auto simp: new_bytes_def)
  from same_on_trans [OF Cons.prems(4) same_on_writes [OF this]]
  have "reassign_loop E st objects failures skip_internal vs ?s =
      Some (?s\<lparr>ds_mem := apply_writes (concat (map (\<lambda>v. case v of ObjectRef a \<Rightarrow> the (object_writes E st objects skip_internal len s a) | _ \<Rightarrow> []) vs)) (ds_mem ?s)\<rparr>)"
    using Cons.prems by (intro Cons.IH) auto
  with v ws(1) reassign_object_writes [OF r a ws(1) Cons.prems(2-4)] show ?case by simp
qed simp

lemma concat_writes:
  assumes "x \<notin> (\<Union>v \<in> set vs - {u}. spans (f v))" and "distinct vs" and "u \<in> set vs"
  shows "apply_writes (concat (map f vs)) m x = apply_writes (f u) m x"
proof -
  obtain us ws where vs: "vs = us @ u # ws" using assms(3) by (meson split_list)
  with assms(2) have "u \<notin> set us" "u \<notin> set ws" by auto
  with assms(1) vs have n: "x \<notin> spans (concat (map f us))" "x \<notin> spans (concat (map f ws))" by (auto simp: spans_def)
  have "apply_writes (f u) (apply_writes (concat (map f us)) m) x = apply_writes (f u) m x"
    using n(1) by (intro apply_writes_cong) (simp add: apply_writes_other)
  with n(2) show ?thesis unfolding vs by (simp add: apply_writes_other)
qed

lemma slot_copied_cong:
  "same_on {dst..<dst + slot_bytes E ty} m1 m2 \<Longrightarrow> slot_copied E st val objects m m1 src dst ty \<Longrightarrow> slot_copied E st val objects m m2 src dst ty"
  using same_on_load [OF _ order_refl, of dst "slot_bytes E ty" m1 m2] by (auto simp: slot_copied_def slot_bytes_def oop_get_def)

lemma restored_bytes:
  assumes r: "restorable E st objects failures skip_internal new len s"
  obtains s' where "reassign_fields E st objects failures skip_internal s = Some s'" "ds_value s' = ds_value s"
    "same_on (- new_bytes new objects) (ds_mem s) (ds_mem s')"
    "\<And>a. ObjectRef a \<in> set objects \<Longrightarrow> \<exists>ws. object_writes E st objects skip_internal len s a = Some ws \<and> spans ws \<subseteq> new a \<and>
       same_on (new a) (apply_writes ws (ds_mem s)) (ds_mem s')"
proof -
  define f where "f = (\<lambda>v. case v of ObjectRef a \<Rightarrow> the (object_writes E st objects skip_internal len s a) | _ \<Rightarrow> [])"
  let ?m = "apply_writes (concat (map f objects)) (ds_mem s)"
  have f: "\<exists>ws. object_writes E st objects skip_internal len s a = Some ws \<and> f (ObjectRef a) = ws \<and> spans ws \<subseteq> new a"
    if "ObjectRef a \<in> set objects" for a
  proof -
    from r that obtain ws where "object_writes E st objects skip_internal len s a = Some ws" "spans ws \<subseteq> new a" by (auto simp: restorable_def)
    then show ?thesis by (simp add: f_def)
  qed
  have all: "\<forall>v \<in> set objects. \<exists>a. v = ObjectRef a"
    and ap: "\<And>a b. ObjectRef a \<in> set objects \<Longrightarrow> ObjectRef b \<in> set objects \<Longrightarrow> a \<noteq> b \<Longrightarrow> new a \<inter> new b = {}"
    and dist: "distinct objects" using r by (auto simp: restorable_def)
  have 1: "reassign_fields E st objects failures skip_internal s = Some (s\<lparr>ds_mem := ?m\<rparr>)"
    using reassign_loop_writes [OF r order_refl refl refl same_on_refl] by (simp add: reassign_fields_def f_def)
  have "spans (concat (map f objects)) \<subseteq> new_bytes new objects"
    using f all by (fastforce simp: spans_def new_bytes_def)
  then have 2: "same_on (- new_bytes new objects) (ds_mem s) ?m" by (intro same_on_writes) blast
  have 3: "\<exists>ws. object_writes E st objects skip_internal len s a = Some ws \<and> spans ws \<subseteq> new a \<and> same_on (new a) (apply_writes ws (ds_mem s)) ?m"
    if a: "ObjectRef a \<in> set objects" for a
  proof -
    obtain ws where ws: "object_writes E st objects skip_internal len s a = Some ws" "f (ObjectRef a) = ws" "spans ws \<subseteq> new a" using f [OF a] by blast
    have "x \<notin> (\<Union>v \<in> set objects - {ObjectRef a}. spans (f v))" if x: "x \<in> new a" for x
    proof
      assume "x \<in> (\<Union>v \<in> set objects - {ObjectRef a}. spans (f v))"
      then obtain v where v: "v \<in> set objects" "v \<noteq> ObjectRef a" "x \<in> spans (f v)" by blast
      with all obtain b where b: "v = ObjectRef b" by blast
      with v f [of b] have "x \<in> new b" by auto
      with ap [of a b] a b v x show False by blast
    qed
    from concat_writes [OF this dist a] have "same_on (new a) (apply_writes ws (ds_mem s)) ?m" by (simp add: same_on_def ws(2))
    with ws show ?thesis by blast
  qed
  from that [OF 1] 2 3 show ?thesis by simp
qed

text \<open>
  C10: Deoptimization rebuilds every object that the frame holds. When the reallocated objects lie
  apart from each other and from the frame, and the debug information describes what the stack
  objects refer to, \<open>reassign_fields\<close> succeeds. It changes no byte outside the new objects. Each
  slot of a stack allocated instance or array is found in the new object, where every reference
  into the frame has become the reference to the new object of the stack object it led to. A scalar
  replaced object has exactly the stores that its values describe, whatever else was restored before
  or after it.
\<close>

theorem reassign_fields_correct:
  assumes "restorable E st objects failures skip_internal new len s"
  shows "\<exists>s'. reassign_fields E st objects failures skip_internal s = Some s' \<and> ds_value s' = ds_value s \<and>
    same_on (- new_bytes new objects) (ds_mem s) (ds_mem s') \<and>
    (\<forall>a k. ObjectRef a \<in> set objects \<and> object_klass E (st a) = Some k \<and> \<not> skipped st s a \<longrightarrow>
       (if is_stack_object (st a) then
          \<forall>(off, ty) \<in> set (slots E k (len a)).
            slot_copied E st (ds_value s) objects (ds_mem s) (ds_mem s') (stack_address E (st a) + off) (ds_value s a + off) ty
        else
          \<exists>ws. scalar_writes E st (ds_value s) objects (st a) (ds_value s a) k skip_internal (ds_mem s) = Some ws \<and>
            same_on (new a) (apply_writes ws (ds_mem s)) (ds_mem s')))"
proof -
  obtain s' where s': "reassign_fields E st objects failures skip_internal s = Some s'" "ds_value s' = ds_value s"
    "same_on (- new_bytes new objects) (ds_mem s) (ds_mem s')"
    and ws: "\<And>a. ObjectRef a \<in> set objects \<Longrightarrow> \<exists>ws. object_writes E st objects skip_internal len s a = Some ws \<and> spans ws \<subseteq> new a \<and>
       same_on (new a) (apply_writes ws (ds_mem s)) (ds_mem s')"
    using restored_bytes [OF assms] by blast
  have "slot_copied E st (ds_value s) objects (ds_mem s) (ds_mem s') (stack_address E (st a) + off) (ds_value s a + off) ty"
    if a: "ObjectRef a \<in> set objects" "object_klass E (st a) = Some k" "\<not> skipped st s a" "is_stack_object (st a)"
      and f: "(off, ty) \<in> set (slots E k (len a))" for a k off ty
  proof -
    let ?w = "slot_write E st (ds_value s) objects (stack_address E (st a)) (ds_value s a) (ds_mem s)"
    have sd: "stack_describes E st objects (- new_bytes new objects) (len a) s a k" using assms a by (auto simp: restorable_def)
    have w: "spans (map ?w (slots E k (len a))) \<subseteq> new a" "same_on (new a) (apply_writes (map ?w (slots E k (len a))) (ds_mem s)) (ds_mem s')"
      using ws [OF a(1)] a by (auto simp: object_writes_def)
    have "span (?w (off, ty)) \<subseteq> spans (map ?w (slots E k (len a)))" using f by (auto simp: spans_def simp del: span_simp)
    then have "{ds_value s a + off..<ds_value s a + off + slot_bytes E ty} \<subseteq> new a" using w(1) by (simp add: slot_write_def)
    from same_on_mono [OF w(2) this] show ?thesis
      by (rule slot_copied_cong) (use sd f slots_apart [of k E "len a"] in \<open>auto simp: stack_describes_def intro!: slot_found\<close>)
  qed
  moreover have "\<exists>ws. scalar_writes E st (ds_value s) objects (st a) (ds_value s a) k skip_internal (ds_mem s) = Some ws \<and>
      same_on (new a) (apply_writes ws (ds_mem s)) (ds_mem s')"
    if "ObjectRef a \<in> set objects" "object_klass E (st a) = Some k" "\<not> skipped st s a" "\<not> is_stack_object (st a)" for a k
    using ws [OF that(1)] that by (auto simp: object_writes_def)
  ultimately show ?thesis using s' by (intro exI [of _ s']) auto
qed

text \<open>
  A frame of eight words at 1000 with a stack object at 1016, which has an \<open>int\<close> and refers to itself, and a scalar
  replaced object that refers to it. Their places in the heap are 5000 and 6000.
\<close>

definition demo_klass :: instance_klass where
  "demo_klass = InstanceKlass [\<lparr>fd_offset = 8, fd_type = T_INT, fd_static = False, fd_internal = False\<rparr>,
     \<lparr>fd_offset = 16, fd_type = T_OBJECT, fd_static = False, fd_internal = False\<rparr>] None"

definition demo_box :: instance_klass where
  "demo_box = InstanceKlass [\<lparr>fd_offset = 8, fd_type = T_OBJECT, fd_static = False, fd_internal = False\<rparr>] None"

definition demo_env :: deopt_env where
  "demo_env = \<lparr>sp_base = 1000, frame_words = 8, loc_is_stack = (\<lambda>l. l = 16), loc_is_register = (\<lambda>l. False), loc_is_oop = (\<lambda>l. False),
     loc_is_big = (\<lambda>l. False), stack_offset = uint, reg_location = (\<lambda>l. 0),
     create_stack_value = (\<lambda>val m v. case v of ObjectRef a \<Rightarrow> SVObj (val a) | ConstantIntValue n \<Rightarrow> SVInt (word_of_int n) | _ \<Rightarrow> SVConflict),
     as_Klass = (\<lambda>h. if h = 3 then Instance demo_klass else Instance demo_box), nonstatic_fields = own_fields, base_offset = (\<lambda>ty. 16),
     length_offset = 12, oop_bytes = 8, encode_oop = word_of_nat, decode_oop = unat, normalize_bool = (\<lambda>v. take_bit 1 v)\<rparr>"

definition demo_store :: object_store where
  "demo_store a =
     (if a = 0 then \<lparr>ov_class = StackObjectValue, ov_id = 40, ov_klass = Some (ConstantOopReadValue 3), ov_field_values = [],
        ov_visited = False, ov_location = 16, ov_field_length = Some (ConstantIntValue 2)\<rparr>
      else \<lparr>ov_class = ObjectValue, ov_id = 41, ov_klass = Some (ConstantOopReadValue 4), ov_field_values = [ObjectRef 0],
        ov_visited = False, ov_location = 0, ov_field_length = None\<rparr>)"

definition demo_state :: deopt_state where
  "demo_state = \<lparr>ds_mem = store 8 1032 1016 (store 4 1024 7 (\<lambda>x. 0)), ds_value = (\<lambda>a. if a = 0 then 5000 else if a = 2 then 6000 else 0),
     ds_cached = (\<lambda>a. False), ds_pending = None\<rparr>"

definition demo_new :: "nat \<Rightarrow> nat set" where
  "demo_new a = (if a = 0 then {5008..<5024} else {6008..<6016})"

lemma demo_layout [simp]: "oop_bytes demo_env = 8" "encode_oop demo_env = word_of_nat" "decode_oop demo_env = unat"
    "sp_base demo_env = 1000" "frame_words demo_env = 8"
  by (simp_all add: demo_env_def)

lemmas demo_defs = demo_klass_def demo_box_def demo_env_def demo_store_def demo_state_def

lemma demo_oop_get: "oop_get demo_env (ds_mem demo_state) 1032 = 1016"
  by (simp add: demo_defs oop_get_def load_store)

lemma demo_relocate: "relocate_oop demo_env demo_store (ds_value demo_state) [ObjectRef 0, ObjectRef 2] 1016 = Some 5000"
proof -
  have "frame_offset demo_env 1016 = 16" by (simp add: frame_offset_def demo_defs signed_take_bit_int_eq_self)
  moreover have "in_stack demo_env 1016" by (simp add: in_stack_def demo_defs)
  moreover have "matches_offset demo_env demo_store 16 (ObjectRef 0)" by (simp add: matches_offset_def demo_defs is_stack_object_def)
  ultimately show ?thesis by (simp add: relocate_oop_def) (simp add: demo_defs)
qed

lemma demo_storable: "storable demo_env 5000"
  by (simp add: storable_def demo_defs)

lemma demo_slots: "slots demo_env (Instance demo_klass) n = [(8, T_INT), (16, T_OBJECT)]"
  by (simp add: slots_def demo_defs)

lemma demo_new_bytes: "new_bytes demo_new [ObjectRef 0, ObjectRef 2] = {5008..<5024} \<union> {6008..<6016}"
proof -
  have "{a. ObjectRef a \<in> set [ObjectRef 0, ObjectRef 2]} = {0, 2}" by auto
  then show ?thesis by (simp add: new_bytes_def demo_new_def Un_commute)
qed

lemma demo_klasses: "object_klass demo_env (demo_store 0) = Some (Instance demo_klass)" "object_klass demo_env (demo_store 2) = Some (Instance demo_box)"
  by (simp_all add: object_klass_def demo_env_def demo_store_def)

lemma demo_stack: "stack_describes demo_env demo_store [ObjectRef 0, ObjectRef 2] (- new_bytes demo_new [ObjectRef 0, ObjectRef 2]) 0 demo_state 0 (Instance demo_klass)"
proof -
  have a: "stack_address demo_env (demo_store 0) = 1016" by (simp add: stack_address_def demo_defs)
  show ?thesis
    unfolding stack_describes_def copyable_def demo_slots a demo_new_bytes
    using demo_oop_get demo_relocate demo_storable
    by (auto simp: slot_bytes_def is_oop_type_def)
qed

lemma demo_scalar: "object_writes demo_env demo_store [ObjectRef 0, ObjectRef 2] False (\<lambda>_. 0) demo_state 2 = Some [(8, 6008, 5000)]"
proof -
  have g: "get_scope_value demo_env demo_store (ds_value demo_state) (ds_mem demo_state) [ObjectRef 0, ObjectRef 2] (ObjectRef 0) = Some (ObjectRef 0)"
    by (simp add: get_scope_value_def replace_stack_oop_def in_stack_def demo_env_def demo_state_def)
  have "sorted_fields False demo_box = [(8, T_OBJECT)]" by (simp add: sorted_fields_def demo_box_def)
  moreover have "field_step demo_env demo_store (ds_value demo_state) [ObjectRef 0, ObjectRef 2] 6000 (ds_mem demo_state)
      ([ObjectRef 0], [(8, T_OBJECT)]) = Some ((8, 6008, 5000), [], [])"
    by (simp add: field_step_def field_write_def g Let_def is_oop_type_def as_obj_def) (simp add: demo_env_def demo_state_def)
  ultimately have "scalar_writes demo_env demo_store (ds_value demo_state) [ObjectRef 0, ObjectRef 2] (demo_store 2) 6000 (Instance demo_box) False (ds_mem demo_state) =
      Some [(8, 6008, 5000)]"
    using fields.trace_step fields.trace_end by (simp add: scalar_writes_def) (simp add: demo_store_def)
  then show ?thesis
    unfolding object_writes_def demo_klasses
    by (simp add: skipped_def is_stack_object_def) (simp add: demo_state_def demo_store_def is_auto_box_def)
qed

lemma demo_restorable: "restorable demo_env demo_store [ObjectRef 0, ObjectRef 2] False False demo_new (\<lambda>_. 0) demo_state"
proof -
  have v: "ds_value demo_state 0 = 5000" "ds_value demo_state 2 = 6000" by (simp_all add: demo_state_def)
  have "reads_within demo_env (ds_value demo_state) (- new_bytes demo_new [ObjectRef 0, ObjectRef 2])"
    unfolding reads_within_def demo_new_bytes by (auto simp: frame_bytes_def demo_env_def split: scope_value.split)
  moreover have "\<not> skipped demo_store demo_state 0" "is_stack_object (demo_store 0)" "\<not> is_stack_object (demo_store 2)"
    by (simp_all add: skipped_def is_auto_box_def is_stack_object_def demo_store_def demo_state_def)
  moreover have "stack_address demo_env (demo_store 0) = 1016" by (simp add: stack_address_def demo_defs)
  ultimately show ?thesis
    unfolding restorable_def using demo_stack demo_scalar v demo_klasses
    by (auto simp: demo_new_def object_writes_def demo_slots slot_write_def slot_bytes_def is_oop_type_def)
qed

theorem reassign_fields_correct_witness:
  "\<exists>s'. reassign_fields demo_env demo_store [ObjectRef 0, ObjectRef 2] False False demo_state = Some s' \<and>
     oop_get demo_env (ds_mem s') 5016 = 5000 \<and> load 4 (ds_mem s') 5008 = 7"
proof -
  have a: "stack_address demo_env (demo_store 0) = 1016" "ds_value demo_state 0 = 5000" by (simp_all add: stack_address_def demo_defs)
  have m: "load 4 (ds_mem demo_state) 1024 = 7" by (simp add: demo_state_def load_store_other load_store)
  have c: "ObjectRef 0 \<in> set [ObjectRef 0, ObjectRef 2] \<and> object_klass demo_env (demo_store 0) = Some (Instance demo_klass) \<and> \<not> skipped demo_store demo_state 0"
    "is_stack_object (demo_store 0)"
    by (simp_all add: demo_klasses) (simp_all add: skipped_def is_auto_box_def is_stack_object_def demo_store_def demo_state_def)
  obtain s' where s': "reassign_fields demo_env demo_store [ObjectRef 0, ObjectRef 2] False False demo_state = Some s'"
    and f: "\<forall>(off, ty) \<in> set [(8, T_INT), (16, T_OBJECT)]. slot_copied demo_env demo_store (ds_value demo_state) [ObjectRef 0, ObjectRef 2]
       (ds_mem demo_state) (ds_mem s') (1016 + off) (5000 + off) ty"
  proof -
    obtain s' where r: "reassign_fields demo_env demo_store [ObjectRef 0, ObjectRef 2] False False demo_state = Some s'"
      and "\<forall>a k. ObjectRef a \<in> set [ObjectRef 0, ObjectRef 2] \<and> object_klass demo_env (demo_store a) = Some k \<and> \<not> skipped demo_store demo_state a \<longrightarrow>
       (if is_stack_object (demo_store a) then
          \<forall>(off, ty) \<in> set (slots demo_env k 0). slot_copied demo_env demo_store (ds_value demo_state) [ObjectRef 0, ObjectRef 2] (ds_mem demo_state)
            (ds_mem s') (stack_address demo_env (demo_store a) + off) (ds_value demo_state a + off) ty
        else \<exists>ws. scalar_writes demo_env demo_store (ds_value demo_state) [ObjectRef 0, ObjectRef 2] (demo_store a) (ds_value demo_state a) k False
            (ds_mem demo_state) = Some ws \<and> same_on (demo_new a) (apply_writes ws (ds_mem demo_state)) (ds_mem s'))"
      using reassign_fields_correct [OF demo_restorable] by blast
    from this(2) [rule_format, OF c(1)] c(2) have "\<forall>(off, ty) \<in> set [(8, T_INT), (16, T_OBJECT)].
       slot_copied demo_env demo_store (ds_value demo_state) [ObjectRef 0, ObjectRef 2] (ds_mem demo_state) (ds_mem s') (1016 + off) (5000 + off) ty"
      by (simp only: if_True demo_slots a)
    with r show thesis by (rule that)
  qed
  then show ?thesis using m demo_oop_get demo_relocate by (simp add: slot_copied_def is_oop_type_def)
qed

end
