(* ===== verification/Compiled_Frame.thy ===== *)
theory Compiled_Frame
  imports Deopt_Objects
begin

text \<open>
  The virtual frames of compiled code (\<open>runtime/vframe_hp.cpp\<close>): locals, expressions and monitors, with
  references into the frame replaced, and the updates that debuggers leave for the time of
  deoptimization.
\<close>

section \<open>Frames\<close>

text \<open>
  A method and the values of a \<open>StackValueCollection\<close> are arguments, as is what \<open>MonitorInfo\<close> needs. A \<open>jvalue\<close> is
  its eight bytes.
\<close>

record scope_desc =
  sd_locals :: "scope_value list option"
  sd_expressions :: "scope_value list option"
  sd_monitors :: "monitor_value list option"
  sd_objects :: "scope_value list option"

record vframe =
  vf_compiled :: bool
  vf_deoptimized :: bool
  vf_frame_id :: nat
  vf_vframe_id :: int
  vf_method :: nat
  vf_bci :: int
  vf_scope :: "scope_desc option"

record monitor_info =
  mi_owner :: nat
  mi_lock :: nat
  mi_eliminated :: bool
  mi_scalar_replaced :: bool

record frame_env =
  max_locals :: "nat \<Rightarrow> int"
  max_stack :: "nat \<Rightarrow> int"
  set_int_at :: "int \<Rightarrow> int \<Rightarrow> stack_value list \<Rightarrow> stack_value list"
  set_float_at :: "int \<Rightarrow> 32 word \<Rightarrow> stack_value list \<Rightarrow> stack_value list"
  set_double_at :: "int \<Rightarrow> 64 word \<Rightarrow> stack_value list \<Rightarrow> stack_value list"
  set_long_at :: "int \<Rightarrow> int \<Rightarrow> stack_value list \<Rightarrow> stack_value list"
  set_obj_at :: "int \<Rightarrow> nat \<Rightarrow> stack_value list \<Rightarrow> stack_value list"
  obj_is_scalar_replaced :: "(nat \<Rightarrow> nat) \<Rightarrow> memory \<Rightarrow> scope_value \<Rightarrow> bool"
  resolve_monitor_lock :: "Location \<Rightarrow> nat"
  native_monitor :: "nat \<Rightarrow> nat \<times> nat"
  is_synchronized :: "nat \<Rightarrow> bool"

section \<open>Values of a frame\<close>

definition vf_match_object_to_stack_oop :: "deopt_env \<Rightarrow> object_store \<Rightarrow> nat \<Rightarrow> scope_value list option \<Rightarrow> scope_value option" where
  "vf_match_object_to_stack_oop E st oop_ptr objects =
     (case objects of
        None \<Rightarrow> None
      | Some os \<Rightarrow> match_object_to_stack_oop E st oop_ptr os)"

text \<open>
  The value at an index of the list; a location that holds a reference into the frame is replaced
  in the list by the object.
\<close>

definition vf_get_scope_value :: "deopt_env \<Rightarrow> object_store \<Rightarrow> (nat \<Rightarrow> nat) \<Rightarrow> memory \<Rightarrow> scope_value list \<Rightarrow> nat \<Rightarrow>
    scope_value list option \<Rightarrow> (scope_value \<times> scope_value list) option" where
  "vf_get_scope_value E st val m scv_list index objects =
     (let sv = scv_list ! index;
          swap = (\<lambda>oop_ptr.
            if in_stack E oop_ptr then
              (case vf_match_object_to_stack_oop E st oop_ptr objects of
                 None \<Rightarrow> None
               | Some o_sv \<Rightarrow> Some (o_sv, scv_list[index := o_sv]))
            else Some (sv, scv_list))
      in case sv of
           LocationValue loc \<Rightarrow>
             if objects = None \<or> objects = Some [] then Some (sv, scv_list)
             else if loc_is_stack E loc \<and> loc_is_oop E loc then swap (unat (load 8 m (nat (int (sp_base E) + stack_offset E loc))))
             else if loc_is_register E loc \<and> loc_is_oop E loc then swap (unat (load 8 m (reg_location E loc)))
             else if loc_is_oop E loc then None
             else Some (sv, scv_list)
         | ObjectRef a \<Rightarrow>
             if in_stack E (val a) then
               (case vf_match_object_to_stack_oop E st (val a) objects of
                  None \<Rightarrow> None
                | Some o_sv \<Rightarrow> if sv = o_sv then Some (sv, scv_list) else None)
             else Some (sv, scv_list)
         | _ \<Rightarrow> Some (sv, scv_list))"

fun vf_values :: "deopt_env \<Rightarrow> object_store \<Rightarrow> (nat \<Rightarrow> nat) \<Rightarrow> memory \<Rightarrow> scope_value list option \<Rightarrow> nat list \<Rightarrow> scope_value list \<Rightarrow>
    (stack_value list \<times> scope_value list) option" where
  "vf_values E st val m objects [] scv_list = Some ([], scv_list)"
| "vf_values E st val m objects (i # is) scv_list =
     (case vf_get_scope_value E st val m scv_list i objects of
        None \<Rightarrow> None
      | Some (sv, scv_list1) \<Rightarrow>
          (case vf_values E st val m objects is scv_list1 of
             None \<Rightarrow> None
           | Some (vs, scv_list2) \<Rightarrow> Some (create_stack_value E val m sv # vs, scv_list2)))"

section \<open>Deferred updates\<close>

record deferred_var =
  jv_index :: int
  jv_type :: BasicType
  jv_value :: intptr

record deferred_set =
  jd_method :: nat
  jd_bci :: int
  jd_id :: nat
  jd_vframe_id :: int
  jd_locals :: "deferred_var list"

definition new_deferred_set :: "nat \<Rightarrow> int \<Rightarrow> nat \<Rightarrow> int \<Rightarrow> deferred_set" where
  "new_deferred_set mth bci i vid = \<lparr>jd_method = mth, jd_bci = bci, jd_id = i, jd_vframe_id = vid, jd_locals = []\<rparr>"

definition jd_matches :: "deferred_set \<Rightarrow> vframe \<Rightarrow> bool option" where
  "jd_matches s vf =
     (if \<not> vf_compiled vf then Some False
      else if vf_frame_id vf = jd_id s \<and> vf_vframe_id vf = jd_vframe_id s then
        (if vf_method vf = jd_method s \<and> vf_bci vf = jd_bci s then Some True else None)
      else Some False)"

fun set_value_at :: "int \<Rightarrow> BasicType \<Rightarrow> intptr \<Rightarrow> deferred_var list \<Rightarrow> deferred_var list option" where
  "set_value_at idx ty v [] = Some [\<lparr>jv_index = idx, jv_type = ty, jv_value = v\<rparr>]"
| "set_value_at idx ty v (x # xs) =
     (if jv_index x = idx then (if jv_type x = ty then Some (x\<lparr>jv_value := v\<rparr> # xs) else None)
      else map_option (Cons x) (set_value_at idx ty v xs))"

text \<open>The position of the first set that matches the frame.\<close>

fun find_deferred :: "vframe \<Rightarrow> deferred_set list \<Rightarrow> nat \<Rightarrow> nat option option" where
  "find_deferred vf [] k = Some None"
| "find_deferred vf (s # ss) k =
     (case jd_matches s vf of
        None \<Rightarrow> None
      | Some b \<Rightarrow> if b then Some (Some k) else find_deferred vf ss (Suc k))"

definition update_deferred_value :: "vframe \<Rightarrow> BasicType \<Rightarrow> int \<Rightarrow> intptr \<Rightarrow> deferred_set list option \<Rightarrow> deferred_set list option option" where
  "update_deferred_value vf ty index v deferred =
     (if \<not> vf_deoptimized vf then None
      else
        let ss = (case deferred of None \<Rightarrow> [] | Some ss \<Rightarrow> ss)
        in case find_deferred vf ss 0 of
             None \<Rightarrow> None
           | Some found \<Rightarrow>
               let (ss1, k) = (case found of
                     Some k \<Rightarrow> (ss, k)
                   | None \<Rightarrow> (ss @ [new_deferred_set (vf_method vf) (vf_bci vf) (vf_frame_id vf) (vf_vframe_id vf)], length ss))
               in (case set_value_at index ty v (jd_locals (ss1 ! k)) of
                     None \<Rightarrow> None
                   | Some ls \<Rightarrow> Some (Some (ss1[k := (ss1 ! k)\<lparr>jd_locals := ls\<rparr>]))))"

definition update_local :: "frame_env \<Rightarrow> vframe \<Rightarrow> BasicType \<Rightarrow> int \<Rightarrow> intptr \<Rightarrow> deferred_set list option \<Rightarrow> deferred_set list option option" where
  "update_local F vf ty index v deferred =
     (if 0 \<le> index \<and> index < max_locals F (vf_method vf) then update_deferred_value vf ty index v deferred else None)"

definition update_stack :: "frame_env \<Rightarrow> vframe \<Rightarrow> BasicType \<Rightarrow> int \<Rightarrow> intptr \<Rightarrow> deferred_set list option \<Rightarrow> deferred_set list option option" where
  "update_stack F vf ty index v deferred =
     (if 0 \<le> index \<and> index < max_stack F (vf_method vf) then
        update_deferred_value vf ty (index + max_locals F (vf_method vf)) v deferred else None)"

definition update_monitor :: "frame_env \<Rightarrow> vframe \<Rightarrow> int \<Rightarrow> monitor_info \<Rightarrow> deferred_set list option \<Rightarrow> deferred_set list option option" where
  "update_monitor F vf index info deferred =
     (if 0 \<le> index then
        update_deferred_value vf T_OBJECT (index + max_locals F (vf_method vf) + max_stack F (vf_method vf)) (word_of_nat (mi_owner info)) deferred
      else None)"

definition update_value :: "frame_env \<Rightarrow> BasicType \<Rightarrow> int \<Rightarrow> intptr \<Rightarrow> stack_value list \<Rightarrow> stack_value list option" where
  "update_value F ty index v vs =
     (case ty of
        T_BOOLEAN \<Rightarrow> Some (set_int_at F index (uint (ucast v :: 8 word)) vs)
      | T_CHAR \<Rightarrow> Some (set_int_at F index (uint (ucast v :: 16 word)) vs)
      | T_FLOAT \<Rightarrow> Some (set_float_at F index (ucast v) vs)
      | T_DOUBLE \<Rightarrow> Some (set_double_at F index v vs)
      | T_BYTE \<Rightarrow> Some (set_int_at F index (sint (ucast v :: 8 word)) vs)
      | T_SHORT \<Rightarrow> Some (set_int_at F index (sint (ucast v :: 16 word)) vs)
      | T_INT \<Rightarrow> Some (set_int_at F index (sint (ucast v :: 32 word)) vs)
      | T_LONG \<Rightarrow> Some (set_long_at F index (sint v) vs)
      | T_OBJECT \<Rightarrow> Some (set_obj_at F index (unat v) vs)
      | _ \<Rightarrow> None)"


fun update_expressions :: "frame_env \<Rightarrow> nat \<Rightarrow> deferred_var list \<Rightarrow> stack_value list \<Rightarrow> stack_value list option" where
  "update_expressions F mth [] vs = Some vs"
| "update_expressions F mth (x # xs) vs =
     (if max_locals F mth \<le> jv_index x \<and> jv_index x < max_locals F mth + max_stack F mth then
        Option.bind (update_value F (jv_type x) (jv_index x - max_locals F mth) (jv_value x) vs) (update_expressions F mth xs)
      else update_expressions F mth xs vs)"

fun update_monitors :: "frame_env \<Rightarrow> nat \<Rightarrow> deferred_var list \<Rightarrow> monitor_info list \<Rightarrow> monitor_info list option" where
  "update_monitors F mth [] ms = Some ms"
| "update_monitors F mth (x # xs) ms =
     (if max_locals F mth + max_stack F mth \<le> jv_index x then
        let lock_index = nat (jv_index x - (max_locals F mth + max_stack F mth))
        in if lock_index < length ms then
             update_monitors F mth xs (ms[lock_index := (ms ! lock_index)\<lparr>mi_owner := unat (jv_value x)\<rparr>])
           else None
      else update_monitors F mth xs ms)"

definition with_deferred :: "vframe \<Rightarrow> deferred_set list option \<Rightarrow> (nat \<Rightarrow> deferred_var list \<Rightarrow> 'a \<Rightarrow> 'a option) \<Rightarrow> 'a \<Rightarrow> 'a option" where
  "with_deferred vf deferred update x =
     (case deferred of
        None \<Rightarrow> Some x
      | Some ss \<Rightarrow>
          (case find_deferred vf ss 0 of
             None \<Rightarrow> None
           | Some None \<Rightarrow> Some x
           | Some (Some k) \<Rightarrow> update (jd_method (ss ! k)) (jd_locals (ss ! k)) x))"

section \<open>The state of a frame\<close>


definition vf_expressions :: "deopt_env \<Rightarrow> frame_env \<Rightarrow> object_store \<Rightarrow> (nat \<Rightarrow> nat) \<Rightarrow> memory \<Rightarrow> deferred_set list option \<Rightarrow> vframe \<Rightarrow> stack_value list option" where
  "vf_expressions E F st val m deferred vf =
     (case vf_scope vf of
        None \<Rightarrow> Some []
      | Some sd \<Rightarrow>
          (case sd_expressions sd of
             None \<Rightarrow> Some []
           | Some scv_list \<Rightarrow>
               (case vf_values E st val m (sd_objects sd) [0..<length scv_list] scv_list of
                  None \<Rightarrow> None
                | Some (vs, _) \<Rightarrow> with_deferred vf deferred (update_expressions F) vs)))"

definition monitor_info_of :: "deopt_env \<Rightarrow> frame_env \<Rightarrow> object_store \<Rightarrow> (nat \<Rightarrow> nat) \<Rightarrow> memory \<Rightarrow> monitor_value \<Rightarrow> monitor_info option" where
  "monitor_info_of E F st val m mv =
     (let lock = resolve_monitor_lock F (mv_basic_lock mv)
      in case mv_owner mv of
           ObjectRef a \<Rightarrow>
             if obj_is_scalar_replaced F val m (ObjectRef a) then
               (case ov_klass (st a) of
                  Some (ConstantOopReadValue k) \<Rightarrow>
                    if mv_eliminated mv then Some \<lparr>mi_owner = k, mi_lock = lock, mi_eliminated = True, mi_scalar_replaced = True\<rparr> else None
                | _ \<Rightarrow> None)
             else map_option (\<lambda>p. \<lparr>mi_owner = p, mi_lock = lock, mi_eliminated = mv_eliminated mv, mi_scalar_replaced = False\<rparr>)
                    (as_obj (create_stack_value E val m (ObjectRef a)))
         | v \<Rightarrow> map_option (\<lambda>p. \<lparr>mi_owner = p, mi_lock = lock, mi_eliminated = mv_eliminated mv, mi_scalar_replaced = False\<rparr>)
                  (as_obj (create_stack_value E val m v)))"

fun monitor_infos :: "deopt_env \<Rightarrow> frame_env \<Rightarrow> object_store \<Rightarrow> (nat \<Rightarrow> nat) \<Rightarrow> memory \<Rightarrow> monitor_value list \<Rightarrow> monitor_info list option" where
  "monitor_infos E F st val m [] = Some []"
| "monitor_infos E F st val m (mv # mvs) =
     (case monitor_info_of E F st val m mv of
        None \<Rightarrow> None
      | Some i \<Rightarrow> map_option (Cons i) (monitor_infos E F st val m mvs))"

definition vf_monitors :: "deopt_env \<Rightarrow> frame_env \<Rightarrow> object_store \<Rightarrow> (nat \<Rightarrow> nat) \<Rightarrow> memory \<Rightarrow> deferred_set list option \<Rightarrow> vframe \<Rightarrow> monitor_info list option" where
  "vf_monitors E F st val m deferred vf =
     (case vf_scope vf of
        None \<Rightarrow>
          if is_synchronized F (vf_method vf) then
            Some [\<lparr>mi_owner = fst (native_monitor F (vf_frame_id vf)), mi_lock = snd (native_monitor F (vf_frame_id vf)),
                   mi_eliminated = False, mi_scalar_replaced = False\<rparr>]
          else Some []
      | Some sd \<Rightarrow>
          (case sd_monitors sd of
             None \<Rightarrow> Some []
           | Some mvs \<Rightarrow>
               (case monitor_infos E F st val m mvs of
                  None \<Rightarrow> None
                | Some ms \<Rightarrow> with_deferred vf deferred (update_monitors F) ms)))"

section \<open>References into the frame are resolved\<close>

text \<open>The oop that a scope value denotes, as the machine holds it.\<close>

definition raw_oop :: "deopt_env \<Rightarrow> (nat \<Rightarrow> nat) \<Rightarrow> memory \<Rightarrow> scope_value \<Rightarrow> nat option" where
  "raw_oop E val m v =
     (case v of
        LocationValue l \<Rightarrow>
          if \<not> loc_is_oop E l then None
          else if loc_is_stack E l then Some (unat (load 8 m (nat (int (sp_base E) + stack_offset E l))))
          else if loc_is_register E l then Some (unat (load 8 m (reg_location E l)))
          else None
      | ObjectRef a \<Rightarrow> Some (val a)
      | _ \<Rightarrow> None)"

text \<open>
  What \<open>create_stack_value\<close> does with oops: the oop of a location, and the \<open>_value\<close> of an object. Oops are in the
  frame or in a register.
\<close>

definition stack_values_ok :: "deopt_env \<Rightarrow> (nat \<Rightarrow> nat) \<Rightarrow> memory \<Rightarrow> bool" where
  "stack_values_ok E val m \<longleftrightarrow>
     (\<forall>v p. raw_oop E val m v = Some p \<longrightarrow> create_stack_value E val m v = SVObj p) \<and>
     (\<forall>l. loc_is_oop E l \<longrightarrow> loc_is_stack E l \<or> loc_is_register E l)"

lemma find_matches_ObjectRef:
  assumes "List.find (matches_offset E st off) objects = Some v"
  obtains a where "v = ObjectRef a" "ObjectRef a \<in> set objects" "is_stack_object (st a)" "stack_offset E (ov_location (st a)) = off"
proof -
  from assms have "v \<in> set objects" "matches_offset E st off v" by (auto simp: find_Some_iff)
  with that show ?thesis by (cases v) (auto simp: matches_offset_def)
qed

lemma relocate_oop_found:
  assumes "relocate_oop E st val objects p = Some q" and "in_stack E p" and small: "8 * frame_words E < 2 ^ 31"
  shows "\<exists>a. ObjectRef a \<in> set objects \<and> is_stack_object (st a) \<and> stack_address E (st a) = p \<and> q = val a"
proof -
  have "frame_offset E p = int p - int (sp_base E)"
    using assms(2) small by (auto simp: frame_offset_def in_stack_def intro!: signed_take_bit_int_eq_self)
  moreover obtain a where "ObjectRef a \<in> set objects" "is_stack_object (st a)" "stack_offset E (ov_location (st a)) = frame_offset E p" "q = val a"
    using assms(1,2) by (auto simp: relocate_oop_def split: option.splits scope_value.splits elim!: find_matches_ObjectRef)
  ultimately show ?thesis by (intro exI [of _ a]) (simp add: stack_address_def)
qed

lemma replace_stack_oop_value:
  assumes "stack_values_ok E val m" and "raw_oop E val m v = Some p" and "relocate_oop E st val objects p = Some q"
  shows "\<exists>u. replace_stack_oop E st objects p v = Some u \<and> create_stack_value E val m u = SVObj q"
proof (cases "in_stack E p")
  case True
  with assms(3) obtain u where u: "match_object_to_stack_oop E st p objects = Some u" "\<exists>a. u = ObjectRef a \<and> q = val a"
    by (auto simp: relocate_oop_def match_object_to_stack_oop_def split: option.splits scope_value.splits)
  with True assms(1) show ?thesis by (auto simp: replace_stack_oop_def stack_values_ok_def raw_oop_def)
next
  case False
  with assms show ?thesis by (auto simp: relocate_oop_def replace_stack_oop_def stack_values_ok_def)
qed

text \<open>
  C33: While the fields of a scalar replaced object are restored, no reference into the dying frame
  survives. A value that denotes a reference to a stack object is resolved to the new object of the
  stack object at exactly that address, and every other reference is kept.
\<close>

theorem get_scope_value_resolves:
  assumes ok: "stack_values_ok E val m" and raw: "raw_oop E val m v = Some p" and rel: "relocate_oop E st val objects p = Some q"
    and small: "8 * frame_words E < 2 ^ 31"
  shows "\<exists>u. get_scope_value E st val m objects v = Some u \<and> create_stack_value E val m u = SVObj q \<and>
    (if in_stack E p then \<exists>a. ObjectRef a \<in> set objects \<and> is_stack_object (st a) \<and> stack_address E (st a) = p \<and> q = val a else q = p)"
proof -
  have "get_scope_value E st val m objects v = replace_stack_oop E st objects p v"
  proof (cases v)
    case (LocationValue l)
    moreover have "\<not> in_stack E p" if "objects = []" using rel that by (auto simp: relocate_oop_def)
    ultimately show ?thesis using raw by (auto simp: get_scope_value_def raw_oop_def replace_stack_oop_def split: if_splits)
  qed (use raw in \<open>auto simp: get_scope_value_def raw_oop_def\<close>)
  moreover have "q = p" if "\<not> in_stack E p" using rel that by (simp add: relocate_oop_def)
  ultimately show ?thesis using replace_stack_oop_value [OF ok raw rel] relocate_oop_found [OF rel _ small] by auto
qed

text \<open>The frame at 1000 again, now with an oop at offset 32, which is the reference to the stack object.\<close>

definition oop_env :: deopt_env where
  "oop_env = demo_env\<lparr>loc_is_oop := (\<lambda>l. l = 32), loc_is_stack := (\<lambda>l. l = 32),
     create_stack_value := (\<lambda>val m v. case v of ObjectRef a \<Rightarrow> SVObj (val a)
       | LocationValue l \<Rightarrow> if l = 32 then SVObj (unat (load 8 m 1032)) else SVConflict | _ \<Rightarrow> SVConflict)\<rparr>"

lemma oop_env_simps [simp]: "sp_base oop_env = 1000" "frame_words oop_env = 8" "stack_offset oop_env = uint"
    "loc_is_oop oop_env l = (l = 32)" "loc_is_stack oop_env l = (l = 32)" "loc_is_register oop_env l = False"
  by (simp_all add: oop_env_def demo_env_def)

lemma oop_env_ok: "stack_values_ok oop_env val m"
  by (auto simp: stack_values_ok_def raw_oop_def split: scope_value.splits) (simp_all add: oop_env_def)

lemma oop_env_raw: "raw_oop oop_env (ds_value demo_state) (ds_mem demo_state) (LocationValue 32) = Some 1016"
proof -
  have "load 8 (ds_mem demo_state) 1032 = 1016" by (simp add: demo_state_def load_store)
  then show ?thesis by (simp add: raw_oop_def)
qed

lemma oop_env_relocate: "relocate_oop oop_env demo_store (ds_value demo_state) [ObjectRef 0, ObjectRef 2] 1016 = Some 5000"
proof -
  have "frame_offset oop_env 1016 = 16" by (simp add: frame_offset_def signed_take_bit_int_eq_self)
  moreover have "matches_offset oop_env demo_store 16 (ObjectRef 0)" by (simp add: matches_offset_def is_stack_object_def demo_store_def)
  ultimately show ?thesis by (simp add: relocate_oop_def in_stack_def) (simp add: demo_state_def)
qed

theorem get_scope_value_resolves_witness:
  "\<exists>u. get_scope_value oop_env demo_store (ds_value demo_state) (ds_mem demo_state) [ObjectRef 0, ObjectRef 2] (LocationValue 32) = Some u \<and>
     create_stack_value oop_env (ds_value demo_state) (ds_mem demo_state) u = SVObj 5000"
  using get_scope_value_resolves [OF oop_env_ok oop_env_raw oop_env_relocate] by auto

section \<open>Locals and expressions\<close>






definition oop_scope :: scope_desc where
  "oop_scope = \<lparr>sd_locals = Some [LocationValue 32, MarkerValue, ObjectRef 2], sd_expressions = None, sd_monitors = None,
     sd_objects = Some [ObjectRef 0, ObjectRef 2]\<rparr>"

definition oop_vframe :: vframe where
  "oop_vframe = \<lparr>vf_compiled = True, vf_deoptimized = True, vf_frame_id = 1000, vf_vframe_id = 0, vf_method = 1, vf_bci = 5,
     vf_scope = Some oop_scope\<rparr>"

section \<open>Deferred updates as a map\<close>

definition var_map :: "deferred_var list \<Rightarrow> int \<rightharpoonup> BasicType \<times> intptr" where
  "var_map xs = map_of (map (\<lambda>x. (jv_index x, jv_type x, jv_value x)) xs)"

definition set_map :: "deferred_set list \<Rightarrow> nat \<times> int \<rightharpoonup> deferred_var list" where
  "set_map ss = map_of (map (\<lambda>s. ((jd_id s, jd_vframe_id s), jd_locals s)) ss)"

definition frame_key :: "vframe \<Rightarrow> nat \<times> int" where
  "frame_key vf = (vf_frame_id vf, vf_vframe_id vf)"

definition deferred_value :: "deferred_set list option \<Rightarrow> nat \<times> int \<Rightarrow> int \<Rightarrow> (BasicType \<times> intptr) option" where
  "deferred_value D key i = (case D of None \<Rightarrow> None | Some ss \<Rightarrow> Option.bind (set_map ss key) (\<lambda>xs. var_map xs i))"

definition deferred_ok :: "deferred_set list option \<Rightarrow> bool" where
  "deferred_ok D \<longleftrightarrow> (\<forall>ss. D = Some ss \<longrightarrow> distinct (map (\<lambda>s. (jd_id s, jd_vframe_id s)) ss) \<and> (\<forall>s \<in> set ss. distinct (map jv_index (jd_locals s))))"

text \<open>The frames that have updates are as they were when the updates were made.\<close>

definition agrees :: "deferred_set list option \<Rightarrow> vframe \<Rightarrow> bool" where
  "agrees D vf \<longleftrightarrow> (\<forall>ss. D = Some ss \<longrightarrow> (\<forall>s \<in> set ss. (jd_id s, jd_vframe_id s) = frame_key vf \<longrightarrow> jd_method s = vf_method vf \<and> jd_bci s = vf_bci vf))"

lemma set_value_at_map:
  assumes "\<forall>u w. var_map xs i = Some (u, w) \<longrightarrow> u = ty"
  shows "\<exists>xs'. set_value_at i ty v xs = Some xs' \<and> var_map xs' = (var_map xs)(i \<mapsto> (ty, v)) \<and>
    set (map jv_index xs') = insert i (set (map jv_index xs)) \<and> (distinct (map jv_index xs) \<longrightarrow> distinct (map jv_index xs'))"
  using assms
proof (induction xs)
  case (Cons x xs)
  show ?case
  proof (cases "jv_index x = i")
    case True
    with Cons.prems show ?thesis by (auto simp: var_map_def fun_eq_iff)
  next
    case False
    then have "\<forall>u w. var_map xs i = Some (u, w) \<longrightarrow> u = ty" using Cons.prems by (auto simp: var_map_def)
    then obtain xs' where "set_value_at i ty v xs = Some xs'" "var_map xs' = (var_map xs)(i \<mapsto> (ty, v))"
      "set (map jv_index xs') = insert i (set (map jv_index xs))" "distinct (map jv_index xs) \<longrightarrow> distinct (map jv_index xs')"
      using Cons.IH by blast
    with False show ?thesis by (auto simp: var_map_def fun_upd_twist)
  qed
qed (simp add: var_map_def)

lemma jd_matches_key:
  assumes "agrees (Some ss) vf" and "vf_compiled vf" and "s \<in> set ss"
  shows "jd_matches s vf = Some ((jd_id s, jd_vframe_id s) = frame_key vf)"
proof -
  have "(jd_id s, jd_vframe_id s) = frame_key vf \<longrightarrow> jd_method s = vf_method vf \<and> jd_bci s = vf_bci vf"
    using assms(1,3) by (simp add: agrees_def)
  then show ?thesis using assms(2) by (auto simp: jd_matches_def frame_key_def)
qed

lemma find_deferred_key:
  assumes "agrees (Some ss) vf" and "vf_compiled vf"
  shows "(frame_key vf \<notin> (\<lambda>s. (jd_id s, jd_vframe_id s)) ` set ss \<and> find_deferred vf ss k = Some None) \<or>
    (\<exists>j. find_deferred vf ss k = Some (Some (k + j)) \<and> j < length ss \<and> (jd_id (ss ! j), jd_vframe_id (ss ! j)) = frame_key vf)"
  using assms(1)
proof (induction ss arbitrary: k)
  case (Cons s ss)
  note m = jd_matches_key [OF Cons.prems assms(2), of s]
  show ?case
  proof (cases "(jd_id s, jd_vframe_id s) = frame_key vf")
    case True
    with m show ?thesis by (auto intro!: exI [of _ 0])
  next
    case False
    have "agrees (Some ss) vf" using Cons.prems by (auto simp: agrees_def)
    from Cons.IH [OF this, of "Suc k"] show ?thesis
    proof (elim disjE exE)
      fix j assume "find_deferred vf ss (Suc k) = Some (Some (Suc k + j)) \<and> j < length ss \<and> (jd_id (ss ! j), jd_vframe_id (ss ! j)) = frame_key vf"
      with False m show ?thesis by (intro disjI2 exI [of _ "Suc j"]) simp
    qed (use False m in auto)
  qed
qed simp

lemma set_map_update:
  assumes "distinct (map (\<lambda>s. (jd_id s, jd_vframe_id s)) ss)" and "j < length ss"
  shows "set_map (ss[j := (ss ! j)\<lparr>jd_locals := xs\<rparr>]) = (set_map ss)((jd_id (ss ! j), jd_vframe_id (ss ! j)) \<mapsto> xs)"
  using assms
proof (induction ss arbitrary: j)
  case (Cons s ss)
  show ?case
  proof (cases j)
    case 0
    then show ?thesis by (simp add: set_map_def fun_eq_iff)
  next
    case (Suc i)
    with Cons.prems have "ss ! i \<in> set ss" by simp
    with Cons.prems have "(jd_id (ss ! i), jd_vframe_id (ss ! i)) \<noteq> (jd_id s, jd_vframe_id s)" by (force simp: image_iff)
    with Cons.IH [of i] Cons.prems Suc show ?thesis by (auto simp: set_map_def fun_eq_iff)
  qed
qed simp

lemma set_map_append: "(jd_id s, jd_vframe_id s) \<notin> (\<lambda>s. (jd_id s, jd_vframe_id s)) ` set ss \<Longrightarrow>
    set_map (ss @ [s]) = (set_map ss)((jd_id s, jd_vframe_id s) \<mapsto> jd_locals s)"
  by (induction ss) (auto simp: set_map_def fun_upd_twist)

lemma set_map_nth:
  "distinct (map (\<lambda>s. (jd_id s, jd_vframe_id s)) ss) \<Longrightarrow> j < length ss \<Longrightarrow> set_map ss (jd_id (ss ! j), jd_vframe_id (ss ! j)) = Some (jd_locals (ss ! j))"
  unfolding set_map_def by (intro map_of_is_SomeI) (auto simp: comp_def)

lemma agrees_update:
  assumes "\<And>xs. set (us xs) \<subseteq> set ss \<union> {s\<lparr>jd_locals := xs\<rparr>}" and "s \<in> set ss" and "agrees (Some ss) vf"
  shows "agrees (Some (us xs)) vf"
proof -
  have "jd_method u = vf_method vf \<and> jd_bci u = vf_bci vf" if "u \<in> set (us xs)" "(jd_id u, jd_vframe_id u) = frame_key vf" for u
  proof -
    have "u \<in> set ss \<or> u = s\<lparr>jd_locals := xs\<rparr>" using assms(1) [of xs] that(1) by blast
    then show ?thesis using assms(2,3) that(2) by (auto simp: agrees_def)
  qed
  then show ?thesis by (simp add: agrees_def)
qed

section \<open>Locals with their updates\<close>
















text \<open>
  C35: The deferred updates of a thread are a map. Updating a variable of a frame succeeds when the
  variable had no update of another type, keeps one set per frame and one entry per index, and
  afterwards the frame has the new value at that index; every other index and every other frame is as
  it was.
\<close>

theorem update_deferred_value_correct:
  assumes vf: "vf_deoptimized vf" "vf_compiled vf" and ok: "deferred_ok D" and ag: "agrees D vf"
    and ty: "\<forall>u w. deferred_value D (frame_key vf) i = Some (u, w) \<longrightarrow> u = ty"
  shows "\<exists>D'. update_deferred_value vf ty i v D = Some D' \<and> deferred_ok D' \<and> agrees D' vf \<and>
    (\<forall>key j. deferred_value D' key j = (if key = frame_key vf \<and> j = i then Some (ty, v) else deferred_value D key j))"
proof -
  let ?key = "\<lambda>s. (jd_id s, jd_vframe_id s)"
  obtain ss where ss: "ss = (case D of None \<Rightarrow> [] | Some ss \<Rightarrow> ss)" by blast
  have ok1: "distinct (map ?key ss)" "\<forall>s \<in> set ss. distinct (map jv_index (jd_locals s))" "agrees (Some ss) vf"
    using ok ag by (auto simp: ss deferred_ok_def agrees_def split: option.splits)
  have D: "deferred_value D key j = Option.bind (set_map ss key) (\<lambda>xs. var_map xs j)" for key j
    by (simp add: ss deferred_value_def set_map_def split: option.split)
  have res: ?thesis
    if up: "\<And>xs. set_value_at i ty v (jd_locals s) = Some xs \<Longrightarrow> update_deferred_value vf ty i v D = Some (Some (us xs))"
      and us: "\<And>xs. set_map (us xs) = (set_map ss)(frame_key vf \<mapsto> xs)" "\<And>xs. distinct (map ?key (us xs))" "\<And>xs. agrees (Some (us xs)) vf"
        "\<And>xs. set (us xs) \<subseteq> set ss \<union> {s\<lparr>jd_locals := xs\<rparr>}"
      and s: "set_map ss (frame_key vf) = Some (jd_locals s) \<or> set_map ss (frame_key vf) = None \<and> jd_locals s = []"
        "distinct (map jv_index (jd_locals s))" for s us
  proof -
    have "\<forall>u w. var_map (jd_locals s) i = Some (u, w) \<longrightarrow> u = ty" using s(1) ty D by (auto simp: var_map_def)
    from set_value_at_map [OF this, where v = v] obtain xs where xs: "set_value_at i ty v (jd_locals s) = Some xs"
      "var_map xs = (var_map (jd_locals s))(i \<mapsto> (ty, v))" "distinct (map jv_index xs)" using s(2) by blast
    have "deferred_ok (Some (us xs))" using us(2) us(4) [of xs] xs(3) ok1(2) by (auto simp: deferred_ok_def)
    moreover have "deferred_value (Some (us xs)) key j = (if key = frame_key vf \<and> j = i then Some (ty, v) else deferred_value D key j)" for key j
    proof (cases "key = frame_key vf")
      case True
      have "deferred_value D key j = var_map (jd_locals s) j" using s(1) True unfolding D by (auto simp: var_map_def)
      with True xs(2) show ?thesis by (simp add: deferred_value_def us(1))
    next
      case False
      then have "deferred_value (Some (us xs)) key j = Option.bind (set_map ss key) (\<lambda>xs. var_map xs j)" by (simp add: deferred_value_def us(1))
      with False show ?thesis by (simp only: D) simp
    qed
    ultimately show ?thesis using up [OF xs(1)] us(3) by blast
  qed
  from find_deferred_key [OF ok1(3) vf(2), of 0] show ?thesis
  proof (elim disjE exE conjE)
    assume n: "frame_key vf \<notin> ?key ` set ss" "find_deferred vf ss 0 = Some None"
    let ?s = "new_deferred_set (vf_method vf) (vf_bci vf) (vf_frame_id vf) (vf_vframe_id vf)"
    have k: "?key ?s = frame_key vf" "jd_locals ?s = []" by (simp_all add: new_deferred_set_def frame_key_def)
    show ?thesis
    proof (rule res [of ?s "\<lambda>xs. ss @ [?s\<lparr>jd_locals := xs\<rparr>]"])
      show "update_deferred_value vf ty i v D = Some (Some (ss @ [?s\<lparr>jd_locals := xs\<rparr>]))" if "set_value_at i ty v (jd_locals ?s) = Some xs" for xs
        using vf n(2) that by (simp add: update_deferred_value_def ss [symmetric])
      show "set_map ss (frame_key vf) = Some (jd_locals ?s) \<or> set_map ss (frame_key vf) = None \<and> jd_locals ?s = []"
        using n(1) k by (auto simp: set_map_def map_of_eq_None_iff)
    qed (use k n(1) ok1 in \<open>auto simp: set_map_append agrees_def new_deferred_set_def frame_key_def\<close>)
  next
    fix j assume f: "find_deferred vf ss 0 = Some (Some (0 + j))" and j: "j < length ss" and k: "?key (ss ! j) = frame_key vf"
    show ?thesis
    proof (rule res [of "ss ! j" "\<lambda>xs. ss[j := (ss ! j)\<lparr>jd_locals := xs\<rparr>]"])
      show "update_deferred_value vf ty i v D = Some (Some (ss[j := (ss ! j)\<lparr>jd_locals := xs\<rparr>]))" if "set_value_at i ty v (jd_locals (ss ! j)) = Some xs" for xs
        using vf f that by (simp add: update_deferred_value_def ss [symmetric])
      show "set_map (ss[j := (ss ! j)\<lparr>jd_locals := xs\<rparr>]) = (set_map ss)(frame_key vf \<mapsto> xs)" for xs
        using set_map_update [OF ok1(1) j, of xs] k by simp
      have "map ?key (ss[j := (ss ! j)\<lparr>jd_locals := xs\<rparr>]) = map ?key ss" for xs using j by (simp add: map_update list_update_same_conv)
      then show "distinct (map ?key (ss[j := (ss ! j)\<lparr>jd_locals := xs\<rparr>]))" for xs using ok1(1) by simp
      show "set (ss[j := (ss ! j)\<lparr>jd_locals := xs\<rparr>]) \<subseteq> set ss \<union> {(ss ! j)\<lparr>jd_locals := xs\<rparr>}" for xs
        using set_update_subset_insert [of ss j] by auto
      moreover have "ss ! j \<in> set ss" using j by simp
      ultimately show "agrees (Some (ss[j := (ss ! j)\<lparr>jd_locals := xs\<rparr>])) vf" for xs
        using ok1(3) by (rule agrees_update)
      show "set_map ss (frame_key vf) = Some (jd_locals (ss ! j)) \<or> set_map ss (frame_key vf) = None \<and> jd_locals (ss ! j) = []"
        using set_map_nth [OF ok1(1) j] k by simp
      show "distinct (map jv_index (jd_locals (ss ! j)))" using ok1(2) j by simp
    qed
  qed
qed

theorem update_deferred_value_correct_witness:
  "\<exists>D'. update_deferred_value oop_vframe T_INT 3 17 None = Some D' \<and> deferred_ok D' \<and> agrees D' oop_vframe \<and>
    (\<forall>key j. deferred_value D' key j = (if key = frame_key oop_vframe \<and> j = 3 then Some (T_INT, 17) else deferred_value None key j))"
proof (rule update_deferred_value_correct)
  show "vf_deoptimized oop_vframe" "vf_compiled oop_vframe" by (simp_all add: oop_vframe_def)
  show "deferred_ok None" "agrees None oop_vframe" by (simp_all add: deferred_ok_def agrees_def)
  show "\<forall>u w. deferred_value None (frame_key oop_vframe) 3 = Some (u, w) \<longrightarrow> u = T_INT" by (simp add: deferred_value_def)
qed

end
