(* ===== verification/Trap_Request.thy ===== *)
theory Trap_Request
  imports Prelude
begin

text \<open>
  Trap requests and the trap state (\<open>deoptimization.hpp\<close>, \<open>deoptimization.cpp\<close>): the request that compiled code passes to an
  uncommon trap, packed into an \<open>int\<close>, and the trap history of a bytecode, packed into the bits of its profile data.
  The VM is one with JVMCI.
\<close>

section \<open>Reasons and actions\<close>

datatype (plugins only: code) DeoptReason = Reason_many | Reason_none | Reason_null_check | Reason_null_assert | Reason_range_check
  | Reason_class_check | Reason_array_check | Reason_intrinsic | Reason_bimorphic | Reason_profile_predicate
  | Reason_unloaded | Reason_uninitialized | Reason_initialized | Reason_unreached | Reason_unhandled | Reason_constraint
  | Reason_div0_check | Reason_age | Reason_predicate | Reason_loop_limit_check | Reason_speculate_class_check
  | Reason_speculate_null_check | Reason_speculate_null_assert | Reason_rtm_state_change | Reason_unstable_if
  | Reason_unstable_fused_if | Reason_aliasing | Reason_transfer_to_interpreter | Reason_not_compiled_exception_handler
  | Reason_unresolved | Reason_jsr_mismatch | Reason_tenured

datatype DeoptAction = Action_none | Action_maybe_recompile | Action_reinterpret | Action_make_not_entrant | Action_make_not_compilable

text \<open>The values of the enumerators. \<open>Reason_many\<close> is -1.\<close>

definition reasons :: "DeoptReason list" where
  "reasons = [Reason_none, Reason_null_check, Reason_null_assert, Reason_range_check,
     Reason_class_check, Reason_array_check, Reason_intrinsic, Reason_bimorphic, Reason_profile_predicate,
     Reason_unloaded, Reason_uninitialized, Reason_initialized, Reason_unreached, Reason_unhandled, Reason_constraint,
     Reason_div0_check, Reason_age, Reason_predicate, Reason_loop_limit_check, Reason_speculate_class_check,
     Reason_speculate_null_check, Reason_speculate_null_assert, Reason_rtm_state_change, Reason_unstable_if,
     Reason_unstable_fused_if, Reason_aliasing, Reason_transfer_to_interpreter, Reason_not_compiled_exception_handler,
     Reason_unresolved, Reason_jsr_mismatch, Reason_tenured]"

definition Reason_LIMIT :: nat where "Reason_LIMIT = 31"

fun reason_num :: "DeoptReason \<Rightarrow> nat" where
  "reason_num Reason_many = 0"
| "reason_num Reason_none = 0"
| "reason_num Reason_null_check = 1"
| "reason_num Reason_null_assert = 2"
| "reason_num Reason_range_check = 3"
| "reason_num Reason_class_check = 4"
| "reason_num Reason_array_check = 5"
| "reason_num Reason_intrinsic = 6"
| "reason_num Reason_bimorphic = 7"
| "reason_num Reason_profile_predicate = 8"
| "reason_num Reason_unloaded = 9"
| "reason_num Reason_uninitialized = 10"
| "reason_num Reason_initialized = 11"
| "reason_num Reason_unreached = 12"
| "reason_num Reason_unhandled = 13"
| "reason_num Reason_constraint = 14"
| "reason_num Reason_div0_check = 15"
| "reason_num Reason_age = 16"
| "reason_num Reason_predicate = 17"
| "reason_num Reason_loop_limit_check = 18"
| "reason_num Reason_speculate_class_check = 19"
| "reason_num Reason_speculate_null_check = 20"
| "reason_num Reason_speculate_null_assert = 21"
| "reason_num Reason_rtm_state_change = 22"
| "reason_num Reason_unstable_if = 23"
| "reason_num Reason_unstable_fused_if = 24"
| "reason_num Reason_aliasing = 25"
| "reason_num Reason_transfer_to_interpreter = 26"
| "reason_num Reason_not_compiled_exception_handler = 27"
| "reason_num Reason_unresolved = 28"
| "reason_num Reason_jsr_mismatch = 29"
| "reason_num Reason_tenured = 30"

definition reason_value :: "DeoptReason \<Rightarrow> jint" where
  "reason_value r = (if r = Reason_many then - 1 else word_of_nat (reason_num r))"

definition reason_of :: "nat \<Rightarrow> DeoptReason option" where
  "reason_of n = (if n < Reason_LIMIT then Some (reasons ! n) else None)"

definition actions :: "DeoptAction list" where
  "actions = [Action_none, Action_maybe_recompile, Action_reinterpret, Action_make_not_entrant, Action_make_not_compilable]"

definition Action_LIMIT :: nat where "Action_LIMIT = 5"

fun action_num :: "DeoptAction \<Rightarrow> nat" where
  "action_num Action_none = 0"
| "action_num Action_maybe_recompile = 1"
| "action_num Action_reinterpret = 2"
| "action_num Action_make_not_entrant = 3"
| "action_num Action_make_not_compilable = 4"

definition action_of :: "nat \<Rightarrow> DeoptAction option" where
  "action_of n = (if n < Action_LIMIT then Some (actions ! n) else None)"

definition action_bits :: nat where "action_bits = 3"
definition reason_bits :: nat where "reason_bits = 5"
definition debug_id_bits :: nat where "debug_id_bits = 23"
definition action_shift :: nat where "action_shift = 0"
definition reason_shift :: nat where "reason_shift = action_shift + action_bits"
definition debug_id_shift :: nat where "debug_id_shift = reason_shift + reason_bits"

lemmas request_layout = action_bits_def reason_bits_def debug_id_bits_def action_shift_def reason_shift_def debug_id_shift_def

section \<open>Trap requests\<close>

definition unloaded_action :: DeoptAction where "unloaded_action = Action_reinterpret"

text \<open>A value that is not an enumerator is \<open>None\<close>. The operand of \<open>>>\<close> is not negative.\<close>

definition request_field :: "jint \<Rightarrow> nat \<Rightarrow> nat \<Rightarrow> nat" where
  "request_field tr shift bits = unat (drop_bit shift (NOT tr) AND mask bits)"

definition trap_request_reason :: "jint \<Rightarrow> DeoptReason option" where
  "trap_request_reason tr = (if tr <s 0 then reason_of (request_field tr reason_shift reason_bits) else Some Reason_unloaded)"

definition trap_request_action :: "jint \<Rightarrow> DeoptAction option" where
  "trap_request_action tr = (if tr <s 0 then action_of (request_field tr action_shift action_bits) else Some unloaded_action)"

definition trap_request_debug_id :: "jint \<Rightarrow> nat" where
  "trap_request_debug_id tr = (if tr <s 0 then request_field tr debug_id_shift debug_id_bits else 0)"

definition trap_request_index :: "jint \<Rightarrow> jint" where
  "trap_request_index tr = (if tr <s 0 then - 1 else tr)"

definition make_trap_request :: "DeoptReason \<Rightarrow> DeoptAction \<Rightarrow> jint \<Rightarrow> jint option" where
  "make_trap_request reason action index =
     (let tr = (if index \<noteq> - 1 then index
                else NOT (push_bit reason_shift (reason_value reason) + push_bit action_shift (word_of_nat (action_num action))))
      in if Reason_LIMIT \<le> 2 ^ reason_bits \<and> Action_LIMIT \<le> 2 ^ action_bits \<and> trap_request_reason tr = Some reason \<and>
            trap_request_action tr = Some action \<and> trap_request_index tr = index
         then Some tr else None)"

section \<open>Reasons recorded per bytecode\<close>

definition Reason_RECORDED_LIMIT :: DeoptReason where "Reason_RECORDED_LIMIT = Reason_profile_predicate"

definition reason_is_recorded_per_bytecode :: "DeoptReason \<Rightarrow> bool" where
  "reason_is_recorded_per_bytecode r \<longleftrightarrow> r \<noteq> Reason_many \<and> 0 < reason_num r \<and> reason_num r \<le> reason_num Reason_RECORDED_LIMIT"

definition reason_recorded_per_bytecode_if_any :: "DeoptReason \<Rightarrow> DeoptReason" where
  "reason_recorded_per_bytecode_if_any r =
     (if reason_is_recorded_per_bytecode r then r
      else if r = Reason_div0_check then Reason_null_check
      else if r = Reason_speculate_class_check then Reason_class_check
      else if r = Reason_speculate_null_check then Reason_null_check
      else if r = Reason_speculate_null_assert then Reason_null_assert
      else if r = Reason_unstable_if then Reason_intrinsic
      else if r = Reason_unstable_fused_if then Reason_range_check
      else Reason_none)"

definition reason_is_speculate :: "DeoptReason \<Rightarrow> bool" where
  "reason_is_speculate r \<longleftrightarrow> r = Reason_speculate_class_check \<or> r = Reason_speculate_null_check \<or> r = Reason_speculate_null_assert"

definition reason_null_check :: "bool \<Rightarrow> DeoptReason" where
  "reason_null_check speculative = (if speculative then Reason_speculate_null_check else Reason_null_check)"

definition reason_class_check :: "bool \<Rightarrow> DeoptReason" where
  "reason_class_check speculative = (if speculative then Reason_speculate_class_check else Reason_class_check)"

definition reason_null_assert :: "bool \<Rightarrow> DeoptReason" where
  "reason_null_assert speculative = (if speculative then Reason_speculate_null_assert else Reason_null_assert)"

section \<open>The trap state\<close>

text \<open>\<open>trap_mask\<close> stands for \<open>DataLayout::trap_mask\<close>.\<close>

definition DS_REASON_MASK :: "jint \<Rightarrow> jint" where
  "DS_REASON_MASK trap_mask = drop_bit 1 trap_mask"

definition DS_RECOMPILE_BIT :: "jint \<Rightarrow> jint" where
  "DS_RECOMPILE_BIT trap_mask = trap_mask - DS_REASON_MASK trap_mask"

definition trap_state_reason :: "jint \<Rightarrow> jint \<Rightarrow> DeoptReason option" where
  "trap_state_reason M trap_state =
     (let ts = trap_state - (trap_state AND DS_RECOMPILE_BIT M)
      in if ts = DS_REASON_MASK M then Some Reason_many else reason_of (unat ts))"

definition trap_state_has_reason :: "jint \<Rightarrow> jint \<Rightarrow> DeoptReason \<Rightarrow> int" where
  "trap_state_has_reason M trap_state reason =
     (let ts = trap_state - (trap_state AND DS_RECOMPILE_BIT M)
      in if ts = DS_REASON_MASK M then -1
         else if ts = reason_value reason then 1
         else if ts = 0 then 0
         else 0)"

definition trap_state_add_reason :: "jint \<Rightarrow> jint \<Rightarrow> DeoptReason \<Rightarrow> jint" where
  "trap_state_add_reason M trap_state reason =
     (let recompile_bit = trap_state AND DS_RECOMPILE_BIT M; ts = trap_state - recompile_bit
      in if ts = DS_REASON_MASK M then ts + recompile_bit
         else if ts = reason_value reason then ts + recompile_bit
         else if ts = 0 then reason_value reason + recompile_bit
         else DS_REASON_MASK M + recompile_bit)"

definition trap_state_is_recompiled :: "jint \<Rightarrow> jint \<Rightarrow> bool" where
  "trap_state_is_recompiled M trap_state \<longleftrightarrow> trap_state AND DS_RECOMPILE_BIT M \<noteq> 0"

definition trap_state_set_recompiled :: "jint \<Rightarrow> jint \<Rightarrow> bool \<Rightarrow> jint" where
  "trap_state_set_recompiled M trap_state z =
     (if z then trap_state OR DS_RECOMPILE_BIT M else trap_state AND NOT (DS_RECOMPILE_BIT M))"

section \<open>Names\<close>

text \<open>\<open>%d\<close> of \<open>printf\<close>.\<close>

fun show_nat :: "nat \<Rightarrow> string" where
  "show_nat n = (if n < 10 then [char_of (48 + n)] else show_nat (n div 10) @ [char_of (48 + n mod 10)])"

declare show_nat.simps [simp del]

definition show_int :: "int \<Rightarrow> string" where
  "show_int i = (if i < 0 then ''-'' @ show_nat (nat (- i)) else show_nat (nat i))"

definition trap_reason_names :: "string list" where
  "trap_reason_names = [''none'', ''null_check'', ''null_assert_or_unreached0'', ''range_check'', ''class_check'', ''array_check'',
     ''intrinsic_or_type_checked_inlining'', ''bimorphic_or_optimized_type_check'', ''profile_predicate'', ''unloaded'',
     ''uninitialized'', ''initialized'', ''unreached'', ''unhandled'', ''constraint'', ''div0_check'', ''age'', ''predicate'',
     ''loop_limit_check'', ''speculate_class_check'', ''speculate_null_check'', ''speculate_null_assert'', ''rtm_state_change'',
     ''unstable_if'', ''unstable_fused_if'', ''aliasing'', ''transfer_to_interpreter'', ''not_compiled_exception_handler'',
     ''unresolved'', ''jsr_mismatch'', ''tenured'']"

definition trap_action_names :: "string list" where
  "trap_action_names = [''none'', ''maybe_recompile'', ''reinterpret'', ''make_not_entrant'', ''make_not_compilable'']"

definition trap_reason_name :: "jint \<Rightarrow> string" where
  "trap_reason_name reason =
     (if reason = reason_value Reason_many then ''many''
      else if unat reason < Reason_LIMIT then trap_reason_names ! unat reason
      else ''reason'' @ show_int (sint reason))"

definition trap_action_name :: "jint \<Rightarrow> string" where
  "trap_action_name action =
     (if unat action < Action_LIMIT then trap_action_names ! unat action else ''action'' @ show_int (sint action))"

text \<open>The value that a state decodes to, as an \<open>int\<close>.\<close>

definition state_reason_value :: "jint \<Rightarrow> jint \<Rightarrow> jint" where
  "state_reason_value M trap_state =
     (let ts = trap_state - (trap_state AND DS_RECOMPILE_BIT M)
      in if ts = DS_REASON_MASK M then reason_value Reason_many else ts)"

text \<open>The buffer is long enough.\<close>

definition format_trap_state :: "jint \<Rightarrow> jint \<Rightarrow> string" where
  "format_trap_state M trap_state =
     (let v = state_reason_value M trap_state;
          recomp_flag = trap_state_is_recompiled M trap_state;
          recorded = (v = reason_value Reason_many \<or> 0 <s v \<and> v \<le>s reason_value Reason_RECORDED_LIMIT);
          reason = (if v = reason_value Reason_many then Reason_many else reasons ! unat v);
          s1 = (if recorded then trap_state_add_reason M 0 reason else 0);
          decoded_state = (if recomp_flag then trap_state_set_recompiled M s1 recomp_flag else s1)
      in if decoded_state \<noteq> trap_state then ''#'' @ show_int (sint trap_state)
         else trap_reason_name v @ (if recomp_flag then '' recompiled'' else []))"

definition format_trap_request :: "jint \<Rightarrow> string" where
  "format_trap_request tr =
     (let index = trap_request_index tr;
          reason = trap_reason_name (if tr <s 0 then word_of_nat (request_field tr reason_shift reason_bits) else reason_value Reason_unloaded);
          action = trap_action_name (if tr <s 0 then word_of_nat (request_field tr action_shift action_bits) else word_of_nat (action_num unloaded_action));
          head = ''reason='' @ [CHR 0x27] @ reason @ [CHR 0x27] @ '' action='' @ [CHR 0x27] @ action @ [CHR 0x27];
          debug_id = '' debug_id='' @ [CHR 0x27] @ show_int (int (trap_request_debug_id tr)) @ [CHR 0x27]
      in if index <s 0 then head @ debug_id
         else head @ '' index='' @ [CHR 0x27] @ show_int (sint index) @ [CHR 0x27] @ debug_id)"

section \<open>The histogram\<close>

text \<open>
  \<open>_deoptimization_hist\<close>: the rows of cases by reason and column (\<open>1 + action\<close>; column 0 holds the totals). \<open>limit\<close> is
  \<open>BC_CASE_LIMIT\<close>, which depends on the build. \<open>None\<close> for a bytecode is \<open>Bytecodes::_illegal\<close>.
\<close>

type_synonym deopt_hist = "nat \<Rightarrow> nat \<Rightarrow> nat \<Rightarrow> juint"

definition LSB_BITS :: nat where "LSB_BITS = 8"

definition LSB_MASK :: juint where "LSB_MASK = mask LSB_BITS"

definition hist_set :: "nat \<Rightarrow> nat \<Rightarrow> nat \<Rightarrow> juint \<Rightarrow> deopt_hist \<Rightarrow> deopt_hist" where
  "hist_set r c i v h = h(r := (h r)(c := (h r c)(i := v)))"

text \<open>One round of the search: the counter found so far.\<close>

definition find_case :: "(nat \<Rightarrow> juint) \<Rightarrow> u1 \<Rightarrow> nat \<Rightarrow> (nat \<times> juint) option \<Rightarrow> (nat \<times> juint) option" where
  "find_case cases bc i found =
     (let counter = cases i
      in if (counter = 0 \<and> found = None) \<or> counter AND LSB_MASK = ucast bc then Some (i, counter OR ucast bc) else found)"

definition choose_case :: "nat \<Rightarrow> (nat \<Rightarrow> juint) \<Rightarrow> u1 option \<Rightarrow> nat \<times> juint" where
  "choose_case limit cases bc =
     (case (case bc of None \<Rightarrow> None | Some b \<Rightarrow> fold (find_case cases b) [0..<limit] None) of
        Some x \<Rightarrow> x
      | None \<Rightarrow> (limit - 1, cases (limit - 1) AND NOT LSB_MASK))"

definition gather_statistics :: "nat \<Rightarrow> DeoptReason \<Rightarrow> DeoptAction \<Rightarrow> u1 option \<Rightarrow> deopt_hist \<Rightarrow> deopt_hist option" where
  "gather_statistics limit reason action bc h =
     (if reason = Reason_many then None
      else
        let r = reason_num reason; c = Suc (action_num action);
            h1 = hist_set 0 0 0 (h 0 0 0 + 1) h;
            h2 = hist_set r 0 0 (h1 r 0 0 + 1) h1;
            (i, v) = choose_case limit (h2 r c) bc
        in Some (hist_set r c i (v + push_bit LSB_BITS 1) h2))"

definition total_deoptimization_count :: "deopt_hist \<Rightarrow> jint" where
  "total_deoptimization_count h = h 0 0 0"

text \<open>
  The entries that \<open>print_statistics\<close> prints: the reason, the action, the bytecode (\<open>None\<close> is \<open>_illegal\<close>) and the count of
  every counter that is not zero; and what is left of the total.
\<close>

definition stat_entry :: "nat \<Rightarrow> nat \<Rightarrow> juint \<Rightarrow> u1 option \<times> juint" where
  "stat_entry limit bc_case counter =
     (let bc = ucast (counter AND LSB_MASK)
      in (if bc_case = limit \<and> bc = 0 then None else Some bc, drop_bit LSB_BITS counter))"

definition print_statistics :: "nat \<Rightarrow> deopt_hist \<Rightarrow> (nat \<times> nat \<times> u1 option \<times> juint) list \<times> juint" where
  "print_statistics limit h =
     (let es = concat (map (\<lambda>r. concat (map (\<lambda>a.
                 map (\<lambda>i. (r, a, stat_entry limit i (h r (Suc a) i))) (filter (\<lambda>i. h r (Suc a) i \<noteq> 0) [0..<limit]))
                 [0..<Action_LIMIT])) [0..<Reason_LIMIT])
      in if h 0 0 0 = 0 then ([], 0) else (es, h 0 0 0 - sum_list (map (\<lambda>(r, a, bc, n). n) es)))"

section \<open>Requests decode to what was encoded\<close>

lemma reason_num_less: "reason_num r < Reason_LIMIT"
  by (cases r) (simp_all add: Reason_LIMIT_def)

lemma reason_of_num: "r \<noteq> Reason_many \<Longrightarrow> reason_of (reason_num r) = Some r"
  by (cases r) (simp_all add: reason_of_def Reason_LIMIT_def reasons_def)

lemma reason_num_inj: "r \<noteq> Reason_many \<Longrightarrow> s \<noteq> Reason_many \<Longrightarrow> reason_num r = reason_num s \<longleftrightarrow> r = s"
  using reason_of_num by (metis option.inject)

lemma action_num_less: "action_num a < Action_LIMIT"
  by (cases a) (simp_all add: Action_LIMIT_def)

lemma action_of_num: "action_of (action_num a) = Some a"
  by (cases a) (simp_all add: action_of_def Action_LIMIT_def actions_def)

lemma action_num_inj [simp]: "action_num a = action_num b \<longleftrightarrow> a = b"
  using action_of_num by (metis option.inject)

lemma unat_request:
  assumes "r < 32" "a < 8"
  shows "unat (push_bit 3 (word_of_nat r) + word_of_nat a :: jint) = 8 * r + a"
proof -
  have "push_bit 3 (word_of_nat r) + word_of_nat a = (word_of_nat (8 * r + a) :: jint)" by (simp add: push_bit_eq_mult)
  moreover have "8 * r + a < 2 ^ LENGTH(32)" using assms by simp
  ultimately show ?thesis by (simp only: unat_of_nat mod_less)
qed

lemma request_word:
  assumes "r < 32" "a < 8" and "tr = NOT (push_bit 3 (word_of_nat r) + word_of_nat a :: jint)"
  shows "tr <s 0" "request_field tr 3 5 = r" "request_field tr 0 3 = a" "request_field tr 8 23 = 0"
proof -
  let ?x = "push_bit 3 (word_of_nat r) + word_of_nat a :: jint"
  have x: "unat ?x = 8 * r + a" by (rule unat_request [OF assms(1,2)])
  have "uint ?x = int (8 * r + a)" using x by (simp flip: x)
  then have "sint ?x = signed_take_bit 31 (int (8 * r + a))" by (simp only: sint_uint) simp
  then have "sint ?x = int (8 * r + a)" using assms(1,2) by (simp add: signed_take_bit_int_eq_self)
  then have "sint (NOT ?x) = signed_take_bit 32 (- int (8 * r + a) - 1)"
    by (simp only: signed_not_eq not_int_def) simp
  then have "sint (NOT ?x) = - int (8 * r + a) - 1"
    using assms(1,2) by (simp add: signed_take_bit_int_eq_self del: signed_take_bit_minus)
  then show "tr <s 0" unfolding assms(3) using assms(1,2) by (simp only: word_sless_alt sint_0)
  have f: "request_field tr s b = (8 * r + a) div 2 ^ s mod 2 ^ b" for s b
    unfolding request_field_def assms(3)
    by (simp add: take_bit_eq_mask [symmetric] unsigned_take_bit_eq unat_drop_bit_eq x) (simp add: drop_bit_eq_div take_bit_eq_mod)
  show "request_field tr 3 5 = r" "request_field tr 0 3 = a" "request_field tr 8 23 = 0" using assms(1,2) by (simp_all add: f)
qed


lemma make_trap_request_word:
  assumes "r \<noteq> Reason_many"
  shows "make_trap_request r a (- 1) = Some (NOT (push_bit 3 (word_of_nat (reason_num r)) + word_of_nat (action_num a)))"
proof -
  have "reason_num r < 32" "action_num a < 8"
    using reason_num_less [of r] action_num_less [of a] by (simp_all add: Reason_LIMIT_def Action_LIMIT_def)
  note w = request_word [OF this refl]
  show ?thesis
    using assms by (simp add: make_trap_request_def reason_value_def trap_request_reason_def trap_request_action_def
        trap_request_index_def request_layout w reason_of_num action_of_num Reason_LIMIT_def Action_LIMIT_def)
qed

text \<open>
  C39: a request without a class index is built for every reason except \<open>Reason_many\<close> and every action, with none of the
  assertions of \<open>make_trap_request\<close> failing; it is negative and decodes to the reason, the action, the debug id 0 and no
  index, so different pairs give different requests. A request with an index is built exactly for an unloaded
  class to be interpreted again, and is the index.
\<close>

theorem trap_request_roundtrip:
  "(r \<noteq> Reason_many \<longrightarrow>
      (\<exists>tr. make_trap_request r a (- 1) = Some tr \<and> tr <s 0 \<and> trap_request_reason tr = Some r \<and>
            trap_request_action tr = Some a \<and> trap_request_debug_id tr = 0 \<and> trap_request_index tr = - 1)) \<and>
   (0 \<le>s index \<longrightarrow>
      make_trap_request r a index = (if r = Reason_unloaded \<and> a = Action_reinterpret then Some index else None))"
proof (intro conjI impI)
  assume r: "r \<noteq> Reason_many"
  have "reason_num r < 32" "action_num a < 8"
    using reason_num_less [of r] action_num_less [of a] by (simp_all add: Reason_LIMIT_def Action_LIMIT_def)
  note w = request_word [OF this refl]
  show "\<exists>tr. make_trap_request r a (- 1) = Some tr \<and> tr <s 0 \<and> trap_request_reason tr = Some r \<and>
            trap_request_action tr = Some a \<and> trap_request_debug_id tr = 0 \<and> trap_request_index tr = - 1"
    using r by (simp add: make_trap_request_word trap_request_reason_def trap_request_action_def
        trap_request_debug_id_def trap_request_index_def request_layout w reason_of_num action_of_num)
next
  assume i: "0 \<le>s index"
  then have "index \<noteq> - 1" "\<not> index <s 0" by (auto simp: word_sle_eq word_sless_alt)
  then show "make_trap_request r a index = (if r = Reason_unloaded \<and> a = Action_reinterpret then Some index else None)"
    by (auto simp: make_trap_request_def trap_request_reason_def trap_request_action_def trap_request_index_def
        unloaded_action_def Reason_LIMIT_def Action_LIMIT_def request_layout)
qed

theorem trap_request_roundtrip_witness:
  "(\<exists>tr. make_trap_request Reason_range_check Action_make_not_entrant (- 1) = Some tr \<and> trap_request_reason tr = Some Reason_range_check) \<and>
   make_trap_request Reason_unloaded Action_reinterpret 7 = Some 7"
  using trap_request_roundtrip [of Reason_range_check Action_make_not_entrant 0]
    trap_request_roundtrip [of Reason_unloaded Action_reinterpret 7] by (auto simp: word_sle_eq)


section \<open>The trap state is a history\<close>

text \<open>What a state stands for: no reason yet, one reason, or several; and whether the bytecode was recompiled.\<close>

datatype trap_history = Never | Once DeoptReason | Several

fun history_reason :: "trap_history \<Rightarrow> DeoptReason" where
  "history_reason Never = Reason_none"
| "history_reason (Once r) = r"
| "history_reason Several = Reason_many"

fun history_add :: "DeoptReason \<Rightarrow> trap_history \<Rightarrow> trap_history" where
  "history_add r Never = Once r"
| "history_add r (Once s) = (if s = r then Once s else Several)"
| "history_add r Several = Several"

fun history_has :: "DeoptReason \<Rightarrow> trap_history \<Rightarrow> int" where
  "history_has r Never = 0"
| "history_has r (Once s) = (if s = r then 1 else 0)"
| "history_has r Several = -1"

fun history_ok :: "trap_history \<Rightarrow> bool" where
  "history_ok (Once r) = reason_is_recorded_per_bytecode r"
| "history_ok _ = True"

definition history_code :: "jint \<Rightarrow> trap_history \<Rightarrow> jint" where
  "history_code M h = (case h of Never \<Rightarrow> 0 | Once r \<Rightarrow> reason_value r | Several \<Rightarrow> DS_REASON_MASK M)"

definition encode_state :: "jint \<Rightarrow> trap_history \<Rightarrow> bool \<Rightarrow> jint" where
  "encode_state M h z = history_code M h OR (if z then DS_RECOMPILE_BIT M else 0)"

lemma DS_masks:
  assumes "m \<le> 31"
  shows "DS_REASON_MASK (mask (Suc m)) = mask m" "DS_RECOMPILE_BIT (mask (Suc m)) = push_bit m 1"
proof -
  show r: "DS_REASON_MASK (mask (Suc m)) = mask m"
    unfolding DS_REASON_MASK_def using assms by (auto intro!: bit_eqI simp: bit_simps)
  have "mask (Suc m) = mask m + (push_bit m 1 :: jint)" by (simp add: mask_eq_exp_minus_1)
  then show "DS_RECOMPILE_BIT (mask (Suc m)) = push_bit m 1"
    unfolding DS_RECOMPILE_BIT_def r by simp
qed

text \<open>A state splits into its two parts.\<close>

lemma state_parts:
  fixes c :: jint
  assumes "m \<le> 31" "take_bit m c = c" and "b = (if z then push_bit m 1 else 0)"
  shows "(c OR b) AND push_bit m 1 = b" "(c OR b) - b = c" "c + b = c OR b"
    "(c OR b) OR push_bit m 1 = c OR push_bit m 1" "(c OR b) AND NOT (push_bit m 1) = c"
proof -
  have c: "bit c i \<Longrightarrow> i < m" for i using assms(2) by (metis bit_take_bit_iff)
  show "(c OR b) AND push_bit m 1 = b" "(c OR b) OR push_bit m 1 = c OR push_bit m 1" "(c OR b) AND NOT (push_bit m 1) = c"
    unfolding assms(3) using c [of m] c by (auto intro!: bit_eqI simp: bit_simps)
  have "c AND b = 0" unfolding assms(3) using c [of m] c by (auto intro!: bit_eqI simp: bit_simps)
  then show "c + b = c OR b" by (rule disjunctive_add_eq_or)
  then show "(c OR b) - b = c" by (metis add_diff_cancel_right')
qed

lemma recorded_reason:
  assumes "reason_is_recorded_per_bytecode r" "4 \<le> m" "m \<le> 31"
  shows "unat (reason_value r) = reason_num r" "0 < reason_num r" "reason_num r < mask m"
    "take_bit m (reason_value r) = reason_value r" "reason_value r \<noteq> 0" "reason_value r \<noteq> mask m"
proof -
  have k: "r \<noteq> Reason_many" "0 < reason_num r" "reason_num r \<le> 8"
    using assms(1) by (simp_all add: reason_is_recorded_per_bytecode_def Reason_RECORDED_LIMIT_def)
  have "(15 :: nat) = mask 4" by (simp add: mask_eq_exp_minus_1)
  also have "\<dots> \<le> mask m" using power_increasing [OF assms(2), of "2 :: nat"] by (simp add: mask_eq_exp_minus_1)
  finally have m: "15 \<le> (mask m :: nat)" .
  have u: "unat (reason_value r) = reason_num r" using k by (simp add: reason_value_def unat_of_nat)
  show "unat (reason_value r) = reason_num r" "0 < reason_num r" "reason_num r < mask m" using u k m by simp_all
  have l: "reason_num r < 2 ^ m" using k m by (simp add: mask_eq_exp_minus_1)
  have "unat (take_bit m (reason_value r)) = unat (reason_value r)"
    using l u by (simp add: unsigned_take_bit_eq take_bit_nat_eq_self)
  then show "take_bit m (reason_value r) = reason_value r" by (simp only: word_unat_eq_iff)
  show "reason_value r \<noteq> 0" using u k by auto
  have "unat (mask m :: jint) = mask m" using assms(3) by (auto intro!: bit_eqI simp: bit_simps)
  then show "reason_value r \<noteq> mask m" using u k m by auto
qed

lemma reason_value_inj:
  assumes "reason_is_recorded_per_bytecode r" "reason_is_recorded_per_bytecode s"
  shows "reason_value r = reason_value s \<longleftrightarrow> r = s"
proof
  assume e: "reason_value r = reason_value s"
  have "reason_num r = reason_num s" using recorded_reason(1) [OF assms(1), of 4] recorded_reason(1) [OF assms(2), of 4] e by simp
  moreover have "r \<noteq> Reason_many" "s \<noteq> Reason_many" using assms by (simp_all add: reason_is_recorded_per_bytecode_def)
  ultimately show "r = s" using reason_of_num by (metis option.inject)
qed simp

lemma history_code_parts:
  assumes "4 \<le> m" "m \<le> 31" "history_ok h"
  shows "take_bit m (history_code (mask (Suc m)) h) = history_code (mask (Suc m)) h"
  using assms by (cases h) (simp_all add: history_code_def DS_masks recorded_reason take_bit_of_mask)

lemma encode_state_parts:
  assumes "4 \<le> m" "m \<le> 31" "history_ok h" and M: "M = mask (Suc m)"
  shows "encode_state M h z AND DS_RECOMPILE_BIT M = (if z then DS_RECOMPILE_BIT M else 0)"
    "encode_state M h z - (if z then DS_RECOMPILE_BIT M else 0) = history_code M h"
    "history_code M h + (if z then DS_RECOMPILE_BIT M else 0) = encode_state M h z"
    "encode_state M h z OR DS_RECOMPILE_BIT M = encode_state M h True"
    "encode_state M h z AND NOT (DS_RECOMPILE_BIT M) = encode_state M h False"
    "DS_RECOMPILE_BIT M \<noteq> 0"
proof -
  note p = state_parts [OF assms(2) history_code_parts [OF assms(1-3)] refl]
  show "encode_state M h z AND DS_RECOMPILE_BIT M = (if z then DS_RECOMPILE_BIT M else 0)"
    using p(1) [of z] assms(2) by (simp only: encode_state_def M DS_masks)
  show "encode_state M h z - (if z then DS_RECOMPILE_BIT M else 0) = history_code M h"
    using p(2) [of z] assms(2) by (simp only: encode_state_def M DS_masks)
  show "history_code M h + (if z then DS_RECOMPILE_BIT M else 0) = encode_state M h z"
    using p(3) [of z] assms(2) by (simp only: encode_state_def M DS_masks)
  show "encode_state M h z OR DS_RECOMPILE_BIT M = encode_state M h True"
    using p(4) [of z] assms(2) by (simp only: encode_state_def M DS_masks if_True)
  show "encode_state M h z AND NOT (DS_RECOMPILE_BIT M) = encode_state M h False"
    using p(5) [of z] assms(2) by (simp only: encode_state_def M DS_masks if_False or.right_neutral)
  show "DS_RECOMPILE_BIT M \<noteq> 0" using assms(2) by (simp add: M DS_masks)
qed


lemma history_code_Several:
  assumes "4 \<le> m" "m \<le> 31" "history_ok h" "M = mask (Suc m)"
  shows "history_code M h = DS_REASON_MASK M \<longleftrightarrow> h = Several" "history_code M h = 0 \<longleftrightarrow> h = Never"
  using assms by (cases h; auto simp: history_code_def DS_masks recorded_reason)+

lemma history_code_reason:
  assumes "4 \<le> m" "m \<le> 31" "history_ok h" "M = mask (Suc m)" "reason_is_recorded_per_bytecode r" "h \<noteq> Several"
  shows "history_code M h = reason_value r \<longleftrightarrow> h = Once r"
  using assms by (cases h) (auto simp: history_code_def recorded_reason reason_value_inj dest: recorded_reason(5) [symmetric])

lemma trap_state_reason_refines:
  assumes "4 \<le> m" "m \<le> 31" "history_ok h" "M = mask (Suc m)"
  shows "trap_state_reason M (encode_state M h z) = Some (history_reason h)"
proof -
  have "reason_of (unat (history_code M h)) = Some (history_reason h)" if "h \<noteq> Several"
  proof (cases h)
    case (Once r)
    then have r: "reason_is_recorded_per_bytecode r" using assms(3) by simp
    then show ?thesis
      using Once by (simp add: history_code_def recorded_reason(1) [OF r assms(1,2)] reason_of_num reason_is_recorded_per_bytecode_def)
  qed (use that in \<open>simp_all add: history_code_def reason_of_def Reason_LIMIT_def reasons_def\<close>)
  then show ?thesis
    unfolding trap_state_reason_def Let_def encode_state_parts(1,2) [OF assms] history_code_Several [OF assms] by auto
qed

lemma trap_state_has_reason_refines:
  assumes "4 \<le> m" "m \<le> 31" "history_ok h" "M = mask (Suc m)" "reason_is_recorded_per_bytecode r"
  shows "trap_state_has_reason M (encode_state M h z) r = history_has r h"
  unfolding trap_state_has_reason_def Let_def encode_state_parts(1,2) [OF assms(1-4)] history_code_Several [OF assms(1-4)]
  using history_code_reason [OF assms] by (cases h) simp_all

lemma trap_state_add_reason_refines:
  assumes "4 \<le> m" "m \<le> 31" "history_ok h" "M = mask (Suc m)" "reason_is_recorded_per_bytecode r"
  shows "trap_state_add_reason M (encode_state M h z) r = encode_state M (history_add r h) z"
proof -
  have o: "history_ok (history_add r h)" using assms(3,5) by (cases h) simp_all
  have s: "history_code M Several = DS_REASON_MASK M" "history_code M (Once r) = reason_value r"
    by (simp_all add: history_code_def)
  show ?thesis
    unfolding encode_state_parts(3) [OF assms(1,2) o assms(4), symmetric] trap_state_add_reason_def Let_def
      encode_state_parts(1,2) [OF assms(1-4)] history_code_Several [OF assms(1-4)]
    using history_code_reason [OF assms] by (cases h) (simp_all add: s)
qed

lemma trap_state_recompiled_refines:
  assumes "4 \<le> m" "m \<le> 31" "history_ok h" "M = mask (Suc m)"
  shows "trap_state_is_recompiled M (encode_state M h z) \<longleftrightarrow> z"
    "trap_state_set_recompiled M (encode_state M h z) z' = encode_state M h z'"
  by (simp_all add: trap_state_is_recompiled_def trap_state_set_recompiled_def encode_state_parts [OF assms])

lemma history_ok_fold: "list_all reason_is_recorded_per_bytecode rs \<Longrightarrow> history_ok h \<Longrightarrow> history_ok (fold history_add rs h)"
proof (induction rs arbitrary: h)
  case (Cons r rs)
  have "history_ok (history_add r h)" using Cons.prems by (cases h) simp_all
  then show ?case using Cons by simp
qed simp

lemma history_fold_Several: "fold history_add rs Several = Several"
  by (induction rs) simp_all

lemma history_fold_Once: "fold history_add rs (Once r) = (if set rs \<subseteq> {r} then Once r else Several)"
proof (induction rs)
  case (Cons a rs)
  then show ?case by (cases "r = a") (simp_all add: history_fold_Several)
qed simp

lemma history_fold_Never:
  "fold history_add rs Never = (if rs = [] then Never else if set rs = {List.hd rs} then Once (List.hd rs) else Several)"
  by (cases rs) (auto simp: history_fold_Once)

lemma trap_state_fold:
  assumes "4 \<le> m" "m \<le> 31" "M = mask (Suc m)" "list_all reason_is_recorded_per_bytecode rs" "history_ok h"
  shows "fold (\<lambda>r s. trap_state_add_reason M s r) rs (encode_state M h z) = encode_state M (fold history_add rs h) z"
  using assms(4,5)
proof (induction rs arbitrary: h)
  case (Cons r rs)
  have "history_ok (history_add r h)" using Cons.prems by (cases h) simp_all
  then show ?case using Cons by (simp add: trap_state_add_reason_refines [OF assms(1,2) _ assms(3)])
qed simp

text \<open>
  C38: the trap state of a bytecode implements a history with three kinds of states. Whatever the number of bits (enough for
  the recorded reasons), after any sequence of traps from the state zero, with the recompile bit set or cleared in between
  at the end, the state reports no reason for no trap, the reason of the traps if all had the same, and \<open>Reason_many\<close> if
  not; a reason that occurred is never denied, and is affirmed for certain only if no other occurred; the recompile bit
  is what was last written and disturbs none of this.
\<close>

theorem trap_state_refines:
  assumes "5 \<le> n" "n \<le> 32" "M = mask n"
    and "list_all reason_is_recorded_per_bytecode rs" "reason_is_recorded_per_bytecode r"
    and "st = trap_state_set_recompiled M (fold (\<lambda>r s. trap_state_add_reason M s r) rs 0) z"
  shows "trap_state_reason M st = Some (if rs = [] then Reason_none else if set rs = {List.hd rs} then List.hd rs else Reason_many) \<and>
    trap_state_has_reason M st r = (if rs = [] \<or> set rs \<noteq> {r} \<and> set rs = {List.hd rs} then 0 else if set rs = {r} then 1 else -1) \<and>
    (trap_state_is_recompiled M st \<longleftrightarrow> z) \<and>
    trap_state_add_reason M st r = trap_state_set_recompiled M (fold (\<lambda>r s. trap_state_add_reason M s r) (rs @ [r]) 0) z"
proof -
  obtain m where m: "4 \<le> m" "m \<le> 31" "M = mask (Suc m)" using assms(1-3) by (cases n) auto
  define h where "h = fold history_add rs Never"
  have z: "encode_state M Never False = 0" by (simp add: encode_state_def history_code_def)
  have h: "history_ok h" "history_ok (fold history_add (rs @ [r]) Never)"
    unfolding h_def using assms(4,5) by (rule_tac [!] history_ok_fold) simp_all
  have f: "fold (\<lambda>r s. trap_state_add_reason M s r) rs 0 = encode_state M h False"
    using trap_state_fold [OF m assms(4), of Never False] by (simp add: z h_def)
  have f': "fold (\<lambda>r s. trap_state_add_reason M s r) (rs @ [r]) 0 = encode_state M (history_add r h) False"
    using trap_state_add_reason_refines [OF m(1,2) h(1) m(3) assms(5), of False] f by simp
  have st: "st = encode_state M h z"
    unfolding assms(6) f by (rule trap_state_recompiled_refines(2) [OF m(1,2) h(1) m(3)])
  have "history_reason h = (if rs = [] then Reason_none else if set rs = {List.hd rs} then List.hd rs else Reason_many)"
    "history_has r h = (if rs = [] \<or> set rs \<noteq> {r} \<and> set rs = {List.hd rs} then 0 else if set rs = {r} then 1 else -1)"
    unfolding h_def history_fold_Never by (cases rs; auto)+
  moreover have "history_ok (history_add r h)" using h(2) by (simp add: h_def)
  note r = trap_state_recompiled_refines(2) [OF m(1,2) this m(3)]
  ultimately show ?thesis
    unfolding f' r using trap_state_reason_refines [OF m(1,2) h(1) m(3)] trap_state_has_reason_refines [OF m(1,2) h(1) m(3) assms(5)]
      trap_state_recompiled_refines(1) [OF m(1,2) h(1) m(3)] trap_state_add_reason_refines [OF m(1,2) h(1) m(3) assms(5)]
    by (simp add: st)
qed

theorem trap_state_refines_witness:
  "trap_state_has_reason (mask 5) (trap_state_set_recompiled (mask 5)
     (fold (\<lambda>r s. trap_state_add_reason (mask 5) s r) [Reason_null_check, Reason_class_check] 0) True) Reason_null_check = -1"
  using trap_state_refines [of 5 "mask 5" "[Reason_null_check, Reason_class_check]" Reason_null_check _ True]
  by (simp add: reason_is_recorded_per_bytecode_def Reason_RECORDED_LIMIT_def)


section \<open>The histogram accounts for every event\<close>

type_synonym deopt_event = "DeoptReason \<times> DeoptAction \<times> u1 option"

fun gather_all :: "nat \<Rightarrow> deopt_event list \<Rightarrow> deopt_hist \<Rightarrow> deopt_hist option" where
  "gather_all limit [] h = Some h"
| "gather_all limit ((r, a, b) # es) h =
     (case gather_statistics limit r a b h of None \<Rightarrow> None | Some h' \<Rightarrow> gather_all limit es h')"

definition events_of :: "nat \<Rightarrow> nat \<Rightarrow> deopt_event list \<Rightarrow> nat" where
  "events_of r a es = length (filter (\<lambda>(x, y, b). reason_num x = r \<and> action_num y = a) es)"

definition hist_inv :: "nat \<Rightarrow> deopt_event list \<Rightarrow> deopt_hist \<Rightarrow> bool" where
  "hist_inv limit es h \<longleftrightarrow> h 0 0 0 = word_of_nat (length es) \<and>
     (\<forall>r. r \<noteq> 0 \<longrightarrow> h r 0 0 = word_of_nat (length (filter (\<lambda>(x, y, b). reason_num x = r) es))) \<and>
     (\<forall>r a. (\<Sum>i<limit. unat (drop_bit LSB_BITS (h r (Suc a) i))) = events_of r a es)"

lemma gather_all_append:
  "gather_all limit (es @ [(r, a, b)]) h =
     (case gather_all limit es h of None \<Rightarrow> None | Some h' \<Rightarrow> gather_statistics limit r a b h')"
proof (induction es arbitrary: h)
  case (Cons e es)
  then show ?case by (cases e) (auto split: option.split)
qed (simp split: option.split)

lemma drop_LSB_ucast: "drop_bit LSB_BITS (ucast (b :: u1) :: juint) = 0"
  by (rule bit_eqI) (auto simp: LSB_BITS_def bit_simps dest: bit_imp_le_length)

lemma drop_LSB_clear: "drop_bit LSB_BITS c AND drop_bit LSB_BITS (NOT LSB_MASK) = drop_bit LSB_BITS (c :: juint)"
proof -
  have "bit c (8 + n) \<Longrightarrow> n < 24" for n using bit_imp_le_length [of c "8 + n"] by simp
  then show ?thesis by (intro bit_eqI) (auto simp: LSB_BITS_def LSB_MASK_def bit_simps)
qed

lemma find_case_fold:
  assumes "\<forall>i\<in>set is. i < limit"
    and "\<And>i v. acc = Some (i, v) \<Longrightarrow> i < limit \<and> drop_bit LSB_BITS v = drop_bit LSB_BITS (cases i)"
    and "fold (find_case cases b) is acc = Some (i, v)"
  shows "i < limit \<and> drop_bit LSB_BITS v = drop_bit LSB_BITS (cases i)"
  using assms
proof (induction "is" arbitrary: acc)
  case (Cons j js)
  show ?case
    by (rule Cons.IH [where acc = "find_case cases b j acc"])
      (use Cons.prems in \<open>auto simp: find_case_def Let_def drop_LSB_ucast split: if_splits\<close>)
qed simp

lemma choose_case_result:
  assumes "0 < limit" "choose_case limit cases bc = (i, v)"
  shows "i < limit \<and> drop_bit LSB_BITS v = drop_bit LSB_BITS (cases i)"
proof (cases "case bc of None \<Rightarrow> None | Some b \<Rightarrow> fold (find_case cases b) [0..<limit] None")
  case None
  then show ?thesis using assms by (auto simp: choose_case_def drop_LSB_clear)
next
  case (Some x)
  then obtain b where b: "fold (find_case cases b) [0..<limit] None = Some (i, v)"
    using assms(2) by (auto simp: choose_case_def split: option.splits)
  show ?thesis by (rule find_case_fold [OF _ _ b]) simp_all
qed

lemma counter_add:
  assumes "unat (drop_bit LSB_BITS (v :: juint)) + 1 < 2 ^ 24"
  shows "unat (drop_bit LSB_BITS (v + push_bit LSB_BITS 1)) = Suc (unat (drop_bit LSB_BITS v))"
proof -
  have d: "unat (drop_bit LSB_BITS w) = unat w div 256" for w :: juint by (simp only: LSB_BITS_def unat_drop_bit_eq) (simp add: drop_bit_eq_div)
  have "unat v + 256 < 2 ^ 32" using assms by (simp add: d)
  then have "unat (v + push_bit LSB_BITS 1) = unat v + 256" by (simp add: LSB_BITS_def unat_word_ariths)
  then show ?thesis by (simp add: d)
qed

lemma sum_counter:
  fixes n :: nat
  assumes "j < n" "f' j = Suc (f j)" "\<And>i. i \<noteq> j \<Longrightarrow> f' i = f i"
  shows "(\<Sum>i<n. f' i) = Suc (\<Sum>i<n. f i :: nat)"
proof -
  have "(\<Sum>i<n. f' i) = f' j + (\<Sum>i\<in>{..<n} - {j}. f' i)" using assms(1) by (intro sum.remove) simp_all
  also have "(\<Sum>i\<in>{..<n} - {j}. f' i) = (\<Sum>i\<in>{..<n} - {j}. f i)" using assms(3) by (intro sum.cong) auto
  also have "f' j + (\<Sum>i\<in>{..<n} - {j}. f i) = Suc (\<Sum>i<n. f i)" using assms(1,2) sum.remove [of "{..<n}" j f] by simp
  finally show ?thesis .
qed

lemma hist_set_apply: "hist_set r c i v h r' c' i' = (if r' = r \<and> c' = c \<and> i' = i then v else h r' c' i')"
  by (simp add: hist_set_def)


lemma events_of_snoc:
  "events_of r' a' (es @ [(r, a, b)]) = events_of r' a' es + (if reason_num r = r' \<and> action_num a = a' then 1 else 0)"
  by (simp add: events_of_def)

lemma events_of_le: "events_of r a es \<le> length es"
  by (simp add: events_of_def)

lemma gather_step:
  assumes inv: "hist_inv limit es h" and "0 < limit" "r \<noteq> Reason_many" "r \<noteq> Reason_none" "Suc (length es) < 2 ^ 24"
  shows "\<exists>h'. gather_statistics limit r a b h = Some h' \<and> hist_inv limit (es @ [(r, a, b)]) h'"
proof -
  have r: "reason_num r \<noteq> 0" using assms(3,4) by (cases r) simp_all
  let ?r = "reason_num r" and ?c = "Suc (action_num a)"
  obtain i v where iv: "choose_case limit (h ?r ?c) b = (i, v)" by fastforce
  note ch = choose_case_result [OF assms(2) iv]
  define h' where "h' = hist_set ?r ?c i (v + push_bit LSB_BITS 1) (hist_set ?r 0 0 (h ?r 0 0 + 1) (hist_set 0 0 0 (h 0 0 0 + 1) h))"
  have e: "(hist_set ?r 0 0 y (hist_set 0 0 0 x h)) ?r ?c = h ?r ?c" "hist_set 0 0 0 x h ?r 0 0 = h ?r 0 0" for x y
    using r by (auto simp: hist_set_apply fun_eq_iff)
  have g: "gather_statistics limit r a b h = Some h'"
    using assms(3) unfolding gather_statistics_def Let_def e iv by (simp add: h'_def)
  have le: "unat (drop_bit LSB_BITS (h ?r ?c i)) \<le> (\<Sum>i<limit. unat (drop_bit LSB_BITS (h ?r ?c i)))"
    using ch by (intro member_le_sum) auto
  also have "\<dots> \<le> length es" using inv events_of_le by (simp add: hist_inv_def)
  finally have "unat (drop_bit LSB_BITS v) + 1 < 2 ^ 24" using ch assms(5) by simp
  note add = counter_add [OF this]
  have cell: "(\<Sum>i<limit. unat (drop_bit LSB_BITS (h' ?r ?c i))) = Suc (\<Sum>i<limit. unat (drop_bit LSB_BITS (h ?r ?c i)))"
    by (rule sum_counter [of i]) (use ch add in \<open>simp_all add: h'_def hist_set_apply\<close>)
  have other: "h' r' (Suc a') i' = h r' (Suc a') i'" if "\<not> (r' = ?r \<and> a' = action_num a)" for r' a' i'
    using that by (auto simp: h'_def hist_set_apply)
  have "(\<Sum>i<limit. unat (drop_bit LSB_BITS (h' r' (Suc a') i))) = events_of r' a' (es @ [(r, a, b)])" for r' a'
    using inv cell other [of r' a'] by (cases "r' = ?r \<and> a' = action_num a") (auto simp: events_of_snoc hist_inv_def)
  moreover have "h' 0 0 0 = word_of_nat (length (es @ [(r, a, b)]))" using inv r by (simp add: h'_def hist_set_apply hist_inv_def)
  moreover have "h' r' 0 0 = word_of_nat (length (filter (\<lambda>(x, y, b). reason_num x = r') (es @ [(r, a, b)])))" if "r' \<noteq> 0" for r'
    using inv r that by (auto simp: h'_def hist_set_apply hist_inv_def)
  ultimately show ?thesis using g by (auto simp: hist_inv_def)
qed

definition hist_zero :: deopt_hist where "hist_zero = (\<lambda>r c i. 0)"

lemma gather_all_inv:
  assumes "0 < limit" "length es < 2 ^ 24" "\<forall>(r, a, b) \<in> set es. r \<noteq> Reason_many \<and> r \<noteq> Reason_none"
  shows "\<exists>h. gather_all limit es hist_zero = Some h \<and> hist_inv limit es h"
  using assms(2,3)
proof (induction es rule: rev_induct)
  case Nil
  then show ?case by (simp add: hist_inv_def hist_zero_def events_of_def)
next
  case (snoc e es)
  obtain r a b where e: "e = (r, a, b)" by (cases e)
  obtain h where "gather_all limit es hist_zero = Some h" "hist_inv limit es h" using snoc by auto
  then show ?case using gather_step [OF _ assms(1), of es h r a b] snoc.prems by (simp add: e gather_all_append)
qed

lemma sum_single_cell:
  assumes "R < (m :: nat)" "A < (n :: nat)"
  shows "(\<Sum>r<m. \<Sum>a<n. if r = R \<and> a = A then f r a else 0) = (f R A :: nat)"
proof -
  have "(\<Sum>r<m. \<Sum>a<n. if r = R \<and> a = A then f r a else 0) = (\<Sum>r<m. if r = R then f r A else 0)"
    using assms(2) by (intro sum.cong) auto
  also have "\<dots> = f R A" using assms(1) by (simp add: sum.delta)
  finally show ?thesis .
qed

lemma events_of_total: "(\<Sum>r<Reason_LIMIT. \<Sum>a<Action_LIMIT. events_of r a es) = length es"
proof (induction es rule: rev_induct)
  case (snoc e es)
  obtain r a b where e: "e = (r, a, b)" by (cases e)
  have "(\<Sum>r'<Reason_LIMIT. \<Sum>a'<Action_LIMIT. if reason_num r = r' \<and> action_num a = a' then 1 else 0 :: nat) = 1"
    using sum_single_cell [OF reason_num_less [of r] action_num_less [of a], of "\<lambda>r a. 1"] by (simp add: eq_commute)
  then show ?case using snoc by (simp add: e events_of_snoc sum.distrib)
qed (simp add: events_of_def)

lemma stat_entry_count: "snd (stat_entry limit i c) = drop_bit LSB_BITS c"
  by (simp add: stat_entry_def Let_def)

lemma row_sum:
  "sum_list (map (\<lambda>i. unat (drop_bit LSB_BITS (c i))) (filter (\<lambda>i. c i \<noteq> (0 :: juint)) [0..<limit])) =
     (\<Sum>i<limit. unat (drop_bit LSB_BITS (c i)))"
  by (simp add: sum_list_map_filter' interv_sum_list_conv_sum_set_nat atLeast0LessThan) (intro sum.cong, auto)

definition stat_entries :: "nat \<Rightarrow> deopt_hist \<Rightarrow> (nat \<times> nat \<times> u1 option \<times> juint) list" where
  "stat_entries limit h = concat (map (\<lambda>r. concat (map (\<lambda>a.
     map (\<lambda>i. (r, a, stat_entry limit i (h r (Suc a) i))) (filter (\<lambda>i. h r (Suc a) i \<noteq> 0) [0..<limit]))
     [0..<Action_LIMIT])) [0..<Reason_LIMIT])"

lemma sum_list_concat: "sum_list (concat xss) = sum_list (map sum_list (xss :: nat list list))"
  by (induction xss) simp_all

lemma stat_entries_sum:
  "sum_list (map (\<lambda>(r, a, bc, n). if P r a then unat n else 0) (stat_entries limit h)) =
     (\<Sum>r<Reason_LIMIT. \<Sum>a<Action_LIMIT. if P r a then \<Sum>i<limit. unat (drop_bit LSB_BITS (h r (Suc a) i)) else 0)"
proof -
  have row: "sum_list (map (\<lambda>i. case (r, a, stat_entry limit i (h r (Suc a) i)) of (r, a, bc, n) \<Rightarrow> if P r a then unat n else 0)
        (filter (\<lambda>i. h r (Suc a) i \<noteq> 0) [0..<limit])) =
      (if P r a then \<Sum>i<limit. unat (drop_bit LSB_BITS (h r (Suc a) i)) else 0)" for r a
    using row_sum [of "h r (Suc a)" limit] by (simp add: split_beta stat_entry_count)
  show ?thesis
    by (simp add: stat_entries_def map_concat sum_list_concat comp_def row interv_sum_list_conv_sum_set_nat atLeast0LessThan
        del: case_prod_conv prod.case)
qed

lemma word_sum_list: "sum_list (map f xs) = (word_of_nat (sum_list (map (\<lambda>x. unat (f x)) xs)) :: 'a::len word)"
  by (induction xs) simp_all

text \<open>
  C40: the histogram of deoptimizations accounts for every event. After any sequence of fewer than \<open>2 ^ 24\<close> events with
  real reasons, whatever their bytecodes and however few counters a row has, the total is the number of events, the total
  of each reason the number of its events, the counts printed for a reason and an action add up to the number of their
  events, and nothing is left unaccounted.
\<close>

theorem deopt_statistics_account:
  assumes "0 < limit" "length es < 2 ^ 24" "\<forall>(r, a, b) \<in> set es. r \<noteq> Reason_many \<and> r \<noteq> Reason_none"
  shows "\<exists>h. gather_all limit es hist_zero = Some h \<and> total_deoptimization_count h = word_of_nat (length es) \<and>
    snd (print_statistics limit h) = 0 \<and>
    (\<forall>r a. r \<noteq> Reason_many \<and> r \<noteq> Reason_none \<longrightarrow>
       h (reason_num r) 0 0 = word_of_nat (length (filter (\<lambda>(x, y, b). x = r) es)) \<and>
       sum_list (map (\<lambda>(x, y, bc, n). unat n)
         (filter (\<lambda>(x, y, bc, n). x = reason_num r \<and> y = action_num a) (fst (print_statistics limit h)))) =
       length (filter (\<lambda>(x, y, b). x = r \<and> y = a) es))"
proof -
  obtain h where h: "gather_all limit es hist_zero = Some h" "hist_inv limit es h" using gather_all_inv [OF assms] by auto
  have num: "x = r \<longleftrightarrow> reason_num x = reason_num r" if "(x, y, b) \<in> set es" "r \<noteq> Reason_many" for x y b r
    using that assms(3) reason_num_inj [of x r] by auto
  have cells: "(\<Sum>i<limit. unat (drop_bit LSB_BITS (h r (Suc a) i))) = events_of r a es" for r a using h(2) by (simp add: hist_inv_def)
  have total: "h 0 0 0 = word_of_nat (length es)" using h(2) by (simp add: hist_inv_def)
  have "sum_list (map (\<lambda>x. unat (case x of (r, a, bc, n) \<Rightarrow> n)) (stat_entries limit h)) = length es"
    using stat_entries_sum [of "\<lambda>r a. True" limit h] by (simp add: cells events_of_total case_prod_unfold)
  then have "sum_list (map (\<lambda>(r, a, bc, n). n) (stat_entries limit h)) = h 0 0 0"
    by (subst word_sum_list) (simp only: total)
  then have left: "print_statistics limit h = (if h 0 0 0 = 0 then ([], 0) else (stat_entries limit h, 0))"
    by (simp add: print_statistics_def stat_entries_def Let_def)
  have zero: "h 0 0 0 = 0 \<longleftrightarrow> es = []" 
    using assms(2) nat_dvd_not_less [of "length es" "2 ^ 32"] unfolding total by (cases "es = []") (simp_all add: word_of_nat_eq_0_iff)
  show ?thesis
  proof (intro exI [of _ h] conjI allI impI, goal_cases)
    case (4 r a)
    have "filter (\<lambda>(x, y, b). reason_num x = reason_num r) es = filter (\<lambda>(x, y, b). x = r) es"
      using num 4 by (intro filter_cong) auto
    then show ?case using h(2) 4 by (cases r) (simp_all add: hist_inv_def)
  next
    case (5 r a)
    have "filter (\<lambda>(x, y, b). reason_num x = reason_num r \<and> y = a) es = filter (\<lambda>(x, y, b). x = r \<and> y = a) es"
      using num 5 by (intro filter_cong) auto
    then have "events_of (reason_num r) (action_num a) es = length (filter (\<lambda>(x, y, b). x = r \<and> y = a) es)"
      by (simp add: events_of_def)
    moreover have "sum_list (map (\<lambda>(x, y, bc, n). unat n)
        (filter (\<lambda>(x, y, bc, n). x = reason_num r \<and> y = action_num a) (stat_entries limit h))) = events_of (reason_num r) (action_num a) es"
      using stat_entries_sum [of "\<lambda>x y. x = reason_num r \<and> y = action_num a" limit h]
        sum_single_cell [OF reason_num_less [of r] action_num_less [of a], of "\<lambda>r a. \<Sum>i<limit. unat (drop_bit LSB_BITS (h r (Suc a) i))"]
      by (simp add: sum_list_map_filter' cells case_prod_unfold)
    ultimately show ?case by (simp add: left zero)
  qed (simp_all add: h(1) total_deoptimization_count_def total left)
qed


theorem deopt_statistics_account_witness:
  "\<exists>h. gather_all 1 [(Reason_null_check, Action_none, Some 180), (Reason_age, Action_reinterpret, None), (Reason_null_check, Action_none, Some 50)] hist_zero = Some h \<and>
     total_deoptimization_count h = 3 \<and> snd (print_statistics 1 h) = 0"
  using deopt_statistics_account [of 1 "[(Reason_null_check, Action_none, Some 180), (Reason_age, Action_reinterpret, None), (Reason_null_check, Action_none, Some 50)]"]
  by auto


section \<open>Two states that are reported wrongly\<close>

text \<open>The state of several reasons re-encodes as the value of \<open>Reason_many\<close> and is printed as a number.\<close>

lemma format_trap_state_many:
  "format_trap_state (mask 5) (DS_REASON_MASK (mask 5)) = ''#15'' \<and> trap_state_reason (mask 5) (DS_REASON_MASK (mask 5)) = Some Reason_many"
  by code_simp

text \<open>No counter is reported as having no particular bytecode, not even the one that counts the overflow.\<close>

lemma stat_entry_never_illegal: "(r, a, bc, n) \<in> set (fst (print_statistics limit h)) \<Longrightarrow> bc \<noteq> None"
  by (auto simp: print_statistics_def Let_def stat_entry_def split: if_splits)

end
