(* ===== verification/Uncommon_Trap.thy ===== *)
theory Uncommon_Trap
  imports Trap_Request
begin

text \<open>
  The uncommon trap (\<open>deoptimization.cpp\<close>): what a trap records in the profile of the method, what it decides for the code
  that trapped, and that a site which keeps trapping is abandoned. The profile (\<open>MethodData\<close>), the code cache, class
  loading and the compilation policy are parameters: a record of the operations that this code calls on them. Printing,
  events and the log of failed speculations are not modelled, and no exception is pending at the trap.
\<close>

section \<open>The operations that the trap calls\<close>

text \<open>\<open>'d\<close> is the profile of a method, \<open>'p\<close> a profile datum of it, \<open>'w\<close> the rest of the VM.\<close>

record ('d, 'p, 'w) trap_ops =
  trap_count :: "'d \<Rightarrow> nat \<Rightarrow> juint"
  inc_trap_count :: "'d \<Rightarrow> nat \<Rightarrow> juint \<times> 'd"
  decompile_count :: "'d \<Rightarrow> juint"
  allocate_bci_to_data :: "'d \<Rightarrow> int \<Rightarrow> nat option \<Rightarrow> 'p option \<times> 'd"
  trap_state :: "'d \<Rightarrow> 'p \<Rightarrow> jint"
  set_trap_state :: "'d \<Rightarrow> 'p \<Rightarrow> jint \<Rightarrow> 'd"
  overflow_recompile_count :: "'d \<Rightarrow> juint"
  inc_overflow_recompile_count :: "'d \<Rightarrow> 'd"
  inc_tenure_traps :: "'d \<Rightarrow> 'd"
  set_ProfileRTM :: "'d \<Rightarrow> 'd"
  build_interpreter_method_data :: "nat \<Rightarrow> 'w \<Rightarrow> 'd option \<times> 'w"
  is_unresolved_klass :: "nat \<Rightarrow> jint \<Rightarrow> 'w \<Rightarrow> bool"
  is_symbol :: "nat \<Rightarrow> jint \<Rightarrow> 'w \<Rightarrow> bool"
  klass_at_ignore_error :: "nat \<Rightarrow> jint \<Rightarrow> 'w \<Rightarrow> 'w"
  java_code_at :: "nat \<Rightarrow> int \<Rightarrow> u1"
  nm_make_not_entrant :: "'w \<Rightarrow> (nat \<Rightarrow> 'd option) \<Rightarrow> bool \<times> 'w \<times> (nat \<Rightarrow> 'd option)"
  policy_reprofile :: "'w \<Rightarrow> (nat \<Rightarrow> 'd option) \<Rightarrow> 'w \<times> (nat \<Rightarrow> 'd option)"

record trap_flags =
  trap_mask :: jint
  BC_CASE_LIMIT :: nat
  ProfileTraps :: bool
  UseCodeAging :: bool
  UseRTMLocking :: bool
  UseRTMDeopt :: bool
  UseJVMCICompiler :: bool
  is_client_compilation_mode_vm :: bool
  PerBytecodeTrapLimit :: juint
  PerMethodTrapLimit :: juint
  PerMethodSpecTrapLimit :: juint
  PerBytecodeRecompilationCutoff :: juint

text \<open>The frame that trapped: the method and bytecode index of its scope, and the code. Methods are numbers.\<close>

record trap_site =
  scope_method :: nat
  scope_bci :: int
  nm_method :: nat
  nm_is_compiled_by_jvmci :: bool
  nm_is_osr_method :: bool
  nm_rtm_state_is_ProfileRTM :: bool
  has_injected_profile :: bool

record ('d, 'w) trap_vm =
  method_data :: "nat \<Rightarrow> 'd option"
  world :: 'w
  deoptimization_hist :: deopt_hist
  in_deopt_handler :: int
  pending_monitorenter :: bool
  pending_transfer_to_interpreter :: bool
  not_compilable :: "nat \<Rightarrow> bool"

definition SynchronizationEntryBCI :: int where "SynchronizationEntryBCI = -1"

definition per_method_trap_limit :: "trap_flags \<Rightarrow> DeoptReason \<Rightarrow> juint" where
  "per_method_trap_limit F reason = (if reason_is_speculate reason then PerMethodSpecTrapLimit F else PerMethodTrapLimit F)"

definition get_method_data :: "('d, 'p, 'w) trap_ops \<Rightarrow> nat \<Rightarrow> bool \<Rightarrow> ('d, 'w) trap_vm \<Rightarrow> 'd option \<times> ('d, 'w) trap_vm" where
  "get_method_data X m create_if_missing V =
     (if method_data V m = None \<and> create_if_missing then
        (let (d, w) = build_interpreter_method_data X m (world V)
         in (d, V\<lparr>method_data := (method_data V)(m := d), world := w\<rparr>))
      else (method_data V m, V))"

text \<open>Errors of class loading are ignored by the caller.\<close>

definition load_class_by_index :: "('d, 'p, 'w) trap_ops \<Rightarrow> nat \<Rightarrow> jint \<Rightarrow> 'w \<Rightarrow> 'w option" where
  "load_class_by_index X m index w =
     (if is_unresolved_klass X m index w then Some (klass_at_ignore_error X m index w)
      else if is_symbol X m index w then None else Some w)"

section \<open>The profile\<close>

record 'p trap_query =
  q_pdata :: "'p option"
  q_this_trap_count :: juint
  q_maybe_prior_trap :: bool
  q_maybe_prior_recompile :: bool

definition query_update_method_data ::
  "('d, 'p, 'w) trap_ops \<Rightarrow> jint \<Rightarrow> 'd \<Rightarrow> int \<Rightarrow> DeoptReason \<Rightarrow> bool \<Rightarrow> bool \<Rightarrow> nat option \<Rightarrow> ('p trap_query \<times> 'd) option" where
  "query_update_method_data X M trap_mdo trap_bci reason update_total_trap_count is_osr compiled_method =
     (let idx = (if is_osr then reason_num reason + Reason_LIMIT else reason_num reason);
          (this_trap_count, d1) = (if update_total_trap_count then inc_trap_count X trap_mdo idx else (0, trap_mdo));
          maybe_prior_trap = (update_total_trap_count \<and> trap_count X trap_mdo idx \<noteq> 0);
          maybe_prior_recompile = (update_total_trap_count \<and> decompile_count X d1 \<noteq> 0);
          per_bc_reason = reason_recorded_per_bytecode_if_any reason
      in if per_bc_reason = Reason_none then
           (if update_total_trap_count then
              Some (\<lparr>q_pdata = None, q_this_trap_count = this_trap_count, q_maybe_prior_trap = maybe_prior_trap,
                     q_maybe_prior_recompile = maybe_prior_recompile\<rparr>, d1)
            else None)
         else
           (case allocate_bci_to_data X d1 trap_bci (if reason_is_speculate reason then compiled_method else None) of
              (None, d2) \<Rightarrow>
                Some (\<lparr>q_pdata = None, q_this_trap_count = this_trap_count, q_maybe_prior_trap = maybe_prior_trap,
                       q_maybe_prior_recompile = maybe_prior_recompile\<rparr>, d2)
            | (Some pdata, d2) \<Rightarrow>
                (let tstate0 = trap_state X d2 pdata;
                     tstate1 = trap_state_add_reason M tstate0 per_bc_reason;
                     d3 = (if tstate1 \<noteq> tstate0 then set_trap_state X d2 pdata tstate1 else d2)
                 in Some (\<lparr>q_pdata = Some pdata, q_this_trap_count = this_trap_count,
                           q_maybe_prior_trap = (maybe_prior_trap \<and> trap_state_has_reason M tstate0 per_bc_reason \<noteq> 0),
                           q_maybe_prior_recompile = (maybe_prior_recompile \<and> trap_state_is_recompiled M tstate0)\<rparr>, d3))))"

definition update_method_data_from_interpreter ::
  "('d, 'p, 'w) trap_ops \<Rightarrow> trap_flags \<Rightarrow> 'd \<Rightarrow> int \<Rightarrow> DeoptReason \<Rightarrow> 'd option" where
  "update_method_data_from_interpreter X F trap_mdo trap_bci reason =
     (if reason_is_speculate reason then None
      else map_option snd (query_update_method_data X (trap_mask F) trap_mdo trap_bci reason (\<not> UseJVMCICompiler F) False None))"

section \<open>The decision\<close>

record trap_decision =
  make_not_entrant :: bool
  make_not_compilable :: bool
  reprofile :: bool
  inc_recompile_count :: bool

text \<open>The switch on the action.\<close>

definition requested_decision :: "DeoptAction \<Rightarrow> trap_decision" where
  "requested_decision action =
     \<lparr>make_not_entrant = (action = Action_reinterpret \<or> action = Action_make_not_entrant \<or> action = Action_make_not_compilable),
      make_not_compilable = (action = Action_make_not_compilable), reprofile = (action = Action_reinterpret),
      inc_recompile_count = False\<rparr>"

text \<open>What the history of the site adds to it.\<close>

definition adjust_decision :: "trap_flags \<Rightarrow> DeoptReason \<Rightarrow> 'p trap_query \<Rightarrow> trap_decision \<Rightarrow> trap_decision" where
  "adjust_decision F reason q D =
     (let per_bc = (reason_recorded_per_bytecode_if_any reason \<noteq> Reason_none);
          entrant1 = (if per_bc
                      then make_not_entrant D \<or> (q_maybe_prior_trap q \<and> q_this_trap_count q \<ge> PerBytecodeTrapLimit F)
                      else True);
          inc = (per_bc \<and> entrant1 \<and> q_maybe_prior_recompile q \<and> q_maybe_prior_trap q);
          entrant2 = (entrant1 \<or> q_this_trap_count q \<ge> per_method_trap_limit F reason)
      in D\<lparr>make_not_entrant := entrant2, inc_recompile_count := inc,
           reprofile := (reprofile D \<or> entrant2 \<and> q_maybe_prior_recompile q \<and> q_maybe_prior_trap q)\<rparr>)"

definition update_trap_state :: "trap_site \<Rightarrow> DeoptReason \<Rightarrow> DeoptAction \<Rightarrow> bool" where
  "update_trap_state S reason action \<longleftrightarrow>
     reason \<noteq> Reason_tenured \<and> \<not> (has_injected_profile S \<and> (reason = Reason_intrinsic \<or> reason = Reason_unreached)) \<and> action \<noteq> Action_none"

section \<open>The effects\<close>

text \<open>The profile that the trap holds is named by its method; \<open>None\<close> is the null pointer.\<close>

definition upd_mdo :: "nat option \<Rightarrow> ('d \<Rightarrow> 'd) \<Rightarrow> ('d, 'w) trap_vm \<Rightarrow> ('d, 'w) trap_vm" where
  "upd_mdo mdo f V = (case mdo of None \<Rightarrow> V | Some m \<Rightarrow> V\<lparr>method_data := (method_data V)(m := map_option f (method_data V m))\<rparr>)"

text \<open>What follows a successful \<open>make_not_entrant\<close>: the recompilation is recorded, and the statistics of RTM restart.\<close>

definition record_recompile ::
  "('d, 'p, 'w) trap_ops \<Rightarrow> trap_flags \<Rightarrow> trap_site \<Rightarrow> DeoptReason \<Rightarrow> 'p option \<Rightarrow> 'd \<Rightarrow> 'd" where
  "record_recompile X F S reason pdata d =
     (let d1 = (case pdata of None \<Rightarrow> d
                | Some p \<Rightarrow> (let tstate0 = trap_state X d p; tstate1 = trap_state_set_recompiled (trap_mask F) tstate0 True
                            in if tstate1 \<noteq> tstate0 then set_trap_state X d p tstate1 else d));
          d2 = (if reason \<noteq> Reason_rtm_state_change \<and> UseRTMDeopt F \<and> \<not> nm_rtm_state_is_ProfileRTM S then set_ProfileRTM X d1 else d1)
      in if reason = Reason_tenured then inc_tenure_traps X d2 else d2)"

text \<open>The recompilation at a bad bytecode is counted; the method of the bytecode is abandoned over the cutoff.\<close>

definition count_recompile ::
  "('d, 'p, 'w) trap_ops \<Rightarrow> trap_flags \<Rightarrow> trap_site \<Rightarrow> nat option \<Rightarrow> trap_decision \<Rightarrow> ('d, 'w) trap_vm \<Rightarrow> trap_decision \<times> ('d, 'w) trap_vm" where
  "count_recompile X F S mdo D V =
     (let V1 = upd_mdo mdo (inc_overflow_recompile_count X) V
      in case Option.bind mdo (method_data V1) of
           None \<Rightarrow> (D, V1)
         | Some d \<Rightarrow>
             if overflow_recompile_count X d > PerBytecodeRecompilationCutoff F then
               if scope_method S = nm_method S then (D\<lparr>make_not_compilable := True\<rparr>, V1)
               else (D, V1\<lparr>not_compilable := (not_compilable V1)(scope_method S := True)\<rparr>)
             else (D, V1))"

text \<open>Reprofiling, and giving up. The result \<open>None\<close> is a failed assertion.\<close>

definition finish_actions ::
  "('d, 'p, 'w) trap_ops \<Rightarrow> trap_site \<Rightarrow> trap_decision \<Rightarrow> ('d, 'w) trap_vm \<Rightarrow> ('d, 'w) trap_vm option" where
  "finish_actions X S D V =
     (let (w, ds) = (if reprofile D then policy_reprofile X (world V) (method_data V) else (world V, method_data V));
          V1 = V\<lparr>world := w, method_data := ds\<rparr>
      in if make_not_compilable D \<and> \<not> not_compilable V1 (nm_method S) then
           (if make_not_entrant D then Some (V1\<lparr>not_compilable := (not_compilable V1)(nm_method S := True)\<rparr>) else None)
         else Some V1)"

definition take_actions ::
  "('d, 'p, 'w) trap_ops \<Rightarrow> trap_flags \<Rightarrow> trap_site \<Rightarrow> DeoptReason \<Rightarrow> nat option \<Rightarrow> 'p option \<Rightarrow> trap_decision \<Rightarrow> ('d, 'w) trap_vm
    \<Rightarrow> ('d, 'w) trap_vm option" where
  "take_actions X F S reason mdo pdata D V =
     (let (changed, w, ds) = (if make_not_entrant D then nm_make_not_entrant X (world V) (method_data V) else (True, world V, method_data V));
          V1 = V\<lparr>world := w, method_data := ds\<rparr>
      in if \<not> changed then Some V1
         else
           let V2 = (if make_not_entrant D then upd_mdo mdo (record_recompile X F S reason pdata) V1 else V1);
               (D3, V3) = (if inc_recompile_count D then count_recompile X F S mdo D V2 else (D, V2))
           in finish_actions X S D3 V3)"

section \<open>The uncommon trap\<close>

definition note_trap :: "('d, 'p, 'w) trap_ops \<Rightarrow> trap_flags \<Rightarrow> trap_site \<Rightarrow> DeoptReason \<Rightarrow> DeoptAction \<Rightarrow> ('d, 'w) trap_vm
    \<Rightarrow> (int \<times> ('d, 'w) trap_vm) option" where
  "note_trap X F S reason action V =
     (let V1 = V\<lparr>in_deopt_handler := in_deopt_handler V + 1\<rparr>;
          sync = (scope_bci S = SynchronizationEntryBCI);
          trap_bci = (if sync then 0 else scope_bci S);
          V2 = (if sync then V1\<lparr>pending_monitorenter := True\<rparr> else V1);
          V3 = (if reason = Reason_transfer_to_interpreter then V2\<lparr>pending_transfer_to_interpreter := True\<rparr> else V2)
      in map_option (\<lambda>h. (trap_bci, V3\<lparr>deoptimization_hist := h\<rparr>))
           (gather_statistics (BC_CASE_LIMIT F) reason action (Some (java_code_at X (scope_method S) trap_bci)) (deoptimization_hist V3)))"

definition profiled_method :: "trap_site \<Rightarrow> nat" where
  "profiled_method S = (if nm_is_compiled_by_jvmci S then nm_method S else scope_method S)"

definition create_if_missing :: "trap_flags \<Rightarrow> bool" where
  "create_if_missing F \<longleftrightarrow> ProfileTraps F \<or> UseCodeAging F \<or> UseRTMLocking F"

definition decide_and_act ::
  "('d, 'p, 'w) trap_ops \<Rightarrow> trap_flags \<Rightarrow> trap_site \<Rightarrow> DeoptReason \<Rightarrow> DeoptAction \<Rightarrow> int \<Rightarrow> 'd option \<Rightarrow> ('d, 'w) trap_vm
    \<Rightarrow> ('d, 'w) trap_vm option" where
  "decide_and_act X F S reason action trap_bci trap_mdo V =
     (let D = requested_decision action; m = profiled_method S
      in case trap_mdo of
           None \<Rightarrow> take_actions X F S reason None None D V
         | Some d \<Rightarrow>
             if ProfileTraps F \<and> \<not> is_client_compilation_mode_vm F \<and> update_trap_state S reason action then
               case query_update_method_data X (trap_mask F) d trap_bci reason True
                      (nm_is_compiled_by_jvmci S \<and> nm_is_osr_method S) (Some (nm_method S)) of
                 None \<Rightarrow> None
               | Some (q, d') \<Rightarrow>
                   take_actions X F S reason (Some m) (q_pdata q) (adjust_decision F reason q D) (upd_mdo (Some m) (\<lambda>_. d') V)
             else take_actions X F S reason (Some m) None D V)"

definition uncommon_trap_inner ::
  "('d, 'p, 'w) trap_ops \<Rightarrow> trap_flags \<Rightarrow> trap_site \<Rightarrow> jint \<Rightarrow> ('d, 'w) trap_vm \<Rightarrow> ('d, 'w) trap_vm option" where
  "uncommon_trap_inner X F S trap_request V =
     (case (trap_request_reason trap_request, trap_request_action trap_request) of
        (Some reason, Some action) \<Rightarrow>
          Option.bind (note_trap X F S reason action V) (\<lambda>(trap_bci, V1).
          let (trap_mdo, V2) = get_method_data X (profiled_method S) (create_if_missing F) V1;
              index = trap_request_index trap_request
          in Option.bind (if 0 \<le>s index then load_class_by_index X (scope_method S) index (world V2) else Some (world V2)) (\<lambda>w.
             decide_and_act X F S reason action trap_bci trap_mdo (V2\<lparr>world := w\<rparr>)))
      | _ \<Rightarrow> None)"


section \<open>A trap never fails\<close>

lemma requested_decision_consistent: "make_not_compilable (requested_decision a) \<Longrightarrow> make_not_entrant (requested_decision a)"
  by (simp add: requested_decision_def)

lemma adjust_decision_consistent:
  "(make_not_compilable D \<longrightarrow> make_not_entrant D) \<Longrightarrow> D' = adjust_decision F r q D \<Longrightarrow>
    (make_not_compilable D' \<longrightarrow> make_not_entrant D') \<and> (inc_recompile_count D' \<longrightarrow> make_not_entrant D')"
  by (auto simp: adjust_decision_def Let_def)

lemma count_recompile_decision:
  "count_recompile X F S mdo D V = (D', V') \<Longrightarrow> make_not_entrant D' = make_not_entrant D"
  by (auto simp: count_recompile_def Let_def split: option.splits if_splits)

lemma finish_actions_succeeds:
  "(make_not_compilable D \<longrightarrow> make_not_entrant D) \<Longrightarrow> \<exists>V'. finish_actions X S D V = Some V'"
  by (simp add: finish_actions_def Let_def split_beta)

lemma take_actions_succeeds:
  assumes "make_not_compilable D \<longrightarrow> make_not_entrant D" "inc_recompile_count D \<longrightarrow> make_not_entrant D"
  shows "\<exists>V'. take_actions X F S reason mdo pdata D V = Some V'"
proof -
  have "make_not_entrant D \<Longrightarrow> \<exists>V'. finish_actions X S (fst (count_recompile X F S mdo D W)) W' = Some V'" for W W'
    by (rule finish_actions_succeeds) (simp add: count_recompile_decision [OF surjective_pairing])
  then show ?thesis
    using assms finish_actions_succeeds [of D X S] by (auto simp: take_actions_def Let_def split_beta)
qed

lemma query_succeeds: "\<exists>q d'. query_update_method_data X M d bci r True osr cm = Some (q, d')"
  by (auto simp: query_update_method_data_def Let_def split_beta split: option.split prod.split)

lemma decide_and_act_succeeds:
  fixes X :: "('d, 'p, 'w) trap_ops"
  shows "\<exists>V'. decide_and_act X F S r a bci mdo V = Some V'"
proof -
  note c = requested_decision_consistent [of a]
  have i: "\<not> inc_recompile_count (requested_decision a)" by (simp add: requested_decision_def)
  have 1: "\<exists>V'. take_actions X F S r mdo p (requested_decision a) V = Some V'" for mdo p V
    by (rule take_actions_succeeds) (use c i in auto)
  have 2: "\<exists>V'. take_actions X F S r mdo p (adjust_decision F r q (requested_decision a)) V = Some V'" for mdo p V and q :: "'p trap_query"
    by (rule take_actions_succeeds) (use adjust_decision_consistent [OF _ refl] c in blast)+
  show ?thesis
  proof (cases mdo)
    case (Some d)
    obtain q d' where "query_update_method_data X (trap_mask F) d bci r True (nm_is_compiled_by_jvmci S \<and> nm_is_osr_method S)
      (Some (nm_method S)) = Some (q, d')" by (metis query_succeeds)
    then show ?thesis using Some 1 2 by (simp add: decide_and_act_def Let_def)
  qed (simp add: decide_and_act_def 1)
qed

lemma note_trap_result:
  "reason \<noteq> Reason_many \<Longrightarrow> \<exists>bci V'. note_trap X F S reason action V = Some (bci, V') \<and>
     method_data V' = method_data V \<and> world V' = world V \<and> not_compilable V' = not_compilable V \<and>
     bci = (if scope_bci S = SynchronizationEntryBCI then 0 else scope_bci S)"
  by (auto simp: note_trap_def gather_statistics_def Let_def split_beta SynchronizationEntryBCI_def)


text \<open>What the actions leave as it is.\<close>

definition keeps_thread :: "('d, 'w) trap_vm \<Rightarrow> ('d, 'w) trap_vm \<Rightarrow> bool" where
  "keeps_thread V V' \<longleftrightarrow> in_deopt_handler V' = in_deopt_handler V \<and> deoptimization_hist V' = deoptimization_hist V \<and>
     pending_monitorenter V' = pending_monitorenter V \<and> pending_transfer_to_interpreter V' = pending_transfer_to_interpreter V \<and>
     (\<forall>m. not_compilable V m \<longrightarrow> not_compilable V' m)"

lemma keeps_thread_upd [simp]: "keeps_thread V (upd_mdo mdo f V') = keeps_thread V V'" "keeps_thread (upd_mdo mdo f V) V' = keeps_thread V V'"
  by (simp_all add: keeps_thread_def upd_mdo_def split: option.split)

lemma keeps_thread_fields [simp]:
  "keeps_thread V (V'\<lparr>world := w\<rparr>) = keeps_thread V V'" "keeps_thread V (V'\<lparr>method_data := ds\<rparr>) = keeps_thread V V'"
  "keeps_thread V V' \<Longrightarrow> keeps_thread V (V'\<lparr>not_compilable := (not_compilable V')(m := True)\<rparr>)" "keeps_thread V V"
  by (simp_all add: keeps_thread_def)

lemma count_recompile_keeps: "count_recompile X F S mdo D V = (D', V') \<Longrightarrow> keeps_thread V0 V \<Longrightarrow> keeps_thread V0 V'"
  by (auto simp: count_recompile_def Let_def split: option.splits if_splits)

lemma finish_actions_keeps: "finish_actions X S D V = Some V' \<Longrightarrow> keeps_thread V0 V \<Longrightarrow> keeps_thread V0 V'"
  by (auto simp: finish_actions_def Let_def split_beta keeps_thread_def split: if_splits)

lemma take_actions_keeps: "take_actions X F S reason mdo pdata D V = Some V' \<Longrightarrow> keeps_thread V V'"
  unfolding take_actions_def Let_def split_beta
  by (auto split: if_splits elim!: finish_actions_keeps intro: count_recompile_keeps [OF surjective_pairing])

lemma decide_and_act_keeps: "decide_and_act X F S r a bci mdo V = Some V' \<Longrightarrow> keeps_thread V V'"
  by (auto simp: decide_and_act_def Let_def split: option.splits if_splits dest: take_actions_keeps)


definition loaded_world :: "('d, 'p, 'w) trap_ops \<Rightarrow> trap_site \<Rightarrow> jint \<Rightarrow> 'w \<Rightarrow> 'w" where
  "loaded_world X S index w =
     (if 0 \<le>s index \<and> is_unresolved_klass X (scope_method S) index w then klass_at_ignore_error X (scope_method S) index w else w)"

lemma uncommon_trap_steps:
  fixes X :: "('d, 'p, 'w) trap_ops"
  assumes "note_trap X F S r a V = Some (bci, V1)" "get_method_data X (profiled_method S) (create_if_missing F) V1 = (mdo, V2)"
    and "trap_request_reason tr = Some r" "trap_request_action tr = Some a"
    and "0 \<le>s trap_request_index tr \<longrightarrow> (\<forall>w. \<not> is_symbol X (scope_method S) (trap_request_index tr) w)"
  shows "uncommon_trap_inner X F S tr V =
    decide_and_act X F S r a bci mdo (V2\<lparr>world := loaded_world X S (trap_request_index tr) (world V2)\<rparr>)"
  using assms by (simp add: uncommon_trap_inner_def load_class_by_index_def loaded_world_def Let_def)

lemma note_trap_counts:
  assumes "r \<noteq> Reason_many" "r \<noteq> Reason_none" "note_trap X F S r a V = Some (bci, V1)"
  shows "in_deopt_handler V1 = in_deopt_handler V + 1"
    "total_deoptimization_count (deoptimization_hist V1) = total_deoptimization_count (deoptimization_hist V) + 1"
proof -
  have "reason_num r \<noteq> 0" using assms(1,2) by (cases r) simp_all
  then show "in_deopt_handler V1 = in_deopt_handler V + 1"
    "total_deoptimization_count (deoptimization_hist V1) = total_deoptimization_count (deoptimization_hist V) + 1"
    using assms by (auto simp: note_trap_def gather_statistics_def Let_def split_beta hist_set_apply total_deoptimization_count_def)
qed

lemma get_method_data_keeps:
  assumes "get_method_data X m c V = (d, V')"
  shows "(method_data V k \<noteq> None \<or> k \<noteq> m \<longrightarrow> method_data V' k = method_data V k) \<and>
    (world V' = world V \<or> world V' = snd (build_interpreter_method_data X m (world V))) \<and> keeps_thread V V' \<and>
    not_compilable V' = not_compilable V \<and> method_data V' m = d"
  using assms by (cases "method_data V m = None \<and> c") (auto simp: get_method_data_def split_beta keeps_thread_def)

text \<open>
  C37: an uncommon trap never fails, and asks for nothing inconsistent. For every request that the compiler can build (with
  an index, the constant is not a symbol), whatever the profile, the code and the flags, no assertion fails: a method is
  given up only with its code removed. The thread is inside the handler once more, the trap is counted, and no method
  becomes compilable again. If the compiler asked for no action, no profile that existed changed, no code was touched, and
  no method was given up.
\<close>

theorem uncommon_trap_consistent:
  assumes "r \<noteq> Reason_many" "r \<noteq> Reason_none" "make_trap_request r a index = Some tr"
    and "0 \<le>s index \<longrightarrow> (\<forall>w. \<not> is_symbol X (scope_method S) index w)"
  shows "\<exists>V'. uncommon_trap_inner X F S tr V = Some V' \<and> in_deopt_handler V' = in_deopt_handler V + 1 \<and>
    total_deoptimization_count (deoptimization_hist V') = total_deoptimization_count (deoptimization_hist V) + 1 \<and>
    (\<forall>m. not_compilable V m \<longrightarrow> not_compilable V' m) \<and>
    (a = Action_none \<longrightarrow> not_compilable V' = not_compilable V \<and>
       (\<forall>m. method_data V m \<noteq> None \<or> m \<noteq> profiled_method S \<longrightarrow> method_data V' m = method_data V m) \<and>
       (world V' = world V \<or> world V' = snd (build_interpreter_method_data X (profiled_method S) (world V))))"
proof -
  have tr: "trap_request_reason tr = Some r" "trap_request_action tr = Some a" "trap_request_index tr = index"
    using assms(3) by (auto simp: make_trap_request_def Let_def split: if_splits)
  obtain bci V1 where n: "note_trap X F S r a V = Some (bci, V1)" and same: "method_data V1 = method_data V" "world V1 = world V"
      "not_compilable V1 = not_compilable V" using note_trap_result [OF assms(1)] by blast
  have cnt: "in_deopt_handler V1 = in_deopt_handler V + 1"
    "total_deoptimization_count (deoptimization_hist V1) = total_deoptimization_count (deoptimization_hist V) + 1"
    by (rule note_trap_counts [OF assms(1,2) n])+
  obtain mdo V2 where g: "get_method_data X (profiled_method S) (create_if_missing F) V1 = (mdo, V2)" by fastforce
  define W where "W = V2\<lparr>world := loaded_world X S index (world V2)\<rparr>"
  have W: "keeps_thread V1 W" "not_compilable W = not_compilable V"
    using get_method_data_keeps [OF g] same by (simp_all add: W_def)
  obtain V' where V': "decide_and_act X F S r a bci mdo W = Some V'" using decide_and_act_succeeds by blast
  have u: "uncommon_trap_inner X F S tr V = Some V'"
    using uncommon_trap_steps [OF n g tr(1,2)] V' assms(4) by (simp add: tr(3) W_def)
  have k: "keeps_thread W V'" by (rule decide_and_act_keeps [OF V'])
  have none: "V' = W" if "a = Action_none"
    using V' that by (simp add: decide_and_act_def requested_decision_def update_trap_state_def take_actions_def finish_actions_def Let_def
        split: option.splits if_splits)
  have neg: "\<not> 0 \<le>s index" if "a = Action_none"
    using that tr by (cases "tr <s 0") (auto simp: trap_request_action_def trap_request_index_def unloaded_action_def word_sle_eq)
  note gm = get_method_data_keeps [OF g]
  have WV: "(method_data V m \<noteq> None \<or> m \<noteq> profiled_method S \<longrightarrow> method_data W m = method_data V m)" for m
    using gm [of m] by (simp add: W_def same)
  have ww: "world W = world V \<or> world W = snd (build_interpreter_method_data X (profiled_method S) (world V))" if "a = Action_none"
    using gm neg [OF that] by (simp add: W_def loaded_world_def same)
  have "in_deopt_handler V' = in_deopt_handler V1" "deoptimization_hist V' = deoptimization_hist V1"
    "\<forall>m. not_compilable V m \<longrightarrow> not_compilable V' m"
    using k W unfolding keeps_thread_def by auto
  then show ?thesis using u cnt WV ww none W(2) by (intro exI [of _ V']) auto
qed


section \<open>A hot site is abandoned\<close>

text \<open>
  What the trap sees of a site in the profile: whether a trap with the reason was counted, whether code of the method was
  ever removed, the number of repeated recompilations, whether the datum of the bytecode is allocated, and its state.
\<close>

record 'p site_view =
  seen :: bool
  removed :: bool
  overflows :: juint
  allocated :: bool
  datum :: "('p \<times> jint) option"

definition view :: "('d, 'p, 'w) trap_ops \<Rightarrow> nat \<Rightarrow> int \<Rightarrow> nat option \<Rightarrow> 'd \<Rightarrow> 'p site_view" where
  "view X i bci cm d =
     (let (p, d') = allocate_bci_to_data X d bci cm
      in \<lparr>seen = (trap_count X d i \<noteq> 0), removed = (decompile_count X d \<noteq> 0), overflows = overflow_recompile_count X d,
          allocated = (d' = d), datum = map_option (\<lambda>p. (p, trap_state X d' p)) p\<rparr>)"

text \<open>
  The laws of the profile at a site: counting counts, the state written is the state read, allocating twice is allocating
  once, and no operation changes what it should not.
\<close>

definition profile_laws :: "('d, 'p, 'w) trap_ops \<Rightarrow> nat \<Rightarrow> int \<Rightarrow> nat option \<Rightarrow> bool" where
  "profile_laws X i bci cm \<longleftrightarrow>
     (\<forall>d. view X i bci cm (snd (inc_trap_count X d i)) = (view X i bci cm d)\<lparr>seen := True\<rparr>) \<and>
     (\<forall>d. view X i bci cm (snd (allocate_bci_to_data X d bci cm)) = (view X i bci cm d)\<lparr>allocated := True\<rparr>) \<and>
     (\<forall>d p s. snd (allocate_bci_to_data X d bci cm) = d \<and> fst (allocate_bci_to_data X d bci cm) = Some p \<longrightarrow>
        view X i bci cm (set_trap_state X d p s) = (view X i bci cm d)\<lparr>datum := Some (p, s)\<rparr>) \<and>
     (\<forall>d. view X i bci cm (inc_overflow_recompile_count X d) = (view X i bci cm d)\<lparr>overflows := overflows (view X i bci cm d) + 1\<rparr>) \<and>
     (\<forall>d. view X i bci cm (set_ProfileRTM X d) = view X i bci cm d)"

text \<open>
  The code is compiled again after every trap: each trap removes an entrant method. The removal is counted in the profile of
  the method that was compiled, so in the profile \<open>m\<close> only if that is its own (\<open>own\<close>), and not if the code inlines
  the method of the site. Reprofiling changes nothing of the site.
\<close>

definition recompiled_each_time :: "('d, 'p, 'w) trap_ops \<Rightarrow> bool \<Rightarrow> nat \<Rightarrow> nat \<Rightarrow> int \<Rightarrow> nat option \<Rightarrow> bool" where
  "recompiled_each_time X own m i bci cm \<longleftrightarrow>
     (\<forall>w ds. fst (nm_make_not_entrant X w ds) \<and>
        (\<forall>d. ds m = Some d \<longrightarrow> (\<exists>d'. snd (snd (nm_make_not_entrant X w ds)) m = Some d' \<and>
           view X i bci cm d' = (view X i bci cm d)\<lparr>removed := removed (view X i bci cm d) \<or> own\<rparr>)) \<and>
        (\<forall>d. ds m = Some d \<longrightarrow> (\<exists>d'. snd (policy_reprofile X w ds) m = Some d' \<and> view X i bci cm d' = view X i bci cm d)))"

lemma view_simps [simp]:
  "seen (view X i bci cm d) \<longleftrightarrow> trap_count X d i \<noteq> 0" "removed (view X i bci cm d) \<longleftrightarrow> decompile_count X d \<noteq> 0"
  "overflows (view X i bci cm d) = overflow_recompile_count X d"
  "allocated (view X i bci cm d) \<longleftrightarrow> snd (allocate_bci_to_data X d bci cm) = d"
  "datum (view X i bci cm d) = map_option (\<lambda>p. (p, trap_state X (snd (allocate_bci_to_data X d bci cm)) p)) (fst (allocate_bci_to_data X d bci cm))"
  by (simp_all add: view_def split_beta)

text \<open>One trap, seen from the site: \<open>step_datum\<close> is the new datum, \<open>repeated\<close> whether this is a repeated recompilation.\<close>

definition repeated :: "jint \<Rightarrow> DeoptReason \<Rightarrow> 'p site_view \<Rightarrow> bool" where
  "repeated M r v \<longleftrightarrow> seen v \<and> removed v \<and>
     (case datum v of None \<Rightarrow> True | Some (p, s) \<Rightarrow> trap_state_has_reason M s r \<noteq> 0 \<and> trap_state_is_recompiled M s)"

definition site_step :: "jint \<Rightarrow> bool \<Rightarrow> DeoptReason \<Rightarrow> 'p site_view \<Rightarrow> 'p site_view" where
  "site_step M own r v =
     \<lparr>seen = True, removed = removed v \<or> own, overflows = (if repeated M r v then overflows v + 1 else overflows v), allocated = True,
      datum = map_option (\<lambda>(p, s). (p, trap_state_set_recompiled M (trap_state_add_reason M s r) True)) (datum v)\<rparr>"


lemma query_view:
  assumes laws: "profile_laws X i bci cm" and r': "reason_recorded_per_bytecode_if_any r = r'" "r' \<noteq> Reason_none"
    and "cm = (if reason_is_speculate r then compiled else None)" "i = (if osr then reason_num r + Reason_LIMIT else reason_num r)"
  shows "\<exists>q d'. query_update_method_data X M d bci r True osr compiled = Some (q, d') \<and>
    view X i bci cm d' = (view X i bci cm d)\<lparr>seen := True, allocated := True,
      datum := map_option (\<lambda>(p, s). (p, trap_state_add_reason M s r')) (datum (view X i bci cm d))\<rparr> \<and>
    q_pdata q = map_option fst (datum (view X i bci cm d)) \<and>
    (q_maybe_prior_trap q \<and> q_maybe_prior_recompile q \<longleftrightarrow> repeated M r' (view X i bci cm d))"
proof -
  let ?v = "view X i bci cm"
  define d1 where "d1 = snd (inc_trap_count X d i)"
  have v1: "?v d1 = (?v d)\<lparr>seen := True\<rparr>" using laws by (simp add: profile_laws_def d1_def)
  obtain po d2 where al: "allocate_bci_to_data X d1 bci cm = (po, d2)" by fastforce
  have v2: "?v d2 = (?v d)\<lparr>seen := True, allocated := True\<rparr>"
    using laws al v1 by (metis profile_laws_def snd_conv site_view.surjective site_view.update_convs(1,4))
  have dc: "decompile_count X d1 \<noteq> 0 \<longleftrightarrow> removed (?v d)" using arg_cong [OF v1, of removed] by simp
  have dat: "datum (?v d) = map_option (\<lambda>p. (p, trap_state X d2 p)) po" using arg_cong [OF v1, of datum] al by simp
  have dat2: "datum (?v d2) = datum (?v d)" "allocated (?v d2)" using v2 by simp_all
  note q = query_update_method_data_def [of X M d bci r True osr compiled, unfolded r'(1) assms(4,5) [symmetric] Let_def split_beta
      if_True fst_conv snd_conv simp_thms d1_def [symmetric] al prod.case]
  show ?thesis
  proof (cases po)
    case None
    then show ?thesis using r'(2) v2 dat dc by (simp add: q repeated_def)
  next
    case (Some p)
    define s0 where "s0 = trap_state X d2 p"
    have s: "datum (?v d) = Some (p, s0)" using dat Some by (simp add: s0_def)
    have p2: "fst (allocate_bci_to_data X d2 bci cm) = Some p" "snd (allocate_bci_to_data X d2 bci cm) = d2"
      using dat2 s by auto
    have "?v (set_trap_state X d2 p s1) = (?v d2)\<lparr>datum := Some (p, s1)\<rparr>" for s1
      using laws p2 by (simp add: profile_laws_def)
    then have "?v (if trap_state_add_reason M s0 r' \<noteq> s0 then set_trap_state X d2 p (trap_state_add_reason M s0 r') else d2) =
        (?v d)\<lparr>seen := True, allocated := True, datum := Some (p, trap_state_add_reason M s0 r')\<rparr>"
      using v2 s by auto
    then show ?thesis using r'(2) Some s dc by (auto simp: q repeated_def s0_def)
  qed
qed


lemma record_recompile_view:
  assumes laws: "profile_laws X i bci cm" and "allocated (view X i bci cm d)" "r \<noteq> Reason_tenured"
    and "pdata = map_option fst (datum (view X i bci cm d))"
  shows "view X i bci cm (record_recompile X F S r pdata d) = (view X i bci cm d)\<lparr>datum :=
    map_option (\<lambda>(p, s). (p, trap_state_set_recompiled (trap_mask F) s True)) (datum (view X i bci cm d))\<rparr>"
proof -
  let ?v = "view X i bci cm"
  have rtm: "?v (set_ProfileRTM X e) = ?v e" for e using laws by (simp add: profile_laws_def)
  show ?thesis
  proof (cases "fst (allocate_bci_to_data X d bci cm)")
    case None
    then have "datum (?v d) = None" by simp
    then show ?thesis using assms(3,4) by (simp add: record_recompile_def Let_def rtm)
  next
    case (Some p)
    have s: "datum (?v d) = Some (p, trap_state X d p)" using Some assms(2) by simp
    have "?v (set_trap_state X d p s1) = (?v d)\<lparr>datum := Some (p, s1)\<rparr>" for s1
      using laws Some assms(2) by (simp add: profile_laws_def)
    then show ?thesis using s assms(3,4) by (auto simp: record_recompile_def Let_def rtm simp del: view_simps(5))
  qed
qed

lemma finish_actions_view:
  assumes "recompiled_each_time X own m i bci cm" "finish_actions X S D V = Some V'" "method_data V m = Some d"
  shows "\<exists>d'. method_data V' m = Some d' \<and> view X i bci cm d' = view X i bci cm d"
    "make_not_compilable D \<Longrightarrow> not_compilable V' (nm_method S)" "not_compilable V k \<Longrightarrow> not_compilable V' k"
  using assms by (auto simp: finish_actions_def recompiled_each_time_def Let_def split_beta split: if_splits)

lemma count_recompile_view:
  assumes laws: "profile_laws X i bci cm" and "count_recompile X F S (Some m) D V = (D', V')" "method_data V m = Some d"
  shows "\<exists>d'. method_data V' m = Some d' \<and> view X i bci cm d' = (view X i bci cm d)\<lparr>overflows := overflows (view X i bci cm d) + 1\<rparr>"
    and "overflows (view X i bci cm d) + 1 > PerBytecodeRecompilationCutoff F \<Longrightarrow>
      not_compilable V' (scope_method S) \<or> make_not_compilable D' \<and> scope_method S = nm_method S"
proof -
  let ?d = "inc_overflow_recompile_count X d"
  have v: "view X i bci cm ?d = (view X i bci cm d)\<lparr>overflows := overflows (view X i bci cm d) + 1\<rparr>"
    using laws by (simp add: profile_laws_def)
  have o: "overflow_recompile_count X ?d = overflows (view X i bci cm d) + 1" using arg_cong [OF v, of overflows] by simp
  show "\<exists>d'. method_data V' m = Some d' \<and> view X i bci cm d' = (view X i bci cm d)\<lparr>overflows := overflows (view X i bci cm d) + 1\<rparr>"
    using assms(2,3) v by (auto simp: count_recompile_def upd_mdo_def Let_def split: if_splits)
  show "not_compilable V' (scope_method S) \<or> make_not_compilable D' \<and> scope_method S = nm_method S"
    if "overflows (view X i bci cm d) + 1 > PerBytecodeRecompilationCutoff F"
    using assms(2,3) o that by (auto simp: count_recompile_def upd_mdo_def Let_def split: if_splits)
qed

lemma take_actions_view:
  assumes laws: "profile_laws X i bci cm" "recompiled_each_time X own m i bci cm"
    and "take_actions X F S r (Some m) pdata D V = Some V'" "make_not_entrant D" "method_data V m = Some d"
    and "allocated (view X i bci cm d)" "r \<noteq> Reason_tenured" "pdata = map_option fst (datum (view X i bci cm d))"
  shows "\<exists>d'. method_data V' m = Some d' \<and> view X i bci cm d' = (view X i bci cm d)\<lparr>removed := removed (view X i bci cm d) \<or> own,
      overflows := (if inc_recompile_count D then overflows (view X i bci cm d) + 1 else overflows (view X i bci cm d)),
      datum := map_option (\<lambda>(p, s). (p, trap_state_set_recompiled (trap_mask F) s True)) (datum (view X i bci cm d))\<rparr>"
    and "inc_recompile_count D \<Longrightarrow> overflows (view X i bci cm d) + 1 > PerBytecodeRecompilationCutoff F \<Longrightarrow> not_compilable V' (scope_method S)"
proof -
  let ?v = "view X i bci cm"
  define V1 where "V1 = V\<lparr>world := fst (snd (nm_make_not_entrant X (world V) (method_data V))),
    method_data := snd (snd (nm_make_not_entrant X (world V) (method_data V)))\<rparr>"
  obtain d1 where d1: "method_data V1 m = Some d1" "?v d1 = (?v d)\<lparr>removed := removed (?v d) \<or> own\<rparr>" and ok: "fst (nm_make_not_entrant X (world V) (method_data V))"
    using laws(2) assms(5) unfolding recompiled_each_time_def V1_def trap_vm.select_convs trap_vm.update_convs by (simp del: view_simps) blast
  define V2 where "V2 = upd_mdo (Some m) (record_recompile X F S r pdata) V1"
  define d2 where "d2 = record_recompile X F S r pdata d1"
  have d2: "method_data V2 m = Some d2" using d1(1) by (simp add: V2_def d2_def upd_mdo_def)
  have al: "allocated (?v d1)" "pdata = map_option fst (datum (?v d1))" using assms(6,8) unfolding d1(2) by (simp_all del: view_simps)
  have v2: "?v d2 = (?v d)\<lparr>removed := removed (?v d) \<or> own, datum := map_option (\<lambda>(p, s). (p, trap_state_set_recompiled (trap_mask F) s True)) (datum (?v d))\<rparr>"
    unfolding d2_def record_recompile_view [OF laws(1) al(1) assms(7) al(2)] d1(2) by (simp del: view_simps)
  obtain D3 V3 where c: "(if inc_recompile_count D then count_recompile X F S (Some m) D V2 else (D, V2)) = (D3, V3)" by fastforce
  have f: "finish_actions X S D3 V3 = Some V'"
    using assms(3) c unfolding take_actions_def Let_def split_beta eqTrueI [OF assms(4)] if_True eqTrueI [OF ok] simp_thms if_False
      V1_def [symmetric] V2_def [symmetric] by (simp only: fst_conv snd_conv)
  have "\<exists>d3. method_data V3 m = Some d3 \<and> ?v d3 = (?v d2)\<lparr>overflows := (if inc_recompile_count D then overflows (?v d2) + 1 else overflows (?v d2))\<rparr>"
    using c d2 count_recompile_view(1) [OF laws(1) _ d2] by (cases "inc_recompile_count D") (simp_all del: view_simps)
  then obtain d3 where d3: "method_data V3 m = Some d3"
    "?v d3 = (?v d2)\<lparr>overflows := (if inc_recompile_count D then overflows (?v d2) + 1 else overflows (?v d2))\<rparr>" by blast
  note fin = finish_actions_view [OF laws(2) f d3(1)]
  show "\<exists>d'. method_data V' m = Some d' \<and> ?v d' = (?v d)\<lparr>removed := removed (?v d) \<or> own,
      overflows := (if inc_recompile_count D then overflows (?v d) + 1 else overflows (?v d)),
      datum := map_option (\<lambda>(p, s). (p, trap_state_set_recompiled (trap_mask F) s True)) (datum (?v d))\<rparr>"
  proof -
    obtain d' where d': "method_data V' m = Some d'" "?v d' = ?v d3" using fin(1) by blast
    show ?thesis
      by (rule exI [of _ d'], rule conjI [OF d'(1)], unfold d'(2) d3(2) v2, rule site_view.equality) (simp_all del: view_simps)
  qed
  show "not_compilable V' (scope_method S)" if "inc_recompile_count D" "overflows (?v d) + 1 > PerBytecodeRecompilationCutoff F"
  proof -
    have "overflows (?v d2) = overflows (?v d)" unfolding v2 by simp
    then have "not_compilable V3 (scope_method S) \<or> make_not_compilable D3 \<and> scope_method S = nm_method S"
      using c that count_recompile_view(2) [OF laws(1) _ d2, of F S D D3 V3] by (simp del: view_simps)
    then show ?thesis using fin(2,3) by auto
  qed
qed


text \<open>The site of a trap in the profile.\<close>

definition site_index :: "trap_site \<Rightarrow> DeoptReason \<Rightarrow> nat" where
  "site_index S r = (if nm_is_compiled_by_jvmci S \<and> nm_is_osr_method S then reason_num r + Reason_LIMIT else reason_num r)"

definition site_bci :: "trap_site \<Rightarrow> int" where
  "site_bci S = (if scope_bci S = SynchronizationEntryBCI then 0 else scope_bci S)"

definition site_compiled :: "trap_site \<Rightarrow> DeoptReason \<Rightarrow> nat option" where
  "site_compiled S r = (if reason_is_speculate r then Some (nm_method S) else None)"

definition trap_view :: "('d, 'p, 'w) trap_ops \<Rightarrow> trap_site \<Rightarrow> DeoptReason \<Rightarrow> 'd \<Rightarrow> 'p site_view" where
  "trap_view X S r = view X (site_index S r) (site_bci S) (site_compiled S r)"

lemma decide_step:
  assumes laws: "profile_laws X (site_index S r) (site_bci S) (site_compiled S r)"
      "recompiled_each_time X (profiled_method S = nm_method S) (profiled_method S) (site_index S r) (site_bci S) (site_compiled S r)"
    and r': "reason_recorded_per_bytecode_if_any r = r'" "r' \<noteq> Reason_none"
    and on: "ProfileTraps F" "\<not> is_client_compilation_mode_vm F" "update_trap_state S r a" "make_not_entrant (requested_decision a)"
    and d: "method_data V (profiled_method S) = Some d"
  shows "\<exists>V' d'. decide_and_act X F S r a (site_bci S) (Some d) V = Some V' \<and> method_data V' (profiled_method S) = Some d' \<and>
    trap_view X S r d' = site_step (trap_mask F) (profiled_method S = nm_method S) r' (trap_view X S r d) \<and>
    (repeated (trap_mask F) r' (trap_view X S r d) \<and> overflows (trap_view X S r d) + 1 > PerBytecodeRecompilationCutoff F \<longrightarrow>
       not_compilable V' (scope_method S))"
proof -
  let ?m = "profiled_method S" and ?M = "trap_mask F"
  have ten: "r \<noteq> Reason_tenured" using on(3) by (simp add: update_trap_state_def)
  obtain q d1 where q: "query_update_method_data X ?M d (site_bci S) r True (nm_is_compiled_by_jvmci S \<and> nm_is_osr_method S) (Some (nm_method S)) = Some (q, d1)"
    and v1: "trap_view X S r d1 = (trap_view X S r d)\<lparr>seen := True, allocated := True,
      datum := map_option (\<lambda>(p, s). (p, trap_state_add_reason ?M s r')) (datum (trap_view X S r d))\<rparr>"
    and qp: "q_pdata q = map_option fst (datum (trap_view X S r d))"
    and qr: "q_maybe_prior_trap q \<and> q_maybe_prior_recompile q \<longleftrightarrow> repeated ?M r' (trap_view X S r d)"
    using query_view [OF laws(1) r' site_compiled_def site_index_def, of ?M d] unfolding trap_view_def by blast
  define D where "D = adjust_decision F r q (requested_decision a)"
  have D: "make_not_entrant D" "inc_recompile_count D \<longleftrightarrow> repeated ?M r' (trap_view X S r d)"
    using on(4) r' qr by (auto simp: D_def adjust_decision_def Let_def)
  define W where "W = upd_mdo (Some ?m) (\<lambda>_. d1) V"
  have W: "method_data W ?m = Some d1" using d by (simp add: W_def upd_mdo_def)
  obtain V' where V': "take_actions X F S r (Some ?m) (q_pdata q) D W = Some V'"
    using take_actions_succeeds [of D X F S r "Some ?m" "q_pdata q" W] D(1) by auto
  have eq: "decide_and_act X F S r a (site_bci S) (Some d) V = Some V'"
    using on(1-3) V' by (simp add: decide_and_act_def Let_def q D_def W_def)
  have al: "allocated (trap_view X S r d1)" "q_pdata q = map_option fst (datum (trap_view X S r d1))"
    unfolding v1 qp by (simp_all add: option.map_comp comp_def split_beta)
  note t = take_actions_view [OF laws V' D(1) W al(1) [unfolded trap_view_def] ten al(2) [unfolded trap_view_def], folded trap_view_def]
  obtain d' where d': "method_data V' ?m = Some d'" "trap_view X S r d' = (trap_view X S r d1)\<lparr>removed := removed (trap_view X S r d1) \<or> profiled_method S = nm_method S,
      overflows := (if inc_recompile_count D then overflows (trap_view X S r d1) + 1 else overflows (trap_view X S r d1)),
      datum := map_option (\<lambda>(p, s). (p, trap_state_set_recompiled ?M s True)) (datum (trap_view X S r d1))\<rparr>"
    using t(1) by blast
  have "trap_view X S r d' = site_step ?M (profiled_method S = nm_method S) r' (trap_view X S r d)"
    unfolding d'(2) v1 D(2) site_step_def by (rule site_view.equality) (simp_all add: option.map_comp comp_def case_prod_unfold)
  moreover have "overflows (trap_view X S r d1) = overflows (trap_view X S r d)" unfolding v1 by simp
  ultimately show ?thesis using eq d'(1) t(2) D(2) by auto
qed


lemma trap_step:
  assumes laws: "profile_laws X (site_index S r) (site_bci S) (site_compiled S r)"
      "recompiled_each_time X (profiled_method S = nm_method S) (profiled_method S) (site_index S r) (site_bci S) (site_compiled S r)"
    and r': "reason_recorded_per_bytecode_if_any r = r'" "r' \<noteq> Reason_none"
    and on: "ProfileTraps F" "\<not> is_client_compilation_mode_vm F" "update_trap_state S r a" "make_not_entrant (requested_decision a)"
    and tr: "make_trap_request r a (- 1) = Some tr" and d: "method_data V (profiled_method S) = Some d"
  shows "\<exists>V' d'. uncommon_trap_inner X F S tr V = Some V' \<and> method_data V' (profiled_method S) = Some d' \<and>
    trap_view X S r d' = site_step (trap_mask F) (profiled_method S = nm_method S) r' (trap_view X S r d) \<and>
    (repeated (trap_mask F) r' (trap_view X S r d) \<and> overflows (trap_view X S r d) + 1 > PerBytecodeRecompilationCutoff F \<longrightarrow>
       not_compilable V' (scope_method S))"
proof -
  have m: "r \<noteq> Reason_many" using r' by (auto simp: reason_recorded_per_bytecode_if_any_def reason_is_recorded_per_bytecode_def)
  have t: "trap_request_reason tr = Some r" "trap_request_action tr = Some a" "trap_request_index tr = - 1"
    using tr by (auto simp: make_trap_request_def Let_def split: if_splits)
  have neg: "\<not> 0 \<le>s (- 1 :: jint)" by (simp add: word_sle_eq)
  obtain V1 where n: "note_trap X F S r a V = Some (site_bci S, V1)" and same: "method_data V1 = method_data V"
    using note_trap_result [OF m, of X F S a V] by (auto simp: site_bci_def)
  have g: "get_method_data X (profiled_method S) (create_if_missing F) V1 = (Some d, V1)"
    using d by (simp add: get_method_data_def same)
  have "uncommon_trap_inner X F S tr V = decide_and_act X F S r a (site_bci S) (Some d) V1"
    using uncommon_trap_steps [OF n g t(1,2)] by (simp add: t(3) neg loaded_world_def)
  then show ?thesis using decide_step [OF laws r' on, of V1 d] d by (simp add: same)
qed

definition datum_ok :: "jint \<Rightarrow> 'p site_view \<Rightarrow> bool" where
  "datum_ok M v \<longleftrightarrow> (\<forall>p s. datum v = Some (p, s) \<longrightarrow> (\<exists>h z. history_ok h \<and> s = encode_state M h z))"

definition hot :: "jint \<Rightarrow> DeoptReason \<Rightarrow> 'p site_view \<Rightarrow> bool" where
  "hot M r v \<longleftrightarrow> seen v \<and> removed v \<and>
     (\<forall>p s. datum v = Some (p, s) \<longrightarrow> (\<exists>h. history_ok h \<and> history_has r h \<noteq> 0 \<and> s = encode_state M h True))"

lemma hot_datum_ok: "hot M r v \<Longrightarrow> datum_ok M v"
  by (fastforce simp: hot_def datum_ok_def)

lemma hot_repeated:
  assumes "4 \<le> m" "m \<le> 31" "M = mask (Suc m)" "reason_is_recorded_per_bytecode r" "hot M r v"
  shows "repeated M r v"
proof (cases "datum v")
  case (Some ps)
  then obtain p s where ps: "datum v = Some (p, s)" by (cases ps) simp
  then obtain h where h: "history_ok h" "history_has r h \<noteq> 0" "s = encode_state M h True" using assms(5) by (auto simp: hot_def)
  then show ?thesis
    using assms(5) ps trap_state_has_reason_refines [OF assms(1,2) h(1) assms(3,4)] trap_state_recompiled_refines(1) [OF assms(1,2) h(1) assms(3)]
    by (simp add: repeated_def hot_def)
qed (use assms(5) in \<open>simp add: repeated_def hot_def\<close>)

lemma history_add_ok: "reason_is_recorded_per_bytecode r \<Longrightarrow> history_ok h \<Longrightarrow> history_ok (history_add r h) \<and> history_has r (history_add r h) \<noteq> 0"
  by (cases h) simp_all

lemma step_hot:
  assumes "4 \<le> m" "m \<le> 31" "M = mask (Suc m)" "reason_is_recorded_per_bytecode r" "datum_ok M v" "own \<or> removed v"
  shows "hot M r (site_step M own r v)"
proof -
  have "\<exists>h'. history_ok h' \<and> history_has r h' \<noteq> 0 \<and>
      trap_state_set_recompiled M (trap_state_add_reason M s r) True = encode_state M h' True" if "datum v = Some (p, s)" for p s
  proof -
    note dv = that
    obtain h z where h: "history_ok h" "s = encode_state M h z" using assms(5) dv unfolding datum_ok_def by blast
    note ok = history_add_ok [OF assms(4) h(1)]
    show ?thesis
      unfolding h(2) trap_state_add_reason_refines [OF assms(1,2) h(1) assms(3,4)]
        trap_state_recompiled_refines(2) [OF assms(1,2) conjunct1 [OF ok] assms(3)] using ok by blast
  qed
  then show ?thesis using assms(6) by (auto simp: hot_def site_step_def)
qed

lemma recorded_if_any: "reason_recorded_per_bytecode_if_any r \<noteq> Reason_none \<Longrightarrow> reason_is_recorded_per_bytecode (reason_recorded_per_bytecode_if_any r)"
  by (cases r) (simp_all add: reason_recorded_per_bytecode_if_any_def reason_is_recorded_per_bytecode_def Reason_RECORDED_LIMIT_def)

fun traps :: "('d, 'p, 'w) trap_ops \<Rightarrow> trap_flags \<Rightarrow> trap_site \<Rightarrow> jint \<Rightarrow> nat \<Rightarrow> ('d, 'w) trap_vm \<Rightarrow> ('d, 'w) trap_vm option" where
  "traps X F S tr 0 V = Some V"
| "traps X F S tr (Suc n) V = Option.bind (uncommon_trap_inner X F S tr V) (traps X F S tr n)"

lemma hot_site_run:
  assumes laws: "profile_laws X (site_index S r) (site_bci S) (site_compiled S r)"
      "recompiled_each_time X (profiled_method S = nm_method S) (profiled_method S) (site_index S r) (site_bci S) (site_compiled S r)"
    and r': "reason_recorded_per_bytecode_if_any r \<noteq> Reason_none"
    and on: "ProfileTraps F" "\<not> is_client_compilation_mode_vm F" "update_trap_state S r a" "make_not_entrant (requested_decision a)"
    and tr: "make_trap_request r a (- 1) = Some tr" and M: "4 \<le> m" "m \<le> 31" "trap_mask F = mask (Suc m)"
    and c: "Suc (unat (PerBytecodeRecompilationCutoff F)) < 2 ^ 32"
    and "method_data V (profiled_method S) = Some d" "hot (trap_mask F) (reason_recorded_per_bytecode_if_any r) (trap_view X S r d)"
    and "unat (overflows (trap_view X S r d)) + k = unat (PerBytecodeRecompilationCutoff F)"
  shows "\<exists>n V'. n \<le> Suc k \<and> traps X F S tr n V = Some V' \<and> not_compilable V' (scope_method S)"
  using assms(13-)
proof (induction k arbitrary: V d)
  case (0 V d)
  note st = trap_step [OF laws refl r' on tr 0(1)]
  note hr = hot_repeated [OF M recorded_if_any [OF r'] 0(2)]
  have "overflows (trap_view X S r d) + 1 > PerBytecodeRecompilationCutoff F"
    using 0(3) c by (simp add: word_less_nat_alt unat_word_ariths)
  then obtain V' where "uncommon_trap_inner X F S tr V = Some V'" "not_compilable V' (scope_method S)" using st hr by blast
  then have "traps X F S tr 1 V = Some V' \<and> not_compilable V' (scope_method S)" by simp
  then show ?case by (intro exI [of _ 1]) auto
next
  case (Suc k V d)
  note hr = hot_repeated [OF M recorded_if_any [OF r'] Suc.prems(2)]
  obtain V' d' where s: "uncommon_trap_inner X F S tr V = Some V'" "method_data V' (profiled_method S) = Some d'"
    "trap_view X S r d' = site_step (trap_mask F) (profiled_method S = nm_method S) (reason_recorded_per_bytecode_if_any r) (trap_view X S r d)"
    using trap_step [OF laws refl r' on tr Suc.prems(1)] by blast
  have "hot (trap_mask F) (reason_recorded_per_bytecode_if_any r) (trap_view X S r d')"
    unfolding s(3) by (rule step_hot [OF M recorded_if_any [OF r'] hot_datum_ok [OF Suc.prems(2)]]) (use Suc.prems(2) in \<open>simp add: hot_def\<close>)
  moreover have "unat (overflows (trap_view X S r d')) + k = unat (PerBytecodeRecompilationCutoff F)"
    unfolding s(3) site_step_def using hr Suc.prems(3) c by (simp add: unat_word_ariths)
  ultimately obtain n V'' where "n \<le> Suc k" "traps X F S tr n V' = Some V''" "not_compilable V'' (scope_method S)"
    using Suc.IH [OF s(2)] by blast
  then show ?case using s(1) by (intro exI [of _ "Suc n"]) auto
qed

text \<open>
  C36: no endless cycle of recompilation. A site that traps again and again with a reason recorded per bytecode and an action
  that removes the code, and is compiled again each time, makes its method not compilable after at most two more traps than
  the cutoff, whatever the history and the other traps recorded for the bytecode, and with or without room for a datum in
  the profile. The code is that of the method whose profile the trap updates, or, when it inlines the site, code of that
  method was removed once before: a repeated recompilation is only seen in a profile that has counted a removal.
\<close>

theorem hot_site_abandoned:
  assumes "profile_laws X (site_index S r) (site_bci S) (site_compiled S r)"
      "recompiled_each_time X (profiled_method S = nm_method S) (profiled_method S) (site_index S r) (site_bci S) (site_compiled S r)"
    and "reason_recorded_per_bytecode_if_any r \<noteq> Reason_none" "update_trap_state S r a"
    and "a = Action_reinterpret \<or> a = Action_make_not_entrant \<or> a = Action_make_not_compilable"
    and "make_trap_request r a (- 1) = Some tr"
    and "ProfileTraps F" "\<not> is_client_compilation_mode_vm F" "trap_mask F = mask b" "5 \<le> b" "b \<le> 32"
    and "method_data V (profiled_method S) = Some d" "datum_ok (trap_mask F) (trap_view X S r d)"
    and "overflow_recompile_count X d \<le> PerBytecodeRecompilationCutoff F" "PerBytecodeRecompilationCutoff F \<noteq> - 1"
    and "profiled_method S = nm_method S \<or> decompile_count X d \<noteq> 0"
  shows "\<exists>n V'. n \<le> unat (PerBytecodeRecompilationCutoff F) + 2 \<and> traps X F S tr n V = Some V' \<and> not_compilable V' (scope_method S)"
proof -
  obtain m where M: "4 \<le> m" "m \<le> 31" "trap_mask F = mask (Suc m)" using assms(9-11) by (cases b) auto
  let ?r = "reason_recorded_per_bytecode_if_any r" and ?c = "PerBytecodeRecompilationCutoff F"
  have on: "make_not_entrant (requested_decision a)" using assms(5) by (auto simp: requested_decision_def)
  have "unat ?c \<noteq> unat (- 1 :: juint)" using assms(15) by (simp only: word_unat_eq_iff [symmetric] not_False_eq_True)
  then have c: "Suc (unat ?c) < 2 ^ 32" using unsigned_less [of ?c, where ?'a = nat] by (simp add: unsigned_minus_1_eq_mask mask_eq_exp_minus_1)
  obtain V1 d1 where s: "uncommon_trap_inner X F S tr V = Some V1" "method_data V1 (profiled_method S) = Some d1"
    "trap_view X S r d1 = site_step (trap_mask F) (profiled_method S = nm_method S) ?r (trap_view X S r d)"
    and ab: "repeated (trap_mask F) ?r (trap_view X S r d) \<and> overflows (trap_view X S r d) + 1 > ?c \<longrightarrow> not_compilable V1 (scope_method S)"
    using trap_step [OF assms(1,2) refl assms(3,7,8,4) on assms(6,12)] by blast
  have h: "hot (trap_mask F) ?r (trap_view X S r d1)"
    unfolding s(3) by (rule step_hot [OF M recorded_if_any [OF assms(3)] assms(13)]) (use assms(16) in \<open>simp add: trap_view_def\<close>)
  show ?thesis
  proof (cases "overflows (trap_view X S r d1) \<le> ?c")
    case True
    then obtain k where k: "unat (overflows (trap_view X S r d1)) + k = unat ?c" by (metis le_Suc_ex word_le_nat_alt)
    obtain n V' where n: "n \<le> Suc k" "traps X F S tr n V1 = Some V'" "not_compilable V' (scope_method S)"
      using hot_site_run [OF assms(1,2,3,7,8,4) on assms(6) M c s(2) h k] by blast
    show ?thesis using n s(1) k by (intro exI [of _ "Suc n"] exI [of _ V']) auto
  next
    case False
    then have "repeated (trap_mask F) ?r (trap_view X S r d) \<and> overflows (trap_view X S r d) + 1 > ?c"
      using assms(14) unfolding s(3) site_step_def by (auto simp: trap_view_def split: if_splits)
    then have "traps X F S tr 1 V = Some V1 \<and> not_compilable V1 (scope_method S)" using ab s(1) by simp
    then show ?thesis by (intro exI [of _ 1] exI [of _ V1]) auto
  qed
qed


text \<open>A profile with a datum for every bytecode, for which the laws hold.\<close>

record sample_mdo =
  sample_counts :: "nat \<Rightarrow> juint"
  sample_removals :: juint
  sample_repeats :: juint
  sample_states :: "int \<Rightarrow> jint option"

definition sample_ops :: "(sample_mdo, int, nat) trap_ops" where
  "sample_ops = \<lparr>trap_count = sample_counts,
     inc_trap_count = (\<lambda>d i. let c = (if sample_counts d i = - 1 then - 1 else sample_counts d i + 1)
                             in (c, d\<lparr>sample_counts := (sample_counts d)(i := c)\<rparr>)),
     decompile_count = sample_removals,
     allocate_bci_to_data = (\<lambda>d bci cm. (Some bci, d\<lparr>sample_states := (sample_states d)(bci := Some (case sample_states d bci of None \<Rightarrow> 0 | Some s \<Rightarrow> s))\<rparr>)),
     trap_state = (\<lambda>d p. case sample_states d p of None \<Rightarrow> 0 | Some s \<Rightarrow> s),
     set_trap_state = (\<lambda>d p s. d\<lparr>sample_states := (sample_states d)(p := Some s)\<rparr>),
     overflow_recompile_count = sample_repeats,
     inc_overflow_recompile_count = (\<lambda>d. d\<lparr>sample_repeats := sample_repeats d + 1\<rparr>),
     inc_tenure_traps = id, set_ProfileRTM = id,
     build_interpreter_method_data = (\<lambda>m w. (None, w)), is_unresolved_klass = (\<lambda>m i w. True), is_symbol = (\<lambda>m i w. False),
     klass_at_ignore_error = (\<lambda>m i w. Suc w), java_code_at = (\<lambda>m bci. 190),
     nm_make_not_entrant = (\<lambda>w ds. (True, Suc w, ds(2 := map_option (\<lambda>d. d\<lparr>sample_removals := 1\<rparr>) (ds 2)))),
     policy_reprofile = (\<lambda>w ds. (w, ds))\<rparr>"

definition sample_flags :: trap_flags where
  "sample_flags = \<lparr>trap_mask = mask 32, BC_CASE_LIMIT = 4, ProfileTraps = True, UseCodeAging = False, UseRTMLocking = False, UseRTMDeopt = False,
     UseJVMCICompiler = False, is_client_compilation_mode_vm = False, PerBytecodeTrapLimit = 4, PerMethodTrapLimit = 100,
     PerMethodSpecTrapLimit = 5000, PerBytecodeRecompilationCutoff = 200\<rparr>"

text \<open>Code of the method 2 that inlines the method 1, and a site of the method 2 itself.\<close>

definition sample_site :: trap_site where
  "sample_site = \<lparr>scope_method = 1, scope_bci = 17, nm_method = 2, nm_is_compiled_by_jvmci = False, nm_is_osr_method = False,
     nm_rtm_state_is_ProfileRTM = False, has_injected_profile = False\<rparr>"

definition own_site :: trap_site where
  "own_site = sample_site\<lparr>scope_method := 2\<rparr>"

definition sample_vm :: "(sample_mdo, nat) trap_vm" where
  "sample_vm = \<lparr>method_data = (\<lambda>m. Some \<lparr>sample_counts = (\<lambda>_. 0), sample_removals = 0, sample_repeats = 0, sample_states = Map.empty\<rparr>),
     world = 0, deoptimization_hist = hist_zero, in_deopt_handler = 0, pending_monitorenter = False,
     pending_transfer_to_interpreter = False, not_compilable = (\<lambda>m. False)\<rparr>"

lemma sample_view:
  "view sample_ops i bci cm \<lparr>sample_counts = c, sample_removals = k, sample_repeats = n, sample_states = f\<rparr> =
     \<lparr>seen = (c i \<noteq> 0), removed = (k \<noteq> 0), overflows = n, allocated = (f bci \<noteq> None),
      datum = Some (bci, case f bci of None \<Rightarrow> 0 | Some s \<Rightarrow> s)\<rparr>"
  by (auto simp: view_def sample_ops_def fun_upd_idem_iff split: option.split)

lemma sample_laws: "profile_laws sample_ops i bci cm" "recompiled_each_time sample_ops (m = 2) m i bci cm"
proof -
  have n: "x \<noteq> - 1 \<Longrightarrow> x + 1 \<noteq> 0" for x :: juint by (metis eq_neg_iff_add_eq_0)
  have v: "view sample_ops i bci cm d = \<lparr>seen = (sample_counts d i \<noteq> 0), removed = (sample_removals d \<noteq> 0), overflows = sample_repeats d,
      allocated = (sample_states d bci \<noteq> None), datum = Some (bci, case sample_states d bci of None \<Rightarrow> 0 | Some s \<Rightarrow> s)\<rparr>" for d
    by (cases d) (simp add: sample_view)
  have dne: "snd (allocate_bci_to_data sample_ops d bci cm) = d \<longleftrightarrow> sample_states d bci \<noteq> None" for d
    using arg_cong [OF v, of allocated d] unfolding view_simps(4) site_view.select_convs .
  have rtm: "set_ProfileRTM sample_ops d = d" for d by (simp add: sample_ops_def)
  have inc: "snd (inc_trap_count sample_ops d i) = \<lparr>sample_counts = (sample_counts d)(i := if sample_counts d i = - 1 then - 1 else sample_counts d i + 1),
      sample_removals = sample_removals d, sample_repeats = sample_repeats d, sample_states = sample_states d\<rparr>" for d
    by (simp add: sample_ops_def Let_def)
  have al: "allocate_bci_to_data sample_ops d bci cm = (Some bci, \<lparr>sample_counts = sample_counts d, sample_removals = sample_removals d,
      sample_repeats = sample_repeats d, sample_states = (sample_states d)(bci := Some (case sample_states d bci of None \<Rightarrow> 0 | Some s \<Rightarrow> s))\<rparr>)" for d
    by (simp add: sample_ops_def)
  have st: "set_trap_state sample_ops d p s = \<lparr>sample_counts = sample_counts d, sample_removals = sample_removals d,
      sample_repeats = sample_repeats d, sample_states = (sample_states d)(p := Some s)\<rparr>" for d p s
    by (simp add: sample_ops_def)
  have ov: "inc_overflow_recompile_count sample_ops d = \<lparr>sample_counts = sample_counts d, sample_removals = sample_removals d,
      sample_repeats = sample_repeats d + 1, sample_states = sample_states d\<rparr>" for d
    by (simp add: sample_ops_def)
  show "profile_laws sample_ops i bci cm"
    unfolding profile_laws_def dne unfolding inc ov st al rtm v by (auto simp: n)
  have ne: "nm_make_not_entrant sample_ops w ds = (True, Suc w, ds(2 := map_option (\<lambda>d. d\<lparr>sample_removals := 1\<rparr>) (ds 2)))" for w ds
    by (simp add: sample_ops_def)
  have re: "policy_reprofile sample_ops w ds = (w, ds)" for w ds by (simp add: sample_ops_def)
  show "recompiled_each_time sample_ops (m = 2) m i bci cm"
    unfolding recompiled_each_time_def ne re v by simp
qed

theorem uncommon_trap_consistent_witness:
  "\<exists>tr V'. make_trap_request Reason_null_check Action_none (- 1) = Some tr \<and>
     uncommon_trap_inner sample_ops sample_flags sample_site tr sample_vm = Some V' \<and> not_compilable V' = not_compilable sample_vm"
proof -
  obtain tr where tr: "make_trap_request Reason_null_check Action_none (- 1) = Some tr" by (simp add: make_trap_request_word)
  show ?thesis
    using uncommon_trap_consistent [OF _ _ tr, of sample_ops sample_site sample_flags sample_vm] tr
    by (auto simp: sample_ops_def)
qed

theorem hot_site_abandoned_witness:
  "\<exists>tr. make_trap_request Reason_null_check Action_make_not_entrant (- 1) = Some tr \<and>
     (\<exists>n V'. n \<le> 202 \<and> traps sample_ops sample_flags own_site tr n sample_vm = Some V' \<and> not_compilable V' 2) \<and>
     (\<exists>n V'. n \<le> 202 \<and> traps sample_ops sample_flags sample_site tr n
        (sample_vm\<lparr>method_data := (\<lambda>m. map_option (sample_removals_update (\<lambda>_. 1)) (method_data sample_vm m))\<rparr>) = Some V' \<and> not_compilable V' 1)"
proof -
  let ?d = "\<lparr>sample_counts = (\<lambda>_. 0), sample_removals = 0, sample_repeats = 0, sample_states = Map.empty\<rparr> :: sample_mdo"
  let ?V = "sample_vm\<lparr>method_data := (\<lambda>m. map_option (sample_removals_update (\<lambda>_. 1)) (method_data sample_vm m))\<rparr>"
  obtain tr where tr: "make_trap_request Reason_null_check Action_make_not_entrant (- 1) = Some tr" by (simp add: make_trap_request_word)
  have "encode_state (mask 32) Never False = 0" by (simp add: encode_state_def history_code_def)
  then have ok: "datum_ok (trap_mask sample_flags) (trap_view sample_ops S Reason_null_check (?d\<lparr>sample_removals := k\<rparr>))" for S k
    by (auto simp: datum_ok_def trap_view_def view_def sample_ops_def sample_flags_def intro!: exI [of _ Never] exI [of _ False])
  have own: "(profiled_method own_site = nm_method own_site) = (profiled_method own_site = 2)"
    "(profiled_method sample_site = nm_method sample_site) = (profiled_method sample_site = 2)"
    by (simp_all add: own_site_def sample_site_def)
  have "\<exists>n V'. n \<le> 202 \<and> traps sample_ops sample_flags own_site tr n sample_vm = Some V' \<and> not_compilable V' 2"
    using hot_site_abandoned [OF sample_laws(1) sample_laws(2) [of "profiled_method own_site", folded own(1)] _ _ _ tr _ _ _ _ _ _ ok, of 32 sample_vm 0]
    by (auto simp: sample_flags_def own_site_def sample_site_def sample_vm_def sample_ops_def update_trap_state_def profiled_method_def
        reason_recorded_per_bytecode_if_any_def reason_is_recorded_per_bytecode_def Reason_RECORDED_LIMIT_def)
  moreover have "\<exists>n V'. n \<le> 202 \<and> traps sample_ops sample_flags sample_site tr n ?V = Some V' \<and> not_compilable V' 1"
    using hot_site_abandoned [OF sample_laws(1) sample_laws(2) [of "profiled_method sample_site", folded own(2)] _ _ _ tr _ _ _ _ _ _ ok, of 32 ?V 1]
    by (auto simp: sample_flags_def sample_site_def sample_vm_def sample_ops_def update_trap_state_def
        reason_recorded_per_bytecode_if_any_def reason_is_recorded_per_bytecode_def Reason_RECORDED_LIMIT_def)
  ultimately show ?thesis using tr by blast
qed

end
