(* ===== verification/Macro_Slots.thy ===== *)
theory Macro_Slots
  imports Ideal_Graph "HOL-Library.Multiset"
begin

text \<open>
  Stack allocation in macro expansion (\<open>macro.cpp\<close>): the slots of the frame that objects are given, the estimate made before
  the expansion, and the loop that expands every allocation on the stack or on the heap. The ideal graph and its rewriting
  are a parameter: a record of what the loop asks of the graph and does to it.
\<close>

section \<open>The graph\<close>

text \<open>What is known of an allocation at a moment.\<close>

record alloc_info =
  a_result :: bool          \<comment> \<open>\<open>result_cast() != NULL\<close>\<close>
  a_size :: intptr          \<comment> \<open>\<open>find_intptr_t_con(in(AllocSize), -1)\<close>\<close>
  a_stack_allocateable :: bool
  a_scalar_replaceable :: bool
  a_referenced :: bool      \<comment> \<open>\<open>_is_referenced_stack_allocation\<close>\<close>
  a_dead :: bool            \<comment> \<open>its type is \<open>TOP\<close> or its control is top\<close>

record 'g macro_ops =
  macros :: "'g \<Rightarrow> node list"
  info :: "'g \<Rightarrow> node \<Rightarrow> alloc_info"
  remove_macro_node :: "node \<Rightarrow> 'g \<Rightarrow> 'g"
  process_write_barriers :: "node \<Rightarrow> 'g \<Rightarrow> bool \<times> 'g"
  yank_alloc_node :: "node \<Rightarrow> 'g \<Rightarrow> 'g"
  place_on_stack :: "node \<Rightarrow> jint \<Rightarrow> 'g \<Rightarrow> 'g"     \<comment> \<open>the rewriting with a \<open>BoxLockNode\<close> of the slot\<close>
  expand_on_heap :: "node \<Rightarrow> 'g \<Rightarrow> 'g"             \<comment> \<open>\<open>expand_allocate\<close> or \<open>expand_allocate_array\<close>\<close>
  optimize :: "'g \<Rightarrow> 'g"
  check_node_count :: "'g \<Rightarrow> bool"
  failing :: "'g \<Rightarrow> bool"
  can_represent :: "jint \<Rightarrow> bool"                 \<comment> \<open>\<open>RegMask::can_represent(OptoReg::stack2reg(n))\<close>\<close>
  do_stack_allocation :: bool

datatype fate = On_Stack jint | Yanked | On_Heap

text \<open>The state of the compilation, with a record of what became of each allocation.\<close>

record 'g macro_state =
  graph :: 'g
  fixed_slots :: jint
  stack_allocated_slots :: jint
  fail_stack_allocation_with_references :: bool
  expanded :: "(node \<times> alloc_info \<times> fate) list"

section \<open>Slots\<close>

definition STACK_REG_BUFFER :: jint where "STACK_REG_BUFFER = 4"

definition stack_allocation_location_representable :: "'g macro_ops \<Rightarrow> jint \<Rightarrow> bool" where
  "stack_allocation_location_representable X slot_location = can_represent X (slot_location + STACK_REG_BUFFER)"

definition next_stack_allocated_object :: "'g macro_ops \<Rightarrow> jint \<Rightarrow> 'g macro_state \<Rightarrow> jint \<times> 'g macro_state" where
  "next_stack_allocated_object X num_slots S =
     (let current = fixed_slots S; next = current + num_slots
      in if \<not> stack_allocation_location_representable X next then (- 1, S)
         else (current, if fixed_slots S <s next then S\<lparr>fixed_slots := next\<rparr> else S))"

text \<open>\<open>size_of_object >> LogBytesPerInt\<close>, passed as an \<open>int\<close>.\<close>

definition object_slots :: "intptr \<Rightarrow> jint" where
  "object_slots size_of_object = ucast (signed_drop_bit 2 size_of_object)"

definition can_stack_allocate :: "'g macro_ops \<Rightarrow> alloc_info \<Rightarrow> bool" where
  "can_stack_allocate X A \<longleftrightarrow> a_result A \<and> a_stack_allocateable A \<and> a_size A \<noteq> - 1 \<and> do_stack_allocation X"

definition estimate_stack_allocation_size :: "'g macro_ops \<Rightarrow> node \<Rightarrow> 'g macro_state \<Rightarrow> 'g macro_state" where
  "estimate_stack_allocation_size X alloc S =
     (let A = info X (graph S) alloc
      in if a_scalar_replaceable A \<and> \<not> a_stack_allocateable A then S\<lparr>fail_stack_allocation_with_references := True\<rparr>
         else if a_stack_allocateable A \<and> \<not> can_stack_allocate X A then S\<lparr>fail_stack_allocation_with_references := True\<rparr>
         else if \<not> a_stack_allocateable A then S
         else S\<lparr>stack_allocated_slots := stack_allocated_slots S + object_slots (a_size A)\<rparr>)"

text \<open>The loop that estimates, from the last macro node to the first, and the check that follows it.\<close>

definition estimate_all :: "'g macro_ops \<Rightarrow> 'g macro_state \<Rightarrow> 'g macro_state" where
  "estimate_all X S =
     (let S1 = fold (estimate_stack_allocation_size X) (rev (macros X (graph S))) S
      in if stack_allocation_location_representable X (fixed_slots S1 + stack_allocated_slots S1) then S1
         else S1\<lparr>fail_stack_allocation_with_references := True\<rparr>)"

section \<open>Expansion\<close>

definition stack_allocation :: "'g macro_ops \<Rightarrow> node \<Rightarrow> 'g macro_state \<Rightarrow> bool \<times> 'g macro_state" where
  "stack_allocation X alloc S =
     (let A = info X (graph S) alloc
      in if \<not> can_stack_allocate X A then (False, S)
         else if fail_stack_allocation_with_references S \<and> a_referenced A then (False, S)
         else
           let (slot, S1) = next_stack_allocated_object X (object_slots (a_size A)) S
           in if slot <s 0 then (False, S1)
              else
                let (unused, g) = process_write_barriers X alloc (graph S1)
                in if unused then
                     (True, S1\<lparr>graph := yank_alloc_node X alloc g, expanded := expanded S1 @ [(alloc, A, Yanked)]\<rparr>)
                   else (True, S1\<lparr>graph := place_on_stack X alloc slot g, expanded := expanded S1 @ [(alloc, A, On_Stack slot)]\<rparr>))"

definition expand_one :: "'g macro_ops \<Rightarrow> node \<Rightarrow> 'g macro_state \<Rightarrow> 'g macro_state" where
  "expand_one X n S =
     (let (done, S1) = stack_allocation X n S
      in if done then S1
         else S1\<lparr>graph := expand_on_heap X n (graph S1), expanded := expanded S1 @ [(n, info X (graph S1) n, On_Heap)]\<rparr>)"

text \<open>The result is whether the compilation fails; \<open>None\<close> is a failed assertion, or no result.\<close>

partial_function (option) expand_loop :: "'g macro_ops \<Rightarrow> 'g macro_state \<Rightarrow> (bool \<times> 'g macro_state) option" where
  "expand_loop X S =
     (if macros X (graph S) = [] then Some (False, S)
      else
        let n = last (macros X (graph S))
        in if a_dead (info X (graph S) n) then expand_loop X (S\<lparr>graph := remove_macro_node X n (graph S)\<rparr>)
           else if check_node_count X (graph S) then Some (True, S)
           else
             let S1 = expand_one X n S
             in if \<not> length (macros X (graph S1)) < length (macros X (graph S)) then None
                else if failing X (graph S1) then Some (True, S1)
                else
                  let S2 = S1\<lparr>graph := optimize X (graph S1)\<rparr>
                  in if failing X (graph S2) then Some (True, S2) else expand_loop X S2)"

definition expand_allocations :: "'g macro_ops \<Rightarrow> 'g macro_state \<Rightarrow> (bool \<times> 'g macro_state) option" where
  "expand_allocations X S = expand_loop X (estimate_all X S)"

section \<open>The order of the macro nodes\<close>

text \<open>One round of the loop; \<open>allocates\<close> counts the allocations seen.\<close>

definition sort_step :: "(node \<Rightarrow> bool) \<Rightarrow> nat \<Rightarrow> node list \<times> nat \<Rightarrow> node list \<times> nat" where
  "sort_step is_alloc i = (\<lambda>(ns, allocates).
     let n = ns ! i
     in if is_alloc n then
          (if i \<noteq> allocates then (let tmp = ns ! allocates in ns[allocates := n, i := tmp]) else ns, Suc allocates)
        else (ns, allocates))"

definition sort_macro_nodes :: "(node \<Rightarrow> bool) \<Rightarrow> node list \<Rightarrow> node list" where
  "sort_macro_nodes is_alloc ns = fst (fold (sort_step is_alloc) [0..<length ns] (ns, 0))"


section \<open>Machine arithmetic\<close>

lemma sint_small: "unat w < 2 ^ 31 \<Longrightarrow> sint (w :: jint) = int (unat w)"
proof -
  assume "unat w < 2 ^ 31"
  then have "int (unat w) < int (2 ^ 31)" by (simp only: of_nat_less_iff)
  then have "uint w < 2 ^ 31" by simp
  then have "signed_take_bit 31 (uint w) = uint w" by (intro signed_take_bit_int_eq_self) (simp_all add: order_trans [OF _ unsigned_greater_eq])
  then show "sint w = int (unat w)" by (simp add: sint_uint)
qed

lemma sless_small: "unat a < 2 ^ 31 \<Longrightarrow> unat b < 2 ^ 31 \<Longrightarrow> (a :: jint) <s b \<longleftrightarrow> unat a < unat b"
  by (simp only: word_sless_alt sint_small of_nat_less_iff)

lemma unat_add_small: "unat a + unat b < 2 ^ 32 \<Longrightarrow> unat (a + b :: jint) = unat a + unat b"
  by (simp add: unat_word_ariths)

lemma object_slots_small:
  assumes "unat size_of_object \<le> 256"
  shows "unat (object_slots size_of_object) = unat size_of_object div 4"
proof -
  have "\<not> bit size_of_object 63"
  proof
    assume "bit size_of_object 63"
    then have "bit (unat size_of_object) 63" by (simp add: bit_unsigned_iff)
    then show False using assms by (simp add: bit_iff_odd)
  qed
  then have "signed_drop_bit 2 size_of_object = drop_bit 2 size_of_object"
    by (intro bit_eqI) (auto simp: bit_simps dest: bit_imp_le_length)
  moreover have u: "unat (drop_bit 2 size_of_object) = unat size_of_object div 4"
    by (simp only: unat_drop_bit_eq) (simp add: drop_bit_eq_div)
  ultimately have "unat (object_slots size_of_object) = unat size_of_object div 4 mod 2 ^ 32"
    by (simp only: object_slots_def unsigned_ucast_eq take_bit_eq_mod u) simp
  then show ?thesis using assms by simp
qed

section \<open>What is assumed of the graph\<close>

text \<open>
  The locations that a register mask represents are the ones below some bound. An allocation that the escape analysis made
  stack allocateable has a constant size of at most \<open>StackAllocSizeLimit\<close> bytes, a multiple of the alignment of objects.
\<close>

definition mask_laws :: "'g macro_ops \<Rightarrow> bool" where
  "mask_laws X \<longleftrightarrow> (\<exists>B \<le> 2 ^ 30. \<forall>a. can_represent X a \<longleftrightarrow> unat a < B)"

definition size_laws :: "'g macro_ops \<Rightarrow> bool" where
  "size_laws X \<longleftrightarrow> (\<forall>g n. a_stack_allocateable (info X g n) \<and> a_size (info X g n) \<noteq> - 1 \<longrightarrow>
     0 < unat (a_size (info X g n)) \<and> unat (a_size (info X g n)) \<le> 256 \<and> 8 dvd unat (a_size (info X g n)))"

definition slots :: "alloc_info \<Rightarrow> nat" where
  "slots A = unat (a_size A) div 4"

lemma can_stack_allocateD:
  assumes "size_laws X" "can_stack_allocate X (info X g n)"
  shows "unat (object_slots (a_size (info X g n))) = slots (info X g n)" "0 < slots (info X g n)" "slots (info X g n) \<le> 64"
    "even (slots (info X g n))" "a_stack_allocateable (info X g n)"
proof -
  have l: "0 < unat (a_size (info X g n))" "unat (a_size (info X g n)) \<le> 256" "8 dvd unat (a_size (info X g n))"
    using assms by (simp_all add: size_laws_def can_stack_allocate_def)
  then show "unat (object_slots (a_size (info X g n))) = slots (info X g n)" "slots (info X g n) \<le> 64"
    using object_slots_small by (simp_all add: slots_def)
  obtain k where "unat (a_size (info X g n)) = 8 * k" using l(3) by (auto elim: dvdE)
  then show "0 < slots (info X g n)" "even (slots (info X g n))" using l(1) by (simp_all add: slots_def)
  show "a_stack_allocateable (info X g n)" using assms(2) by (simp add: can_stack_allocate_def)
qed

lemma next_slot:
  assumes "mask_laws X" "unat num = k" "0 < k" "k \<le> 64" "unat (fixed_slots S) < 2 ^ 30"
  shows "next_stack_allocated_object X num S =
    (if stack_allocation_location_representable X (fixed_slots S + num) then (fixed_slots S, S\<lparr>fixed_slots := fixed_slots S + num\<rparr>) else (- 1, S))"
    and "unat (fixed_slots S + num) = unat (fixed_slots S) + k"
    and "stack_allocation_location_representable X (fixed_slots S + num) \<Longrightarrow> unat (fixed_slots S) + k < 2 ^ 30"
    and "\<not> fixed_slots S <s 0" "(- 1 :: jint) <s 0"
proof -
  show u: "unat (fixed_slots S + num) = unat (fixed_slots S) + k" using assms by (simp add: unat_add_small)
  have "fixed_slots S <s fixed_slots S + num" using assms u by (simp add: sless_small)
  then show "next_stack_allocated_object X num S =
    (if stack_allocation_location_representable X (fixed_slots S + num) then (fixed_slots S, S\<lparr>fixed_slots := fixed_slots S + num\<rparr>) else (- 1, S))"
    by (simp add: next_stack_allocated_object_def Let_def)
  have u4: "unat (fixed_slots S + num + STACK_REG_BUFFER) = unat (fixed_slots S) + k + 4"
    using assms u by (subst unat_add_small) (simp_all add: STACK_REG_BUFFER_def)
  obtain B where B: "B \<le> 2 ^ 30" "\<And>a. can_represent X a \<longleftrightarrow> unat a < B" using assms(1) by (auto simp: mask_laws_def)
  show "unat (fixed_slots S) + k < 2 ^ 30" if "stack_allocation_location_representable X (fixed_slots S + num)"
    using that B u4 by (simp add: stack_allocation_location_representable_def)
  show "\<not> fixed_slots S <s 0" "(- 1 :: jint) <s 0" using assms(5) by (simp_all add: word_sless_alt sint_small)
qed


section \<open>One expansion\<close>

definition fits :: "'g macro_ops \<Rightarrow> node \<Rightarrow> 'g macro_state \<Rightarrow> bool" where
  "fits X n S \<longleftrightarrow> can_stack_allocate X (info X (graph S) n) \<and>
     \<not> (fail_stack_allocation_with_references S \<and> a_referenced (info X (graph S) n)) \<and>
     stack_allocation_location_representable X (fixed_slots S + object_slots (a_size (info X (graph S) n)))"

lemma stack_allocation_cases:
  assumes laws: "mask_laws X" "size_laws X" and "unat (fixed_slots S) < 2 ^ 30"
  shows "stack_allocation X n S =
    (if fits X n S then
       let A = info X (graph S) n; (unused, g) = process_write_barriers X n (graph S)
       in (True, S\<lparr>fixed_slots := fixed_slots S + object_slots (a_size A),
                  graph := (if unused then yank_alloc_node X n g else place_on_stack X n (fixed_slots S) g),
                  expanded := expanded S @ [(n, A, if unused then Yanked else On_Stack (fixed_slots S))]\<rparr>)
     else (False, S))"
proof (cases "can_stack_allocate X (info X (graph S) n)")
  case True
  note c = can_stack_allocateD [OF laws(2) True]
  note ns = next_slot [OF laws(1) c(1-3) assms(3)]
  show ?thesis
    using True ns(4,5) by (auto simp: stack_allocation_def Let_def fits_def ns(1) split_beta)
qed (simp add: stack_allocation_def fits_def Let_def)

lemma expand_one_result:
  assumes laws: "mask_laws X" "size_laws X" and b: "unat (fixed_slots S) < 2 ^ 30" and A: "A = info X (graph S) n"
  obtains (stack) f where "fits X n S" "expanded (expand_one X n S) = expanded S @ [(n, A, f)]" "f = On_Stack (fixed_slots S) \<or> f = Yanked"
      "unat (fixed_slots (expand_one X n S)) = unat (fixed_slots S) + slots A" "unat (fixed_slots S) + slots A < 2 ^ 30"
      "fail_stack_allocation_with_references (expand_one X n S) = fail_stack_allocation_with_references S" "even (slots A)"
    | (heap) "\<not> fits X n S" "expanded (expand_one X n S) = expanded S @ [(n, A, On_Heap)]" "fixed_slots (expand_one X n S) = fixed_slots S"
      "fail_stack_allocation_with_references (expand_one X n S) = fail_stack_allocation_with_references S"
proof (cases "fits X n S")
  case True
  then have can: "can_stack_allocate X (info X (graph S) n)" by (simp add: fits_def)
  note c = can_stack_allocateD [OF laws(2) can]
  note ns = next_slot [OF laws(1) c(1-3) b]
  have "stack_allocation_location_representable X (fixed_slots S + object_slots (a_size (info X (graph S) n)))" using True by (simp add: fits_def)
  then show ?thesis
    using True ns(2,3) c(4)
    by (intro stack [of "if fst (process_write_barriers X n (graph S)) then Yanked else On_Stack (fixed_slots S)"])
      (simp_all add: expand_one_def stack_allocation_cases [OF laws b] Let_def split_beta A)
next
  case False
  then show ?thesis by (intro heap) (simp_all add: expand_one_def stack_allocation_cases [OF laws b] A)
qed

lemma expand_loop_inv:
  assumes "expand_loop X S = Some r" "I S" and "\<And>S g. I S \<Longrightarrow> I (S\<lparr>graph := g\<rparr>)" and "\<And>S n. I S \<Longrightarrow> I (expand_one X n S)"
  shows "I (snd r)"
proof -
  have "I S \<longrightarrow> I (snd r)"
  proof (rule expand_loop.raw_induct [OF _ assms(1), where P = "\<lambda>X' S r. X' = X \<longrightarrow> I S \<longrightarrow> I (snd r)", THEN mp, OF _ refl])
    fix loop :: "'a macro_ops \<Rightarrow> 'a macro_state \<Rightarrow> (bool \<times> 'a macro_state) option" and X' S r
    assume ih: "\<And>X' S r. loop X' S = Some r \<Longrightarrow> X' = X \<longrightarrow> I S \<longrightarrow> I (snd r)"
      and eq: "(if macros X' (graph S) = [] then Some (False, S)
        else let n = last (macros X' (graph S))
          in if a_dead (info X' (graph S) n) then loop X' (S\<lparr>graph := remove_macro_node X' n (graph S)\<rparr>)
             else if check_node_count X' (graph S) then Some (True, S)
             else let S1 = expand_one X' n S
               in if \<not> length (macros X' (graph S1)) < length (macros X' (graph S)) then None
                  else if failing X' (graph S1) then Some (True, S1)
                  else let S2 = S1\<lparr>graph := optimize X' (graph S1)\<rparr>
                    in if failing X' (graph S2) then Some (True, S2) else loop X' S2) = Some r"
    show "X' = X \<longrightarrow> I S \<longrightarrow> I (snd r)"
      using eq ih assms(3,4) by (auto simp: Let_def split: if_splits)
  qed
  then show ?thesis using assms(2) by simp
qed

section \<open>The objects of a frame do not overlap\<close>

definition in_frame :: "nat \<Rightarrow> nat \<Rightarrow> node \<times> alloc_info \<times> fate \<Rightarrow> bool" where
  "in_frame base limit e = (case e of (n, A, f) \<Rightarrow> (case f of
     On_Stack s \<Rightarrow> base \<le> unat s \<and> unat s + slots A \<le> limit \<and> (even base \<longrightarrow> even (unat s)) | _ \<Rightarrow> True))"

definition below :: "node \<times> alloc_info \<times> fate \<Rightarrow> node \<times> alloc_info \<times> fate \<Rightarrow> bool" where
  "below e e' = (case (e, e') of ((n, A, On_Stack s), (n', A', On_Stack s')) \<Rightarrow> unat s + slots A \<le> unat s' | _ \<Rightarrow> True)"

definition layout :: "nat \<Rightarrow> 'g macro_state \<Rightarrow> bool" where
  "layout base S \<longleftrightarrow> base \<le> unat (fixed_slots S) \<and> unat (fixed_slots S) < 2 ^ 30 \<and> (even base \<longrightarrow> even (unat (fixed_slots S))) \<and>
     (\<forall>e \<in> set (expanded S). in_frame base (unat (fixed_slots S)) e) \<and> sorted_wrt below (expanded S)"

lemma layout_graph [simp]: "layout base (S\<lparr>graph := g\<rparr>) = layout base S"
  by (simp add: layout_def)

lemma layout_step:
  assumes laws: "mask_laws X" "size_laws X" and l: "layout base S"
  shows "layout base (expand_one X n S)"
proof -
  have b: "unat (fixed_slots S) < 2 ^ 30" using l by (simp add: layout_def)
  show ?thesis
  proof (rule expand_one_result [OF laws b refl, of n])
    fix f
    let ?A = "info X (graph S) n"
    assume e: "expanded (expand_one X n S) = expanded S @ [(n, ?A, f)]" "f = On_Stack (fixed_slots S) \<or> f = Yanked"
      "unat (fixed_slots (expand_one X n S)) = unat (fixed_slots S) + slots ?A" "unat (fixed_slots S) + slots ?A < 2 ^ 30" "even (slots ?A)"
    have "in_frame base (unat (fixed_slots S) + slots ?A) x" if "x \<in> set (expanded S)" for x
      using l that by (fastforce simp: layout_def in_frame_def split: prod.splits fate.splits)
    moreover have "below x (n, ?A, f)" if "x \<in> set (expanded S)" for x
      using l that e(2) by (fastforce simp: layout_def in_frame_def below_def split: prod.splits fate.splits)
    ultimately show ?thesis using l e by (auto simp: layout_def sorted_wrt_append in_frame_def)
  next
    assume "expanded (expand_one X n S) = expanded S @ [(n, info X (graph S) n, On_Heap)]" "fixed_slots (expand_one X n S) = fixed_slots S"
    moreover have "below x (n, A, On_Heap)" for x A by (simp add: below_def split: prod.split fate.split)
    ultimately show ?thesis using l by (simp add: layout_def sorted_wrt_append in_frame_def)
  qed
qed


lemma estimate_one_keeps:
  "graph (estimate_stack_allocation_size X n S) = graph S" "fixed_slots (estimate_stack_allocation_size X n S) = fixed_slots S"
  "expanded (estimate_stack_allocation_size X n S) = expanded S"
  "fail_stack_allocation_with_references S \<Longrightarrow> fail_stack_allocation_with_references (estimate_stack_allocation_size X n S)"
  by (simp_all add: estimate_stack_allocation_size_def Let_def)

lemma estimate_fold_keeps:
  "graph (fold (estimate_stack_allocation_size X) ns S) = graph S" "fixed_slots (fold (estimate_stack_allocation_size X) ns S) = fixed_slots S"
  "expanded (fold (estimate_stack_allocation_size X) ns S) = expanded S"
  by (induction ns arbitrary: S) (simp_all add: estimate_one_keeps)

lemma estimate_all_keeps:
  "graph (estimate_all X S) = graph S" "fixed_slots (estimate_all X S) = fixed_slots S" "expanded (estimate_all X S) = expanded S"
  by (simp_all add: estimate_all_def Let_def estimate_fold_keeps)

text \<open>
  C15: the objects that macro expansion puts on the stack never overlap. However the graph is rewritten and wherever the
  expansion stops, every object lies within the fixed slots that the frame has in the end and above the ones it had
  before, with all of its size; of two objects, the one placed first ends before the other starts; and if the frame
  started at an even slot, every object is aligned to two slots, eight bytes.
\<close>

theorem stack_slots_disjoint:
  assumes "mask_laws X" "size_laws X" "expand_allocations X S = Some (stopped, S')" "expanded S = []" "unat (fixed_slots S) < 2 ^ 30"
  shows "(\<forall>n A s. (n, A, On_Stack s) \<in> set (expanded S') \<longrightarrow>
      unat (fixed_slots S) \<le> unat s \<and> unat s + slots A \<le> unat (fixed_slots S') \<and> unat (fixed_slots S') < 2 ^ 30 \<and>
      (even (unat (fixed_slots S)) \<longrightarrow> even (unat s))) \<and>
    (\<forall>i j n A s m B t. i < j \<and> j < length (expanded S') \<and> expanded S' ! i = (n, A, On_Stack s) \<and> expanded S' ! j = (m, B, On_Stack t) \<longrightarrow>
      unat s + slots A \<le> unat t)"
proof -
  let ?base = "unat (fixed_slots S)"
  have "layout ?base (estimate_all X S)" using assms(4,5) by (simp add: layout_def estimate_all_keeps)
  then have "layout ?base (snd (stopped, S'))"
    by (rule expand_loop_inv [OF assms(3) [unfolded expand_allocations_def]]) (simp_all add: layout_step [OF assms(1,2)])
  then have l: "\<forall>e \<in> set (expanded S'). in_frame ?base (unat (fixed_slots S')) e" "sorted_wrt below (expanded S')" "unat (fixed_slots S') < 2 ^ 30"
    by (simp_all add: layout_def)
  show ?thesis
    using l(1,3) sorted_wrt_nth_less [OF l(2)] by (fastforce simp: in_frame_def below_def)
qed

section \<open>All or none\<close>

text \<open>
  An allocation keeps its size and what the escape analysis said of it while the graph is rewritten; it may lose its result.
  A step on a node takes it off the list of macro nodes, and no step adds one.
\<close>

definition weakened :: "alloc_info \<Rightarrow> alloc_info \<Rightarrow> bool" where
  "weakened A B \<longleftrightarrow> a_size B = a_size A \<and> a_stack_allocateable B = a_stack_allocateable A \<and>
     a_scalar_replaceable B = a_scalar_replaceable A \<and> a_referenced B = a_referenced A \<and> (a_result B \<longrightarrow> a_result A)"

definition rewritten :: "'g macro_ops \<Rightarrow> node set \<Rightarrow> 'g \<Rightarrow> 'g \<Rightarrow> bool" where
  "rewritten X gone g g' \<longleftrightarrow> distinct (macros X g') \<and> set (macros X g') \<subseteq> set (macros X g) - gone \<and>
     (\<forall>n \<in> set (macros X g'). weakened (info X g n) (info X g' n))"

definition graph_laws :: "'g macro_ops \<Rightarrow> bool" where
  "graph_laws X \<longleftrightarrow> (\<forall>g n s. distinct (macros X g) \<longrightarrow>
     rewritten X {n} g (remove_macro_node X n g) \<and> rewritten X {} g (snd (process_write_barriers X n g)) \<and> rewritten X {n} g (yank_alloc_node X n g) \<and>
     rewritten X {n} g (place_on_stack X n s g) \<and> rewritten X {n} g (expand_on_heap X n g) \<and> rewritten X {} g (optimize X g))"

lemma rewritten_trans: "rewritten X G g g' \<Longrightarrow> rewritten X G' g' g'' \<Longrightarrow> rewritten X (G \<union> G') g g''"
  by (fastforce simp: rewritten_def weakened_def)

lemma expand_one_rewritten:
  assumes "graph_laws X" "mask_laws X" "size_laws X" "unat (fixed_slots S) < 2 ^ 30" "distinct (macros X (graph S))"
  shows "rewritten X {n} (graph S) (graph (expand_one X n S))"
proof -
  let ?g = "snd (process_write_barriers X n (graph S))"
  have p: "rewritten X {} (graph S) ?g" and h: "rewritten X {n} (graph S) (expand_on_heap X n (graph S))" using assms(1,5) by (simp_all add: graph_laws_def)
  have d: "distinct (macros X ?g)" using p by (simp add: rewritten_def)
  then have "rewritten X {n} ?g (yank_alloc_node X n ?g)" "rewritten X {n} ?g (place_on_stack X n s ?g)" for s
    using assms(1) by (simp_all add: graph_laws_def)
  then have "rewritten X {n} (graph S) (yank_alloc_node X n ?g)" "rewritten X {n} (graph S) (place_on_stack X n s ?g)" for s
    using rewritten_trans [OF p] by force+
  then show ?thesis
    using h by (simp add: expand_one_def stack_allocation_cases [OF assms(2-4)] Let_def split_beta)
qed

text \<open>The slots still wanted.\<close>

definition wanted :: "'g macro_ops \<Rightarrow> 'g \<Rightarrow> nat" where
  "wanted X g = (\<Sum>n \<in> set (macros X g). if a_stack_allocateable (info X g n) then slots (info X g n) else 0)"

lemma wanted_rewritten:
  assumes "rewritten X {n} g g'" "n \<in> set (macros X g)" "a_stack_allocateable (info X g n)"
  shows "slots (info X g n) + wanted X g' \<le> wanted X g"
proof -
  let ?f = "\<lambda>g n. if a_stack_allocateable (info X g n) then slots (info X g n) else 0"
  have "wanted X g' = (\<Sum>m \<in> set (macros X g'). ?f g m)"
    unfolding wanted_def using assms(1) by (intro sum.cong) (auto simp: rewritten_def weakened_def slots_def)
  also have "\<dots> \<le> (\<Sum>m \<in> set (macros X g) - {n}. ?f g m)" using assms(1) by (intro sum_mono2) (auto simp: rewritten_def)
  finally show ?thesis
    using assms(2,3) sum.remove [of "set (macros X g)" n "?f g"] by (simp add: wanted_def)
qed

lemma wanted_mono: "rewritten X G g g' \<Longrightarrow> wanted X g' \<le> wanted X g"
proof -
  let ?f = "\<lambda>g n. if a_stack_allocateable (info X g n) then slots (info X g n) else 0"
  assume r: "rewritten X G g g'"
  have "wanted X g' = (\<Sum>m \<in> set (macros X g'). ?f g m)"
    unfolding wanted_def using r by (intro sum.cong) (auto simp: rewritten_def weakened_def slots_def)
  also have "\<dots> \<le> wanted X g" unfolding wanted_def using r by (intro sum_mono2) (auto simp: rewritten_def)
  finally show ?thesis .
qed


definition fair :: "'g macro_ops \<Rightarrow> bool \<Rightarrow> node \<times> alloc_info \<times> fate \<Rightarrow> bool" where
  "fair X failed e = (case e of (n, A, f) \<Rightarrow>
     (failed \<and> a_referenced A \<longrightarrow> f = On_Heap) \<and> (\<not> failed \<and> can_stack_allocate X A \<longrightarrow> f \<noteq> On_Heap))"

definition planned :: "'g macro_ops \<Rightarrow> nat \<Rightarrow> bool \<Rightarrow> 'g macro_state \<Rightarrow> bool" where
  "planned X T failed S \<longleftrightarrow> unat (fixed_slots S) < 2 ^ 30 \<and> distinct (macros X (graph S)) \<and>
     fail_stack_allocation_with_references S = failed \<and> (\<not> failed \<longrightarrow> unat (fixed_slots S) + wanted X (graph S) \<le> T) \<and>
     (\<forall>e \<in> set (expanded S). fair X failed e)"

lemma representable_below:
  assumes "mask_laws X" "stack_allocation_location_representable X t" "unat t + 4 < 2 ^ 32" "unat a \<le> unat t"
  shows "stack_allocation_location_representable X a"
proof -
  obtain B where B: "\<And>a. can_represent X a \<longleftrightarrow> unat a < B" using assms(1) by (auto simp: mask_laws_def)
  have "unat (t + STACK_REG_BUFFER) = unat t + 4" "unat (a + STACK_REG_BUFFER) = unat a + 4"
    using assms(3,4) by (subst unat_add_small; simp add: STACK_REG_BUFFER_def)+
  then show ?thesis using assms(2,4) B by (simp add: stack_allocation_location_representable_def)
qed

lemma planned_step:
  assumes laws: "mask_laws X" "size_laws X" "graph_laws X" and p: "planned X (unat t) failed S"
    and t: "\<not> failed \<longrightarrow> stack_allocation_location_representable X t \<and> unat t + 4 < 2 ^ 32" and n: "n \<in> set (macros X (graph S))"
  shows "planned X (unat t) failed (expand_one X n S)"
proof -
  let ?A = "info X (graph S) n"
  have b: "unat (fixed_slots S) < 2 ^ 30" and d: "distinct (macros X (graph S))" and f: "fail_stack_allocation_with_references S = failed"
    using p by (simp_all add: planned_def)
  note rw = expand_one_rewritten [OF laws(3,1,2) b d, of n]
  have d': "distinct (macros X (graph (expand_one X n S)))" using rw by (simp add: rewritten_def)
  show ?thesis
  proof (rule expand_one_result [OF laws(1,2) b refl, of n])
    fix fate
    assume s: "fits X n S" "expanded (expand_one X n S) = expanded S @ [(n, ?A, fate)]" "fate = On_Stack (fixed_slots S) \<or> fate = Yanked"
      "unat (fixed_slots (expand_one X n S)) = unat (fixed_slots S) + slots ?A" "unat (fixed_slots S) + slots ?A < 2 ^ 30"
      "fail_stack_allocation_with_references (expand_one X n S) = fail_stack_allocation_with_references S"
    have "a_stack_allocateable ?A" using s(1) by (simp add: fits_def can_stack_allocate_def)
    then have "slots ?A + wanted X (graph (expand_one X n S)) \<le> wanted X (graph S)" by (rule wanted_rewritten [OF rw n])
    moreover have "fair X failed (n, ?A, fate)" using s(1,3) f by (auto simp: fair_def fits_def)
    ultimately show ?thesis using p s d' by (auto simp: planned_def)
  next
    assume h: "\<not> fits X n S" "expanded (expand_one X n S) = expanded S @ [(n, ?A, On_Heap)]" "fixed_slots (expand_one X n S) = fixed_slots S"
      "fail_stack_allocation_with_references (expand_one X n S) = fail_stack_allocation_with_references S"
    have "\<not> can_stack_allocate X ?A" if nf: "\<not> failed"
    proof
      assume c: "can_stack_allocate X ?A"
      note cd = can_stack_allocateD [OF laws(2) c]
      have "slots ?A \<le> wanted X (graph S)"
        unfolding wanted_def using n cd(5) member_le_sum [of n "set (macros X (graph S))" "\<lambda>n. if a_stack_allocateable (info X (graph S) n) then slots (info X (graph S) n) else 0"]
        by simp
      then have "unat (fixed_slots S + object_slots (a_size ?A)) \<le> unat t"
        using p nf cd b by (subst unat_add_small) (simp_all add: planned_def)
      then have "stack_allocation_location_representable X (fixed_slots S + object_slots (a_size ?A))"
        using t nf by (rule_tac representable_below [OF laws(1), of t]) simp_all
      then show False using nf h(1) c f by (simp add: fits_def)
    qed
    moreover have "wanted X (graph (expand_one X n S)) \<le> wanted X (graph S)" by (rule wanted_mono [OF rw])
    ultimately show ?thesis using p h d' by (auto simp: planned_def fair_def)
  qed
qed

lemma planned_graph:
  assumes "planned X T failed S" "rewritten X G (graph S) g"
  shows "planned X T failed (S\<lparr>graph := g\<rparr>)"
  using assms wanted_mono [OF assms(2)] by (auto simp: planned_def rewritten_def)

lemma rewritten_shorter:
  assumes "distinct (macros X g)" "rewritten X {n} g g'" "n \<in> set (macros X g)"
  shows "length (macros X g') < length (macros X g)"
proof -
  have "card (set (macros X g')) \<le> card (set (macros X g) - {n})" using assms(2) by (intro card_mono) (auto simp: rewritten_def)
  also have "\<dots> < card (set (macros X g))" using assms(3) by (meson List.finite_set card_Diff1_less)
  finally show ?thesis using assms(1,2) by (simp add: rewritten_def distinct_card)
qed

lemma expand_loop_planned:
  assumes laws: "mask_laws X" "size_laws X" "graph_laws X"
    and t: "\<not> failed \<longrightarrow> stack_allocation_location_representable X t \<and> unat t + 4 < 2 ^ 32" and p: "planned X (unat t) failed S"
  shows "\<exists>r. expand_loop X S = Some r \<and> planned X (unat t) failed (snd r)"
  using p
proof (induction "length (macros X (graph S))" arbitrary: S rule: less_induct)
  case less
  show ?case
  proof (cases "macros X (graph S) = []")
    case True
    then show ?thesis using less.prems by (subst expand_loop.simps) simp
  next
    case False
    define n where "n = last (macros X (graph S))"
    have n: "n \<in> set (macros X (graph S))" using False by (simp add: n_def)
    have d: "distinct (macros X (graph S))" and b: "unat (fixed_slots S) < 2 ^ 30" using less.prems by (simp_all add: planned_def)
    have rm: "rewritten X {n} (graph S) (remove_macro_node X n (graph S))" using laws(3) d by (simp add: graph_laws_def)
    note ih_dead = less.hyps [of "S\<lparr>graph := remove_macro_node X n (graph S)\<rparr>"]
    have dead: "\<exists>r. expand_loop X (S\<lparr>graph := remove_macro_node X n (graph S)\<rparr>) = Some r \<and> planned X (unat t) failed (snd r)"
      by (rule ih_dead) (simp_all add: rewritten_shorter [OF d rm n] planned_graph [OF less.prems rm])
    define S1 where "S1 = expand_one X n S"
    have rw: "rewritten X {n} (graph S) (graph S1)" unfolding S1_def by (rule expand_one_rewritten [OF laws(3,1,2) b d])
    note len = rewritten_shorter [OF d rw n]
    have p1: "planned X (unat t) failed S1" unfolding S1_def by (rule planned_step [OF laws less.prems t n])
    have d1: "distinct (macros X (graph S1))" using p1 by (simp add: planned_def)
    have opt: "rewritten X {} (graph S1) (optimize X (graph S1))" using laws(3) d1 by (simp add: graph_laws_def)
    have p2: "planned X (unat t) failed (S1\<lparr>graph := optimize X (graph S1)\<rparr>)" by (rule planned_graph [OF p1 opt])
    have "set (macros X (optimize X (graph S1))) \<subseteq> set (macros X (graph S1))" "distinct (macros X (optimize X (graph S1)))"
      using opt by (auto simp: rewritten_def)
    then have "length (macros X (optimize X (graph S1))) \<le> length (macros X (graph S1))"
      using d1 by (metis card_mono distinct_card List.finite_set)
    then have "\<exists>r. expand_loop X (S1\<lparr>graph := optimize X (graph S1)\<rparr>) = Some r \<and> planned X (unat t) failed (snd r)"
      using len by (intro less.hyps p2) simp
    then show ?thesis
      using False dead p1 p2 len less.prems
      by (subst (1) expand_loop.simps) (auto simp add: n_def [symmetric] S1_def [symmetric] Let_def)
  qed
qed


lemma estimate_fail_mono:
  "fail_stack_allocation_with_references S \<Longrightarrow> fail_stack_allocation_with_references (fold (estimate_stack_allocation_size X) ns S)"
  by (induction ns arbitrary: S) (simp_all add: estimate_one_keeps)

lemma estimate_fold:
  assumes "size_laws X" "\<not> fail_stack_allocation_with_references (fold (estimate_stack_allocation_size X) ns S)"
    and "unat (stack_allocated_slots S) + 64 * length ns < 2 ^ 31"
  shows "unat (stack_allocated_slots (fold (estimate_stack_allocation_size X) ns S)) = unat (stack_allocated_slots S) +
      sum_list (map (\<lambda>n. if a_stack_allocateable (info X (graph S) n) then slots (info X (graph S) n) else 0) ns) \<and>
    sum_list (map (\<lambda>n. if a_stack_allocateable (info X (graph S) n) then slots (info X (graph S) n) else 0) ns) \<le> 64 * length ns"
  using assms(2,3)
proof (induction ns arbitrary: S)
  case (Cons n ns)
  let ?S1 = "estimate_stack_allocation_size X n S" and ?A = "info X (graph S) n"
  have nf: "\<not> fail_stack_allocation_with_references ?S1" using estimate_fail_mono [of ?S1] Cons.prems(1) by auto
  have g: "graph ?S1 = graph S" by (rule estimate_one_keeps)
  show ?case
  proof (cases "a_stack_allocateable ?A")
    case True
    then have can: "can_stack_allocate X ?A" using nf by (auto simp: estimate_stack_allocation_size_def Let_def split: if_splits)
    note c = can_stack_allocateD [OF assms(1) can]
    have "stack_allocated_slots ?S1 = stack_allocated_slots S + object_slots (a_size ?A)"
      using True can by (simp add: estimate_stack_allocation_size_def Let_def)
    then have "unat (stack_allocated_slots ?S1) = unat (stack_allocated_slots S) + slots ?A"
      using c Cons.prems(2) by (simp add: unat_add_small)
    moreover from this have "unat (stack_allocated_slots ?S1) + 64 * length ns < 2 ^ 31" using Cons.prems(2) c(3) by simp
    ultimately show ?thesis using Cons.IH [of ?S1] Cons.prems(1) True c(3) unfolding g by simp
  next
    case False
    then have "?S1 = S" using nf by (auto simp: estimate_stack_allocation_size_def Let_def split: if_splits)
    then show ?thesis using Cons.IH [of S] Cons.prems False by simp
  qed
qed simp

text \<open>
  C11: stack allocation is all or none where objects refer to each other. The expansion ends. If the estimate found that
  some object that the escape analysis counted on cannot go on the stack (or that all of them together do not fit, or that
  an object planned for scalar replacement is left), no allocation that is referenced from another one goes on the stack.
  Otherwise every allocation that can be on the stack is put there (or is removed as unused): none is left over for lack
  of space, so no object on the heap is referenced as if it were on the stack.
\<close>

theorem stack_allocation_all_or_none:
  assumes laws: "mask_laws X" "size_laws X" "graph_laws X"
    and S: "distinct (macros X (graph S))" "expanded S = []" "stack_allocated_slots S = 0" "unat (fixed_slots S) < 2 ^ 30"
      "length (macros X (graph S)) < 2 ^ 20"
  shows "\<exists>stopped S'. expand_allocations X S = Some (stopped, S') \<and>
    (\<forall>(n, A, f) \<in> set (expanded S').
       if fail_stack_allocation_with_references (estimate_all X S) then a_referenced A \<longrightarrow> f = On_Heap
       else can_stack_allocate X A \<longrightarrow> f \<noteq> On_Heap)"
proof -
  let ?S1 = "fold (estimate_stack_allocation_size X) (rev (macros X (graph S))) S" and ?E = "estimate_all X S"
  let ?failed = "fail_stack_allocation_with_references ?E"
  define t where "t = fixed_slots ?S1 + stack_allocated_slots ?S1"
  have "stack_allocation_location_representable X t \<and> unat t + 4 < 2 ^ 32 \<and> unat (fixed_slots S) + wanted X (graph S) \<le> unat t"
    if nf: "\<not> ?failed"
  proof -
    have rep: "stack_allocation_location_representable X t" and nf1: "\<not> fail_stack_allocation_with_references ?S1"
      using nf by (auto simp: estimate_all_def Let_def t_def split: if_splits)
    have "unat (stack_allocated_slots ?S1) = wanted X (graph S) \<and> wanted X (graph S) \<le> 64 * length (macros X (graph S))"
      using estimate_fold [OF laws(2) nf1] S(1,3,5)
      by (simp add: wanted_def sum_list_distinct_conv_sum_set)
    note sw = this
    then have "unat t = unat (fixed_slots S) + wanted X (graph S)"
      using S(4,5) unfolding t_def by (subst unat_add_small) (simp_all add: estimate_fold_keeps)
    then show ?thesis using sw rep S(4,5) by simp
  qed
  then have t: "\<not> ?failed \<longrightarrow> stack_allocation_location_representable X t \<and> unat t + 4 < 2 ^ 32"
    and w: "\<not> ?failed \<longrightarrow> unat (fixed_slots S) + wanted X (graph S) \<le> unat t" by blast+
  have "planned X (unat t) ?failed ?E" using S w by (simp add: planned_def estimate_all_keeps)
  then obtain r where r: "expand_loop X ?E = Some r" "planned X (unat t) ?failed (snd r)"
    using expand_loop_planned [OF laws t] by blast
  then have "\<forall>e \<in> set (expanded (snd r)). fair X ?failed e" by (simp add: planned_def)
  then have "\<forall>(n, A, f) \<in> set (expanded (snd r)). if ?failed then a_referenced A \<longrightarrow> f = On_Heap else can_stack_allocate X A \<longrightarrow> f \<noteq> On_Heap"
    by (auto simp: fair_def)
  then show ?thesis using r(1) unfolding expand_allocations_def
    by (intro exI [of _ "fst r"] exI [of _ "snd r"] conjI) simp_all
qed


section \<open>A compilation\<close>

definition sample_info :: "node \<Rightarrow> alloc_info" where
  "sample_info n = \<lparr>a_result = True, a_size = (if n = 7 then 24 else 16), a_stack_allocateable = (n \<noteq> 9), a_scalar_replaceable = False,
     a_referenced = (n = 8), a_dead = False\<rparr>"

definition sample_macros :: "node list macro_ops" where
  "sample_macros = \<lparr>macros = id, info = (\<lambda>g. sample_info), remove_macro_node = (\<lambda>n g. removeAll n g), process_write_barriers = (\<lambda>n g. (False, g)),
     yank_alloc_node = (\<lambda>n g. removeAll n g), place_on_stack = (\<lambda>n s g. removeAll n g), expand_on_heap = (\<lambda>n g. removeAll n g),
     optimize = id, check_node_count = (\<lambda>g. False), failing = (\<lambda>g. False), can_represent = (\<lambda>a. unat a < 500), do_stack_allocation = True\<rparr>"

definition sample_compile :: "node list macro_state" where
  "sample_compile = \<lparr>graph = [7, 8, 9], fixed_slots = 2, stack_allocated_slots = 0, fail_stack_allocation_with_references = False, expanded = []\<rparr>"

lemma sample_macro_laws: "mask_laws sample_macros" "size_laws sample_macros" "graph_laws sample_macros"
proof -
  show "mask_laws sample_macros" unfolding mask_laws_def by (rule exI [of _ 500]) (simp add: sample_macros_def)
  show "size_laws sample_macros" by (simp add: size_laws_def sample_macros_def sample_info_def)
  show "graph_laws sample_macros" by (auto simp: graph_laws_def rewritten_def weakened_def sample_macros_def distinct_removeAll)
qed

theorem stack_allocation_all_or_none_witness:
  "\<exists>stopped S'. expand_allocations sample_macros sample_compile = Some (stopped, S') \<and>
     (\<forall>(n, A, f) \<in> set (expanded S'). if fail_stack_allocation_with_references (estimate_all sample_macros sample_compile)
        then a_referenced A \<longrightarrow> f = On_Heap else can_stack_allocate sample_macros A \<longrightarrow> f \<noteq> On_Heap)"
  by (rule stack_allocation_all_or_none [OF sample_macro_laws]) (simp_all add: sample_macros_def sample_compile_def)

declare expand_loop.simps [code]

lemma sample_expansion:
  "map_option (\<lambda>(stopped, S). (stopped, map (\<lambda>(n, A, f). (n, f)) (expanded S), fixed_slots S)) (expand_allocations sample_macros sample_compile) =
     Some (False, [(9, On_Heap), (8, On_Stack 2), (7, On_Stack 6)], 12)"
  by code_simp

theorem stack_slots_disjoint_witness:
  "\<exists>S'. expand_allocations sample_macros sample_compile = Some (False, S') \<and> unat (fixed_slots S') = 12 \<and>
     (\<forall>n A s. (n, A, On_Stack s) \<in> set (expanded S') \<longrightarrow> unat s + slots A \<le> 12)"
proof -
  obtain S' where e: "expand_allocations sample_macros sample_compile = Some (False, S')" and f: "fixed_slots S' = 12"
    using sample_expansion by (auto split: prod.splits)
  then show ?thesis
    using stack_slots_disjoint [OF sample_macro_laws(1,2) e] by (auto simp: sample_compile_def f)
qed

section \<open>Sorting the macro nodes\<close>

lemma sort_step_inv:
  assumes "i < length ns" "a \<le> i" "\<forall>k < a. P (ns ! k)" "\<forall>k. a \<le> k \<and> k < i \<longrightarrow> \<not> P (ns ! k)" "sort_step P i (ns, a) = (ns', a')"
  shows "mset ns' = mset ns \<and> a' \<le> Suc i \<and> (\<forall>k < a'. P (ns' ! k)) \<and> (\<forall>k. a' \<le> k \<and> k < Suc i \<longrightarrow> \<not> P (ns' ! k))"
proof (cases "P (ns ! i)")
  case True
  have ns': "ns' = ns[a := ns ! i, i := ns ! a]" "a' = Suc a"
    using True assms(2,5) by (cases "i = a"; simp add: sort_step_def)+
  have "\<not> P (ns ! a)" if "a \<noteq> i" using assms(2,4) that by simp
  then show ?thesis
    unfolding ns' using assms(1-4) True by (auto simp: mset_swap nth_list_update less_Suc_eq)
next
  case False
  then have "ns' = ns" "a' = a" using assms(5) by (simp_all add: sort_step_def)
  then show ?thesis using assms(2-4) False by (auto simp: less_Suc_eq)
qed

lemma sort_macro_nodes_correct:
  "mset (sort_macro_nodes P ns) = mset ns \<and>
   (\<exists>a. (\<forall>k < a. P (sort_macro_nodes P ns ! k)) \<and> (\<forall>k. a \<le> k \<and> k < length ns \<longrightarrow> \<not> P (sort_macro_nodes P ns ! k)))"
proof -
  have "\<exists>ns' a. fold (sort_step P) [0..<i] (ns, 0) = (ns', a) \<and> mset ns' = mset ns \<and> a \<le> i \<and> (\<forall>k < a. P (ns' ! k)) \<and>
      (\<forall>k. a \<le> k \<and> k < i \<longrightarrow> \<not> P (ns' ! k))" if "i \<le> length ns" for i
    using that
  proof (induction i)
    case (Suc i)
    then obtain ns' a where h: "fold (sort_step P) [0..<i] (ns, 0) = (ns', a)" "mset ns' = mset ns" "a \<le> i" "\<forall>k < a. P (ns' ! k)"
      "\<forall>k. a \<le> k \<and> k < i \<longrightarrow> \<not> P (ns' ! k)" using Suc_leD by blast
    obtain ns'' a' where s: "sort_step P i (ns', a) = (ns'', a')" by fastforce
    have "i < length ns'" using Suc.prems h(2) by (metis Suc_le_eq mset_eq_length)
    from sort_step_inv [OF this h(3-5) s] h(1,2) s show ?case by simp
  qed simp
  from this [of "length ns"] obtain ns' a where "fold (sort_step P) [0..<length ns] (ns, 0) = (ns', a)" "mset ns' = mset ns"
    "\<forall>k < a. P (ns' ! k)" "\<forall>k. a \<le> k \<and> k < length ns \<longrightarrow> \<not> P (ns' ! k)" by blast
  then show ?thesis unfolding sort_macro_nodes_def by (intro conjI exI [of _ a]) simp_all
qed

end
