(* ===== verification/Macro_Walk.thy ===== *)
theory Macro_Walk
  imports First_Pass
begin

text \<open>
  The walks of macro expansion over the uses of a stack allocated object (\<open>macro.cpp\<close>): the write barriers that may be
  reached from it are taken from the barrier set, and every safepoint at which it may be live gets a description of it.
\<close>

section \<open>Queries\<close>

text \<open>What the walks ask of a node beyond what the construction of the connection graph asks.\<close>

record macro_queries =
  is_SafePoint :: "node \<Rightarrow> bool"
  has_jvms :: "node \<Rightarrow> bool"
  is_CastP2X :: "node \<Rightarrow> bool"
  is_ConstraintCast :: "node \<Rightarrow> bool"
  is_DecodeN :: "node \<Rightarrow> bool"
  replace_edges_in_range :: "node \<Rightarrow> node \<Rightarrow> nat \<Rightarrow> nat \<Rightarrow> node list \<Rightarrow> node list"

text \<open>The object that a field at an address belongs to. \<open>None\<close> is a failed assertion or a null input.\<close>

definition stored_into :: "build_ideal \<Rightarrow> node \<Rightarrow> node option" where
  "stored_into B memory =
     (case (input B memory addp_Base, input B memory addp_Address) of
        (Some base, Some address) \<Rightarrow>
          if is_top B (uncast B base) then
            (case skip_addp B address of
               None \<Rightarrow> None
             | Some b \<Rightarrow>
                 (case input B b 1 of
                    Some x \<Rightarrow> if Opcode B b = Op_CheckCastPP \<and> is_rawptr_type B b \<and> isa_oopptr B x then Some x else Some b
                  | None \<Rightarrow> Some b))
          else Some base
      | _ \<Rightarrow> None)"

definition stored_object :: "build_ideal \<Rightarrow> node \<Rightarrow> node list option" where
  "stored_object B st =
     (case input B st mem_Address of
        None \<Rightarrow> None
      | Some memory \<Rightarrow> if is_AddP B memory then map_option (\<lambda>b. [b]) (stored_into B memory) else Some [])"

section \<open>Walking the uses\<close>

text \<open>What the pushes of all uses of a node are, in order.\<close>

fun push_all :: "('a \<Rightarrow> 'b list option) \<Rightarrow> 'a list \<Rightarrow> 'b list option" where
  "push_all f [] = Some []"
| "push_all f (x # xs) = (case f x of None \<Rightarrow> None | Some ys \<Rightarrow> map_option ((@) ys) (push_all f xs))"

text \<open>
  The loop of both walks: \<open>push n\<close> are the nodes that the uses of \<open>n\<close> put on the worklist, \<open>act n\<close> what is done for them. The
  head of the list is the top of the worklist.
\<close>

partial_function (option) uses_walk :: "(node \<Rightarrow> node list option) \<Rightarrow> (node \<Rightarrow> 's \<Rightarrow> 's) \<Rightarrow> node list \<Rightarrow> node set \<Rightarrow> 's \<Rightarrow> 's option" where
  "uses_walk push act wl seen s =
     (case wl of
        [] \<Rightarrow> Some s
      | n # wl' \<Rightarrow>
          if n \<in> seen then uses_walk push act wl' seen s
          else (case push n of None \<Rightarrow> None
                | Some ps \<Rightarrow> uses_walk push act (rev ps @ wl') (insert n seen) (act n s)))"

section \<open>Write barriers\<close>


definition barrier_push :: "build_ideal \<Rightarrow> macro_queries \<Rightarrow> node \<Rightarrow> node \<Rightarrow> node list option" where
  "barrier_push B Q n u =
     (if is_CastP2X Q u then Some []
      else if is_Phi B u \<or> is_CheckCastPP B u \<or> is_EncodeP B u \<or> is_DecodeN Q u \<or> is_SafePoint Q u \<or> is_Proj B u \<or>
              (is_ConstraintCast Q u \<and> Opcode B u = Op_CastPP) then Some [u]
      else if is_Store B u \<and> Opcode B u = Op_StoreP then
        (if input B u mem_ValueIn \<noteq> Some n then Some [] else stored_object B u)
      else if is_AddP B u \<or> (is_Load B u \<and> Opcode B u = Op_LoadP) then Some [u]
      else Some [])"

definition barrier_pushes :: "build_ideal \<Rightarrow> macro_queries \<Rightarrow> node \<Rightarrow> node list option" where
  "barrier_pushes B Q n = push_all (barrier_push B Q n) (outs B n)"



section \<open>Safepoints\<close>

text \<open>A safepoint: its inputs, and the offsets of its youngest JVM state.\<close>

record safepoint =
  sf_inputs :: "node list"
  sf_debug_start :: nat
  sf_scloff :: nat
  sf_endoff :: nat

text \<open>A \<open>SafePointScalarObjectNode\<close>.\<close>

record scalar_object =
  so_first_index :: int
  so_n_fields :: int
  so_oop :: node
  so_alloc :: node
  so_stack_allocated :: bool

record sfpt_state =
  sfpts :: "node \<Rightarrow> safepoint"
  sobjs :: "node \<Rightarrow> scalar_object option"
  next_idx :: node
  safepoint_map :: "node \<Rightarrow> node option"
  found_non_direct_safepoint :: bool

text \<open>The allocation: its result and the fields that safepoints describe.\<close>

record sa_object =
  sa_alloc :: node
  sa_res :: node
  sa_nfields :: int
  sa_stack_oop :: node

definition adjust_safepoint_jvms :: "macro_queries \<Rightarrow> node \<Rightarrow> node \<Rightarrow> safepoint \<Rightarrow> safepoint" where
  "adjust_safepoint_jvms Q res sobj f =
     (let f1 = f\<lparr>sf_endoff := length (sf_inputs f)\<rparr>
      in f1\<lparr>sf_inputs := replace_edges_in_range Q res sobj (sf_debug_start f1) (sf_endoff f1) (sf_inputs f1)\<rparr>)"

definition new_sobj :: "sa_object \<Rightarrow> node \<Rightarrow> sfpt_state \<Rightarrow> sfpt_state" where
  "new_sobj A sfpt T =
     (let f = sfpts T sfpt; sobj = next_idx T;
          f' = f\<lparr>sf_inputs := sf_inputs f @ [sobj], sf_endoff := Suc (length (sf_inputs f))\<rparr>
      in T\<lparr>sfpts := (sfpts T)(sfpt := f'),
           sobjs := (sobjs T)(sobj \<mapsto> \<lparr>so_first_index = int (length (sf_inputs f)) - int (sf_scloff f), so_n_fields = sa_nfields A,
                                     so_oop = sa_stack_oop A, so_alloc = sa_alloc A, so_stack_allocated = True\<rparr>),
           next_idx := Suc sobj, safepoint_map := (safepoint_map T)(sfpt \<mapsto> sobj)\<rparr>)"

definition handle_safepoint_for_stack_allocation :: "macro_queries \<Rightarrow> sa_object \<Rightarrow> node \<Rightarrow> node \<Rightarrow> sfpt_state \<Rightarrow> sfpt_state option" where
  "handle_safepoint_for_stack_allocation Q A parent sfpt T =
     (if sa_nfields A < 0 then None
      else
        let T1 = (if safepoint_map T sfpt = None then new_sobj A sfpt T else T)
        in case safepoint_map T1 sfpt of
             None \<Rightarrow> None
           | Some sobj \<Rightarrow>
               Some (if parent = sa_res A then T1\<lparr>sfpts := (sfpts T1)(sfpt := adjust_safepoint_jvms Q (sa_res A) sobj (sfpts T1 sfpt))\<rparr> else T1))"

definition safepoint_push :: "build_ideal \<Rightarrow> macro_queries \<Rightarrow> node \<Rightarrow> node \<Rightarrow> node list option" where
  "safepoint_push B Q n u =
     (if is_SafePoint Q u then Some []
      else if is_Phi B u \<or> is_CheckCastPP B u \<or> is_EncodeP B u \<or> is_DecodeN Q u \<or> is_Proj B u \<or> is_CastP2X Q u \<or> is_MergeMem B u \<or>
              is_MemBar B u \<or> (is_ConstraintCast Q u \<and> Opcode B u = Op_CastPP) then Some [u]
      else if is_Store B u \<and> Opcode B u = Op_StoreP then
        (if input B u mem_ValueIn \<noteq> Some n then Some [u] else map_option ((#) u) (stored_object B u))
      else if is_AddP B u \<or> (is_Load B u \<and> Opcode B u = Op_LoadP) then Some [u]
      else Some [])"

definition safepoint_pushes :: "build_ideal \<Rightarrow> macro_queries \<Rightarrow> node \<Rightarrow> node list option" where
  "safepoint_pushes B Q n = push_all (safepoint_push B Q n) (outs B n)"

text \<open>The safepoints among the uses, as they are put on \<open>temp\<close>.\<close>

definition use_safepoints :: "build_ideal \<Rightarrow> macro_queries \<Rightarrow> node \<Rightarrow> node list" where
  "use_safepoints B Q n = filter (\<lambda>u. is_SafePoint Q u \<and> has_jvms Q u) (outs B n)"

definition handle_one :: "macro_queries \<Rightarrow> sa_object \<Rightarrow> node \<Rightarrow> node \<Rightarrow> sfpt_state option \<Rightarrow> sfpt_state option" where
  "handle_one Q A n sfpt t =
     (case t of None \<Rightarrow> None
      | Some T \<Rightarrow> handle_safepoint_for_stack_allocation Q A n sfpt
          (if sa_res A \<noteq> n then T\<lparr>found_non_direct_safepoint := True\<rparr> else T))"

definition handle_uses :: "build_ideal \<Rightarrow> macro_queries \<Rightarrow> sa_object \<Rightarrow> node \<Rightarrow> sfpt_state option \<Rightarrow> sfpt_state option" where
  "handle_uses B Q A n = fold (handle_one Q A n) (rev (use_safepoints B Q n))"

definition register_stack_allocated_object_with_safepoints ::
  "build_ideal \<Rightarrow> macro_queries \<Rightarrow> sa_object \<Rightarrow> (node \<Rightarrow> safepoint) \<Rightarrow> sfpt_state option" where
  "register_stack_allocated_object_with_safepoints B Q A fs =
     Option.bind (uses_walk (safepoint_pushes B Q) (handle_uses B Q A) [sa_res A] {}
        (Some \<lparr>sfpts = fs, sobjs = Map.empty, next_idx = unique B, safepoint_map = Map.empty, found_non_direct_safepoint = False\<rparr>)) id"


section \<open>What a walk visits\<close>

definition push_rel :: "(node \<Rightarrow> node list option) \<Rightarrow> (node \<times> node) set" where
  "push_rel push = {(n, p). \<exists>ps. push n = Some ps \<and> p \<in> set ps}"

definition push_closed :: "(node \<Rightarrow> node list option) \<Rightarrow> node set \<Rightarrow> bool" where
  "push_closed push U \<longleftrightarrow> (\<forall>n \<in> U. \<exists>ps. push n = Some ps \<and> set ps \<subseteq> U)"

lemma uses_walk_order:
  assumes "finite U" "push_closed push U" "set wl \<subseteq> U" "V \<subseteq> U"
  shows "\<exists>order. uses_walk push act wl V s = Some (fold act order s) \<and> distinct order \<and> set order \<inter> V = {} \<and>
    set wl \<subseteq> V \<union> set order \<and> (\<forall>n \<in> set order. \<forall>ps. push n = Some ps \<longrightarrow> set ps \<subseteq> V \<union> set order) \<and>
    set order \<subseteq> (push_rel push)\<^sup>* `` set wl"
  using assms(3,4)
proof (induction "card (U - V)" arbitrary: V wl s rule: less_induct)
  case (less V)
  show ?case
    using less.prems(1)
  proof (induction wl)
    case Nil
    then show ?case by (intro exI [of _ "[]"]) (simp add: uses_walk.simps)
  next
    case (Cons n wl')
    note step = uses_walk.simps [of push act "n # wl'" V s]
    show ?case
    proof (cases "n \<in> V")
      case True
      have "set wl' \<subseteq> U" using Cons.prems by simp
      from Cons.IH [OF this] show ?thesis using True by (elim exE, rule_tac x = order in exI) (auto simp: step)
    next
      case False
      have nU: "n \<in> U" using Cons.prems by simp
      obtain ps where ps: "push n = Some ps" "set ps \<subseteq> U" using assms(2) nU by (auto simp: push_closed_def)
      have lt: "card (U - insert n V) < card (U - V)" using False nU assms(1) by (intro psubset_card_mono) auto
      have sub: "set (rev ps @ wl') \<subseteq> U" "insert n V \<subseteq> U" using Cons.prems less.prems(2) ps(2) nU by auto
      obtain order where o: "uses_walk push act (rev ps @ wl') (insert n V) (act n s) = Some (fold act order (act n s))"
        "distinct order" "set order \<inter> insert n V = {}" "set (rev ps @ wl') \<subseteq> insert n V \<union> set order"
        "\<forall>m \<in> set order. \<forall>ps. push m = Some ps \<longrightarrow> set ps \<subseteq> insert n V \<union> set order"
        "set order \<subseteq> (push_rel push)\<^sup>* `` set (rev ps @ wl')"
        using less.hyps [OF lt sub] by blast
      have e: "(n, x) \<in> (push_rel push)\<^sup>*" if "p \<in> set ps" "(p, x) \<in> (push_rel push)\<^sup>*" for p x
        by (rule converse_rtrancl_into_rtrancl [OF _ that(2)]) (use ps that(1) in \<open>auto simp: push_rel_def\<close>)
      have r: "set order \<subseteq> (push_rel push)\<^sup>* `` set (n # wl')"
      proof
        fix x
        assume "x \<in> set order"
        then obtain p where "p \<in> set ps \<or> p \<in> set wl'" "(p, x) \<in> (push_rel push)\<^sup>*" using o(6) by auto
        then show "x \<in> (push_rel push)\<^sup>* `` set (n # wl')" using e by auto
      qed
      show ?thesis
      proof (intro exI [of _ "n # order"] conjI)
        show "uses_walk push act (n # wl') V s = Some (fold act (n # order) s)" using False ps o(1) by (simp add: step)
        show "\<forall>m \<in> set (n # order). \<forall>ps. push m = Some ps \<longrightarrow> set ps \<subseteq> V \<union> set (n # order)" using o(4,5) ps by auto
        show "set (n # order) \<subseteq> (push_rel push)\<^sup>* `` set (n # wl')" using r by auto
      qed (use o(2-4) False in auto)
    qed
  qed
qed

lemma uses_walk_reachable:
  assumes "finite U" "push_closed push U" "res \<in> U"
  shows "\<exists>order. uses_walk push act [res] {} s = Some (fold act order s) \<and> distinct order \<and> set order = (push_rel push)\<^sup>* `` {res}"
proof -
  obtain order where o: "uses_walk push act [res] {} s = Some (fold act order s)" "distinct order" "res \<in> set order"
    "\<forall>n \<in> set order. \<forall>ps. push n = Some ps \<longrightarrow> set ps \<subseteq> set order" "set order \<subseteq> (push_rel push)\<^sup>* `` {res}"
    using uses_walk_order [OF assms(1,2), of "[res]" "{}" act s] assms(3) by auto
  have "m \<in> set order" if "(res, m) \<in> (push_rel push)\<^sup>*" for m
    using that by (induction rule: rtrancl_induct) (use o(3,4) in \<open>auto simp: push_rel_def\<close>)
  then show ?thesis using o by blast
qed

lemma push_all_set:
  assumes "push_all f xs = Some ys"
  shows "set ys = {y. \<exists>x \<in> set xs. \<exists>zs. f x = Some zs \<and> y \<in> set zs}" "\<forall>x \<in> set xs. f x \<noteq> None"
  using assms by (induction xs arbitrary: ys) (auto split: option.splits)


section \<open>Write barriers\<close>

lemma barrier_pushes_rel:
  "(n, p) \<in> push_rel (barrier_pushes B Q) \<longleftrightarrow>
     (\<exists>ys. barrier_pushes B Q n = Some ys) \<and> (\<exists>u \<in> set (outs B n). \<exists>ps. barrier_push B Q n u = Some ps \<and> p \<in> set ps)"
proof (cases "barrier_pushes B Q n")
  case (Some ys)
  then have "set ys = {y. \<exists>u \<in> set (outs B n). \<exists>zs. barrier_push B Q n u = Some zs \<and> y \<in> set zs}"
    unfolding barrier_pushes_def by (rule push_all_set)
  then show ?thesis using Some by (simp add: push_rel_def)
qed (simp add: push_rel_def)



section \<open>Safepoints\<close>

definition replace_law :: "macro_queries \<Rightarrow> bool" where
  "replace_law Q \<longleftrightarrow> (\<forall>old new start end xs. length (replace_edges_in_range Q old new start end xs) = length xs \<and>
     (\<forall>i < length xs. replace_edges_in_range Q old new start end xs ! i = (if start \<le> i \<and> i < end \<and> xs ! i = old then new else xs ! i)))"

text \<open>
  What a safepoint looks like once it describes the object: one more input, the description, where the fields of scalar
  objects start; and if it used the object directly, the description in the place of every debug edge to the object.
\<close>

definition described :: "node \<Rightarrow> safepoint \<Rightarrow> bool \<Rightarrow> node \<Rightarrow> safepoint \<Rightarrow> bool" where
  "described res f direct sobj f' \<longleftrightarrow>
     length (sf_inputs f') = Suc (length (sf_inputs f)) \<and> sf_endoff f' = Suc (length (sf_inputs f)) \<and>
     sf_scloff f' = sf_scloff f \<and> sf_debug_start f' = sf_debug_start f \<and> sf_inputs f' ! length (sf_inputs f) = sobj \<and>
     (\<forall>i < length (sf_inputs f). sf_inputs f' ! i =
        (if direct \<and> sf_debug_start f \<le> i \<and> sf_inputs f ! i = res then sobj else sf_inputs f ! i))"

definition description :: "sa_object \<Rightarrow> safepoint \<Rightarrow> scalar_object" where
  "description A f = \<lparr>so_first_index = int (length (sf_inputs f)) - int (sf_scloff f), so_n_fields = sa_nfields A,
     so_oop = sa_stack_oop A, so_alloc = sa_alloc A, so_stack_allocated = True\<rparr>"

lemma adjust_described:
  assumes "replace_law Q" "described res f d sobj f'" "sobj \<noteq> res"
  shows "described res f True sobj (adjust_safepoint_jvms Q res sobj f')"
  using assms by (auto simp: described_def adjust_safepoint_jvms_def replace_law_def Let_def less_Suc_eq)

lemma new_sobj_described: "described res (sfpts T s) False (next_idx T) (sfpts (new_sobj A s T) s)"
  by (auto simp: described_def new_sobj_def Let_def nth_append)

definition registered :: "node \<Rightarrow> sa_object \<Rightarrow> (node \<Rightarrow> safepoint) \<Rightarrow> (node \<times> node) set \<Rightarrow> sfpt_state \<Rightarrow> node \<Rightarrow> bool" where
  "registered N A fs L T s \<longleftrightarrow>
     (if s \<in> snd ` L then
        \<exists>sobj. safepoint_map T s = Some sobj \<and> N \<le> sobj \<and> sobj < next_idx T \<and> sobjs T sobj = Some (description A (fs s)) \<and>
          described (sa_res A) (fs s) ((sa_res A, s) \<in> L) sobj (sfpts T s)
      else safepoint_map T s = None \<and> sfpts T s = fs s)"

definition sfpt_inv :: "node \<Rightarrow> sa_object \<Rightarrow> (node \<Rightarrow> safepoint) \<Rightarrow> (node \<times> node) set \<Rightarrow> sfpt_state \<Rightarrow> bool" where
  "sfpt_inv N A fs L T \<longleftrightarrow> (\<forall>s. registered N A fs L T s) \<and> N \<le> next_idx T \<and> inj_on (safepoint_map T) (snd ` L) \<and>
     (found_non_direct_safepoint T \<longleftrightarrow> (\<exists>(n, s) \<in> L. n \<noteq> sa_res A))"

text \<open>The step of creating the description.\<close>

lemma sfpt_inv_new:
  assumes inv: "sfpt_inv N A fs L T" and "s \<notin> snd ` L" "T1 = new_sobj A s T"
  shows "safepoint_map T1 s = Some (next_idx T)" "N \<le> next_idx T" "next_idx T < next_idx T1" "sobjs T1 (next_idx T) = Some (description A (fs s))"
    "described (sa_res A) (fs s) False (next_idx T) (sfpts T1 s)"
    "s' \<noteq> s \<Longrightarrow> registered N A fs L T1 s'" "inj_on (safepoint_map T1) (insert s (snd ` L))"
proof -
  have r: "registered N A fs L T x" for x using inv by (simp add: sfpt_inv_def)
  have s: "sfpts T s = fs s" "safepoint_map T s = None" using r [of s] assms(2) by (simp_all add: registered_def)
  show "safepoint_map T1 s = Some (next_idx T)" "N \<le> next_idx T" "next_idx T < next_idx T1" "sobjs T1 (next_idx T) = Some (description A (fs s))"
    using inv by (simp_all add: assms(3) new_sobj_def Let_def sfpt_inv_def description_def s)
  show "described (sa_res A) (fs s) False (next_idx T) (sfpts T1 s)" using new_sobj_described [of "sa_res A" T s A] by (simp add: assms(3) s)
  show "registered N A fs L T1 s'" if "s' \<noteq> s"
  proof -
    have m: "safepoint_map T1 s' = safepoint_map T s'" "sfpts T1 s' = sfpts T s'" "next_idx T1 = Suc (next_idx T)"
      and o: "sobj < next_idx T \<Longrightarrow> sobjs T1 sobj = sobjs T sobj" for sobj
      using that by (simp_all add: assms(3) new_sobj_def Let_def)
    show ?thesis
      using r [of s'] unfolding registered_def m by (cases "s' \<in> snd ` L") (auto simp only: if_True if_False o less_Suc_eq)
  qed
  have lt: "safepoint_map T x \<noteq> Some (next_idx T)" if "x \<in> snd ` L" for x using r [of x] that by (auto simp: registered_def)
  have "safepoint_map T1 x = safepoint_map T x" if "x \<in> snd ` L" for x
    using that assms(2) by (auto simp: assms(3) new_sobj_def Let_def)
  note same = this
  moreover have "inj_on (safepoint_map T) (snd ` L)" using inv by (simp add: sfpt_inv_def)
  ultimately have "inj_on (safepoint_map T1) (snd ` L)" using inj_on_cong by blast
  moreover have "safepoint_map T1 s \<notin> safepoint_map T1 ` (snd ` L)"
  proof
    assume "safepoint_map T1 s \<in> safepoint_map T1 ` (snd ` L)"
    then obtain x where "x \<in> snd ` L" "safepoint_map T1 s = safepoint_map T1 x" by blast
    then show False using lt same \<open>safepoint_map T1 s = Some (next_idx T)\<close> by metis
  qed
  ultimately show "inj_on (safepoint_map T1) (insert s (snd ` L))" using assms(2) by simp
qed


lemma sfpt_inv_describe:
  assumes inv: "sfpt_inv N A fs L T" and T1: "T1 = (if safepoint_map T s = None then new_sobj A s T else T)"
  obtains sobj where "safepoint_map T1 s = Some sobj" "N \<le> sobj" "sobj < next_idx T1" "sobjs T1 sobj = Some (description A (fs s))"
    "described (sa_res A) (fs s) ((sa_res A, s) \<in> L) sobj (sfpts T1 s)" "\<And>s'. s' \<noteq> s \<Longrightarrow> registered N A fs L T1 s'"
    "inj_on (safepoint_map T1) (insert s (snd ` L))"
proof (cases "s \<in> snd ` L")
  case True
  have r: "registered N A fs L T x" for x using inv by (simp add: sfpt_inv_def)
  obtain sobj where o: "safepoint_map T s = Some sobj" "N \<le> sobj" "sobj < next_idx T" "sobjs T sobj = Some (description A (fs s))"
    "described (sa_res A) (fs s) ((sa_res A, s) \<in> L) sobj (sfpts T s)"
    using r [of s] True unfolding registered_def by (simp only: if_True) blast
  have "inj_on (safepoint_map T) (insert s (snd ` L))" using inv True by (simp add: sfpt_inv_def insert_absorb)
  then show ?thesis using o r by (intro that [of sobj]) (simp_all add: T1)
next
  case False
  have "safepoint_map T s = None" using inv False by (simp add: sfpt_inv_def registered_def)
  then have "T1 = new_sobj A s T" by (simp add: T1)
  note new = sfpt_inv_new [OF inv False this]
  have "(sa_res A, s) \<notin> L" using False by force
  then show ?thesis using new by (intro that [of "next_idx T"]) simp_all
qed

lemma handle_one_inv:
  assumes inv: "sfpt_inv N A fs L T" and "0 \<le> sa_nfields A" "replace_law Q" "sa_res A < N"
  shows "\<exists>T'. handle_one Q A n s (Some T) = Some T' \<and> sfpt_inv N A fs (insert (n, s) L) T'"
proof -
  define T0 where "T0 = (if sa_res A \<noteq> n then T\<lparr>found_non_direct_safepoint := True\<rparr> else T)"
  have same: "safepoint_map T0 = safepoint_map T" "sfpts T0 = sfpts T" "sobjs T0 = sobjs T" "next_idx T0 = next_idx T"
    "found_non_direct_safepoint T0 = (found_non_direct_safepoint T \<or> n \<noteq> sa_res A)" by (auto simp: T0_def)
  define T1 where "T1 = (if safepoint_map T s = None then new_sobj A s T0 else T0)"
  define U1 where "U1 = (if safepoint_map T s = None then new_sobj A s T else T)"
  have U: "safepoint_map T1 = safepoint_map U1" "sfpts T1 = sfpts U1" "sobjs T1 = sobjs U1" "next_idx T1 = next_idx U1"
    by (simp_all add: T1_def U1_def new_sobj_def Let_def same)
  have f1: "found_non_direct_safepoint T1 = (found_non_direct_safepoint T \<or> n \<noteq> sa_res A)" by (simp add: T1_def new_sobj_def Let_def same(5))
  obtain sobj where o: "safepoint_map U1 s = Some sobj" "N \<le> sobj" "sobj < next_idx U1" "sobjs U1 sobj = Some (description A (fs s))"
    "described (sa_res A) (fs s) ((sa_res A, s) \<in> L) sobj (sfpts U1 s)" "\<And>s'. s' \<noteq> s \<Longrightarrow> registered N A fs L U1 s'"
    "inj_on (safepoint_map U1) (insert s (snd ` L))"
    using sfpt_inv_describe [OF inv U1_def] by blast
  define T' where "T' = (if n = sa_res A then T1\<lparr>sfpts := (sfpts T1)(s := adjust_safepoint_jvms Q (sa_res A) sobj (sfpts T1 s))\<rparr> else T1)"
  have "handle_one Q A n s (Some T) = Some T'"
    using assms(2) o(1) by (simp add: handle_one_def handle_safepoint_for_stack_allocation_def Let_def T'_def U T0_def [symmetric] same(1) T1_def [symmetric])
  moreover have "sfpt_inv N A fs (insert (n, s) L) T'"
    unfolding sfpt_inv_def
  proof (intro conjI allI)
    fix x
    have d: "described (sa_res A) (fs s) True sobj (adjust_safepoint_jvms Q (sa_res A) sobj (sfpts U1 s))"
      using assms(3,4) o(2,5) by (intro adjust_described) auto
    show "registered N A fs (insert (n, s) L) T' x"
    proof (cases "x = s")
      case True
      have "described (sa_res A) (fs s) ((sa_res A, s) \<in> insert (n, s) L) sobj (sfpts T' s)"
        using d o(5) by (auto simp: T'_def U)
      then show ?thesis unfolding registered_def using o(1-4) True by (auto simp: T'_def U)
    next
      case False
      have "sfpts T' x = sfpts U1 x" "safepoint_map T' = safepoint_map U1" "next_idx T' = next_idx U1" "sobjs T' = sobjs U1"
        using False by (simp_all add: T'_def U)
      moreover have "x \<in> snd ` insert (n, s) L \<longleftrightarrow> x \<in> snd ` L" "(sa_res A, x) \<in> insert (n, s) L \<longleftrightarrow> (sa_res A, x) \<in> L" using False by auto
      ultimately show ?thesis using o(6) [OF False] unfolding registered_def by (simp only:)
    qed
  next
    show "N \<le> next_idx T'" using o(2,3) by (simp add: T'_def U)
    show "inj_on (safepoint_map T') (snd ` insert (n, s) L)" using o(7) by (simp add: T'_def U)
    show "found_non_direct_safepoint T' = (\<exists>(n, s) \<in> insert (n, s) L. n \<noteq> sa_res A)"
      using inv f1 by (auto simp: T'_def sfpt_inv_def)
  qed
  ultimately show ?thesis by blast
qed

lemma handle_list_inv:
  assumes "0 \<le> sa_nfields A" "replace_law Q" "sa_res A < N" "sfpt_inv N A fs L T"
  shows "\<exists>T'. fold (\<lambda>(n, s). handle_one Q A n s) xs (Some T) = Some T' \<and> sfpt_inv N A fs (L \<union> set xs) T'"
  using assms(4)
proof (induction xs arbitrary: T L)
  case (Cons x xs)
  obtain n s where x: "x = (n, s)" by (cases x)
  obtain T1 where T1: "handle_one Q A n s (Some T) = Some T1" "sfpt_inv N A fs (insert (n, s) L) T1"
    using handle_one_inv [OF Cons.prems assms(1-3)] by blast
  from Cons.IH [OF T1(2)] show ?case using T1(1) by (auto simp: x)
qed auto

lemma handle_uses_list:
  "fold (handle_uses B Q A) order t =
     fold (\<lambda>(n, s). handle_one Q A n s) (concat (map (\<lambda>n. map (Pair n) (rev (use_safepoints B Q n))) order)) t"
  by (induction order arbitrary: t) (simp_all add: handle_uses_def fold_map comp_def)


section \<open>Where an object may be seen\<close>

text \<open>
  The nodes that carry a reference to the object, or hold one: its copies, addresses and values loaded from it, the
  memory after a store, and the objects that it is stored into.
\<close>

definition passes_on :: "build_ideal \<Rightarrow> macro_queries \<Rightarrow> node \<Rightarrow> bool" where
  "passes_on B Q u \<longleftrightarrow> is_Phi B u \<or> is_CheckCastPP B u \<or> is_EncodeP B u \<or> is_DecodeN Q u \<or> is_Proj B u \<or> is_CastP2X Q u \<or>
     is_MergeMem B u \<or> is_MemBar B u \<or> is_ConstraintCast Q u \<and> Opcode B u = Op_CastPP \<or> is_Store B u \<and> Opcode B u = Op_StoreP \<or>
     is_AddP B u \<or> is_Load B u \<and> Opcode B u = Op_LoadP"

definition plain_copy :: "build_ideal \<Rightarrow> macro_queries \<Rightarrow> node \<Rightarrow> bool" where
  "plain_copy B Q u \<longleftrightarrow> is_Phi B u \<or> is_CheckCastPP B u \<or> is_EncodeP B u \<or> is_DecodeN Q u \<or> is_Proj B u \<or> is_CastP2X Q u \<or>
     is_MergeMem B u \<or> is_MemBar B u \<or> is_ConstraintCast Q u \<and> Opcode B u = Op_CastPP"

inductive carries :: "build_ideal \<Rightarrow> macro_queries \<Rightarrow> node \<Rightarrow> node \<Rightarrow> bool" for B Q res where
  result: "carries B Q res res"
| pass: "carries B Q res n \<Longrightarrow> u \<in> set (outs B n) \<Longrightarrow> \<not> is_SafePoint Q u \<Longrightarrow> passes_on B Q u \<Longrightarrow> carries B Q res u"
| holder: "carries B Q res n \<Longrightarrow> u \<in> set (outs B n) \<Longrightarrow> \<not> is_SafePoint Q u \<Longrightarrow> \<not> plain_copy B Q u \<Longrightarrow> is_Store B u \<Longrightarrow> Opcode B u = Op_StoreP \<Longrightarrow>
    input B u mem_ValueIn = Some n \<Longrightarrow> input B u mem_Address = Some a \<Longrightarrow> is_AddP B a \<Longrightarrow> stored_into B a = Some b \<Longrightarrow> carries B Q res b"

lemma passes_on_plain: "passes_on B Q u \<longleftrightarrow> plain_copy B Q u \<or> is_Store B u \<and> Opcode B u = Op_StoreP \<or> is_AddP B u \<or> is_Load B u \<and> Opcode B u = Op_LoadP"
  by (simp add: passes_on_def plain_copy_def disj_ac)

lemma safepoint_push_cases:
  "safepoint_push B Q n u =
     (if is_SafePoint Q u then Some []
      else if plain_copy B Q u then Some [u]
      else if is_Store B u \<and> Opcode B u = Op_StoreP then
        (if input B u mem_ValueIn \<noteq> Some n then Some [u] else map_option ((#) u) (stored_object B u))
      else if is_AddP B u \<or> (is_Load B u \<and> Opcode B u = Op_LoadP) then Some [u]
      else Some [])"
  unfolding safepoint_push_def plain_copy_def by (rule refl)

lemma stored_object_set: "stored_object B u = Some bs \<Longrightarrow> b \<in> set bs \<longleftrightarrow> (\<exists>a. input B u mem_Address = Some a \<and> is_AddP B a \<and> stored_into B a = Some b)"
  by (auto simp: stored_object_def split: option.splits if_splits)

lemma safepoint_push_set:
  assumes "safepoint_push B Q n u = Some ps"
  shows "p \<in> set ps \<longleftrightarrow> \<not> is_SafePoint Q u \<and> passes_on B Q u \<and> (p = u \<or>
    \<not> plain_copy B Q u \<and> is_Store B u \<and> Opcode B u = Op_StoreP \<and> input B u mem_ValueIn = Some n \<and>
    (\<exists>a. input B u mem_Address = Some a \<and> is_AddP B a \<and> stored_into B a = Some p))"
proof (cases "is_SafePoint Q u \<or> plain_copy B Q u")
  case True
  then show ?thesis using assms by (auto simp: safepoint_push_cases passes_on_plain split: if_splits)
next
  case np: False
  show ?thesis
  proof (cases "is_Store B u \<and> Opcode B u = Op_StoreP")
    case st: True
    show ?thesis
    proof (cases "input B u mem_ValueIn = Some n")
      case True
      then obtain bs where bs: "stored_object B u = Some bs" "ps = u # bs" using assms np st by (auto simp: safepoint_push_cases)
      then show ?thesis using np st True stored_object_set [OF bs(1), of p] by (auto simp: passes_on_plain)
    next
      case False
      then have "ps = [u]" using assms np st by (simp add: safepoint_push_cases)
      then show ?thesis using np st False by (simp add: passes_on_plain)
    qed
  next
    case False
    then show ?thesis using assms np by (auto simp: safepoint_push_cases passes_on_plain split: if_splits)
  qed
qed

lemma safepoint_pushes_set:
  assumes "safepoint_pushes B Q n = Some ps"
  shows "p \<in> set ps \<longleftrightarrow> (\<exists>u \<in> set (outs B n). \<not> is_SafePoint Q u \<and> passes_on B Q u \<and> (p = u \<or>
    \<not> plain_copy B Q u \<and> is_Store B u \<and> Opcode B u = Op_StoreP \<and> input B u mem_ValueIn = Some n \<and>
    (\<exists>a. input B u mem_Address = Some a \<and> is_AddP B a \<and> stored_into B a = Some p)))"
proof -
  note pa = push_all_set [OF assms [unfolded safepoint_pushes_def]]
  have "p \<in> set ps \<longleftrightarrow> (\<exists>u \<in> set (outs B n). \<exists>zs. safepoint_push B Q n u = Some zs \<and> p \<in> set zs)" by (simp add: pa(1))
  also have "\<dots> \<longleftrightarrow> (\<exists>u \<in> set (outs B n). \<not> is_SafePoint Q u \<and> passes_on B Q u \<and> (p = u \<or>
    \<not> plain_copy B Q u \<and> is_Store B u \<and> Opcode B u = Op_StoreP \<and> input B u mem_ValueIn = Some n \<and>
    (\<exists>a. input B u mem_Address = Some a \<and> is_AddP B a \<and> stored_into B a = Some p)))"
  proof (rule bex_cong [OF refl])
    fix u
    assume "u \<in> set (outs B n)"
    then obtain zs where zs: "safepoint_push B Q n u = Some zs" using pa(2) by auto
    show "(\<exists>zs. safepoint_push B Q n u = Some zs \<and> p \<in> set zs) \<longleftrightarrow> \<not> is_SafePoint Q u \<and> passes_on B Q u \<and> (p = u \<or>
      \<not> plain_copy B Q u \<and> is_Store B u \<and> Opcode B u = Op_StoreP \<and> input B u mem_ValueIn = Some n \<and>
      (\<exists>a. input B u mem_Address = Some a \<and> is_AddP B a \<and> stored_into B a = Some p))"
      unfolding safepoint_push_set [OF zs, symmetric] by (simp add: zs)
  qed
  finally show ?thesis .
qed

lemma push_rel_step:
  assumes "push_closed push {..<k}" "n < k" "(r, n) \<in> (push_rel push)\<^sup>*" "\<And>ps. push n = Some ps \<Longrightarrow> p \<in> set ps"
  shows "p < k \<and> (r, p) \<in> (push_rel push)\<^sup>*"
proof -
  obtain ps where ps: "push n = Some ps" "set ps \<subseteq> {..<k}" using assms(1,2) by (auto simp: push_closed_def)
  then have "(n, p) \<in> push_rel push" "p < k" using assms(4) by (auto simp: push_rel_def)
  then show ?thesis using assms(3) by (auto intro: rtrancl_into_rtrancl)
qed

lemma carries_reachable:
  assumes "push_closed (safepoint_pushes B Q) {..<unique B}" "res < unique B"
  shows "carries B Q res n \<longleftrightarrow> (res, n) \<in> (push_rel (safepoint_pushes B Q))\<^sup>*"
proof
  assume "carries B Q res n"
  then have "n < unique B \<and> (res, n) \<in> (push_rel (safepoint_pushes B Q))\<^sup>*"
  proof (induction)
    case result
    then show ?case using assms(2) by simp
  next
    case (pass n u)
    show ?case
      by (rule push_rel_step [OF assms(1), of n]) (use pass in \<open>simp_all add: safepoint_pushes_set, blast\<close>)
  next
    case (holder n u a b)
    have "passes_on B Q u" using holder.hyps by (simp add: passes_on_def)
    show ?case
      by (rule push_rel_step [OF assms(1), of n]) (use holder \<open>passes_on B Q u\<close> in \<open>simp_all add: safepoint_pushes_set, blast\<close>)
  qed
  then show "(res, n) \<in> (push_rel (safepoint_pushes B Q))\<^sup>*" by simp
next
  assume "(res, n) \<in> (push_rel (safepoint_pushes B Q))\<^sup>*"
  then show "carries B Q res n"
  proof (induction rule: rtrancl_induct)
    case base
    then show ?case by (rule carries.result)
  next
    case (step n p)
    then obtain ps where ps: "safepoint_pushes B Q n = Some ps" "p \<in> set ps" by (auto simp: push_rel_def)
    then obtain u where u: "u \<in> set (outs B n)" "\<not> is_SafePoint Q u" "passes_on B Q u" "p = u \<or>
      \<not> plain_copy B Q u \<and> is_Store B u \<and> Opcode B u = Op_StoreP \<and> input B u mem_ValueIn = Some n \<and>
      (\<exists>a. input B u mem_Address = Some a \<and> is_AddP B a \<and> stored_into B a = Some p)"
      using safepoint_pushes_set [OF ps(1)] by blast
    from u(4) show ?case
    proof
      assume "p = u"
      then show ?thesis using carries.pass [OF step.IH u(1-3)] by simp
    next
      assume "\<not> plain_copy B Q u \<and> is_Store B u \<and> Opcode B u = Op_StoreP \<and> input B u mem_ValueIn = Some n \<and>
        (\<exists>a. input B u mem_Address = Some a \<and> is_AddP B a \<and> stored_into B a = Some p)"
      then show ?thesis using carries.holder [OF step.IH u(1,2)] by blast
    qed
  qed
qed


text \<open>The uses that the walk finds: a safepoint with a JVM state, and the node it uses.\<close>

definition live_at :: "build_ideal \<Rightarrow> macro_queries \<Rightarrow> node \<Rightarrow> (node \<times> node) set" where
  "live_at B Q res = {(n, s). carries B Q res n \<and> s \<in> set (outs B n) \<and> is_SafePoint Q s \<and> has_jvms Q s}"

lemma register_safepoints_inv:
  assumes "push_closed (safepoint_pushes B Q) {..<unique B}" "sa_res A < unique B" "0 \<le> sa_nfields A" "replace_law Q"
  shows "\<exists>T. register_stack_allocated_object_with_safepoints B Q A fs = Some T \<and> sfpt_inv (unique B) A fs (live_at B Q (sa_res A)) T"
proof -
  let ?T0 = "\<lparr>sfpts = fs, sobjs = Map.empty, next_idx = unique B, safepoint_map = Map.empty, found_non_direct_safepoint = False\<rparr>"
  obtain order where o: "uses_walk (safepoint_pushes B Q) (handle_uses B Q A) [sa_res A] {} (Some ?T0) = Some (fold (handle_uses B Q A) order (Some ?T0))"
    "set order = (push_rel (safepoint_pushes B Q))\<^sup>* `` {sa_res A}"
    using uses_walk_reachable [OF _ assms(1), of "sa_res A" "handle_uses B Q A" "Some ?T0"] assms(2) by auto
  let ?L = "concat (map (\<lambda>n. map (Pair n) (rev (use_safepoints B Q n))) order)"
  have L: "set ?L = live_at B Q (sa_res A)"
    using o(2) carries_reachable [OF assms(1,2)] by (auto simp: live_at_def use_safepoints_def)
  have "sfpt_inv (unique B) A fs {} ?T0" by (simp add: sfpt_inv_def registered_def)
  from handle_list_inv [OF assms(3,4,2) this, of ?L]
  obtain T where T: "fold (handle_uses B Q A) order (Some ?T0) = Some T" "sfpt_inv (unique B) A fs (live_at B Q (sa_res A)) T"
    unfolding handle_uses_list L by auto
  have "register_stack_allocated_object_with_safepoints B Q A fs = Some T"
    unfolding register_stack_allocated_object_with_safepoints_def o(1) by (simp add: T(1))
  with T(2) show ?thesis by blast
qed

text \<open>
  C12: every safepoint at which a stack allocated object may be live describes it. The walk ends and reaches exactly the
  safepoints that use the object, a copy of it, something loaded from it, memory it was stored to, or an object that holds
  it. Each of them gets one description of its own, appended to its inputs where its fields of scalar objects start, with the
  stack location of the object; at the safepoints that use the object itself, the debug information refers to the
  description in its place and no longer to the object. All others are left alone, and the result tells whether the object
  is live only through others at some safepoint.
\<close>

theorem register_safepoints_correct:
  assumes "push_closed (safepoint_pushes B Q) {..<unique B}" "sa_res A < unique B" "0 \<le> sa_nfields A" "replace_law Q"
  shows "\<exists>T. register_stack_allocated_object_with_safepoints B Q A fs = Some T \<and>
    (\<forall>s. if s \<in> snd ` live_at B Q (sa_res A) then
        \<exists>sobj. safepoint_map T s = Some sobj \<and> unique B \<le> sobj \<and> sobjs T sobj = Some (description A (fs s)) \<and>
          described (sa_res A) (fs s) ((sa_res A, s) \<in> live_at B Q (sa_res A)) sobj (sfpts T s)
      else sfpts T s = fs s) \<and>
    inj_on (safepoint_map T) (snd ` live_at B Q (sa_res A)) \<and>
    (found_non_direct_safepoint T \<longleftrightarrow> (\<exists>(n, s) \<in> live_at B Q (sa_res A). n \<noteq> sa_res A))"
proof -
  obtain T where T: "register_stack_allocated_object_with_safepoints B Q A fs = Some T" "sfpt_inv (unique B) A fs (live_at B Q (sa_res A)) T"
    using register_safepoints_inv [OF assms] by blast
  have "if s \<in> snd ` live_at B Q (sa_res A) then
        \<exists>sobj. safepoint_map T s = Some sobj \<and> unique B \<le> sobj \<and> sobjs T sobj = Some (description A (fs s)) \<and>
          described (sa_res A) (fs s) ((sa_res A, s) \<in> live_at B Q (sa_res A)) sobj (sfpts T s)
      else sfpts T s = fs s" for s
  proof -
    have "registered (unique B) A fs (live_at B Q (sa_res A)) T s" using T(2) by (simp add: sfpt_inv_def)
    then show ?thesis unfolding registered_def by (cases "s \<in> snd ` live_at B Q (sa_res A)") (auto simp only: if_True if_False)
  qed
  then show ?thesis using T unfolding sfpt_inv_def by blast
qed

section \<open>Where a barrier may see the object\<close>













section \<open>An object and its safepoints\<close>

text \<open>Node 1 is the object, 2 a Phi that merges it, 3 a barrier on it; the safepoint 4 uses the object, and 5 only the Phi.\<close>

definition sample_uses :: build_ideal where
  "sample_uses = build0\<lparr>unique := 6, outs := (\<lambda>n. if n = 1 then [2, 3, 4] else if n = 2 then [5] else []), is_Phi := (\<lambda>n. n = 2),
     result_cast := (\<lambda>n. if n = 0 then Some 1 else None)\<rparr>"

definition sample_queries_of :: macro_queries where
  "sample_queries_of = \<lparr>is_SafePoint = (\<lambda>n. n = 4 \<or> n = 5), has_jvms = (\<lambda>n. True), is_CastP2X = (\<lambda>n. n = 3), is_ConstraintCast = (\<lambda>n. False),
     is_DecodeN = (\<lambda>n. False),
     replace_edges_in_range = (\<lambda>old new a b xs. map (\<lambda>(i, x). if a \<le> i \<and> i < b \<and> x = old then new else x) (zip [0..<length xs] xs))\<rparr>"


definition sample_sfpts :: "node \<Rightarrow> safepoint" where
  "sample_sfpts n = \<lparr>sf_inputs = [0, 0, 1, 2], sf_debug_start = 2, sf_scloff = 4, sf_endoff = 4\<rparr>"

definition sample_object :: sa_object where
  "sample_object = \<lparr>sa_alloc = 0, sa_res = 1, sa_nfields = 2, sa_stack_oop = 9\<rparr>"

lemma sample_pushes:
  "safepoint_pushes sample_uses sample_queries_of n = Some (if n = 1 then [2, 3] else [])"
  "barrier_pushes sample_uses sample_queries_of n = Some (if n = 1 then [2, 4] else if n = 2 then [5] else [])"
  by (simp_all add: safepoint_pushes_def barrier_pushes_def safepoint_push_def barrier_push_def sample_uses_def sample_queries_of_def build0_def)

lemma sample_closed:
  "push_closed (safepoint_pushes sample_uses sample_queries_of) {..<unique sample_uses}"
  "push_closed (barrier_pushes sample_uses sample_queries_of) {..<unique sample_uses}"
proof -
  have u: "unique sample_uses = 6" by (simp add: sample_uses_def)
  show "push_closed (safepoint_pushes sample_uses sample_queries_of) {..<unique sample_uses}"
    "push_closed (barrier_pushes sample_uses sample_queries_of) {..<unique sample_uses}"
    by (auto simp: push_closed_def sample_pushes u)
qed

lemma sample_replace_law: "replace_law sample_queries_of"
  by (simp add: replace_law_def sample_queries_of_def)

lemma sample_live: "(1, 4) \<in> live_at sample_uses sample_queries_of 1" "(2, 5) \<in> live_at sample_uses sample_queries_of 1"
proof -
  have q: "2 \<in> set (outs sample_uses 1)" "\<not> is_SafePoint sample_queries_of 2" "passes_on sample_uses sample_queries_of 2"
    by (simp_all add: sample_uses_def sample_queries_of_def passes_on_def build0_def)
  have "carries sample_uses sample_queries_of 1 2" by (rule carries.pass [OF carries.result q])
  then show "(1, 4) \<in> live_at sample_uses sample_queries_of 1" "(2, 5) \<in> live_at sample_uses sample_queries_of 1"
    using carries.result [of sample_uses sample_queries_of 1] by (simp_all add: live_at_def sample_uses_def sample_queries_of_def)
qed

theorem register_safepoints_correct_witness:
  "\<exists>T. register_stack_allocated_object_with_safepoints sample_uses sample_queries_of sample_object sample_sfpts = Some T \<and>
     found_non_direct_safepoint T \<and>
     (\<exists>sobj. safepoint_map T 4 = Some sobj \<and> described 1 (sample_sfpts 4) True sobj (sfpts T 4))"
proof -
  have A: "sa_res sample_object = 1" "0 \<le> sa_nfields sample_object" "sa_res sample_object < unique sample_uses"
    by (simp_all add: sample_object_def sample_uses_def)
  obtain T where T: "register_stack_allocated_object_with_safepoints sample_uses sample_queries_of sample_object sample_sfpts = Some T"
    "if 4 \<in> snd ` live_at sample_uses sample_queries_of 1 then
        \<exists>sobj. safepoint_map T 4 = Some sobj \<and> unique sample_uses \<le> sobj \<and> sobjs T sobj = Some (description sample_object (sample_sfpts 4)) \<and>
          described 1 (sample_sfpts 4) ((1, 4) \<in> live_at sample_uses sample_queries_of 1) sobj (sfpts T 4)
      else sfpts T 4 = sample_sfpts 4"
    "found_non_direct_safepoint T \<longleftrightarrow> (\<exists>(n, s) \<in> live_at sample_uses sample_queries_of 1. n \<noteq> 1)"
    using register_safepoints_correct [OF sample_closed(1) A(3,2) sample_replace_law, of sample_sfpts] unfolding A(1) by blast
  have "4 \<in> snd ` live_at sample_uses sample_queries_of 1" using sample_live(1) by force
  moreover have "found_non_direct_safepoint T" unfolding T(3) by (rule bexI [OF _ sample_live(2)]) simp
  ultimately show ?thesis using T(1,2) sample_live(1) by auto
qed






end
