(* ===== verification/JVM_State.thy ===== *)
theory JVM_State
  imports Ideal_Graph
begin

text \<open>
  The JVM states of safepoints (\<open>callnode.hpp\<close>, \<open>callnode.cpp\<close>): the layout of the debug edges of a safepoint, the chain
  of inlined callers, and the operations of \<open>SafePointNode\<close> on locals, on the expression stack and on the stack of monitors.
\<close>

section \<open>States\<close>

datatype reexecute_state = Reexecute_Undefined | Reexecute_False | Reexecute_True

record ci_method =
  m_id :: nat
  m_max_locals :: nat
  m_max_stack :: nat

text \<open>One link of a chain. A chain is a list, the youngest state first; \<open>NULL\<close> is the empty chain.\<close>

record jvm_state =
  js_depth :: nat
  js_locoff :: nat
  js_stkoff :: nat
  js_monoff :: nat
  js_scloff :: nat
  js_endoff :: nat
  js_sp :: nat
  js_bci :: int
  js_reexecute :: reexecute_state
  js_method :: "ci_method option"
  js_map :: node

type_synonym jvms = "jvm_state list"

definition InvocationEntryBci :: int where "InvocationEntryBci = - 1"

text \<open>The constructors; \<open>parms\<close> is \<open>TypeFunc::Parms\<close>, and \<open>map0\<close> what the field that is not set holds.\<close>

definition new_JVMState :: "nat \<Rightarrow> node \<Rightarrow> ci_method \<Rightarrow> jvms \<Rightarrow> jvms" where
  "new_JVMState parms map0 m caller =
     \<lparr>js_depth = 1 + (case caller of [] \<Rightarrow> 0 | c # _ \<Rightarrow> js_depth c), js_locoff = parms, js_stkoff = parms + m_max_locals m,
      js_monoff = parms + m_max_locals m + m_max_stack m, js_scloff = parms + m_max_locals m + m_max_stack m,
      js_endoff = parms + m_max_locals m + m_max_stack m, js_sp = 0, js_bci = InvocationEntryBci,
      js_reexecute = Reexecute_Undefined, js_method = Some m, js_map = map0\<rparr> # caller"

definition new_root_JVMState :: "nat \<Rightarrow> node \<Rightarrow> nat \<Rightarrow> jvms" where
  "new_root_JVMState parms map0 stack_size =
     [\<lparr>js_depth = 1, js_locoff = parms, js_stkoff = parms, js_monoff = parms + stack_size, js_scloff = parms + stack_size,
       js_endoff = parms + stack_size, js_sp = 0, js_bci = InvocationEntryBci, js_reexecute = Reexecute_Undefined,
       js_method = None, js_map = map0\<rparr>]"

definition loc_size :: "jvm_state \<Rightarrow> int" where "loc_size j = int (js_stkoff j) - int (js_locoff j)"
definition stk_size :: "jvm_state \<Rightarrow> int" where "stk_size j = int (js_monoff j) - int (js_stkoff j)"
definition mon_size :: "jvm_state \<Rightarrow> int" where "mon_size j = int (js_scloff j) - int (js_monoff j)"
definition scl_size :: "jvm_state \<Rightarrow> int" where "scl_size j = int (js_endoff j) - int (js_scloff j)"

definition is_loc :: "jvm_state \<Rightarrow> nat \<Rightarrow> bool" where "is_loc j i \<longleftrightarrow> js_locoff j \<le> i \<and> i < js_stkoff j"
definition is_stk :: "jvm_state \<Rightarrow> nat \<Rightarrow> bool" where "is_stk j i \<longleftrightarrow> js_stkoff j \<le> i \<and> i < js_monoff j"
definition is_mon :: "jvm_state \<Rightarrow> nat \<Rightarrow> bool" where "is_mon j i \<longleftrightarrow> js_monoff j \<le> i \<and> i < js_scloff j"
definition is_scl :: "jvm_state \<Rightarrow> nat \<Rightarrow> bool" where "is_scl j i \<longleftrightarrow> js_scloff j \<le> i \<and> i < js_endoff j"

definition should_reexecute :: "jvm_state \<Rightarrow> bool" where "should_reexecute j \<longleftrightarrow> js_reexecute j = Reexecute_True"
definition debug_size :: "jvm_state \<Rightarrow> int" where "debug_size j = loc_size j + int (js_sp j) + mon_size j + scl_size j"

definition nof_monitors :: "jvm_state \<Rightarrow> int" where "nof_monitors j = drop_bit 1 (mon_size j)"
definition monitor_box_offset :: "jvm_state \<Rightarrow> nat \<Rightarrow> nat" where "monitor_box_offset j idx = js_monoff j + push_bit 1 idx + 0"
definition monitor_obj_offset :: "jvm_state \<Rightarrow> nat \<Rightarrow> nat" where "monitor_obj_offset j idx = js_monoff j + push_bit 1 idx + 1"

fun monitor_depth :: "jvms \<Rightarrow> int" where
  "monitor_depth [] = 0"
| "monitor_depth (j # js) = nof_monitors j + monitor_depth js"

fun is_monitor_use :: "jvms \<Rightarrow> nat \<Rightarrow> bool" where
  "is_monitor_use [] off = False"
| "is_monitor_use (j # js) off \<longleftrightarrow> (is_mon j off \<and> even (off - js_monoff j)) \<or> is_monitor_use js off"

definition set_bci :: "int \<Rightarrow> jvm_state \<Rightarrow> jvm_state" where
  "set_bci b j = (if js_bci j \<noteq> b then j\<lparr>js_reexecute := Reexecute_Undefined\<rparr> else j)\<lparr>js_bci := b\<rparr>"

text \<open>\<open>of_depth\<close> walks \<open>depth - d\<close> callers; \<open>None\<close> is a failed assertion.\<close>

definition of_depth :: "nat \<Rightarrow> jvms \<Rightarrow> jvms option" where
  "of_depth d js =
     (case js of
        [] \<Rightarrow> None
      | j # _ \<Rightarrow>
          if 0 < d \<and> d \<le> js_depth j then
            (case drop (js_depth j - d) js of
               [] \<Rightarrow> None
             | p # ps \<Rightarrow> if js_depth p = d then Some (p # ps) else None)
          else None)"

text \<open>Pointers are compared by \<open>same\<close>.\<close>

fun calls_loop :: "(jvms \<Rightarrow> jvms \<Rightarrow> bool) \<Rightarrow> jvms \<Rightarrow> jvms \<Rightarrow> bool option" where
  "calls_loop same (p # ps) (q # qs) =
     (if js_method p \<noteq> js_method q then Some False
      else if js_method p = None then Some True
      else if js_bci p \<noteq> js_bci q then Some False
      else if js_reexecute p \<noteq> js_reexecute q then Some False
      else if same ps qs then Some True
      else calls_loop same ps qs)"
| "calls_loop same _ _ = None"

definition same_calls_as :: "(jvms \<Rightarrow> jvms \<Rightarrow> bool) \<Rightarrow> jvms \<Rightarrow> jvms \<Rightarrow> bool option" where
  "same_calls_as same this that =
     (if same this that then Some True
      else case (this, that) of
             (p # _, q # _) \<Rightarrow> if js_depth p \<noteq> js_depth q then Some False else calls_loop same this that
           | _ \<Rightarrow> None)"

fun debug_depth :: "jvms \<Rightarrow> int" where
  "debug_depth [] = 0"
| "debug_depth (j # js) = debug_size j + debug_depth js"

definition debug_start :: "jvms \<Rightarrow> nat option" where
  "debug_start js = (case of_depth 1 js of Some (r # _) \<Rightarrow> Some (js_locoff r) | _ \<Rightarrow> None)"

text \<open>Copies; the arguments of the constructors are as above.\<close>

definition clone_shallow :: "nat \<Rightarrow> node \<Rightarrow> jvms \<Rightarrow> jvms option" where
  "clone_shallow parms map0 js =
     (case js of
        [] \<Rightarrow> None
      | j # caller \<Rightarrow>
          (case (case js_method j of Some m \<Rightarrow> new_JVMState parms map0 m caller | None \<Rightarrow> new_root_JVMState parms map0 0) of
             [] \<Rightarrow> None
           | n # cs \<Rightarrow>
               Some ((set_bci (js_bci j) n)\<lparr>js_reexecute := js_reexecute j, js_locoff := js_locoff j, js_stkoff := js_stkoff j,
                  js_monoff := js_monoff j, js_scloff := js_scloff j, js_endoff := js_endoff j, js_sp := js_sp j, js_map := js_map j\<rparr> # cs)))"

fun clone_callers :: "nat \<Rightarrow> node \<Rightarrow> nat \<Rightarrow> jvms \<Rightarrow> jvms option" where
  "clone_callers parms map0 0 js = Some []"
| "clone_callers parms map0 (Suc k) js =
     (case js of
        [] \<Rightarrow> Some []
      | _ \<Rightarrow> (case clone_shallow parms map0 js of
               Some (n # cs) \<Rightarrow> map_option ((#) n) (clone_callers parms map0 k cs)
             | _ \<Rightarrow> None))"

definition clone_deep :: "nat \<Rightarrow> node \<Rightarrow> jvms \<Rightarrow> jvms option" where
  "clone_deep parms map0 js = (if js = [] then None else clone_callers parms map0 (length js) js)"

text \<open>\<open>set_map_deep\<close> does not reach the root.\<close>

fun set_map_deep :: "node \<Rightarrow> jvms \<Rightarrow> jvms" where
  "set_map_deep m (j # c # js) = j\<lparr>js_map := m\<rparr> # set_map_deep m (c # js)"
| "set_map_deep m js = js"

definition adapt_state :: "int \<Rightarrow> jvm_state \<Rightarrow> jvm_state" where
  "adapt_state delta j = j\<lparr>js_locoff := nat (int (js_locoff j) + delta), js_stkoff := nat (int (js_stkoff j) + delta),
     js_monoff := nat (int (js_monoff j) + delta), js_scloff := nat (int (js_scloff j) + delta), js_endoff := nat (int (js_endoff j) + delta)\<rparr>"

definition adapt_position :: "int \<Rightarrow> jvms \<Rightarrow> jvms" where
  "adapt_position delta = map (adapt_state delta)"

section \<open>Safepoint nodes\<close>

record sfpt_node =
  sp_in :: "node list"
  sp_jvms :: jvms

text \<open>
  The edits of the inputs of a node (\<open>opto/node.cpp\<close>), and what safepoints ask of nodes: \<open>wide\<close> are the values of an
  ideal register for longs or doubles.
\<close>

record edge_ops =
  ins_req :: "nat \<Rightarrow> node \<Rightarrow> node list \<Rightarrow> node list"
  del_req_ordered :: "nat \<Rightarrow> node list \<Rightarrow> node list"
  top_node :: node
  wide :: "node \<Rightarrow> bool"

definition edge_law :: "edge_ops \<Rightarrow> bool" where
  "edge_law E \<longleftrightarrow> (\<forall>i n xs. i \<le> length xs \<longrightarrow> ins_req E i n xs = take i xs @ n # drop i xs) \<and>
     (\<forall>i xs. i < length xs \<longrightarrow> del_req_ordered E i xs = take i xs @ drop (Suc i) xs) \<and> \<not> wide E (top_node E)"

definition youngest :: "(jvm_state \<Rightarrow> jvm_state) \<Rightarrow> jvms \<Rightarrow> jvms" where
  "youngest f js = (case js of [] \<Rightarrow> [] | j # cs \<Rightarrow> f j # cs)"

definition set_local :: "edge_ops \<Rightarrow> nat \<Rightarrow> node \<Rightarrow> sfpt_node \<Rightarrow> sfpt_node option" where
  "set_local E idx c s =
     (case sp_jvms s of
        [] \<Rightarrow> None
      | j # _ \<Rightarrow>
          let loc = js_locoff j + idx in
          if loc < length (sp_in s) then
            let xs = (if sp_in s ! loc = top_node E \<and> 0 < idx \<and> c \<noteq> top_node E \<and> wide E (sp_in s ! (loc - 1))
                      then (sp_in s)[loc - 1 := sp_in s ! loc] else sp_in s)
            in Some (s\<lparr>sp_in := xs[loc := c]\<rparr>)
          else None)"

definition grow_stack :: "edge_ops \<Rightarrow> nat \<Rightarrow> sfpt_node \<Rightarrow> sfpt_node option" where
  "grow_stack E grow_by s =
     (case sp_jvms s of
        [] \<Rightarrow> None
      | j # _ \<Rightarrow>
          if 0 < grow_by \<and> js_endoff j = length (sp_in s) then
            Some \<lparr>sp_in = (ins_req E (js_monoff j) (top_node E) ^^ grow_by) (sp_in s),
                  sp_jvms = youngest (\<lambda>k. k\<lparr>js_monoff := js_monoff j + grow_by, js_scloff := js_scloff j + grow_by,
                                            js_endoff := js_endoff j + grow_by\<rparr>) (sp_jvms s)\<rparr>
          else None)"

definition push_monitor :: "edge_ops \<Rightarrow> bool \<Rightarrow> node \<Rightarrow> node \<Rightarrow> sfpt_node \<Rightarrow> sfpt_node option" where
  "push_monitor E GenerateSynchronizationCode box obj s =
     (case sp_jvms s of
        [] \<Rightarrow> None
      | j # _ \<Rightarrow>
          if length (sp_in s) = js_endoff j then
            let nextmon = js_scloff j;
                xs = (if GenerateSynchronizationCode then ins_req E (nextmon + 1) obj (ins_req E nextmon box (sp_in s))
                      else ins_req E nextmon (top_node E) (ins_req E nextmon (top_node E) (sp_in s)))
            in Some \<lparr>sp_in = xs, sp_jvms = youngest (\<lambda>k. k\<lparr>js_scloff := nextmon + 2, js_endoff := length xs\<rparr>) (sp_jvms s)\<rparr>
          else None)"

text \<open>The \<open>while\<close> loop deletes the two edges of the last monitor, the last one first.\<close>

definition pop_monitor :: "edge_ops \<Rightarrow> sfpt_node \<Rightarrow> sfpt_node option" where
  "pop_monitor E s =
     (case sp_jvms s of
        [] \<Rightarrow> None
      | j # _ \<Rightarrow>
          let scloff = js_scloff j; j' = j\<lparr>js_scloff := scloff - 2, js_endoff := js_endoff j - 2\<rparr>
          in if 2 \<le> scloff \<and> nof_monitors j' = nof_monitors j - 1 then
               Some \<lparr>sp_in = del_req_ordered E (scloff - 2) (del_req_ordered E (scloff - 1) (sp_in s)),
                     sp_jvms = youngest (\<lambda>_. j') (sp_jvms s)\<rparr>
             else None)"

definition peek_monitor_box :: "sfpt_node \<Rightarrow> node option" where
  "peek_monitor_box s =
     (case sp_jvms s of
        [] \<Rightarrow> None
      | j # _ \<Rightarrow> let mon = nof_monitors j - 1 in if 0 \<le> mon then Some (sp_in s ! monitor_box_offset j (nat mon)) else None)"

definition peek_monitor_obj :: "sfpt_node \<Rightarrow> node option" where
  "peek_monitor_obj s =
     (case sp_jvms s of
        [] \<Rightarrow> None
      | j # _ \<Rightarrow> let mon = nof_monitors j - 1 in if 0 \<le> mon then Some (sp_in s ! monitor_obj_offset j (nat mon)) else None)"

section \<open>Layout\<close>

text \<open>
  The sections of a state follow each other, monitors are pairs of edges, and the states of a chain are numbered and follow
  each other, the oldest first. Only the oldest state may have no method.
\<close>

definition jvms_layout :: "jvm_state \<Rightarrow> bool" where
  "jvms_layout j \<longleftrightarrow> js_locoff j \<le> js_stkoff j \<and> js_stkoff j \<le> js_monoff j \<and> js_monoff j \<le> js_scloff j \<and> js_scloff j \<le> js_endoff j \<and>
     even (js_scloff j - js_monoff j)"

fun chain_ok :: "jvms \<Rightarrow> bool" where
  "chain_ok [] = True"
| "chain_ok (j # js) \<longleftrightarrow> js_depth j = Suc (length js) \<and> (js_method j = None \<longrightarrow> js = []) \<and> jvms_layout j \<and>
     (\<forall>c \<in> set js. js_endoff c \<le> js_locoff j) \<and> chain_ok js"

definition sfpt_ok :: "sfpt_node \<Rightarrow> bool" where
  "sfpt_ok s \<longleftrightarrow> chain_ok (sp_jvms s) \<and> (\<exists>j js. sp_jvms s = j # js \<and> js_endoff j = length (sp_in s))"

text \<open>What a safepoint means: for every scope its locals, its expression stack, its monitors and its scalar section.\<close>

record scope_view =
  v_locals :: "node list"
  v_stack :: "node list"
  v_monitors :: "(node \<times> node) list"
  v_scalars :: "node list"

definition segment :: "nat \<Rightarrow> nat \<Rightarrow> 'a list \<Rightarrow> 'a list" where
  "segment a b xs = take (b - a) (drop a xs)"

fun pairs :: "'a list \<Rightarrow> ('a \<times> 'a) list" where
  "pairs (a # b # xs) = (a, b) # pairs xs"
| "pairs _ = []"

definition view_of :: "node list \<Rightarrow> jvm_state \<Rightarrow> scope_view" where
  "view_of xs j = \<lparr>v_locals = segment (js_locoff j) (js_stkoff j) xs, v_stack = segment (js_stkoff j) (js_monoff j) xs,
     v_monitors = pairs (segment (js_monoff j) (js_scloff j) xs), v_scalars = segment (js_scloff j) (js_endoff j) xs\<rparr>"

definition views :: "sfpt_node \<Rightarrow> scope_view list" where
  "views s = map (view_of (sp_in s)) (sp_jvms s)"

subsection \<open>Segments\<close>

lemma segment_length [simp]: "b \<le> length xs \<Longrightarrow> length (segment a b xs) = b - a"
  by (simp add: segment_def)

lemma segment_nth: "b \<le> length xs \<Longrightarrow> i < b - a \<Longrightarrow> segment a b xs ! i = xs ! (a + i)"
  by (simp add: segment_def)

text \<open>Segments before, up to, and after the place of an insertion.\<close>

lemma segment_insert_before: "b \<le> p \<Longrightarrow> p \<le> length xs \<Longrightarrow> segment a b (take p xs @ zs @ drop p xs) = segment a b xs"
  by (auto simp: segment_def take_drop min_def intro!: nth_equalityI)

lemma segment_insert_at:
  assumes "a \<le> p" "p \<le> length xs"
  shows "segment a (p + length zs) (take p xs @ zs @ drop p xs) = segment a p xs @ zs"
  using assms by (simp add: segment_def drop_take)

lemma segment_insert_after:
  assumes "p \<le> a" "p \<le> length xs"
  shows "segment (a + length zs) (b + length zs) (take p xs @ zs @ drop p xs) = segment a b xs"
proof -
  have "drop (a + length zs) (take p xs @ zs @ drop p xs) = drop a xs" using assms by simp
  then show ?thesis by (simp add: segment_def)
qed

text \<open>The same for a deletion.\<close>

lemma segment_delete_before: "b \<le> p \<Longrightarrow> p \<le> length xs \<Longrightarrow> segment a b (take p xs @ drop q xs) = segment a b xs"
  by (auto simp: segment_def take_drop min_def intro!: nth_equalityI)

lemma segment_delete_after:
  assumes "q \<le> a" "p \<le> q" "p \<le> length xs"
  shows "segment (a - (q - p)) (b - (q - p)) (take p xs @ drop q xs) = segment a b xs"
proof -
  have "a - (q - p) - p + q = a" "b - (q - p) - (a - (q - p)) = b - a" using assms by arith+
  then show ?thesis using assms by (simp add: segment_def)
qed

lemma segment_append: "a \<le> m \<Longrightarrow> m \<le> b \<Longrightarrow> segment a b xs = segment a m xs @ segment m b xs"
proof -
  assume a: "a \<le> m" "m \<le> b"
  have "take ((m - a) + (b - m)) (drop a xs) = take (m - a) (drop a xs) @ take (b - m) (drop (m - a + a) xs)"
    by (simp only: take_add drop_drop)
  then show ?thesis using a by (simp add: segment_def)
qed

lemma pairs_append: "even (length xs) \<Longrightarrow> pairs (xs @ [a, b]) = pairs xs @ [(a, b)]"
  by (induction xs rule: pairs.induct) auto

lemma pairs_length [simp]: "length (pairs xs) = length xs div 2"
  by (induction xs rule: pairs.induct) auto

lemma pairs_nth: "i < length xs div 2 \<Longrightarrow> pairs xs ! i = (xs ! (2 * i), xs ! (2 * i + 1))"
proof (induction xs arbitrary: i rule: pairs.induct)
  case (1 a b xs)
  then show ?case by (cases i) auto
qed auto

lemma segment_two: "Suc a < length xs \<Longrightarrow> segment a (a + 2) xs = [xs ! a, xs ! Suc a]"
  by (auto simp: segment_def numeral_2_eq_2 less_Suc_eq intro!: nth_equalityI)

lemma ins_req_many:
  assumes "edge_law E" "p \<le> length xs"
  shows "(ins_req E p n ^^ k) xs = take p xs @ replicate k n @ drop p xs"
proof (induction k)
  case (Suc k)
  then have "(ins_req E p n ^^ Suc k) xs = ins_req E p n (take p xs @ replicate k n @ drop p xs)" by simp
  also have "\<dots> = take p xs @ replicate (Suc k) n @ drop p xs" using assms by (simp add: edge_law_def)
  finally show ?case .
qed simp


subsection \<open>Operations\<close>

lemma nof_monitors_pairs: "jvms_layout j \<Longrightarrow> js_endoff j \<le> length xs \<Longrightarrow> nof_monitors j = int (length (v_monitors (view_of xs j)))"
  by (auto simp: jvms_layout_def nof_monitors_def mon_size_def view_of_def drop_bit_Suc zdiv_int of_nat_diff)

lemma chain_ok_layout: "chain_ok js \<Longrightarrow> c \<in> set js \<Longrightarrow> jvms_layout c"
  by (induction js) auto

lemma callers_before: "chain_ok (j # js) \<Longrightarrow> c \<in> set js \<Longrightarrow> jvms_layout c \<and> js_endoff c \<le> js_locoff j"
  using chain_ok_layout [of js c] by simp

text \<open>A change behind the locals of the youngest state does not touch the callers.\<close>

lemma callers_view:
  assumes "chain_ok (j # js)" and "\<And>a b. b \<le> js_locoff j \<Longrightarrow> segment a b ys = segment a b xs"
  shows "map (view_of ys) js = map (view_of xs) js"
proof (rule map_cong [OF refl])
  fix c assume "c \<in> set js"
  from callers_before [OF assms(1) this] have "js_stkoff c \<le> js_locoff j" "js_monoff c \<le> js_locoff j" "js_scloff c \<le> js_locoff j" "js_endoff c \<le> js_locoff j"
    by (auto simp: jvms_layout_def)
  then show "view_of ys c = view_of xs c" by (simp add: view_of_def assms(2))
qed

lemma sfpt_cases:
  assumes "sfpt_ok s"
  obtains j js where "sp_jvms s = j # js" "js_endoff j = length (sp_in s)" "jvms_layout j" "chain_ok (j # js)"
  using assms by (auto simp: sfpt_ok_def)

lemma chain_ok_youngest: "chain_ok (j # js) \<Longrightarrow> jvms_layout k \<Longrightarrow> js_depth k = js_depth j \<Longrightarrow> js_method k = js_method j \<Longrightarrow> js_locoff k = js_locoff j \<Longrightarrow> chain_ok (k # js)"
  by simp

lemma push_monitor_views:
  assumes E: "edge_law E" and s: "sfpt_ok s" and v: "views s = v # vs"
  shows "\<exists>s'. push_monitor E True box obj s = Some s' \<and> sfpt_ok s' \<and> views s' = v\<lparr>v_monitors := v_monitors v @ [(box, obj)]\<rparr> # vs"
proof -
  from s obtain j js where j: "sp_jvms s = j # js" "js_endoff j = length (sp_in s)" "jvms_layout j" "chain_ok (j # js)" by (rule sfpt_cases)
  have vv: "v = view_of (sp_in s) j" "vs = map (view_of (sp_in s)) js" using v j(1) by (simp_all add: views_def)
  define p where "p = js_scloff j"
  have le: "js_locoff j \<le> js_stkoff j" "js_stkoff j \<le> js_monoff j" "js_monoff j \<le> p" "p \<le> length (sp_in s)" "even (p - js_monoff j)"
    using j(2,3) by (auto simp: jvms_layout_def p_def)
  define xs where "xs = take p (sp_in s) @ [box, obj] @ drop p (sp_in s)"
  have "ins_req E p box (sp_in s) = take p (sp_in s) @ box # drop p (sp_in s)" using E le(4) by (simp add: edge_law_def)
  moreover have "ins_req E (p + 1) obj (take p (sp_in s) @ box # drop p (sp_in s)) = xs" using E le(4) by (simp add: edge_law_def xs_def)
  ultimately have ins: "ins_req E (p + 1) obj (ins_req E p box (sp_in s)) = xs" by simp
  define k where "k = j\<lparr>js_scloff := p + 2, js_endoff := length xs\<rparr>"
  have len: "length xs = length (sp_in s) + 2" using le by (simp add: xs_def)
  have push: "push_monitor E True box obj s = Some \<lparr>sp_in = xs, sp_jvms = k # js\<rparr>"
    using j(1,2) ins by (simp add: push_monitor_def Let_def youngest_def k_def p_def)
  have "jvms_layout k" using le len by (auto simp: jvms_layout_def k_def)
  with j(4) have ok: "chain_ok (k # js)" by (rule chain_ok_youngest) (simp_all add: k_def)
  have two: "length [box, obj] = 2" by simp
  have "segment (p + 2) (length (sp_in s) + 2) xs = segment p (length (sp_in s)) (sp_in s)"
    using segment_insert_after [of p p "sp_in s" "[box, obj]" "length (sp_in s)"] le by (simp add: xs_def)
  moreover have "segment (js_monoff j) (p + 2) xs = segment (js_monoff j) p (sp_in s) @ [box, obj]"
    using segment_insert_at [of "js_monoff j" p "sp_in s" "[box, obj]"] le by (simp add: xs_def)
  moreover have "segment a b xs = segment a b (sp_in s)" if "b \<le> js_monoff j" for a b
    unfolding xs_def by (rule segment_insert_before) (use that le in auto)
  ultimately have view_of: "view_of xs k = (view_of (sp_in s) j)\<lparr>v_monitors := v_monitors (view_of (sp_in s) j) @ [(box, obj)]\<rparr>"
    using le len j(2) by (simp add: view_of_def k_def pairs_append p_def)
  have "map (view_of xs) js = map (view_of (sp_in s)) js"
    by (rule callers_view [OF j(4)], unfold xs_def, rule segment_insert_before) (use le in auto)
  with view_of have "views \<lparr>sp_in = xs, sp_jvms = k # js\<rparr> = v\<lparr>v_monitors := v_monitors v @ [(box, obj)]\<rparr> # vs"
    using vv by (simp add: views_def)
  moreover have "sfpt_ok \<lparr>sp_in = xs, sp_jvms = k # js\<rparr>" using ok by (simp add: sfpt_ok_def k_def)
  ultimately show ?thesis using push by blast
qed

lemma grow_stack_views:
  assumes E: "edge_law E" and s: "sfpt_ok s" and v: "views s = v # vs" and n: "0 < n"
  shows "\<exists>s'. grow_stack E n s = Some s' \<and> sfpt_ok s' \<and> views s' = v\<lparr>v_stack := v_stack v @ replicate n (top_node E)\<rparr> # vs"
proof -
  from s obtain j js where j: "sp_jvms s = j # js" "js_endoff j = length (sp_in s)" "jvms_layout j" "chain_ok (j # js)" by (rule sfpt_cases)
  have vv: "v = view_of (sp_in s) j" "vs = map (view_of (sp_in s)) js" using v j(1) by (simp_all add: views_def)
  define p where "p = js_monoff j"
  have le: "js_locoff j \<le> js_stkoff j" "js_stkoff j \<le> p" "p \<le> js_scloff j" "p \<le> length (sp_in s)" "js_scloff j \<le> length (sp_in s)"
    "even (js_scloff j - p)" using j(2,3) by (auto simp: jvms_layout_def p_def)
  define zs where "zs = replicate n (top_node E)"
  define xs where "xs = take p (sp_in s) @ zs @ drop p (sp_in s)"
  define k where "k = j\<lparr>js_monoff := p + n, js_scloff := js_scloff j + n, js_endoff := js_endoff j + n\<rparr>"
  have len: "length xs = length (sp_in s) + n" "length zs = n" using le by (simp_all add: xs_def zs_def)
  have grow: "grow_stack E n s = Some \<lparr>sp_in = xs, sp_jvms = k # js\<rparr>"
    using j(1,2) n ins_req_many [OF E le(4), of n "top_node E"] by (simp add: grow_stack_def youngest_def k_def p_def xs_def zs_def)
  have "jvms_layout k" using le j(2) by (auto simp: jvms_layout_def k_def)
  with j(4) have ok: "chain_ok (k # js)" by (rule chain_ok_youngest) (simp_all add: k_def)
  have "segment (a + n) (b + n) xs = segment a b (sp_in s)" if "p \<le> a" for a b
    using segment_insert_after [of p a "sp_in s" zs b] that le len by (simp add: xs_def)
  moreover have "segment (js_stkoff j) (p + n) xs = segment (js_stkoff j) p (sp_in s) @ zs"
    using segment_insert_at [of "js_stkoff j" p "sp_in s" zs] le len by (simp add: xs_def)
  moreover have "segment a b xs = segment a b (sp_in s)" if "b \<le> p" for a b
    unfolding xs_def by (rule segment_insert_before) (use that le in auto)
  ultimately have view_of: "view_of xs k = (view_of (sp_in s) j)\<lparr>v_stack := v_stack (view_of (sp_in s) j) @ zs\<rparr>"
    using le by (simp add: view_of_def k_def p_def)
  have "map (view_of xs) js = map (view_of (sp_in s)) js"
    by (rule callers_view [OF j(4)], unfold xs_def, rule segment_insert_before) (use le in auto)
  with view_of have "views \<lparr>sp_in = xs, sp_jvms = k # js\<rparr> = v\<lparr>v_stack := v_stack v @ zs\<rparr> # vs"
    using vv by (simp add: views_def)
  moreover have "sfpt_ok \<lparr>sp_in = xs, sp_jvms = k # js\<rparr>" using ok j(2) len by (simp add: sfpt_ok_def k_def)
  ultimately show ?thesis using grow by (auto simp: zs_def)
qed

lemma last_monitor:
  assumes "jvms_layout j" "js_endoff j = length xs" and m: "v_monitors (view_of xs j) \<noteq> []"
  shows "js_monoff j + 2 \<le> js_scloff j"
    "v_monitors (view_of xs j) = pairs (segment (js_monoff j) (js_scloff j - 2) xs) @ [(xs ! (js_scloff j - 2), xs ! (js_scloff j - 1))]"
proof -
  define p where "p = js_scloff j"
  have le: "js_monoff j \<le> p" "p \<le> length xs" "even (p - js_monoff j)" using assms(1,2) by (auto simp: jvms_layout_def p_def)
  from m have "length (pairs (segment (js_monoff j) p xs)) \<noteq> 0" by (simp add: view_of_def p_def del: pairs_length)
  then have d: "2 \<le> p - js_monoff j" using le by (simp add: div_eq_0_iff)
  then show ge: "js_monoff j + 2 \<le> js_scloff j" by (simp add: p_def)
  have "segment (p - 2) p xs = [xs ! (p - 2), xs ! (p - 1)]"
    using segment_two [of "p - 2" xs] d le by (simp add: Suc_diff_Suc numeral_2_eq_2)
  moreover have "segment (js_monoff j) p xs = segment (js_monoff j) (p - 2) xs @ segment (p - 2) p xs"
    by (rule segment_append) (use d in auto)
  moreover have "even (length (segment (js_monoff j) (p - 2) xs))" using le d by simp
  ultimately show "v_monitors (view_of xs j) = pairs (segment (js_monoff j) (js_scloff j - 2) xs) @ [(xs ! (js_scloff j - 2), xs ! (js_scloff j - 1))]"
    by (simp add: view_of_def p_def pairs_append)
qed


lemma pop_monitor_views:
  assumes E: "edge_law E" and s: "sfpt_ok s" and v: "views s = v # vs" and m: "v_monitors v \<noteq> []"
  shows "\<exists>s'. pop_monitor E s = Some s' \<and> sfpt_ok s' \<and> views s' = v\<lparr>v_monitors := butlast (v_monitors v)\<rparr> # vs"
proof -
  from s obtain j js where j: "sp_jvms s = j # js" "js_endoff j = length (sp_in s)" "jvms_layout j" "chain_ok (j # js)" by (rule sfpt_cases)
  have vv: "v = view_of (sp_in s) j" "vs = map (view_of (sp_in s)) js" using v j(1) by (simp_all add: views_def)
  note last = last_monitor [OF j(3,2) m [unfolded vv(1)]]
  define p where "p = js_scloff j"
  have le: "js_locoff j \<le> js_stkoff j" "js_stkoff j \<le> js_monoff j" "js_monoff j + 2 \<le> p" "p \<le> length (sp_in s)" "even (p - js_monoff j)"
    using j(2,3) last(1) by (auto simp: jvms_layout_def p_def)
  define xs where "xs = take (p - 2) (sp_in s) @ drop p (sp_in s)"
  have "del_req_ordered E (p - 1) (sp_in s) = take (p - 1) (sp_in s) @ drop p (sp_in s)" using E le by (simp add: edge_law_def)
  moreover have "del_req_ordered E (p - 2) (take (p - 1) (sp_in s) @ drop p (sp_in s)) = xs"
  proof -
    have "p - 2 < length (take (p - 1) (sp_in s) @ drop p (sp_in s))" "Suc (p - 2) = p - 1" "min (p - 2) (p - 1) = p - 2" "min (length (sp_in s)) (p - 1) = p - 1"
      using le by auto
    then show ?thesis using E by (simp add: edge_law_def xs_def)
  qed
  ultimately have del: "del_req_ordered E (p - 2) (del_req_ordered E (p - 1) (sp_in s)) = xs" by simp
  define k where "k = j\<lparr>js_scloff := p - 2, js_endoff := js_endoff j - 2\<rparr>"
  have len: "length xs = length (sp_in s) - 2" using le by (simp add: xs_def)
  have "mon_size k = mon_size j - 2" using le by (simp add: mon_size_def k_def p_def of_nat_diff)
  then have "nof_monitors k = nof_monitors j - 1" by (simp add: nof_monitors_def drop_bit_Suc)
  then have pop: "pop_monitor E s = Some \<lparr>sp_in = xs, sp_jvms = k # js\<rparr>"
    using j(1,2) del le by (simp add: pop_monitor_def Let_def youngest_def k_def p_def)
  have "jvms_layout k" using le j(2) by (auto simp: jvms_layout_def k_def)
  with j(4) have ok: "chain_ok (k # js)" by (rule chain_ok_youngest) (simp_all add: k_def)
  have "segment (p - 2) (length (sp_in s) - 2) xs = segment p (length (sp_in s)) (sp_in s)"
    using segment_delete_after [of p p "p - 2" "sp_in s" "length (sp_in s)"] le by (simp add: xs_def)
  moreover have before: "segment a b xs = segment a b (sp_in s)" if "b \<le> p - 2" for a b
    unfolding xs_def by (rule segment_delete_before) (use that le in auto)
  ultimately have view_of: "view_of xs k = v\<lparr>v_monitors := butlast (v_monitors v)\<rparr>"
    unfolding vv(1) last(2) using le j(2) by (simp add: view_of_def k_def p_def)
  have "map (view_of xs) js = map (view_of (sp_in s)) js"
    by (rule callers_view [OF j(4)], rule before) (use le in auto)
  with view_of have "views \<lparr>sp_in = xs, sp_jvms = k # js\<rparr> = v\<lparr>v_monitors := butlast (v_monitors v)\<rparr> # vs"
    using vv by (simp add: views_def)
  moreover have "sfpt_ok \<lparr>sp_in = xs, sp_jvms = k # js\<rparr>" using ok j(2) len by (simp add: sfpt_ok_def k_def)
  ultimately show ?thesis using pop by blast
qed

lemma peek_monitor_views:
  assumes s: "sfpt_ok s" and v: "views s = v # vs" and m: "v_monitors v \<noteq> []"
  shows "peek_monitor_box s = Some (fst (last (v_monitors v)))" "peek_monitor_obj s = Some (snd (last (v_monitors v)))"
proof -
  from s obtain j js where j: "sp_jvms s = j # js" "js_endoff j = length (sp_in s)" "jvms_layout j" "chain_ok (j # js)" by (rule sfpt_cases)
  have vv: "v = view_of (sp_in s) j" using v j(1) by (simp add: views_def)
  note last = last_monitor [OF j(3,2) m [unfolded vv]]
  have "even (js_scloff j - js_monoff j)" using j(3) last(1) by (auto simp: jvms_layout_def)
  then obtain q where "js_scloff j - js_monoff j = 2 * q" by (rule evenE)
  with last(1) have q: "js_scloff j = js_monoff j + 2 * q" "0 < q" by auto
  have "nof_monitors j - 1 = int (q - 1)" using q by (simp add: nof_monitors_def mon_size_def drop_bit_Suc of_nat_diff)
  moreover have "js_monoff j + push_bit 1 (q - 1) = js_scloff j - 2" using q by (simp add: push_bit_eq_mult)
  moreover have "js_monoff j + push_bit 1 (q - 1) + 1 = js_scloff j - 1" using q by (simp add: push_bit_eq_mult)
  ultimately show "peek_monitor_box s = Some (fst (List.last (v_monitors v)))" "peek_monitor_obj s = Some (snd (List.last (v_monitors v)))"
    unfolding vv last(2) using j(1) by (simp_all add: peek_monitor_box_def peek_monitor_obj_def Let_def monitor_box_offset_def monitor_obj_offset_def)
qed

text \<open>Edges inserted before the oldest state, with \<open>adapt_position\<close>, leave every scope as it is.\<close>

lemma adapt_position_views:
  assumes s: "sfpt_ok s" and p: "\<And>j. j \<in> set (sp_jvms s) \<Longrightarrow> p \<le> js_locoff j"
  shows "views \<lparr>sp_in = take p (sp_in s) @ zs @ drop p (sp_in s), sp_jvms = adapt_position (int (length zs)) (sp_jvms s)\<rparr> = views s"
proof -
  have "view_of (take p (sp_in s) @ zs @ drop p (sp_in s)) (adapt_state (int (length zs)) j) = view_of (sp_in s) j" if "j \<in> set (sp_jvms s)" for j
  proof -
    from s obtain k ks where k: "sp_jvms s = k # ks" "js_endoff k = length (sp_in s)" "jvms_layout k" "chain_ok (k # ks)" by (rule sfpt_cases)
    have lay: "jvms_layout j" using chain_ok_layout [OF k(4)] that k(1) by simp
    have "js_locoff k \<le> length (sp_in s)" using k(2,3) by (auto simp: jvms_layout_def)
    moreover have "p \<le> js_locoff k" using p k(1) by simp
    ultimately have len: "p \<le> length (sp_in s)" by simp
    have off: "p \<le> js_locoff j" "p \<le> js_stkoff j" "p \<le> js_monoff j" "p \<le> js_scloff j"
      using p [OF that] lay by (auto simp: jvms_layout_def)
    have nat_add: "nat (int a + int b) = a + b" for a b by simp
    show ?thesis
      unfolding view_of_def adapt_state_def by (simp add: nat_add off segment_insert_after [OF _ len])
  qed
  then show ?thesis by (simp add: views_def adapt_position_def)
qed


section \<open>Chains\<close>

lemma chain_depth: "chain_ok (j # js) \<Longrightarrow> js_depth j = length (j # js)"
  by simp

lemma chain_ok_drop: "chain_ok js \<Longrightarrow> chain_ok (drop k js)"
  by (induction js arbitrary: k) (auto simp: drop_Cons split: nat.split)

lemma of_depth_drop:
  assumes "chain_ok js" "0 < d" "d \<le> length js"
  shows "of_depth d js = Some (drop (length js - d) js)"
proof -
  obtain j cs where j: "js = j # cs" using assms(2,3) by (cases js) auto
  then have dep: "js_depth j = length js" using assms(1) by simp
  have len: "length (drop (length js - d) js) = d" using assms(3) by simp
  then obtain p ps where p: "drop (length js - d) js = p # ps" using assms(2) by (cases "drop (length js - d) js") auto
  with len chain_ok_drop [OF assms(1), of "length js - d"] have "js_depth p = d" by simp
  with p dep assms(2,3) j show ?thesis by (simp add: of_depth_def)
qed

text \<open>A copy of a chain has the same states: what the constructor sets is set again, or the same.\<close>

lemma clone_shallow_same: "chain_ok (j # js) \<Longrightarrow> clone_shallow parms map0 (j # js) = Some (j # js)"
  by (auto simp: clone_shallow_def new_JVMState_def new_root_JVMState_def set_bci_def split: option.split list.split
      intro!: jvm_state.equality)

lemma clone_deep_same: "chain_ok js \<Longrightarrow> js \<noteq> [] \<Longrightarrow> clone_deep parms map0 js = Some js"
proof -
  have "chain_ok js \<Longrightarrow> clone_callers parms map0 (length js) js = Some js" for js
    by (induction js) (simp_all add: clone_shallow_same)
  then show "chain_ok js \<Longrightarrow> js \<noteq> [] \<Longrightarrow> clone_deep parms map0 js = Some js" by (simp add: clone_deep_def)
qed

text \<open>\<open>set_map_deep\<close> leaves the map of the oldest state, and so of a state without callers, as it was.\<close>

lemma set_map_deep_root: "js \<noteq> [] \<Longrightarrow> last (set_map_deep m js) = last js"
proof (induction m js rule: set_map_deep.induct)
  case (1 m j c js)
  have "set_map_deep m (c # js) \<noteq> []" by (cases js) auto
  with 1 show ?case by simp
qed auto

text \<open>The call chain: the methods and bytecodes, down to a state without a method.\<close>

fun calls :: "jvms \<Rightarrow> (ci_method \<times> int \<times> reexecute_state) option list" where
  "calls [] = []"
| "calls (p # ps) = (case js_method p of None \<Rightarrow> [None] | Some m \<Rightarrow> Some (m, js_bci p, js_reexecute p) # calls ps)"

lemma calls_length: "chain_ok js \<Longrightarrow> length (calls js) = length js"
  by (induction js) (auto split: option.split)

lemma calls_loop_calls:
  "\<lbrakk>\<And>a b. same a b \<Longrightarrow> a = b; same [] []; chain_ok p; chain_ok q; length p = length q; p \<noteq> []\<rbrakk> \<Longrightarrow>
    calls_loop same p q = Some (calls p = calls q)"
proof (induction same p q rule: calls_loop.induct)
  case (1 same p ps q qs)
  have ok: "chain_ok ps" "chain_ok qs" "length ps = length qs" using "1.prems" by auto
  show ?case
  proof (cases "same ps qs")
    case True
    then have "ps = qs" using "1.prems"(1) by blast
    with True show ?thesis by (auto split: option.split)
  next
    case False
    then have "ps \<noteq> []" using "1.prems"(2) ok(3) by auto
    with 1(1) False "1.prems"(1,2) ok
    have ih: "js_method p = js_method q \<Longrightarrow> js_method p \<noteq> None \<Longrightarrow> js_bci p = js_bci q \<Longrightarrow> js_reexecute p = js_reexecute q \<Longrightarrow>
      calls_loop same ps qs = Some (calls ps = calls qs)" by blast
    with False show ?thesis by (auto split: option.split)
  qed
qed auto

lemma same_calls_as_calls:
  assumes "\<And>a b. same a b \<Longrightarrow> a = b" "same [] []" "chain_ok p" "chain_ok q" "p \<noteq> []" "q \<noteq> []"
  shows "same_calls_as same p q = Some (calls p = calls q)"
proof (cases "same p q")
  case True
  with assms(1) have "p = q" by blast
  with True show ?thesis by (simp add: same_calls_as_def)
next
  case False
  obtain j js k ks where j: "p = j # js" "q = k # ks" using assms(5,6) by (metis list.exhaust)
  show ?thesis
  proof (cases "length p = length q")
    case True
    have "calls_loop same p q = Some (calls p = calls q)" using assms True by (intro calls_loop_calls) blast+
    with False True assms(3,4) j show ?thesis by (simp add: same_calls_as_def)
  next
    case False
    then have "calls p \<noteq> calls q" using calls_length [OF assms(3)] calls_length [OF assms(4)] by metis
    with \<open>\<not> same p q\<close> False assms(3,4) j show ?thesis by (simp add: same_calls_as_def)
  qed
qed

section \<open>Locals of two slots\<close>

text \<open>A long or a double is followed by top.\<close>

definition wide_paired :: "edge_ops \<Rightarrow> node list \<Rightarrow> bool" where
  "wide_paired E ls \<longleftrightarrow> (\<forall>i < length ls. wide E (ls ! i) \<longrightarrow> Suc i < length ls \<and> ls ! Suc i = top_node E)"

definition new_locals :: "edge_ops \<Rightarrow> nat \<Rightarrow> node \<Rightarrow> node list \<Rightarrow> node list" where
  "new_locals E i c ls =
     (let b = (ls ! i = top_node E \<and> 0 < i \<and> c \<noteq> top_node E \<and> wide E (ls ! (i - 1)))
      in (if b then ls[i - 1 := top_node E] else ls)[i := c])"

lemma set_local_view:
  assumes E: "edge_law E" and s: "sfpt_ok s" and v: "views s = v # vs" and i: "i < length (v_locals v)"
  shows "\<exists>s'. set_local E i c s = Some s' \<and> sfpt_ok s' \<and> views s' = v\<lparr>v_locals := new_locals E i c (v_locals v)\<rparr> # vs"
proof -
  from s obtain j js where j: "sp_jvms s = j # js" "js_endoff j = length (sp_in s)" "jvms_layout j" "chain_ok (j # js)" by (rule sfpt_cases)
  have vv: "v = view_of (sp_in s) j" "vs = map (view_of (sp_in s)) js" using v j(1) by (simp_all add: views_def)
  have le: "js_locoff j \<le> js_stkoff j" "js_stkoff j \<le> js_monoff j" "js_monoff j \<le> js_scloff j" "js_scloff j \<le> length (sp_in s)"
    using j(2,3) by (auto simp: jvms_layout_def)
  define ls where "ls = v_locals v"
  have i': "i < js_stkoff j - js_locoff j" using i vv le by (simp add: view_of_def)
  have nth: "ls ! k = sp_in s ! (js_locoff j + k)" if "k < js_stkoff j - js_locoff j" for k
    using that le vv by (simp add: ls_def view_of_def segment_nth)
  define b where "b \<longleftrightarrow> ls ! i = top_node E \<and> 0 < i \<and> c \<noteq> top_node E \<and> wide E (ls ! (i - 1))"
  have bs: "b \<longleftrightarrow> sp_in s ! (js_locoff j + i) = top_node E \<and> 0 < i \<and> c \<noteq> top_node E \<and> wide E (sp_in s ! (js_locoff j + i - 1))"
    using nth [of i] nth [of "i - 1"] i' by (auto simp: b_def)
  define xs where "xs = (if b then (sp_in s)[js_locoff j + i - 1 := top_node E] else sp_in s)[js_locoff j + i := c]"
  have set: "set_local E i c s = Some (s\<lparr>sp_in := xs\<rparr>)"
    using j(1) i' le by (auto simp: set_local_def Let_def xs_def bs)
  have len: "length xs = length (sp_in s)" by (simp add: xs_def)
  have other: "xs ! k = sp_in s ! k" if "k < js_locoff j \<or> js_stkoff j \<le> k" for k
    using that i' by (auto simp: xs_def bs nth_list_update)
  have out: "segment a e xs = segment a e (sp_in s)" if "(e \<le> js_locoff j \<or> js_stkoff j \<le> a) \<and> e \<le> length (sp_in s)" for a e
    by (rule nth_equalityI) (use that len in \<open>auto simp: segment_nth intro!: other\<close>)
  have loc: "segment (js_locoff j) (js_stkoff j) xs = (if b then ls[i - 1 := top_node E] else ls)[i := c]"
  proof (rule nth_equalityI)
    show "length (segment (js_locoff j) (js_stkoff j) xs) = length ((if b then ls[i - 1 := top_node E] else ls)[i := c])"
      using le len vv by (simp add: ls_def view_of_def)
    fix k assume "k < length (segment (js_locoff j) (js_stkoff j) xs)"
    then have k: "k < js_stkoff j - js_locoff j" using le len by simp
    have l: "length ls = js_stkoff j - js_locoff j" using le vv by (simp add: ls_def view_of_def)
    show "segment (js_locoff j) (js_stkoff j) xs ! k = (if b then ls[i - 1 := top_node E] else ls)[i := c] ! k"
      using k le len l i' by (auto simp: segment_nth xs_def nth_list_update nth bs)
  qed
  have "map (view_of xs) js = map (view_of (sp_in s)) js"
  proof (rule map_cong [OF refl])
    fix k assume k: "k \<in> set js"
    from callers_before [OF j(4) k] have "js_stkoff k \<le> js_locoff j" "js_monoff k \<le> js_locoff j" "js_scloff k \<le> js_locoff j" "js_endoff k \<le> js_locoff j"
      by (auto simp: jvms_layout_def)
    then show "view_of xs k = view_of (sp_in s) k" using le by (simp add: view_of_def out)
  qed
  moreover have "view_of xs j = v\<lparr>v_locals := (if b then ls[i - 1 := top_node E] else ls)[i := c]\<rparr>"
    using loc le j(2) by (simp add: vv view_of_def out)
  ultimately have "views (s\<lparr>sp_in := xs\<rparr>) = v\<lparr>v_locals := (if b then ls[i - 1 := top_node E] else ls)[i := c]\<rparr> # vs"
    using j(1) vv(2) by (simp add: views_def)
  moreover have "sfpt_ok (s\<lparr>sp_in := xs\<rparr>)" using s len by (simp add: sfpt_ok_def)
  ultimately show ?thesis using set by (auto simp: new_locals_def b_def ls_def Let_def)
qed

text \<open>The update keeps every long and double whole, or cuts it away.\<close>

lemma set_local_paired:
  assumes E: "edge_law E" and p: "wide_paired E ls" and i: "i < length ls" and c: "\<not> wide E c"
  shows "wide_paired E (new_locals E i c ls)"
proof -
  define b where "b \<longleftrightarrow> ls ! i = top_node E \<and> 0 < i \<and> c \<noteq> top_node E \<and> wide E (ls ! (i - 1))"
  define ms where "ms = (if b then ls[i - 1 := top_node E] else ls)[i := c]"
  have len: "length ms = length ls" by (simp add: ms_def)
  have top: "\<not> wide E (top_node E)" using E by (simp add: edge_law_def)
  have "Suc k < length ms \<and> ms ! Suc k = top_node E" if k: "k < length ms" and w: "wide E (ms ! k)" for k
  proof -
    have ki: "k \<noteq> i" using w c k len by (auto simp: ms_def)
    moreover have kb: "\<not> (b \<and> k = i - 1)" using w top k ki len by (auto simp: ms_def)
    ultimately have wk: "wide E (ls ! k)" using w k by (auto simp: ms_def nth_list_update split: if_splits)
    with p k len have s: "Suc k < length ls" "ls ! Suc k = top_node E" by (auto simp: wide_paired_def)
    have "ms ! Suc k = top_node E"
    proof (cases "Suc k = i")
      case True
      then have "b \<or> c = top_node E" using s wk by (auto simp: b_def)
      with True kb i show ?thesis by (auto simp: ms_def)
    next
      case False
      then show ?thesis using s i by (auto simp: ms_def nth_list_update)
    qed
    with s len show ?thesis by simp
  qed
  then have "wide_paired E ms" by (simp add: wide_paired_def)
  then show ?thesis by (simp add: new_locals_def ms_def b_def Let_def)
qed

text \<open>A long or double is set as two locals, the second one top.\<close>

lemma set_local_wide:
  assumes E: "edge_law E" and p: "wide_paired E ls" and i: "Suc i < length ls" and c: "wide E c"
  shows "wide_paired E (new_locals E (Suc i) (top_node E) (new_locals E i c ls))"
proof -
  define b where "b \<longleftrightarrow> ls ! i = top_node E \<and> 0 < i \<and> c \<noteq> top_node E \<and> wide E (ls ! (i - 1))"
  define ms where "ms = (if b then ls[i - 1 := top_node E] else ls)[i := c, Suc i := top_node E]"
  have len: "length ms = length ls" by (simp add: ms_def)
  have top: "\<not> wide E (top_node E)" using E by (simp add: edge_law_def)
  have ct: "c \<noteq> top_node E" using c top by auto
  have "Suc k < length ms \<and> ms ! Suc k = top_node E" if k: "k < length ms" and w: "wide E (ms ! k)" for k
  proof (cases "k = i")
    case True
    then show ?thesis using i by (simp add: ms_def)
  next
    case ki: False
    have "k \<noteq> Suc i" using w top i by (auto simp: ms_def)
    moreover have kb: "\<not> (b \<and> k = i - 1)" using w top k ki len \<open>k \<noteq> Suc i\<close> by (auto simp: ms_def)
    ultimately have wk: "wide E (ls ! k)" using w k ki by (auto simp: ms_def nth_list_update split: if_splits)
    with p k len have s: "Suc k < length ls" "ls ! Suc k = top_node E" by (auto simp: wide_paired_def)
    have "Suc k \<noteq> i" using s wk kb ct by (auto simp: b_def)
    with s i show ?thesis by (auto simp: ms_def nth_list_update)
  qed
  then have "wide_paired E ms" by (simp add: wide_paired_def)
  then show ?thesis by (simp add: new_locals_def ms_def b_def Let_def)
qed


section \<open>The stack of monitors\<close>

text \<open>
  C18: A safepoint is a stack of monitors beside locals, an expression stack and scalars. With the layout kept by every
  operation, \<open>push_monitor\<close> adds the pair of a lock and its object on top of the monitors of the youngest scope,
  \<open>pop_monitor\<close> takes the last pair away, the two peeks read it, and \<open>grow_stack\<close> adds tops to the expression
  stack, although every one of them moves the edges behind it; setting a local changes that local and at most the one before it. Nothing else of the scope and nothing of its callers
  changes, and every long and double in the locals stays followed by top.
\<close>

theorem monitor_stack_refines:
  assumes E: "edge_law E" and s: "sfpt_ok s" and v: "views s = v # vs"
  shows "(\<exists>s'. push_monitor E True box obj s = Some s' \<and> sfpt_ok s' \<and> views s' = v\<lparr>v_monitors := v_monitors v @ [(box, obj)]\<rparr> # vs \<and>
       peek_monitor_box s' = Some box \<and> peek_monitor_obj s' = Some obj) \<and>
    (v_monitors v \<noteq> [] \<longrightarrow>
       (\<exists>s'. pop_monitor E s = Some s' \<and> sfpt_ok s' \<and> views s' = v\<lparr>v_monitors := butlast (v_monitors v)\<rparr> # vs) \<and>
       peek_monitor_box s = Some (fst (last (v_monitors v))) \<and> peek_monitor_obj s = Some (snd (last (v_monitors v)))) \<and>
    (0 < n \<longrightarrow> (\<exists>s'. grow_stack E n s = Some s' \<and> sfpt_ok s' \<and> views s' = v\<lparr>v_stack := v_stack v @ replicate n (top_node E)\<rparr> # vs)) \<and>
    (i < length (v_locals v) \<longrightarrow> (\<exists>s' ls. set_local E i c s = Some s' \<and> sfpt_ok s' \<and> views s' = v\<lparr>v_locals := ls\<rparr> # vs \<and>
       length ls = length (v_locals v) \<and> ls ! i = c \<and> (\<forall>k. k \<noteq> i \<and> Suc k \<noteq> i \<longrightarrow> ls ! k = v_locals v ! k) \<and>
       (wide_paired E (v_locals v) \<and> \<not> wide E c \<longrightarrow> wide_paired E ls)))"
proof (intro conjI impI)
  obtain s' where s': "push_monitor E True box obj s = Some s'" "sfpt_ok s'" "views s' = v\<lparr>v_monitors := v_monitors v @ [(box, obj)]\<rparr> # vs"
    using push_monitor_views [OF E s v] by blast
  from peek_monitor_views [OF s'(2,3)] s'
  show "\<exists>s'. push_monitor E True box obj s = Some s' \<and> sfpt_ok s' \<and> views s' = v\<lparr>v_monitors := v_monitors v @ [(box, obj)]\<rparr> # vs \<and>
      peek_monitor_box s' = Some box \<and> peek_monitor_obj s' = Some obj" by simp
next
  assume i: "i < length (v_locals v)"
  let ?ls = "new_locals E i c (v_locals v)"
  have ls: "length ?ls = length (v_locals v)" "?ls ! i = c" "\<forall>k. k \<noteq> i \<and> Suc k \<noteq> i \<longrightarrow> ?ls ! k = v_locals v ! k"
    using i by (auto simp: new_locals_def Let_def)
  show "\<exists>s' ls. set_local E i c s = Some s' \<and> sfpt_ok s' \<and> views s' = v\<lparr>v_locals := ls\<rparr> # vs \<and>
      length ls = length (v_locals v) \<and> ls ! i = c \<and> (\<forall>k. k \<noteq> i \<and> Suc k \<noteq> i \<longrightarrow> ls ! k = v_locals v ! k) \<and>
      (wide_paired E (v_locals v) \<and> \<not> wide E c \<longrightarrow> wide_paired E ls)"
    using set_local_view [OF E s v i, of c] set_local_paired [OF E _ i, of c] ls by blast
qed (use pop_monitor_views [OF E s v] peek_monitor_views [OF s v] grow_stack_views [OF E s v] in simp_all)

text \<open>A safepoint in an inlined method: a local, an operand and no monitor, under a caller with a monitor.\<close>

definition sample_edges :: edge_ops where
  "sample_edges = \<lparr>ins_req = (\<lambda>i n xs. take i xs @ n # drop i xs), del_req_ordered = (\<lambda>i xs. take i xs @ drop (Suc i) xs),
     top_node = 1, wide = (\<lambda>n. n = 9)\<rparr>"

definition sample_sfpt :: sfpt_node where
  "sample_sfpt = \<lparr>sp_in = [2, 3, 4, 5, 6, 20, 30, 31, 9, 1, 22, 50],
     sp_jvms = [\<lparr>js_depth = 2, js_locoff = 8, js_stkoff = 10, js_monoff = 11, js_scloff = 11, js_endoff = 12, js_sp = 1, js_bci = 4,
                 js_reexecute = Reexecute_False, js_method = Some \<lparr>m_id = 1, m_max_locals = 2, m_max_stack = 1\<rparr>, js_map = 0\<rparr>,
                \<lparr>js_depth = 1, js_locoff = 5, js_stkoff = 6, js_monoff = 6, js_scloff = 8, js_endoff = 8, js_sp = 0, js_bci = 7,
                 js_reexecute = Reexecute_False, js_method = Some \<lparr>m_id = 0, m_max_locals = 1, m_max_stack = 0\<rparr>, js_map = 0\<rparr>]\<rparr>"

lemma sample_edges_law: "edge_law sample_edges"
  by (simp add: edge_law_def sample_edges_def)

lemma sample_sfpt_ok: "sfpt_ok sample_sfpt"
  by (simp add: sfpt_ok_def sample_sfpt_def jvms_layout_def)

lemma sample_views: "views sample_sfpt =
  \<lparr>v_locals = [9, 1], v_stack = [22], v_monitors = [], v_scalars = [50]\<rparr> # [\<lparr>v_locals = [20], v_stack = [], v_monitors = [(30, 31)], v_scalars = []\<rparr>]"
  by (simp add: views_def view_of_def sample_sfpt_def segment_def numeral_2_eq_2)

theorem monitor_stack_refines_witness:
  "(\<exists>s'. push_monitor sample_edges True 40 41 sample_sfpt = Some s' \<and> sfpt_ok s' \<and>
      views s' = [\<lparr>v_locals = [9, 1], v_stack = [22], v_monitors = [(40, 41)], v_scalars = [50]\<rparr>,
                  \<lparr>v_locals = [20], v_stack = [], v_monitors = [(30, 31)], v_scalars = []\<rparr>] \<and>
      peek_monitor_box s' = Some 40 \<and> peek_monitor_obj s' = Some 41) \<and>
   (\<exists>s' ls. set_local sample_edges 1 7 sample_sfpt = Some s' \<and> sfpt_ok s' \<and>
      views s' = [\<lparr>v_locals = ls, v_stack = [22], v_monitors = [], v_scalars = [50]\<rparr>,
                  \<lparr>v_locals = [20], v_stack = [], v_monitors = [(30, 31)], v_scalars = []\<rparr>] \<and> ls ! 1 = 7 \<and> wide_paired sample_edges ls)"
proof -
  have w: "wide_paired sample_edges [9, 1]" "\<not> wide sample_edges 7"
    by (simp_all add: wide_paired_def sample_edges_def less_Suc_eq)
  note t = monitor_stack_refines [OF sample_edges_law sample_sfpt_ok sample_views]
  show ?thesis using t [of 40 41 0 1 7] w by auto
qed

end
