(* ===== verification/Debug_Output.thy ===== *)
theory Debug_Output
  imports JVM_State Macro_Walk Scope_Values
begin

text \<open>
  The debug information of a safepoint (\<open>output.cpp\<close>): how the values of locals, operands and monitors are described, the
  pool of scalar replaced and stack allocated objects that the descriptions share, and the order in which safepoints and
  other instructions are recorded.
\<close>

section \<open>What the output phase asks\<close>

datatype type_base = TB_Half | TB_AnyPtr | TB_AryPtr | TB_InstPtr | TB_NarrowOop | TB_Int | TB_RawPtr | TB_FloatBot | TB_FloatCon
  | TB_DoubleBot | TB_DoubleCon | TB_Long | TB_Top | TB_other

datatype location_type = L_normal | L_oop | L_narrowoop | L_int_in_long | L_lng | L_float_in_dbl | L_dbl

text \<open>
  The types and constants of nodes, the registers the allocator chose (\<open>OptoReg\<close>), and the locations of registers and of
  stack slots. A handle is \<open>None\<close> where the code would follow a null pointer.
\<close>

record output_env =
  o_top :: node
  o_base :: "node \<Rightarrow> type_base"
  o_sobj :: "node \<Rightarrow> scalar_object option"
  o_klass_ok :: "node \<Rightarrow> bool"
  o_mirror :: "node \<Rightarrow> nat"
  o_box_lock :: "node \<Rightarrow> node option"
  o_reg_first :: "node \<Rightarrow> int"
  o_is_valid :: "int \<Rightarrow> bool"
  o_is_reg :: "int \<Rightarrow> bool"
  o_reg_loc :: "location_type \<Rightarrow> int \<Rightarrow> Location"
  o_stk_loc :: "location_type \<Rightarrow> int \<Rightarrow> Location"
  o_reg2offset :: "int \<Rightarrow> int"
  o_box_reg :: "node \<Rightarrow> int"
  o_illegal_loc :: Location
  o_is_oop :: "node \<Rightarrow> bool"
  o_const_oop :: "node \<Rightarrow> nat option"
  o_null_handle :: nat
  o_is_null_narrow :: "node \<Rightarrow> bool"
  o_int_con :: "node \<Rightarrow> int"
  o_long_con :: "node \<Rightarrow> int"
  o_raw_con :: "node \<Rightarrow> int"
  o_float_bits :: "node \<Rightarrow> int"
  o_double_con :: "node \<Rightarrow> 64 word"
  o_float_in_double :: bool
  o_int_in_long :: bool
  o_is_BoxLock :: "node \<Rightarrow> bool"
  o_is_eliminated :: "node \<Rightarrow> bool"
  o_is_Con :: "node \<Rightarrow> bool"
  o_needs_monitor :: "ci_method \<Rightarrow> bool"
  o_method :: ci_method
  o_has_method_handle_invokes :: bool

text \<open>A machine safepoint; \<open>mc_call\<close> is there for a call.\<close>

record mach_call =
  mc_is_java :: bool
  mc_method_handle_invoke :: bool
  mc_returns_pointer :: bool
  mc_ret_addr_offset :: int

record mach_safepoint =
  ms_in :: "node list"
  ms_jvms :: jvms
  ms_jvmadj :: nat
  ms_oop_map :: nat
  ms_call :: "mach_call option"

definition ms_input :: "mach_safepoint \<Rightarrow> nat \<Rightarrow> node option" where
  "ms_input sf i = (if i < length (ms_in sf) then Some (ms_in sf ! i) else None)"

text \<open>\<open>count\<close> inputs from \<open>first\<close> on, as the loops over locals, operands, scalars and fields read them.\<close>

definition ms_inputs :: "mach_safepoint \<Rightarrow> nat \<Rightarrow> int \<Rightarrow> node list option" where
  "ms_inputs sf first count =
     (if count \<le> 0 then Some [] else if first + nat count \<le> length (ms_in sf) then Some (segment first (first + nat count) (ms_in sf)) else None)"

section \<open>Values\<close>

definition new_loc_value :: "output_env \<Rightarrow> int \<Rightarrow> location_type \<Rightarrow> scope_value option" where
  "new_loc_value E regnum l_type =
     (if \<not> o_is_valid E regnum then None
      else Some (LocationValue (if o_is_reg E regnum then o_reg_loc E l_type regnum else o_stk_loc E l_type (o_reg2offset E regnum))))"

text \<open>A value in a register or on the stack, of a 64 bit machine: longs and doubles take two entries, the first one empty.\<close>

definition register_values :: "output_env \<Rightarrow> node \<Rightarrow> int \<Rightarrow> scope_value list option" where
  "register_values E local regnum =
     (let t = o_base E local; one = (\<lambda>ty. map_option (\<lambda>v. [v]) (new_loc_value E regnum ty));
          two = (\<lambda>ty. map_option (\<lambda>v. [ConstantIntValue 0, v]) (new_loc_value E regnum ty))
      in if t = TB_DoubleBot \<or> t = TB_DoubleCon then two L_dbl
         else if t = TB_Long then two L_lng
         else if t = TB_RawPtr then one L_lng
         else if (t = TB_FloatBot \<or> t = TB_FloatCon) \<and> o_is_reg E regnum then one (if o_float_in_double E then L_float_in_dbl else L_normal)
         else if t = TB_Int \<and> o_is_reg E regnum then one (if o_int_in_long E then L_int_in_long else L_normal)
         else if t = TB_NarrowOop then one L_narrowoop
         else one (if o_is_oop E local then L_oop else L_normal))"

definition constant_values :: "output_env \<Rightarrow> node \<Rightarrow> scope_value list option" where
  "constant_values E local =
     (case o_base E local of
        TB_AnyPtr \<Rightarrow> Some [ConstantOopWriteValue (o_null_handle E)]
      | TB_AryPtr \<Rightarrow> map_option (\<lambda>h. [ConstantOopWriteValue h]) (o_const_oop E local)
      | TB_InstPtr \<Rightarrow> map_option (\<lambda>h. [ConstantOopWriteValue h]) (o_const_oop E local)
      | TB_NarrowOop \<Rightarrow>
          if o_is_null_narrow E local then Some [ConstantOopWriteValue (o_null_handle E)]
          else map_option (\<lambda>h. [ConstantOopWriteValue h]) (o_const_oop E local)
      | TB_Int \<Rightarrow> Some [ConstantIntValue (o_int_con E local)]
      | TB_RawPtr \<Rightarrow> if o_raw_con E local < 0x10000 then Some [ConstantLongValue (o_raw_con E local)] else None
      | TB_FloatCon \<Rightarrow> Some [ConstantIntValue (o_float_bits E local)]
      | TB_DoubleCon \<Rightarrow> Some [ConstantIntValue 0, ConstantDoubleValue (o_double_con E local)]
      | TB_Long \<Rightarrow> Some [ConstantIntValue 0, ConstantLongValue (o_long_con E local)]
      | TB_Top \<Rightarrow> Some [LocationValue (o_illegal_loc E)]
      | _ \<Rightarrow> None)"

definition plain_values :: "output_env \<Rightarrow> node \<Rightarrow> scope_value list option" where
  "plain_values E local =
     (let regnum = o_reg_first E local
      in if o_is_valid E regnum then register_values E local regnum else constant_values E local)"

section \<open>The pool of objects\<close>

text \<open>The pool is a list; an \<open>ObjectRef\<close> is an index into it.\<close>

definition sv_for_node_id :: "object_value list \<Rightarrow> node \<Rightarrow> nat option" where
  "sv_for_node_id objs i =
     (case filter (\<lambda>k. ov_id (objs ! k) = int i) [0..<length objs] of [] \<Rightarrow> None | k # _ \<Rightarrow> Some k)"

definition set_sv_for_object_node :: "object_value list \<Rightarrow> object_value \<Rightarrow> object_value list" where
  "set_sv_for_object_node objs sv = objs @ [sv]"

definition box_location :: "output_env \<Rightarrow> node \<Rightarrow> Location" where
  "box_location E box = o_stk_loc E L_oop (o_reg2offset E (o_box_reg E box))"

definition new_stack_object :: "output_env \<Rightarrow> node \<Rightarrow> scalar_object \<Rightarrow> object_value option" where
  "new_stack_object E spobj so =
     (case o_box_lock E spobj of
        None \<Rightarrow> None
      | Some box_lock \<Rightarrow>
          if o_klass_ok E spobj then
            new_StackObjectValue (int spobj) (ConstantOopWriteValue (o_mirror E spobj)) (box_location E box_lock) (ConstantIntValue (so_n_fields so))
          else None)"

definition new_scalar_object :: "output_env \<Rightarrow> node \<Rightarrow> object_value option" where
  "new_scalar_object E spobj =
     (if o_klass_ok E spobj then
        Some ((new_ObjectValue ObjectValue (o_illegal_loc E) (int spobj))\<lparr>ov_klass := Some (ConstantOopWriteValue (o_mirror E spobj))\<rparr>)
      else None)"

definition first_index :: "scalar_object \<Rightarrow> jvms \<Rightarrow> nat option" where
  "first_index so js = (case js of [] \<Rightarrow> None | j # _ \<Rightarrow> Some (nat (int (js_scloff j) + so_first_index so)))"

definition field_nodes :: "mach_safepoint \<Rightarrow> scalar_object \<Rightarrow> node list option" where
  "field_nodes sf so =
     (case first_index so (ms_jvms sf) of None \<Rightarrow> None | Some first_ind \<Rightarrow> ms_inputs sf first_ind (so_n_fields so))"

text \<open>
  A new description is put into the pool before its fields are filled in. The result is the pool and the fields that are
  still to be filled in.
\<close>

definition describe_object :: "output_env \<Rightarrow> mach_safepoint \<Rightarrow> node \<Rightarrow> scalar_object \<Rightarrow> object_value list \<Rightarrow> (object_value list \<times> node list option) option" where
  "describe_object E sf spobj so objs =
     (if so_stack_allocated so then
        map_option (\<lambda>sv. (set_sv_for_object_node objs sv, None)) (new_stack_object E spobj so)
      else
        (case (new_scalar_object E spobj, field_nodes sf so) of
           (Some sv, Some todo) \<Rightarrow> Some (set_sv_for_object_node objs sv, Some todo)
         | _ \<Rightarrow> None))"

text \<open>
  One call of \<open>FillLocArray\<close>: the array with the new entries, the pool, and the fields to be filled in if the object is
  new. The second slot of a long or double is skipped.
\<close>

definition fill_head :: "output_env \<Rightarrow> mach_safepoint \<Rightarrow> nat \<Rightarrow> node \<Rightarrow> scope_value list \<Rightarrow> object_value list \<Rightarrow>
    (scope_value list \<times> object_value list \<times> node list option) option" where
  "fill_head E sf idx local array objs =
     (if length array \<noteq> idx then
        (if length array = idx + 1 \<and> local = o_top E then Some (array, objs, None) else None)
      else
        (case o_sobj E local of
           Some spobj \<Rightarrow>
             (case sv_for_node_id objs local of
                Some k \<Rightarrow> Some (array @ [ObjectRef k], objs, None)
              | None \<Rightarrow> map_option (\<lambda>(objs1, todo). (array @ [ObjectRef (length objs)], objs1, todo)) (describe_object E sf local spobj objs))
         | None \<Rightarrow> map_option (\<lambda>vs. (array @ vs, objs, None)) (plain_values E local)))"

definition set_field_values :: "nat \<Rightarrow> scope_value list \<Rightarrow> object_value list \<Rightarrow> object_value list" where
  "set_field_values k vs objs = objs[k := (objs ! k)\<lparr>ov_field_values := vs\<rparr>]"

text \<open>
  \<open>FillLocArray\<close> on one node after the other: \<open>flds\<close> tells the loop over the fields of an object, whose index is the length
  of the array, from the loops over locals and operands. No other call touches the array of a new object while its fields
  are filled in.
\<close>

partial_function (option) fill_array :: "output_env \<Rightarrow> mach_safepoint \<Rightarrow> bool \<Rightarrow> nat \<Rightarrow> node list \<Rightarrow> scope_value list \<Rightarrow> object_value list \<Rightarrow>
    (scope_value list \<times> object_value list) option" where
  "fill_array E sf flds idx nodes array objs =
     (case nodes of
        [] \<Rightarrow> Some (array, objs)
      | local # ns \<Rightarrow>
          Option.bind (fill_head E sf (if flds then length array else idx) local array objs) (\<lambda>(array1, objs1, todo).
            case todo of
              None \<Rightarrow> fill_array E sf flds (Suc idx) ns array1 objs1
            | Some fs \<Rightarrow>
                Option.bind (fill_array E sf True 0 fs [] objs1) (\<lambda>(vs, objs2).
                  fill_array E sf flds (Suc idx) ns array1 (set_field_values (length objs) vs objs2))))"

definition FillLocArray :: "output_env \<Rightarrow> mach_safepoint \<Rightarrow> nat \<Rightarrow> node \<Rightarrow> scope_value list \<Rightarrow> object_value list \<Rightarrow>
    (scope_value list \<times> object_value list) option" where
  "FillLocArray E sf idx local array objs = fill_array E sf False idx [local] array objs"

text \<open>The same for a single new object.\<close>

definition add_object :: "output_env \<Rightarrow> mach_safepoint \<Rightarrow> node \<Rightarrow> scalar_object \<Rightarrow> object_value list \<Rightarrow> object_value list option" where
  "add_object E sf spobj so objs =
     Option.bind (describe_object E sf spobj so objs) (\<lambda>(objs1, todo).
       case todo of
         None \<Rightarrow> Some objs1
       | Some fs \<Rightarrow> map_option (\<lambda>(vs, objs2). set_field_values (length objs) vs objs2) (fill_array E sf True 0 fs [] objs1))"

section \<open>Scopes\<close>

text \<open>The owner of a monitor.\<close>

definition monitor_owner :: "output_env \<Rightarrow> mach_safepoint \<Rightarrow> node \<Rightarrow> bool \<Rightarrow> object_value list \<Rightarrow> (scope_value \<times> object_value list) option" where
  "monitor_owner E sf obj_node eliminated objs =
     (case o_sobj E obj_node of
        Some spobj \<Rightarrow>
          (case sv_for_node_id objs obj_node of
             Some k \<Rightarrow> Some (ObjectRef k, objs)
           | None \<Rightarrow>
               if so_stack_allocated spobj \<and> \<not> eliminated then None
               else
                 map_option (\<lambda>objs1. (ObjectRef (length objs), objs1)) (add_object E sf obj_node spobj objs))
      | None \<Rightarrow>
          if \<not> o_is_Con E obj_node then
            map_option (\<lambda>v. (v, objs))
              (new_loc_value E (o_reg_first E obj_node) (if o_base E obj_node = TB_NarrowOop then L_narrowoop else L_oop))
          else map_option (\<lambda>h. (ConstantOopWriteValue h, objs)) (o_const_oop E obj_node))"

fun fill_monitors :: "output_env \<Rightarrow> mach_safepoint \<Rightarrow> jvm_state \<Rightarrow> nat list \<Rightarrow> object_value list \<Rightarrow> (monitor_value list \<times> object_value list) option" where
  "fill_monitors E sf j [] objs = Some ([], objs)"
| "fill_monitors E sf j (idx # is) objs =
     (case (ms_input sf (ms_jvmadj sf + monitor_box_offset j idx), ms_input sf (ms_jvmadj sf + monitor_obj_offset j idx)) of
        (Some box_node, Some obj_node) \<Rightarrow>
          let eliminated = (o_is_BoxLock E box_node \<and> o_is_eliminated E box_node)
          in Option.bind (monitor_owner E sf obj_node eliminated objs) (\<lambda>(scval, objs1).
               map_option (\<lambda>(ms, objs2).
                   (\<lparr>mv_owner = scval, mv_basic_lock = o_stk_loc E L_normal (o_reg2offset E (o_box_reg E box_node)), mv_eliminated = eliminated\<rparr> # ms, objs2))
                 (fill_monitors E sf j is objs1))
      | _ \<Rightarrow> None)"

text \<open>The scalar section: the stack allocated objects that nothing else of the scope mentions.\<close>

fun fill_scalars :: "output_env \<Rightarrow> node list \<Rightarrow> object_value list \<Rightarrow> object_value list option" where
  "fill_scalars E [] objs = Some objs"
| "fill_scalars E (obj_node # ns) objs =
     (case o_sobj E obj_node of
        None \<Rightarrow> fill_scalars E ns objs
      | Some spobj \<Rightarrow>
          if sv_for_node_id objs obj_node = None then
            (if so_stack_allocated spobj then
               (case new_stack_object E obj_node spobj of
                  None \<Rightarrow> None
                | Some sv \<Rightarrow> fill_scalars E ns (set_sv_for_object_node objs sv))
             else None)
          else fill_scalars E ns objs)"

record scope_info =
  si_method :: ci_method
  si_bci :: int
  si_reexecute :: bool
  si_rethrow :: bool
  si_method_handle_invoke :: bool
  si_return_oop :: bool
  si_locals :: "scope_value list"
  si_expressions :: "scope_value list"
  si_monitors :: "monitor_value list"

text \<open>The calls of the recorder of debug information.\<close>

datatype debug_event =
    add_safepoint int nat
  | dump_object_pool "object_value list"
  | describe_scope int scope_info
  | end_safepoint int
  | add_non_safepoint int
  | describe_non_safepoint int "ci_method option" int bool
  | end_non_safepoint int

text \<open>One turn of the loop over the scopes, for the state \<open>j\<close>.\<close>

definition fill_scope :: "output_env \<Rightarrow> mach_safepoint \<Rightarrow> jvm_state \<Rightarrow> object_value list \<Rightarrow>
    (scope_value list \<times> scope_value list \<times> monitor_value list \<times> object_value list) option" where
  "fill_scope E sf j objs =
     (let num_locs = (if js_method j = None then 0 else loc_size j);
          num_exps = (if js_method j = None then 0 else stk_size j);
          num_mon = nof_monitors j
      in if (\<forall>m. js_method j = Some m \<longrightarrow> (js_bci j < 0 \<or> num_locs = int (m_max_locals m)) \<and> (o_needs_monitor E m \<longrightarrow> 0 < num_mon)) then
           Option.bind (ms_inputs sf (ms_jvmadj sf + js_locoff j) num_locs) (\<lambda>locs.
             Option.bind (fill_array E sf False 0 locs [] objs) (\<lambda>(locarray, objs1).
               Option.bind (ms_inputs sf (ms_jvmadj sf + js_stkoff j) num_exps) (\<lambda>exps.
                 Option.bind (fill_array E sf False 0 exps [] objs1) (\<lambda>(exparray, objs2).
                   Option.bind (fill_monitors E sf j [0..<nat num_mon] objs2) (\<lambda>(monarray, objs3).
                     Option.bind (ms_inputs sf (ms_jvmadj sf + js_scloff j) (scl_size j)) (\<lambda>scls.
                       map_option (\<lambda>objs4. (locarray, exparray, monarray, objs4)) (fill_scalars E scls objs3)))))))
         else None)"

definition scope_event :: "output_env \<Rightarrow> bool \<Rightarrow> bool \<Rightarrow> int \<Rightarrow> jvm_state \<Rightarrow> scope_value list \<Rightarrow> scope_value list \<Rightarrow> monitor_value list \<Rightarrow> debug_event" where
  "scope_event E mh ret pc j locals exps mons =
     describe_scope pc \<lparr>si_method = (case js_method j of None \<Rightarrow> o_method E | Some m \<Rightarrow> m), si_bci = js_bci j, si_reexecute = should_reexecute j,
       si_rethrow = False, si_method_handle_invoke = mh, si_return_oop = ret, si_locals = locals, si_expressions = exps, si_monitors = mons\<rparr>"

text \<open>The scopes \<open>depths\<close>, the oldest first.\<close>

fun fill_scopes :: "output_env \<Rightarrow> mach_safepoint \<Rightarrow> bool \<Rightarrow> bool \<Rightarrow> int \<Rightarrow> nat list \<Rightarrow> object_value list \<Rightarrow> debug_event list option" where
  "fill_scopes E sf mh ret pc [] objs = Some []"
| "fill_scopes E sf mh ret pc (depth # ds) objs =
     (case of_depth depth (ms_jvms sf) of
        Some (j # _) \<Rightarrow>
          Option.bind (fill_scope E sf j objs) (\<lambda>(locarray, exparray, monarray, objs1).
            if InvocationEntryBci \<le> js_bci j \<and> js_bci j \<le> 0x10000 \<and> (should_reexecute j \<longrightarrow> depth = js_depth (hd (ms_jvms sf))) then
              map_option (\<lambda>es. dump_object_pool objs1 # scope_event E mh ret pc j locarray exparray monarray # es) (fill_scopes E sf mh ret pc ds objs1)
            else None)
      | _ \<Rightarrow> None)"

definition safepoint_pc :: "mach_safepoint \<Rightarrow> int \<Rightarrow> int" where
  "safepoint_pc sf current_offset = (case ms_call sf of None \<Rightarrow> current_offset | Some c \<Rightarrow> current_offset + mc_ret_addr_offset c)"

definition Process_OopMap_Node :: "output_env \<Rightarrow> mach_safepoint \<Rightarrow> int \<Rightarrow> debug_event list option" where
  "Process_OopMap_Node E sf current_offset =
     (let pc = safepoint_pc sf current_offset;
          mh = (case ms_call sf of None \<Rightarrow> False | Some c \<Rightarrow> mc_is_java c \<and> mc_method_handle_invoke c);
          ret = (case ms_call sf of None \<Rightarrow> False | Some c \<Rightarrow> mc_returns_pointer c)
      in if mh \<and> \<not> o_has_method_handle_invokes E then None
         else
           (case ms_jvms sf of
              [] \<Rightarrow> None
            | youngest_jvms # _ \<Rightarrow>
                map_option (\<lambda>es. add_safepoint pc (ms_oop_map sf) # es @ [end_safepoint pc])
                  (fill_scopes E sf mh ret pc [1..<Suc (js_depth youngest_jvms)] [])))"


section \<open>The pool\<close>

abbreviation ids :: "object_value list \<Rightarrow> int list" where
  "ids objs \<equiv> map ov_id objs"

lemma sv_for_node_id_ids: "ids objs = ids objs' \<Longrightarrow> sv_for_node_id objs n = sv_for_node_id objs' n"
proof -
  assume eq: "ids objs = ids objs'"
  then have len: "length objs = length objs'" by (rule map_eq_imp_length_eq)
  have "ov_id (objs ! k) = ov_id (objs' ! k)" if "k < length objs" for k
    using arg_cong [OF eq, of "\<lambda>xs. xs ! k"] that len by simp
  then have "filter (\<lambda>k. ov_id (objs ! k) = int n) [0..<length objs] = filter (\<lambda>k. ov_id (objs' ! k) = int n) [0..<length objs']"
    unfolding len by (intro filter_cong) auto
  then show ?thesis by (simp add: sv_for_node_id_def)
qed

lemma sv_for_node_id_Some: "sv_for_node_id objs n = Some k \<Longrightarrow> k < length objs \<and> ov_id (objs ! k) = int n"
proof -
  assume "sv_for_node_id objs n = Some k"
  then have "k \<in> set (filter (\<lambda>k. ov_id (objs ! k) = int n) [0..<length objs])"
    by (auto simp: sv_for_node_id_def simp del: set_filter split: list.splits)
  then show ?thesis by simp
qed

lemma id_absent: "int n \<notin> set (ids objs) \<longleftrightarrow> (\<forall>k < length objs. ov_id (objs ! k) \<noteq> int n)"
  by (metis in_set_conv_nth length_map nth_map)

lemma sv_for_node_id_None: "sv_for_node_id objs n = None \<longleftrightarrow> int n \<notin> set (ids objs)"
proof -
  have "sv_for_node_id objs n = None \<longleftrightarrow> filter (\<lambda>k. ov_id (objs ! k) = int n) [0..<length objs] = []"
    by (simp add: sv_for_node_id_def split: list.splits)
  also have "\<dots> \<longleftrightarrow> (\<forall>k < length objs. ov_id (objs ! k) \<noteq> int n)" by (auto simp: filter_empty_conv)
  also have "\<dots> \<longleftrightarrow> int n \<notin> set (ids objs)" by (rule id_absent [symmetric])
  finally show ?thesis .
qed

lemma sv_for_node_id_append: "sv_for_node_id objs n = Some k \<Longrightarrow> sv_for_node_id (objs @ new) n = Some k"
proof -
  assume "sv_for_node_id objs n = Some k"
  then obtain ks where "filter (\<lambda>k. ov_id (objs ! k) = int n) [0..<length objs] = k # ks"
    by (auto simp: sv_for_node_id_def split: list.splits)
  moreover have "filter (\<lambda>k. ov_id ((objs @ new) ! k) = int n) [0..<length objs] = filter (\<lambda>k. ov_id (objs ! k) = int n) [0..<length objs]"
    by (rule filter_cong) (auto simp: nth_append)
  moreover have "[0..<length (objs @ new)] = [0..<length objs] @ [length objs..<length (objs @ new)]"
    using upt_add_eq_append [of 0 "length objs" "length new"] by simp
  ultimately show ?thesis by (simp add: sv_for_node_id_def)
qed

lemma sv_for_node_id_new: "sv_for_node_id objs n = None \<Longrightarrow> ov_id ov = int n \<Longrightarrow> sv_for_node_id (objs @ ov # new) n = Some (length objs)"
proof -
  assume none: "sv_for_node_id objs n = None" and ov: "ov_id ov = int n"
  have "ov_id (objs ! k) \<noteq> int n" if "k < length objs" for k
    using none that unfolding sv_for_node_id_None id_absent by blast
  then have "filter (\<lambda>k. ov_id ((objs @ [ov]) ! k) = int n) [0..<length objs] = []" by (simp add: filter_empty_conv nth_append)
  then have "sv_for_node_id (objs @ [ov]) n = Some (length objs)" using ov by (simp add: sv_for_node_id_def)
  from sv_for_node_id_append [OF this, of new] show ?thesis by simp
qed

section \<open>What a pool describes\<close>

text \<open>The objects that are described if the nodes \<open>R\<close> are.\<close>

inductive described_from :: "output_env \<Rightarrow> mach_safepoint \<Rightarrow> node set \<Rightarrow> node \<Rightarrow> bool" for E sf R where
  root: "n \<in> R \<Longrightarrow> o_sobj E n = Some so \<Longrightarrow> described_from E sf R n"
| field: "described_from E sf R m \<Longrightarrow> o_sobj E m = Some so \<Longrightarrow> \<not> so_stack_allocated so \<Longrightarrow> field_nodes sf so = Some fs \<Longrightarrow>
    f \<in> set fs \<Longrightarrow> o_sobj E f = Some so' \<Longrightarrow> described_from E sf R f"

lemma described_from_mono: "described_from E sf R n \<Longrightarrow> R \<subseteq> R' \<Longrightarrow> described_from E sf R' n"
  by (induction rule: described_from.induct) (auto intro: described_from.intros)

lemma described_from_fields:
  assumes "described_from E sf (set fs) m" "o_sobj E n = Some so" "\<not> so_stack_allocated so" "field_nodes sf so = Some fs" "n \<in> R"
  shows "described_from E sf R m"
  using assms(1)
proof (induction rule: described_from.induct)
  case (root m so')
  then show ?case using assms(2-) by (blast intro: described_from.intros)
qed (rule described_from.field)

definition node_values :: "output_env \<Rightarrow> object_value list \<Rightarrow> node \<Rightarrow> scope_value list" where
  "node_values E objs n =
     (case o_sobj E n of Some _ \<Rightarrow> [ObjectRef (the (sv_for_node_id objs n))] | None \<Rightarrow> the (plain_values E n))"

definition pooled :: "output_env \<Rightarrow> object_value list \<Rightarrow> node \<Rightarrow> bool" where
  "pooled E objs n \<longleftrightarrow> (o_sobj E n \<noteq> None \<longrightarrow> sv_for_node_id objs n \<noteq> None)"

definition field_valued :: "output_env \<Rightarrow> object_value list \<Rightarrow> node \<Rightarrow> bool" where
  "field_valued E objs n \<longleftrightarrow> pooled E objs n \<and> (o_sobj E n = None \<longrightarrow> plain_values E n \<noteq> None)"

text \<open>\<open>ov\<close> describes the object \<open>n\<close>; the fields of a scalar replaced object are described by their values.\<close>

definition describes_object :: "output_env \<Rightarrow> mach_safepoint \<Rightarrow> object_value list \<Rightarrow> node \<Rightarrow> object_value \<Rightarrow> bool" where
  "describes_object E sf objs n ov \<longleftrightarrow> (\<exists>so. o_sobj E n = Some so \<and>
     (if so_stack_allocated so then new_stack_object E n so = Some ov
      else \<exists>fs ov0. field_nodes sf so = Some fs \<and> new_scalar_object E n = Some ov0 \<and> (\<forall>f \<in> set fs. field_valued E objs f) \<and>
        ov = ov0\<lparr>ov_field_values := concat (map (node_values E objs) fs)\<rparr>))"

definition grown :: "output_env \<Rightarrow> mach_safepoint \<Rightarrow> node set \<Rightarrow> object_value list \<Rightarrow> object_value list \<Rightarrow> bool" where
  "grown E sf R objs objs' \<longleftrightarrow> (\<exists>new. objs' = objs @ new \<and> distinct (ids objs') \<and>
     (\<forall>ov \<in> set new. \<exists>n. described_from E sf R n \<and> describes_object E sf objs' n ov))"

lemma new_object_ids: "new_stack_object E n so = Some ov \<Longrightarrow> ov_id ov = int n" "new_scalar_object E n = Some ov \<Longrightarrow> ov_id ov = int n"
  by (auto simp: new_stack_object_def new_scalar_object_def new_StackObjectValue_def new_ObjectValue_def split: option.splits if_splits)

lemma describes_object_id: "describes_object E sf objs n ov \<Longrightarrow> ov_id ov = int n"
  by (auto simp: describes_object_def new_object_ids split: if_splits)

lemma pooled_append: "pooled E objs n \<Longrightarrow> pooled E (objs @ new) n"
  by (cases "sv_for_node_id objs n") (simp_all add: pooled_def sv_for_node_id_append)

lemma node_values_append: "pooled E objs n \<Longrightarrow> node_values E (objs @ new) n = node_values E objs n"
  by (cases "o_sobj E n"; cases "sv_for_node_id objs n") (simp_all add: pooled_def node_values_def sv_for_node_id_append)

lemma describes_object_append: "describes_object E sf objs n ov \<Longrightarrow> describes_object E sf (objs @ new) n ov"
proof -
  assume "describes_object E sf objs n ov"
  then obtain so where so: "o_sobj E n = Some so"
    and ov: "if so_stack_allocated so then new_stack_object E n so = Some ov
      else \<exists>fs ov0. field_nodes sf so = Some fs \<and> new_scalar_object E n = Some ov0 \<and> (\<forall>f \<in> set fs. field_valued E objs f) \<and>
        ov = ov0\<lparr>ov_field_values := concat (map (node_values E objs) fs)\<rparr>" unfolding describes_object_def by blast
  show "describes_object E sf (objs @ new) n ov"
  proof (cases "so_stack_allocated so")
    case True
    with so ov show ?thesis by (simp add: describes_object_def)
  next
    case False
    with ov obtain fs ov0 where f: "field_nodes sf so = Some fs" "new_scalar_object E n = Some ov0" "\<forall>f \<in> set fs. field_valued E objs f"
      "ov = ov0\<lparr>ov_field_values := concat (map (node_values E objs) fs)\<rparr>" by auto
    have "map (node_values E (objs @ new)) fs = map (node_values E objs) fs" using f(3) by (simp add: node_values_append field_valued_def)
    then have "ov = ov0\<lparr>ov_field_values := concat (map (node_values E (objs @ new)) fs)\<rparr>" using f(4) by (simp only:)
    moreover have "\<forall>f \<in> set fs. field_valued E (objs @ new) f" using f(3) pooled_append unfolding field_valued_def by blast
    ultimately show ?thesis using so False f(1,2) unfolding describes_object_def by auto
  qed
qed

lemma node_values_ids: "ids objs = ids objs' \<Longrightarrow> node_values E objs = node_values E objs'"
  by (rule ext) (simp only: node_values_def sv_for_node_id_ids [of objs objs'])

lemma pooled_ids: "ids objs = ids objs' \<Longrightarrow> pooled E objs = pooled E objs'"
  by (rule ext) (simp only: pooled_def sv_for_node_id_ids [of objs objs'])

lemma describes_object_ids:
  assumes "ids objs = ids objs'"
  shows "describes_object E sf objs = describes_object E sf objs'"
  unfolding describes_object_def field_valued_def node_values_ids [OF assms] pooled_ids [OF assms] by (rule refl)

lemma grown_refl: "distinct (ids objs) \<Longrightarrow> grown E sf R objs objs"
  by (simp add: grown_def)

lemma grown_trans:
  assumes "grown E sf R objs objs1" "grown E sf R' objs1 objs2" "R \<subseteq> S" "R' \<subseteq> S"
  shows "grown E sf S objs objs2"
proof -
  from assms(1) obtain n1 where 1: "objs1 = objs @ n1" "\<forall>ov \<in> set n1. \<exists>n. described_from E sf R n \<and> describes_object E sf objs1 n ov"
    unfolding grown_def by blast
  from assms(2) obtain n2 where 2: "objs2 = objs1 @ n2" "distinct (ids objs2)"
    "\<forall>ov \<in> set n2. \<exists>n. described_from E sf R' n \<and> describes_object E sf objs2 n ov" unfolding grown_def by blast
  have "\<exists>n. described_from E sf S n \<and> describes_object E sf objs2 n ov" if "ov \<in> set (n1 @ n2)" for ov
  proof (cases "ov \<in> set n1")
    case True
    from bspec [OF 1(2) True] obtain n where n: "described_from E sf R n" "describes_object E sf objs1 n ov" by blast
    from described_from_mono [OF n(1) assms(3)] describes_object_append [OF n(2), of n2, folded 2(1)] show ?thesis by blast
  next
    case False
    then have "ov \<in> set n2" using that by simp
    from bspec [OF 2(3) this] obtain n where n: "described_from E sf R' n" "describes_object E sf objs2 n ov" by blast
    from described_from_mono [OF n(1) assms(4)] n(2) show ?thesis by blast
  qed
  moreover have "objs2 = objs @ (n1 @ n2)" using 1(1) 2(1) by simp
  ultimately show ?thesis using 2(2) unfolding grown_def by blast
qed

lemma grown_mono: "grown E sf R objs objs' \<Longrightarrow> R \<subseteq> R' \<Longrightarrow> grown E sf R' objs objs'"
proof -
  assume g: "grown E sf R objs objs'" and R: "R \<subseteq> R'"
  have d: "distinct (ids objs)" using g by (auto simp: grown_def)
  show ?thesis by (rule grown_trans [OF grown_refl [OF d] g empty_subsetI R])
qed

lemma grownD:
  assumes "grown E sf R objs objs'"
  shows "distinct (ids objs')" "pooled E objs n \<Longrightarrow> pooled E objs' n" "pooled E objs n \<Longrightarrow> node_values E objs' n = node_values E objs n"
    "set (ids objs) \<subseteq> set (ids objs')"
proof -
  from assms obtain new where new: "objs' = objs @ new" and d: "distinct (ids objs')" unfolding grown_def by blast
  show "distinct (ids objs')" by (rule d)
  show "pooled E objs n \<Longrightarrow> pooled E objs' n" unfolding new by (rule pooled_append)
  show "pooled E objs n \<Longrightarrow> node_values E objs' n = node_values E objs n" unfolding new by (rule node_values_append)
  show "set (ids objs) \<subseteq> set (ids objs')" unfolding new by simp
qed

section \<open>Filling an array\<close>

text \<open>
  The nodes \<open>N\<close> can be described: an object has a klass, a stack allocated one its box, a scalar replaced one its fields,
  which are in \<open>N\<close> again; every other node is in a register, on the stack or a constant.
\<close>

definition describable :: "output_env \<Rightarrow> mach_safepoint \<Rightarrow> node set \<Rightarrow> node \<Rightarrow> bool" where
  "describable E sf N n \<longleftrightarrow>
     (case o_sobj E n of
        None \<Rightarrow> plain_values E n \<noteq> None
      | Some so \<Rightarrow> o_klass_ok E n \<and>
          (if so_stack_allocated so then o_box_lock E n \<noteq> None else \<exists>fs. field_nodes sf so = Some fs \<and> set fs \<subseteq> N))"

definition nodes_ok :: "output_env \<Rightarrow> mach_safepoint \<Rightarrow> node set \<Rightarrow> bool" where
  "nodes_ok E sf N \<longleftrightarrow> finite N \<and> (\<forall>n \<in> N. describable E sf N n) \<and> o_sobj E (o_top E) = None"

definition two_slots :: "output_env \<Rightarrow> node \<Rightarrow> bool" where
  "two_slots E n \<longleftrightarrow> o_sobj E n = None \<and> length (the (plain_values E n)) = 2"

text \<open>The entries of an array: \<open>skip\<close> tells whether the first node is the second slot of the one before.\<close>

fun slot_values :: "output_env \<Rightarrow> object_value list \<Rightarrow> bool \<Rightarrow> bool \<Rightarrow> node list \<Rightarrow> scope_value list" where
  "slot_values E objs flds skip [] = []"
| "slot_values E objs flds skip (n # ns) =
     (if skip then slot_values E objs flds False ns
      else node_values E objs n @ slot_values E objs flds (\<not> flds \<and> two_slots E n) ns)"

fun slots_paired :: "output_env \<Rightarrow> bool \<Rightarrow> bool \<Rightarrow> node list \<Rightarrow> bool" where
  "slots_paired E flds skip [] \<longleftrightarrow> \<not> skip"
| "slots_paired E flds skip (n # ns) \<longleftrightarrow> (skip \<longrightarrow> n = o_top E) \<and> slots_paired E flds (\<not> skip \<and> \<not> flds \<and> two_slots E n) ns"

lemma plain_values_length: "plain_values E n = Some vs \<Longrightarrow> length vs = 1 \<or> length vs = 2"
  by (auto simp: plain_values_def register_values_def constant_values_def Let_def split: if_splits type_base.splits)

lemma node_values_length: "o_sobj E n = None \<longrightarrow> plain_values E n \<noteq> None \<Longrightarrow> length (node_values E objs n) = (if two_slots E n then 2 else 1)"
  using plain_values_length [of E n] by (auto simp: node_values_def two_slots_def split: option.splits)

lemma slot_values_fields: "slot_values E objs True False ns = concat (map (node_values E objs) ns)"
  by (induction ns) simp_all

lemma slots_paired_fields: "slots_paired E True False ns"
  by (induction ns) simp_all

lemma slot_values_grown:
  assumes "grown E sf R objs objs'" and "\<forall>n \<in> set ns. pooled E objs n"
  shows "slot_values E objs' flds skip ns = slot_values E objs flds skip ns"
  using assms(2) by (induction ns arbitrary: skip) (simp_all add: grownD(3) [OF assms(1)])

text \<open>The objects that are not in the pool yet.\<close>

definition missing :: "output_env \<Rightarrow> node set \<Rightarrow> object_value list \<Rightarrow> node set" where
  "missing E N objs = {n \<in> N. o_sobj E n \<noteq> None \<and> int n \<notin> set (ids objs)}"

lemma missing_less:
  assumes "finite N" "n \<in> N" "o_sobj E n = Some so" "sv_for_node_id objs n = None" "ov_id ov = int n"
  shows "card (missing E N (objs @ [ov])) < card (missing E N objs)"
proof (rule psubset_card_mono)
  show "finite (missing E N objs)" using assms(1) by (simp add: missing_def)
  have "n \<in> missing E N objs" "n \<notin> missing E N (objs @ [ov])" using assms by (simp_all add: missing_def sv_for_node_id_None)
  moreover have "missing E N (objs @ [ov]) \<subseteq> missing E N objs" by (auto simp: missing_def)
  ultimately show "missing E N (objs @ [ov]) \<subset> missing E N objs" by blast
qed

lemma missing_grown: "finite N \<Longrightarrow> grown E sf R objs objs' \<Longrightarrow> card (missing E N objs') \<le> card (missing E N objs)"
  using grownD(4) [of E sf R objs objs'] by (intro card_mono) (auto simp: missing_def)

lemma fill_array_Nil [simp]: "fill_array E sf flds idx [] array objs = Some (array, objs)"
  by (simp add: fill_array.simps)

lemma fill_array_Cons:
  "fill_array E sf flds idx (n # ns) array objs =
     (let i = (if flds then length array else idx) in
      if length array \<noteq> i then (if length array = i + 1 \<and> n = o_top E then fill_array E sf flds (Suc idx) ns array objs else None)
      else case o_sobj E n of
             None \<Rightarrow> Option.bind (plain_values E n) (\<lambda>vs. fill_array E sf flds (Suc idx) ns (array @ vs) objs)
           | Some so \<Rightarrow>
               (case sv_for_node_id objs n of
                  Some k \<Rightarrow> fill_array E sf flds (Suc idx) ns (array @ [ObjectRef k]) objs
                | None \<Rightarrow> Option.bind (add_object E sf n so objs) (\<lambda>objs'. fill_array E sf flds (Suc idx) ns (array @ [ObjectRef (length objs)]) objs')))"
proof -
  have one: "Option.bind (fill_head E sf i n array objs) (\<lambda>(array1, objs1, todo).
            case todo of
              None \<Rightarrow> G array1 objs1
            | Some fs \<Rightarrow> Option.bind (fill_array E sf True 0 fs [] objs1) (\<lambda>(vs, objs2). G array1 (set_field_values (length objs) vs objs2))) =
     (if length array \<noteq> i then (if length array = i + 1 \<and> n = o_top E then G array objs else None)
      else case o_sobj E n of
             None \<Rightarrow> Option.bind (plain_values E n) (\<lambda>vs. G (array @ vs) objs)
           | Some so \<Rightarrow>
               (case sv_for_node_id objs n of
                  Some k \<Rightarrow> G (array @ [ObjectRef k]) objs
                | None \<Rightarrow> Option.bind (add_object E sf n so objs) (\<lambda>objs'. G (array @ [ObjectRef (length objs)]) objs')))" for i G
  proof (cases "length array = i \<and> (\<exists>so. o_sobj E n = Some so \<and> sv_for_node_id objs n = None)")
    case True
    then obtain so where so: "o_sobj E n = Some so" "sv_for_node_id objs n = None" "length array = i" by blast
    show ?thesis
    proof (cases "describe_object E sf n so objs")
      case None
      with so show ?thesis by (simp add: fill_head_def add_object_def)
    next
      case (Some p)
      obtain objs1 todo where p: "p = (objs1, todo)" by (cases p)
      show ?thesis
      proof (cases todo)
        case None
        with Some p so show ?thesis by (simp add: fill_head_def add_object_def)
      next
        case (Some fs)
        with \<open>describe_object E sf n so objs = Some p\<close> p so show ?thesis
          by (cases "fill_array E sf True 0 fs [] objs1") (auto simp: fill_head_def add_object_def)
      qed
    qed
  next
    case False
    then show ?thesis by (cases "plain_values E n") (auto simp: fill_head_def split: option.splits)
  qed
  show ?thesis
    by (subst fill_array.simps, simp only: list.case Let_def) (rule one)
qed

lemma add_object_ok:
  assumes N: "nodes_ok E sf N" and n: "n \<in> N" "o_sobj E n = Some so" "sv_for_node_id objs n = None" and d: "distinct (ids objs)"
    and ih: "\<And>fs objs1. \<lbrakk>card (missing E N objs1) < card (missing E N objs); set fs \<subseteq> N; distinct (ids objs1)\<rbrakk> \<Longrightarrow>
      \<exists>objs2. fill_array E sf True 0 fs [] objs1 = Some (concat (map (node_values E objs2) fs), objs2) \<and> grown E sf (set fs) objs1 objs2 \<and>
        (\<forall>f \<in> set fs. pooled E objs2 f)"
  shows "\<exists>objs'. add_object E sf n so objs = Some objs' \<and> grown E sf {n} objs objs' \<and> sv_for_node_id objs' n = Some (length objs)"
proof -
  have desc: "describable E sf N n" and fin: "finite N" using N n(1) by (auto simp: nodes_ok_def)
  show ?thesis
  proof (cases "so_stack_allocated so")
    case True
    with desc n(2) obtain box where box: "o_box_lock E n = Some box" "o_klass_ok E n" by (auto simp: describable_def)
    then obtain sv where sv: "new_stack_object E n so = Some sv" by (simp add: new_stack_object_def new_StackObjectValue_def)
    have id: "ov_id sv = int n" by (rule new_object_ids(1) [OF sv])
    have "describes_object E sf (objs @ [sv]) n sv" using n(2) True sv by (simp add: describes_object_def)
    moreover have "described_from E sf {n} n" using n(2) by (auto intro: described_from.root)
    ultimately have "grown E sf {n} objs (objs @ [sv])" using d n(3) id by (auto simp: grown_def sv_for_node_id_None)
    moreover have "add_object E sf n so objs = Some (objs @ [sv])"
      using True sv by (simp add: add_object_def describe_object_def set_sv_for_object_node_def)
    ultimately show ?thesis using sv_for_node_id_new [OF n(3) id, of "[]"] by simp
  next
    case False
    with desc n(2) obtain fs where fs: "field_nodes sf so = Some fs" "set fs \<subseteq> N" and k: "o_klass_ok E n" by (auto simp: describable_def)
    from k obtain sv where sv: "new_scalar_object E n = Some sv" by (simp add: new_scalar_object_def)
    have id: "ov_id sv = int n" by (rule new_object_ids(2) [OF sv])
    have "distinct (ids (objs @ [sv]))" using d n(3) id by (simp add: sv_for_node_id_None)
    from ih [OF missing_less [OF fin n id] fs(2) this] obtain objs2 where
      fill: "fill_array E sf True 0 fs [] (objs @ [sv]) = Some (concat (map (node_values E objs2) fs), objs2)"
      and g: "grown E sf (set fs) (objs @ [sv]) objs2" and p: "\<forall>f \<in> set fs. pooled E objs2 f" by blast
    from g obtain new where new: "objs2 = objs @ sv # new" "distinct (ids objs2)"
      "\<forall>ov \<in> set new. \<exists>m. described_from E sf (set fs) m \<and> describes_object E sf objs2 m ov" by (auto simp: grown_def)
    define sv' where "sv' = sv\<lparr>ov_field_values := concat (map (node_values E objs2) fs)\<rparr>"
    define objs' where "objs' = objs @ sv' # new"
    have eq: "ids objs' = ids objs2" by (simp add: objs'_def new(1) sv'_def)
    have add: "add_object E sf n so objs = Some objs'"
      using False sv fs(1) fill new(1)
      by (simp add: add_object_def describe_object_def set_sv_for_object_node_def set_field_values_def objs'_def sv'_def)
    have p': "\<forall>f \<in> set fs. field_valued E objs' f" unfolding field_valued_def pooled_ids [OF eq]
      using p fs(2) N by (fastforce simp: nodes_ok_def describable_def)
    have "sv' = sv\<lparr>ov_field_values := concat (map (node_values E objs') fs)\<rparr>" unfolding node_values_ids [OF eq] by (rule sv'_def)
    then have self: "describes_object E sf objs' n sv'" using n(2) False fs(1) sv p' unfolding describes_object_def by auto
    have rest: "\<exists>m. described_from E sf {n} m \<and> describes_object E sf objs' m ov" if "ov \<in> set new" for ov
    proof -
      from bspec [OF new(3) that] obtain m where m: "described_from E sf (set fs) m" "describes_object E sf objs2 m ov" by blast
      have "described_from E sf {n} m" by (rule described_from_fields [OF m(1) n(2) False fs(1)]) simp
      moreover have "describes_object E sf objs' m ov" unfolding describes_object_ids [OF eq] by (rule m(2))
      ultimately show ?thesis by blast
    qed
    have "described_from E sf {n} n" using n(2) by (auto intro: described_from.root)
    with self rest have "\<forall>ov \<in> set (sv' # new). \<exists>m. described_from E sf {n} m \<and> describes_object E sf objs' m ov" by auto
    moreover have "distinct (ids objs')" unfolding eq by (rule new(2))
    ultimately have "grown E sf {n} objs objs'" unfolding grown_def objs'_def by blast
    moreover have "sv_for_node_id objs' n = Some (length objs)" unfolding objs'_def by (rule sv_for_node_id_new [OF n(3)]) (simp add: sv'_def id)
    ultimately show ?thesis using add by blast
  qed
qed


text \<open>
  \<open>FillLocArray\<close> returns, also for objects that refer to themselves: the objects missing from the pool get fewer with every
  level of the recursion.
\<close>

lemma fill_array_ok:
  assumes N: "nodes_ok E sf N"
  shows "\<lbrakk>set ns \<subseteq> N; distinct (ids objs); slots_paired E flds skip ns; skip \<Longrightarrow> \<not> flds; flds \<or> length array = idx + of_bool skip\<rbrakk> \<Longrightarrow>
    \<exists>objs'. fill_array E sf flds idx ns array objs = Some (array @ slot_values E objs' flds skip ns, objs') \<and>
      grown E sf (set ns) objs objs' \<and> (\<forall>n \<in> set ns. pooled E objs' n)"
proof (induction "(card (missing E N objs), length ns)" arbitrary: ns objs flds skip array idx
    rule: wf_induct_rule [OF wf_lex_prod [OF wf_less_than wf_less_than]])
  case 1
  have fin: "finite N" using N by (simp add: nodes_ok_def)
  show ?case
  proof (cases ns)
    case Nil
    then show ?thesis using "1.prems" by (auto intro: grown_refl)
  next
    case (Cons n ns1)
    have n: "n \<in> N" "set ns1 \<subseteq> N" using "1.prems"(1) Cons by auto
    let ?skip = "\<not> skip \<and> \<not> flds \<and> two_slots E n"
    have tail: "\<exists>objs'. fill_array E sf flds (Suc idx) ns1 array1 objs1 = Some (array1 @ slot_values E objs' flds ?skip ns1, objs') \<and>
        grown E sf (set ns1) objs1 objs' \<and> (\<forall>n \<in> set ns1. pooled E objs' n)"
      if g: "grown E sf R objs objs1" and l: "flds \<or> length array1 = Suc idx + of_bool ?skip" for R objs1 array1
    proof -
      have "card (missing E N objs1) \<le> card (missing E N objs)" by (rule missing_grown [OF fin g])
      then have "((card (missing E N objs1), length ns1), card (missing E N objs), length ns) \<in> less_than <*lex*> less_than"
        using Cons by (auto simp: le_eq_less_or_eq)
      then show ?thesis
        by (intro 1(1)) (use n(2) grownD(1) [OF g] "1.prems"(3) Cons l in auto)
    qed
    show ?thesis
    proof (cases skip)
      case True
      then have nf: "\<not> flds" and top: "n = o_top E" and len: "length array = Suc idx" using "1.prems"(3,4,5) Cons by auto
      obtain objs' where o: "fill_array E sf flds (Suc idx) ns1 array objs = Some (array @ slot_values E objs' flds False ns1, objs')"
        "grown E sf (set ns1) objs objs'" "\<forall>n \<in> set ns1. pooled E objs' n"
        using tail [OF grown_refl [OF "1.prems"(2)], of array] True len by auto
      have "fill_array E sf flds idx ns array objs = Some (array @ slot_values E objs' flds skip ns, objs')"
        using o(1) True nf top len Cons by (simp add: fill_array_Cons Let_def)
      moreover have "grown E sf (set ns) objs objs'" using grown_mono [OF o(2)] Cons by auto
      moreover have "pooled E objs' n" using N top by (simp add: pooled_def nodes_ok_def)
      ultimately show ?thesis using o(3) Cons by auto
    next
      case ns: False
      then have len: "(if flds then length array else idx) = length array" using "1.prems"(5) by auto
      have desc: "describable E sf N n" using N n(1) by (auto simp: nodes_ok_def)
      have finish: ?thesis
        if g: "grown E sf {n} objs objs1" and p: "pooled E objs1 n"
          and step: "fill_array E sf flds idx ns array objs = fill_array E sf flds (Suc idx) ns1 (array @ node_values E objs1 n) objs1" for objs1
      proof -
        have "length (node_values E objs1 n) = (if two_slots E n then 2 else 1)"
          by (rule node_values_length) (use desc in \<open>auto simp: describable_def\<close>)
        then have "flds \<or> length (array @ node_values E objs1 n) = Suc idx + of_bool ?skip" using "1.prems"(5) ns by auto
        from tail [OF g this] obtain objs' where o:
          "fill_array E sf flds (Suc idx) ns1 (array @ node_values E objs1 n) objs1 =
             Some ((array @ node_values E objs1 n) @ slot_values E objs' flds ?skip ns1, objs')"
          "grown E sf (set ns1) objs1 objs'" "\<forall>n \<in> set ns1. pooled E objs' n" by blast
        have "node_values E objs' n = node_values E objs1 n" by (rule grownD(3) [OF o(2) p])
        then have "fill_array E sf flds idx ns array objs = Some (array @ slot_values E objs' flds skip ns, objs')"
          using step o(1) ns Cons by simp
        moreover have "grown E sf (set ns) objs objs'" by (rule grown_trans [OF g o(2)]) (use Cons in auto)
        moreover have "\<forall>n \<in> set ns. pooled E objs' n" using o(3) grownD(2) [OF o(2) p] Cons by simp
        ultimately show ?thesis by blast
      qed
      show ?thesis
      proof (cases "o_sobj E n")
        case None
        with desc obtain vs where "plain_values E n = Some vs" by (auto simp: describable_def)
        with None len show ?thesis
          by (intro finish [OF grown_refl [OF "1.prems"(2)]]) (simp_all add: pooled_def node_values_def fill_array_Cons Cons Let_def)
      next
        case (Some so)
        show ?thesis
        proof (cases "sv_for_node_id objs n")
          case (Some k)
          with \<open>o_sobj E n = Some so\<close> len show ?thesis
            by (intro finish [OF grown_refl [OF "1.prems"(2)]]) (simp_all add: pooled_def node_values_def fill_array_Cons Cons Let_def)
        next
          case new: None
          have "\<exists>objs2. fill_array E sf True 0 fs [] objs1 = Some (concat (map (node_values E objs2) fs), objs2) \<and>
              grown E sf (set fs) objs1 objs2 \<and> (\<forall>f \<in> set fs. pooled E objs2 f)"
            if "card (missing E N objs1) < card (missing E N objs)" "set fs \<subseteq> N" "distinct (ids objs1)" for fs objs1
          proof -
            have "((card (missing E N objs1), length fs), card (missing E N objs), length ns) \<in> less_than <*lex*> less_than"
              using that(1) by simp
            from 1(1) [OF this that(2,3), of True False "[]" 0] show ?thesis
              by (simp add: slots_paired_fields slot_values_fields)
          qed
          from add_object_ok [OF N n(1) Some new "1.prems"(2) this] obtain objs' where
            a: "add_object E sf n so objs = Some objs'" "grown E sf {n} objs objs'" "sv_for_node_id objs' n = Some (length objs)" by blast
          show ?thesis
            by (rule finish [OF a(2)]) (use a Some new len in \<open>simp_all add: pooled_def node_values_def fill_array_Cons Cons Let_def\<close>)
        qed
      qed
    qed
  qed
qed


section \<open>Slots\<close>

text \<open>Every node of two slots is followed by top.\<close>

definition paired :: "output_env \<Rightarrow> node list \<Rightarrow> bool" where
  "paired E ns \<longleftrightarrow> (\<forall>i < length ns. two_slots E (ns ! i) \<longrightarrow> Suc i < length ns \<and> ns ! Suc i = o_top E)"

text \<open>\<open>vs\<close> has one entry for every slot, and a node of two slots has its two entries there.\<close>

definition describes_slots :: "output_env \<Rightarrow> object_value list \<Rightarrow> node list \<Rightarrow> scope_value list \<Rightarrow> bool" where
  "describes_slots E objs ns vs \<longleftrightarrow> length vs = length ns \<and>
     (\<forall>i < length ns. i = 0 \<or> \<not> two_slots E (ns ! (i - 1)) \<longrightarrow>
        take (length (node_values E objs (ns ! i))) (drop i vs) = node_values E objs (ns ! i))"

lemma slots_paired_nth:
  assumes "\<not> two_slots E (o_top E)"
  shows "paired E ns \<Longrightarrow> (skip \<Longrightarrow> ns \<noteq> [] \<and> hd ns = o_top E) \<Longrightarrow> slots_paired E False skip ns"
proof (induction ns arbitrary: skip)
  case (Cons n ns)
  have p: "paired E ns" using Cons.prems(1) by (auto simp: paired_def dest: spec [of _ "Suc _"])
  have "two_slots E n \<Longrightarrow> ns \<noteq> [] \<and> hd ns = o_top E"
    using Cons.prems(1) by (cases ns) (auto simp: paired_def dest: spec [of _ 0])
  with Cons.IH [OF p] Cons.prems(2) show ?case by auto
qed auto

lemma slot_values_length:
  assumes "\<forall>n \<in> set ns. o_sobj E n = None \<longrightarrow> plain_values E n \<noteq> None"
  shows "slots_paired E False skip ns \<Longrightarrow> length (slot_values E objs False skip ns) + of_bool skip = length ns"
  using assms
proof (induction ns arbitrary: skip)
  case (Cons n ns)
  have l: "length (node_values E objs n) = (if two_slots E n then 2 else 1)"
    by (rule node_values_length) (use Cons.prems(2) in auto)
  show ?case
  proof (cases skip)
    case True
    then show ?thesis using Cons.IH [of False] Cons.prems by simp
  next
    case False
    then show ?thesis using Cons.IH [of "two_slots E n"] Cons.prems l by auto
  qed
qed simp

lemma slot_values_nth:
  assumes "\<forall>n \<in> set ns. o_sobj E n = None \<longrightarrow> plain_values E n \<noteq> None"
  shows "i < length ns \<Longrightarrow> of_bool skip \<le> i \<Longrightarrow> i = 0 \<or> \<not> (two_slots E (ns ! (i - 1)) \<and> \<not> (skip \<and> i = 1)) \<Longrightarrow>
    take (length (node_values E objs (ns ! i))) (drop (i - of_bool skip) (slot_values E objs False skip ns)) = node_values E objs (ns ! i)"
  using assms
proof (induction ns arbitrary: skip i)
  case (Cons n ns)
  have l: "length (node_values E objs n) = (if two_slots E n then 2 else 1)"
    by (rule node_values_length) (use Cons.prems(4) in auto)
  show ?case
  proof (cases i)
    case 0
    then have "\<not> skip" using Cons.prems(2) by auto
    with 0 show ?thesis by simp
  next
    case (Suc k)
    show ?thesis
    proof (cases skip)
      case True
      have "k = 0 \<or> \<not> two_slots E (ns ! (k - 1))" using Cons.prems(3) Suc by (cases k) auto
      with Cons.IH [of k False] Cons.prems(1,4) Suc True show ?thesis by simp
    next
      case False
      let ?s = "two_slots E n"
      have k: "of_bool ?s \<le> k" using Cons.prems(3) Suc False by (cases k) auto
      have "k = 0 \<or> \<not> (two_slots E (ns ! (k - 1)) \<and> \<not> (?s \<and> k = 1))"
        using Cons.prems(3) Suc False by (cases k) auto
      with Cons.IH [of k ?s] Cons.prems(1,4) Suc k
      have "take (length (node_values E objs (ns ! k))) (drop (k - of_bool ?s) (slot_values E objs False ?s ns)) = node_values E objs (ns ! k)"
        by simp
      moreover have "drop i (node_values E objs n @ slot_values E objs False ?s ns) = drop (k - of_bool ?s) (slot_values E objs False ?s ns)"
        using l Suc k by (auto simp: drop_Cons' numeral_2_eq_2)
      ultimately show ?thesis using Suc False by simp
    qed
  qed
qed simp

lemma slot_values_describe:
  assumes "\<forall>n \<in> set ns. o_sobj E n = None \<longrightarrow> plain_values E n \<noteq> None" and "slots_paired E False False ns"
  shows "describes_slots E objs ns (slot_values E objs False False ns)"
  using slot_values_length [OF assms, of objs] slot_values_nth [OF assms(1), of _ False objs] by (auto simp: describes_slots_def)

section \<open>One scope\<close>

text \<open>What a machine safepoint holds for a state; a state without a method has monitors only.\<close>

definition ms_scope :: "mach_safepoint \<Rightarrow> jvm_state \<Rightarrow> scope_view" where
  "ms_scope sf j =
     (let v = view_of (drop (ms_jvmadj sf) (ms_in sf)) j
      in if js_method j = None then v\<lparr>v_locals := [], v_stack := []\<rparr> else v)"

definition box_eliminated :: "output_env \<Rightarrow> node \<Rightarrow> bool" where
  "box_eliminated E box \<longleftrightarrow> o_is_BoxLock E box \<and> o_is_eliminated E box"

definition owner_value :: "output_env \<Rightarrow> object_value list \<Rightarrow> node \<Rightarrow> scope_value" where
  "owner_value E objs obj =
     (case o_sobj E obj of
        Some _ \<Rightarrow> ObjectRef (the (sv_for_node_id objs obj))
      | None \<Rightarrow>
          if o_is_Con E obj then ConstantOopWriteValue (the (o_const_oop E obj))
          else the (new_loc_value E (o_reg_first E obj) (if o_base E obj = TB_NarrowOop then L_narrowoop else L_oop)))"

definition monitor_of :: "output_env \<Rightarrow> object_value list \<Rightarrow> node \<times> node \<Rightarrow> monitor_value" where
  "monitor_of E objs m = \<lparr>mv_owner = owner_value E objs (snd m), mv_basic_lock = o_stk_loc E L_normal (o_reg2offset E (o_box_reg E (fst m))),
     mv_eliminated = box_eliminated E (fst m)\<rparr>"

definition monitor_ok :: "output_env \<Rightarrow> node set \<Rightarrow> node \<times> node \<Rightarrow> bool" where
  "monitor_ok E N m \<longleftrightarrow>
     (case o_sobj E (snd m) of
        Some so \<Rightarrow> snd m \<in> N \<and> (so_stack_allocated so \<longrightarrow> box_eliminated E (fst m))
      | None \<Rightarrow> if o_is_Con E (snd m) then o_const_oop E (snd m) \<noteq> None else o_is_valid E (o_reg_first E (snd m)))"

lemma monitor_owner_ok:
  assumes N: "nodes_ok E sf N" and m: "monitor_ok E N (box, obj)" and d: "distinct (ids objs)"
  shows "\<exists>objs'. monitor_owner E sf obj (box_eliminated E box) objs = Some (owner_value E objs' obj, objs') \<and>
    grown E sf {obj} objs objs' \<and> pooled E objs' obj"
proof (cases "o_sobj E obj")
  case None
  then have "monitor_owner E sf obj (box_eliminated E box) objs = Some (owner_value E objs obj, objs)"
    using m by (cases "o_is_Con E obj") (auto simp: monitor_owner_def owner_value_def monitor_ok_def new_loc_value_def)
  moreover have "pooled E objs obj" using None by (simp add: pooled_def)
  ultimately show ?thesis using grown_refl [OF d] by blast
next
  case (Some so)
  show ?thesis
  proof (cases "sv_for_node_id objs obj")
    case (Some k)
    with \<open>o_sobj E obj = Some so\<close> have "monitor_owner E sf obj (box_eliminated E box) objs = Some (owner_value E objs obj, objs)" "pooled E objs obj"
      by (simp_all add: monitor_owner_def owner_value_def pooled_def)
    then show ?thesis using grown_refl [OF d] by blast
  next
    case None
    have n: "obj \<in> N" "so_stack_allocated so \<longrightarrow> box_eliminated E box" using m Some by (simp_all add: monitor_ok_def)
    have "\<exists>objs2. fill_array E sf True 0 fs [] objs1 = Some (concat (map (node_values E objs2) fs), objs2) \<and>
        grown E sf (set fs) objs1 objs2 \<and> (\<forall>f \<in> set fs. pooled E objs2 f)" if "set fs \<subseteq> N" "distinct (ids objs1)" for fs objs1
      using fill_array_ok [OF N that, of True False "[]" 0] by (simp add: slots_paired_fields slot_values_fields)
    then obtain objs' where a: "add_object E sf obj so objs = Some objs'" "grown E sf {obj} objs objs'" "sv_for_node_id objs' obj = Some (length objs)"
      using add_object_ok [OF N n(1) Some None d] by blast
    have "monitor_owner E sf obj (box_eliminated E box) objs = Some (owner_value E objs' obj, objs')" "pooled E objs' obj"
      using a Some None n(2) by (simp_all add: monitor_owner_def owner_value_def pooled_def)
    then show ?thesis using a(2) by blast
  qed
qed

lemma owner_value_grown: "grown E sf R objs objs' \<Longrightarrow> pooled E objs obj \<Longrightarrow> owner_value E objs' obj = owner_value E objs obj"
proof -
  assume g: "grown E sf R objs objs'" and p: "pooled E objs obj"
  show ?thesis
  proof (cases "o_sobj E obj")
    case (Some so)
    then show ?thesis using grownD(3) [OF g p] by (simp add: owner_value_def node_values_def)
  qed (simp add: owner_value_def)
qed

lemma fill_monitors_ok:
  assumes N: "nodes_ok E sf N"
    and at: "\<And>i. i \<in> set is \<Longrightarrow> ms_input sf (ms_jvmadj sf + monitor_box_offset j i) = Some (fst (m i)) \<and>
      ms_input sf (ms_jvmadj sf + monitor_obj_offset j i) = Some (snd (m i)) \<and> monitor_ok E N (m i)"
    and d: "distinct (ids objs)"
  shows "\<exists>objs'. fill_monitors E sf j is objs = Some (map (\<lambda>i. monitor_of E objs' (m i)) is, objs') \<and>
    grown E sf (snd ` m ` set is) objs objs' \<and> (\<forall>i \<in> set is. pooled E objs' (snd (m i)))"
  using at d
proof (induction "is" arbitrary: objs)
  case Nil
  then show ?case by (simp add: grown_refl)
next
  case (Cons i "is")
  from Cons.prems(1) [of i] have i: "ms_input sf (ms_jvmadj sf + monitor_box_offset j i) = Some (fst (m i))"
    "ms_input sf (ms_jvmadj sf + monitor_obj_offset j i) = Some (snd (m i))" "monitor_ok E N (fst (m i), snd (m i))" by simp_all
  from monitor_owner_ok [OF N i(3) Cons.prems(2)] obtain objs1 where
    o: "monitor_owner E sf (snd (m i)) (box_eliminated E (fst (m i))) objs = Some (owner_value E objs1 (snd (m i)), objs1)"
    "grown E sf {snd (m i)} objs objs1" "pooled E objs1 (snd (m i))" by blast
  from Cons.IH [OF Cons.prems(1) grownD(1) [OF o(2)]] obtain objs' where
    t: "fill_monitors E sf j is objs1 = Some (map (\<lambda>i. monitor_of E objs' (m i)) is, objs')" "grown E sf (snd ` m ` set is) objs1 objs'"
    "\<forall>i \<in> set is. pooled E objs' (snd (m i))" by auto
  have "fill_monitors E sf j (i # is) objs = Some (map (\<lambda>i. monitor_of E objs' (m i)) (i # is), objs')"
    using i(1,2) o(1) t(1) owner_value_grown [OF t(2) o(3)] by (simp add: monitor_of_def Let_def flip: box_eliminated_def)
  moreover have "grown E sf (snd ` m ` set (i # is)) objs objs'" by (rule grown_trans [OF o(2) t(2)]) auto
  moreover have "\<forall>i \<in> set (i # is). pooled E objs' (snd (m i))" using t(3) grownD(2) [OF t(2) o(3)] by simp
  ultimately show ?case by blast
qed

lemma fill_scalars_ok:
  assumes "\<And>n so. n \<in> set ns \<Longrightarrow> o_sobj E n = Some so \<Longrightarrow> o_klass_ok E n \<and> (if so_stack_allocated so then o_box_lock E n \<noteq> None else pooled E objs n)"
    and "distinct (ids objs)"
  shows "\<exists>objs'. fill_scalars E ns objs = Some objs' \<and> grown E sf (set ns) objs objs' \<and> (\<forall>n \<in> set ns. pooled E objs' n)"
  using assms
proof (induction ns arbitrary: objs)
  case Nil
  then show ?case by (simp add: grown_refl)
next
  case (Cons n ns)
  have step: ?case if g: "grown E sf {n} objs objs1" and p: "pooled E objs1 n" and f: "fill_scalars E (n # ns) objs = fill_scalars E ns objs1" for objs1
  proof -
    have "\<exists>objs'. fill_scalars E ns objs1 = Some objs' \<and> grown E sf (set ns) objs1 objs' \<and> (\<forall>n \<in> set ns. pooled E objs' n)"
    proof (rule Cons.IH)
      show "o_klass_ok E k \<and> (if so_stack_allocated so then o_box_lock E k \<noteq> None else pooled E objs1 k)"
        if "k \<in> set ns" "o_sobj E k = Some so" for k so
        using Cons.prems(1) [of k so] that grownD(2) [OF g, of k] by auto
      show "distinct (ids objs1)" by (rule grownD(1) [OF g])
    qed
    then obtain objs' where o: "fill_scalars E ns objs1 = Some objs'" "grown E sf (set ns) objs1 objs'" "\<forall>n \<in> set ns. pooled E objs' n" by blast
    have "grown E sf (set (n # ns)) objs objs'" by (rule grown_trans [OF g o(2)]) auto
    moreover have "\<forall>n \<in> set (n # ns). pooled E objs' n" using o(3) grownD(2) [OF o(2) p] by simp
    ultimately show ?thesis using f o(1) by auto
  qed
  show ?case
  proof (cases "pooled E objs n")
    case True
    then show ?thesis by (intro step [OF grown_refl [OF Cons.prems(2)]]) (auto simp: pooled_def split: option.split)
  next
    case False
    then obtain so where so: "o_sobj E n = Some so" "sv_for_node_id objs n = None" by (auto simp: pooled_def)
    with Cons.prems(1) [of n so] False have ok: "so_stack_allocated so" "o_klass_ok E n" "o_box_lock E n \<noteq> None" by (auto split: if_splits)
    then obtain sv where sv: "new_stack_object E n so = Some sv" by (auto simp: new_stack_object_def new_StackObjectValue_def)
    have id: "ov_id sv = int n" by (rule new_object_ids(1) [OF sv])
    have "describes_object E sf (objs @ [sv]) n sv" using so ok sv by (simp add: describes_object_def)
    moreover have "described_from E sf {n} n" using so by (auto intro: described_from.root)
    ultimately have "grown E sf {n} objs (objs @ [sv])" using Cons.prems(2) so(2) id by (auto simp: grown_def sv_for_node_id_None)
    then show ?thesis
      by (rule step) (use so ok sv sv_for_node_id_new [OF so(2) id, of "[]"] in \<open>simp_all add: pooled_def set_sv_for_object_node_def\<close>)
  qed
qed


subsection \<open>The pool of a scope\<close>

text \<open>The nodes that the scopes so far mention.\<close>

definition scope_roots :: "scope_view \<Rightarrow> node set" where
  "scope_roots v = set (v_locals v) \<union> set (v_stack v) \<union> snd ` set (v_monitors v) \<union> set (v_scalars v)"

text \<open>The pool describes exactly the objects that \<open>R\<close> leads to, every one once.\<close>

definition pool_describes :: "output_env \<Rightarrow> mach_safepoint \<Rightarrow> node set \<Rightarrow> object_value list \<Rightarrow> bool" where
  "pool_describes E sf R objs \<longleftrightarrow> distinct (ids objs) \<and> set (ids objs) = int ` {n. described_from E sf R n} \<and>
     (\<forall>ov \<in> set objs. \<exists>n. described_from E sf R n \<and> describes_object E sf objs n ov)"

lemma reachable_pooled:
  assumes g: "grown E sf R [] objs" and p: "\<forall>n \<in> R'. pooled E objs n"
  shows "described_from E sf R' n \<Longrightarrow> int n \<in> set (ids objs)"
proof (induction rule: described_from.induct)
  case (root n so)
  then show ?case using p by (auto simp: pooled_def sv_for_node_id_None)
next
  case (field m so fs f so')
  then obtain ov where ov: "ov \<in> set objs" "ov_id ov = int m" by auto
  with g obtain k where k: "describes_object E sf objs k ov" by (auto simp: grown_def)
  from describes_object_id [OF k] ov(2) have "k = m" by simp
  with k field.hyps have "pooled E objs f" by (auto simp: describes_object_def field_valued_def)
  then show ?case using field.hyps by (auto simp: pooled_def sv_for_node_id_None)
qed

lemma grown_describes:
  assumes g: "grown E sf R [] objs" and p: "\<forall>n \<in> R. pooled E objs n"
  shows "pool_describes E sf R objs"
proof -
  have o: "\<forall>ov \<in> set objs. \<exists>n. described_from E sf R n \<and> describes_object E sf objs n ov" and d: "distinct (ids objs)"
    using g by (auto simp: grown_def)
  have "set (ids objs) \<subseteq> int ` {n. described_from E sf R n}"
  proof
    fix i assume "i \<in> set (ids objs)"
    then obtain ov where ov: "ov \<in> set objs" "i = ov_id ov" by auto
    with o obtain n where "described_from E sf R n" "describes_object E sf objs n ov" by blast
    with ov(2) show "i \<in> int ` {n. described_from E sf R n}" using describes_object_id by blast
  qed
  moreover have "int ` {n. described_from E sf R n} \<subseteq> set (ids objs)" using reachable_pooled [OF g p] by auto
  ultimately show ?thesis using o d unfolding pool_describes_def by blast
qed

lemma ms_inputs_segment:
  assumes "a \<le> b" "ms_jvmadj sf + b \<le> length (ms_in sf)"
  shows "ms_inputs sf (ms_jvmadj sf + a) (int b - int a) = Some (segment a b (drop (ms_jvmadj sf) (ms_in sf)))"
proof (cases "a = b")
  case True
  then show ?thesis by (simp add: ms_inputs_def segment_def)
next
  case False
  then have "nat (int b - int a) = b - a" "\<not> int b - int a \<le> 0" using assms(1) by auto
  then show ?thesis using assms by (simp add: ms_inputs_def segment_def add.commute)
qed

text \<open>
  A scope that can be described: its sections lie in the inputs, the assertions of the loop hold, and an object of the
  scalar section is stack allocated or described already.
\<close>

definition scope_ok :: "output_env \<Rightarrow> mach_safepoint \<Rightarrow> node set \<Rightarrow> node set \<Rightarrow> jvm_state \<Rightarrow> bool" where
  "scope_ok E sf N R j \<longleftrightarrow> jvms_layout j \<and> ms_jvmadj sf + js_endoff j \<le> length (ms_in sf) \<and>
     (\<forall>m. js_method j = Some m \<longrightarrow> (js_bci j < 0 \<or> loc_size j = int (m_max_locals m)) \<and> (o_needs_monitor E m \<longrightarrow> 0 < nof_monitors j)) \<and>
     InvocationEntryBci \<le> js_bci j \<and> js_bci j \<le> 0x10000 \<and>
     (let v = ms_scope sf j in
       set (v_locals v) \<subseteq> N \<and> set (v_stack v) \<subseteq> N \<and> paired E (v_locals v) \<and> paired E (v_stack v) \<and> (\<forall>m \<in> set (v_monitors v). monitor_ok E N m) \<and>
       (\<forall>n so. n \<in> set (v_scalars v) \<longrightarrow> o_sobj E n = Some so \<longrightarrow> o_klass_ok E n \<and>
          (if so_stack_allocated so then o_box_lock E n \<noteq> None
           else described_from E sf (R \<union> set (v_locals v) \<union> set (v_stack v) \<union> snd ` set (v_monitors v)) n)))"

lemma fill_scope_ok:
  assumes N: "nodes_ok E sf N" and top: "\<not> two_slots E (o_top E)" and s: "scope_ok E sf N R j"
    and g: "grown E sf R [] objs" and p: "\<forall>n \<in> R. pooled E objs n"
  defines "v \<equiv> ms_scope sf j"
  shows "\<exists>objs'. fill_scope E sf j objs = Some (slot_values E objs' False False (v_locals v), slot_values E objs' False False (v_stack v),
      map (monitor_of E objs') (v_monitors v), objs') \<and>
    grown E sf (R \<union> scope_roots v) [] objs' \<and> (\<forall>n \<in> R \<union> scope_roots v. pooled E objs' n) \<and> grown E sf (scope_roots v) objs objs'"
proof -
  define w where "w = view_of (drop (ms_jvmadj sf) (ms_in sf)) j"
  have lay: "js_locoff j \<le> js_stkoff j" "js_stkoff j \<le> js_monoff j" "js_monoff j \<le> js_scloff j" "js_scloff j \<le> js_endoff j"
    "even (js_scloff j - js_monoff j)" "ms_jvmadj sf + js_endoff j \<le> length (ms_in sf)" and lok: "jvms_layout j"
    using s by (auto simp: scope_ok_def jvms_layout_def)
  have v: "set (v_locals v) \<subseteq> N" "set (v_stack v) \<subseteq> N" "paired E (v_locals v)" "paired E (v_stack v)" "\<forall>m \<in> set (v_monitors v). monitor_ok E N m"
    "\<forall>n so. n \<in> set (v_scalars v) \<longrightarrow> o_sobj E n = Some so \<longrightarrow> o_klass_ok E n \<and>
          (if so_stack_allocated so then o_box_lock E n \<noteq> None
           else described_from E sf (R \<union> set (v_locals v) \<union> set (v_stack v) \<union> snd ` set (v_monitors v)) n)"
    using s unfolding scope_ok_def v_def Let_def by blast+
  have locs: "ms_inputs sf (ms_jvmadj sf + js_locoff j) (if js_method j = None then 0 else loc_size j) = Some (v_locals v)"
    using ms_inputs_segment [of "js_locoff j" "js_stkoff j" sf] lay by (simp add: v_def ms_scope_def Let_def view_of_def loc_size_def) (simp add: ms_inputs_def)
  have stks: "ms_inputs sf (ms_jvmadj sf + js_stkoff j) (if js_method j = None then 0 else stk_size j) = Some (v_stack v)"
    using ms_inputs_segment [of "js_stkoff j" "js_monoff j" sf] lay by (simp add: v_def ms_scope_def Let_def view_of_def stk_size_def) (simp add: ms_inputs_def)
  have scls: "ms_inputs sf (ms_jvmadj sf + js_scloff j) (scl_size j) = Some (v_scalars v)"
    using ms_inputs_segment [of "js_scloff j" "js_endoff j" sf] lay by (simp add: v_def ms_scope_def Let_def view_of_def scl_size_def)
  have mons: "v_monitors v = v_monitors w" "nat (nof_monitors j) = length (v_monitors v)"
    using nof_monitors_pairs [OF lok, of "drop (ms_jvmadj sf) (ms_in sf)"] lay by (auto simp: v_def w_def ms_scope_def Let_def)
  have at: "ms_input sf (ms_jvmadj sf + monitor_box_offset j i) = Some (fst (v_monitors v ! i)) \<and>
      ms_input sf (ms_jvmadj sf + monitor_obj_offset j i) = Some (snd (v_monitors v ! i)) \<and> monitor_ok E N (v_monitors v ! i)"
    if "i \<in> set [0..<length (v_monitors v)]" for i
  proof -
    define xs where "xs = segment (js_monoff j) (js_scloff j) (drop (ms_jvmadj sf) (ms_in sf))"
    have len: "length xs = js_scloff j - js_monoff j" using lay by (simp add: xs_def)
    have vm: "v_monitors v = pairs xs" by (simp add: mons(1) w_def view_of_def xs_def)
    from that have i: "i < length xs div 2" by (simp add: vm)
    then have le: "2 * i + 1 < js_scloff j - js_monoff j" using len by linarith
    have nth: "xs ! k = ms_in sf ! (ms_jvmadj sf + (js_monoff j + k))" if "k < js_scloff j - js_monoff j" for k
      using that lay by (simp add: xs_def segment_nth)
    have "monitor_ok E N (v_monitors v ! i)" using v(5) i by (simp add: vm)
    moreover have "ms_jvmadj sf + (js_monoff j + (2 * i + 1)) < length (ms_in sf)" using le lay by linarith
    ultimately show ?thesis
      using pairs_nth [OF i] nth [of "2 * i"] nth [of "2 * i + 1"] le
      by (simp add: vm ms_input_def monitor_box_offset_def monitor_obj_offset_def push_bit_eq_mult mult.commute)
  qed
  have d: "distinct (ids objs)" by (rule grownD(1) [OF g])
  from fill_array_ok [OF N v(1) d slots_paired_nth [OF top v(3)], of False "[]" 0] obtain o1 where
    1: "fill_array E sf False 0 (v_locals v) [] objs = Some (slot_values E o1 False False (v_locals v), o1)"
      "grown E sf (set (v_locals v)) objs o1" "\<forall>n \<in> set (v_locals v). pooled E o1 n" by auto
  from fill_array_ok [OF N v(2) grownD(1) [OF 1(2)] slots_paired_nth [OF top v(4)], of False "[]" 0] obtain o2 where
    2: "fill_array E sf False 0 (v_stack v) [] o1 = Some (slot_values E o2 False False (v_stack v), o2)"
      "grown E sf (set (v_stack v)) o1 o2" "\<forall>n \<in> set (v_stack v). pooled E o2 n" by auto
  from fill_monitors_ok [OF N at grownD(1) [OF 2(2)]] obtain o3 where
    m: "fill_monitors E sf j [0..<length (v_monitors v)] o2 = Some (map (\<lambda>i. monitor_of E o3 (v_monitors v ! i)) [0..<length (v_monitors v)], o3)"
      "grown E sf (snd ` (!) (v_monitors v) ` set [0..<length (v_monitors v)]) o2 o3" "\<forall>i \<in> set [0..<length (v_monitors v)]. pooled E o3 (snd (v_monitors v ! i))"
    by blast
  have img: "(!) (v_monitors v) ` {0..<length (v_monitors v)} = set (v_monitors v)" by (metis atLeast_upt list.set_map map_nth set_upt)
  have 3: "fill_monitors E sf j [0..<nat (nof_monitors j)] o2 = Some (map (monitor_of E o3) (v_monitors v), o3)"
      "grown E sf (snd ` set (v_monitors v)) o2 o3" "\<forall>m \<in> set (v_monitors v). pooled E o3 (snd m)"
  proof -
    have "map (\<lambda>i. monitor_of E o3 (v_monitors v ! i)) [0..<length (v_monitors v)] = map (monitor_of E o3) (map ((!) (v_monitors v)) [0..<length (v_monitors v)])"
      by simp
    then show "fill_monitors E sf j [0..<nat (nof_monitors j)] o2 = Some (map (monitor_of E o3) (v_monitors v), o3)"
      using m(1) by (simp only: mons(2) map_nth)
    show "grown E sf (snd ` set (v_monitors v)) o2 o3" using m(2) by (simp add: img)
    show "\<forall>m \<in> set (v_monitors v). pooled E o3 (snd m)" using m(3) by (metis atLeastLessThan_iff in_set_conv_nth set_upt zero_le)
  qed
  let ?R3 = "R \<union> set (v_locals v) \<union> set (v_stack v) \<union> snd ` set (v_monitors v)"
  have g13: "grown E sf (set (v_locals v) \<union> set (v_stack v)) objs o2" by (rule grown_trans [OF 1(2) 2(2)]) auto
  have g3: "grown E sf (set (v_locals v) \<union> set (v_stack v) \<union> snd ` set (v_monitors v)) objs o3" by (rule grown_trans [OF g13 3(2)]) auto
  have gR: "grown E sf ?R3 [] o3" by (rule grown_trans [OF g g3]) auto
  have p3: "\<forall>n \<in> ?R3. pooled E o3 n"
    using p 1(3) 2(3) 3(3) grownD(2) [OF g3] grownD(2) [OF 2(2)] grownD(2) [OF 3(2)] by auto
  have "o_klass_ok E n \<and> (if so_stack_allocated so then o_box_lock E n \<noteq> None else pooled E o3 n)"
    if n: "n \<in> set (v_scalars v)" "o_sobj E n = Some so" for n so
  proof -
    have "described_from E sf ?R3 n \<Longrightarrow> pooled E o3 n"
      using reachable_pooled [OF gR p3, of n] unfolding pooled_def sv_for_node_id_None by blast
    then show ?thesis using v(6) n by (auto split: if_splits)
  qed
  from fill_scalars_ok [OF this grownD(1) [OF 3(2)], where sf = sf] obtain o4 where
    4: "fill_scalars E (v_scalars v) o3 = Some o4" "grown E sf (set (v_scalars v)) o3 o4" "\<forall>n \<in> set (v_scalars v). pooled E o4 n" by blast
  have g4: "grown E sf (set (v_stack v) \<union> snd ` set (v_monitors v) \<union> set (v_scalars v)) o1 o4"
    by (rule grown_trans [OF 2(2) grown_trans [OF 3(2) 4(2) Un_upper1 Un_upper2]]) auto
  have g24: "grown E sf (snd ` set (v_monitors v) \<union> set (v_scalars v)) o2 o4"
    by (rule grown_trans [OF 3(2) 4(2)]) auto
  have "slot_values E o4 False False (v_locals v) = slot_values E o1 False False (v_locals v)"
    "slot_values E o4 False False (v_stack v) = slot_values E o2 False False (v_stack v)"
    by (rule slot_values_grown [OF g4 1(3)], rule slot_values_grown [OF g24 2(3)])
  moreover have "map (monitor_of E o4) (v_monitors v) = map (monitor_of E o3) (v_monitors v)"
    using 3(3) owner_value_grown [OF 4(2)] by (auto simp: monitor_of_def)
  moreover have "fill_scope E sf j objs = Some (slot_values E o1 False False (v_locals v), slot_values E o2 False False (v_stack v),
      map (monitor_of E o3) (v_monitors v), o4)"
  proof -
    have c: "\<forall>m. js_method j = Some m \<longrightarrow> (js_bci j < 0 \<or> (if js_method j = None then 0 else loc_size j) = int (m_max_locals m)) \<and>
        (o_needs_monitor E m \<longrightarrow> 0 < nof_monitors j)" using s by (auto simp: scope_ok_def)
    show ?thesis
      unfolding fill_scope_def Let_def by (simp only: eqTrueI [OF c] if_True locs stks scls 1(1) 2(1) 3(1) 4(1) Option.bind.bind_lunit prod.case option.map)
  qed
  ultimately have "fill_scope E sf j objs = Some (slot_values E o4 False False (v_locals v), slot_values E o4 False False (v_stack v),
      map (monitor_of E o4) (v_monitors v), o4)" by simp
  moreover have go: "grown E sf (scope_roots v) objs o4" by (rule grown_trans [OF g3 4(2)]) (auto simp: scope_roots_def)
  moreover have "grown E sf (R \<union> scope_roots v) [] o4" by (rule grown_trans [OF g go]) auto
  moreover have "\<forall>n \<in> R \<union> scope_roots v. pooled E o4 n"
    using p3 4(3) grownD(2) [OF 4(2)] by (auto simp: scope_roots_def)
  ultimately show ?thesis by blast
qed


section \<open>All scopes of a safepoint\<close>

definition state_at :: "mach_safepoint \<Rightarrow> nat \<Rightarrow> jvm_state" where
  "state_at sf depth = ms_jvms sf ! (length (ms_jvms sf) - depth)"

definition scope_at :: "mach_safepoint \<Rightarrow> nat \<Rightarrow> scope_view" where
  "scope_at sf depth = ms_scope sf (state_at sf depth)"

definition roots_upto :: "mach_safepoint \<Rightarrow> nat \<Rightarrow> node set" where
  "roots_upto sf depth = (\<Union>k \<in> {1..depth}. scope_roots (scope_at sf k))"

definition call_method_handle :: "mach_safepoint \<Rightarrow> bool" where
  "call_method_handle sf \<longleftrightarrow> (case ms_call sf of None \<Rightarrow> False | Some c \<Rightarrow> mc_is_java c \<and> mc_method_handle_invoke c)"

definition call_returns_oop :: "mach_safepoint \<Rightarrow> bool" where
  "call_returns_oop sf \<longleftrightarrow> (case ms_call sf of None \<Rightarrow> False | Some c \<Rightarrow> mc_returns_pointer c)"

definition sfpt_describable :: "output_env \<Rightarrow> mach_safepoint \<Rightarrow> node set \<Rightarrow> bool" where
  "sfpt_describable E sf N \<longleftrightarrow> nodes_ok E sf N \<and> \<not> two_slots E (o_top E) \<and> chain_ok (ms_jvms sf) \<and> ms_jvms sf \<noteq> [] \<and>
     (call_method_handle sf \<longrightarrow> o_has_method_handle_invokes E) \<and>
     (\<forall>depth \<in> {1..length (ms_jvms sf)}. scope_ok E sf N (roots_upto sf (depth - 1)) (state_at sf depth) \<and>
        (should_reexecute (state_at sf depth) \<longrightarrow> depth = length (ms_jvms sf)))"

text \<open>The events for the scope at a depth, with a given pool.\<close>

definition scope_events :: "output_env \<Rightarrow> mach_safepoint \<Rightarrow> int \<Rightarrow> nat \<Rightarrow> object_value list \<Rightarrow> scope_value list \<Rightarrow> scope_value list \<Rightarrow> debug_event list" where
  "scope_events E sf pc depth objs locs exps =
     [dump_object_pool objs, scope_event E (call_method_handle sf) (call_returns_oop sf) pc (state_at sf depth) locs exps
        (map (monitor_of E objs) (v_monitors (scope_at sf depth)))]"

definition filled_events :: "output_env \<Rightarrow> mach_safepoint \<Rightarrow> int \<Rightarrow> (nat \<Rightarrow> object_value list) \<Rightarrow> nat list \<Rightarrow> debug_event list" where
  "filled_events E sf pc pool ds =
     concat (map (\<lambda>d. scope_events E sf pc d (pool d) (slot_values E (pool d) False False (v_locals (scope_at sf d)))
       (slot_values E (pool d) False False (v_stack (scope_at sf d)))) ds)"

lemma filled_events_Cons: "filled_events E sf pc pool (d # ds) =
    scope_events E sf pc d (pool d) (slot_values E (pool d) False False (v_locals (scope_at sf d)))
      (slot_values E (pool d) False False (v_stack (scope_at sf d))) @ filled_events E sf pc pool ds"
  by (simp add: filled_events_def)

lemma filled_events_upd: "d \<notin> set ds \<Longrightarrow> filled_events E sf pc (pool(d := objs)) ds = filled_events E sf pc pool ds"
  unfolding filled_events_def by (rule arg_cong [where f = concat], rule map_cong [OF refl]) auto

text \<open>\<open>pool\<close> are the pools of the scopes from \<open>depth\<close> on, which extend \<open>objs\<close>.\<close>

definition pools_from :: "output_env \<Rightarrow> mach_safepoint \<Rightarrow> object_value list \<Rightarrow> nat \<Rightarrow> (nat \<Rightarrow> object_value list) \<Rightarrow> bool" where
  "pools_from E sf objs depth pool \<longleftrightarrow> (\<forall>d \<in> {depth..length (ms_jvms sf)}. grown E sf (roots_upto sf d) [] (pool d) \<and>
     (\<forall>k \<in> roots_upto sf d. pooled E (pool d) k) \<and> (\<exists>new. pool d = (if d = depth then objs else pool (d - 1)) @ new))"

lemma pools_from_step:
  assumes "pools_from E sf objs' (Suc depth) pool" and "grown E sf (roots_upto sf depth) [] objs'" "\<forall>k \<in> roots_upto sf depth. pooled E objs' k"
    and "objs' = objs @ new"
  shows "pools_from E sf objs depth (pool(depth := objs'))"
  unfolding pools_from_def
proof
  fix d assume d: "d \<in> {depth..length (ms_jvms sf)}"
  show "grown E sf (roots_upto sf d) [] ((pool(depth := objs')) d) \<and> (\<forall>k \<in> roots_upto sf d. pooled E ((pool(depth := objs')) d) k) \<and>
     (\<exists>new. (pool(depth := objs')) d = (if d = depth then objs else (pool(depth := objs')) (d - 1)) @ new)"
  proof (cases "d = depth")
    case True
    then show ?thesis using assms(2-4) by simp
  next
    case False
    with d have "d \<in> {Suc depth..length (ms_jvms sf)}" by auto
    from bspec [OF assms(1) [unfolded pools_from_def] this] False d show ?thesis by (cases "d = Suc depth") auto
  qed
qed

lemma fill_scopes_step:
  assumes S: "sfpt_describable E sf N" and le: "1 \<le> depth" "depth \<le> length (ms_jvms sf)"
    and g: "grown E sf (roots_upto sf (depth - 1)) [] objs" and p: "\<forall>k \<in> roots_upto sf (depth - 1). pooled E objs k"
  shows "\<exists>objs' new. objs' = objs @ new \<and> grown E sf (roots_upto sf depth) [] objs' \<and> (\<forall>k \<in> roots_upto sf depth. pooled E objs' k) \<and>
    (\<forall>ds. fill_scopes E sf (call_method_handle sf) (call_returns_oop sf) pc (depth # ds) objs =
       map_option ((@) (scope_events E sf pc depth objs' (slot_values E objs' False False (v_locals (scope_at sf depth)))
         (slot_values E objs' False False (v_stack (scope_at sf depth)))))
         (fill_scopes E sf (call_method_handle sf) (call_returns_oop sf) pc ds objs'))"
proof -
  have N: "nodes_ok E sf N" "\<not> two_slots E (o_top E)" and ch: "chain_ok (ms_jvms sf)" and ne: "ms_jvms sf \<noteq> []"
    using S by (simp_all add: sfpt_describable_def)
  let ?n = "length (ms_jvms sf)"
  have sc: "scope_ok E sf N (roots_upto sf (depth - 1)) (state_at sf depth)" "should_reexecute (state_at sf depth) \<longrightarrow> depth = ?n"
    using S le by (auto simp: sfpt_describable_def)
  obtain y ys where y: "ms_jvms sf = y # ys" using ne by (cases "ms_jvms sf") auto
  then have dep: "js_depth (hd (ms_jvms sf)) = ?n" using ch by simp
  have "?n - depth < ?n" using le by simp
  then have "drop (?n - depth) (ms_jvms sf) = state_at sf depth # drop (Suc (?n - depth)) (ms_jvms sf)"
    by (simp add: state_at_def Cons_nth_drop_Suc)
  then have od: "of_depth depth (ms_jvms sf) = Some (state_at sf depth # drop (Suc (?n - depth)) (ms_jvms sf))"
    using of_depth_drop [OF ch, of depth] le by simp
  have "{1..depth} = insert depth {1..depth - 1}" using le by auto
  then have roots: "roots_upto sf depth = roots_upto sf (depth - 1) \<union> scope_roots (ms_scope sf (state_at sf depth))"
    by (simp add: roots_upto_def scope_at_def Un_commute)
  from fill_scope_ok [OF N sc(1) g p] obtain objs' where
    f: "fill_scope E sf (state_at sf depth) objs = Some (slot_values E objs' False False (v_locals (scope_at sf depth)),
      slot_values E objs' False False (v_stack (scope_at sf depth)), map (monitor_of E objs') (v_monitors (scope_at sf depth)), objs')"
    and g': "grown E sf (roots_upto sf depth) [] objs'" and p': "\<forall>k \<in> roots_upto sf depth. pooled E objs' k"
    and go: "grown E sf (scope_roots (ms_scope sf (state_at sf depth))) objs objs'"
    unfolding roots scope_at_def by blast
  have bci: "InvocationEntryBci \<le> js_bci (state_at sf depth) \<and> js_bci (state_at sf depth) \<le> 0x10000 \<and>
      (should_reexecute (state_at sf depth) \<longrightarrow> depth = js_depth (hd (ms_jvms sf)))"
    using sc dep by (simp add: scope_ok_def)
  have "fill_scopes E sf (call_method_handle sf) (call_returns_oop sf) pc (depth # ds) objs =
       map_option ((@) (scope_events E sf pc depth objs' (slot_values E objs' False False (v_locals (scope_at sf depth)))
         (slot_values E objs' False False (v_stack (scope_at sf depth)))))
         (fill_scopes E sf (call_method_handle sf) (call_returns_oop sf) pc ds objs')" for ds
    unfolding fill_scopes.simps(2) od option.case list.case f Option.bind.bind_lunit prod.case eqTrueI [OF bci] if_True
    by (rule arg_cong [where f = "\<lambda>f. map_option f _"]) (simp add: fun_eq_iff scope_events_def)
  moreover obtain new where "objs' = objs @ new" using go unfolding grown_def by blast
  ultimately show ?thesis using g' p' by blast
qed

lemma fill_scopes_ok:
  assumes S: "sfpt_describable E sf N"
  shows "\<lbrakk>depth \<le> Suc (length (ms_jvms sf)); 1 \<le> depth; grown E sf (roots_upto sf (depth - 1)) [] objs; \<forall>k \<in> roots_upto sf (depth - 1). pooled E objs k\<rbrakk> \<Longrightarrow>
    \<exists>pool. fill_scopes E sf (call_method_handle sf) (call_returns_oop sf) pc [depth..<Suc (length (ms_jvms sf))] objs =
        Some (filled_events E sf pc pool [depth..<Suc (length (ms_jvms sf))]) \<and> pools_from E sf objs depth pool"
proof (induction depth arbitrary: objs rule: inc_induct)
  case base
  then show ?case by (simp add: filled_events_def pools_from_def)
next
  case (step depth)
  let ?n = "length (ms_jvms sf)"
  have le: "depth \<le> ?n" using step.hyps by simp
  from fill_scopes_step [OF S step.prems(1) le step.prems(2,3)] obtain objs' new where
    o: "objs' = objs @ new" "grown E sf (roots_upto sf depth) [] objs'" "\<forall>k \<in> roots_upto sf depth. pooled E objs' k"
    and f: "\<And>ds. fill_scopes E sf (call_method_handle sf) (call_returns_oop sf) pc (depth # ds) objs =
       map_option ((@) (scope_events E sf pc depth objs' (slot_values E objs' False False (v_locals (scope_at sf depth)))
         (slot_values E objs' False False (v_stack (scope_at sf depth)))))
         (fill_scopes E sf (call_method_handle sf) (call_returns_oop sf) pc ds objs')" by blast
  have "1 \<le> Suc depth" "Suc depth - 1 = depth" by simp_all
  from step.IH [OF this(1), unfolded this(2), OF o(2,3)] obtain pool where
    t: "fill_scopes E sf (call_method_handle sf) (call_returns_oop sf) pc [Suc depth..<Suc ?n] objs' = Some (filled_events E sf pc pool [Suc depth..<Suc ?n])"
    "pools_from E sf objs' (Suc depth) pool" by blast
  have up: "[depth..<Suc ?n] = depth # [Suc depth..<Suc ?n]" using le by (simp add: upt_conv_Cons)
  have "depth \<notin> set [Suc depth..<Suc ?n]" by simp
  then have "fill_scopes E sf (call_method_handle sf) (call_returns_oop sf) pc [depth..<Suc ?n] objs =
      Some (filled_events E sf pc (pool(depth := objs')) [depth..<Suc ?n])"
    unfolding up f t(1) option.map filled_events_Cons by (simp add: filled_events_upd)
  with pools_from_step [OF t(2) o(2,3,1)] show ?case by blast
qed

lemma process_filled:
  assumes S: "sfpt_describable E sf N"
  shows "\<exists>pool. Process_OopMap_Node E sf off = Some (add_safepoint (safepoint_pc sf off) (ms_oop_map sf) #
      concat (map (\<lambda>d. scope_events E sf (safepoint_pc sf off) d (pool d) (slot_values E (pool d) False False (v_locals (scope_at sf d)))
        (slot_values E (pool d) False False (v_stack (scope_at sf d)))) [1..<Suc (length (ms_jvms sf))]) @
      [end_safepoint (safepoint_pc sf off)]) \<and> pools_from E sf [] 1 pool"
proof -
  let ?n = "length (ms_jvms sf)"
  have ch: "chain_ok (ms_jvms sf)" and ne: "ms_jvms sf \<noteq> []" using S by (simp_all add: sfpt_describable_def)
  obtain y ys where y: "ms_jvms sf = y # ys" using ne by (cases "ms_jvms sf") auto
  then have dep: "js_depth y = ?n" using ch by simp
  have "grown E sf (roots_upto sf (1 - 1)) [] []" "\<forall>k \<in> roots_upto sf (1 - 1). pooled E [] k" by (simp_all add: grown_def roots_upto_def)
  from fill_scopes_ok [OF S _ _ this, of "safepoint_pc sf off"] obtain pool where
    f: "fill_scopes E sf (call_method_handle sf) (call_returns_oop sf) (safepoint_pc sf off) [1..<Suc ?n] [] =
        Some (filled_events E sf (safepoint_pc sf off) pool [1..<Suc ?n])" and p: "pools_from E sf [] 1 pool" by auto
  have mh: "call_method_handle sf \<longrightarrow> o_has_method_handle_invokes E" using S by (simp add: sfpt_describable_def)
  have "Process_OopMap_Node E sf off = map_option (\<lambda>es. add_safepoint (safepoint_pc sf off) (ms_oop_map sf) # es @ [end_safepoint (safepoint_pc sf off)])
      (fill_scopes E sf (call_method_handle sf) (call_returns_oop sf) (safepoint_pc sf off) [1..<Suc ?n] [])"
    using mh y dep unfolding Process_OopMap_Node_def Let_def call_method_handle_def call_returns_oop_def by auto
  then show ?thesis using p unfolding f option.map filled_events_def by blast
qed

text \<open>What holds of the pool and the slots of the scope at a depth.\<close>

lemma pools_describe:
  assumes S: "sfpt_describable E sf N" and p: "pools_from E sf [] 1 pool" and d: "d \<in> {1..length (ms_jvms sf)}"
  shows "pool_describes E sf (roots_upto sf d) (pool d)" "\<forall>k \<in> roots_upto sf d. pooled E (pool d) k"
    "describes_slots E (pool d) (v_locals (scope_at sf d)) (slot_values E (pool d) False False (v_locals (scope_at sf d)))"
    "describes_slots E (pool d) (v_stack (scope_at sf d)) (slot_values E (pool d) False False (v_stack (scope_at sf d)))"
    "\<exists>new. pool d = (if d = 1 then [] else pool (d - 1)) @ new"
    "set (v_locals (scope_at sf d)) \<subseteq> N" "set (v_stack (scope_at sf d)) \<subseteq> N"
    "\<forall>n \<in> N. o_sobj E n = None \<longrightarrow> plain_values E n \<noteq> None"
proof -
  have N: "nodes_ok E sf N" and top: "\<not> two_slots E (o_top E)" using S by (simp_all add: sfpt_describable_def)
  from bspec [OF p [unfolded pools_from_def] d] have g: "grown E sf (roots_upto sf d) [] (pool d)"
    and r: "\<forall>k \<in> roots_upto sf d. pooled E (pool d) k" and new: "\<exists>new. pool d = (if d = 1 then [] else pool (d - 1)) @ new" by blast+
  show "pool_describes E sf (roots_upto sf d) (pool d)" by (rule grown_describes [OF g r])
  show "\<forall>k \<in> roots_upto sf d. pooled E (pool d) k" by (rule r)
  show "\<exists>new. pool d = (if d = 1 then [] else pool (d - 1)) @ new" by (rule new)
  have sc: "set (v_locals (scope_at sf d)) \<subseteq> N" "set (v_stack (scope_at sf d)) \<subseteq> N" "paired E (v_locals (scope_at sf d))" "paired E (v_stack (scope_at sf d))"
    using S d unfolding sfpt_describable_def scope_ok_def scope_at_def Let_def by blast+
  show plain: "\<forall>n \<in> N. o_sobj E n = None \<longrightarrow> plain_values E n \<noteq> None"
    using N by (auto simp: nodes_ok_def describable_def split: option.splits)
  have ds: "describes_slots E (pool d) ns (slot_values E (pool d) False False ns)" if "set ns \<subseteq> N" "paired E ns" for ns
    by (rule slot_values_describe [OF _ slots_paired_nth [OF top that(2)]]) (use plain that(1) in auto)
  show "describes_slots E (pool d) (v_locals (scope_at sf d)) (slot_values E (pool d) False False (v_locals (scope_at sf d)))" by (rule ds [OF sc(1,3)])
  show "describes_slots E (pool d) (v_stack (scope_at sf d)) (slot_values E (pool d) False False (v_stack (scope_at sf d)))" by (rule ds [OF sc(2,4)])
  show "set (v_locals (scope_at sf d)) \<subseteq> N" "set (v_stack (scope_at sf d)) \<subseteq> N" by (rule sc(1), rule sc(2))
qed

lemma pool_stack_object:
  assumes p: "pool_describes E sf R objs" and n: "int n \<in> set (ids objs)" "o_sobj E n = Some so" "so_stack_allocated so"
  shows "\<exists>ov \<in> set objs. new_stack_object E n so = Some ov"
proof -
  from n(1) obtain ov where ov: "ov \<in> set objs" "ov_id ov = int n" by auto
  with p obtain k where k: "describes_object E sf objs k ov" by (auto simp: pool_describes_def)
  from describes_object_id [OF k] ov(2) have "k = n" by simp
  with k n have "new_stack_object E n so = Some ov" by (simp add: describes_object_def)
  with ov(1) show ?thesis by blast
qed

text \<open>
  C14: The debug information of a safepoint is complete. For a safepoint whose scopes are well formed, the recorder is told,
  between the start and the end of the safepoint, of every scope from the oldest to the youngest, each after a pool of
  objects. A scope has one entry for every local and every operand, with the two entries of a long or double in its two
  slots, and its monitors. The pool has exactly one description of every scalar replaced or stack allocated object that the
  scopes so far lead to, through fields as well, cyclic or shared; every reference is to such a description; every stack
  allocated object of the scalar section, even if nothing else mentions it, is described with its slot in the frame; and
  a description keeps its place in the pools of the younger scopes.
\<close>

theorem process_oop_map_node_correct:
  assumes S: "sfpt_describable E sf N"
  shows "\<exists>pool locs exps. Process_OopMap_Node E sf off = Some (add_safepoint (safepoint_pc sf off) (ms_oop_map sf) #
        concat (map (\<lambda>d. scope_events E sf (safepoint_pc sf off) d (pool d) (locs d) (exps d)) [1..<Suc (length (ms_jvms sf))]) @
        [end_safepoint (safepoint_pc sf off)]) \<and>
      (\<forall>d \<in> {1..length (ms_jvms sf)}. pool_describes E sf (roots_upto sf d) (pool d) \<and>
         describes_slots E (pool d) (v_locals (scope_at sf d)) (locs d) \<and> describes_slots E (pool d) (v_stack (scope_at sf d)) (exps d) \<and>
         (\<forall>n so. n \<in> set (v_scalars (scope_at sf d)) \<and> o_sobj E n = Some so \<and> so_stack_allocated so \<longrightarrow>
            (\<exists>ov \<in> set (pool d). new_stack_object E n so = Some ov)) \<and>
         (1 < d \<longrightarrow> (\<exists>new. pool d = pool (d - 1) @ new)))"
proof -
  from process_filled [OF S, of off] obtain pool where process: "Process_OopMap_Node E sf off = Some (add_safepoint (safepoint_pc sf off) (ms_oop_map sf) #
      concat (map (\<lambda>d. scope_events E sf (safepoint_pc sf off) d (pool d) (slot_values E (pool d) False False (v_locals (scope_at sf d)))
        (slot_values E (pool d) False False (v_stack (scope_at sf d)))) [1..<Suc (length (ms_jvms sf))]) @
      [end_safepoint (safepoint_pc sf off)])" and p: "pools_from E sf [] 1 pool" by blast
  have all: "pool_describes E sf (roots_upto sf d) (pool d) \<and>
         describes_slots E (pool d) (v_locals (scope_at sf d)) (slot_values E (pool d) False False (v_locals (scope_at sf d))) \<and>
         describes_slots E (pool d) (v_stack (scope_at sf d)) (slot_values E (pool d) False False (v_stack (scope_at sf d))) \<and>
         (\<forall>n so. n \<in> set (v_scalars (scope_at sf d)) \<and> o_sobj E n = Some so \<and> so_stack_allocated so \<longrightarrow>
            (\<exists>ov \<in> set (pool d). new_stack_object E n so = Some ov)) \<and>
         (1 < d \<longrightarrow> (\<exists>new. pool d = pool (d - 1) @ new))" if d: "d \<in> {1..length (ms_jvms sf)}" for d
  proof -
    note pd = pools_describe [OF S p d]
    have "\<exists>ov \<in> set (pool d). new_stack_object E n so = Some ov"
      if n: "n \<in> set (v_scalars (scope_at sf d))" "o_sobj E n = Some so" "so_stack_allocated so" for n so
    proof (rule pool_stack_object [OF pd(1) _ n(2,3)])
      have "n \<in> roots_upto sf d" using n(1) d by (auto simp: roots_upto_def scope_roots_def)
      then have "described_from E sf (roots_upto sf d) n" using n(2) by (rule described_from.root)
      then show "int n \<in> set (ids (pool d))" using pd(1) by (simp add: pool_describes_def)
    qed
    with pd show ?thesis by auto
  qed
  show ?thesis
    by (rule exI [of _ pool], rule exI [of _ "\<lambda>d. slot_values E (pool d) False False (v_locals (scope_at sf d))"],
        rule exI [of _ "\<lambda>d. slot_values E (pool d) False False (v_stack (scope_at sf d))"]) (use process all in blast)
qed

text \<open>
  A safepoint whose local 20 is a scalar replaced object that refers to itself and to the stack allocated object 21; 20 owns
  an eliminated monitor, and 21 is registered in the scalar section.
\<close>

definition sample_output :: output_env where
  "sample_output = \<lparr>o_top = 7, o_base = (\<lambda>n. if n = 7 then TB_Top else if n = 9 then TB_Long else TB_Int),
     o_sobj = [20 \<mapsto> \<lparr>so_first_index = 0, so_n_fields = 2, so_oop = 0, so_alloc = 0, so_stack_allocated = False\<rparr>,
               21 \<mapsto> \<lparr>so_first_index = 2, so_n_fields = 3, so_oop = 0, so_alloc = 0, so_stack_allocated = True\<rparr>],
     o_klass_ok = (\<lambda>_. True), o_mirror = (\<lambda>n. n + 100), o_box_lock = (\<lambda>n. Some 31), o_reg_first = (\<lambda>n. if n = 22 then 5 else - 1),
     o_is_valid = (\<lambda>r. 0 \<le> r), o_is_reg = (\<lambda>r. r < 16), o_reg_loc = (\<lambda>_ r. word_of_int (r + 1000)), o_stk_loc = (\<lambda>_ off. word_of_int off),
     o_reg2offset = (\<lambda>r. 8 * r), o_box_reg = int, o_illegal_loc = 0, o_is_oop = (\<lambda>_. False), o_const_oop = Map.empty, o_null_handle = 0,
     o_is_null_narrow = (\<lambda>_. False), o_int_con = (\<lambda>_. 7), o_long_con = (\<lambda>_. 8), o_raw_con = (\<lambda>_. 0), o_float_bits = (\<lambda>_. 0),
     o_double_con = (\<lambda>_. 0), o_float_in_double = False, o_int_in_long = False, o_is_BoxLock = (\<lambda>n. n \<in> {30, 31}),
     o_is_eliminated = (\<lambda>n. n \<in> {30, 31}), o_is_Con = (\<lambda>_. False), o_needs_monitor = (\<lambda>_. True),
     o_method = \<lparr>m_id = 0, m_max_locals = 3, m_max_stack = 1\<rparr>, o_has_method_handle_invokes = False\<rparr>"

definition sample_mach :: mach_safepoint where
  "sample_mach = \<lparr>ms_in = [2, 3, 4, 5, 6, 9, 7, 20, 22, 30, 20, 20, 21, 21],
     ms_jvms = [\<lparr>js_depth = 1, js_locoff = 5, js_stkoff = 8, js_monoff = 9, js_scloff = 11, js_endoff = 14, js_sp = 1, js_bci = 4,
                 js_reexecute = Reexecute_False, js_method = Some \<lparr>m_id = 0, m_max_locals = 3, m_max_stack = 1\<rparr>, js_map = 0\<rparr>],
     ms_jvmadj = 0, ms_oop_map = 0, ms_call = Some \<lparr>mc_is_java = True, mc_method_handle_invoke = False, mc_returns_pointer = True, mc_ret_addr_offset = 5\<rparr>\<rparr>"

lemma sample_fields: "field_nodes sample_mach \<lparr>so_first_index = 0, so_n_fields = 2, so_oop = 0, so_alloc = 0, so_stack_allocated = False\<rparr> = Some [20, 21]"
  by (simp add: field_nodes_def first_index_def sample_mach_def ms_inputs_def segment_def eval_nat_numeral)

lemma sample_scope: "scope_at sample_mach 1 = \<lparr>v_locals = [9, 7, 20], v_stack = [22], v_monitors = [(30, 20)], v_scalars = [20, 21, 21]\<rparr>"
  by (simp add: scope_at_def ms_scope_def state_at_def sample_mach_def view_of_def segment_def eval_nat_numeral)

lemma sample_plain: "plain_values sample_output 9 = Some [ConstantIntValue 0, ConstantLongValue 8]"
  "plain_values sample_output 7 = Some [LocationValue 0]" "plain_values sample_output 22 = Some [LocationValue 1005]"
  by (simp_all add: plain_values_def sample_output_def register_values_def constant_values_def new_loc_value_def Let_def)

lemma sample_state: "ms_jvms sample_mach = [state_at sample_mach 1]" "chain_ok [state_at sample_mach 1]" "\<not> should_reexecute (state_at sample_mach 1)"
  "scope_at sample_mach 1 = ms_scope sample_mach (state_at sample_mach 1)"
  by (simp_all add: state_at_def sample_mach_def jvms_layout_def should_reexecute_def scope_at_def)

lemma sample_slots: "two_slots sample_output 9" "\<not> two_slots sample_output 7" "\<not> two_slots sample_output 20" "\<not> two_slots sample_output 22"
  by (simp_all add: two_slots_def sample_plain) (simp_all add: sample_output_def)

lemma sample_mach_describable: "sfpt_describable sample_output sample_mach {9, 7, 20, 21, 22}"
proof -
  have top: "o_top sample_output = 7" "o_sobj sample_output 7 = None" by (simp_all add: sample_output_def)
  have "describable sample_output sample_mach {9, 7, 20, 21, 22} n" if "n \<in> {9, 7, 20, 21, 22}" for n
    using that sample_plain sample_fields by (auto simp: describable_def sample_output_def)
  then have nodes: "nodes_ok sample_output sample_mach {9, 7, 20, 21, 22}" using top by (simp add: nodes_ok_def)
  have mon: "monitor_ok sample_output {9, 7, 20, 21, 22} (30, 20)" by (simp add: monitor_ok_def sample_output_def box_eliminated_def)
  have paired: "paired sample_output [9, 7, 20]" "paired sample_output [22]"
    using sample_slots top by (auto simp: paired_def less_Suc_eq)
  have from20: "described_from sample_output sample_mach (R \<union> set [9, 7, 20] \<union> S \<union> V) 20" for R S V
    by (rule described_from.root) (auto simp: sample_output_def)
  have scal: "o_klass_ok sample_output n \<and> (if so_stack_allocated so then o_box_lock sample_output n \<noteq> None
           else described_from sample_output sample_mach (R \<union> set [9, 7, 20] \<union> S \<union> V) n)"
    if "n \<in> set [20, 21, 21]" "o_sobj sample_output n = Some so" for n so R S V
  proof (cases "n = 20")
    case True
    with that(2) from20 show ?thesis by (auto simp: sample_output_def)
  next
    case False
    with that show ?thesis by (auto simp: sample_output_def)
  qed
  have scal': "\<forall>n so. n \<in> set [20, 21, 21] \<longrightarrow> o_sobj sample_output n = Some so \<longrightarrow> o_klass_ok sample_output n \<and> (if so_stack_allocated so then o_box_lock sample_output n \<noteq> None
           else described_from sample_output sample_mach (roots_upto sample_mach 0 \<union> set [9, 7, 20] \<union> set [22] \<union> snd ` set [(30, 20)]) n)"
    using scal by blast
  have "jvms_layout (state_at sample_mach 1)" "ms_jvmadj sample_mach + js_endoff (state_at sample_mach 1) \<le> length (ms_in sample_mach)"
    "\<forall>m. js_method (state_at sample_mach 1) = Some m \<longrightarrow> (js_bci (state_at sample_mach 1) < 0 \<or> loc_size (state_at sample_mach 1) = int (m_max_locals m)) \<and>
      (o_needs_monitor sample_output m \<longrightarrow> 0 < nof_monitors (state_at sample_mach 1))"
    "InvocationEntryBci \<le> js_bci (state_at sample_mach 1)" "js_bci (state_at sample_mach 1) \<le> 0x10000"
    by (simp_all add: state_at_def sample_mach_def jvms_layout_def InvocationEntryBci_def loc_size_def nof_monitors_def mon_size_def)
  moreover have "set [9, 7, 20] \<subseteq> {9, 7, 20, 21, 22}" "set [22] \<subseteq> {9, 7, 20, 21, 22}" "\<forall>m \<in> set [(30, 20)]. monitor_ok sample_output {9, 7, 20, 21, 22} m"
    using mon by simp_all
  ultimately have "scope_ok sample_output sample_mach {9, 7, 20, 21, 22} (roots_upto sample_mach 0) (state_at sample_mach 1)"
    unfolding scope_ok_def sample_state(4) [symmetric] sample_scope Let_def scope_view.simps using paired scal' by blast
  then have "\<forall>depth \<in> {1..length (ms_jvms sample_mach)}. scope_ok sample_output sample_mach {9, 7, 20, 21, 22} (roots_upto sample_mach (depth - 1)) (state_at sample_mach depth) \<and>
        (should_reexecute (state_at sample_mach depth) \<longrightarrow> depth = length (ms_jvms sample_mach))"
    using sample_state by auto
  moreover have "\<not> call_method_handle sample_mach" by (simp add: call_method_handle_def sample_mach_def)
  ultimately show ?thesis using nodes sample_slots top sample_state(1,2) by (simp add: sfpt_describable_def)
qed

theorem process_oop_map_node_correct_witness:
  "\<exists>pool locs exps. Process_OopMap_Node sample_output sample_mach 64 = Some (add_safepoint 69 0 #
      scope_events sample_output sample_mach 69 1 (pool (1::nat)) (locs (1::nat)) (exps (1::nat)) @ [end_safepoint 69]) \<and>
    pool_describes sample_output sample_mach (roots_upto sample_mach 1) (pool 1) \<and>
    describes_slots sample_output (pool 1) [9, 7, 20] (locs 1) \<and> (\<exists>ov \<in> set (pool 1). ov_id ov = 21 \<and> ov_class ov = StackObjectValue \<and> ov_location ov = 248)"
proof -
  have n: "length (ms_jvms sample_mach) = 1" by (simp add: sample_mach_def)
  have pc: "safepoint_pc sample_mach 64 = 69" "ms_oop_map sample_mach = 0" by (simp_all add: safepoint_pc_def sample_mach_def)
  have so: "o_sobj sample_output 21 = Some \<lparr>so_first_index = 2, so_n_fields = 3, so_oop = 0, so_alloc = 0, so_stack_allocated = True\<rparr>"
    by (simp add: sample_output_def)
  obtain pool locs exps where t: "Process_OopMap_Node sample_output sample_mach 64 = Some (add_safepoint (safepoint_pc sample_mach 64) (ms_oop_map sample_mach) #
        concat (map (\<lambda>d. scope_events sample_output sample_mach (safepoint_pc sample_mach 64) d (pool d) (locs d) (exps d)) [1..<Suc (length (ms_jvms sample_mach))]) @
        [end_safepoint (safepoint_pc sample_mach 64)])"
    "\<forall>d \<in> {1..length (ms_jvms sample_mach)}. pool_describes sample_output sample_mach (roots_upto sample_mach d) (pool d) \<and>
         describes_slots sample_output (pool d) (v_locals (scope_at sample_mach d)) (locs d) \<and> describes_slots sample_output (pool d) (v_stack (scope_at sample_mach d)) (exps d) \<and>
         (\<forall>n so. n \<in> set (v_scalars (scope_at sample_mach d)) \<and> o_sobj sample_output n = Some so \<and> so_stack_allocated so \<longrightarrow>
            (\<exists>ov \<in> set (pool d). new_stack_object sample_output n so = Some ov)) \<and>
         (1 < d \<longrightarrow> (\<exists>new. pool d = pool (d - 1) @ new))"
    using process_oop_map_node_correct [OF sample_mach_describable, of 64] by blast
  have one: "1 \<in> {1..length (ms_jvms sample_mach)}" using n by simp
  note d = bspec [OF t(2) one, unfolded sample_scope]
  have "\<exists>ov \<in> set (pool 1). new_stack_object sample_output 21 \<lparr>so_first_index = 2, so_n_fields = 3, so_oop = 0, so_alloc = 0, so_stack_allocated = True\<rparr> = Some ov"
    using d so by auto
  then obtain ov where ov: "ov \<in> set (pool 1)"
    "new_stack_object sample_output 21 \<lparr>so_first_index = 2, so_n_fields = 3, so_oop = 0, so_alloc = 0, so_stack_allocated = True\<rparr> = Some ov" by blast
  from ov(2) have "ov_id ov = 21 \<and> ov_class ov = StackObjectValue \<and> ov_location ov = 248"
    by (auto simp: new_stack_object_def sample_output_def new_StackObjectValue_def box_location_def)
  with ov(1) have st: "\<exists>ov \<in> set (pool 1). ov_id ov = 21 \<and> ov_class ov = StackObjectValue \<and> ov_location ov = 248" by blast
  have "[1..<Suc (length (ms_jvms sample_mach))] = [1]" using n by simp
  then have "Process_OopMap_Node sample_output sample_mach 64 = Some (add_safepoint 69 0 #
      scope_events sample_output sample_mach 69 1 (pool 1) (locs 1) (exps 1) @ [end_safepoint 69])" using t(1) pc by simp
  moreover have "pool_describes sample_output sample_mach (roots_upto sample_mach 1) (pool 1)" "describes_slots sample_output (pool 1) [9, 7, 20] (locs 1)"
    using d by simp_all
  ultimately show ?thesis using st by blast
qed


section \<open>From the compiler to deoptimization\<close>

text \<open>
  The recorder clears the marks of the pool before it writes it (\<open>dump_object_pool\<close>). The data of constants and of
  object descriptions fit their fields in the stream.
\<close>

definition pool_store :: "object_value list \<Rightarrow> object_store" where
  "pool_store objs = mark (\<lambda>a. objs ! a) {}"

definition small_constants :: "output_env \<Rightarrow> mach_safepoint \<Rightarrow> bool" where
  "small_constants E sf \<longleftrightarrow> (\<forall>n. in32 (o_int_con E n) \<and> in32 (o_float_bits E n) \<and> in64 (o_long_con E n) \<and> in64 (o_raw_con E n)) \<and>
     (\<forall>n so. o_sobj E n = Some so \<longrightarrow> in32 (int n) \<and> in32 (so_n_fields so)) \<and> in32 (2 * int (length (ms_in sf)))"

lemma plain_values_ok: "small_constants E sf \<Longrightarrow> plain_values E n = Some vs \<Longrightarrow> v \<in> set vs \<Longrightarrow> value_ok A v"
  by (auto simp: plain_values_def register_values_def constant_values_def new_loc_value_def Let_def small_constants_def in32_def
      split: if_splits type_base.splits option.splits)

lemma node_values_ok:
  assumes "small_constants E sf" "pooled E objs n" "o_sobj E n = None \<longrightarrow> plain_values E n \<noteq> None" "v \<in> set (node_values E objs n)"
  shows "value_ok {..<length objs} v"
proof (cases "o_sobj E n")
  case None
  with assms show ?thesis by (auto simp: node_values_def intro: plain_values_ok)
next
  case (Some so)
  with assms(2) obtain k where k: "sv_for_node_id objs n = Some k" by (auto simp: pooled_def)
  with sv_for_node_id_Some [OF k] Some assms(4) show ?thesis by (simp add: node_values_def)
qed

lemma field_nodes_length: "field_nodes sf so = Some fs \<Longrightarrow> length fs \<le> length (ms_in sf)"
  by (auto simp: field_nodes_def ms_inputs_def segment_def split: option.splits if_splits)

lemma node_values_le: "o_sobj E n = None \<longrightarrow> plain_values E n \<noteq> None \<Longrightarrow> length (node_values E objs n) \<le> 2"
  using node_values_length [of E n objs] by auto

lemma concat_length_le: "\<forall>x \<in> set xs. length (f x) \<le> 2 \<Longrightarrow> length (concat (map f xs)) \<le> 2 * length xs"
  by (induction xs) auto


lemma pool_graph_ok:
  assumes p: "pool_describes E sf R objs" and small: "small_constants E sf"
  shows "graph_ok {..<length objs} (pool_store objs)" "unvisited (pool_store objs)"
proof -
  show "unvisited (pool_store objs)" by (simp add: unvisited_def pool_store_def mark_def)
  have entry: "in32 (ov_id ov) \<and> (\<exists>h. ov_klass ov = Some (ConstantOopWriteValue h)) \<and> in32 (int (length (ov_field_values ov))) \<and>
      (\<forall>v \<in> set (ov_field_values ov). value_ok {..<length objs} v) \<and>
      (is_stack_object ov \<longrightarrow> (\<exists>n. ov_field_length ov = Some (ConstantIntValue n) \<and> in32 n))" if "ov \<in> set objs" for ov
  proof -
    from p that obtain n where n: "describes_object E sf objs n ov" by (auto simp: pool_describes_def)
    then obtain so where so: "o_sobj E n = Some so" by (auto simp: describes_object_def)
    have id: "ov_id ov = int n" by (rule describes_object_id [OF n])
    have b: "in32 (int n)" "in32 (so_n_fields so)" "in32 (2 * int (length (ms_in sf)))" using small so by (auto simp: small_constants_def)
    show ?thesis
    proof (cases "so_stack_allocated so")
      case True
      with n so have "new_stack_object E n so = Some ov" by (simp add: describes_object_def)
      then show ?thesis using b by (auto simp: new_stack_object_def new_StackObjectValue_def in32_def split: option.splits if_splits)
    next
      case False
      with n so obtain fs ov0 where f: "field_nodes sf so = Some fs" "new_scalar_object E n = Some ov0" "\<forall>f \<in> set fs. field_valued E objs f"
        "ov = ov0\<lparr>ov_field_values := concat (map (node_values E objs) fs)\<rparr>" by (auto simp: describes_object_def)
      have "length (concat (map (node_values E objs) fs)) \<le> 2 * length fs"
        by (rule concat_length_le) (use f(3) node_values_le in \<open>auto simp: field_valued_def\<close>)
      then have "int (length (concat (map (node_values E objs) fs))) \<le> 2 * int (length (ms_in sf))" using field_nodes_length [OF f(1)] by linarith
      then have len: "in32 (int (length (ov_field_values ov)))" using b(3) f(4) by (auto simp: in32_def)
      have vals: "\<forall>v \<in> set (ov_field_values ov). value_ok {..<length objs} v"
        using f(3,4) node_values_ok [OF small] by (fastforce simp: field_valued_def)
      from f(2) have "ov_klass ov0 = Some (ConstantOopWriteValue (o_mirror E n))" "ov_class ov0 = ObjectValue"
        by (auto simp: new_scalar_object_def new_ObjectValue_def split: if_splits)
      then have "ov_klass ov = Some (ConstantOopWriteValue (o_mirror E n))" "\<not> is_stack_object ov" using f(4) by (simp_all add: is_stack_object_def)
      with len vals id b(1) show ?thesis by auto
    qed
  qed
  have st: "pool_store objs a = (objs ! a)\<lparr>ov_visited := False\<rparr>" for a by (simp add: pool_store_def mark_def)
  have "inj_on (\<lambda>a. ov_id (objs ! a)) {..<length objs}"
  proof (rule inj_onI)
    fix a b assume "a \<in> {..<length objs}" "b \<in> {..<length objs}" "ov_id (objs ! a) = ov_id (objs ! b)"
    then show "a = b" using p nth_eq_iff_index_eq [of "ids objs" a b] by (simp add: pool_describes_def)
  qed
  then show "graph_ok {..<length objs} (pool_store objs)"
    unfolding graph_ok_def using entry [OF nth_mem] by (simp add: st is_stack_object_def)
qed

text \<open>A pool is written and read as a whole: the pool that is read has an object for every id.\<close>

lemma copied_pool:
  assumes D: "debug_ok D" and g: "graph_ok A st"
  shows "set xs = A \<Longrightarrow> \<exists>b. copied D loc0 A st (map ObjectRef xs) {} b A"
proof -
  assume xs: "set xs = A"
  then have "\<forall>v \<in> set (map ObjectRef xs). value_ok A v" by auto
  from copied_all [OF D g _ this] obtain b X where c: "copied D loc0 A st (map ObjectRef xs) {} b X" by blast
  from copied_read [OF c pool_ok_Nil, of "[]"] obtain vs' new where r: "pool_ok st X ([] @ new)" "list_all2 (value_rel D st ([] @ new)) (map ObjectRef xs) vs'" by blast
  note r = r [unfolded append_Nil]
  have "A \<subseteq> X"
  proof
    fix a assume a: "a \<in> A"
    then have "ObjectRef a \<in> set (map ObjectRef xs)" using xs by simp
    then obtain i where i: "i < length (map ObjectRef xs)" "map ObjectRef xs ! i = ObjectRef a" by (metis in_set_conv_nth)
    have "value_rel D st new (ObjectRef a) (vs' ! i)" using list_all2_nthD [OF r(2) i(1)] i(2) by simp
    then obtain k where k: "k < length new" "ov_id (new ! k) = ov_id (st a)" by auto
    then have "ov_id (st a) \<in> set (map ov_id new)" by (metis in_set_conv_nth length_map nth_map)
    then obtain x where x: "x \<in> X" "ov_id (st a) = ov_id (st x)" using r(1) by (auto simp: pool_ok_def)
    have "X \<subseteq> A" using c by (simp add: copied_def)
    then have "x \<in> A" using x(1) by blast
    have "inj_on (\<lambda>a. ov_id (st a)) A" using g by (simp add: graph_ok_def)
    then have "a = x" using x(2) a \<open>x \<in> A\<close> by (rule inj_onD)
    with x(1) show "a \<in> X" by simp
  qed
  moreover have "X \<subseteq> A" using c by (simp add: copied_def)
  ultimately have "X = A" by simp
  with c show ?thesis by blast
qed


lemma slot_values_subset: "v \<in> set (slot_values E objs flds skip ns) \<Longrightarrow> \<exists>n \<in> set ns. v \<in> set (node_values E objs n)"
  by (induction E objs flds skip ns rule: slot_values.induct) (auto split: if_splits)

text \<open>
  What deoptimization gets: the pool is written and read, then the values \<open>vs\<close> of a scope, against that pool. Every stack
  allocated object is found with its place in the frame, its klass and its number of fields.
\<close>

definition read_back :: "debug_stream \<Rightarrow> Location \<Rightarrow> output_env \<Rightarrow> object_value list \<Rightarrow> scope_value list \<Rightarrow> bool" where
  "read_back D loc0 E objs vs \<longleftrightarrow> (\<exists>pb vb st. write_values D (map ObjectRef [0..<length objs]) (pool_store objs) = Some (pb, st) \<and>
     write_values D vs st = Some (vb, st) \<and>
     (\<forall>rest rest'. \<exists>ps pool vs'. read_values D loc0 (length objs) (pb @ rest) [] = Some (ps, rest, pool) \<and>
        read_values D loc0 (length vs) (vb @ rest') pool = Some (vs', rest', pool) \<and>
        list_all2 (value_rel D (pool_store objs) pool) vs vs' \<and>
        (\<forall>ov \<in> set pool. \<exists>a < length objs. object_rel D (pool_store objs) pool a ov) \<and>
        (\<forall>n so box. int n \<in> set (ids objs) \<and> o_sobj E n = Some so \<and> so_stack_allocated so \<and> o_box_lock E n = Some box \<longrightarrow>
           (\<exists>ov \<in> set pool. ov_class ov = StackObjectValue \<and> ov_id ov = int n \<and> ov_location ov = box_location E box \<and>
              ov_klass ov = Some (ConstantOopReadValue (oop_at D (find_index D (o_mirror E n)))) \<and>
              ov_field_length ov = Some (ConstantIntValue (so_n_fields so))))))"

lemma pool_ok_full:
  assumes "pool_ok st A pool" "pool_ok st A (pool @ new)"
  shows "new = []"
proof -
  have "distinct (map ov_id pool @ map ov_id new)" "set (map ov_id pool @ map ov_id new) = set (map ov_id pool)"
    using assms by (simp_all add: pool_ok_def)
  then show ?thesis by (cases new) auto
qed

lemma read_back_ok:
  assumes D: "debug_ok D" and p: "pool_describes E sf R objs" and small: "small_constants E sf"
    and v: "\<forall>v \<in> set vs. value_ok {..<length objs} v"
  shows "read_back D loc0 E objs vs"
proof -
  let ?A = "{..<length objs}" and ?st = "pool_store objs"
  note g = pool_graph_ok [OF p small]
  have "set [0..<length objs] = ?A" by auto
  from copied_pool [OF D g(1) this] obtain pb where pb: "copied D loc0 ?A ?st (map ObjectRef [0..<length objs]) {} pb ?A" by blast
  from copied_all [OF D g(1) subset_refl v] obtain vb X where vb: "copied D loc0 ?A ?st vs ?A vb X" by blast
  then have X: "X = ?A" by (auto simp: copied_def)
  note vb = vb [unfolded X]
  have w: "write_values D (map ObjectRef [0..<length objs]) ?st = Some (pb, mark ?st ?A)" "write_values D vs (mark ?st ?A) = Some (vb, mark ?st ?A)"
    using pb vb unvisited_mark [OF g(2)] by (simp_all add: copied_def)
  have r: "\<exists>ps pool vs'. read_values D loc0 (length objs) (pb @ rest) [] = Some (ps, rest, pool) \<and>
        read_values D loc0 (length vs) (vb @ rest') pool = Some (vs', rest', pool) \<and> list_all2 (value_rel D ?st pool) vs vs' \<and>
        (\<forall>ov \<in> set pool. \<exists>a < length objs. object_rel D ?st pool a ov) \<and> pool_ok ?st ?A pool" for rest rest'
  proof -
    from copied_read [OF pb pool_ok_Nil, of rest] obtain ps pool where
      1: "read_values D loc0 (length (map ObjectRef [0..<length objs])) (pb @ rest) [] = Some (ps, rest, [] @ pool)" "pool_ok ?st ?A ([] @ pool)"
        "\<forall>ov \<in> set pool. \<exists>a \<in> ?A. object_rel D ?st ([] @ pool) a ov" by blast
    note 1 = 1 [unfolded append_Nil]
    from copied_read [OF vb 1(2), of rest'] obtain vs' new where
      2: "read_values D loc0 (length vs) (vb @ rest') pool = Some (vs', rest', pool @ new)" "pool_ok ?st ?A (pool @ new)"
        "list_all2 (value_rel D ?st (pool @ new)) vs vs'" by blast
    have "new = []" by (rule pool_ok_full [OF 1(2) 2(2)])
    with 1 2 show ?thesis by auto
  qed
  have stack: "\<exists>ov \<in> set pool. ov_class ov = StackObjectValue \<and> ov_id ov = int n \<and> ov_location ov = box_location E box \<and>
              ov_klass ov = Some (ConstantOopReadValue (oop_at D (find_index D (o_mirror E n)))) \<and>
              ov_field_length ov = Some (ConstantIntValue (so_n_fields so))"
    if po: "pool_ok ?st ?A pool" and rel: "\<forall>ov \<in> set pool. \<exists>a < length objs. object_rel D ?st pool a ov"
      and n: "int n \<in> set (ids objs)" "o_sobj E n = Some so" "so_stack_allocated so" "o_box_lock E n = Some box" for pool n so box
  proof -
    from pool_stack_object [OF p n(1-3)] obtain sv where sv: "sv \<in> set objs" "new_stack_object E n so = Some sv" by blast
    from sv(1) obtain k where k: "k < length objs" "objs ! k = sv" by (auto simp: in_set_conv_nth)
    have fields: "ov_class sv = StackObjectValue" "ov_id sv = int n" "ov_location sv = box_location E box"
      "ov_klass sv = Some (ConstantOopWriteValue (o_mirror E n))" "ov_field_length sv = Some (ConstantIntValue (so_n_fields so))"
      using sv(2) n(4) by (auto simp: new_stack_object_def new_StackObjectValue_def split: if_splits)
    have st: "?st a = (objs ! a)\<lparr>ov_visited := False\<rparr>" for a by (simp add: pool_store_def mark_def)
    have "int n \<in> (\<lambda>a. ov_id (?st a)) ` ?A" using k fields(2) by (auto simp: st intro!: image_eqI [of _ _ k])
    with po have "int n \<in> set (map ov_id pool)" unfolding pool_ok_def by blast
    then obtain ov where ov: "ov \<in> set pool" "ov_id ov = int n" by auto
    from bspec [OF rel ov(1)] obtain a where a: "a < length objs" "object_rel D ?st pool a ov" by blast
    have "inj_on (\<lambda>a. ov_id (?st a)) ?A" using g(1) by (simp add: graph_ok_def)
    moreover have "ov_id (?st a) = ov_id (?st k)" using a(2) ov(2) k(2) fields(2) by (simp add: object_rel_def st)
    ultimately have "a = k" using a(1) k(1) by (auto dest: inj_onD)
    with a(2) k(2) fields have "ov_class ov = StackObjectValue \<and> ov_location ov = box_location E box \<and>
              ov_klass ov = Some (ConstantOopReadValue (oop_at D (find_index D (o_mirror E n)))) \<and>
              ov_field_length ov = Some (ConstantIntValue (so_n_fields so))"
      by (simp add: object_rel_def st is_stack_object_def)
    with ov show ?thesis by blast
  qed
  have body: "\<exists>ps pool vs'. read_values D loc0 (length objs) (pb @ rest) [] = Some (ps, rest, pool) \<and>
        read_values D loc0 (length vs) (vb @ rest') pool = Some (vs', rest', pool) \<and>
        list_all2 (value_rel D (pool_store objs) pool) vs vs' \<and>
        (\<forall>ov \<in> set pool. \<exists>a < length objs. object_rel D (pool_store objs) pool a ov) \<and>
        (\<forall>n so box. int n \<in> set (ids objs) \<and> o_sobj E n = Some so \<and> so_stack_allocated so \<and> o_box_lock E n = Some box \<longrightarrow>
           (\<exists>ov \<in> set pool. ov_class ov = StackObjectValue \<and> ov_id ov = int n \<and> ov_location ov = box_location E box \<and>
              ov_klass ov = Some (ConstantOopReadValue (oop_at D (find_index D (o_mirror E n)))) \<and>
              ov_field_length ov = Some (ConstantIntValue (so_n_fields so))))" for rest rest'
  proof -
    from r [of rest rest'] obtain ps pool vs' where o: "read_values D loc0 (length objs) (pb @ rest) [] = Some (ps, rest, pool)"
      "read_values D loc0 (length vs) (vb @ rest') pool = Some (vs', rest', pool)" "list_all2 (value_rel D ?st pool) vs vs'"
      "\<forall>ov \<in> set pool. \<exists>a < length objs. object_rel D ?st pool a ov" "pool_ok ?st ?A pool" by blast
    show ?thesis
      by (rule exI [of _ ps], rule exI [of _ pool], rule exI [of _ vs']) (use o stack [OF o(5,4)] in blast)
  qed
  show ?thesis unfolding read_back_def
    by (rule exI [of _ pb], rule exI [of _ vb], rule exI [of _ "mark ?st ?A"]) (use w body in blast)
qed

text \<open>
  C13: What the compiler describes at a safepoint is what deoptimization reads. Whatever the pool of a scope, the pool and
  then the locals and operands of the scope are written and read back: values are equal or refer to the object with the
  same id, the objects of the pool that is read are those described, and every stack allocated object that is live at the
  safepoint comes back as a stack object with the place of its box in the frame, its klass and its number of fields. This
  joins the output phase to the reader that deoptimization uses.
\<close>

theorem debug_info_reaches_deoptimization:
  assumes S: "sfpt_describable E sf N" and small: "small_constants E sf" and D: "debug_ok D"
  shows "\<exists>pool locs exps. Process_OopMap_Node E sf off = Some (add_safepoint (safepoint_pc sf off) (ms_oop_map sf) #
        concat (map (\<lambda>d. scope_events E sf (safepoint_pc sf off) d (pool d) (locs d) (exps d)) [1..<Suc (length (ms_jvms sf))]) @
        [end_safepoint (safepoint_pc sf off)]) \<and>
      (\<forall>d \<in> {1..length (ms_jvms sf)}. set (ids (pool d)) = int ` {n. described_from E sf (roots_upto sf d) n} \<and>
         read_back D loc0 E (pool d) (locs d) \<and> read_back D loc0 E (pool d) (exps d))"
proof -
  from process_filled [OF S, of off] obtain pool where process: "Process_OopMap_Node E sf off = Some (add_safepoint (safepoint_pc sf off) (ms_oop_map sf) #
      concat (map (\<lambda>d. scope_events E sf (safepoint_pc sf off) d (pool d) (slot_values E (pool d) False False (v_locals (scope_at sf d)))
        (slot_values E (pool d) False False (v_stack (scope_at sf d)))) [1..<Suc (length (ms_jvms sf))]) @
      [end_safepoint (safepoint_pc sf off)])" and p: "pools_from E sf [] 1 pool" by blast
  have all: "set (ids (pool d)) = int ` {n. described_from E sf (roots_upto sf d) n} \<and>
      read_back D loc0 E (pool d) (slot_values E (pool d) False False (v_locals (scope_at sf d))) \<and>
      read_back D loc0 E (pool d) (slot_values E (pool d) False False (v_stack (scope_at sf d)))" if d: "d \<in> {1..length (ms_jvms sf)}" for d
  proof -
    note pd = pools_describe [OF S p d]
    have "read_back D loc0 E (pool d) (slot_values E (pool d) False False ns)" if ns: "set ns \<subseteq> N" "set ns \<subseteq> roots_upto sf d" for ns
    proof (rule read_back_ok [OF D pd(1) small], rule ballI)
      fix v assume "v \<in> set (slot_values E (pool d) False False ns)"
      then obtain n where n: "n \<in> set ns" "v \<in> set (node_values E (pool d) n)" using slot_values_subset by blast
      have "pooled E (pool d) n" "o_sobj E n = None \<longrightarrow> plain_values E n \<noteq> None" using n(1) ns pd(2,8) by blast+
      from node_values_ok [OF small this n(2)] show "value_ok {..<length (pool d)} v" .
    qed
    moreover have "set (v_locals (scope_at sf d)) \<subseteq> roots_upto sf d" "set (v_stack (scope_at sf d)) \<subseteq> roots_upto sf d"
      using d by (auto simp: roots_upto_def scope_roots_def)
    ultimately show ?thesis using pd(1,6,7) by (simp add: pool_describes_def)
  qed
  show ?thesis
    by (rule exI [of _ pool], rule exI [of _ "\<lambda>d. slot_values E (pool d) False False (v_locals (scope_at sf d))"],
        rule exI [of _ "\<lambda>d. slot_values E (pool d) False False (v_stack (scope_at sf d))"]) (use process all in blast)
qed

lemma sample_small: "small_constants sample_output sample_mach"
  by (auto simp: small_constants_def sample_output_def sample_mach_def in32_def in64_def split: if_splits)

theorem debug_info_reaches_deoptimization_witness:
  "\<exists>pool locs exps. Process_OopMap_Node sample_output sample_mach 64 = Some (add_safepoint (safepoint_pc sample_mach 64) (ms_oop_map sample_mach) #
      concat (map (\<lambda>d. scope_events sample_output sample_mach (safepoint_pc sample_mach 64) d (pool d) (locs d) (exps d)) [1..<Suc (length (ms_jvms sample_mach))]) @
      [end_safepoint (safepoint_pc sample_mach 64)]) \<and> read_back sample_debug 0 sample_output (pool 1) (locs (1::nat)) \<and> int 21 \<in> set (ids (pool 1))"
proof -
  obtain pool locs exps where t: "Process_OopMap_Node sample_output sample_mach 64 = Some (add_safepoint (safepoint_pc sample_mach 64) (ms_oop_map sample_mach) #
      concat (map (\<lambda>d. scope_events sample_output sample_mach (safepoint_pc sample_mach 64) d (pool d) (locs d) (exps d)) [1..<Suc (length (ms_jvms sample_mach))]) @
      [end_safepoint (safepoint_pc sample_mach 64)])"
    "\<forall>d \<in> {1..length (ms_jvms sample_mach)}. set (ids (pool d)) = int ` {n. described_from sample_output sample_mach (roots_upto sample_mach d) n} \<and>
         read_back sample_debug 0 sample_output (pool d) (locs d) \<and> read_back sample_debug 0 sample_output (pool d) (exps d)"
    using debug_info_reaches_deoptimization [OF sample_mach_describable sample_small sample_debug_ok, of 64 0] by blast
  have one: "1 \<in> {1..length (ms_jvms sample_mach)}" by (simp add: sample_mach_def)
  have "21 \<in> roots_upto sample_mach 1" by (simp add: roots_upto_def scope_roots_def sample_scope [unfolded One_nat_def])
  then have "described_from sample_output sample_mach (roots_upto sample_mach 1) 21"
    by (rule described_from.root [where so = "\<lparr>so_first_index = 2, so_n_fields = 3, so_oop = 0, so_alloc = 0, so_stack_allocated = True\<rparr>"])
      (simp add: sample_output_def)
  with bspec [OF t(2) one] have "int 21 \<in> set (ids (pool 1))" by blast
  with t(1) bspec [OF t(2) one] show ?thesis by blast
qed

end
