(* ===== verification/Debug_Events.thy ===== *)
theory Debug_Events
  imports Debug_Output
begin

text \<open>
  The order in which code offsets are recorded (\<open>NonSafepointEmitter\<close> and the calls of \<open>fill_buffer\<close> in \<open>output.cpp\<close>):
  safepoints at once, the scopes of other instructions lazily, so that the recorded offsets increase.
\<close>

section \<open>The emitter\<close>

text \<open>
  The emitter with its pending state (\<open>[]\<close> for \<open>NULL\<close>) and the events of the recorder. \<open>last_pc_offset\<close> is a query of the
  recorder, \<open>same\<close> the comparison of pointers.
\<close>

record emitter =
  em_pending_jvms :: jvms
  em_pending_offset :: int
  em_events :: "debug_event list"

record emitter_env =
  ee_output :: output_env
  ee_recording :: bool
  ee_last_pc :: "debug_event list \<Rightarrow> int"
  ee_same :: "jvms \<Rightarrow> jvms \<Rightarrow> bool"

definition new_NonSafepointEmitter :: "debug_event list \<Rightarrow> emitter" where
  "new_NonSafepointEmitter es = \<lparr>em_pending_jvms = [], em_pending_offset = 0, em_events = es\<rparr>"

fun describe_depths :: "int \<Rightarrow> jvms \<Rightarrow> nat list \<Rightarrow> debug_event list option" where
  "describe_depths pc js [] = Some []"
| "describe_depths pc js (depth # ds) =
     (case of_depth depth js of
        Some (j # _) \<Rightarrow>
          if should_reexecute j \<longrightarrow> depth = js_depth (hd js) then
            map_option ((#) (describe_non_safepoint pc (js_method j) (js_bci j) (should_reexecute j))) (describe_depths pc js ds)
          else None
      | _ \<Rightarrow> None)"

definition emit_non_safepoint :: "emitter_env \<Rightarrow> emitter \<Rightarrow> emitter option" where
  "emit_non_safepoint X T =
     (let youngest_jvms = em_pending_jvms T; pc_offset = em_pending_offset T in
      case youngest_jvms of
        [] \<Rightarrow> None
      | y # _ \<Rightarrow>
          if ee_recording X then
            map_option (\<lambda>es. T\<lparr>em_pending_jvms := [],
                em_events := em_events T @ add_non_safepoint pc_offset # es @ [end_non_safepoint pc_offset]\<rparr>)
              (describe_depths pc_offset youngest_jvms [1..<Suc (js_depth y)])
          else None)"

text \<open>\<open>jvms\<close> are the node notes of the instruction, \<open>[]\<close> if there are none.\<close>

definition observe_instruction :: "emitter_env \<Rightarrow> jvms \<Rightarrow> int \<Rightarrow> emitter \<Rightarrow> emitter option" where
  "observe_instruction X jvms pc_offset T =
     (let start = (\<lambda>T1. let T2 = T1\<lparr>em_pending_jvms := []\<rparr>
                        in if ee_last_pc X (em_events T2) < pc_offset then T2\<lparr>em_pending_jvms := jvms, em_pending_offset := pc_offset\<rparr> else T2)
      in if \<not> ee_recording X then Some T
         else if jvms = [] then Some T
         else if em_pending_jvms T \<noteq> [] then
           (case same_calls_as (ee_same X) (em_pending_jvms T) jvms of
              None \<Rightarrow> None
            | Some True \<Rightarrow> Some (T\<lparr>em_pending_offset := pc_offset\<rparr>)
            | Some False \<Rightarrow> map_option start (if em_pending_offset T < pc_offset then emit_non_safepoint X T else Some T))
         else Some (start T))"

definition observe_safepoint :: "emitter_env \<Rightarrow> jvms \<Rightarrow> int \<Rightarrow> emitter \<Rightarrow> emitter option" where
  "observe_safepoint X jvms pc_offset T =
     map_option (\<lambda>T1. T1\<lparr>em_pending_jvms := []\<rparr>)
       (if em_pending_jvms T \<noteq> [] then
          (case same_calls_as (ee_same X) (em_pending_jvms T) jvms of
             None \<Rightarrow> None
           | Some b \<Rightarrow> if \<not> b \<and> em_pending_offset T < pc_offset then emit_non_safepoint X T else Some T)
        else Some T)"

definition flush_at_end :: "emitter_env \<Rightarrow> emitter \<Rightarrow> emitter option" where
  "flush_at_end X T =
     map_option (\<lambda>T1. T1\<lparr>em_pending_jvms := []\<rparr>) (if em_pending_jvms T \<noteq> [] then emit_non_safepoint X T else Some T)"

text \<open>What \<open>fill_buffer\<close> does with the instructions of the code, in order.\<close>

datatype code_step = Instruction jvms int | Safepoint mach_safepoint int

definition run_step :: "emitter_env \<Rightarrow> code_step \<Rightarrow> emitter \<Rightarrow> emitter option" where
  "run_step X s T =
     (case s of
        Instruction jvms pc \<Rightarrow> observe_instruction X jvms pc T
      | Safepoint mach current_offset \<Rightarrow>
          Option.bind (observe_safepoint X (ms_jvms mach) current_offset T) (\<lambda>T1.
            map_option (\<lambda>es. T1\<lparr>em_events := em_events T1 @ es\<rparr>) (Process_OopMap_Node (ee_output X) mach current_offset)))"

fun code_steps :: "emitter_env \<Rightarrow> code_step list \<Rightarrow> emitter \<Rightarrow> emitter option" where
  "code_steps X [] T = flush_at_end X T"
| "code_steps X (s # ss) T = Option.bind (run_step X s T) (code_steps X ss)"

section \<open>Recorded offsets\<close>

fun event_pc :: "debug_event \<Rightarrow> int list" where
  "event_pc (add_safepoint pc _) = [pc]"
| "event_pc (add_non_safepoint pc) = [pc]"
| "event_pc _ = []"

definition event_pcs :: "debug_event list \<Rightarrow> int list" where
  "event_pcs es = concat (map event_pc es)"

text \<open>The last offset is that of the last safepoint or instruction added, at first below all code.\<close>

definition emitter_law :: "int \<Rightarrow> emitter_env \<Rightarrow> bool" where
  "emitter_law low X \<longleftrightarrow> (\<forall>es. ee_last_pc X es = last (low # event_pcs es)) \<and> (\<forall>a b. ee_same X a b \<longrightarrow> a = b) \<and> ee_same X [] []"

definition notes_ok :: "jvms \<Rightarrow> bool" where
  "notes_ok js \<longleftrightarrow> chain_ok js \<and> js \<noteq> [] \<and> (\<forall>j \<in> set (tl js). \<not> should_reexecute j)"

text \<open>Code is emitted in order, and no two safepoints have the same offset.\<close>

fun code_ok :: "output_env \<Rightarrow> int \<Rightarrow> int \<Rightarrow> code_step list \<Rightarrow> bool" where
  "code_ok E prev cur [] = True"
| "code_ok E prev cur (Instruction jvms pc # ss) \<longleftrightarrow> cur \<le> pc \<and> (jvms = [] \<or> notes_ok jvms) \<and> code_ok E prev pc ss"
| "code_ok E prev cur (Safepoint mach off # ss) \<longleftrightarrow> cur \<le> off \<and> off \<le> safepoint_pc mach off \<and> prev < safepoint_pc mach off \<and>
     (\<exists>N. sfpt_describable E mach N) \<and> code_ok E (safepoint_pc mach off) (safepoint_pc mach off) ss"

definition non_safepoint_events :: "int \<Rightarrow> jvms \<Rightarrow> debug_event list" where
  "non_safepoint_events pc js = add_non_safepoint pc # map (\<lambda>j. describe_non_safepoint pc (js_method j) (js_bci j) (should_reexecute j)) (rev js) @
     [end_non_safepoint pc]"


lemma event_pcs_simps [simp]:
  "event_pcs [] = []" "event_pcs (e # es) = event_pc e @ event_pcs es" "event_pcs (es @ fs) = event_pcs es @ event_pcs fs"
  by (simp_all add: event_pcs_def)

lemma event_pcs_none: "\<forall>e \<in> set es. event_pc e = [] \<Longrightarrow> event_pcs es = []"
  by (simp add: event_pcs_def)

lemma non_safepoint_pcs [simp]: "event_pcs (non_safepoint_events pc js) = [pc]"
  by (simp add: non_safepoint_events_def event_pcs_none)

lemma process_pcs:
  assumes "sfpt_describable E sf N"
  shows "\<exists>es. Process_OopMap_Node E sf off = Some es \<and> event_pcs es = [safepoint_pc sf off]"
proof -
  from process_filled [OF assms, of off] obtain pool where
    "Process_OopMap_Node E sf off = Some (add_safepoint (safepoint_pc sf off) (ms_oop_map sf) #
      concat (map (\<lambda>d. scope_events E sf (safepoint_pc sf off) d (pool d) (slot_values E (pool d) False False (v_locals (scope_at sf d)))
        (slot_values E (pool d) False False (v_stack (scope_at sf d)))) [1..<Suc (length (ms_jvms sf))]) @
      [end_safepoint (safepoint_pc sf off)])" by blast
  moreover have "event_pcs (concat (map (\<lambda>d. scope_events E sf (safepoint_pc sf off) d (pool d) (slot_values E (pool d) False False (v_locals (scope_at sf d)))
        (slot_values E (pool d) False False (v_stack (scope_at sf d)))) ds)) = []" for ds
    by (rule event_pcs_none) (auto simp: scope_events_def scope_event_def)
  ultimately show ?thesis by auto
qed

lemma describe_depths_ok:
  assumes "notes_ok js"
  shows "d \<le> Suc (length js) \<Longrightarrow> 1 \<le> d \<Longrightarrow> describe_depths pc js [d..<Suc (length js)] =
    Some (map (\<lambda>j. describe_non_safepoint pc (js_method j) (js_bci j) (should_reexecute j)) (rev (take (Suc (length js) - d) js)))"
proof (induction d rule: inc_induct)
  case (step d)
  have ch: "chain_ok js" and ne: "js \<noteq> []" and young: "\<forall>j \<in> set (tl js). \<not> should_reexecute j" using assms by (simp_all add: notes_ok_def)
  have le: "1 \<le> d" "d \<le> length js" using step by auto
  let ?k = "length js - d"
  have k: "?k < length js" using le by simp
  then have "of_depth d js = Some (js ! ?k # drop (Suc ?k) js)" using of_depth_drop [OF ch, of d] le by (simp add: Cons_nth_drop_Suc)
  moreover have "js_depth (hd js) = length js" using ch ne by (cases js) auto
  moreover have "\<not> should_reexecute (js ! ?k)" if "d \<noteq> length js"
  proof -
    have "js ! ?k = tl js ! (?k - 1)" "?k - 1 < length (tl js)" using that le by (cases js; simp add: nth_Cons')+
    then show ?thesis using young nth_mem by metis
  qed
  moreover have "rev (take (Suc (length js) - d) js) = js ! ?k # rev (take ?k js)"
    using le k by (simp add: Suc_diff_le take_Suc_conv_app_nth)
  ultimately show ?case using step.IH le by (simp add: upt_conv_Cons del: upt_Suc) auto
qed simp

lemma emit_ok:
  assumes "notes_ok (em_pending_jvms T)" "ee_recording X"
  shows "emit_non_safepoint X T = Some (T\<lparr>em_pending_jvms := [],
    em_events := em_events T @ non_safepoint_events (em_pending_offset T) (em_pending_jvms T)\<rparr>)"
proof -
  obtain y ys where y: "em_pending_jvms T = y # ys" using assms(1) by (cases "em_pending_jvms T") (auto simp: notes_ok_def)
  have "js_depth y = length (em_pending_jvms T)" using assms(1) y by (simp add: notes_ok_def)
  then have "describe_depths (em_pending_offset T) (em_pending_jvms T) [1..<Suc (js_depth y)] =
    Some (map (\<lambda>j. describe_non_safepoint (em_pending_offset T) (js_method j) (js_bci j) (should_reexecute j)) (rev (em_pending_jvms T)))"
    using describe_depths_ok [OF assms(1), of 1 "em_pending_offset T"] by simp
  then show ?thesis using assms(2) y by (simp add: emit_non_safepoint_def non_safepoint_events_def Let_def del: upt_Suc)
qed

section \<open>The recorded events\<close>

text \<open>
  A block of events is that of a safepoint, or that of an instruction, at its offset and for a call chain that is the same
  as that of its notes.
\<close>

definition event_block :: "output_env \<Rightarrow> code_step list \<Rightarrow> debug_event list \<Rightarrow> bool" where
  "event_block E steps b \<longleftrightarrow>
     (\<exists>mach off. Safepoint mach off \<in> set steps \<and> Process_OopMap_Node E mach off = Some b) \<or>
     (\<exists>js js' pc. Instruction js pc \<in> set steps \<and> calls js' = calls js \<and> b = non_safepoint_events pc js')"

definition log_ok :: "int \<Rightarrow> output_env \<Rightarrow> code_step list \<Rightarrow> debug_event list \<Rightarrow> bool" where
  "log_ok low E steps es \<longleftrightarrow> sorted_wrt (<) (low # event_pcs es) \<and> (\<exists>blocks. es = concat blocks \<and> (\<forall>b \<in> set blocks. event_block E steps b))"

definition pending_ok :: "int \<Rightarrow> emitter_env \<Rightarrow> code_step list \<Rightarrow> int \<Rightarrow> emitter \<Rightarrow> bool" where
  "pending_ok low X steps cur T \<longleftrightarrow> (em_pending_jvms T \<noteq> [] \<longrightarrow> notes_ok (em_pending_jvms T) \<and> ee_recording X \<and>
     last (low # event_pcs (em_events T)) < em_pending_offset T \<and> em_pending_offset T \<le> cur \<and>
     (\<exists>js. Instruction js (em_pending_offset T) \<in> set steps \<and> calls (em_pending_jvms T) = calls js))"

definition recorded_below :: "int \<Rightarrow> int \<Rightarrow> debug_event list \<Rightarrow> bool" where
  "recorded_below prev cur es \<longleftrightarrow> (\<forall>p \<in> set (event_pcs es). p < cur \<or> p \<le> prev)"

lemma sorted_below_last: "sorted_wrt (<) xs \<Longrightarrow> x \<in> set xs \<Longrightarrow> x \<le> last (xs :: int list)"
  by (induction xs) (auto intro: less_imp_le)

lemma sorted_snoc: "sorted_wrt (<) xs \<Longrightarrow> xs \<noteq> [] \<Longrightarrow> last xs < p \<Longrightarrow> sorted_wrt (<) (xs @ [p :: int])"
  using sorted_below_last [of xs] by (force simp: sorted_wrt_append)

lemma log_ok_append:
  assumes "log_ok low E steps es" "event_pcs b = [p]" "last (low # event_pcs es) < p" "event_block E steps b"
  shows "log_ok low E steps (es @ b)"
proof -
  from assms(1) obtain blocks where b: "es = concat blocks" "\<forall>b \<in> set blocks. event_block E steps b" "sorted_wrt (<) (low # event_pcs es)"
    by (auto simp: log_ok_def)
  have "sorted_wrt (<) ((low # event_pcs es) @ [p])" by (rule sorted_snoc [OF b(3) _ assms(3)]) simp
  then have "sorted_wrt (<) (low # event_pcs (es @ b))" using assms(2) by simp
  moreover have "es @ b = concat (blocks @ [b])" "\<forall>c \<in> set (blocks @ [b]). event_block E steps c" using b assms(4) by auto
  ultimately show ?thesis unfolding log_ok_def by blast
qed

text \<open>An emission adds the pending instruction.\<close>

lemma emit_log:
  assumes "log_ok low E steps (em_events T)" "pending_ok low X steps cur T" "em_pending_jvms T \<noteq> []"
  shows "\<exists>T1. emit_non_safepoint X T = Some T1 \<and> em_pending_jvms T1 = [] \<and> log_ok low E steps (em_events T1) \<and>
    event_pcs (em_events T1) = event_pcs (em_events T) @ [em_pending_offset T]"
proof -
  have p: "notes_ok (em_pending_jvms T)" "ee_recording X" "last (low # event_pcs (em_events T)) < em_pending_offset T"
    "\<exists>js. Instruction js (em_pending_offset T) \<in> set steps \<and> calls (em_pending_jvms T) = calls js"
    using assms(2,3) unfolding pending_ok_def by blast+
  from p(4) have "event_block E steps (non_safepoint_events (em_pending_offset T) (em_pending_jvms T))" unfolding event_block_def by blast
  from log_ok_append [OF assms(1) non_safepoint_pcs p(3) this]
  have l: "log_ok low E steps (em_events T @ non_safepoint_events (em_pending_offset T) (em_pending_jvms T))" .
  show ?thesis by (intro exI conjI, rule emit_ok [OF p(1,2)]) (simp_all add: l)
qed

lemma observe_instruction_ok:
  assumes X: "emitter_law low X" and l: "log_ok low E steps (em_events T)" and p: "pending_ok low X steps cur T" and b: "recorded_below prev cur (em_events T)"
    and c: "cur \<le> pc" "jvms = [] \<or> notes_ok jvms" and st: "Instruction jvms pc \<in> set steps"
  shows "\<exists>T1. observe_instruction X jvms pc T = Some T1 \<and> log_ok low E steps (em_events T1) \<and> pending_ok low X steps pc T1 \<and> recorded_below prev pc (em_events T1)"
proof -
  define start :: "emitter \<Rightarrow> emitter" where "start = (\<lambda>T1. let T2 = T1\<lparr>em_pending_jvms := []\<rparr>
                        in if ee_last_pc X (em_events T2) < pc then T2\<lparr>em_pending_jvms := jvms, em_pending_offset := pc\<rparr> else T2)"
  have last: "ee_last_pc X es = last (low # event_pcs es)" for es using X by (simp add: emitter_law_def)
  have b': "recorded_below prev pc (em_events T)" using b c(1) by (auto simp: recorded_below_def)
  have p': "pending_ok low X steps pc T" using p c(1) by (auto simp: pending_ok_def)
  show ?thesis
  proof (cases "ee_recording X \<and> jvms \<noteq> []")
    case False
    then have "observe_instruction X jvms pc T = Some T" by (auto simp: observe_instruction_def Let_def)
    with l p' b' show ?thesis by blast
  next
    case True
    then have n: "notes_ok jvms" "ee_recording X" "jvms \<noteq> []" using c(2) by auto
    have ev: "em_events (start T1) = em_events T1" for T1 by (simp add: start_def Let_def)
    have started: "pending_ok low X steps pc (start T1)" for T1
      using n st last by (auto simp: pending_ok_def start_def Let_def)
    show ?thesis
    proof (cases "em_pending_jvms T = []")
      case True
      then have "observe_instruction X jvms pc T = Some (start T)" using n by (simp add: observe_instruction_def start_def Let_def)
      with l b' started ev show ?thesis by metis
    next
      case False
      then have pn: "notes_ok (em_pending_jvms T)" using p by (simp add: pending_ok_def)
      have same: "same_calls_as (ee_same X) (em_pending_jvms T) jvms = Some (calls (em_pending_jvms T) = calls jvms)"
        using X pn n by (intro same_calls_as_calls) (auto simp: emitter_law_def notes_ok_def)
      show ?thesis
      proof (cases "calls (em_pending_jvms T) = calls jvms")
        case True
        have "observe_instruction X jvms pc T = Some (T\<lparr>em_pending_offset := pc\<rparr>)"
          using n False same True by (simp add: observe_instruction_def Let_def)
        moreover have "pending_ok low X steps pc (T\<lparr>em_pending_offset := pc\<rparr>)"
          using p True st c(1) by (auto simp: pending_ok_def)
        ultimately show ?thesis using l b' by auto
      next
        case diff: False
        have o: "observe_instruction X jvms pc T = map_option start (if em_pending_offset T < pc then emit_non_safepoint X T else Some T)"
          unfolding observe_instruction_def start_def Let_def using n False same diff by simp
        show ?thesis
        proof (cases "em_pending_offset T < pc")
          case True
          from emit_log [OF l p False] obtain T1 where
            T1: "emit_non_safepoint X T = Some T1" "log_ok low E steps (em_events T1)" "event_pcs (em_events T1) = event_pcs (em_events T) @ [em_pending_offset T]" by blast
          have "recorded_below prev pc (em_events T1)" using b' True T1(3) by (auto simp: recorded_below_def)
          with o True T1 started ev show ?thesis by auto
        next
          case False
          with o l b' started ev show ?thesis by auto
        qed
      qed
    qed
  qed
qed

lemma safepoint_ok:
  assumes X: "emitter_law low X" and l: "log_ok low (ee_output X) steps (em_events T)" and p: "pending_ok low X steps cur T"
    and b: "recorded_below prev cur (em_events T)" and low: "low \<le> prev"
    and c: "cur \<le> off" "off \<le> safepoint_pc mach off" "prev < safepoint_pc mach off" and S: "sfpt_describable (ee_output X) mach N"
    and st: "Safepoint mach off \<in> set steps"
  shows "\<exists>T1. run_step X (Safepoint mach off) T = Some T1 \<and> log_ok low (ee_output X) steps (em_events T1) \<and> em_pending_jvms T1 = [] \<and>
    recorded_below (safepoint_pc mach off) (safepoint_pc mach off) (em_events T1) \<and> safepoint_pc mach off \<in> set (event_pcs (em_events T1))"
proof -
  let ?pc = "safepoint_pc mach off"
  have "\<exists>T1. observe_safepoint X (ms_jvms mach) off T = Some T1 \<and> log_ok low (ee_output X) steps (em_events T1) \<and> em_pending_jvms T1 = [] \<and>
    (\<forall>q \<in> set (event_pcs (em_events T1)). q < off \<or> q \<le> prev)"
  proof (cases "em_pending_jvms T = []")
    case True
    then show ?thesis using l b c(1) by (auto simp: observe_safepoint_def recorded_below_def)
  next
    case False
    then have pn: "notes_ok (em_pending_jvms T)" using p by (simp add: pending_ok_def)
    have same: "same_calls_as (ee_same X) (em_pending_jvms T) (ms_jvms mach) = Some (calls (em_pending_jvms T) = calls (ms_jvms mach))"
      using X pn S by (intro same_calls_as_calls) (auto simp: emitter_law_def notes_ok_def sfpt_describable_def)
    show ?thesis
    proof (cases "calls (em_pending_jvms T) \<noteq> calls (ms_jvms mach) \<and> em_pending_offset T < off")
      case True
      from emit_log [OF l p False] obtain T1 where
        T1: "emit_non_safepoint X T = Some T1" "log_ok low (ee_output X) steps (em_events T1)" "event_pcs (em_events T1) = event_pcs (em_events T) @ [em_pending_offset T]" by blast
      then show ?thesis using False same True b c(1) by (auto simp: observe_safepoint_def recorded_below_def)
    next
      case no: False
      then have "observe_safepoint X (ms_jvms mach) off T = Some (T\<lparr>em_pending_jvms := []\<rparr>)"
        using False same by (auto simp: observe_safepoint_def)
      then show ?thesis using l b c(1) by (auto simp: recorded_below_def)
    qed
  qed
  then obtain T1 where T1: "observe_safepoint X (ms_jvms mach) off T = Some T1" "log_ok low (ee_output X) steps (em_events T1)" "em_pending_jvms T1 = []"
    "\<forall>q \<in> set (event_pcs (em_events T1)). q < off \<or> q \<le> prev" by blast
  obtain es where es: "Process_OopMap_Node (ee_output X) mach off = Some es" "event_pcs es = [?pc]" using process_pcs [OF S, of off] by blast
  have lt: "q < ?pc" if "q \<in> set (event_pcs (em_events T1))" for q using T1(4) that c(2,3) by fastforce
  have "last (low # event_pcs (em_events T1)) < ?pc"
    using lt [of "last (event_pcs (em_events T1))"] low c(3) by auto
  moreover have "event_block (ee_output X) steps es" using st es(1) unfolding event_block_def by blast
  ultimately have "log_ok low (ee_output X) steps (em_events T1 @ es)" using T1(2) es(2) by (intro log_ok_append)
  moreover have "recorded_below ?pc ?pc (em_events T1 @ es)" using lt es(2) by (auto simp: recorded_below_def intro: less_imp_le)
  ultimately show ?thesis using T1(1,3) es by (simp add: run_step_def)
qed


lemma flush_ok:
  assumes "log_ok low E steps (em_events T)" "pending_ok low X steps cur T"
  shows "\<exists>T1. flush_at_end X T = Some T1 \<and> log_ok low E steps (em_events T1) \<and> set (event_pcs (em_events T)) \<subseteq> set (event_pcs (em_events T1))"
proof (cases "em_pending_jvms T = []")
  case True
  then show ?thesis using assms(1) by (auto simp: flush_at_end_def)
next
  case False
  from emit_log [OF assms False] obtain T1 where "emit_non_safepoint X T = Some T1" "log_ok low E steps (em_events T1)"
    "event_pcs (em_events T1) = event_pcs (em_events T) @ [em_pending_offset T]" by blast
  then show ?thesis using False by (auto simp: flush_at_end_def)
qed

text \<open>Nothing that was recorded is removed.\<close>

lemma emit_keeps: "emit_non_safepoint X T = Some T1 \<Longrightarrow> \<exists>es. em_events T1 = em_events T @ es"
  by (auto simp: emit_non_safepoint_def Let_def split: list.splits if_splits)

lemma run_step_keeps:
  assumes "run_step X s T = Some T1"
  shows "\<exists>es. em_events T1 = em_events T @ es"
proof (cases s)
  case (Instruction js pc)
  have e: "\<exists>es. em_events T2 = em_events T @ es" if "(if c then emit_non_safepoint X T else Some T) = Some T2" for c T2
    using that emit_keeps [of X T T2] by (auto split: if_splits)
  show ?thesis using assms Instruction e
    by (fastforce simp: run_step_def observe_instruction_def Let_def split: if_splits option.splits bool.splits)
next
  case (Safepoint mach off)
  then obtain T2 where T2: "observe_safepoint X (ms_jvms mach) off T = Some T2" "\<exists>es. em_events T1 = em_events T2 @ es"
    using assms by (auto simp: run_step_def bind_eq_Some_conv)
  from T2(1) have "\<exists>es. em_events T2 = em_events T @ es"
    using emit_keeps [of X T] by (fastforce simp: observe_safepoint_def split: if_splits option.splits)
  with T2(2) show ?thesis by auto
qed

lemma code_steps_ok:
  assumes X: "emitter_law low X"
  shows "\<lbrakk>set ss \<subseteq> set steps; code_ok (ee_output X) prev cur ss; low \<le> prev; log_ok low (ee_output X) steps (em_events T);
     pending_ok low X steps cur T; recorded_below prev cur (em_events T)\<rbrakk> \<Longrightarrow>
    \<exists>T1. code_steps X ss T = Some T1 \<and> log_ok low (ee_output X) steps (em_events T1) \<and>
      set (event_pcs (em_events T)) \<subseteq> set (event_pcs (em_events T1)) \<and>
      (\<forall>mach off. Safepoint mach off \<in> set ss \<longrightarrow> safepoint_pc mach off \<in> set (event_pcs (em_events T1)))"
proof (induction ss arbitrary: T prev cur)
  case Nil
  then show ?case using flush_ok [of low "ee_output X" steps T X cur] by simp
next
  case (Cons s ss)
  have step: ?case
    if c: "run_step X s T = Some T1" and o: "code_ok (ee_output X) prev1 cur1 ss" "low \<le> prev1" "log_ok low (ee_output X) steps (em_events T1)"
      "pending_ok low X steps cur1 T1" "recorded_below prev1 cur1 (em_events T1)"
      and sp: "\<And>mach off. s = Safepoint mach off \<Longrightarrow> safepoint_pc mach off \<in> set (event_pcs (em_events T1))" for T1 prev1 cur1
  proof -
    have "set ss \<subseteq> set steps" using Cons.prems(1) by simp
    from Cons.IH [OF this o] obtain T2 where T2: "code_steps X ss T1 = Some T2" "log_ok low (ee_output X) steps (em_events T2)"
      "set (event_pcs (em_events T1)) \<subseteq> set (event_pcs (em_events T2))"
      "\<forall>mach off. Safepoint mach off \<in> set ss \<longrightarrow> safepoint_pc mach off \<in> set (event_pcs (em_events T2))" by blast
    from run_step_keeps [OF c] have k: "set (event_pcs (em_events T)) \<subseteq> set (event_pcs (em_events T1))" by auto
    have "code_steps X (s # ss) T = Some T2" using c T2(1) by simp
    moreover have "\<forall>mach off. Safepoint mach off \<in> set (s # ss) \<longrightarrow> safepoint_pc mach off \<in> set (event_pcs (em_events T2))"
      using T2(3,4) sp by auto
    ultimately show ?thesis using T2(2,3) k by blast
  qed
  show ?case
  proof (cases s)
    case (Instruction js pc)
    then have c: "cur \<le> pc" "js = [] \<or> notes_ok js" "code_ok (ee_output X) prev pc ss" "Instruction js pc \<in> set steps" using Cons.prems by auto
    from observe_instruction_ok [OF X Cons.prems(4,5,6) c(1,2,4)] obtain T1 where T1: "observe_instruction X js pc T = Some T1"
      "log_ok low (ee_output X) steps (em_events T1)" "pending_ok low X steps pc T1" "recorded_below prev pc (em_events T1)" by blast
    show ?thesis by (rule step [OF _ c(3) Cons.prems(3) T1(2,3,4)]) (use Instruction T1(1) in \<open>simp_all add: run_step_def\<close>)
  next
    case (Safepoint mach off)
    then obtain N where c: "cur \<le> off" "off \<le> safepoint_pc mach off" "prev < safepoint_pc mach off" "sfpt_describable (ee_output X) mach N"
      "code_ok (ee_output X) (safepoint_pc mach off) (safepoint_pc mach off) ss" "Safepoint mach off \<in> set steps" using Cons.prems by auto
    from safepoint_ok [OF X Cons.prems(4,5,6,3) c(1,2,3,4,6)] obtain T1 where T1: "run_step X (Safepoint mach off) T = Some T1"
      "log_ok low (ee_output X) steps (em_events T1)" "em_pending_jvms T1 = []" "recorded_below (safepoint_pc mach off) (safepoint_pc mach off) (em_events T1)"
      "safepoint_pc mach off \<in> set (event_pcs (em_events T1))" by blast
    have "pending_ok low X steps (safepoint_pc mach off) T1" using T1(3) by (simp add: pending_ok_def)
    then show ?thesis
      by (intro step [OF _ c(5) _ T1(2) _ T1(4)]) (use Safepoint T1(1,5) Cons.prems(3) c(3) in auto)
  qed
qed

text \<open>
  C17: The recorded offsets increase. For code that is emitted in order, with safepoints at different offsets, emission
  returns; the offsets of the recorded safepoints and instructions increase strictly from the start, as the recorder
  demands; every safepoint is recorded at its offset; and the record consists of complete blocks, each the debug information
  of a safepoint of the code or the call chain of an instruction of the code at its own offset, although instructions are
  recorded late and runs of instructions with the same call chain are joined.
\<close>

theorem debug_pcs_increase:
  assumes X: "emitter_law low X" and c: "code_ok (ee_output X) low cur steps"
  shows "\<exists>T. code_steps X steps (new_NonSafepointEmitter []) = Some T \<and> sorted_wrt (<) (low # event_pcs (em_events T)) \<and>
    (\<forall>mach off. Safepoint mach off \<in> set steps \<longrightarrow> safepoint_pc mach off \<in> set (event_pcs (em_events T))) \<and>
    (\<exists>blocks. em_events T = concat blocks \<and> (\<forall>b \<in> set blocks. event_block (ee_output X) steps b))"
proof -
  let ?T = "new_NonSafepointEmitter []"
  have "log_ok low (ee_output X) steps (em_events ?T)" by (auto simp: log_ok_def new_NonSafepointEmitter_def intro!: exI [of _ "[]"])
  moreover have "pending_ok low X steps cur ?T" "recorded_below low cur (em_events ?T)" by (simp_all add: pending_ok_def recorded_below_def new_NonSafepointEmitter_def)
  ultimately obtain T where "code_steps X steps ?T = Some T" "log_ok low (ee_output X) steps (em_events T)"
    "\<forall>mach off. Safepoint mach off \<in> set steps \<longrightarrow> safepoint_pc mach off \<in> set (event_pcs (em_events T))"
    using code_steps_ok [OF X subset_refl c order_refl] by blast
  then show ?thesis unfolding log_ok_def by blast
qed

text \<open>Two instructions of one call chain, another one, and a safepoint.\<close>

definition sample_emitter :: emitter_env where
  "sample_emitter = \<lparr>ee_output = sample_output, ee_recording = True, ee_last_pc = (\<lambda>es. last (- 1 # event_pcs es)), ee_same = (=)\<rparr>"

definition sample_notes :: "int \<Rightarrow> jvms" where
  "sample_notes bci = [\<lparr>js_depth = 1, js_locoff = 5, js_stkoff = 5, js_monoff = 5, js_scloff = 5, js_endoff = 5, js_sp = 0, js_bci = bci,
     js_reexecute = Reexecute_False, js_method = Some \<lparr>m_id = 0, m_max_locals = 3, m_max_stack = 1\<rparr>, js_map = 0\<rparr>]"

definition sample_code :: "code_step list" where
  "sample_code = [Instruction (sample_notes 1) 4, Instruction (sample_notes 1) 8, Instruction (sample_notes 2) 12, Safepoint sample_mach 16,
     Instruction (sample_notes 4) 21]"

theorem debug_pcs_increase_witness:
  "\<exists>T. code_steps sample_emitter sample_code (new_NonSafepointEmitter []) = Some T \<and> sorted_wrt (<) (- 1 # event_pcs (em_events T)) \<and>
     21 \<in> set (event_pcs (em_events T))"
proof -
  have n: "notes_ok (sample_notes bci)" for bci by (simp add: notes_ok_def sample_notes_def jvms_layout_def)
  have pc: "safepoint_pc sample_mach 16 = 21" by (simp add: safepoint_pc_def sample_mach_def)
  have law: "emitter_law (- 1) sample_emitter" by (simp add: emitter_law_def sample_emitter_def)
  have "code_ok (ee_output sample_emitter) (- 1) 0 sample_code"
    using n sample_mach_describable pc by (auto simp: sample_code_def sample_emitter_def)
  from debug_pcs_increase [OF law this] obtain T where
    T: "code_steps sample_emitter sample_code (new_NonSafepointEmitter []) = Some T" "sorted_wrt (<) (- 1 # event_pcs (em_events T))"
      "\<forall>mach off. Safepoint mach off \<in> set sample_code \<longrightarrow> safepoint_pc mach off \<in> set (event_pcs (em_events T))" by blast
  have "Safepoint sample_mach 16 \<in> set sample_code" by (simp add: sample_code_def)
  with T(3) pc have "21 \<in> set (event_pcs (em_events T))" by force
  with T(1,2) show ?thesis by blast
qed

end
