(* ===== verification/Spec2Isabelle.thy ===== *)
theory Spec2Isabelle
  imports Stack_Alloc Graph_Queries Final_Pass Oop_Map_Set Oop_Walk Compiled_Frame Uncommon_Trap Macro_Slots Macro_Walk Debug_Events
begin

text \<open>
  A verification of the stack allocation prototype for HotSpot's C2 compiler, the proposal under
  \<open>src/stack_allocation/\<close> (C++ under \<open>webrev/src/hotspot/share/\<close>).

  \<^bold>\<open>The program.\<close> Escape analysis (\<open>opto/escape.cpp\<close>, \<open>escape.hpp\<close>) builds a connection graph of the
  objects, variables and fields of a method, spreads references and escape states over it until
  nothing changes, and decides which allocations stay in the frame. An allocation that does not
  escape is replaced by scalars or, new in this proposal, placed in the stack frame. The oop maps of
  a method (\<open>compiler/oopMap.cpp\<close>) tell the collector where references are, and its visitor now also walks
  through objects that lie in the frame. Macro expansion (\<open>opto/macro.cpp\<close>) gives the objects their slots in the frame and
  describes them at the safepoints where they may be live (\<open>opto/callnode.cpp\<close>); the output phase (\<open>opto/output.cpp\<close>) turns these
  descriptions into debug information. The debug information (\<open>code/debugInfo.cpp\<close>) describes the objects
  that are not in the heap, and deoptimization (\<open>runtime/deoptimization.cpp\<close>) rebuilds them there, while a debugger sees
  them through virtual frames (\<open>runtime/vframe_hp.cpp\<close>). Compiled code that meets a case it was not compiled for enters
  deoptimization by an uncommon trap.

  \<^bold>\<open>The theories\<close>, each with the definitions first, in the order of the code, then the lemmas:

  \<^item> \<open>Prelude\<close>: fixed-width types, growable arrays (\<open>append_if_missing\<close>), generic lemmas.
  \<^item> \<open>Ideal_Graph\<close>: the part of the compiler's graph of nodes that the analysis reads, as a record of
    queries. C2's node classes themselves are not in the model.
  \<^item> \<open>Points_To\<close>, \<open>Conn_Graph\<close>: \<open>PointsToNode\<close> and its subclasses, the state of \<open>ConnectionGraph\<close>, its
    constructor, \<open>add_edge\<close>, \<open>add_base\<close>, escape state setters. A pointer is an index into a heap of nodes. The
    locale \<open>structure_preserving\<close> collects what holds for every operation that only changes states.
  \<^item> \<open>Stack_Alloc\<close>: step 4 of \<open>compute_escape\<close>, which is the proposal's own analysis:
    \<open>eligible_for_stack_allocation\<close>, the object chains and the overlap of lifetimes in loops. C1: whatever the
    analysis keeps on the stack is never referenced from the heap.
  \<^item> \<open>Escape_Flow\<close>, \<open>Complete_Graph\<close>, \<open>Build_Loop\<close>: \<open>find_non_escaped_objects\<close>, \<open>add_java_object_edges\<close>,
    \<open>find_field_value\<close>, \<open>find_init_values\<close> and the loops of \<open>complete_connection_graph\<close>. The worklists are partial functions that
    are proved to return; a result is closed under references and escape states.
  \<^item> \<open>Graph_Build\<close>, \<open>Build_Invariant\<close>, \<open>First_Pass\<close>, \<open>Final_Pass\<close>: the construction of the graph from the nodes (steps 1 and 2 of
    \<open>compute_escape\<close>): which node of the graph each ideal node becomes, the edges of stores, loads and calls, and the loops that
    collect the nodes. Every node that can be reached is registered with the kind of its class, no assertion
    fails, an object passed to an unknown call escapes, and the completed graph is closed.
  \<^item> \<open>Graph_Queries\<close>: \<open>unique_java_object\<close>, \<open>points_to\<close>, \<open>meet\<close>, the folding of pointer comparisons, and the
    adjustment of the scalar replaceable state.
  \<^item> \<open>Oop_Map\<close>, \<open>Oop_Map_Set\<close>: entries packed into 16 bits, the compressed stream of a map, and the
    immutable set of maps as bytes with its builder. The locale \<open>entry_codec\<close> is the contract of an entry's
    encoding; it is interpreted on \<open>OopMapValue\<close>.
  \<^item> \<open>Oop_Walk\<close>: \<open>OopMapSet::all_do\<close> with the descent into stack allocated objects, and derived pointers.
  \<^item> \<open>Scope_Values\<close>: scope values, object and monitor descriptions, and their serialization.
  \<^item> \<open>Raw_Memory\<close>: bytes of memory and loops of stores; the locale \<open>store_loop\<close> says that such a loop
    performs the stores found in the memory it started with.
  \<^item> \<open>Deopt_Objects\<close>: \<open>realloc_objects\<close> and \<open>reassign_fields\<close> with all the loops they use, each an
    interpretation of \<open>store_loop\<close>.
  \<^item> \<open>Compiled_Frame\<close>: the values of a compiled virtual frame, with references into the frame replaced by the objects
    restored for them and with the updates of a debugger, and these deferred updates as a map.
  \<^item> \<open>Macro_Slots\<close>: \<open>estimate_stack_allocation_size\<close>, \<open>stack_allocation\<close> and the loop of \<open>expand_macro_nodes\<close> over the
    allocations. The objects of a frame do not overlap, and objects that refer to each other are on the stack all or
    none. The rewriting of the graph is a record of operations (\<open>graph_laws\<close>: a step takes its node off the list and adds
    none).
  \<^item> \<open>Macro_Walk\<close>: the walks over the uses of a stack allocated object, for the write barriers and for the safepoints,
    against the inductive relations \<open>carries\<close> and \<open>barrier_flow\<close> of where a reference to it may be seen.
  \<^item> \<open>JVM_State\<close>: the states of safepoints (\<open>callnode.cpp\<close>), a chain of inlined callers with the offsets of its sections in the
    inputs. \<open>views\<close> is what a safepoint means, the locals, operands, monitors and scalars of every scope; pushing and popping
    a monitor, growing the operand stack and setting a local change only that.
  \<^item> \<open>Debug_Output\<close>: \<open>FillLocArray\<close> and \<open>Process_OopMap_Node\<close> (\<open>output.cpp\<close>), which describe the scopes of a safepoint and fill the
    pool of objects. They return although objects may refer to themselves; the pool is exactly what the scopes lead to
    (\<open>described_from\<close>), and what is written is what the reader of \<open>Scope_Values\<close> gives to deoptimization.
  \<^item> \<open>Debug_Events\<close>: \<open>NonSafepointEmitter\<close> and its use in \<open>fill_buffer\<close>: the recorded code offsets increase. Safepoints in delay
    slots are outside this theorem.
  \<^item> this theory: the components together. A stack allocated object that may be live at a safepoint is registered there by
    macro expansion, described by the output phase and found by deoptimization. The matcher, which is not in the repository
    and lies between the first two, is assumed to keep the registration (\<open>matched\<close>).
  \<^item> \<open>Trap_Request\<close>: requests packed into an \<open>int\<close>, the state of a bytecode packed into the profile, and the histogram.
  \<^item> \<open>Uncommon_Trap\<close>: \<open>query_update_method_data\<close> and the decisions and effects of \<open>uncommon_trap_inner\<close>. The profile, the code and the
    policy are a record of operations (\<open>profile_laws\<close>, \<open>recompiled_each_time\<close>: the removal of code is counted in the profile of
    the method that was compiled). A site that traps for ever is abandoned, once a removal has been counted in its profile.

  \<^bold>\<open>Bounds.\<close> \<open>complete_connection_graph\<close> runs at most \<open>CG_BUILD_ITER_LIMIT = 20\<close> rounds as the code does, and gives up
  when the timer, an argument, has expired; all other loops have no fuel. Machine integers are words
  where they are packed or truncated; node indices and addresses of the deoptimized frame are natural
  numbers. A failed \<open>assert\<close> or \<open>ShouldNotReachHere\<close> is \<open>None\<close>, and the theorems show when it cannot happen; also where a
  product build would go on. Left out are the assertions of \<open>escape.cpp\<close> and \<open>escape.hpp\<close> that restate its invariant (a new
  edge is a new use, which is part of \<open>add_edge_correct\<close>; an edge to an arraycopy node leaves an arraycopy destination), and in
  \<open>uncommon_trap_inner\<close> those about speculation and that \<open>trap_mdo\<close> is the profile of the method.

  \<^bold>\<open>Arguments\<close> stand for code outside the repository: the nodes and types of C2, \<open>VMReg\<close> and \<open>Location\<close>, the
  compressed streams, frames and register maps, klasses and the layout of objects, the allocator, the analysis of
  bytecodes, the rewriting of the ideal graph, register masks, the profile of a method, the code cache and the policy, the
  registers of nodes, the recorder of debug information,
  \<open>StackValue::create_stack_value\<close>, and the closure of the collector. Each law that is needed of them is a named
  predicate, with a concrete instance in the witnesses.

  \<^bold>\<open>Not modelled.\<close> \<open>split_unique_types\<close>, the nodes that macro expansion emits for heap allocation, locks and array
  copies, and the loop, memory and code generation phases of C2: they rewrite the ideal graph through node classes,
  types and a global value numbering that are not in the repository. Of the output phase only the debug information is
  modelled, for 64 bit machines; sizes of code, branches and scheduling need machine descriptions. Frames of the interpreter and their unpacking, GC
  barriers, events, tracing and logging, and the Java and HTML files of the repository.
\<close>

section \<open>From allocation to deoptimization\<close>

text \<open>
  The matcher, between macro expansion and output, turns a safepoint into a machine safepoint. It keeps the scalar section,
  which other expansions may have extended, and the descriptions in it.
\<close>

definition matched :: "output_env \<Rightarrow> sfpt_state \<Rightarrow> node \<Rightarrow> mach_safepoint \<Rightarrow> bool" where
  "matched E T s sf \<longleftrightarrow>
     (\<exists>j js. ms_jvms sf = j # js \<and> js_scloff j = sf_scloff (sfpts T s) \<and> sf_endoff (sfpts T s) \<le> js_endoff j) \<and>
     (\<forall>i so. sf_scloff (sfpts T s) \<le> i \<and> i < sf_endoff (sfpts T s) \<and> sobjs T (sf_inputs (sfpts T s) ! i) = Some so \<longrightarrow>
        (\<exists>m. ms_input sf (ms_jvmadj sf + i) = Some m \<and> o_sobj E m = Some so))"

text \<open>A description in the scalar section of the youngest state is in the pool of the youngest scope.\<close>

lemma scalar_described:
  assumes S: "sfpt_describable E sf N" and j: "ms_jvms sf = j # js" and i: "js_scloff j \<le> i" "i < js_endoff j"
    and m: "ms_input sf (ms_jvmadj sf + i) = Some m" "o_sobj E m = Some so"
  shows "described_from E sf (roots_upto sf (length (ms_jvms sf))) m"
    "so_stack_allocated so \<Longrightarrow> \<exists>box. o_box_lock E m = Some box \<and> o_klass_ok E m"
proof -
  let ?n = "length (ms_jvms sf)"
  have n: "?n \<in> {1..?n}" "state_at sf ?n = j" using j by (auto simp: state_at_def)
  then have sc: "scope_ok E sf N (roots_upto sf (?n - 1)) j" using S unfolding sfpt_describable_def by metis
  then have "ms_jvmadj sf + js_endoff j \<le> length (ms_in sf)" by (simp add: scope_ok_def)
  then have len: "js_endoff j \<le> length (drop (ms_jvmadj sf) (ms_in sf))" by simp
  have "v_scalars (ms_scope sf j) = segment (js_scloff j) (js_endoff j) (drop (ms_jvmadj sf) (ms_in sf))"
    by (simp add: ms_scope_def view_of_def Let_def)
  moreover have "segment (js_scloff j) (js_endoff j) (drop (ms_jvmadj sf) (ms_in sf)) ! (i - js_scloff j) = m"
    using segment_nth [OF len, of "i - js_scloff j" "js_scloff j"] i m(1) by (auto simp: ms_input_def split: if_splits)
  moreover have "i - js_scloff j < length (segment (js_scloff j) (js_endoff j) (drop (ms_jvmadj sf) (ms_in sf)))"
    using i segment_length [OF len, of "js_scloff j"] by simp
  ultimately have mem: "m \<in> set (v_scalars (ms_scope sf j))" by (metis nth_mem)
  then have "m \<in> roots_upto sf ?n"
    unfolding roots_upto_def by (intro UN_I [OF n(1)]) (simp add: scope_roots_def scope_at_def n(2))
  then show "described_from E sf (roots_upto sf ?n) m" using m(2) by (rule described_from.root)
  show "\<exists>box. o_box_lock E m = Some box \<and> o_klass_ok E m" if "so_stack_allocated so"
    using sc mem m(2) that unfolding scope_ok_def Let_def by fastforce
qed

text \<open>
  C2: a stack allocated object is found by deoptimization wherever it may be live. If a reference to the object may be seen
  at a safepoint, through copies, loads, or objects that hold it, then, once macro expansion has registered the
  object and the matcher has kept the registration, the output phase describes the object in the pool of the youngest scope;
  and what deoptimization reads back for the pool contains a stack object with the place of the object's box in the frame,
  its klass and the number of fields of the allocation. This composes the walk of macro expansion, the debug
  information, and its serialization.
\<close>

theorem live_objects_reach_deoptimization:
  assumes live: "(n, s) \<in> live_at B Q (sa_res A)"
    and walk: "push_closed (safepoint_pushes B Q) {..<unique B}" "sa_res A < unique B" "0 \<le> sa_nfields A" "replace_law Q"
    and scl: "sf_scloff (fs s) \<le> length (sf_inputs (fs s))"
    and T: "register_stack_allocated_object_with_safepoints B Q A fs = Some T" and matched: "matched E T s sf"
    and out: "sfpt_describable E sf N" "small_constants E sf" "debug_ok D"
  shows "\<exists>m box pool locs exps before after. o_sobj E m = Some (description A (fs s)) \<and> o_box_lock E m = Some box \<and>
    Process_OopMap_Node E sf off = Some (before @ scope_events E sf (safepoint_pc sf off) (length (ms_jvms sf)) pool locs exps @ after) \<and>
    (\<exists>bytes st. write_values D (map ObjectRef [0..<length pool]) (pool_store pool) = Some (bytes, st) \<and>
      (\<forall>rest. \<exists>vs pool'. read_values D loc0 (length pool) (bytes @ rest) [] = Some (vs, rest, pool') \<and>
        (\<exists>ov \<in> set pool'. ov_class ov = StackObjectValue \<and> ov_id ov = int m \<and> ov_location ov = box_location E box \<and>
           ov_klass ov = Some (ConstantOopReadValue (oop_at D (find_index D (o_mirror E m)))) \<and>
           ov_field_length ov = Some (ConstantIntValue (sa_nfields A)))))"
proof -
  let ?n = "length (ms_jvms sf)" and ?pc = "safepoint_pc sf off"
  obtain T' where "register_stack_allocated_object_with_safepoints B Q A fs = Some T'" "sfpt_inv (unique B) A fs (live_at B Q (sa_res A)) T'"
    using register_safepoints_inv [OF walk] by blast
  then have "registered (unique B) A fs (live_at B Q (sa_res A)) T s" using T by (simp add: sfpt_inv_def)
  moreover have "s \<in> snd ` live_at B Q (sa_res A)" using live by force
  ultimately obtain sobj where sobj: "sobjs T sobj = Some (description A (fs s))"
    "described (sa_res A) (fs s) ((sa_res A, s) \<in> live_at B Q (sa_res A)) sobj (sfpts T s)" unfolding registered_def by auto
  let ?i = "length (sf_inputs (fs s))"
  have i: "sf_scloff (sfpts T s) \<le> ?i" "?i < sf_endoff (sfpts T s)" "sf_inputs (sfpts T s) ! ?i = sobj"
    using sobj(2) scl by (simp_all add: described_def)
  from matched obtain j js where j: "ms_jvms sf = j # js" "js_scloff j = sf_scloff (sfpts T s)" "sf_endoff (sfpts T s) \<le> js_endoff j"
    unfolding matched_def by blast
  from matched i sobj(1) obtain m where m: "ms_input sf (ms_jvmadj sf + ?i) = Some m" "o_sobj E m = Some (description A (fs s))"
    unfolding matched_def by blast
  have ij: "js_scloff j \<le> ?i" "?i < js_endoff j" using i j(2,3) by auto
  have stack: "so_stack_allocated (description A (fs s))" "so_n_fields (description A (fs s)) = sa_nfields A" by (simp_all add: description_def)
  note d = scalar_described [OF out(1) j(1) ij m]
  from d(2) [OF stack(1)] obtain box where box: "o_box_lock E m = Some box" by blast
  from process_filled [OF out(1), of off] obtain pool where process: "Process_OopMap_Node E sf off = Some (add_safepoint ?pc (ms_oop_map sf) #
      concat (map (\<lambda>d. scope_events E sf ?pc d (pool d) (slot_values E (pool d) False False (v_locals (scope_at sf d)))
        (slot_values E (pool d) False False (v_stack (scope_at sf d)))) [1..<Suc ?n]) @
      [end_safepoint ?pc])" and p: "pools_from E sf [] 1 pool" by blast
  have up: "[1..<Suc ?n] = [1..<?n] @ [?n]" using j(1) by simp
  have n: "?n \<in> {1..?n}" using j(1) by simp
  note pd = pools_describe(1) [OF out(1) p n]
  have "int m \<in> set (ids (pool ?n))" using pd d(1) by (simp add: pool_describes_def)
  moreover have "read_back D loc0 E (pool ?n) []" by (rule read_back_ok [OF out(3) pd out(2)]) simp
  ultimately have found: "\<exists>bytes st. write_values D (map ObjectRef [0..<length (pool ?n)]) (pool_store (pool ?n)) = Some (bytes, st) \<and>
      (\<forall>rest. \<exists>vs pool'. read_values D loc0 (length (pool ?n)) (bytes @ rest) [] = Some (vs, rest, pool') \<and>
        (\<exists>ov \<in> set pool'. ov_class ov = StackObjectValue \<and> ov_id ov = int m \<and> ov_location ov = box_location E box \<and>
           ov_klass ov = Some (ConstantOopReadValue (oop_at D (find_index D (o_mirror E m)))) \<and>
           ov_field_length ov = Some (ConstantIntValue (sa_nfields A))))"
    using m(2) box stack unfolding read_back_def by metis
  let ?locs = "slot_values E (pool ?n) False False (v_locals (scope_at sf ?n))" and ?exps = "slot_values E (pool ?n) False False (v_stack (scope_at sf ?n))"
  define before where "before = add_safepoint ?pc (ms_oop_map sf) #
      concat (map (\<lambda>d. scope_events E sf ?pc d (pool d) (slot_values E (pool d) False False (v_locals (scope_at sf d)))
        (slot_values E (pool d) False False (v_stack (scope_at sf d)))) [1..<?n])"
  have "Process_OopMap_Node E sf off = Some (before @ scope_events E sf ?pc ?n (pool ?n) ?locs ?exps @ [end_safepoint ?pc])"
    unfolding process up before_def by simp
  with m(2) box found show ?thesis by blast
qed

text \<open>The safepoint 5 uses only a Phi that merges the object; the machine safepoint has its description in the scalar section.\<close>

definition matched_output :: output_env where
  "matched_output = sample_output\<lparr>o_sobj := [21 \<mapsto> description sample_object (sample_sfpts 5)], o_needs_monitor := (\<lambda>_. False)\<rparr>"

definition matched_mach :: mach_safepoint where
  "matched_mach = \<lparr>ms_in = [0, 0, 22, 22, 21],
     ms_jvms = [\<lparr>js_depth = 1, js_locoff = 2, js_stkoff = 3, js_monoff = 4, js_scloff = 4, js_endoff = 5, js_sp = 1, js_bci = 4,
                 js_reexecute = Reexecute_False, js_method = Some \<lparr>m_id = 0, m_max_locals = 1, m_max_stack = 1\<rparr>, js_map = 0\<rparr>],
     ms_jvmadj = 0, ms_oop_map = 0, ms_call = None\<rparr>"

lemma matched_mach_describable: "sfpt_describable matched_output matched_mach {22}" "small_constants matched_output matched_mach"
proof -
  have plain: "plain_values matched_output 22 = Some [LocationValue 1005]"
    by (simp add: plain_values_def matched_output_def sample_output_def register_values_def new_loc_value_def Let_def)
  have top: "o_sobj matched_output (o_top matched_output) = None" "\<not> two_slots matched_output (o_top matched_output)" "\<not> two_slots matched_output 22"
    by (simp_all add: two_slots_def plain_values_def matched_output_def sample_output_def register_values_def constant_values_def new_loc_value_def Let_def)
  have none: "o_sobj matched_output 22 = None" by (simp add: matched_output_def)
  have at: "length (ms_jvms matched_mach) = 1" "state_at matched_mach 1 = hd (ms_jvms matched_mach)" by (simp_all add: state_at_def matched_mach_def)
  have view: "ms_scope matched_mach (state_at matched_mach 1) = \<lparr>v_locals = [22], v_stack = [22], v_monitors = [], v_scalars = [21]\<rparr>"
    unfolding at(2) by (simp add: ms_scope_def matched_mach_def view_of_def segment_def)
  have "jvms_layout (state_at matched_mach 1)" "ms_jvmadj matched_mach + js_endoff (state_at matched_mach 1) \<le> length (ms_in matched_mach)"
    "\<forall>m. js_method (state_at matched_mach 1) = Some m \<longrightarrow> (js_bci (state_at matched_mach 1) < 0 \<or> loc_size (state_at matched_mach 1) = int (m_max_locals m)) \<and>
      (o_needs_monitor matched_output m \<longrightarrow> 0 < nof_monitors (state_at matched_mach 1))"
    "InvocationEntryBci \<le> js_bci (state_at matched_mach 1)" "js_bci (state_at matched_mach 1) \<le> 0x10000"
    unfolding at(2) by (simp_all add: matched_mach_def jvms_layout_def InvocationEntryBci_def loc_size_def matched_output_def)
  moreover have "paired matched_output [22]" using top(3) by (simp add: paired_def)
  moreover have "\<forall>n so. n \<in> set [21] \<longrightarrow> o_sobj matched_output n = Some so \<longrightarrow> o_klass_ok matched_output n \<and>
      (if so_stack_allocated so then o_box_lock matched_output n \<noteq> None
       else described_from matched_output matched_mach (roots_upto matched_mach 0 \<union> set [22] \<union> set [22] \<union> snd ` set []) n)"
    by (simp add: matched_output_def sample_output_def description_def)
  ultimately have "scope_ok matched_output matched_mach {22} (roots_upto matched_mach 0) (state_at matched_mach 1)"
    unfolding scope_ok_def view Let_def scope_view.simps by simp
  moreover have "\<not> should_reexecute (state_at matched_mach 1)" "chain_ok (ms_jvms matched_mach)" "ms_jvms matched_mach \<noteq> []" "\<not> call_method_handle matched_mach"
    unfolding at(2) by (simp_all add: matched_mach_def should_reexecute_def jvms_layout_def call_method_handle_def)
  moreover have "nodes_ok matched_output matched_mach {22}" using plain none top by (simp add: nodes_ok_def describable_def)
  ultimately show "sfpt_describable matched_output matched_mach {22}" using at(1) top by (simp add: sfpt_describable_def)
  show "small_constants matched_output matched_mach"
    by (auto simp: small_constants_def matched_output_def sample_output_def matched_mach_def in32_def in64_def description_def sample_object_def
        split: if_splits)
qed

theorem live_objects_reach_deoptimization_witness:
  "\<exists>T m pool locs exps before after. register_stack_allocated_object_with_safepoints sample_uses sample_queries_of sample_object sample_sfpts = Some T \<and>
     matched matched_output T 5 matched_mach \<and>
     Process_OopMap_Node matched_output matched_mach 64 = Some (before @ scope_events matched_output matched_mach 64 1 pool locs exps @ after) \<and>
     (\<exists>bytes st. write_values sample_debug (map ObjectRef [0..<length pool]) (pool_store pool) = Some (bytes, st) \<and>
       (\<forall>rest. \<exists>vs pool'. read_values sample_debug 0 (length pool) (bytes @ rest) [] = Some (vs, rest, pool') \<and>
         (\<exists>ov \<in> set pool'. ov_class ov = StackObjectValue \<and> ov_id ov = int m \<and> ov_field_length ov = Some (ConstantIntValue 2))))"
proof -
  have A: "sa_res sample_object = 1" "0 \<le> sa_nfields sample_object" "sa_res sample_object < unique sample_uses" "sa_nfields sample_object = 2"
    by (simp_all add: sample_object_def sample_uses_def)
  have live: "(2, 5) \<in> live_at sample_uses sample_queries_of (sa_res sample_object)" unfolding A(1) by (rule sample_live(2))
  obtain T where T: "register_stack_allocated_object_with_safepoints sample_uses sample_queries_of sample_object sample_sfpts = Some T"
    "sfpt_inv (unique sample_uses) sample_object sample_sfpts (live_at sample_uses sample_queries_of (sa_res sample_object)) T"
    using register_safepoints_inv [OF sample_closed(1) A(3,2) sample_replace_law] by blast
  then have "registered (unique sample_uses) sample_object sample_sfpts (live_at sample_uses sample_queries_of (sa_res sample_object)) T 5"
    by (simp add: sfpt_inv_def)
  moreover have "5 \<in> snd ` live_at sample_uses sample_queries_of (sa_res sample_object)" using live by force
  ultimately obtain sobj where sobj: "sobjs T sobj = Some (description sample_object (sample_sfpts 5))"
    "described (sa_res sample_object) (sample_sfpts 5) ((sa_res sample_object, 5) \<in> live_at sample_uses sample_queries_of (sa_res sample_object)) sobj (sfpts T 5)"
    unfolding registered_def by auto
  have at: "length (sf_inputs (sample_sfpts 5)) = 4" "sf_scloff (sample_sfpts 5) = 4" "sf_endoff (sample_sfpts 5) = 4"
    by (simp_all add: sample_sfpts_def)
  have f: "sf_scloff (sfpts T 5) = 4" "sf_endoff (sfpts T 5) = 5" "sf_inputs (sfpts T 5) ! 4 = sobj"
    using sobj(2) unfolding described_def at by simp_all
  have matched: "matched matched_output T 5 matched_mach"
    unfolding matched_def f(1,2)
  proof (intro conjI allI impI)
    show "\<exists>j js. ms_jvms matched_mach = j # js \<and> js_scloff j = 4 \<and> 5 \<le> js_endoff j" by (simp add: matched_mach_def)
    fix i so assume i: "4 \<le> i \<and> i < 5 \<and> sobjs T (sf_inputs (sfpts T 5) ! i) = Some so"
    then have "i = 4" by simp
    with i f(3) sobj(1) have so: "so = description sample_object (sample_sfpts 5)" by simp
    show "\<exists>m. ms_input matched_mach (ms_jvmadj matched_mach + i) = Some m \<and> o_sobj matched_output m = Some so"
      unfolding so \<open>i = 4\<close> by (simp add: ms_input_def matched_mach_def matched_output_def)
  qed
  have "sf_scloff (sample_sfpts 5) \<le> length (sf_inputs (sample_sfpts 5))" by (simp add: sample_sfpts_def)
  from live_objects_reach_deoptimization [OF live sample_closed(1) A(3,2) sample_replace_law this T(1) matched matched_mach_describable sample_debug_ok, of 64 0]
  have "\<exists>m pool locs exps before after.
     Process_OopMap_Node matched_output matched_mach 64 = Some (before @ scope_events matched_output matched_mach (safepoint_pc matched_mach 64) (length (ms_jvms matched_mach)) pool locs exps @ after) \<and>
     (\<exists>bytes st. write_values sample_debug (map ObjectRef [0..<length pool]) (pool_store pool) = Some (bytes, st) \<and>
       (\<forall>rest. \<exists>vs pool'. read_values sample_debug 0 (length pool) (bytes @ rest) [] = Some (vs, rest, pool') \<and>
         (\<exists>ov \<in> set pool'. ov_class ov = StackObjectValue \<and> ov_id ov = int m \<and> ov_field_length ov = Some (ConstantIntValue (sa_nfields sample_object)))))"
    by meson
  moreover have "safepoint_pc matched_mach 64 = 64" "length (ms_jvms matched_mach) = 1" by (simp_all add: safepoint_pc_def matched_mach_def)
  ultimately show ?thesis using T(1) matched unfolding A(4) by metis
qed

end
